(* ===== verification/Prelude.thy ===== *)
theory Prelude
  imports Main "HOL-Library.Sublist"
begin

text \<open>
  Shared vocabulary of the development: Go's small string and slice helpers, and the list,
  option and map facts that several components use. Strings are lists of characters; a
  character stands for one code point of a Go string (the programs modelled here only test
  for ASCII characters, so no operation depends on how a code point is encoded).
\<close>

section \<open>Collections of facts\<close>

named_theorems pattern_simps \<open>evaluation of permission patterns\<close>
named_theorems rule_simps \<open>evaluation of permission rules\<close>

section \<open>Strings\<close>

abbreviation backslash :: char where
  "backslash \<equiv> CHR 0x5C"

text \<open>Go's \<open>strings.HasSuffix\<close> and \<open>strings.HasPrefix\<close>.\<close>

definition has_suffix :: "'a list \<Rightarrow> 'a list \<Rightarrow> bool" where
  "has_suffix s suf \<longleftrightarrow> length suf \<le> length s \<and> drop (length s - length suf) s = suf"

definition has_prefix :: "'a list \<Rightarrow> 'a list \<Rightarrow> bool" where
  "has_prefix s pre \<longleftrightarrow> take (length pre) s = pre"

lemma has_suffix_append [simp]: "has_suffix (xs @ suf) suf"
  by (simp add: has_suffix_def)

lemma has_suffixE:
  assumes "has_suffix s suf"
  obtains pre where "s = pre @ suf"
  using assms by (metis append_take_drop_id has_suffix_def)

lemma has_suffix_iff: "has_suffix s suf \<longleftrightarrow> (\<exists>pre. s = pre @ suf)"
  by (metis has_suffixE has_suffix_append)

lemma has_prefix_iff: "has_prefix s pre \<longleftrightarrow> (\<exists>post. s = pre @ post)"
  unfolding has_prefix_def by (metis append_eq_conv_conj append_take_drop_id)

section \<open>Lists\<close>

text \<open>The last \<open>n\<close> elements, Go's \<open>xs[len(xs)-n:]\<close> for \<open>n\<close> at most the length.\<close>

definition last_n :: "nat \<Rightarrow> 'a list \<Rightarrow> 'a list" where
  "last_n n xs = drop (length xs - n) xs"

lemma length_last_n [simp]: "length (last_n n xs) = min n (length xs)"
  by (simp add: last_n_def)

lemma last_n_all [simp]: "length xs \<le> n \<Longrightarrow> last_n n xs = xs"
  by (simp add: last_n_def)

lemma set_last_n: "set (last_n n xs) \<subseteq> set xs"
  by (simp add: last_n_def set_drop_subset)

lemma suffix_last_n: "suffix (last_n n xs) xs"
  by (simp add: last_n_def suffix_drop)

end
