(* ===== verification/Patterns.thy ===== *)
theory Patterns
  imports Prelude
begin

text \<open>
  Permission patterns: the two matchers a permission rule can be compared with.
  \<^item> \<open>wildcard_match\<close> is \<open>wildcardMatch\<close> of internal/permissions/ruleset.go: OpenCode's
    globs, where a backslash reads as a slash.
  \<^item> \<open>match_pattern\<close>, \<open>exact_pattern\<close> and \<open>pattern_value\<close> are \<open>MatchPattern\<close>,
    \<open>ExactPattern\<close> and \<open>PatternValue\<close> of internal/providerprotocol/pattern.go: globs with a
    backslash escape, so that a tool call can be granted exactly.

  Both functions of the source build a regular expression piece by piece and let Go's
  \<open>regexp\<close> package run it anchored at both ends. The pieces they build are exactly four
  (\<open>.*\<close>, \<open>.\<close>, a quoted literal, and the optional tail \<open>( .*)?\<close>), which is the
  datatype \<open>piece\<close>; \<open>rx_match\<close> runs a list of them and \<open>rx_lang\<close> is the language the
  regular expression denotes.
\<close>

section \<open>Regular expressions the code builds\<close>

datatype piece =
    Lit char     \<comment> \<open>\<open>regexp.QuoteMeta(c)\<close>\<close>
  | AnyChar      \<comment> \<open>\<open>.\<close> under \<open>(?s)\<close>\<close>
  | AnyString    \<comment> \<open>\<open>.*\<close> under \<open>(?s)\<close>\<close>
  | OptTail      \<comment> \<open>\<open>( .*)?\<close>\<close>

fun rx_match :: "piece list \<Rightarrow> string \<Rightarrow> bool" where
  "rx_match [] s = (s = [])"
| "rx_match (Lit c # ps) s = (case s of [] \<Rightarrow> False | d # s' \<Rightarrow> d = c \<and> rx_match ps s')"
| "rx_match (AnyChar # ps) s = (case s of [] \<Rightarrow> False | d # s' \<Rightarrow> rx_match ps s')"
| "rx_match (AnyString # ps) [] = rx_match ps []"
| "rx_match (AnyString # ps) (d # s) = (rx_match ps (d # s) \<or> rx_match (AnyString # ps) s)"
| "rx_match (OptTail # ps) [] = rx_match ps []"
| "rx_match (OptTail # ps) (d # s) =
     (rx_match ps (d # s) \<or> d = CHR '' '' \<and> rx_match (AnyString # ps) s)"

text \<open>The language of a list of pieces, independent of any matching strategy.\<close>

fun piece_lang :: "piece \<Rightarrow> string set" where
  "piece_lang (Lit c) = {[c]}"
| "piece_lang AnyChar = {[c] | c. True}"
| "piece_lang AnyString = UNIV"
| "piece_lang OptTail = insert [] {CHR '' '' # s | s. True}"

fun rx_lang :: "piece list \<Rightarrow> string set" where
  "rx_lang [] = {[]}"
| "rx_lang (p # ps) = {u @ v | u v. u \<in> piece_lang p \<and> v \<in> rx_lang ps}"

lemma rx_lang_AnyString_Nil: "[] \<in> rx_lang (AnyString # ps) \<longleftrightarrow> [] \<in> rx_lang ps"
  by simp

lemma rx_lang_AnyString_Cons:
  "d # s \<in> rx_lang (AnyString # ps) \<longleftrightarrow> d # s \<in> rx_lang ps \<or> s \<in> rx_lang (AnyString # ps)"
  by (auto simp: Cons_eq_append_conv)

lemma rx_lang_AnyChar:
  "s \<in> rx_lang (AnyChar # ps) \<longleftrightarrow> (\<exists>d s'. s = d # s' \<and> s' \<in> rx_lang ps)"
  by (simp, metis append_Cons append_Nil)

lemma rx_match_lang: "rx_match ps s \<longleftrightarrow> s \<in> rx_lang ps"
proof (induction ps s rule: rx_match.induct)
  case (2 c ps s)
  then show ?case by (cases s) auto
next
  case (3 ps s)
  then show ?case by (cases s) (simp_all add: rx_lang_AnyChar del: rx_lang.simps)
next
  case (5 ps d s)
  then show ?case by (simp only: rx_match.simps rx_lang_AnyString_Cons)
next
  case (7 ps d s)
  then show ?case by (auto simp: Cons_eq_append_conv)
qed auto

lemma rx_match_AnyString [pattern_simps]: "rx_match [AnyString] s"
  by (simp add: rx_match_lang)

lemma rx_match_Lits [pattern_simps]: "rx_match (map Lit u @ ps) s \<longleftrightarrow> (\<exists>v. s = u @ v \<and> rx_match ps v)"
  by (induction u arbitrary: s) (auto split: list.splits)

lemma rx_match_Lits_only [pattern_simps]: "rx_match (map Lit u) s \<longleftrightarrow> s = u"
  using rx_match_Lits [of u "[]" s] by auto

lemma rx_match_OptTail_only [pattern_simps]:
  "rx_match [OptTail] s \<longleftrightarrow> s = [] \<or> (\<exists>v. s = CHR '' '' # v)"
  by (cases s) (auto simp: pattern_simps)

section \<open>A trailing \<open>" *"\<close> also matches the bare command\<close>

definition opt_tail :: "piece list \<Rightarrow> piece list" where
  "opt_tail ps = (if has_suffix ps [Lit (CHR '' ''), AnyString]
     then take (length ps - 2) ps @ [OptTail] else ps)"

lemma opt_tail_suffix [simp]: "opt_tail (ps @ [Lit (CHR '' ''), AnyString]) = ps @ [OptTail]"
  by (simp add: opt_tail_def)

lemma opt_tail_Lits [simp]: "opt_tail (map Lit s) = map Lit s"
proof -
  have "AnyString \<notin> set (map Lit s)" by auto
  then have "\<not> has_suffix (map Lit s) [Lit (CHR '' ''), AnyString]"
    by (metis has_suffix_iff in_set_conv_decomp list.set_intros append_is_Nil_conv set_append UnI2 list.set_intros)
  then show ?thesis by (simp add: opt_tail_def)
qed

lemma opt_tail_single [simp]: "opt_tail [p] = [p]"
  by (simp add: opt_tail_def has_suffix_def)

section \<open>OpenCode globs\<close>

text \<open>\<open>strings.ReplaceAll(s, `\`, "/")\<close>.\<close>

definition slashes :: "string \<Rightarrow> string" where
  "slashes s = map (\<lambda>c. if c = backslash then CHR ''/'' else c) s"

definition glob_piece :: "char \<Rightarrow> piece" where
  "glob_piece c = (if c = CHR ''*'' then AnyString else if c = CHR ''?'' then AnyChar else Lit c)"

definition wildcard_match :: "string \<Rightarrow> string \<Rightarrow> bool" where
  "wildcard_match str pat =
     rx_match (opt_tail (map glob_piece (slashes pat))) (slashes str)"

section \<open>Exact patterns\<close>

definition escapable :: "char \<Rightarrow> bool" where
  "escapable c \<longleftrightarrow> c = CHR ''*'' \<or> c = CHR ''?'' \<or> c = backslash"

fun exact_pattern :: "string \<Rightarrow> string" where
  "exact_pattern [] = []"
| "exact_pattern (c # cs) =
     (if c = CHR ''*'' \<or> c = CHR ''?'' then backslash # c # exact_pattern cs
      else if c = backslash \<and> cs \<noteq> [] \<and> escapable (hd cs) then backslash # c # exact_pattern cs
      else c # exact_pattern cs)"

fun pattern_pieces :: "string \<Rightarrow> piece list" where
  "pattern_pieces [] = []"
| "pattern_pieces [c] = [glob_piece c]"
| "pattern_pieces (c # d # cs) =
     (if c = backslash \<and> escapable d then Lit d # pattern_pieces cs
      else glob_piece c # pattern_pieces (d # cs))"

definition match_pattern :: "string \<Rightarrow> string \<Rightarrow> bool" where
  "match_pattern pat s =
     (if pat = '''' \<or> pat = ''*'' then True else rx_match (opt_tail (pattern_pieces pat)) s)"

fun unescape :: "string \<Rightarrow> string" where
  "unescape [] = []"
| "unescape [c] = [c]"
| "unescape (c # d # cs) =
     (if c = backslash \<and> escapable d then d # unescape cs else c # unescape (d # cs))"

definition pattern_value :: "string \<Rightarrow> string" where
  "pattern_value p = (if backslash \<notin> set p then p else unescape p)"

section \<open>Facts about the two matchers\<close>

text \<open>A text without wildcards and backslashes: a plain command, path or permission key.\<close>

definition plain :: "string \<Rightarrow> bool" where
  "plain s \<longleftrightarrow> (\<forall>c \<in> set s. \<not> escapable c)"

lemma plain_Nil [simp]: "plain []"
  by (simp add: plain_def)

lemma plain_Cons [simp]: "plain (c # cs) \<longleftrightarrow> \<not> escapable c \<and> plain cs"
  by (auto simp: plain_def)

lemma plain_slashes [simp]: "plain s \<Longrightarrow> slashes s = s"
  by (induction s) (auto simp: slashes_def escapable_def)

lemma glob_piece_plain [simp]: "\<not> escapable c \<Longrightarrow> glob_piece c = Lit c"
  by (auto simp: glob_piece_def escapable_def)

lemma map_glob_piece_plain [simp]: "plain s \<Longrightarrow> map glob_piece s = map Lit s"
  by (induction s) auto

lemma slashes_append [simp]: "slashes (u @ v) = slashes u @ slashes v"
  by (simp add: slashes_def)

lemma slashes_Cons [simp]:
  "slashes (c # cs) = (if c = backslash then CHR ''/'' else c) # slashes cs"
  by (simp add: slashes_def)

lemma slashes_Nil [simp]: "slashes [] = []"
  by (simp add: slashes_def)

lemma slashes_Cons_space: "slashes s = CHR '' '' # t \<Longrightarrow> \<exists>s'. s = CHR '' '' # s'"
  by (cases s) (auto split: if_splits)

lemma wildcard_match_star [pattern_simps]: "wildcard_match s ''*''"
  by (simp add: wildcard_match_def slashes_def glob_piece_def pattern_simps)

lemma wildcard_match_plain:
  "plain p \<Longrightarrow> wildcard_match s p \<longleftrightarrow> slashes s = p"
  by (simp add: wildcard_match_def pattern_simps)

lemma wildcard_match_command:
  assumes "plain p"
  shows "wildcard_match s (p @ '' *'') \<longleftrightarrow> slashes s = p \<or> (\<exists>v. slashes s = p @ '' '' @ v)"
  using assms
  by (auto simp: wildcard_match_def glob_piece_def pattern_simps)

lemma pattern_pieces_plain: "plain p \<Longrightarrow> pattern_pieces (p @ q) = map Lit p @ pattern_pieces q"
proof (induction p)
  case (Cons c p)
  then have c: "\<not> escapable c" "c \<noteq> backslash" by (auto simp: escapable_def)
  with Cons show ?case by (cases "p @ q") auto
qed simp

lemma match_pattern_star [pattern_simps]: "match_pattern ''*'' s"
  by (simp add: match_pattern_def)

lemma match_pattern_plain:
  assumes "plain p" and "p \<noteq> []"
  shows "match_pattern p s \<longleftrightarrow> s = p"
proof -
  have "pattern_pieces p = map Lit p"
    using pattern_pieces_plain [OF assms(1), of "[]"] by simp
  moreover have "p \<noteq> ''*''" using assms by (auto simp: escapable_def)
  ultimately show ?thesis using assms by (simp add: match_pattern_def pattern_simps)
qed

lemma match_pattern_command:
  assumes "plain p"
  shows "match_pattern (p @ '' *'') s \<longleftrightarrow> s = p \<or> (\<exists>v. s = p @ '' '' @ v)"
proof -
  have "pattern_pieces (p @ '' *'') = map Lit p @ [Lit (CHR '' ''), AnyString]"
    by (simp add: pattern_pieces_plain [OF assms] glob_piece_def)
  then show ?thesis
    by (auto simp: match_pattern_def pattern_simps append_eq_Cons_conv)
qed

text \<open>\<open>ExactPattern\<close> escapes just enough: its pieces are the literals of the text.\<close>

lemma exact_pattern_head: "exact_pattern (c # cs) =
   (if c = CHR ''*'' \<or> c = CHR ''?'' then [backslash, c]
    else if c = backslash \<and> cs \<noteq> [] \<and> escapable (hd cs) then [backslash, c] else [c])
   @ exact_pattern cs"
  by simp

lemma hd_exact_pattern: "cs \<noteq> [] \<Longrightarrow> \<not> escapable (hd cs) \<Longrightarrow> hd (exact_pattern cs) = hd cs"
  by (cases cs) (auto simp: escapable_def)

lemma exact_pattern_eq_Nil [simp]: "exact_pattern s = [] \<longleftrightarrow> s = []"
  by (cases s) auto

lemma pattern_pieces_escape: "escapable c \<Longrightarrow>
  pattern_pieces (backslash # c # cs) = Lit c # pattern_pieces cs"
  by simp

lemma pattern_pieces_keep: "\<not> (c = backslash \<and> cs \<noteq> [] \<and> escapable (hd cs)) \<Longrightarrow>
  pattern_pieces (c # cs) = glob_piece c # pattern_pieces cs"
  by (cases cs) auto

lemma pattern_pieces_exact: "pattern_pieces (exact_pattern s) = map Lit s"
proof (induction s)
  case (Cons c s)
  consider (wild) "c = CHR ''*'' \<or> c = CHR ''?''"
    | (slash) "c = backslash" "s \<noteq> []" "escapable (hd s)"
    | (other) "\<not> (c = CHR ''*'' \<or> c = CHR ''?'')" "\<not> (c = backslash \<and> s \<noteq> [] \<and> escapable (hd s))"
    by blast
  then show ?case
  proof cases
    case wild
    with Cons show ?thesis by (auto simp: escapable_def)
  next
    case slash
    with Cons show ?thesis by (auto simp: escapable_def)
  next
    case other
    then have eq: "exact_pattern (c # s) = c # exact_pattern s" by simp
    have "\<not> (c = backslash \<and> exact_pattern s \<noteq> [] \<and> escapable (hd (exact_pattern s)))"
      using other(2) hd_exact_pattern by fastforce
    then have "pattern_pieces (c # exact_pattern s) = glob_piece c # pattern_pieces (exact_pattern s)"
      by (rule pattern_pieces_keep)
    with other(1) Cons eq show ?thesis by (simp add: glob_piece_def)
  qed
qed simp

lemma exact_pattern_not_star: "exact_pattern s \<noteq> ''*''"
  by (cases s) auto

lemma unescape_escape: "escapable c \<Longrightarrow> unescape (backslash # c # cs) = c # unescape cs"
  by simp

lemma unescape_keep: "\<not> (c = backslash \<and> cs \<noteq> [] \<and> escapable (hd cs)) \<Longrightarrow>
  unescape (c # cs) = c # unescape cs"
  by (cases cs) auto

lemma unescape_exact: "unescape (exact_pattern s) = s"
proof (induction s)
  case (Cons c s)
  consider (special) "c = CHR ''*'' \<or> c = CHR ''?'' \<or> c = backslash \<and> s \<noteq> [] \<and> escapable (hd s)"
    | (other) "\<not> (c = CHR ''*'' \<or> c = CHR ''?'')" "\<not> (c = backslash \<and> s \<noteq> [] \<and> escapable (hd s))"
    by blast
  then show ?case
  proof cases
    case special
    with Cons show ?thesis by (auto simp: escapable_def)
  next
    case other
    have "\<not> (c = backslash \<and> exact_pattern s \<noteq> [] \<and> escapable (hd (exact_pattern s)))"
      using other(2) hd_exact_pattern by fastforce
    from unescape_keep [OF this] other Cons show ?thesis by auto
  qed
qed simp

lemma unescape_no_backslash: "backslash \<notin> set p \<Longrightarrow> unescape p = p"
  by (induction p rule: unescape.induct) auto

lemma pattern_value_unescape: "pattern_value p = unescape p"
  by (simp add: pattern_value_def unescape_no_backslash)

section \<open>Properties\<close>

text \<open>"Allow always" on an exact pattern grants exactly that call. The pattern
  \<open>ExactPattern\<close> makes of any non-empty text matches that text and nothing else, however many
  wildcards and backslashes the text holds.\<close>

theorem exact_pattern_grants_only_itself:
  assumes "s \<noteq> []"
  shows "match_pattern (exact_pattern s) t \<longleftrightarrow> t = s"
  using assms exact_pattern_not_star [of s]
  by (simp add: match_pattern_def pattern_pieces_exact pattern_simps)

theorem exact_pattern_grants_only_itself_witness:
  "match_pattern (exact_pattern ''rm *'') ''rm *'' \<and> \<not> match_pattern (exact_pattern ''rm *'') ''rm -rf /''"
  using exact_pattern_grants_only_itself [of "''rm *''"] by simp

text \<open>\<open>PatternValue\<close> inverts \<open>ExactPattern\<close> on every text, the empty one included, so the
  literal value a prompt stands for is never lost by escaping.\<close>

theorem pattern_value_inverts_exact_pattern: "pattern_value (exact_pattern s) = s"
  by (simp add: pattern_value_unescape unescape_exact)

text \<open>The one text \<open>ExactPattern\<close> cannot make exact: the empty pattern means "flat permission"
  and matches every call.\<close>

lemma exact_pattern_empty_matches_all: "match_pattern (exact_pattern []) t"
  by (simp add: match_pattern_def)

text \<open>The language of OpenCode's globs, stated on the pattern as it is written: \<open>*\<close> is any text, \<open>?\<close> any
  one character, and any other character itself, where a backslash and a slash are the same.\<close>

definition same_letter :: "char \<Rightarrow> char \<Rightarrow> bool" where
  "same_letter c d \<longleftrightarrow> c = d \<or> {c, d} = {CHR 0x5C, CHR ''/''}"

inductive glob_accepts :: "string \<Rightarrow> string \<Rightarrow> bool" where
  nothing: "glob_accepts [] []"
| star: "glob_accepts p t \<Longrightarrow> glob_accepts (CHR ''*'' # p) (u @ t)"
| any: "glob_accepts p t \<Longrightarrow> glob_accepts (CHR ''?'' # p) (c # t)"
| letter: "c \<noteq> CHR ''*'' \<Longrightarrow> c \<noteq> CHR ''?'' \<Longrightarrow> same_letter c d \<Longrightarrow> glob_accepts p t \<Longrightarrow> glob_accepts (c # p) (d # t)"

inductive_simps glob_nothing: "glob_accepts [] t"
inductive_simps glob_step: "glob_accepts (c # p) t"

lemma glob_accepts_simps [pattern_simps]:
  "glob_accepts [] t \<longleftrightarrow> t = []"
  "glob_accepts (CHR ''*'' # p) t \<longleftrightarrow> (\<exists>u v. t = u @ v \<and> glob_accepts p v)"
  "glob_accepts (CHR ''?'' # p) t \<longleftrightarrow> (\<exists>d v. t = d # v \<and> glob_accepts p v)"
  "c \<noteq> CHR ''*'' \<Longrightarrow> c \<noteq> CHR ''?'' \<Longrightarrow> glob_accepts (c # p) t \<longleftrightarrow> (\<exists>d v. t = d # v \<and> same_letter c d \<and> glob_accepts p v)"
  by (auto simp: glob_nothing glob_step)

lemma glob_piece_simps [pattern_simps]:
  "glob_piece CHR ''*'' = AnyString" "glob_piece CHR ''?'' = AnyChar"
  "c \<noteq> CHR ''*'' \<Longrightarrow> c \<noteq> CHR ''?'' \<Longrightarrow> glob_piece c = Lit c"
  by (simp_all add: glob_piece_def)

lemma slashes_letter: "slashes t = (if c = backslash then CHR ''/'' else c) # s \<longleftrightarrow> (\<exists>d v. t = d # v \<and> same_letter c d \<and> slashes v = s)"
  by (cases t) (auto simp: same_letter_def doubleton_eq_iff)

lemma slashes_split: "slashes t = u @ v \<longleftrightarrow> (\<exists>u' v'. t = u' @ v' \<and> slashes u' = u \<and> slashes v' = v)"
  by (auto simp: slashes_def map_eq_append_conv)

lemma rx_match_glob: "rx_match (map glob_piece (slashes p)) (slashes t) \<longleftrightarrow> glob_accepts p t"
proof (induction p arbitrary: t)
  case Nil
  show ?case by (simp add: pattern_simps slashes_def)
next
  case (Cons c p)
  let ?ps = "map glob_piece (slashes p)"
  consider "c = CHR ''*''" | "c = CHR ''?''" | (letter) "c \<noteq> CHR ''*''" "c \<noteq> CHR ''?''" by blast
  then show ?case
  proof cases
    case 1
    have "rx_match (AnyString # ?ps) (slashes t) \<longleftrightarrow> (\<exists>u v. slashes t = u @ v \<and> rx_match ?ps v)" by (auto simp: rx_match_lang)
    also have "\<dots> \<longleftrightarrow> (\<exists>u v. t = u @ v \<and> rx_match ?ps (slashes v))" by (auto simp: slashes_split)
    finally show ?thesis using 1 Cons by (simp add: pattern_simps)
  next
    case 2
    then show ?thesis using Cons by (cases t) (simp_all add: pattern_simps)
  next
    case letter
    let ?c = "if c = backslash then CHR ''/'' else c"
    have "rx_match (Lit ?c # ?ps) (slashes t) \<longleftrightarrow> (\<exists>s. slashes t = ?c # s \<and> rx_match ?ps s)" by (cases "slashes t") auto
    also have "\<dots> \<longleftrightarrow> (\<exists>d v. t = d # v \<and> same_letter c d \<and> rx_match ?ps (slashes v))" unfolding slashes_letter by blast
    finally show ?thesis using letter Cons by (simp add: pattern_simps)
  qed
qed

lemma glob_pieces_tail: "map glob_piece (slashes p) = ps @ [Lit (CHR '' ''), AnyString] \<longleftrightarrow> (\<exists>q. p = q @ '' *'' \<and> ps = map glob_piece (slashes q))"
proof
  assume a: "map glob_piece (slashes p) = ps @ [Lit (CHR '' ''), AnyString]"
  have "length (map glob_piece (slashes p)) = length ps + 2" unfolding a by simp
  then have l: "length p = length ps + 2" by (simp add: slashes_def)
  define q where "q = take (length ps) p"
  have "length (drop (length ps) p) = Suc (Suc 0)" using l by simp
  then obtain x y where xy: "drop (length ps) p = [x, y]" unfolding length_Suc_conv length_0_conv by blast
  then have p: "p = q @ [x, y]" unfolding q_def by (metis append_take_drop_id)
  have "length q = length ps" using l unfolding q_def by simp
  then have "ps = map glob_piece (slashes q)" "glob_piece (hd (slashes [x])) = Lit (CHR '' '')" "glob_piece (hd (slashes [y])) = AnyString"
    using a unfolding p by (auto simp: slashes_def)
  then show "\<exists>q. p = q @ '' *'' \<and> ps = map glob_piece (slashes q)"
    using p by (auto simp: glob_piece_def split: if_split_asm)
next
  assume "\<exists>q. p = q @ '' *'' \<and> ps = map glob_piece (slashes q)"
  then show "map glob_piece (slashes p) = ps @ [Lit (CHR '' ''), AnyString]" by (auto simp: glob_piece_def)
qed

text \<open>C34: The wildcard matcher, which builds a regular expression, accepts exactly the texts of the
  glob: \<open>*\<close> stands for any text, \<open>?\<close> for one character, every other character for itself with
  backslash and slash alike; and a pattern that ends in \<open>" *"\<close> also accepts what it accepts without
  that end, the bare command.\<close>

theorem wildcard_match_is_glob_language:
  "wildcard_match str pat \<longleftrightarrow> glob_accepts pat str \<or> (\<exists>p. pat = p @ '' *'' \<and> glob_accepts p str)"
proof (cases "\<exists>p. pat = p @ '' *''")
  case True
  then obtain p where p: "pat = p @ '' *''" by blast
  have pieces: "map glob_piece (slashes pat) = map glob_piece (slashes p) @ [Lit (CHR '' ''), AnyString]" by (simp add: p glob_piece_def)
  have "rx_match (ps @ [OptTail]) s \<longleftrightarrow> rx_match ps s \<or> rx_match (ps @ [Lit (CHR '' ''), AnyString]) s" for ps s
    unfolding rx_match_lang
  proof (induction ps arbitrary: s)
    case (Cons x ps)
    then show ?case by (simp only: append_Cons rx_lang.simps) blast
  qed auto
  then have "wildcard_match str pat \<longleftrightarrow> rx_match (map glob_piece (slashes p)) (slashes str) \<or> rx_match (map glob_piece (slashes pat)) (slashes str)"
    unfolding wildcard_match_def pieces opt_tail_suffix .
  then show ?thesis unfolding rx_match_glob using p by auto
next
  case False
  then have "\<not> has_suffix (map glob_piece (slashes pat)) [Lit (CHR '' ''), AnyString]"
    using glob_pieces_tail[of pat] by (auto simp: has_suffix_iff)
  then show ?thesis using False by (simp add: wildcard_match_def opt_tail_def rx_match_glob)
qed

end
