(* ===== verification/Rule_Set.thy ===== *)
theory Rule_Set
  imports Patterns
begin

text \<open>
  ocman's permission-rule evaluator, \<open>RuleSet.Decide\<close> of internal/permissions/ruleset.go
  (its contract is in doc.go). A prompt asks for a permission with a list of patterns; the
  configured rules and the session's approvals are two tiers of a rule set, and the decision
  is allow, ask, deny or none (the empty action: the judge or the user decides).
\<close>

section \<open>Rules, rule sets and their evaluation\<close>

text \<open>\<open>platforms.PermissionRule\<close>.\<close>

record permission_rule =
  rule_permission :: string
  rule_pattern :: string
  rule_action :: string

datatype matcher = GlobMatch | ExactMatch

text \<open>Whether a platform's prompt patterns are exact (\<open>Capabilities.ExactPatterns\<close>).\<close>

definition matcher_for :: "bool \<Rightarrow> matcher" where
  "matcher_for exact_patterns = (if exact_patterns then ExactMatch else GlobMatch)"

definition ActionAllow :: string where "ActionAllow = ''allow''"
definition ActionAsk :: string where "ActionAsk = ''ask''"
definition ActionDeny :: string where "ActionDeny = ''deny''"
definition ActionNone :: string where "ActionNone = ''''"

lemmas action_defs = ActionAllow_def ActionAsk_def ActionDeny_def ActionNone_def

record rule_set =
  set_matcher :: matcher
  configured :: "permission_rule list"
  approved :: "permission_rule list"
  default_action :: string

text \<open>\<open>Matcher.match\<close>: the pattern first, then the text.\<close>

fun matcher_match :: "matcher \<Rightarrow> string \<Rightarrow> string \<Rightarrow> bool" where
  "matcher_match ExactMatch pat s = match_pattern pat s"
| "matcher_match GlobMatch pat s = wildcard_match s pat"

text \<open>
  \<open>lastMatch\<close> walks the rules from the last to the first; \<open>None\<close> is its second result
  \<open>false\<close>. An action other than allow and deny counts as ask.
\<close>

definition normal_action :: "string \<Rightarrow> string" where
  "normal_action a = (if a = ActionAllow \<or> a = ActionDeny then a else ActionAsk)"

fun first_match :: "permission_rule list \<Rightarrow> string \<Rightarrow> string \<Rightarrow> (string \<Rightarrow> string \<Rightarrow> bool) \<Rightarrow> string option"
where
  "first_match [] perm val mt = None"
| "first_match (r # rs) perm val mt =
     (if mt (rule_permission r) perm \<and> mt (rule_pattern r) val
      then Some (normal_action (rule_action r))
      else first_match rs perm val mt)"

definition last_match :: "permission_rule list \<Rightarrow> string \<Rightarrow> string \<Rightarrow> (string \<Rightarrow> string \<Rightarrow> bool) \<Rightarrow> string option"
where
  "last_match rules perm val mt = first_match (rev rules) perm val mt"

definition prompt_value :: "matcher \<Rightarrow> string \<Rightarrow> string" where
  "prompt_value m pat = (if m = ExactMatch then pattern_value pat else pat)"

definition decide_pattern :: "rule_set \<Rightarrow> string \<Rightarrow> string \<Rightarrow> string" where
  "decide_pattern s perm pat =
     (let mt = matcher_match (set_matcher s); val = prompt_value (set_matcher s) pat;
          conf = last_match (configured s) perm val mt
      in if conf = Some ActionDeny then ActionDeny
         else case last_match (approved s) perm val mt of
             Some a \<Rightarrow> a
           | None \<Rightarrow> (case conf of Some a \<Rightarrow> a | None \<Rightarrow> default_action s))"

text \<open>The loop of \<open>Decide\<close> over the patterns, with its two flags and the early return.\<close>

fun decide_loop :: "rule_set \<Rightarrow> string \<Rightarrow> string list \<Rightarrow> bool \<Rightarrow> bool \<Rightarrow> string" where
  "decide_loop s perm [] matched all_allowed =
     (if all_allowed then ActionAllow else if \<not> matched then ActionNone else ActionAsk)"
| "decide_loop s perm (pat # pats) matched all_allowed =
     (let action = decide_pattern s perm pat
      in if action = ActionDeny then ActionDeny
         else decide_loop s perm pats (matched \<or> action \<noteq> ActionNone)
                (all_allowed \<and> action = ActionAllow))"

definition decide :: "rule_set \<Rightarrow> string \<Rightarrow> string list \<Rightarrow> string" where
  "decide s perm pats =
     decide_loop s perm (if pats = [] then [''*''] else pats) False True"

definition allows :: "rule_set \<Rightarrow> string \<Rightarrow> string list \<Rightarrow> bool" where
  "allows s perm pats \<longleftrightarrow> decide s perm pats = ActionAllow"

section \<open>The evaluator in one formula\<close>

abbreviation effective_patterns :: "string list \<Rightarrow> string list" where
  "effective_patterns pats \<equiv> (if pats = [] then [''*''] else pats)"

lemma action_distinct [simp]:
  "ActionAllow \<noteq> ActionDeny" "ActionDeny \<noteq> ActionAllow" "ActionAllow \<noteq> ActionNone"
  "ActionNone \<noteq> ActionAllow" "ActionDeny \<noteq> ActionNone" "ActionNone \<noteq> ActionDeny"
  "ActionAsk \<noteq> ActionAllow" "ActionAllow \<noteq> ActionAsk" "ActionAsk \<noteq> ActionDeny"
  "ActionDeny \<noteq> ActionAsk" "ActionAsk \<noteq> ActionNone" "ActionNone \<noteq> ActionAsk"
  by (simp_all add: action_defs)

lemma decide_loop_spec: "decide_loop s perm pats matched all_allowed =
   (if ActionDeny \<in> decide_pattern s perm ` set pats then ActionDeny
    else if all_allowed \<and> decide_pattern s perm ` set pats \<subseteq> {ActionAllow} then ActionAllow
    else if \<not> matched \<and> decide_pattern s perm ` set pats \<subseteq> {ActionNone} then ActionNone
    else ActionAsk)"
  by (induction pats arbitrary: matched all_allowed) (auto simp: Let_def)

lemma decide_spec: "decide s perm pats =
   (let acts = decide_pattern s perm ` set (effective_patterns pats)
    in if ActionDeny \<in> acts then ActionDeny
       else if acts = {ActionAllow} then ActionAllow
       else if acts = {ActionNone} then ActionNone
       else ActionAsk)"
proof -
  define ps where "ps = effective_patterns pats"
  let ?acts = "decide_pattern s perm ` set ps"
  have ne: "?acts \<noteq> {}" by (simp add: ps_def)
  have sub: "?acts \<subseteq> {a} \<longleftrightarrow> ?acts = {a}" for a by (metis ne subset_singletonD order_refl)
  have "decide s perm pats = decide_loop s perm ps False True"
    by (simp add: decide_def ps_def)
  also have "\<dots> = (if ActionDeny \<in> ?acts then ActionDeny
       else if ?acts = {ActionAllow} then ActionAllow
       else if ?acts = {ActionNone} then ActionNone else ActionAsk)"
    by (simp only: decide_loop_spec sub simp_thms)
  finally show ?thesis by (simp only: ps_def Let_def)
qed

lemma decide_denied:
  "pat \<in> set (effective_patterns pats) \<Longrightarrow> decide_pattern s perm pat = ActionDeny \<Longrightarrow>
   decide s perm pats = ActionDeny"
  by (force simp: decide_def decide_loop_spec image_iff)

lemma decide_uniform:
  assumes "\<And>pat. decide_pattern s perm pat = a" and "a = ActionAllow \<or> a = ActionDeny"
  shows "decide s perm pats = a"
  using assms(2) by (auto simp: decide_def decide_loop_spec assms(1) image_constant_conv)

lemma decide_loop_allow: "decide_loop s perm ps False True = ActionAllow \<longleftrightarrow>
    (\<forall>pat \<in> set ps. decide_pattern s perm pat = ActionAllow)"
  by (auto simp: decide_loop_spec)

lemma allows_iff: "allows s perm pats \<longleftrightarrow>
    (\<forall>pat \<in> set (effective_patterns pats). decide_pattern s perm pat = ActionAllow)"
  by (simp only: allows_def decide_def decide_loop_allow)

section \<open>Last match wins\<close>

lemma first_match_append: "first_match (xs @ ys) perm val mt =
   (case first_match xs perm val mt of Some a \<Rightarrow> Some a | None \<Rightarrow> first_match ys perm val mt)"
  by (induction xs) auto

lemma last_match_append [rule_simps]: "last_match (xs @ ys) perm val mt =
   (case last_match ys perm val mt of Some a \<Rightarrow> Some a | None \<Rightarrow> last_match xs perm val mt)"
  by (auto simp: last_match_def first_match_append split: option.split)

lemma last_match_Nil [rule_simps]: "last_match [] perm val mt = None"
  by (simp add: last_match_def)

lemma last_match_single [rule_simps]: "last_match [r] perm val mt =
   (if mt (rule_permission r) perm \<and> mt (rule_pattern r) val
    then Some (normal_action (rule_action r)) else None)"
  by (simp add: last_match_def)

lemma last_match_Some:
  "last_match rules perm val mt = Some a \<Longrightarrow>
   \<exists>r \<in> set rules. mt (rule_permission r) perm \<and> mt (rule_pattern r) val
     \<and> a = normal_action (rule_action r)"
proof (induction rules rule: rev_induct)
  case (snoc r rules)
  then show ?case
    by (auto simp: rule_simps split: if_splits option.splits)
qed (simp add: rule_simps)

lemma last_match_None_iff: "last_match rules perm val mt = None \<longleftrightarrow>
    (\<forall>r \<in> set rules. \<not> (mt (rule_permission r) perm \<and> mt (rule_pattern r) val))"
  by (induction rules rule: rev_induct) (auto simp: rule_simps split: if_splits)

lemma normal_action_cases: "normal_action a \<in> {ActionAllow, ActionDeny, ActionAsk}"
  by (auto simp: normal_action_def)

lemma normal_action_simps [simp]:
  "normal_action ActionAllow = ActionAllow" "normal_action ActionDeny = ActionDeny"
  by (simp_all add: normal_action_def)

lemma last_match_action: "last_match rules perm val mt = Some a \<Longrightarrow>
    a \<in> {ActionAllow, ActionDeny, ActionAsk}"
  using last_match_Some normal_action_cases by fastforce

section \<open>What the evaluator needs from a matcher\<close>

text \<open>
  The interface between the evaluator and the two matchers: \<open>*\<close> matches everything, a plain
  text matches itself, and a grant ending in \<open>" *"\<close> covers the bare command and the command
  with any arguments.
\<close>

locale pattern_matcher =
  fixes mt :: "string \<Rightarrow> string \<Rightarrow> bool"
  assumes star: "mt ''*'' s"
    and literal: "plain p \<Longrightarrow> p \<noteq> [] \<Longrightarrow> mt p p"
    and command: "plain p \<Longrightarrow> mt (p @ '' *'') p"
    and arguments: "plain p \<Longrightarrow> mt (p @ '' *'') (p @ '' '' @ args)"
begin

text \<open>A closing \<open>*\<close>/\<open>*\<close> rule decides every prompt: the YOLO and the lockdown postures.\<close>

lemma last_match_star: "last_match
    (rs @ [\<lparr>rule_permission = ''*'', rule_pattern = ''*'', rule_action = a\<rparr>]) perm val mt
   = Some (normal_action a)"
  by (simp add: rule_simps star)

lemma last_match_grant:
  assumes "plain perm" "perm \<noteq> []" "plain cmd" "val = cmd \<or> val = cmd @ '' '' @ args"
  shows "last_match
    (rs @ [\<lparr>rule_permission = perm, rule_pattern = cmd @ '' *'', rule_action = a\<rparr>]) perm val mt
   = Some (normal_action a)"
  using assms literal command arguments by (auto simp: rule_simps)

end

interpretation glob: pattern_matcher "matcher_match GlobMatch"
proof unfold_locales
  fix p args :: string
  assume "plain p"
  then show "matcher_match GlobMatch (p @ '' *'') (p @ '' '' @ args)"
    by (simp add: wildcard_match_command)
qed (simp_all add: wildcard_match_star wildcard_match_plain wildcard_match_command)

interpretation exact: pattern_matcher "matcher_match ExactMatch"
  by unfold_locales (auto simp: match_pattern_star match_pattern_plain match_pattern_command)

section \<open>Tiers\<close>

lemma decide_pattern_configured_deny:
  "last_match (configured s) perm (prompt_value (set_matcher s) pat) (matcher_match (set_matcher s))
     = Some ActionDeny \<Longrightarrow> decide_pattern s perm pat = ActionDeny"
  by (simp add: decide_pattern_def)

lemma decide_pattern_none_iff:
  assumes "default_action s = ActionNone"
  shows "decide_pattern s perm pat = ActionNone \<longleftrightarrow>
    last_match (configured s) perm (prompt_value (set_matcher s) pat) (matcher_match (set_matcher s)) = None
    \<and> last_match (approved s) perm (prompt_value (set_matcher s) pat) (matcher_match (set_matcher s)) = None"
  using assms
  by (auto simp: decide_pattern_def Let_def dest: last_match_action split: option.splits)

lemma decide_pattern_no_approvals: "approved s = [] \<Longrightarrow> decide_pattern s perm pat =
   (case last_match (configured s) perm (prompt_value (set_matcher s) pat)
      (matcher_match (set_matcher s)) of Some a \<Rightarrow> a | None \<Rightarrow> default_action s)"
  by (auto simp: decide_pattern_def Let_def rule_simps split: option.splits)

section \<open>Properties\<close>

text \<open>C22: a configured deny is final. If, for one of the prompt's patterns, the last configured
  rule that matches denies, the whole prompt is denied, whatever the session's approvals are and
  whatever the other patterns decide.\<close>

theorem configured_deny_is_final:
  assumes "pat \<in> set (effective_patterns pats)"
    and "last_match (configured s) perm (prompt_value (set_matcher s) pat)
           (matcher_match (set_matcher s)) = Some ActionDeny"
  shows "decide (s\<lparr>approved := appr\<rparr>) perm pats = ActionDeny"
proof -
  have "decide_pattern (s\<lparr>approved := appr\<rparr>) perm pat = ActionDeny"
    using assms(2) by (intro decide_pattern_configured_deny) simp
  with assms(1) show ?thesis by (rule decide_denied)
qed

theorem configured_deny_is_final_witness:
  "decide \<lparr>set_matcher = GlobMatch,
      configured = [\<lparr>rule_permission = ''*'', rule_pattern = ''*'', rule_action = ''allow''\<rparr>,
                    \<lparr>rule_permission = ''bash'', rule_pattern = ''rm *'', rule_action = ''deny''\<rparr>],
      approved = [\<lparr>rule_permission = ''bash'', rule_pattern = ''rm *'', rule_action = ''allow''\<rparr>],
      default_action = ''''\<rparr> ''bash'' [''ls'', ''rm x''] = ActionDeny"
proof -
  let ?s = "\<lparr>set_matcher = GlobMatch,
      configured = [\<lparr>rule_permission = ''*'', rule_pattern = ''*'', rule_action = ''allow''\<rparr>,
                    \<lparr>rule_permission = ''bash'', rule_pattern = ''rm *'', rule_action = ''deny''\<rparr>],
      approved = [], default_action = ''''\<rparr>"
  have m: "last_match (configured ?s) ''bash'' (prompt_value (set_matcher ?s) ''rm x'')
      (matcher_match (set_matcher ?s)) = Some ActionDeny" by code_simp
  show ?thesis
    using configured_deny_is_final [of "''rm x''" "[''ls'', ''rm x'']" ?s "''bash''", OF _ m] by simp
qed

text \<open>the decision table over all patterns of a prompt. Any denied pattern denies; if every
  pattern is allowed the prompt is allowed; if no pattern is decided the decision is left to the
  judge or the user; anything else asks. In particular order and repetition of the patterns do
  not matter, and a prompt without patterns is the single pattern \<open>*\<close>.\<close>

theorem decide_table:
  "decide s perm pats =
     (let acts = decide_pattern s perm ` set (effective_patterns pats)
      in if ActionDeny \<in> acts then ActionDeny
         else if acts = {ActionAllow} then ActionAllow
         else if acts = {ActionNone} then ActionNone else ActionAsk)"
  by (rule decide_spec)

text \<open>"Allow always" replies only widen. Adding \<open>allow\<close> approvals to a session keeps every
  prompt that was allowed allowed, and a prompt they newly allow was not denied by a configured
  rule on any of its patterns.\<close>

theorem allow_approvals_only_widen:
  assumes "\<forall>r \<in> set extra. rule_action r = ActionAllow"
  shows "(allows s perm pats \<longrightarrow> allows (s\<lparr>approved := approved s @ extra\<rparr>) perm pats)
    \<and> (allows (s\<lparr>approved := approved s @ extra\<rparr>) perm pats \<longrightarrow>
        (\<forall>pat \<in> set (effective_patterns pats).
           last_match (configured s) perm (prompt_value (set_matcher s) pat)
             (matcher_match (set_matcher s)) \<noteq> Some ActionDeny))"
proof -
  have extra: "a = ActionAllow" if "last_match extra perm v mt = Some a" for v mt a
    using last_match_Some [OF that] assms by auto
  have "decide_pattern (s\<lparr>approved := approved s @ extra\<rparr>) perm pat = ActionAllow"
    if "decide_pattern s perm pat = ActionAllow" for pat
    using that extra by (auto simp: decide_pattern_def Let_def rule_simps split: option.splits if_splits)
  moreover have "last_match (configured s) perm (prompt_value (set_matcher s) pat)
        (matcher_match (set_matcher s)) \<noteq> Some ActionDeny"
    if "decide_pattern (s\<lparr>approved := approved s @ extra\<rparr>) perm pat = ActionAllow" for pat
    using that by (auto simp: decide_pattern_def Let_def)
  ultimately show ?thesis by (simp add: allows_iff)
qed

theorem allow_approvals_only_widen_witness:
  "allows (\<lparr>set_matcher = ExactMatch, configured = [], approved = [], default_action = ''''\<rparr>
      \<lparr>approved := [\<lparr>rule_permission = ''bash'', rule_pattern = ''ls *'', rule_action = ActionAllow\<rparr>]\<rparr>)
      ''bash'' [''ls -l''] \<and> \<not> allows \<lparr>set_matcher = ExactMatch, configured = [], approved = [],
        default_action = ''''\<rparr> ''bash'' [''ls -l'']"
proof -
  let ?s = "\<lparr>set_matcher = ExactMatch, configured = [], approved = [], default_action = ''''\<rparr>"
  let ?r = "\<lparr>rule_permission = ''bash'', rule_pattern = ''ls *'', rule_action = ActionAllow\<rparr>"
  have "\<forall>r \<in> set [?r]. rule_action r = ActionAllow" by simp
  note widen = allow_approvals_only_widen [OF this, of ?s "''bash''" "[''ls -l'']"]
  moreover have "allows (?s\<lparr>approved := [?r]\<rparr>) ''bash'' [''ls -l'']" by code_simp
  moreover have "\<not> allows ?s ''bash'' [''ls -l'']" by code_simp
  ultimately show ?thesis by simp
qed

text \<open>A session in YOLO posture, whose configured rules end in allow \<open>*\<close> on \<open>*\<close>, allows
  every prompt that carries no approval restriction, and a lockdown rule in its place denies
  every prompt, under both matchers.\<close>

theorem closing_star_rule_decides:
  "decide (s\<lparr>configured := rs @ [\<lparr>rule_permission = ''*'', rule_pattern = ''*'', rule_action = ActionAllow\<rparr>],
             approved := []\<rparr>) perm pats = ActionAllow
   \<and> decide (s\<lparr>configured := rs @ [\<lparr>rule_permission = ''*'', rule_pattern = ''*'', rule_action = ActionDeny\<rparr>]\<rparr>)
        perm pats = ActionDeny"
proof -
  have star: "last_match (rs @ [\<lparr>rule_permission = ''*'', rule_pattern = ''*'', rule_action = a\<rparr>])
      perm v (matcher_match m) = Some (normal_action a)" for a v m
    by (cases m) (simp_all only: glob.last_match_star exact.last_match_star)
  show ?thesis
    by (intro conjI decide_uniform) (simp_all add: decide_pattern_def star last_match_Nil Let_def)
qed

end
