(* ===== verification/Models.thy ===== *)
theory Models
  imports Prelude
begin

text \<open>
  Model references "[platform:]provider/model" (internal/platforms/model.go): splitting off the
  platform prefix, qualifying a model with its platform, and the check that a session never gets
  another platform's model. The base platform of a remote-qualified id is what follows its last
  colon.
\<close>

definition OpenCodeID :: string where
  "OpenCodeID = ''opencode''"

definition split_model :: "string \<Rightarrow> string \<times> string" where
  "split_model ref =
     (if CHR ''/'' \<notin> set ref then ([], ref)
      else let prefix = takeWhile (\<lambda>c. c \<noteq> CHR ''/'') ref;
               colon = length (takeWhile (\<lambda>c. c \<noteq> CHR '':'') prefix)
           in if CHR '':'' \<in> set prefix \<and> colon > 0
              then (take colon ref, drop (colon + 1) ref)
              else ([], ref))"

definition qualify_model :: "string \<Rightarrow> string \<Rightarrow> string" where
  "qualify_model platform model =
     (if model = [] \<or> platform = [] \<or> platform = OpenCodeID then model
      else platform @ '':'' @ model)"

definition model_platform :: "string \<Rightarrow> string" where
  "model_platform ref =
     (if ref = [] then []
      else if fst (split_model ref) \<noteq> [] then fst (split_model ref) else OpenCodeID)"

definition model_for :: "string \<Rightarrow> string \<Rightarrow> string option" where
  "model_for base ref =
     (case split_model ref of (platform, model) \<Rightarrow>
        if platform \<noteq> [] \<and> platform \<noteq> base then None else Some model)"

text \<open>\<open>id[strings.LastIndexByte(id, ':')+1:]\<close>.\<close>

definition base_id :: "string \<Rightarrow> string" where
  "base_id i = rev (takeWhile (\<lambda>c. c \<noteq> CHR '':'') (rev i))"

definition platform_for_model :: "string \<Rightarrow> string \<Rightarrow> string option" where
  "platform_for_model requested model =
     (if requested = [] then Some (model_platform model)
      else case model_for (base_id requested) model of None \<Rightarrow> None | Some _ \<Rightarrow> Some requested)"

section \<open>Splitting and qualifying\<close>

definition prefix_ok :: "string \<Rightarrow> bool" where
  "prefix_ok p \<longleftrightarrow> p \<noteq> [] \<and> CHR '':'' \<notin> set p \<and> CHR ''/'' \<notin> set p"

text \<open>A model the platform understands: it has a slash, and no colon inside its provider.\<close>

definition plain_model :: "string \<Rightarrow> bool" where
  "plain_model m \<longleftrightarrow> CHR ''/'' \<in> set m \<and>
     (let p = takeWhile (\<lambda>c. c \<noteq> CHR ''/'') m in CHR '':'' \<in> set p \<longrightarrow> hd p = CHR '':'')"

lemma takeWhile_all: "\<forall>x \<in> set xs. P x \<Longrightarrow> takeWhile P (xs @ ys) = xs @ takeWhile P ys"
  by (induction xs) auto

lemma split_qualified:
  "prefix_ok p \<Longrightarrow> CHR ''/'' \<in> set m \<Longrightarrow> split_model (p @ '':'' @ m) = (p, m)"
proof -
  assume p: "prefix_ok p" and m: "CHR ''/'' \<in> set m"
  have 1: "takeWhile (\<lambda>c. c \<noteq> CHR ''/'') (p @ '':'' @ m) = p @ '':'' @ takeWhile (\<lambda>c. c \<noteq> CHR ''/'') m"
    using p by (subst takeWhile_all) (auto simp: prefix_ok_def)
  have 2: "takeWhile (\<lambda>c. c \<noteq> CHR '':'') (p @ '':'' @ x) = p" for x
    using p by (subst takeWhile_all) (auto simp: prefix_ok_def)
  show ?thesis unfolding split_model_def Let_def 1 2
    using p m by (simp add: prefix_ok_def)
qed

lemma split_plain: "plain_model m \<Longrightarrow> split_model m = ([], m)"
  by (auto simp: plain_model_def split_model_def Let_def takeWhile_eq_Nil_iff split: if_splits)

lemma split_model_no_slash: "CHR ''/'' \<notin> set m \<Longrightarrow> split_model m = ([], m)"
  by (simp add: split_model_def)

lemma split_model_prefix:
  "split_model ref = (p, m) \<Longrightarrow> p \<noteq> [] \<Longrightarrow> prefix_ok p \<and> ref = p @ '':'' @ m"
proof -
  assume a: "split_model ref = (p, m)" "p \<noteq> []"
  define pre where "pre = takeWhile (\<lambda>c. c \<noteq> CHR ''/'') ref"
  define t where "t = takeWhile (\<lambda>c. c \<noteq> CHR '':'') pre"
  from a have c: "CHR '':'' \<in> set pre" and p: "p = take (length t) ref" and m: "m = drop (length t + 1) ref"
    by (auto simp: split_model_def Let_def pre_def t_def split: if_splits)
  obtain r where r: "ref = pre @ r" using takeWhile_dropWhile_id[of "\<lambda>c. c \<noteq> CHR ''/''" ref] pre_def by metis
  obtain v u where v: "pre = v @ CHR '':'' # u" "CHR '':'' \<notin> set v"
    using c by (meson split_list_first)
  have "t = v" unfolding t_def v(1) using v(2) by (subst takeWhile_all) auto
  with v have u: "pre = t @ CHR '':'' # u" by simp
  have "p = t" "m = u @ r" using p m r u by auto
  moreover have "CHR '':'' \<notin> set t" unfolding t_def by (metis (full_types) set_takeWhileD)
  moreover have "CHR ''/'' \<notin> set t"
  proof -
    have "CHR ''/'' \<notin> set pre" unfolding pre_def by (metis (full_types) set_takeWhileD)
    then show ?thesis by (simp add: u)
  qed
  ultimately show ?thesis using a r u by (simp add: prefix_ok_def)
qed

lemma base_id_plain [simp]: "prefix_ok p \<Longrightarrow> base_id p = p"
  unfolding base_id_def prefix_ok_def by (subst takeWhile_eq_all_conv[THEN iffD2]) auto

lemma base_id_qualified: "CHR '':'' \<notin> set p \<Longrightarrow> base_id (r @ '':'' @ p) = p"
  unfolding base_id_def rev_append by (subst append_assoc, subst takeWhile_all) auto

text \<open>
  a session on any platform, local or reached through a remote, gets back exactly the model
  that was qualified for that platform: no prefix is left on it and none is lost.
\<close>

theorem model_for_qualified:
  assumes "prefix_ok platform" "plain_model model"
  shows "model_for platform (qualify_model platform model) = Some model \<and>
    platform_for_model (remote @ '':'' @ platform) (qualify_model platform model)
      = Some (remote @ '':'' @ platform)"
proof -
  have 1: "model_for platform (qualify_model platform model) = Some model"
  proof (cases "model = [] \<or> platform = [] \<or> platform = OpenCodeID")
    case True
    then have "qualify_model platform model = model" by (simp add: qualify_model_def)
    then show ?thesis using split_plain[OF assms(2)] by (simp add: model_for_def)
  next
    case False
    then have "qualify_model platform model = platform @ '':'' @ model" by (simp add: qualify_model_def)
    then show ?thesis
      using split_qualified[OF assms(1)] assms(2) by (simp add: model_for_def plain_model_def)
  qed
  moreover have "base_id (remote @ '':'' @ platform) = platform"
    using assms(1) base_id_qualified unfolding prefix_ok_def by blast
  ultimately show ?thesis by (simp only: platform_for_model_def) simp
qed

lemma model_for_qualified_witness:
  "model_for ''codex'' (qualify_model ''codex'' ''openai/gpt:x'') = Some ''openai/gpt:x''"
  using model_for_qualified[of "''codex''" "''openai/gpt:x''"] by (simp add: prefix_ok_def plain_model_def)

text \<open>
  a session's model check refuses a reference exactly when it carries the prefix of another
  platform (a colon before its first slash, with something before it), and otherwise passes on
  the reference with that prefix taken off.
\<close>

theorem model_for_refuses_foreign_prefix:
  "(model_for base ref = None \<longleftrightarrow>
      (\<exists>p m. prefix_ok p \<and> p \<noteq> base \<and> CHR ''/'' \<in> set m \<and> ref = p @ '':'' @ m)) \<and>
   (\<forall>m. model_for base ref = Some m \<longrightarrow> m = ref \<or> (prefix_ok base \<and> ref = base @ '':'' @ m))"
proof -
  obtain p m where s: "split_model ref = (p, m)" by fastforce
  have sl: "p \<noteq> [] \<Longrightarrow> CHR ''/'' \<in> set ref" using s split_model_no_slash by fastforce
  have nil: "p = [] \<Longrightarrow> m = ref" using s by (auto simp: split_model_def Let_def split: if_splits)
  have "model_for base ref = None \<longleftrightarrow> p \<noteq> [] \<and> p \<noteq> base" by (simp add: model_for_def s)
  also have "\<dots> \<longleftrightarrow> (\<exists>p m. prefix_ok p \<and> p \<noteq> base \<and> CHR ''/'' \<in> set m \<and> ref = p @ '':'' @ m)"
  proof
    assume "p \<noteq> [] \<and> p \<noteq> base"
    with split_model_prefix[OF s] sl show "\<exists>p m. prefix_ok p \<and> p \<noteq> base \<and> CHR ''/'' \<in> set m \<and> ref = p @ '':'' @ m"
      by (intro exI[of _ p] exI[of _ m]) (auto simp: prefix_ok_def)
  next
    assume "\<exists>p m. prefix_ok p \<and> p \<noteq> base \<and> CHR ''/'' \<in> set m \<and> ref = p @ '':'' @ m"
    then show "p \<noteq> [] \<and> p \<noteq> base" using split_qualified s by (auto simp: prefix_ok_def)
  qed
  finally have 1: "model_for base ref = None \<longleftrightarrow>
      (\<exists>p m. prefix_ok p \<and> p \<noteq> base \<and> CHR ''/'' \<in> set m \<and> ref = p @ '':'' @ m)" .
  have "m' = ref \<or> (prefix_ok base \<and> ref = base @ '':'' @ m')" if "model_for base ref = Some m'" for m'
    using that split_model_prefix[OF s] nil by (auto simp: model_for_def s split: if_splits)
  with 1 show ?thesis by blast
qed

lemma model_for_refuses_witness: "model_for ''opencode'' ''codex:openai/gpt'' = None"
proof -
  have "\<exists>p m. prefix_ok p \<and> p \<noteq> ''opencode'' \<and> CHR ''/'' \<in> set m \<and> ''codex:openai/gpt'' = p @ '':'' @ m"
    by (rule exI[of _ "''codex''"], rule exI[of _ "''openai/gpt''"]) (simp add: prefix_ok_def)
  then show ?thesis using model_for_refuses_foreign_prefix[of "''opencode''" "''codex:openai/gpt''"] by blast
qed

end
