(* ===== verification/Inherit.thy ===== *)
theory Inherit
  imports Rule_Set Models
begin

text \<open>
  The permission rules a worktree session inherits from its parent:
  \<open>BuildInheritedRules\<close> and \<open>BuildInheritedRulesWithLive\<close> of
  internal/permissions/inherit.go. The parent's \<open>Allow always\<close> approvals come from the
  state database and its live ruleset from the platform; both are parameters (a result that is
  an error or a list), since the functions only call them once and look at the answer.
\<close>

section \<open>Keys\<close>

definition max_inherited_patterns :: nat where
  "max_inherited_patterns = 500"

definition flat_action_keys :: "string list" where
  "flat_action_keys = [''todowrite'', ''question'', ''webfetch'', ''websearch'', ''doom_loop'']"

definition known_keys :: "string list" where
  "known_keys = [''read'', ''edit'', ''glob'', ''grep'', ''list'', ''bash'', ''task'',
     ''external_directory'', ''todowrite'', ''question'', ''webfetch'', ''websearch'',
     ''repo_clone'', ''repo_overview'', ''lsp'', ''doom_loop'', ''skill'']"

definition mcp_char :: "char \<Rightarrow> bool" where
  "mcp_char c \<longleftrightarrow> c \<in> set ''abcdefghijklmnopqrstuvwxyz0123456789_-''"

text \<open>The regular expression \<open>^mcp__[a-z0-9_-]+$\<close>.\<close>

definition mcp_key :: "string \<Rightarrow> bool" where
  "mcp_key k \<longleftrightarrow> has_prefix k ''mcp__'' \<and> drop 5 k \<noteq> [] \<and> list_all mcp_char (drop 5 k)"

definition supported_key :: "string \<Rightarrow> bool" where
  "supported_key key \<longleftrightarrow> key \<in> set known_keys \<or> mcp_key key"

text \<open>\<open>platform[strings.LastIndex(platform, ":")+1:]\<close> is the base platform of the id.\<close>

definition flat_key :: "string \<Rightarrow> string \<Rightarrow> bool" where
  "flat_key platform key \<longleftrightarrow> key \<in> set flat_action_keys \<and> base_id platform = OpenCodeID"

definition permission_key :: "string \<Rightarrow> string" where
  "permission_key txt = takeWhile (\<lambda>c. c \<noteq> CHR '' '') txt"

section \<open>Building the ruleset\<close>

text \<open>The fields of \<open>state.ApprovedPermission\<close> the builder reads.\<close>

record approved_permission =
  permission_text :: string
  patterns :: "string list"
  approved_by :: string
  approval_reply :: string
  context_bound :: bool

definition ApprovalActorUser :: string where "ApprovalActorUser = ''user''"
definition ApprovalReplyAlways :: string where "ApprovalReplyAlways = ''always''"

text \<open>\<open>keyOrder\<close>, \<open>patternsByKey\<close> and \<open>seen\<close> of the grouping loop.\<close>

record grouping =
  key_order :: "string list"
  patterns_by_key :: "string \<rightharpoonup> string list"
  seen_patterns :: "string set"

definition empty_grouping :: grouping where
  "empty_grouping = \<lparr>key_order = [], patterns_by_key = Map.empty, seen_patterns = {}\<rparr>"

definition dedup_key :: "string \<Rightarrow> string \<Rightarrow> string" where
  "dedup_key key p = key @ [CHR 0x00] @ p"

definition add_pattern :: "string \<Rightarrow> grouping \<Rightarrow> string \<Rightarrow> grouping" where
  "add_pattern key g p =
     (if dedup_key key p \<in> seen_patterns g then g
      else g\<lparr>seen_patterns := insert (dedup_key key p) (seen_patterns g),
             patterns_by_key := (patterns_by_key g)(key \<mapsto>
               (case patterns_by_key g key of None \<Rightarrow> [] | Some ps \<Rightarrow> ps) @ [p])\<rparr>)"

definition add_key :: "string \<Rightarrow> grouping \<Rightarrow> grouping" where
  "add_key key g = (case patterns_by_key g key of
       None \<Rightarrow> g\<lparr>key_order := key_order g @ [key],
                 patterns_by_key := (patterns_by_key g)(key \<mapsto> [])\<rparr>
     | Some _ \<Rightarrow> g)"

definition group_approval :: "string \<Rightarrow> grouping \<Rightarrow> approved_permission \<Rightarrow> grouping" where
  "group_approval platform g ap =
     (if context_bound ap then g
      else if approved_by ap = ApprovalActorUser \<and> approval_reply ap \<noteq> ApprovalReplyAlways then g
      else let key = permission_key (permission_text ap) in
        if \<not> supported_key key then g
        else let flat = flat_key platform key in
          if \<not> flat \<and> patterns ap = [] then g
          else let g' = add_key key g in
            if flat then g' else foldl (add_pattern key) g' (patterns ap))"

definition allow_rule :: "string \<Rightarrow> string \<Rightarrow> permission_rule" where
  "allow_rule key p = \<lparr>rule_permission = key, rule_pattern = p, rule_action = ''allow''\<rparr>"

definition emit_key :: "string \<Rightarrow> grouping \<Rightarrow> string \<Rightarrow> permission_rule list" where
  "emit_key platform g key =
     (if flat_key platform key then [allow_rule key '''']
      else map (allow_rule key) (case patterns_by_key g key of None \<Rightarrow> [] | Some ps \<Rightarrow> ps))"

definition inherited_rules :: "string \<Rightarrow> approved_permission list \<Rightarrow> permission_rule list" where
  "inherited_rules platform approvals =
     (let g = foldl (group_approval platform) empty_grouping approvals;
          rules = concat (map (emit_key platform g) (key_order g))
      in if length rules > max_inherited_patterns then take max_inherited_patterns rules else rules)"

text \<open>
  \<open>BuildInheritedRules\<close>: the lister is \<open>None\<close> when it is nil; its answer for the platform and
  the parent is an error or the approvals.
\<close>

definition build_inherited_rules ::
  "(string \<Rightarrow> string \<Rightarrow> 'e + approved_permission list) option \<Rightarrow> string \<Rightarrow> string
   \<Rightarrow> 'e + permission_rule list \<times> nat"
where
  "build_inherited_rules lister platform parent =
     (case lister of
        None \<Rightarrow> Inr ([], 0)
      | Some list_approved \<Rightarrow>
          if parent = [] then Inr ([], 0)
          else case list_approved platform parent of
              Inl e \<Rightarrow> Inl e
            | Inr approvals \<Rightarrow>
                if approvals = [] then Inr ([], 0)
                else let rules = inherited_rules platform approvals in Inr (rules, length rules))"

text \<open>The live rules go last and are never cut; approvals keep the newest of what is left.\<close>

definition merge_live :: "permission_rule list \<Rightarrow> permission_rule list \<Rightarrow> permission_rule list" where
  "merge_live appr live =
     (let budget = max_inherited_patterns - length live;
          kept = (if length appr > budget then drop (length appr - budget) appr else appr)
      in kept @ live)"

definition build_inherited_rules_with_live ::
  "(string \<Rightarrow> string \<Rightarrow> 'e + approved_permission list) option
   \<Rightarrow> (string \<Rightarrow> string \<Rightarrow> 'e + permission_rule list) option \<Rightarrow> string \<Rightarrow> string
   \<Rightarrow> 'e + permission_rule list \<times> nat"
where
  "build_inherited_rules_with_live lister reader platform parent =
     (case build_inherited_rules lister platform parent of
        Inl e \<Rightarrow> Inl e
      | Inr (appr, n) \<Rightarrow>
          (case reader of
             None \<Rightarrow> Inr (appr, length appr)
           | Some live_rules \<Rightarrow>
               if parent = [] then Inr (appr, length appr)
               else case live_rules platform parent of
                   Inl e \<Rightarrow> Inr (appr, length appr)
                 | Inr live \<Rightarrow>
                     if live = [] then Inr (appr, length appr)
                     else let merged = merge_live appr live in Inr (merged, length merged)))"

section \<open>What the grouping loop computes\<close>

definition eligible :: "string \<Rightarrow> approved_permission \<Rightarrow> bool" where
  "eligible platform ap \<longleftrightarrow> \<not> context_bound ap
     \<and> (approved_by ap = ApprovalActorUser \<longrightarrow> approval_reply ap = ApprovalReplyAlways)
     \<and> supported_key (permission_key (permission_text ap))
     \<and> (flat_key platform (permission_key (permission_text ap)) \<or> patterns ap \<noteq> [])"

abbreviation ap_key :: "approved_permission \<Rightarrow> string" where
  "ap_key ap \<equiv> permission_key (permission_text ap)"

text \<open>The rules the approvals justify: a specification that mentions no grouping.\<close>

definition inheritable :: "string \<Rightarrow> approved_permission list \<Rightarrow> permission_rule set" where
  "inheritable platform approvals =
     {allow_rule (ap_key ap) '''' | ap. ap \<in> set approvals \<and> eligible platform ap
        \<and> flat_key platform (ap_key ap)}
   \<union> {allow_rule (ap_key ap) p | ap p. ap \<in> set approvals \<and> eligible platform ap
        \<and> \<not> flat_key platform (ap_key ap) \<and> p \<in> set (patterns ap)}"

definition grouped_pairs :: "grouping \<Rightarrow> (string \<times> string) set" where
  "grouped_pairs g = {(k, p). \<exists>ps. patterns_by_key g k = Some ps \<and> p \<in> set ps}"

definition ginv :: "grouping \<Rightarrow> bool" where
  "ginv g \<longleftrightarrow> distinct (key_order g) \<and> dom (patterns_by_key g) = set (key_order g)
     \<and> (\<forall>k ps. patterns_by_key g k = Some ps \<longrightarrow> distinct ps \<and> CHR 0x00 \<notin> set k)
     \<and> seen_patterns g = (\<lambda>(k, p). dedup_key k p) ` grouped_pairs g"

lemma known_keys_nul: "key \<in> set known_keys \<Longrightarrow> CHR 0x00 \<notin> set key"
  by (auto simp: known_keys_def)

lemma mcp_key_nul:
  assumes "mcp_key key"
  shows "CHR 0x00 \<notin> set key"
proof -
  from assms obtain post where "key = ''mcp__'' @ post" "list_all mcp_char post"
    by (auto simp: mcp_key_def has_prefix_iff)
  then show ?thesis by (auto simp: list_all_iff mcp_char_def)
qed

lemma supported_key_nul: "supported_key key \<Longrightarrow> CHR 0x00 \<notin> set key"
  by (auto simp: supported_key_def dest: known_keys_nul mcp_key_nul)

lemma dedup_key_inj:
  assumes "CHR 0x00 \<notin> set k" "CHR 0x00 \<notin> set k'"
  shows "dedup_key k p = dedup_key k' p' \<longleftrightarrow> k = k' \<and> p = p'"
proof
  assume eq: "dedup_key k p = dedup_key k' p'"
  let ?f = "takeWhile (\<lambda>c. c \<noteq> CHR 0x00)"
  have "?f (dedup_key k p) = k" "?f (dedup_key k' p') = k'"
    using assms by (auto simp: dedup_key_def takeWhile_append)
  with eq have "k = k'" by metis
  with eq show "k = k' \<and> p = p'" by (simp add: dedup_key_def)
qed simp

lemma dedup_key_seen:
  assumes "ginv g" "CHR 0x00 \<notin> set k"
  shows "dedup_key k p \<in> seen_patterns g \<longleftrightarrow> (k, p) \<in> grouped_pairs g"
proof -
  have "dedup_key k p = dedup_key k' p' \<longleftrightarrow> k = k' \<and> p = p'"
    if "(k', p') \<in> grouped_pairs g" for k' p'
    using that assms by (intro dedup_key_inj) (auto simp: ginv_def grouped_pairs_def)
  with assms(1) show ?thesis by (auto simp: ginv_def)
qed

lemma add_key_inv:
  assumes "ginv g" "CHR 0x00 \<notin> set key"
  shows "ginv (add_key key g)"
    and "set (key_order (add_key key g)) = insert key (set (key_order g))"
    and "grouped_pairs (add_key key g) = grouped_pairs g"
    and "key \<in> dom (patterns_by_key (add_key key g))"
proof -
  have pairs: "grouped_pairs (add_key key g) = grouped_pairs g"
    by (auto simp: grouped_pairs_def add_key_def split: option.splits if_splits)
  then show "grouped_pairs (add_key key g) = grouped_pairs g" .
  have seen: "seen_patterns (add_key key g) = seen_patterns g"
    by (simp add: add_key_def split: option.splits)
  have "key \<notin> set (key_order g)" if "patterns_by_key g key = None"
    using that assms(1) by (auto simp: ginv_def dest!: equalityD2)
  with assms pairs seen show "ginv (add_key key g)"
    by (auto simp: ginv_def add_key_def split: option.splits if_splits)
  show "set (key_order (add_key key g)) = insert key (set (key_order g))"
    using assms(1) by (auto simp: ginv_def add_key_def split: option.splits)
  show "key \<in> dom (patterns_by_key (add_key key g))"
    by (auto simp: add_key_def split: option.splits)
qed

lemma add_pattern_inv:
  assumes inv: "ginv g" and key: "patterns_by_key g key = Some ps"
  shows "ginv (add_pattern key g p)"
    and "key_order (add_pattern key g p) = key_order g"
    and "grouped_pairs (add_pattern key g p) = insert (key, p) (grouped_pairs g)"
    and "\<exists>ps'. patterns_by_key (add_pattern key g p) key = Some ps'"
proof -
  have nul: "CHR 0x00 \<notin> set key" using inv key by (auto simp: ginv_def)
  note seen = dedup_key_seen [OF inv nul, of p]
  have in_pairs: "(key, p) \<in> grouped_pairs g \<longleftrightarrow> p \<in> set ps"
    using key by (simp add: grouped_pairs_def)
  show pairs: "grouped_pairs (add_pattern key g p) = insert (key, p) (grouped_pairs g)"
    using key seen in_pairs
    by (auto simp: add_pattern_def grouped_pairs_def split: if_splits)
  show "key_order (add_pattern key g p) = key_order g"
    by (simp add: add_pattern_def)
  show "\<exists>ps'. patterns_by_key (add_pattern key g p) key = Some ps'"
    using key by (simp add: add_pattern_def)
  have "seen_patterns (add_pattern key g p) = insert (dedup_key key p) (seen_patterns g)"
    by (auto simp: add_pattern_def)
  moreover have "dom (patterns_by_key (add_pattern key g p)) = dom (patterns_by_key g)"
    using key by (auto simp: add_pattern_def)
  moreover have "distinct qs \<and> CHR 0x00 \<notin> set k"
    if "patterns_by_key (add_pattern key g p) k = Some qs" for k qs
    using that inv key seen in_pairs by (auto simp: add_pattern_def ginv_def split: if_splits)
  ultimately show "ginv (add_pattern key g p)"
    using inv pairs by (auto simp: ginv_def add_pattern_def)
qed

lemma add_patterns_inv:
  assumes "ginv g" "patterns_by_key g key = Some ps"
  shows "ginv (foldl (add_pattern key) g qs)
    \<and> key_order (foldl (add_pattern key) g qs) = key_order g
    \<and> grouped_pairs (foldl (add_pattern key) g qs) = grouped_pairs g \<union> {key} \<times> set qs"
  using assms
proof (induction qs arbitrary: g ps)
  case (Cons q qs)
  obtain ps' where "patterns_by_key (add_pattern key g q) key = Some ps'"
    using add_pattern_inv(4) [OF Cons.prems] by blast
  from Cons.IH [OF add_pattern_inv(1) [OF Cons.prems] this] show ?case
    using add_pattern_inv(2,3) [OF Cons.prems] by auto
qed simp

text \<open>One approval adds its key and its pairs; an ineligible one changes nothing.\<close>

lemma group_approval_inv:
  assumes "ginv g"
  shows "ginv (group_approval platform g ap)
    \<and> set (key_order (group_approval platform g ap))
        = set (key_order g) \<union> (if eligible platform ap then {ap_key ap} else {})
    \<and> grouped_pairs (group_approval platform g ap)
        = grouped_pairs g \<union> (if eligible platform ap \<and> \<not> flat_key platform (ap_key ap)
                             then {ap_key ap} \<times> set (patterns ap) else {})"
proof (cases "eligible platform ap")
  case False
  then have "group_approval platform g ap = g"
    by (auto simp: group_approval_def eligible_def Let_def)
  with False assms show ?thesis by simp
next
  case True
  let ?k = "ap_key ap" and ?g = "add_key (ap_key ap) g"
  have sup: "supported_key ?k" using True by (simp add: eligible_def)
  note key = add_key_inv [OF assms supported_key_nul [OF sup]]
  have step: "group_approval platform g ap =
      (if flat_key platform ?k then ?g else foldl (add_pattern ?k) ?g (patterns ap))"
    using True by (auto simp: group_approval_def eligible_def Let_def)
  obtain ps where "patterns_by_key ?g ?k = Some ps" using key(4) by blast
  note pats = add_patterns_inv [OF key(1) this, of "patterns ap"]
  show ?thesis
    using True key(1,2,3) pats by (simp add: step)
qed

lemma group_approvals_inv:
  assumes "ginv g"
  shows "ginv (foldl (group_approval platform) g aps)
    \<and> set (key_order (foldl (group_approval platform) g aps))
        = set (key_order g) \<union> {ap_key ap | ap. ap \<in> set aps \<and> eligible platform ap}
    \<and> grouped_pairs (foldl (group_approval platform) g aps)
        = grouped_pairs g \<union> {(ap_key ap, p) | ap p. ap \<in> set aps \<and> eligible platform ap
             \<and> \<not> flat_key platform (ap_key ap) \<and> p \<in> set (patterns ap)}"
  using assms
proof (induction aps arbitrary: g)
  case (Cons ap aps)
  note step = group_approval_inv [OF Cons.prems, of platform ap]
  from step have "ginv (group_approval platform g ap)" by blast
  from Cons.IH [OF this] step show ?case by (auto split: if_splits)
qed simp

lemma ginv_empty: "ginv empty_grouping"
  by (auto simp: ginv_def empty_grouping_def grouped_pairs_def)

lemma grouped_pairs_empty [simp]: "grouped_pairs empty_grouping = {}"
  "key_order empty_grouping = []"
  by (auto simp: empty_grouping_def grouped_pairs_def)

section \<open>The emitted rules\<close>

text \<open>Every rule the approvals justify, grouped by key in the order in which the keys were first
  approved and for each key in the order of its patterns.\<close>

definition all_rules :: "string \<Rightarrow> approved_permission list \<Rightarrow> permission_rule list" where
  "all_rules platform approvals =
     (let g = foldl (group_approval platform) empty_grouping approvals
      in concat (map (emit_key platform g) (key_order g)))"

lemma inherited_rules_take: "inherited_rules platform approvals =
    take max_inherited_patterns (all_rules platform approvals)"
  by (simp add: inherited_rules_def all_rules_def Let_def)

lemma inherited_rules_empty: "all_rules platform [] = []"
  by (simp add: all_rules_def empty_grouping_def)

lemma allow_rule_inj [simp]: "allow_rule k p = allow_rule k' p' \<longleftrightarrow> k = k' \<and> p = p'"
  by (simp add: allow_rule_def)

lemma set_emit_key:
  assumes "ginv g" "k \<in> set (key_order g)"
  shows "set (emit_key platform g k) =
    (if flat_key platform k then {allow_rule k ''''}
     else {allow_rule k p | p. (k, p) \<in> grouped_pairs g})"
proof -
  obtain ps where "patterns_by_key g k = Some ps"
    using assms unfolding ginv_def by (metis domD)
  then show ?thesis by (auto simp: emit_key_def grouped_pairs_def)
qed

lemma distinct_emit_key:
  assumes "ginv g"
  shows "distinct (emit_key platform g k)"
  using assms by (auto simp: emit_key_def ginv_def distinct_map inj_on_def split: option.splits)

lemma emit_key_permission: "r \<in> set (emit_key platform g k) \<Longrightarrow> rule_permission r = k"
  by (auto simp: emit_key_def allow_rule_def split: if_splits)

lemma set_all_rules: "set (all_rules platform approvals) = inheritable platform approvals"
proof -
  let ?g = "foldl (group_approval platform) empty_grouping approvals"
  note inv = group_approvals_inv [OF ginv_empty, of platform approvals, simplified]
  have "set (all_rules platform approvals) =
      (\<Union>k \<in> set (key_order ?g). set (emit_key platform ?g k))"
    by (simp add: all_rules_def Let_def)
  also have "\<dots> = (\<Union>k \<in> set (key_order ?g). if flat_key platform k then {allow_rule k ''''}
      else {allow_rule k p | p. (k, p) \<in> grouped_pairs ?g})"
    using inv by (intro SUP_cong refl) (simp add: set_emit_key)
  also have "\<dots> = inheritable platform approvals"
    using inv by (auto simp: inheritable_def split: if_splits)
  finally show ?thesis .
qed

lemma distinct_concat_emit:
  "ginv g \<Longrightarrow> distinct ks \<Longrightarrow> distinct (concat (map (emit_key platform g) ks))"
proof (induction ks)
  case (Cons k ks)
  then show ?case
    by (auto simp: distinct_emit_key dest: emit_key_permission)
qed simp

lemma distinct_all_rules: "distinct (all_rules platform approvals)"
  using group_approvals_inv [OF ginv_empty, of platform approvals]
  by (simp add: all_rules_def Let_def ginv_def distinct_concat_emit)

section \<open>Facts about the builders\<close>

lemma length_inherited_rules: "length (inherited_rules platform approvals) \<le> max_inherited_patterns"
  by (simp add: inherited_rules_take)

lemma set_inherited_rules: "set (inherited_rules platform approvals) \<subseteq> inheritable platform approvals"
  by (metis inherited_rules_take set_all_rules set_take_subset)

lemma distinct_inherited_rules: "distinct (inherited_rules platform approvals)"
  by (simp add: inherited_rules_take distinct_all_rules)

lemma inherited_rules_complete:
  assumes "card (inheritable platform approvals) \<le> max_inherited_patterns"
  shows "set (inherited_rules platform approvals) = inheritable platform approvals"
proof -
  have "length (all_rules platform approvals) \<le> max_inherited_patterns"
    using assms distinct_card [OF distinct_all_rules, of platform approvals]
    by (simp add: set_all_rules)
  then show ?thesis by (simp add: inherited_rules_take set_all_rules)
qed

lemma inheritable_allow: "r \<in> inheritable platform approvals \<Longrightarrow> rule_action r = ActionAllow"
  by (auto simp: inheritable_def allow_rule_def ActionAllow_def)

lemma inheritable_Nil [simp]: "inheritable platform [] = {}"
  by (auto simp: inheritable_def)

lemma build_inherited_rules_Inr:
  assumes "build_inherited_rules lister platform parent = Inr (rules, n)"
  shows "n = length rules \<and> length rules \<le> max_inherited_patterns"
  using assms length_inherited_rules
  by (auto simp: build_inherited_rules_def Let_def split: option.splits if_splits sum.splits)

lemma merge_live_last_n: "merge_live appr live = last_n (max_inherited_patterns - length live) appr @ live"
  by (auto simp: merge_live_def last_n_def Let_def)

section \<open>Properties\<close>

text \<open>the inherited ruleset holds exactly the parent's eligible approvals. For a non-empty
  parent whose approvals are read, the result is a list of distinct rules, never more than 500,
  each an \<open>allow\<close> rule for a supported key justified by an approval that is not context bound
  and, when a user gave it, was an \<open>always\<close> reply; and when at most 500 rules are justified,
  none of them is missing.\<close>

theorem inherits_exactly_the_eligible:
  assumes "build_inherited_rules (Some lister) platform parent = Inr (rules, n)"
    and "parent \<noteq> []" and "lister platform parent = Inr approvals"
  shows "n = length rules \<and> distinct rules \<and> n \<le> max_inherited_patterns
    \<and> set rules \<subseteq> inheritable platform approvals
    \<and> (\<forall>r \<in> set rules. rule_action r = ActionAllow)
    \<and> (card (inheritable platform approvals) \<le> max_inherited_patterns
         \<longrightarrow> set rules = inheritable platform approvals)"
proof -
  have rules: "rules = inherited_rules platform approvals" "n = length rules"
    using assms by (auto simp: build_inherited_rules_def Let_def inherited_rules_def empty_grouping_def
        split: if_splits)
  then show ?thesis
    using set_inherited_rules distinct_inherited_rules length_inherited_rules
      inherited_rules_complete inheritable_allow by (metis subset_iff)
qed

theorem inherits_exactly_the_eligible_witness:
  "let ap = \<lparr>permission_text = ''bash git'', patterns = [''git *'', ''git *''],
       approved_by = ''user'', approval_reply = ''always'', context_bound = False\<rparr>
   in set (inherited_rules ''claudecode'' [ap]) \<subseteq> inheritable ''claudecode'' [ap]
      \<and> inherited_rules ''claudecode'' [ap] = [allow_rule ''bash'' ''git *'']"
proof -
  let ?ap = "\<lparr>permission_text = ''bash git'', patterns = [''git *'', ''git *''],
       approved_by = ''user'', approval_reply = ''always'', context_bound = False\<rparr>"
  have run: "inherited_rules ''claudecode'' [?ap] = [allow_rule ''bash'' ''git *'']"
    by code_simp
  have "build_inherited_rules (Some (\<lambda>_ _. Inr [?ap] :: unit + approved_permission list))
      ''claudecode'' ''p'' = Inr (inherited_rules ''claudecode'' [?ap], 1)"
    by (simp add: build_inherited_rules_def run)
  from inherits_exactly_the_eligible [OF this] run show ?thesis
    by (simp add: Let_def)
qed

text \<open>C32: the parent's live posture always survives inheritance. When the platform reports live
  rules, they are the end of the inherited ruleset, uncut. Before them stand rules of the approvals:
  the builder orders these by the first approval of their key and then of their pattern and keeps
  the first 500, of which the last that fit under the cap beside the live rules remain; so a rule
  beyond the first 500 is never inherited, however new it is. A request the live rules decide is decided the
  same way for the child, whatever matcher is used, because the last match wins.\<close>

theorem live_rules_win:
  assumes appr: "build_inherited_rules lister platform parent = Inr (appr, m)"
    and parent: "parent \<noteq> []" and live: "reader platform parent = Inr live"
  shows "build_inherited_rules_with_live lister (Some reader) platform parent =
      Inr (last_n (max_inherited_patterns - length live) appr @ live,
           min (max_inherited_patterns - length live) (length appr) + length live)
    \<and> min (max_inherited_patterns - length live) (length appr) + length live
        \<le> max max_inherited_patterns (length live)
    \<and> (\<forall>perm val mt a. last_match live perm val mt = Some a \<longrightarrow>
         last_match (last_n (max_inherited_patterns - length live) appr @ live) perm val mt = Some a)
    \<and> (\<forall>list_approved approvals. lister = Some list_approved \<and> list_approved platform parent = Inr approvals \<longrightarrow>
         appr = take max_inherited_patterns (all_rules platform approvals))"
proof (intro conjI)
  have "length appr \<le> max_inherited_patterns"
    using build_inherited_rules_Inr [OF appr] by simp
  then have "last_n max_inherited_patterns appr = appr" by simp
  then show "build_inherited_rules_with_live lister (Some reader) platform parent =
      Inr (last_n (max_inherited_patterns - length live) appr @ live,
           min (max_inherited_patterns - length live) (length appr) + length live)"
    using assms \<open>length appr \<le> _\<close>
    by (auto simp: build_inherited_rules_with_live_def merge_live_last_n Let_def)
  show "\<forall>perm val mt a. last_match live perm val mt = Some a \<longrightarrow>
      last_match (last_n (max_inherited_patterns - length live) appr @ live) perm val mt = Some a"
    by (simp add: rule_simps)
  show "\<forall>list_approved approvals. lister = Some list_approved \<and> list_approved platform parent = Inr approvals \<longrightarrow>
      appr = take max_inherited_patterns (all_rules platform approvals)"
    using appr parent inherited_rules_empty[of platform]
    by (auto simp: build_inherited_rules_def Let_def inherited_rules_take split: if_splits)
qed simp

theorem live_rules_win_witness:
  "build_inherited_rules_with_live None
     (Some (\<lambda>_ _. Inr [\<lparr>rule_permission = ''bash'', rule_pattern = ''rm *'', rule_action = ''deny''\<rparr>]
        :: unit + permission_rule list)) ''opencode'' ''p''
   = Inr ([\<lparr>rule_permission = ''bash'', rule_pattern = ''rm *'', rule_action = ''deny''\<rparr>], 1)"
proof -
  let ?live = "[\<lparr>rule_permission = ''bash'', rule_pattern = ''rm *'', rule_action = ''deny''\<rparr>]"
  have "build_inherited_rules None ''opencode'' ''p'' = (Inr ([], 0) :: unit + _)"
    by (simp add: build_inherited_rules_def)
  from live_rules_win [OF this, of "\<lambda>_ _. Inr ?live" ?live] show ?thesis
    by (simp add: last_n_def)
qed

end
