(* ===== verification/Rule_Store.thy ===== *)
theory Rule_Store
  imports Inherit
begin

text \<open>
  The ocman-owned permission store of a provider, \<open>Rules\<close> of
  internal/platforms/provider/rules.go: each session's ruleset, its \<open>Allow always\<close> approvals,
  and the approvals saved before their reply was sent (tentative, by permission id), which grant
  nothing until the reply's outcome is known. Every change goes through \<open>commitLocked\<close>, which
  undoes it when the file cannot be written; whether the write succeeds is an argument.
\<close>

section \<open>The store\<close>

record tentative_approval =
  tent_session :: string
  tent_rules :: "permission_rule list"

record rules_data =
  rules_of :: "string \<rightharpoonup> permission_rule list"
  approved_of :: "string \<rightharpoonup> permission_rule list"
  tentative_of :: "string \<rightharpoonup> tentative_approval"
  exact_patterns_mark :: bool
  exact_rules_mark :: bool

record rules_store =
  store_path :: string
  store_data :: rules_data

definition empty_rules_data :: rules_data where
  "empty_rules_data = \<lparr>rules_of = Map.empty, approved_of = Map.empty, tentative_of = Map.empty,
     exact_patterns_mark = False, exact_rules_mark = False\<rparr>"

lemma empty_rules_data_simps [simp]:
  "rules_of empty_rules_data = Map.empty" "approved_of empty_rules_data = Map.empty"
  "tentative_of empty_rules_data = Map.empty"
  by (simp_all add: empty_rules_data_def)

text \<open>Reading the store's file: absent, unreadable, not JSON, or its decoded contents.\<close>

datatype file_read = NotExist | ReadError | BadJson | Contents rules_data

datatype store_error = OpenFailed | ParseFailed | UnsupportedFormat | SaveFailed

definition load_rules :: "string \<Rightarrow> file_read \<Rightarrow> store_error + rules_data" where
  "load_rules path file =
     (if path = [] then Inr empty_rules_data
      else case file of
          NotExist \<Rightarrow> Inr empty_rules_data
        | ReadError \<Rightarrow> Inl OpenFailed
        | BadJson \<Rightarrow> Inl ParseFailed
        | Contents d \<Rightarrow> Inr d)"

definition open_rules :: "string \<Rightarrow> file_read \<Rightarrow> store_error + rules_store" where
  "open_rules path file =
     (case load_rules path file of
        Inl e \<Rightarrow> Inl e
      | Inr d \<Rightarrow>
          if \<not> exact_patterns_mark d \<and> (approved_of d \<noteq> Map.empty \<or> tentative_of d \<noteq> Map.empty)
             \<or> \<not> exact_rules_mark d \<and> rules_of d \<noteq> Map.empty
          then Inl UnsupportedFormat
          else Inr \<lparr>store_path = path,
                 store_data = d\<lparr>exact_patterns_mark := True, exact_rules_mark := True\<rparr>\<rparr>)"

text \<open>\<open>commitLocked\<close>: mutate, persist unless the store is in memory only, undo on failure.\<close>

definition commit_locked :: "bool \<Rightarrow> (rules_data \<Rightarrow> rules_data) \<Rightarrow> rules_store
    \<Rightarrow> rules_store \<times> store_error option"
where
  "commit_locked written mutate r =
     (let after = mutate (store_data r)
      in if store_path r = [] then (r\<lparr>store_data := after\<rparr>, None)
         else if written then (r\<lparr>store_data := after\<rparr>, None)
         else (r, Some SaveFailed))"

definition lookup_list :: "(string \<rightharpoonup> 'a list) \<Rightarrow> string \<Rightarrow> 'a list" where
  "lookup_list m k = (case m k of None \<Rightarrow> [] | Some xs \<Rightarrow> xs)"

lemma lookup_list_upd: "lookup_list (m(k \<mapsto> xs)) k' = (if k' = k then xs else lookup_list m k')"
  by (simp add: lookup_list_def)

definition get_rules :: "string \<Rightarrow> rules_store \<Rightarrow> permission_rule list" where
  "get_rules sid r = lookup_list (rules_of (store_data r)) sid"

definition set_rules :: "bool \<Rightarrow> string \<Rightarrow> permission_rule list \<Rightarrow> rules_store
    \<Rightarrow> rules_store \<times> store_error option"
where
  "set_rules written sid rules =
     commit_locked written (\<lambda>d. d\<lparr>rules_of :=
       (rules_of d)(sid := (if rules = [] then None else Some rules))\<rparr>)"

text \<open>\<open>append unless slices.Contains\<close>, for each rule in turn.\<close>

definition add_new :: "'a list \<Rightarrow> 'a \<Rightarrow> 'a list" where
  "add_new xs x = (if x \<in> set xs then xs else xs @ [x])"

definition tentative_at :: "rules_data \<Rightarrow> string \<Rightarrow> tentative_approval" where
  "tentative_at d pid = (case tentative_of d pid of
      None \<Rightarrow> \<lparr>tent_session = [], tent_rules = []\<rparr> | Some t \<Rightarrow> t)"

definition approve_tentatively :: "bool \<Rightarrow> string \<Rightarrow> string \<Rightarrow> permission_rule list \<Rightarrow> rules_store
    \<Rightarrow> rules_store \<times> store_error option"
where
  "approve_tentatively written sid pid rules =
     commit_locked written (\<lambda>d.
       let t = tentative_at d pid;
           t' = t\<lparr>tent_session := sid, tent_rules := foldl add_new (tent_rules t) rules\<rparr>
       in d\<lparr>tentative_of := (tentative_of d)(pid \<mapsto> t')\<rparr>)"

definition settle :: "bool \<Rightarrow> string \<Rightarrow> bool \<Rightarrow> rules_store \<Rightarrow> rules_store \<times> store_error option"
where
  "settle written pid always r =
     (case tentative_of (store_data r) pid of
        None \<Rightarrow> (r, None)
      | Some t \<Rightarrow> commit_locked written (\<lambda>d.
          let d' = d\<lparr>tentative_of := (tentative_of d)(pid := None)\<rparr>
          in if always \<and> tent_rules t \<noteq> []
             then d'\<lparr>approved_of := (approved_of d')(tent_session t \<mapsto>
                    foldl add_new (lookup_list (approved_of d') (tent_session t)) (tent_rules t))\<rparr>
             else d') r)"

section \<open>Deciding a prompt\<close>

text \<open>The entries of a \<open>LivePrompt\<close> the adapter reads; absent entries read as empty.\<close>

record live_prompt =
  prompt_id :: string
  prompt_session :: string
  prompt_permission :: string
  prompt_patterns :: "string list"
  prompt_always :: "string list"
  ocman_preflight :: bool

definition prompt_rule_set :: "rules_store \<Rightarrow> live_prompt \<Rightarrow> rule_set" where
  "prompt_rule_set r p =
     \<lparr>set_matcher = ExactMatch,
      configured = lookup_list (rules_of (store_data r)) (prompt_session p),
      approved = lookup_list (approved_of (store_data r)) (prompt_session p),
      default_action = (if ocman_preflight p then ActionAllow else ActionNone)\<rparr>"

definition rules_decide :: "rules_store \<Rightarrow> live_prompt \<Rightarrow> string" where
  "rules_decide r p =
     (let a = decide (prompt_rule_set r p) (prompt_permission p) (prompt_patterns p)
      in if a = ActionAllow then ''once'' else if a = ActionDeny then ''reject'' else '''')"

text \<open>
  \<open>Adapter.ruleDecision\<close> on a decoded event: the adapter's rules (none when it serves no local
  rules), the ids it already answered by rule and the ids it left pending.
\<close>

definition rule_decision :: "rules_store option \<Rightarrow> string set \<Rightarrow> string set \<Rightarrow> string \<Rightarrow> live_prompt option
    \<Rightarrow> live_prompt option \<times> string"
where
  "rule_decision rules ruled pending ev_type decoded =
     (if ev_type \<noteq> ''permission.asked'' then (None, '''')
      else case decoded of
          None \<Rightarrow> (None, '''')
        | Some p \<Rightarrow>
            (case rules of
               None \<Rightarrow> if ocman_preflight p then (Some p, ''reject'') else (None, '''')
             | Some r \<Rightarrow>
                 if prompt_id p \<in> ruled then (Some p, ''ruled'')
                 else if prompt_id p \<in> pending then (Some p, '''')
                 else (Some p, rules_decide r p)))"

definition always_rules :: "live_prompt \<Rightarrow> permission_rule list" where
  "always_rules p =
     (let pats = prompt_always p;
          pats = (if pats = [] then prompt_patterns p else pats);
          pats = (if pats = [] then [''*''] else pats)
      in map (\<lambda>q. \<lparr>rule_permission = prompt_permission p, rule_pattern = q, rule_action = ''allow''\<rparr>) pats)"

text \<open>\<open>rememberAlways\<close> and \<open>settleAlways\<close> do nothing without local rules or a cached prompt.\<close>

definition remember_always :: "bool \<Rightarrow> rules_store option \<Rightarrow> live_prompt option
    \<Rightarrow> rules_store option \<times> store_error option"
where
  "remember_always written rules prompt =
     (case (rules, prompt) of
        (Some r, Some p) \<Rightarrow>
          (let (r', e) = approve_tentatively written (prompt_session p) (prompt_id p) (always_rules p) r
           in (Some r', e))
      | _ \<Rightarrow> (rules, None))"

definition settle_always :: "bool \<Rightarrow> rules_store option \<Rightarrow> string \<Rightarrow> bool
    \<Rightarrow> rules_store option \<times> store_error option"
where
  "settle_always written rules pid always =
     (case rules of
        None \<Rightarrow> (None, None)
      | Some r \<Rightarrow> (let (r', e) = settle written pid always r in (Some r', e)))"

section \<open>Answering a prompt\<close>

text \<open>
  \<open>Adapter.RespondPermission\<close> of internal/platforms/provider/operations.go: an \<open>always\<close> reply
  is saved tentatively first; then the provider is called; only its success settles the approval
  and clears the cached prompt. The two writes and the call succeed or not as arguments.
\<close>

datatype respond_error = RememberFailed store_error | CallFailed

record adapter =
  ad_rules :: "rules_store option"
  ad_permissions :: "string \<rightharpoonup> live_prompt"
  ad_prompt_version :: nat

definition respond_permission :: "bool \<Rightarrow> bool \<Rightarrow> bool \<Rightarrow> string \<Rightarrow> string \<Rightarrow> adapter
    \<Rightarrow> adapter \<times> respond_error option"
where
  "respond_permission remembered delivered settled pid reply a =
     (let prompt = ad_permissions a pid;
          (rules, err) = (if reply = ''always'' then remember_always remembered (ad_rules a) prompt
                          else (ad_rules a, None));
          a' = a\<lparr>ad_rules := rules\<rparr>
      in case err of
           Some e \<Rightarrow> (a', Some (RememberFailed e))
         | None \<Rightarrow>
             if \<not> delivered then (a', Some CallFailed)
             else (a'\<lparr>ad_rules := fst (settle_always settled rules pid (reply = ''always'')),
                      ad_permissions := (ad_permissions a')(pid := None),
                      ad_prompt_version := Suc (ad_prompt_version a')\<rparr>, None))"

section \<open>The contract of tentative approvals\<close>

text \<open>
  What the adapter relies on: proposing grants nothing, and settling can grant only what was
  proposed under the same permission id, and only on an \<open>always\<close> outcome.
\<close>

datatype 'r approval_op =
    Propose bool string string "'r list"
  | SettleOp bool string bool

fun apply_approval :: "(bool \<Rightarrow> string \<Rightarrow> string \<Rightarrow> 'r list \<Rightarrow> 's \<Rightarrow> 's)
    \<Rightarrow> (bool \<Rightarrow> string \<Rightarrow> bool \<Rightarrow> 's \<Rightarrow> 's) \<Rightarrow> 's \<Rightarrow> 'r approval_op \<Rightarrow> 's"
where
  "apply_approval prop setl s (Propose w sid pid rs) = prop w sid pid rs s"
| "apply_approval prop setl s (SettleOp w pid always) = setl w pid always s"

definition run_approvals :: "(bool \<Rightarrow> string \<Rightarrow> string \<Rightarrow> 'r list \<Rightarrow> 's \<Rightarrow> 's)
    \<Rightarrow> (bool \<Rightarrow> string \<Rightarrow> bool \<Rightarrow> 's \<Rightarrow> 's) \<Rightarrow> 'r approval_op list \<Rightarrow> 's \<Rightarrow> 's"
where
  "run_approvals prop setl ops s = foldl (apply_approval prop setl) s ops"

locale approval_store =
  fixes granted :: "'s \<Rightarrow> string \<Rightarrow> 'r set"
    and proposed :: "'s \<Rightarrow> string \<Rightarrow> 'r set"
    and propose :: "bool \<Rightarrow> string \<Rightarrow> string \<Rightarrow> 'r list \<Rightarrow> 's \<Rightarrow> 's"
    and settle_op :: "bool \<Rightarrow> string \<Rightarrow> bool \<Rightarrow> 's \<Rightarrow> 's"
  assumes propose_granted: "granted (propose w sid pid rs s) = granted s"
    and propose_proposed: "proposed (propose w sid pid rs s) pid' \<subseteq>
          proposed s pid' \<union> (if pid' = pid then set rs else {})"
    and settle_granted: "granted (settle_op w pid always s) sid \<subseteq>
          granted s sid \<union> (if always then proposed s pid else {})"
    and settle_proposed: "proposed (settle_op w pid always s) pid' \<subseteq> proposed s pid'"
begin

lemma run_ops_snoc:
  "run_approvals propose settle_op (ops @ [x]) s
   = apply_approval propose settle_op (run_approvals propose settle_op ops s) x"
  by (simp add: run_approvals_def)

lemma proposed_origin:
  assumes "r \<in> proposed (run_approvals propose settle_op ops s) pid"
  shows "r \<in> proposed s pid \<or> (\<exists>w sid rs. Propose w sid pid rs \<in> set ops \<and> r \<in> set rs)"
  using assms
proof (induction ops rule: rev_induct)
  case (snoc x ops)
  then show ?case
  proof (cases x)
    case (Propose w sid pid' rs)
    with snoc.prems propose_proposed [of w sid pid' rs "run_approvals propose settle_op ops s" pid]
    have "r \<in> proposed (run_approvals propose settle_op ops s) pid \<or> pid' = pid \<and> r \<in> set rs"
      by (auto simp: run_ops_snoc split: if_splits)
    with snoc.IH Propose show ?thesis by auto
  next
    case (SettleOp w pid' always)
    with snoc.prems have "r \<in> proposed (settle_op w pid' always (run_approvals propose settle_op ops s)) pid"
      by (simp add: run_ops_snoc)
    then have "r \<in> proposed (run_approvals propose settle_op ops s) pid"
      using settle_proposed by (rule set_mp [rotated])
    with snoc.IH show ?thesis by auto
  qed
qed (simp add: run_approvals_def)

lemma granted_origin:
  assumes "r \<in> granted (run_approvals propose settle_op ops s) sid" and "\<And>pid. proposed s pid = {}"
  shows "r \<in> granted s sid \<or> (\<exists>before after pid w. ops = before @ [SettleOp w pid True] @ after
     \<and> (\<exists>w' sid' rs. Propose w' sid' pid rs \<in> set before \<and> r \<in> set rs))"
  using assms(1)
proof (induction ops rule: rev_induct)
  case (snoc x ops)
  show ?case
  proof (cases "r \<in> granted (run_approvals propose settle_op ops s) sid")
    case True
    then show ?thesis using snoc.IH by (metis append.assoc)
  next
    case False
    obtain w pid always where x: "x = SettleOp w pid always"
      using False snoc.prems by (cases x) (auto simp: run_ops_snoc propose_granted)
    with snoc.prems have "r \<in> granted (settle_op w pid always (run_approvals propose settle_op ops s)) sid"
      by (simp add: run_ops_snoc)
    with settle_granted have "r \<in> granted (run_approvals propose settle_op ops s) sid
        \<union> (if always then proposed (run_approvals propose settle_op ops s) pid else {})" by (rule set_mp)
    with False have "always" and "r \<in> proposed (run_approvals propose settle_op ops s) pid" by (auto split: if_splits)
    with x have x: "x = SettleOp w pid True" by simp
    from \<open>r \<in> proposed (run_approvals propose settle_op ops s) pid\<close>
    have "\<exists>w' sid' rs. Propose w' sid' pid rs \<in> set ops \<and> r \<in> set rs"
      using proposed_origin assms(2) by blast
    then show ?thesis using x by fastforce
  qed
qed (simp add: run_approvals_def)

end

section \<open>The code's store satisfies the contract\<close>

definition granted_rules :: "rules_store \<Rightarrow> string \<Rightarrow> permission_rule set" where
  "granted_rules r sid = set (lookup_list (approved_of (store_data r)) sid)"

definition proposed_rules :: "rules_store \<Rightarrow> string \<Rightarrow> permission_rule set" where
  "proposed_rules r pid = set (tent_rules (tentative_at (store_data r) pid))"

lemma set_add_new_foldl: "set (foldl add_new xs ys) = set xs \<union> set ys"
  by (induction ys arbitrary: xs) (auto simp: add_new_def)

lemma commit_locked_cases:
  "commit_locked w f r = (r\<lparr>store_data := f (store_data r)\<rparr>, None)
   \<or> commit_locked w f r = (r, Some SaveFailed) \<and> \<not> w \<and> store_path r \<noteq> []"
  by (auto simp: commit_locked_def Let_def)

lemma commit_locked_written:
  "w \<or> store_path r = [] \<Longrightarrow> commit_locked w f r = (r\<lparr>store_data := f (store_data r)\<rparr>, None)"
  by (auto simp: commit_locked_def Let_def)

interpretation rs: approval_store granted_rules proposed_rules
  "\<lambda>w sid pid rules r. fst (approve_tentatively w sid pid rules r)"
  "\<lambda>w pid always r. fst (settle w pid always r)"
proof
  fix w sid pid rules r
  show "granted_rules (fst (approve_tentatively w sid pid rules r)) = granted_rules r"
    by (auto simp: approve_tentatively_def commit_locked_def granted_rules_def Let_def)
  fix pid'
  show "proposed_rules (fst (approve_tentatively w sid pid rules r)) pid' \<subseteq>
      proposed_rules r pid' \<union> (if pid' = pid then set rules else {})"
    by (auto simp: approve_tentatively_def commit_locked_def proposed_rules_def tentative_at_def
        Let_def set_add_new_foldl split: if_splits option.splits)
next
  fix w pid always r sid
  show "granted_rules (fst (settle w pid always r)) sid \<subseteq>
      granted_rules r sid \<union> (if always then proposed_rules r pid else {})"
    by (auto simp: settle_def commit_locked_def granted_rules_def proposed_rules_def tentative_at_def
        lookup_list_def Let_def set_add_new_foldl split: if_splits option.splits)
  fix pid'
  show "proposed_rules (fst (settle w pid always r)) pid' \<subseteq> proposed_rules r pid'"
    by (auto simp: settle_def commit_locked_def proposed_rules_def tentative_at_def Let_def
        split: if_splits option.splits)
qed

definition store_run :: "permission_rule approval_op list \<Rightarrow> rules_store \<Rightarrow> rules_store" where
  "store_run = run_approvals
     (\<lambda>w sid pid rules r. fst (approve_tentatively w sid pid rules r))
     (\<lambda>w pid always r. fst (settle w pid always r))"

lemma rules_decide_cong:
  assumes "rules_of (store_data r') = rules_of (store_data r)"
    and "approved_of (store_data r') = approved_of (store_data r)"
  shows "rules_decide r' q = rules_decide r q"
  using assms by (simp add: rules_decide_def prompt_rule_set_def)

lemma approve_tentatively_frame:
  "rules_of (store_data (fst (approve_tentatively w sid pid rs r))) = rules_of (store_data r)"
  "approved_of (store_data (fst (approve_tentatively w sid pid rs r))) = approved_of (store_data r)"
  by (simp_all add: approve_tentatively_def commit_locked_def Let_def)

lemma settle_never_frame:
  "rules_of (store_data (fst (settle w pid False r))) = rules_of (store_data r)"
  "approved_of (store_data (fst (settle w pid False r))) = approved_of (store_data r)"
  by (auto simp: settle_def commit_locked_def Let_def split: option.splits)

lemma remember_always_decide:
  "fst (remember_always w (Some r) prompt) = Some r' \<Longrightarrow> rules_decide r' q = rules_decide r q"
  by (auto simp: remember_always_def Let_def approve_tentatively_frame
      intro!: rules_decide_cong split: option.splits prod.splits)
    (metis approve_tentatively_frame fst_conv)+

lemma remember_always_Some: "\<exists>r' e. remember_always w (Some r) prompt = (Some r', e)"
  by (cases prompt) (simp_all add: remember_always_def case_prod_beta)

lemma settle_always_decide:
  "fst (settle_always w (Some r) pid False) = Some r' \<Longrightarrow> rules_decide r' q = rules_decide r q"
  by (auto simp: settle_always_def Let_def intro!: rules_decide_cong split: prod.splits)
    (metis settle_never_frame fst_conv)+

section \<open>Properties\<close>

text \<open>C23: no standing approval without an \<open>always\<close> reply. Starting from a store without
  tentative approvals, every rule a session is granted after any sequence of tentative approvals
  and settlements (with any of their writes failing) was either granted before, or was proposed
  under a permission id that was settled as \<open>always\<close> later on.\<close>

theorem no_grant_without_always_reply:
  assumes "tentative_of (store_data r0) = Map.empty"
    and "rule \<in> granted_rules (store_run ops r0) sid"
  shows "rule \<in> granted_rules r0 sid
    \<or> (\<exists>before after pid w. ops = before @ [SettleOp w pid True] @ after
         \<and> (\<exists>w' sid' rules. Propose w' sid' pid rules \<in> set before \<and> rule \<in> set rules))"
proof (rule rs.granted_origin)
  show "rule \<in> granted_rules (run_approvals
     (\<lambda>w sid pid rules r. fst (approve_tentatively w sid pid rules r))
     (\<lambda>w pid always r. fst (settle w pid always r)) ops r0) sid"
    using assms(2) by (simp add: store_run_def)
  show "proposed_rules r0 pid = {}" for pid
    using assms(1) by (simp add: proposed_rules_def tentative_at_def)
qed

theorem no_grant_without_always_reply_witness:
  "let r0 = \<lparr>store_path = ''rules.json'', store_data = empty_rules_data\<rparr>;
       rule = allow_rule ''bash'' ''ls'';
       ops = [Propose True ''s'' ''p'' [rule], SettleOp False ''p'' True, SettleOp True ''p'' True]
   in rule \<in> granted_rules (store_run ops r0) ''s''
      \<and> (\<exists>before after pid w. ops = before @ [SettleOp w pid True] @ after)"
proof -
  let ?r0 = "\<lparr>store_path = ''rules.json'', store_data = empty_rules_data\<rparr>"
  let ?rule = "allow_rule ''bash'' ''ls''"
  let ?ops = "[Propose True ''s'' ''p'' [?rule], SettleOp False ''p'' True, SettleOp True ''p'' True]"
  have none: "tentative_of (store_data ?r0) = Map.empty" "granted_rules ?r0 ''s'' = {}"
    by (simp_all add: empty_rules_data_def granted_rules_def lookup_list_def)
  have run: "?rule \<in> granted_rules (store_run ?ops ?r0) ''s''"
    by (simp add: store_run_def run_approvals_def approve_tentatively_def settle_def commit_locked_def
        granted_rules_def lookup_list_def empty_rules_data_def tentative_at_def Let_def add_new_def)
  from no_grant_without_always_reply [OF none(1) run] none(2)
  have "\<exists>before after pid w. ?ops = before @ [SettleOp w pid True] @ after" by blast
  with run show ?thesis by (simp add: Let_def)
qed

text \<open>a reply that does not reach the provider, and any reply other than \<open>always\<close>, leaves
  every later rule decision as it was: for all prompts of all sessions the store decides exactly
  what it decided before, whether the tentative write, the call or the settlement failed; and an
  undelivered reply leaves the prompt cached and answerable.\<close>

theorem respond_without_grant:
  assumes "ad_rules a = Some r" and "\<not> delivered \<or> reply \<noteq> ''always''"
  shows "\<exists>r'. ad_rules (fst (respond_permission remembered delivered settled pid reply a)) = Some r'
      \<and> (\<forall>q. rules_decide r' q = rules_decide r q)
      \<and> (\<not> delivered \<longrightarrow>
           ad_permissions (fst (respond_permission remembered delivered settled pid reply a)) = ad_permissions a)"
proof -
  obtain r1 e where rem: "(if reply = ''always'' then remember_always remembered (Some r) (ad_permissions a pid)
      else (Some r, None)) = (Some r1, e)"
    using remember_always_Some [of remembered r "ad_permissions a pid"] by (metis (full_types))
  have dec1: "rules_decide r1 q = rules_decide r q" for q
    using rem remember_always_decide [of remembered r "ad_permissions a pid" r1 q]
    by (auto split: if_splits)
  obtain r2 where set: "fst (settle_always settled (Some r1) pid (reply = ''always'')) = Some r2"
    by (simp add: settle_always_def case_prod_beta)
  have "rules_decide r2 q = rules_decide r1 q" if "reply \<noteq> ''always''" for q
    using set that settle_always_decide by simp
  moreover have "respond_permission remembered delivered settled pid reply a =
      (case e of Some e' \<Rightarrow> (a\<lparr>ad_rules := Some r1\<rparr>, Some (RememberFailed e'))
       | None \<Rightarrow> if \<not> delivered then (a\<lparr>ad_rules := Some r1\<rparr>, Some CallFailed)
           else (a\<lparr>ad_rules := Some r2, ad_permissions := (ad_permissions a)(pid := None),
                   ad_prompt_version := Suc (ad_prompt_version a)\<rparr>, None))"
    unfolding respond_permission_def Let_def assms(1) rem prod.case
    by (simp add: set split: option.split)
  ultimately show ?thesis
    using dec1 assms(2) by (cases e; cases delivered) simp_all
qed

theorem respond_without_grant_witness:
  "let r = \<lparr>store_path = [], store_data = empty_rules_data\<rparr>;
       p = \<lparr>prompt_id = ''p'', prompt_session = ''s'', prompt_permission = ''bash'',
            prompt_patterns = [''ls''], prompt_always = [], ocman_preflight = False\<rparr>;
       a = \<lparr>ad_rules = Some r, ad_permissions = [''p'' \<mapsto> p], ad_prompt_version = 0\<rparr>
   in \<exists>r'. ad_rules (fst (respond_permission True False True ''p'' ''always'' a)) = Some r'
        \<and> rules_decide r' p = rules_decide r p"
proof -
  let ?r = "\<lparr>store_path = [], store_data = empty_rules_data\<rparr>"
  let ?p = "\<lparr>prompt_id = ''p'', prompt_session = ''s'', prompt_permission = ''bash'',
            prompt_patterns = [''ls''], prompt_always = [], ocman_preflight = False\<rparr>"
  let ?a = "\<lparr>ad_rules = Some ?r, ad_permissions = [''p'' \<mapsto> ?p], ad_prompt_version = 0\<rparr>"
  show ?thesis
    using respond_without_grant [of ?a ?r False "''always''" True True "''p''"]
    by (auto simp: Let_def)
qed

section \<open>What a delivered "Allow always" grants\<close>

lemma always_rules_single:
  "prompt_always p = [pat] \<Longrightarrow> always_rules p = [\<lparr>rule_permission = prompt_permission p,
     rule_pattern = pat, rule_action = ActionAllow\<rparr>]"
  by (simp add: always_rules_def ActionAllow_def)

lemma approve_then_settle:
  assumes "tentative_of (store_data r) pid = None"
  shows "store_data (fst (settle True pid True (fst (approve_tentatively True sid pid [rule] r))))
    = (store_data r)\<lparr>approved_of := (approved_of (store_data r))(sid \<mapsto>
         add_new (lookup_list (approved_of (store_data r)) sid) rule)\<rparr>"
proof -
  have "fun_upd ((tentative_of (store_data r))(pid \<mapsto> t)) pid None = tentative_of (store_data r)" for t
    using assms by auto
  with assms show ?thesis
    by (simp add: approve_tentatively_def settle_def commit_locked_written tentative_at_def Let_def
        add_new_def)
qed

lemma last_match_add_new:
  assumes "rule \<in> set rules \<longrightarrow> mt (rule_permission rule) perm \<and> mt (rule_pattern rule) v
      \<longrightarrow> last_match rules perm v mt = Some (normal_action (rule_action rule))"
  shows "last_match (add_new rules rule) perm v mt =
    (if mt (rule_permission rule) perm \<and> mt (rule_pattern rule) v
     then Some (normal_action (rule_action rule)) else last_match rules perm v mt)"
  using assms by (auto simp: add_new_def rule_simps)

lemma last_match_all_allow:
  assumes "\<forall>r \<in> set rules. rule_action r = ActionAllow" and "rule \<in> set rules"
    and "mt (rule_permission rule) perm" "mt (rule_pattern rule) v"
  shows "last_match rules perm v mt = Some ActionAllow"
proof -
  have "last_match rules perm v mt \<noteq> None"
    using assms(2-) by (auto simp: last_match_None_iff)
  then show ?thesis using last_match_Some [of rules perm v mt] assms(1) by fastforce
qed

lemma decide_single: "decide s perm [pat] =
   (let a = decide_pattern s perm pat
    in if a = ActionDeny \<or> a = ActionAllow \<or> a = ActionNone then a else ActionAsk)"
  by (simp add: decide_def Let_def)

lemma rules_decide_exact:
  assumes "prompt_patterns q = [exact_pattern cmd]"
  shows "rules_decide r q =
    (let conf = last_match (lookup_list (rules_of (store_data r)) (prompt_session q))
           (prompt_permission q) cmd match_pattern;
         appr = last_match (lookup_list (approved_of (store_data r)) (prompt_session q))
           (prompt_permission q) cmd match_pattern;
         dflt = (if ocman_preflight q then ActionAllow else ActionNone);
         act = (if conf = Some ActionDeny then ActionDeny
                else case appr of Some a \<Rightarrow> a | None \<Rightarrow> (case conf of Some a \<Rightarrow> a | None \<Rightarrow> dflt))
     in if act = ActionAllow then ''once'' else if act = ActionDeny then ''reject'' else '''')"
proof -
  have m: "matcher_match ExactMatch = match_pattern" by (intro ext) simp
  have "decide_pattern (prompt_rule_set r q) (prompt_permission q) (exact_pattern cmd) =
     (let conf = last_match (lookup_list (rules_of (store_data r)) (prompt_session q))
           (prompt_permission q) cmd match_pattern;
         appr = last_match (lookup_list (approved_of (store_data r)) (prompt_session q))
           (prompt_permission q) cmd match_pattern;
         dflt = (if ocman_preflight q then ActionAllow else ActionNone)
      in if conf = Some ActionDeny then ActionDeny
         else case appr of Some a \<Rightarrow> a | None \<Rightarrow> (case conf of Some a \<Rightarrow> a | None \<Rightarrow> dflt))"
    by (simp add: decide_pattern_def prompt_rule_set_def prompt_value_def pattern_value_unescape
        unescape_exact m Let_def cong: option.case_cong)
  then show ?thesis
    unfolding rules_decide_def assms decide_single Let_def by simp
qed

text \<open>a delivered "Allow always" grants exactly the call it was asked for. When the cached
  prompt carries one exact pattern and both writes and the call succeed, a later prompt for one
  exact call is answered \<open>once\<close> by rule if it comes from the same session, asks for the same
  permission and is that very call, unless a configured rule denies it; every other such prompt
  is decided as before.\<close>

theorem delivered_always_grants_the_call:
  assumes rules: "ad_rules a = Some r" and cached: "ad_permissions a pid = Some p"
    and pid: "prompt_id p = pid" "tentative_of (store_data r) pid = None"
    and call: "prompt_always p = [exact_pattern cmd]" "cmd \<noteq> []"
    and perm: "plain (prompt_permission p)" "prompt_permission p \<noteq> []"
    and allow: "\<forall>x \<in> granted_rules r (prompt_session p). rule_action x = ActionAllow"
  shows "\<exists>r'. ad_rules (fst (respond_permission True True True pid ''always'' a)) = Some r'
    \<and> (\<forall>q cmd'. prompt_patterns q = [exact_pattern cmd'] \<longrightarrow> rules_decide r' q =
         (if prompt_session q = prompt_session p \<and> prompt_permission q = prompt_permission p
             \<and> cmd' = cmd \<and> last_match (lookup_list (rules_of (store_data r)) (prompt_session q))
                  (prompt_permission q) cmd match_pattern \<noteq> Some ActionDeny
          then ''once'' else rules_decide r q))"
proof -
  let ?sid = "prompt_session p"
  let ?rule = "\<lparr>rule_permission = prompt_permission p, rule_pattern = exact_pattern cmd,
      rule_action = ActionAllow\<rparr>"
  let ?r1 = "fst (approve_tentatively True ?sid pid [?rule] r)"
  let ?r' = "fst (settle True pid True ?r1)"
  let ?appr = "lookup_list (approved_of (store_data r)) ?sid"
  have "snd (approve_tentatively True ?sid pid [?rule] r) = None"
    by (simp add: approve_tentatively_def commit_locked_written)
  then have result: "ad_rules (fst (respond_permission True True True pid ''always'' a)) = Some ?r'"
    using rules cached pid always_rules_single [OF call(1)]
    by (simp add: respond_permission_def remember_always_def settle_always_def case_prod_beta Let_def)
  have data: "store_data ?r' = (store_data r)\<lparr>approved_of := (approved_of (store_data r))
      (?sid \<mapsto> add_new ?appr ?rule)\<rparr>"
    by (rule approve_then_settle [OF pid(2)])
  have fields: "rules_of (store_data ?r') = rules_of (store_data r)"
      "approved_of (store_data ?r') = (approved_of (store_data r))(?sid \<mapsto> add_new ?appr ?rule)"
    by (simp_all add: data)
  have match: "match_pattern (rule_permission ?rule) k \<and> match_pattern (rule_pattern ?rule) v
      \<longleftrightarrow> k = prompt_permission p \<and> v = cmd" for k v
    using perm call(2) match_pattern_plain
    by (simp add: match_pattern_def pattern_pieces_exact exact_pattern_not_star pattern_simps)
  have appr: "last_match (add_new ?appr ?rule) k v match_pattern =
      (if k = prompt_permission p \<and> v = cmd then Some ActionAllow
       else last_match ?appr k v match_pattern)" for k v
    using allow match [of k v] last_match_all_allow [of ?appr ?rule match_pattern k v]
    by (subst last_match_add_new) (auto simp: granted_rules_def)
  have "rules_decide ?r' q =
         (if prompt_session q = ?sid \<and> prompt_permission q = prompt_permission p
             \<and> cmd' = cmd \<and> last_match (lookup_list (rules_of (store_data r)) (prompt_session q))
                  (prompt_permission q) cmd match_pattern \<noteq> Some ActionDeny
          then ''once'' else rules_decide r q)"
    if pats: "prompt_patterns q = [exact_pattern cmd']" for q cmd'
  proof -
    let ?new = "lookup_list ((approved_of (store_data r))(?sid \<mapsto> add_new ?appr ?rule)) (prompt_session q)"
    have new: "last_match ?new (prompt_permission q) cmd' match_pattern =
        (if prompt_session q = ?sid \<and> prompt_permission q = prompt_permission p \<and> cmd' = cmd
         then Some ActionAllow
         else last_match (lookup_list (approved_of (store_data r)) (prompt_session q))
                (prompt_permission q) cmd' match_pattern)"
      by (auto simp: lookup_list_upd appr)
    show ?thesis
    proof (cases "prompt_session q = ?sid \<and> prompt_permission q = prompt_permission p \<and> cmd' = cmd")
      case True
      let ?conf = "last_match (lookup_list (rules_of (store_data r)) (prompt_session q))
          (prompt_permission q) cmd' match_pattern"
      have newT: "last_match ?new (prompt_permission q) cmd' match_pattern = Some ActionAllow"
        using new by (simp only: True if_True simp_thms)
      have "rules_decide ?r' q = (if ?conf = Some ActionDeny then ''reject'' else ''once'')"
        unfolding rules_decide_exact [OF pats] fields
        by (simp only: newT Let_def option.case) simp
      moreover have "rules_decide r q = ''reject''" if "?conf = Some ActionDeny"
        unfolding rules_decide_exact [OF pats] by (simp add: that)
      ultimately show ?thesis using True by (simp only: simp_thms if_True) auto
    next
      case False
      then have same: "last_match ?new (prompt_permission q) cmd' match_pattern =
          last_match (lookup_list (approved_of (store_data r)) (prompt_session q))
            (prompt_permission q) cmd' match_pattern" using new by (simp only: if_False)
      have "rules_decide ?r' q = rules_decide r q"
        unfolding rules_decide_exact [OF pats] fields by (simp only: same)
      with False show ?thesis by (simp only: if_False) auto
    qed
  qed
  with result show ?thesis by blast
qed

theorem delivered_always_grants_the_call_witness:
  "let r = \<lparr>store_path = ''f'', store_data = empty_rules_data\<rparr>;
       ask = (\<lambda>i c. \<lparr>prompt_id = i, prompt_session = ''s'', prompt_permission = ''bash'',
            prompt_patterns = [exact_pattern c], prompt_always = [exact_pattern c],
            ocman_preflight = False\<rparr>);
       a = \<lparr>ad_rules = Some r, ad_permissions = [''p'' \<mapsto> ask ''p'' ''rm *''], ad_prompt_version = 0\<rparr>
   in \<exists>r'. ad_rules (fst (respond_permission True True True ''p'' ''always'' a)) = Some r'
        \<and> rules_decide r' (ask ''q'' ''rm *'') = ''once'' \<and> rules_decide r' (ask ''q'' ''rm x'') = ''''"
proof -
  let ?r = "\<lparr>store_path = ''f'', store_data = empty_rules_data\<rparr>"
  let ?ask = "\<lambda>i c. \<lparr>prompt_id = i, prompt_session = ''s'', prompt_permission = ''bash'',
            prompt_patterns = [exact_pattern c], prompt_always = [exact_pattern c],
            ocman_preflight = False\<rparr>"
  let ?a = "\<lparr>ad_rules = Some ?r, ad_permissions = [''p'' \<mapsto> ?ask ''p'' ''rm *''], ad_prompt_version = 0\<rparr>"
  have base: "rules_decide ?r (?ask ''q'' ''rm x'') = ''''" by code_simp
  have noconf: "rules_of (store_data ?r) = Map.empty" "granted_rules ?r ''s'' = {}"
    by (simp_all add: empty_rules_data_def granted_rules_def lookup_list_def)
  obtain r' where r': "ad_rules (fst (respond_permission True True True ''p'' ''always'' ?a)) = Some r'"
    and dec: "\<And>q cmd'. prompt_patterns q = [exact_pattern cmd'] \<Longrightarrow> rules_decide r' q =
         (if prompt_session q = ''s'' \<and> prompt_permission q = ''bash'' \<and> cmd' = ''rm *''
          then ''once'' else rules_decide ?r q)"
    using delivered_always_grants_the_call [of ?a ?r "''p''" "?ask ''p'' ''rm *''" "''rm *''"] noconf
    by (auto simp: lookup_list_def last_match_Nil escapable_def simp del: exact_pattern.simps)
  show ?thesis
    using r' base dec [of "?ask ''q'' ''rm *''" "''rm *''"] dec [of "?ask ''q'' ''rm x''" "''rm x''"]
    by (simp add: Let_def del: exact_pattern.simps)
qed

end
