(* ===== verification/Queue_Store.thy ===== *)
theory Queue_Store
  imports Prelude "HOL-Library.Multiset"
begin

text \<open>
  The durable follow-up queue: the \<open>queued_message\<close> table and its queries in
  internal/state/queued_message.go. The table is the list of its rows; every SQL statement is
  the function it computes on them. A row belongs to the session \<open>(platform, session_id)\<close>,
  and a session's queue is its rows by position.
\<close>

section \<open>The table\<close>

record queued_message =
  qm_id :: string
  qm_platform :: string
  qm_session :: string
  qm_position :: int
  qm_text :: string
  qm_images :: string
  qm_model :: string
  qm_agent :: string
  qm_reasoning :: string
  qm_preserve :: bool
  qm_created :: int
  qm_attempts :: nat
  qm_last_error :: string
  qm_blocked :: bool

type_synonym queue_table = "queued_message list"
type_synonym session_key = "string \<times> string"

definition qm_key :: "queued_message \<Rightarrow> session_key" where
  "qm_key m = (qm_platform m, qm_session m)"

definition queued_message_attempt_limit :: nat where
  "queued_message_attempt_limit = 5"

text \<open>\<open>SELECT ... WHERE platform = ? AND session_id = ? ORDER BY position\<close>.\<close>

definition list_queued_messages :: "queue_table \<Rightarrow> session_key \<Rightarrow> queued_message list" where
  "list_queued_messages rows key = sort_key qm_position (filter (\<lambda>m. qm_key m = key) rows)"

definition count_queued_messages :: "queue_table \<Rightarrow> session_key \<Rightarrow> nat" where
  "count_queued_messages rows key = length (filter (\<lambda>m. qm_key m = key) rows)"

text \<open>\<open>... AND blocked = 0 ORDER BY position ASC LIMIT 1\<close>.\<close>

definition head_queued_message :: "queue_table \<Rightarrow> session_key \<Rightarrow> queued_message option" where
  "head_queued_message rows key =
     (case sort_key qm_position (filter (\<lambda>m. qm_key m = key \<and> \<not> qm_blocked m) rows) of
        [] \<Rightarrow> None
      | m # _ \<Rightarrow> Some m)"

text \<open>\<open>COALESCE((SELECT MAX(position) ...), 0) + 1\<close>; a repeated primary key fails the insert.\<close>

definition next_position :: "queue_table \<Rightarrow> session_key \<Rightarrow> int" where
  "next_position rows key =
     (let ps = map qm_position (filter (\<lambda>m. qm_key m = key) rows)
      in (if ps = [] then 0 else Max (set ps)) + 1)"

definition enqueue_message :: "queued_message \<Rightarrow> queue_table \<Rightarrow> queue_table option" where
  "enqueue_message m rows =
     (if qm_id m \<in> qm_id ` set rows then None
      else Some (rows @ [m\<lparr>qm_position := next_position rows (qm_key m),
                           qm_attempts := 0, qm_last_error := [], qm_blocked := False\<rparr>]))"

text \<open>The failure counter; the result is the row's blocked flag after the update.\<close>

definition fail_row :: "string \<Rightarrow> queued_message \<Rightarrow> queued_message" where
  "fail_row reason m = m\<lparr>qm_attempts := qm_attempts m + 1, qm_last_error := reason,
     qm_blocked := (qm_attempts m + 1 \<ge> queued_message_attempt_limit)\<rparr>"

definition record_queued_message_failure ::
  "string \<Rightarrow> string \<Rightarrow> queue_table \<Rightarrow> queue_table \<times> bool"
where
  "record_queued_message_failure i reason rows =
     (let rows' = map (\<lambda>m. if qm_id m = i then fail_row reason m else m) rows
      in (rows', case find (\<lambda>m. qm_id m = i) rows' of None \<Rightarrow> False | Some m \<Rightarrow> qm_blocked m))"

definition delete_queued_message :: "string \<Rightarrow> queue_table \<Rightarrow> queue_table \<times> bool" where
  "delete_queued_message i rows =
     (filter (\<lambda>m. qm_id m \<noteq> i) rows, i \<in> qm_id ` set rows)"

text \<open>
  The move of a message by one place (\<open>direction\<close> -1 or +1): the neighbour is the closest row
  of the session in that direction, and the two swap positions. Any other direction is an error.
\<close>

definition queue_neighbor :: "queue_table \<Rightarrow> queued_message \<Rightarrow> int \<Rightarrow> queued_message option" where
  "queue_neighbor rows m direction =
     (if direction < 0
      then (case rev (filter (\<lambda>n. qm_position n < qm_position m) (list_queued_messages rows (qm_key m))) of
              [] \<Rightarrow> None | n # _ \<Rightarrow> Some n)
      else (case filter (\<lambda>n. qm_position n > qm_position m) (list_queued_messages rows (qm_key m)) of
              [] \<Rightarrow> None | n # _ \<Rightarrow> Some n))"

definition set_position :: "string \<Rightarrow> int \<Rightarrow> queue_table \<Rightarrow> queue_table" where
  "set_position i p rows = map (\<lambda>m. if qm_id m = i then m\<lparr>qm_position := p\<rparr> else m) rows"

datatype move_result = InvalidDirection | Moved queue_table | NotMoved

definition move_queued_message :: "string \<Rightarrow> int \<Rightarrow> queue_table \<Rightarrow> move_result" where
  "move_queued_message i direction rows =
     (if direction \<noteq> -1 \<and> direction \<noteq> 1 then InvalidDirection
      else case find (\<lambda>m. qm_id m = i) rows of
          None \<Rightarrow> NotMoved
        | Some m \<Rightarrow>
            (case queue_neighbor rows m direction of
               None \<Rightarrow> NotMoved
             | Some n \<Rightarrow> Moved (set_position (qm_id n) (qm_position m)
                                 (set_position i (qm_position n) rows))))"

definition get_queued_message_session :: "string \<Rightarrow> queue_table \<Rightarrow> session_key option" where
  "get_queued_message_session i rows = map_option qm_key (find (\<lambda>m. qm_id m = i) rows)"

text \<open>\<open>SELECT DISTINCT ... WHERE blocked = 0 AND NOT EXISTS (archived)\<close>.\<close>

definition sessions_with_queued_messages :: "session_key list \<Rightarrow> queue_table \<Rightarrow> session_key list" where
  "sessions_with_queued_messages archived rows =
     remdups (map qm_key (filter (\<lambda>m. \<not> qm_blocked m \<and> qm_key m \<notin> set archived) rows))"

section \<open>The table's invariant\<close>

definition positions :: "queue_table \<Rightarrow> session_key \<Rightarrow> int list" where
  "positions rows key = map qm_position (filter (\<lambda>m. qm_key m = key) rows)"

definition queue_inv :: "queue_table \<Rightarrow> bool" where
  "queue_inv rows \<longleftrightarrow> distinct (map qm_id rows) \<and> (\<forall>key. distinct (positions rows key))"

lemma queue_inv_Nil [simp]: "queue_inv []"
  by (simp add: queue_inv_def positions_def)

lemma sort_key_snoc: "\<forall>y \<in> set xs. f y \<le> f x \<Longrightarrow> sort_key f (xs @ [x]) = sort_key f xs @ [x]"
proof (induction xs)
  case (Cons y xs)
  have "insort_key f y (zs @ [x]) = insort_key f y zs @ [x]" if "f y \<le> f x" for zs
    using that by (induction zs) auto
  with Cons show ?case by simp
qed simp

lemma next_position_above: "m \<in> set rows \<Longrightarrow> qm_key m = key \<Longrightarrow> qm_position m < next_position rows key"
proof -
  assume m: "m \<in> set rows" "qm_key m = key"
  let ?ps = "map qm_position (filter (\<lambda>m. qm_key m = key) rows)"
  from m have "qm_position m \<in> set ?ps" by auto
  then have "?ps \<noteq> []" "qm_position m \<le> Max (set ?ps)"
    by (metis list.set(1) empty_iff) (use m in \<open>simp add: Max_ge\<close>)
  then show ?thesis by (simp add: next_position_def Let_def)
qed

lemma set_list_queued [simp]:
  "set (list_queued_messages rows key) = {m \<in> set rows. qm_key m = key}"
  by (auto simp: list_queued_messages_def)

lemma sorted_list_queued: "sorted (map qm_position (list_queued_messages rows key))"
  by (simp add: list_queued_messages_def)

lemma find_filter: "List.find P xs = (case filter P xs of [] \<Rightarrow> None | x # _ \<Rightarrow> Some x)"
  by (induction xs) auto

lemma head_is_first_unblocked: "head_queued_message rows key =
    List.find (\<lambda>m. \<not> qm_blocked m) (list_queued_messages rows key)"
proof -
  have "filter (\<lambda>m. qm_key m = key \<and> \<not> qm_blocked m) rows =
      filter (\<lambda>m. \<not> qm_blocked m) (filter (\<lambda>m. qm_key m = key) rows)"
    by (simp add: conj_commute)
  then have eq: "sort_key qm_position (filter (\<lambda>m. qm_key m = key \<and> \<not> qm_blocked m) rows) =
      filter (\<lambda>m. \<not> qm_blocked m) (list_queued_messages rows key)"
    by (simp only: list_queued_messages_def filter_sort)
  show ?thesis unfolding head_queued_message_def eq find_filter by simp
qed

section \<open>What each operation does to the queues\<close>

lemma queue_invI: "distinct (map qm_id rows) \<Longrightarrow> (\<And>key. distinct (positions rows key)) \<Longrightarrow> queue_inv rows"
  by (simp only: queue_inv_def) blast

lemma queue_invD:
  assumes "queue_inv rows"
  shows "distinct (map qm_id rows)" "distinct (positions rows key)"
  using assms by (simp_all only: queue_inv_def)

lemma positions_mset: "mset (positions rows key) = mset (map qm_position (list_queued_messages rows key))"
  by (simp add: positions_def list_queued_messages_def)

lemma queue_inv_distinct_list:
  assumes "queue_inv rows"
  shows "distinct (map qm_position (list_queued_messages rows key))"
    "distinct (map qm_id (list_queued_messages rows key))"
proof -
  show "distinct (map qm_position (list_queued_messages rows key))"
    using assms positions_mset[of rows key]
    by (metis queue_inv_def mset_eq_imp_distinct_iff)
  have "distinct (map qm_id (filter (\<lambda>m. qm_key m = key) rows))"
    using assms by (auto simp: queue_inv_def distinct_map intro: inj_on_subset)
  moreover have "mset (map qm_id (filter (\<lambda>m. qm_key m = key) rows)) =
      mset (map qm_id (list_queued_messages rows key))"
    by (simp add: list_queued_messages_def)
  ultimately show "distinct (map qm_id (list_queued_messages rows key))"
    by (metis mset_eq_imp_distinct_iff)
qed

lemma enqueue_appends:
  assumes "enqueue_message m rows = Some rows'"
  defines "m' \<equiv> m\<lparr>qm_position := next_position rows (qm_key m), qm_attempts := 0,
                   qm_last_error := [], qm_blocked := False\<rparr>"
  shows "list_queued_messages rows' key =
      list_queued_messages rows key @ (if qm_key m = key then [m'] else [])"
proof -
  have rows': "rows' = rows @ [m']"
    using assms by (auto simp: enqueue_message_def split: if_splits)
  have key: "qm_key m' = qm_key m" by (simp add: m'_def qm_key_def)
  show ?thesis
  proof (cases "qm_key m = key")
    case True
    have "\<forall>y \<in> set (filter (\<lambda>m. qm_key m = key) rows). qm_position y \<le> qm_position m'"
      using next_position_above[of _ rows key] True by (force simp: m'_def)
    then show ?thesis using True key by (simp add: list_queued_messages_def rows' sort_key_snoc)
  next
    case False
    then show ?thesis using key by (simp add: list_queued_messages_def rows')
  qed
qed

lemma enqueue_inv:
  assumes inv: "queue_inv rows" and enq: "enqueue_message m rows = Some rows'"
  shows "queue_inv rows'"
proof -
  obtain m' where rows': "rows' = rows @ [m']" and m': "qm_id m' = qm_id m" "qm_key m' = qm_key m"
    "qm_position m' = next_position rows (qm_key m)" and new: "qm_id m \<notin> qm_id ` set rows"
    using enq by (auto simp: enqueue_message_def qm_key_def split: if_splits)
  have "distinct (positions rows' key)" for key
  proof (cases "qm_key m = key")
    case True
    have "qm_position m' \<notin> set (positions rows key)"
      using next_position_above[of _ rows key] True m'(3) by (force simp: positions_def)
    then show ?thesis using queue_invD(2)[OF inv, of key] True m' by (simp add: rows' positions_def)
  next
    case False
    then show ?thesis using queue_invD(2)[OF inv, of key] m' by (simp add: rows' positions_def)
  qed
  moreover have "distinct (map qm_id rows')"
    using queue_invD(1)[OF inv] new m' by (simp add: rows')
  ultimately show ?thesis by (rule queue_invI[rotated])
qed

lemma delete_filters:
  "list_queued_messages (fst (delete_queued_message i rows)) key =
     filter (\<lambda>m. qm_id m \<noteq> i) (list_queued_messages rows key)"
  unfolding list_queued_messages_def delete_queued_message_def fst_conv filter_sort filter_filter
  by (rule arg_cong[where f = "sort_key qm_position"]) (rule filter_cong, auto)

lemma distinct_map_filter2: "distinct (map f xs) \<Longrightarrow> distinct (map f (filter P xs))"
  by (auto simp: distinct_map intro: inj_on_subset)

lemma delete_inv: "queue_inv rows \<Longrightarrow> queue_inv (fst (delete_queued_message i rows))"
proof -
  assume inv: "queue_inv rows"
  have "positions (filter (\<lambda>m. qm_id m \<noteq> i) rows) key =
      map qm_position (filter (\<lambda>m. qm_id m \<noteq> i) (filter (\<lambda>m. qm_key m = key) rows))" for key
    unfolding positions_def filter_filter
    by (rule arg_cong[where f = "map qm_position"]) (rule filter_cong, auto)
  then have "distinct (positions (filter (\<lambda>m. qm_id m \<noteq> i) rows) key)" for key
    using queue_invD(2)[OF inv, of key] by (simp only: positions_def distinct_map_filter2)
  then show ?thesis using queue_invD(1)[OF inv]
    by (simp only: delete_queued_message_def fst_conv queue_invI distinct_map_filter2)
qed

lemma sort_key_map_same: "(\<And>x. f (g x) = f x) \<Longrightarrow> sort_key f (map g xs) = map g (sort_key f xs)"
proof (induction xs)
  case (Cons x xs)
  have "insort_key f (g x) (map g zs) = map g (insort_key f x zs)" for zs
    by (induction zs) (auto simp: Cons.prems)
  then show ?case using Cons by simp
qed simp

lemma failure_marks:
  "list_queued_messages (fst (record_queued_message_failure i reason rows)) key =
     map (\<lambda>m. if qm_id m = i then fail_row reason m else m) (list_queued_messages rows key)"
proof -
  let ?g = "\<lambda>m. if qm_id m = i then fail_row reason m else m"
  have key: "qm_key (?g m) = qm_key m" and pos: "qm_position (?g m) = qm_position m" for m
    by (simp_all add: fail_row_def qm_key_def)
  have "filter (\<lambda>m. qm_key m = key) (map ?g rows) = map ?g (filter (\<lambda>m. qm_key m = key) rows)"
    by (simp add: filter_map comp_def key)
  then show ?thesis
    unfolding list_queued_messages_def record_queued_message_failure_def Let_def fst_conv
    by (simp only: sort_key_map_same[where g = ?g and f = qm_position, OF pos])
qed

lemma map_rows_inv:
  assumes "queue_inv rows" "\<And>m. m \<in> set rows \<Longrightarrow> qm_id (g m) = qm_id m \<and> qm_key (g m) = qm_key m"
    "\<And>key. distinct (map (\<lambda>m. qm_position (g m)) (filter (\<lambda>m. qm_key m = key) rows))"
  shows "queue_inv (map g rows)"
proof -
  have "map qm_id (map g rows) = map qm_id rows" using assms(2) by auto
  moreover have "filter (\<lambda>m. qm_key m = key) (map g rows) = map g (filter (\<lambda>m. qm_key m = key) rows)" for key
    using assms(2) by (induction rows) auto
  ultimately show ?thesis
    using queue_invD(1)[OF assms(1)] assms(3)
    by (intro queue_invI) (simp_all only: positions_def comp_def map_map)
qed

lemma failure_inv: "queue_inv rows \<Longrightarrow> queue_inv (fst (record_queued_message_failure i reason rows))"
  unfolding record_queued_message_failure_def Let_def fst_conv
proof (rule map_rows_inv)
  assume inv: "queue_inv rows"
  have "(\<lambda>m. qm_position (if qm_id m = i then fail_row reason m else m)) = qm_position"
    by (auto simp: fail_row_def)
  then show "distinct (map (\<lambda>m. qm_position (if qm_id m = i then fail_row reason m else m))
      (filter (\<lambda>m. qm_key m = key) rows))" for key
    using queue_invD(2)[OF inv, of key] by (simp only: positions_def)
qed (auto simp: fail_row_def qm_key_def)

text \<open>
  The move: the two rows are neighbours of the list, and after it they stand the other way round
  with the positions they had.
\<close>

lemma sorted_split:
  assumes "sorted (map f xs)" "distinct (map f xs)" "xs = as @ m # bs"
  shows "filter (\<lambda>n. f n < f m) xs = as" "filter (\<lambda>n. f n > f m) xs = bs"
proof -
  have "\<forall>a \<in> set as. f a < f m" "\<forall>b \<in> set bs. f m < f b"
    using assms by (auto simp: sorted_append order_less_le image_iff)
  then show "filter (\<lambda>n. f n < f m) xs = as" "filter (\<lambda>n. f n > f m) xs = bs"
    unfolding assms(3) by (auto simp: filter_empty_conv)
qed

lemma queue_neighbor_adjacent:
  assumes inv: "queue_inv rows" and m: "m \<in> set rows" "qm_key m = key"
    and n: "queue_neighbor rows m d = Some n"
  obtains xs ys where
    "list_queued_messages rows key = (if d < 0 then xs @ [n, m] @ ys else xs @ [m, n] @ ys)"
proof -
  from m have "m \<in> set (list_queued_messages rows key)" by simp
  then obtain as bs where l: "list_queued_messages rows key = as @ m # bs" by (meson split_list)
  note sp = sorted_split[OF sorted_list_queued queue_inv_distinct_list(1)[OF inv] l]
  show thesis
  proof (cases "d < 0")
    case True
    with n have "\<exists>xs. rev as = n # xs"
      by (auto simp: queue_neighbor_def m(2) sp split: list.splits)
    then obtain xs where "as = rev xs @ [n]" by (metis rev_rev_ident rev.simps(2))
    with l True show thesis by (intro that[of "rev xs" bs]) simp
  next
    case False
    with n have "\<exists>ys. bs = n # ys"
      by (auto simp: queue_neighbor_def m(2) sp split: list.splits)
    with l False show thesis by (auto intro: that)
  qed
qed

definition swap_positions :: "queued_message \<Rightarrow> queued_message \<Rightarrow> queued_message \<Rightarrow> queued_message" where
  "swap_positions a b m =
     (if qm_id m = qm_id a then m\<lparr>qm_position := qm_position b\<rparr>
      else if qm_id m = qm_id b then m\<lparr>qm_position := qm_position a\<rparr> else m)"

lemma swap_positions_keeps [simp]:
  "qm_id (swap_positions a b m) = qm_id m" "qm_key (swap_positions a b m) = qm_key m"
  "qm_blocked (swap_positions a b m) = qm_blocked m"
  by (simp_all add: swap_positions_def qm_key_def)

lemma set_position_twice: "qm_id a \<noteq> qm_id b \<Longrightarrow>
    set_position (qm_id b) (qm_position a) (set_position (qm_id a) (qm_position b) rows) =
      map (swap_positions a b) rows"
  by (auto simp: set_position_def swap_positions_def)

lemma swap_adjacent:
  assumes inv: "queue_inv rows" and l: "list_queued_messages rows key = xs @ [a, b] @ ys"
  defines "rows' \<equiv> map (swap_positions a b) rows"
  defines "a' \<equiv> a\<lparr>qm_position := qm_position b\<rparr>" and "b' \<equiv> b\<lparr>qm_position := qm_position a\<rparr>"
  shows "list_queued_messages rows' key = xs @ [b', a'] @ ys"
    "key' \<noteq> key \<Longrightarrow> list_queued_messages rows' key' = list_queued_messages rows key'"
    "queue_inv rows'"
proof -
  let ?g = "swap_positions a b"
  let ?f = "\<lambda>key rows. filter (\<lambda>m. qm_key m = key) rows"
  have ids: "distinct (map qm_id (xs @ [a, b] @ ys))"
    using queue_inv_distinct_list(2)[OF inv, of key] by (simp only: l)
  have fil: "?f k rows' = map ?g (?f k rows)" for k
    unfolding rows'_def by (simp add: filter_map comp_def)
  have "\<forall>m \<in> set xs \<union> set ys. qm_id m \<noteq> qm_id a \<and> qm_id m \<noteq> qm_id b"
    using ids by (auto simp: image_iff)
  then have "map ?g xs = xs" "map ?g ys = ys"
    by (auto simp: swap_positions_def intro: map_idI)
  moreover have "?g a = a'" "?g b = b'"
    using ids by (auto simp: swap_positions_def a'_def b'_def)
  ultimately have g: "map ?g (xs @ [a, b] @ ys) = xs @ [a', b'] @ ys" by simp
  have ms: "mset (?f key rows') = mset (xs @ [b', a'] @ ys)"
  proof -
    have "mset (?f key rows') = image_mset ?g (mset (list_queued_messages rows key))"
      by (simp add: fil list_queued_messages_def)
    also have "\<dots> = mset (map ?g (xs @ [a, b] @ ys))" by (simp only: l mset_map)
    finally show ?thesis unfolding g by simp
  qed
  have pos: "map qm_position (xs @ [b', a'] @ ys) = map qm_position (list_queued_messages rows key)"
    by (simp add: l a'_def b'_def)
  have d: "distinct (map qm_position (xs @ [b', a'] @ ys))"
    using queue_inv_distinct_list(1)[OF inv, of key] by (simp only: pos)
  have "inj_on qm_position (set (?f key rows'))"
    using d ms by (metis distinct_map set_mset_mset)
  moreover have "sorted (map qm_position (xs @ [b', a'] @ ys))"
    unfolding pos by (rule sorted_list_queued)
  ultimately show "list_queued_messages rows' key = xs @ [b', a'] @ ys"
    unfolding list_queued_messages_def using sort_key_inj_key_eq[OF ms] by blast
  have ab: "a \<in> set rows" "b \<in> set rows" "qm_key a = key" "qm_key b = key"
    using arg_cong[OF l, of set] by auto
  have other: "?f k rows' = ?f k rows" if "k \<noteq> key" for k
  proof -
    have "?g m = m" if "m \<in> set (?f k rows)" for m
    proof -
      have "m \<in> set rows" "qm_key m \<noteq> key" using that \<open>k \<noteq> key\<close> by auto
      then have "qm_id m \<noteq> qm_id a" "qm_id m \<noteq> qm_id b"
        using ab queue_invD(1)[OF inv] by (metis distinct_map inj_on_eq_iff)+
      then show ?thesis by (simp add: swap_positions_def)
    qed
    then show ?thesis unfolding fil by (rule map_idI)
  qed
  then show "key' \<noteq> key \<Longrightarrow> list_queued_messages rows' key' = list_queued_messages rows key'"
    by (simp add: list_queued_messages_def)
  show "queue_inv rows'"
  proof (rule queue_invI)
    have "map qm_id rows' = map qm_id rows" by (simp add: rows'_def)
    then show "distinct (map qm_id rows')" using queue_invD(1)[OF inv] by simp
    show "distinct (positions rows' k)" for k
    proof (cases "k = key")
      case True
      have "mset (positions rows' key) = mset (map qm_position (xs @ [b', a'] @ ys))"
        unfolding positions_def using ms by (metis mset_map)
      then show ?thesis using d True by (metis mset_eq_imp_distinct_iff)
    next
      case False
      then show ?thesis
        using queue_invD(2)[OF inv, of k] by (simp only: positions_def other[OF False])
    qed
  qed
qed

lemma find_id:
  assumes "queue_inv rows" "List.find (\<lambda>m. qm_id m = i) rows = Some m"
  shows "m \<in> set rows" "qm_id m = i"
  using assms(2) by (auto simp: find_Some_iff in_set_conv_nth)

lemma move_swaps:
  assumes inv: "queue_inv rows" and mv: "move_queued_message i d rows = Moved rows'"
  obtains m xs n ys where
    "m \<in> set rows" "qm_id m = i"
    "list_queued_messages rows (qm_key m) = (if d = -1 then xs @ [n, m] @ ys else xs @ [m, n] @ ys)"
    "list_queued_messages rows' (qm_key m) =
       (if d = -1 then xs @ [m\<lparr>qm_position := qm_position n\<rparr>, n\<lparr>qm_position := qm_position m\<rparr>] @ ys
        else xs @ [n\<lparr>qm_position := qm_position m\<rparr>, m\<lparr>qm_position := qm_position n\<rparr>] @ ys)"
    "\<And>key. key \<noteq> qm_key m \<Longrightarrow> list_queued_messages rows' key = list_queued_messages rows key"
    "queue_inv rows'"
proof -
  from mv obtain m n where d: "d = -1 \<or> d = 1" and m: "List.find (\<lambda>m. qm_id m = i) rows = Some m"
    and n: "queue_neighbor rows m d = Some n"
    and r: "rows' = set_position (qm_id n) (qm_position m) (set_position i (qm_position n) rows)"
    by (auto simp: move_queued_message_def split: if_splits option.splits)
  note mem = find_id[OF inv m]
  obtain xs ys where
    l: "list_queued_messages rows (qm_key m) = (if d < 0 then xs @ [n, m] @ ys else xs @ [m, n] @ ys)"
    using queue_neighbor_adjacent[OF inv mem(1) refl n] .
  have ne: "qm_id m \<noteq> qm_id n"
    using queue_inv_distinct_list(2)[OF inv, of "qm_key m"] by (auto simp: l split: if_splits)
  have r1: "rows' = map (swap_positions m n) rows"
    unfolding r mem(2)[symmetric] by (rule set_position_twice[OF ne])
  have r2: "rows' = map (swap_positions n m) rows"
    unfolding r1 using ne by (auto simp: swap_positions_def)
  show thesis
  proof (cases "d = -1")
    case True
    with l have l': "list_queued_messages rows (qm_key m) = xs @ [n, m] @ ys" by simp
    show thesis
      by (rule that[OF mem, of xs n ys]) (use True l' swap_adjacent[OF inv l'] in \<open>simp_all add: r2\<close>)
  next
    case False
    with l d have l': "list_queued_messages rows (qm_key m) = xs @ [m, n] @ ys" by simp
    show thesis
      by (rule that[OF mem, of xs n ys]) (use False l' swap_adjacent[OF inv l'] in \<open>simp_all add: r1\<close>)
  qed
qed

section \<open>The queue as an interface\<close>

text \<open>
  What the service relies on: a session's queue is a list; \<open>enq\<close> extends it, \<open>del\<close> takes a row
  out, \<open>fail\<close> charges a failed send, and the head is the first row that is not set aside.
\<close>

locale follow_up_queue =
  fixes inv :: "'t \<Rightarrow> bool"
    and lst :: "'t \<Rightarrow> session_key \<Rightarrow> queued_message list"
    and head :: "'t \<Rightarrow> session_key \<Rightarrow> queued_message option"
    and enq :: "queued_message \<Rightarrow> 't \<Rightarrow> 't option"
    and del :: "string \<Rightarrow> 't \<Rightarrow> 't"
    and fail :: "string \<Rightarrow> string \<Rightarrow> 't \<Rightarrow> 't"
  assumes head_lst: "head t key = List.find (\<lambda>m. \<not> qm_blocked m) (lst t key)"
    and key_lst: "m \<in> set (lst t key) \<Longrightarrow> qm_key m = key"
    and ids_lst: "inv t \<Longrightarrow> distinct (map qm_id (lst t key))"
    and ids_once: "inv t \<Longrightarrow> m \<in> set (lst t key) \<Longrightarrow> m' \<in> set (lst t key') \<Longrightarrow>
                     qm_id m = qm_id m' \<Longrightarrow> m = m'"
    and enq_inv: "inv t \<Longrightarrow> enq m t = Some t' \<Longrightarrow> inv t'"
    and enq_lst: "enq m t = Some t' \<Longrightarrow>
          \<exists>p. lst t' key = lst t key @ (if qm_key m = key
                then [m\<lparr>qm_position := p, qm_attempts := 0, qm_last_error := [], qm_blocked := False\<rparr>]
                else [])"
    and del_inv: "inv t \<Longrightarrow> inv (del i t)"
    and del_lst: "lst (del i t) key = filter (\<lambda>m. qm_id m \<noteq> i) (lst t key)"
    and fail_inv: "inv t \<Longrightarrow> inv (fail i r t)"
    and fail_lst: "lst (fail i r t) key =
          map (\<lambda>m. if qm_id m = i then fail_row r m else m) (lst t key)"
begin

lemma head_Some:
  assumes "head t key = Some m"
  shows "m \<in> set (lst t key)" "\<not> qm_blocked m" "qm_key m = key"
proof -
  show m: "m \<in> set (lst t key)" "\<not> qm_blocked m"
    using assms by (auto simp: head_lst find_Some_iff in_set_conv_nth)
  show "qm_key m = key" by (rule key_lst[OF m(1)])
qed

lemma head_splits:
  assumes "inv t" "head t key = Some m"
  obtains xs ys where "lst t key = xs @ m # ys" "\<forall>x \<in> set xs. qm_blocked x"
    "lst (del (qm_id m) t) key = xs @ ys"
proof -
  from assms(2) obtain i where i: "i < length (lst t key)" "m = lst t key ! i" "\<not> qm_blocked m"
    "\<forall>j<i. qm_blocked (lst t key ! j)"
    by (auto simp: head_lst find_Some_iff)
  have l: "lst t key = take i (lst t key) @ m # drop (Suc i) (lst t key)"
    using i by (simp add: id_take_nth_drop)
  have "\<forall>x \<in> set (take i (lst t key)). qm_blocked x"
    using i by (auto simp: in_set_conv_nth)
  moreover have "lst (del (qm_id m) t) key = take i (lst t key) @ drop (Suc i) (lst t key)"
  proof -
    have "distinct (map qm_id (take i (lst t key) @ m # drop (Suc i) (lst t key)))"
      using ids_lst[OF assms(1), of key] l by simp
    then have "\<forall>x \<in> set (take i (lst t key)) \<union> set (drop (Suc i) (lst t key)). qm_id x \<noteq> qm_id m"
      by (auto simp: image_iff simp del: set_take_subset)
    then have "filter (\<lambda>x. qm_id x \<noteq> qm_id m) (take i (lst t key)) = take i (lst t key)"
      "filter (\<lambda>x. qm_id x \<noteq> qm_id m) (drop (Suc i) (lst t key)) = drop (Suc i) (lst t key)"
      by (auto simp: filter_id_conv)
    then show ?thesis by (subst del_lst, subst l) simp
  qed
  ultimately show thesis using l that by blast
qed

lemma del_other:
  assumes "inv t" "head t key = Some m" "key' \<noteq> key"
  shows "lst (del (qm_id m) t) key' = lst t key'"
proof -
  have "\<forall>x \<in> set (lst t key'). qm_id x \<noteq> qm_id m"
    using assms head_Some[OF assms(2)] ids_once[OF assms(1)] key_lst by metis
  then show ?thesis by (simp add: del_lst filter_id_conv)
qed

lemma fail_other:
  assumes "inv t" "head t key = Some m" "key' \<noteq> key"
  shows "lst (fail (qm_id m) r t) key' = lst t key'"
proof -
  have "\<forall>x \<in> set (lst t key'). qm_id x \<noteq> qm_id m"
    using assms head_Some[OF assms(2)] ids_once[OF assms(1)] key_lst by metis
  then show ?thesis by (simp add: fail_lst map_idI)
qed

lemma enq_keeps_head:
  assumes "enq m t = Some t'" "head t key = Some h"
  shows "head t' key = Some h"
proof -
  obtain zs where "lst t' key = lst t key @ zs" using enq_lst[OF assms(1)] by blast
  moreover have "List.find P (xs @ zs) = Some y" if "List.find P xs = Some y" for P and xs zs :: "queued_message list" and y
    using that by (induction xs) auto
  ultimately show ?thesis using assms(2) by (simp add: head_lst)
qed

end

interpretation qs: follow_up_queue queue_inv list_queued_messages head_queued_message enqueue_message
  "\<lambda>i t. fst (delete_queued_message i t)" "\<lambda>i r t. fst (record_queued_message_failure i r t)"
proof (unfold_locales, goal_cases)
  case (1 t key) show ?case by (rule head_is_first_unblocked)
next
  case (2 m t key) then show ?case by simp
next
  case (3 t key) then show ?case by (rule queue_inv_distinct_list)
next
  case (4 t m key m' key')
  then show ?case using queue_invD(1)[OF 4(1)] by (auto simp: distinct_map dest: inj_onD)
next
  case (5 t m t') then show ?case by (rule enqueue_inv)
next
  case (6 m t t' key)
  from enqueue_appends[OF this, of key] show ?case by blast
next
  case (7 t i) then show ?case by (rule delete_inv)
next
  case (8 i t key) show ?case by (rule delete_filters)
next
  case (9 t i r) then show ?case by (rule failure_inv)
next
  case (10 i r t key) show ?case by (rule failure_marks)
qed

section \<open>Properties\<close>

text \<open>
  moving a queued message by one place swaps it with its neighbour in the session's list,
  the two exchanging positions, and leaves every other session's list alone; the table stays
  well formed (ids unique, no two rows of a session at one position).
\<close>

theorem move_swaps_neighbours:
  assumes "queue_inv rows" "move_queued_message i d rows = Moved rows'"
  shows "queue_inv rows' \<and>
    (\<exists>m xs n ys. m \<in> set rows \<and> qm_id m = i \<and>
      list_queued_messages rows (qm_key m) = (if d = -1 then xs @ [n, m] @ ys else xs @ [m, n] @ ys) \<and>
      map qm_id (list_queued_messages rows' (qm_key m)) =
        map qm_id (if d = -1 then xs @ [m, n] @ ys else xs @ [n, m] @ ys) \<and>
      map qm_position (list_queued_messages rows' (qm_key m)) =
        map qm_position (list_queued_messages rows (qm_key m)) \<and>
      (\<forall>key. key \<noteq> qm_key m \<longrightarrow> list_queued_messages rows' key = list_queued_messages rows key))"
  using assms
proof (rule move_swaps, goal_cases)
  case (1 m xs n ys)
  then show ?case
    by (intro conjI exI[of _ m] exI[of _ xs] exI[of _ n] exI[of _ ys]) simp_all
qed

definition sample_message :: "string \<Rightarrow> string \<Rightarrow> int \<Rightarrow> queued_message" where
  "sample_message i session p =
     \<lparr>qm_id = i, qm_platform = ''opencode'', qm_session = session, qm_position = p, qm_text = i,
      qm_images = [], qm_model = [], qm_agent = [], qm_reasoning = [], qm_preserve = False,
      qm_created = 0, qm_attempts = 0, qm_last_error = [], qm_blocked = False\<rparr>"

definition sample_rows :: queue_table where
  "sample_rows = [sample_message ''a'' ''s'' 1, sample_message ''b'' ''s'' 2]"

lemma sample_rows_inv: "queue_inv sample_rows"
  by (rule queue_invI) (auto simp: sample_rows_def sample_message_def positions_def)

lemma move_swaps_neighbours_witness:
  "\<exists>rows'. move_queued_message ''b'' (-1) sample_rows = Moved rows' \<and> queue_inv rows'"
proof -
  have "move_queued_message ''b'' (-1) sample_rows =
      Moved [sample_message ''a'' ''s'' 2, sample_message ''b'' ''s'' 1]"
    by (simp add: move_queued_message_def sample_rows_def sample_message_def queue_neighbor_def
        list_queued_messages_def qm_key_def set_position_def)
  then show ?thesis using move_swaps_neighbours[OF sample_rows_inv] by blast
qed

end
