(* ===== verification/Queue_Service.thy ===== *)
theory Queue_Service
  imports Queue_Store Models "HOL-Library.Word"
begin

text \<open>
  The follow-up queue's service (internal/queuesvc): one queued prompt is sent per idle edge.
  \<open>Flush\<close> trusts the edge; \<open>Enqueue\<close>'s fast path, \<open>TryFlush\<close> and \<open>Sweep\<close> do not. A drain guard
  holds every untrusted path between a send and the next evidence that its turn ended. The
  platform's answers and the faults of the database are the arguments of each call. Images are
  kept as the JSON string the queue stores, which is empty exactly when there are none.
\<close>

section \<open>State\<close>

record completion_state =
  cs_message :: string
  cs_created :: int
  cs_running :: bool
  cs_completed :: bool
  cs_ok :: bool

record drain_guard =
  dg_generation :: "64 word"
  dg_message :: string
  dg_created :: int

record send_request =
  sr_session :: string
  sr_message :: string
  sr_images :: string
  sr_model :: string
  sr_agent :: string
  sr_reasoning :: string
  sr_preserve :: bool

text \<open>
  The service, with two traces: \<open>sent\<close>, the rows whose prompt a platform accepted, with the
  request it received, and \<open>notified\<close>, the sessions whose clients were told to reload.
\<close>

record service =
  rows :: queue_table
  drain_guards :: "session_key \<rightharpoonup> drain_guard"
  next_generation :: "64 word"
  sent :: "(queued_message \<times> send_request) list"
  notified :: "session_key list"

definition new_service :: "queue_table \<Rightarrow> service" where
  "new_service t = \<lparr>rows = t, drain_guards = (\<lambda>_. None), next_generation = 0, sent = [], notified = []\<rparr>"

datatype send_outcome = Accepted | Deferred | Failed string

text \<open>
  What a call meets outside the service. \<open>latest_message\<close> is None when the status reader has no
  completion inference; \<open>turn_running\<close> then is its (running, ok).
\<close>

record world =
  start_blocked :: "string \<Rightarrow> bool"
  turn_running :: "session_key \<Rightarrow> bool \<times> bool"
  latest_message :: "(session_key \<Rightarrow> completion_state) option"
  send_now :: "string \<Rightarrow> send_request \<Rightarrow> send_outcome"
  cancelled :: bool
  head_fails :: bool
  record_fails :: bool
  delete_fails :: bool
  insert_fails :: bool
  count_fails :: bool
  lookup_fails :: bool
  move_fails :: bool

definition no_completion :: completion_state where
  "no_completion = \<lparr>cs_message = [], cs_created = 0, cs_running = False, cs_completed = False, cs_ok = False\<rparr>"

section \<open>Draining the head\<close>

definition mark_drained :: "session_key \<Rightarrow> string \<Rightarrow> int \<Rightarrow> service \<Rightarrow> service" where
  "mark_drained key mid created s =
     s\<lparr>next_generation := next_generation s + 1,
       drain_guards := (drain_guards s)(key \<mapsto>
         \<lparr>dg_generation = next_generation s + 1, dg_message = mid, dg_created = created\<rparr>)\<rparr>"

definition clear_drained_since_idle :: "session_key \<Rightarrow> service \<Rightarrow> service" where
  "clear_drained_since_idle key s = s\<lparr>drain_guards := (drain_guards s)(key := None)\<rparr>"

definition fire_notify :: "session_key \<Rightarrow> service \<Rightarrow> service" where
  "fire_notify key s = s\<lparr>notified := notified s @ [key]\<rparr>"

definition request_of :: "queued_message \<Rightarrow> send_request" where
  "request_of h =
     \<lparr>sr_session = qm_session h, sr_message = qm_text h, sr_images = qm_images h, sr_model = qm_model h,
      sr_agent = qm_agent h, sr_reasoning = qm_reasoning h, sr_preserve = qm_preserve h\<rparr>"

text \<open>The part of \<open>drainHead\<close> after admission: the send, and its receipt.\<close>

definition deliver :: "world \<Rightarrow> session_key \<Rightarrow> queued_message \<Rightarrow> completion_state \<Rightarrow> service \<Rightarrow> service" where
  "deliver w key h latest s =
     (case send_now w (qm_platform h) (request_of h) of
        Deferred \<Rightarrow> s
      | Failed reason \<Rightarrow>
          if record_fails w then s
          else (case record_queued_message_failure (qm_id h) reason (rows s) of (rows', blocked) \<Rightarrow>
                  let s' = s\<lparr>rows := rows'\<rparr> in if blocked then fire_notify key s' else s')
      | Accepted \<Rightarrow>
          let s' = s\<lparr>sent := sent s @ [(h, request_of h)]\<rparr> in
          if delete_fails w then s'
          else fire_notify key (mark_drained key (cs_message latest) (cs_created latest)
                 (s'\<lparr>rows := fst (delete_queued_message (qm_id h) (rows s))\<rparr>)))"

definition turn_is_running :: "world \<Rightarrow> session_key \<Rightarrow> bool" where
  "turn_is_running w key = (case turn_running w key of (running, ok) \<Rightarrow> ok \<and> running)"

definition latest_state ::
  "world \<Rightarrow> session_key \<Rightarrow> completion_state option \<Rightarrow> completion_state"
where
  "latest_state w key prior =
     (case latest_message w of
        None \<Rightarrow> no_completion
      | Some reader \<Rightarrow> (case prior of Some p \<Rightarrow> p | None \<Rightarrow> reader key))"

definition drain_head ::
  "world \<Rightarrow> session_key \<Rightarrow> bool \<Rightarrow> completion_state option \<Rightarrow> service \<Rightarrow> service"
where
  "drain_head w key trust_idle prior s =
     (if start_blocked w (snd key) then s
      else if \<not> trust_idle \<and> latest_message w = None \<and> turn_is_running w key then s
      else if head_fails w then s
      else case head_queued_message (rows s) key of
          None \<Rightarrow> s
        | Some h \<Rightarrow>
            let latest = latest_state w key prior in
            if latest_message w \<noteq> None \<and> \<not> trust_idle \<and> (\<not> cs_ok latest \<or> cs_running latest) then s
            else if cancelled w then s
            else deliver w key h latest s)"

section \<open>The service's entry points\<close>

definition flush :: "world \<Rightarrow> session_key \<Rightarrow> service \<Rightarrow> service" where
  "flush w key s = drain_head w key True None (clear_drained_since_idle key s)"

definition try_flush :: "world \<Rightarrow> session_key \<Rightarrow> service \<Rightarrow> service" where
  "try_flush w key s =
     (if drain_guards s key \<noteq> None then s else drain_head w key False None s)"

datatype enqueue_error =
    NotAdmitted | EmptyMessage | SelectionConflict | ModelPlatform | StoreFailure

definition queued_row :: "string \<Rightarrow> int \<Rightarrow> string \<Rightarrow> send_request \<Rightarrow> queued_message" where
  "queued_row new_id now platform req =
     \<lparr>qm_id = new_id, qm_platform = platform, qm_session = sr_session req, qm_position = 0,
      qm_text = sr_message req, qm_images = sr_images req, qm_model = sr_model req,
      qm_agent = sr_agent req, qm_reasoning = sr_reasoning req, qm_preserve = sr_preserve req,
      qm_created = now, qm_attempts = 0, qm_last_error = [], qm_blocked = False\<rparr>"

definition enqueue ::
  "world \<Rightarrow> bool \<Rightarrow> string \<Rightarrow> int \<Rightarrow> string \<Rightarrow> bool \<Rightarrow> send_request \<Rightarrow> service
     \<Rightarrow> enqueue_error option \<times> service"
where
  "enqueue w admitted new_id now platform force_queue req s =
     (if \<not> admitted then (Some NotAdmitted, s)
      else if sr_message req = [] \<and> sr_images req = [] then (Some EmptyMessage, s)
      else if sr_preserve req \<and> (sr_model req \<noteq> [] \<or> sr_agent req \<noteq> [] \<or> sr_reasoning req \<noteq> [])
      then (Some SelectionConflict, s)
      else if model_for (base_id platform) (sr_model req) = None then (Some ModelPlatform, s)
      else let key = (platform, sr_session req);
               existing = count_queued_messages (rows s) key in
           if count_fails w \<or> insert_fails w then (Some StoreFailure, s)
           else case enqueue_message (queued_row new_id now platform req) (rows s) of
               None \<Rightarrow> (Some StoreFailure, s)
             | Some rows' \<Rightarrow>
                 let s' = fire_notify key (s\<lparr>rows := rows'\<rparr>) in
                 if force_queue then (None, s')
                 else if existing = 0 \<and> drain_guards s' key = None
                 then (None, drain_head w key False None s')
                 else (None, s'))"

text \<open>
  One session of \<open>Sweep\<close>, under its lock. \<open>guard\<close> is the guard read before the lock was taken:
  other calls may have run in between, and then the session is left alone.
\<close>

definition same_guard :: "drain_guard option \<Rightarrow> drain_guard option \<Rightarrow> bool" where
  "same_guard before now =
     (case (before, now) of
        (None, None) \<Rightarrow> True
      | (Some g, Some g') \<Rightarrow> dg_generation g = dg_generation g'
      | _ \<Rightarrow> False)"

definition completed_after :: "completion_state \<Rightarrow> drain_guard \<Rightarrow> bool" where
  "completed_after p g \<longleftrightarrow> cs_ok p \<and> cs_completed p \<and> cs_message p \<noteq> [] \<and>
     cs_created p > dg_created g \<and> cs_message p \<noteq> dg_message g"

definition sweep_locked :: "world \<Rightarrow> session_key \<Rightarrow> drain_guard option \<Rightarrow> service \<Rightarrow> service" where
  "sweep_locked w key guard s =
     (if \<not> same_guard guard (drain_guards s key) then s
      else case guard of
          None \<Rightarrow> drain_head w key False None s
        | Some g \<Rightarrow>
            (case latest_message w of
               None \<Rightarrow> s
             | Some reader \<Rightarrow>
                 let p = reader key in
                 if \<not> completed_after p g then s
                 else drain_head w key False (Some p) (clear_drained_since_idle key s)))"

definition sweep :: "world \<Rightarrow> session_key list \<Rightarrow> service \<Rightarrow> service" where
  "sweep w archived s =
     fold (\<lambda>key s. sweep_locked w key (drain_guards s key) s)
       (sessions_with_queued_messages archived (rows s)) s"

definition in_scope :: "string \<Rightarrow> string \<Rightarrow> string \<Rightarrow> service \<Rightarrow> bool" where
  "in_scope session i scope s =
     (case get_queued_message_session i (rows s) of
        None \<Rightarrow> False
      | Some (platform, owner) \<Rightarrow> owner = session \<and> (scope = [] \<or> platform = scope))"

text \<open>The result of \<open>Remove\<close> and \<open>Move\<close>: None is an error, else whether a row changed.\<close>

definition remove :: "world \<Rightarrow> string \<Rightarrow> string \<Rightarrow> string \<Rightarrow> service \<Rightarrow> bool option \<times> service" where
  "remove w session i scope s =
     (if lookup_fails w then (None, s)
      else if \<not> in_scope session i scope s then (Some False, s)
      else if delete_fails w then (None, s)
      else case (get_queued_message_session i (rows s), delete_queued_message i (rows s)) of
          (Some (platform, _), (rows', True)) \<Rightarrow>
            (Some True, fire_notify (platform, session) (s\<lparr>rows := rows'\<rparr>))
        | _ \<Rightarrow> (Some False, s))"

definition move :: "world \<Rightarrow> string \<Rightarrow> string \<Rightarrow> int \<Rightarrow> string \<Rightarrow> service \<Rightarrow> bool option \<times> service" where
  "move w session i direction scope s =
     (if lookup_fails w then (None, s)
      else if \<not> in_scope session i scope s then (Some False, s)
      else if move_fails w then (None, s)
      else case (get_queued_message_session i (rows s), move_queued_message i direction (rows s)) of
          (Some (platform, _), Moved rows') \<Rightarrow>
            (Some True, fire_notify (platform, session) (s\<lparr>rows := rows'\<rparr>))
        | (_, InvalidDirection) \<Rightarrow> (None, s)
        | _ \<Rightarrow> (Some False, s))"

section \<open>Calls and executions\<close>

text \<open>
  The calls other parts of the program make, each atomic under its session's lock. An execution
  is any sequence of them, in any interleaving of sessions, in any world whose deletes succeed;
  \<open>newID\<close> never repeats an id.
\<close>

datatype queue_call =
    CFlush session_key
  | CTryFlush session_key
  | CEnqueue bool string int string bool send_request
  | CSweep session_key "drain_guard option"
  | CRemove string string string
  | CMove string string int string

fun run_call :: "world \<Rightarrow> queue_call \<Rightarrow> service \<Rightarrow> service" where
  "run_call w (CFlush key) s = flush w key s"
| "run_call w (CTryFlush key) s = try_flush w key s"
| "run_call w (CEnqueue admitted i now platform force req) s =
     snd (enqueue w admitted i now platform force req s)"
| "run_call w (CSweep key guard) s = sweep_locked w key guard s"
| "run_call w (CRemove session i scope) s = snd (remove w session i scope s)"
| "run_call w (CMove session i d scope) s = snd (move w session i d scope s)"

definition sent_ids :: "service \<Rightarrow> string list" where
  "sent_ids s = map (\<lambda>x. qm_id (fst x)) (sent s)"

fun fresh_call :: "queue_call \<Rightarrow> service \<Rightarrow> bool" where
  "fresh_call (CEnqueue _ i _ _ _ _) s \<longleftrightarrow> i \<notin> qm_id ` set (rows s) \<and> i \<notin> set (sent_ids s)"
| "fresh_call _ s \<longleftrightarrow> True"

inductive queue_run :: "queue_table \<Rightarrow> service \<Rightarrow> bool" where
  queue_start: "queue_inv t \<Longrightarrow> queue_run t (new_service t)"
| queue_call: "queue_run t s \<Longrightarrow> fresh_call c s \<Longrightarrow> \<not> delete_fails w \<Longrightarrow> queue_run t (run_call w c s)"

section \<open>Lemmas\<close>

named_theorems service_ops
declare mark_drained_def [service_ops] clear_drained_since_idle_def [service_ops] fire_notify_def [service_ops]

lemma drain_head_cases:
  obtains (held) "drain_head w key trust prior s = s"
  | (sends) h where "head_queued_message (rows s) key = Some h"
      "drain_head w key trust prior s = deliver w key h (latest_state w key prior) s"
proof -
  have "drain_head w key trust prior s = s \<or>
    (\<exists>h. head_queued_message (rows s) key = Some h \<and>
         drain_head w key trust prior s = deliver w key h (latest_state w key prior) s)"
    by (cases "head_queued_message (rows s) key") (simp_all add: drain_head_def Let_def)
  then show thesis using held sends by blast
qed

lemma deliver_cases:
  obtains (untouched) "deliver w key h latest s = s"
  | (charged) reason n where "send_now w (qm_platform h) (request_of h) = Failed reason"
      "deliver w key h latest s = s\<lparr>rows := fst (record_queued_message_failure (qm_id h) reason (rows s)),
         notified := n\<rparr>"
  | (kept) "send_now w (qm_platform h) (request_of h) = Accepted" "delete_fails w"
      "deliver w key h latest s = s\<lparr>sent := sent s @ [(h, request_of h)]\<rparr>"
  | (delivered) "send_now w (qm_platform h) (request_of h) = Accepted" "\<not> delete_fails w"
      "rows (deliver w key h latest s) = fst (delete_queued_message (qm_id h) (rows s))"
      "sent (deliver w key h latest s) = sent s @ [(h, request_of h)]"
      "drain_guards (deliver w key h latest s) = (drain_guards s)(key \<mapsto>
         \<lparr>dg_generation = next_generation s + 1, dg_message = cs_message latest, dg_created = cs_created latest\<rparr>)"
proof (cases "send_now w (qm_platform h) (request_of h)")
  case Accepted
  then show thesis
    by (cases "delete_fails w") (rule kept, simp_all add: deliver_def Let_def, rule delivered,
      simp_all add: deliver_def Let_def service_ops)
next
  case Deferred
  then show thesis by (intro untouched) (simp add: deliver_def)
next
  case (Failed reason)
  show thesis
  proof (cases "record_fails w")
    case True
    then show thesis using Failed by (intro untouched) (simp add: deliver_def)
  next
    case False
    obtain r b where "record_queued_message_failure (qm_id h) reason (rows s) = (r, b)" by fastforce
    then show thesis using Failed False
      by (intro charged[of reason "if b then notified s @ [key] else notified s"])
        (simp_all add: deliver_def Let_def service_ops)
  qed
qed

definition service_inv :: "service \<Rightarrow> bool" where
  "service_inv s \<longleftrightarrow> queue_inv (rows s) \<and> distinct (sent_ids s) \<and>
     set (sent_ids s) \<inter> qm_id ` set (rows s) = {}"

lemma head_in_rows:
  "head_queued_message (rows s) key = Some h \<Longrightarrow> h \<in> set (rows s) \<and> qm_key h = key"
  using qs.head_Some[of "rows s" key h] by simp

lemma failure_ids: "qm_id ` set (fst (record_queued_message_failure i r t)) = qm_id ` set t"
proof -
  have "map qm_id (fst (record_queued_message_failure i r t)) = map qm_id t"
    by (simp add: record_queued_message_failure_def Let_def fail_row_def)
  then show ?thesis by (metis set_map)
qed

lemma delete_table_inv: "queue_inv t \<Longrightarrow> queue_inv (filter (\<lambda>m. qm_id m \<noteq> i) t)"
  using delete_inv[of t i] by (simp add: delete_queued_message_def)

lemma deliver_inv:
  assumes inv: "service_inv s" and h: "head_queued_message (rows s) key = Some h" and w: "\<not> delete_fails w"
  shows "service_inv (deliver w key h latest s)"
proof (cases rule: deliver_cases[of w key h latest s])
  case untouched
  with inv show ?thesis by simp
next
  case (charged reason n)
  have "service_inv (s\<lparr>rows := fst (record_queued_message_failure (qm_id h) reason (rows s)), notified := n\<rparr>)"
    using inv by (simp add: service_inv_def failure_inv sent_ids_def failure_ids)
  with charged show ?thesis by simp
next
  case kept
  with w show ?thesis by simp
next
  case delivered
  then show ?thesis using inv head_in_rows[OF h]
    by (auto simp: service_inv_def delete_table_inv sent_ids_def delete_queued_message_def)
qed

lemma drain_head_inv:
  assumes "service_inv s" "\<not> delete_fails w"
  shows "service_inv (drain_head w key trust prior s)"
  by (rule drain_head_cases[of w key trust prior s]) (simp_all add: assms deliver_inv)

lemma clear_inv [simp]: "service_inv (clear_drained_since_idle key s) = service_inv s"
  and notify_inv [simp]: "service_inv (fire_notify key s) = service_inv s"
  by (simp_all add: service_inv_def service_ops sent_ids_def)

lemma enqueue_effect:
  obtains (refused) e where "enqueue w adm i now p force req s = (Some e, s)"
  | (appended) rows' where "enqueue_message (queued_row i now p req) (rows s) = Some rows'"
      "enqueue w adm i now p force req s =
         (None, if \<not> force \<and> count_queued_messages (rows s) (p, sr_session req) = 0 \<and>
                   drain_guards s (p, sr_session req) = None
                then drain_head w (p, sr_session req) False None
                       (fire_notify (p, sr_session req) (s\<lparr>rows := rows'\<rparr>))
                else fire_notify (p, sr_session req) (s\<lparr>rows := rows'\<rparr>))"
proof (cases "enqueue_message (queued_row i now p req) (rows s)")
  case None
  then show thesis by (intro refused[of "the (fst (enqueue w adm i now p force req s))"])
    (simp add: enqueue_def Let_def)
next
  case (Some rows')
  show thesis
  proof (cases "fst (enqueue w adm i now p force req s)")
    case None
    then show thesis using Some
      by (intro appended[of rows']) (auto simp: enqueue_def Let_def service_ops split: if_splits)
  next
    case (Some e)
    then show thesis by (intro refused[of e]) (auto simp: enqueue_def Let_def split: if_splits option.splits)
  qed
qed

lemma enqueue_table_inv:
  assumes inv: "service_inv s" and e: "enqueue_message m (rows s) = Some rows'"
    and fresh: "qm_id m \<notin> set (sent_ids s)"
  shows "service_inv (s\<lparr>rows := rows'\<rparr>)"
proof -
  have "qm_id ` set rows' \<subseteq> insert (qm_id m) (qm_id ` set (rows s))"
    using e by (auto simp: enqueue_message_def split: if_splits)
  moreover have q: "queue_inv (rows s)" "distinct (sent_ids s)" "set (sent_ids s) \<inter> qm_id ` set (rows s) = {}"
    using inv by (simp_all only: service_inv_def)
  moreover have "A \<inter> C = {}" if "C \<subseteq> insert x B" "A \<inter> B = {}" "x \<notin> A" for A B C :: "string set" and x
    using that by auto
  ultimately have "set (sent_ids s) \<inter> qm_id ` set rows' = {}"
    using fresh by meson
  moreover have "sent_ids (s\<lparr>rows := rows'\<rparr>) = sent_ids s" by (simp add: sent_ids_def)
  ultimately show ?thesis
    using q enqueue_inv[OF q(1) e] by (simp add: service_inv_def del: disjoint_iff)
qed

lemma run_call_inv:
  assumes inv: "service_inv s" and fresh: "fresh_call c s" and w: "\<not> delete_fails w"
  shows "service_inv (run_call w c s)"
proof (cases c)
  case (CFlush key)
  then show ?thesis using inv w by (simp add: flush_def drain_head_inv)
next
  case (CTryFlush key)
  then show ?thesis using inv w by (simp add: try_flush_def drain_head_inv)
next
  case (CEnqueue adm i now p force req)
  show ?thesis
  proof (cases rule: enqueue_effect[of w adm i now p force req s])
    case (refused e)
    then show ?thesis using inv CEnqueue by simp
  next
    case (appended rows')
    have "service_inv (s\<lparr>rows := rows'\<rparr>)"
      using enqueue_table_inv[OF inv appended(1)] fresh CEnqueue by (simp add: queued_row_def)
    then show ?thesis using CEnqueue appended(2) w by (simp add: drain_head_inv)
  qed
next
  case (CSweep key guard)
  then show ?thesis using inv w
    by (simp add: sweep_locked_def Let_def drain_head_inv split: option.split)
next
  case (CRemove session i scope)
  have d: "service_inv (s\<lparr>rows := fst (delete_queued_message j (rows s))\<rparr>)" for j
    using inv by (auto simp: service_inv_def delete_table_inv sent_ids_def delete_queued_message_def)
  then show ?thesis using CRemove inv d[of i]
    by (auto simp: remove_def delete_queued_message_def split: option.split prod.split bool.split)
next
  case (CMove session i d scope)
  have "service_inv (s\<lparr>rows := rows'\<rparr>)" if m: "move_queued_message i d (rows s) = Moved rows'" for rows'
  proof -
    have "queue_inv (rows s)" using inv by (simp add: service_inv_def)
    from move_swaps[OF this m] have "queue_inv rows'" by metis
    moreover have "qm_id ` set rows' = qm_id ` set (rows s)"
    proof -
      have *: "map qm_id (set_position j p t) = map qm_id t" for j p t
        by (simp add: set_position_def)
      from m have "map qm_id rows' = map qm_id (rows s)"
        by (auto simp: move_queued_message_def * split: if_splits option.splits)
      then show ?thesis by (metis set_map)
    qed
    ultimately show ?thesis using inv by (simp add: service_inv_def sent_ids_def)
  qed
  then show ?thesis using CMove inv
    by (auto simp: move_def split: option.split prod.split move_result.split)
qed

lemma queue_run_inv: "queue_run t s \<Longrightarrow> service_inv s"
proof (induction rule: queue_run.induct)
  case (queue_start t)
  then show ?case by (simp add: service_inv_def new_service_def sent_ids_def)
next
  case (queue_call t s c w)
  then show ?case by (simp add: run_call_inv)
qed

section \<open>Properties\<close>

text \<open>The drainable part of a session's queue.\<close>

definition pending :: "service \<Rightarrow> session_key \<Rightarrow> queued_message list" where
  "pending s key = filter (\<lambda>m. \<not> qm_blocked m) (list_queued_messages (rows s) key)"

definition sends_go_through :: "world \<Rightarrow> session_key \<Rightarrow> bool" where
  "sends_go_through w key \<longleftrightarrow> \<not> start_blocked w (snd key) \<and> \<not> head_fails w \<and> \<not> cancelled w \<and>
     \<not> delete_fails w \<and> (\<forall>p r. send_now w p r = Accepted)"

lemma head_pending: "head_queued_message (rows s) key = (case pending s key of [] \<Rightarrow> None | h # _ \<Rightarrow> Some h)"
  by (simp add: head_is_first_unblocked find_filter pending_def)

lemma pending_after_delete:
  assumes "queue_inv (rows s)" "pending s key = h # ps"
    "rows s' = fst (delete_queued_message (qm_id h) (rows s))"
  shows "pending s' key = ps"
    "key' \<noteq> key \<Longrightarrow> list_queued_messages (rows s') key' = list_queued_messages (rows s) key'"
proof -
  have h: "head_queued_message (rows s) key = Some h" by (simp add: head_pending assms(2))
  from qs.head_splits[OF assms(1) h] obtain xs ys where
    l: "list_queued_messages (rows s) key = xs @ h # ys" "\<forall>x \<in> set xs. qm_blocked x"
      "list_queued_messages (rows s') key = xs @ ys"
    using assms(3) by metis
  moreover have "filter (\<lambda>m. \<not> qm_blocked m) xs = []" using l(2) by (simp add: filter_empty_conv)
  moreover have "\<not> qm_blocked h" by (rule qs.head_Some(2)[OF h])
  ultimately show "pending s' key = ps" using assms(2) by (simp add: pending_def)
  show "key' \<noteq> key \<Longrightarrow> list_queued_messages (rows s') key' = list_queued_messages (rows s) key'"
    unfolding assms(3) by (rule qs.del_other[OF assms(1) h])
qed

lemma flush_sends:
  assumes inv: "queue_inv (rows s)" and w: "sends_go_through w key"
  shows "queue_inv (rows (flush w key s)) \<and> pending (flush w key s) key = tl (pending s key) \<and>
    sent (flush w key s) = sent s @ map (\<lambda>h. (h, request_of h)) (take 1 (pending s key)) \<and>
    (\<forall>key'. key' \<noteq> key \<longrightarrow>
       list_queued_messages (rows (flush w key s)) key' = list_queued_messages (rows s) key')"
proof (cases "pending s key")
  case Nil
  then have "rows (flush w key s) = rows s \<and> sent (flush w key s) = sent s"
    by (simp add: flush_def drain_head_def head_pending service_ops pending_def)
  with Nil inv show ?thesis by (simp add: pending_def)
next
  case (Cons h ps)
  have c: "rows (clear_drained_since_idle key s) = rows s" "sent (clear_drained_since_idle key s) = sent s"
    by (simp_all add: service_ops)
  have h: "head_queued_message (rows s) key = Some h" by (simp add: head_pending Cons)
  have f: "flush w key s = deliver w key h (latest_state w key None) (clear_drained_since_idle key s)"
    using w by (simp add: flush_def drain_head_def Let_def c h sends_go_through_def)
  have r: "rows (flush w key s) = fst (delete_queued_message (qm_id h) (rows s))"
    "sent (flush w key s) = sent s @ [(h, request_of h)]"
    using w by (simp_all add: f deliver_def sends_go_through_def Let_def service_ops)
  show ?thesis
    using pending_after_delete[OF inv Cons r(1)] r Cons inv by (simp add: delete_inv)
qed

text \<open>
  C21: on a session whose platform accepts, \<open>n\<close> idle edges send exactly the first \<open>n\<close> prompts of
  its queue, oldest first, one per edge and each as it was queued; the rest stays in order, and no
  other session's queue changes.
\<close>

theorem idle_edges_drain_fifo:
  assumes "queue_inv (rows s)" "sends_go_through w key"
  shows "map fst (sent ((flush w key ^^ n) s)) = map fst (sent s) @ take n (pending s key) \<and>
    pending ((flush w key ^^ n) s) key = drop n (pending s key) \<and>
    (\<forall>key'. key' \<noteq> key \<longrightarrow> list_queued_messages (rows ((flush w key ^^ n) s)) key' =
                            list_queued_messages (rows s) key')"
  using assms
proof (induction n arbitrary: s)
  case (Suc n)
  note f = flush_sends[OF Suc.prems]
  have IH: "map fst (sent ((flush w key ^^ n) (flush w key s))) =
        map fst (sent (flush w key s)) @ take n (pending (flush w key s) key)"
    "pending ((flush w key ^^ n) (flush w key s)) key = drop n (pending (flush w key s) key)"
    "\<forall>key'. key' \<noteq> key \<longrightarrow> list_queued_messages (rows ((flush w key ^^ n) (flush w key s))) key' =
        list_queued_messages (rows (flush w key s)) key'"
    using Suc.IH[of "flush w key s"] f Suc.prems(2) by blast+
  have "(flush w key ^^ Suc n) s = (flush w key ^^ n) (flush w key s)" by (simp add: funpow_swap1)
  moreover have "map fst (map (\<lambda>h. (h, request_of h)) hs) = hs" for hs by (simp add: comp_def)
  ultimately show ?case using IH f by (cases "pending s key") (simp_all add: comp_def)
qed simp

definition sample_world :: world where
  "sample_world = \<lparr>start_blocked = (\<lambda>_. False), turn_running = (\<lambda>_. (False, True)), latest_message = None,
     send_now = (\<lambda>_ _. Accepted), cancelled = False, head_fails = False, record_fails = False,
     delete_fails = False, insert_fails = False, count_fails = False, lookup_fails = False, move_fails = False\<rparr>"

lemma idle_edges_drain_fifo_witness:
  "map qm_id (map fst (sent ((flush sample_world (''opencode'', ''s'') ^^ 2) (new_service sample_rows)))) =
     [''a'', ''b'']"
proof -
  have "pending (new_service sample_rows) (''opencode'', ''s'') = sample_rows"
    by (simp add: pending_def new_service_def list_queued_messages_def sample_rows_def
        sample_message_def qm_key_def)
  then show ?thesis
    using idle_edges_drain_fifo[of "new_service sample_rows" sample_world "(''opencode'', ''s'')" 2]
    by (simp add: new_service_def sample_rows_inv sends_go_through_def sample_world_def)
      (simp add: sample_rows_def sample_message_def)
qed

text \<open>
  C29: whatever the interleaving of idle edges, sweeps, enqueues, removals and moves, no queued
  prompt is ever sent twice, and a prompt that was sent has left the queue, as long as the database
  does not fail to delete the row of an accepted send.
\<close>

theorem sent_at_most_once:
  assumes "queue_run t s"
  shows "distinct (sent_ids s) \<and> set (sent_ids s) \<inter> qm_id ` set (rows s) = {} \<and> queue_inv (rows s)"
  using queue_run_inv[OF assms] unfolding service_inv_def by blast

lemma sent_at_most_once_witness:
  "distinct (sent_ids (run_call sample_world (CFlush (''opencode'', ''s'')) (new_service sample_rows)))"
  using sent_at_most_once[OF queue_call[OF queue_start[OF sample_rows_inv],
      of "CFlush (''opencode'', ''s'')" sample_world]]
  by (simp add: sample_world_def)

text \<open>The prompts sent to one session.\<close>

definition sent_to :: "service \<Rightarrow> session_key \<Rightarrow> queued_message list" where
  "sent_to s key = filter (\<lambda>m. qm_key m = key) (map fst (sent s))"

lemma drain_head_other:
  assumes "key' \<noteq> key"
  shows "sent_to (drain_head w key trust prior s) key' = sent_to s key'"
    "drain_guards (drain_head w key trust prior s) key' = drain_guards s key'"
proof -
  have "sent_to (drain_head w key trust prior s) key' = sent_to s key' \<and>
    drain_guards (drain_head w key trust prior s) key' = drain_guards s key'"
  proof (cases rule: drain_head_cases[of w key trust prior s])
    case (sends h)
    then have "qm_key h \<noteq> key'" using head_in_rows assms by blast
    then show ?thesis unfolding sends(2) using assms
      by (cases rule: deliver_cases[of w key h "latest_state w key prior" s])
        (simp_all add: sent_to_def)
  qed simp
  then show "sent_to (drain_head w key trust prior s) key' = sent_to s key'"
    "drain_guards (drain_head w key trust prior s) key' = drain_guards s key'" by simp_all
qed

lemma clear_other: "key' \<noteq> key \<Longrightarrow> drain_guards (clear_drained_since_idle key s) key' = drain_guards s key'"
  "sent_to (clear_drained_since_idle key s) key' = sent_to s key'"
  by (simp_all add: service_ops sent_to_def)

lemma notify_rows_other:
  "sent_to (fire_notify k (s\<lparr>rows := r\<rparr>)) key = sent_to s key"
  "drain_guards (fire_notify k (s\<lparr>rows := r\<rparr>)) key = drain_guards s key"
  by (simp_all add: service_ops sent_to_def)

text \<open>The calls that may send to a guarded session.\<close>

fun releases :: "world \<Rightarrow> queue_call \<Rightarrow> session_key \<Rightarrow> drain_guard \<Rightarrow> bool" where
  "releases w (CFlush key') key g \<longleftrightarrow> key' = key"
| "releases w (CSweep key' (Some g')) key g \<longleftrightarrow> key' = key \<and> dg_generation g' = dg_generation g \<and>
     (case latest_message w of None \<Rightarrow> False | Some reader \<Rightarrow> completed_after (reader key) g')"
| "releases w _ key g \<longleftrightarrow> False"

text \<open>
  once a prompt was sent to a session, no enqueue, setup reconciliation or sweep sends it
  another one: the guard stands until an idle edge of that very session, or until a sweep that
  read the same guard before its lock sees a completed assistant message newer than the one the
  guard recorded. In particular a status poll that blips to idle never chains two prompts into
  one turn.
\<close>

theorem guard_holds_follow_ups:
  assumes g: "drain_guards s key = Some g" and c: "\<not> releases w c key g"
  shows "sent_to (run_call w c s) key = sent_to s key \<and> drain_guards (run_call w c s) key = Some g"
proof (cases c)
  case (CFlush key')
  then have "key \<noteq> key'" using c by auto
  then show ?thesis using CFlush g by (simp add: flush_def drain_head_other clear_other)
next
  case (CTryFlush key')
  then show ?thesis using g by (cases "key = key'") (auto simp: try_flush_def drain_head_other)
next
  case (CEnqueue adm i now p force req)
  show ?thesis
  proof (cases rule: enqueue_effect[of w adm i now p force req s])
    case (refused e)
    then show ?thesis using CEnqueue g by simp
  next
    case (appended rows')
    then show ?thesis using CEnqueue g
      by (cases "key = (p, sr_session req)") (simp_all add: drain_head_other notify_rows_other)
  qed
next
  case (CSweep key' guard)
  show ?thesis
  proof (cases "key = key'")
    case True
    have "sweep_locked w key' guard s = s"
    proof (cases "same_guard guard (drain_guards s key')")
      case True
      then obtain g' where g': "guard = Some g'" "dg_generation g' = dg_generation g"
        using g \<open>key = key'\<close> by (auto simp: same_guard_def split: option.splits)
      then show ?thesis using c CSweep \<open>key = key'\<close> True
        by (auto simp: sweep_locked_def Let_def split: option.splits)
    qed (simp add: sweep_locked_def)
    then show ?thesis using CSweep g by simp
  next
    case False
    then show ?thesis using CSweep g
      by (auto simp: sweep_locked_def Let_def drain_head_other clear_other split: option.split)
  qed
next
  case (CRemove session i scope)
  then show ?thesis using g
    by (auto simp: remove_def notify_rows_other split: option.split prod.split bool.split)
next
  case (CMove session i d scope)
  then show ?thesis using g
    by (auto simp: move_def notify_rows_other split: option.split prod.split move_result.split)
qed

lemma guard_holds_follow_ups_witness:
  "\<exists>s. drain_guards s (''opencode'', ''s'') \<noteq> None \<and> pending s (''opencode'', ''s'') \<noteq> [] \<and>
     sent_to (run_call sample_world (CTryFlush (''opencode'', ''s'')) s) (''opencode'', ''s'') =
     sent_to s (''opencode'', ''s'')"
proof -
  let ?k = "(''opencode'', ''s'')"
  define s where "s = mark_drained ?k [] 0 (new_service sample_rows)"
  have "drain_guards s ?k = Some \<lparr>dg_generation = 1, dg_message = [], dg_created = 0\<rparr>"
    by (simp add: s_def mark_drained_def new_service_def)
  moreover have "pending s ?k \<noteq> []"
    by (simp add: s_def mark_drained_def new_service_def pending_def list_queued_messages_def
        sample_rows_def sample_message_def qm_key_def)
  ultimately show ?thesis
    using guard_holds_follow_ups[of s ?k _ sample_world "CTryFlush ?k"] by auto
qed

text \<open>A world whose sends to the session all fail for one reason.\<close>

definition sends_fail :: "world \<Rightarrow> session_key \<Rightarrow> string \<Rightarrow> bool" where
  "sends_fail w key r \<longleftrightarrow> \<not> start_blocked w (snd key) \<and> \<not> head_fails w \<and> \<not> cancelled w \<and>
     \<not> record_fails w \<and> (\<forall>p q. send_now w p q = Failed r)"

lemma fail_rows_pending:
  assumes inv: "queue_inv t" and t: "t = rows s" and p: "pending s key = h # ps"
    and s': "rows s' = fst (record_queued_message_failure (qm_id h) r t)"
  shows "pending s' key = (if qm_attempts h + 1 \<ge> queued_message_attempt_limit then ps else fail_row r h # ps)"
proof -
  have h: "head_queued_message t key = Some h" by (simp add: head_pending p t)
  obtain xs ys where l: "list_queued_messages t key = xs @ h # ys" "\<forall>x \<in> set xs. qm_blocked x"
    using qs.head_splits[OF inv h] by metis
  have "distinct (map qm_id (xs @ h # ys))" using queue_inv_distinct_list(2)[OF inv, of key] by (simp add: l)
  then have "\<forall>m \<in> set xs \<union> set ys. qm_id m \<noteq> qm_id h" by (auto simp: image_iff)
  then have l': "list_queued_messages (rows s') key = xs @ fail_row r h # ys"
    unfolding s' failure_marks l(1) by (auto intro!: map_idI)
  have "filter (\<lambda>m. \<not> qm_blocked m) xs = []" using l(2) by (simp add: filter_empty_conv)
  moreover from this have "filter (\<lambda>m. \<not> qm_blocked m) ys = ps"
    using p qs.head_Some(2)[OF h] by (simp add: pending_def l(1) flip: t)
  ultimately show ?thesis by (simp add: pending_def l' fail_row_def)
qed

lemma flush_fails:
  assumes inv: "queue_inv (rows s)" and w: "sends_fail w key r" and p: "pending s key = h # ps"
  shows "queue_inv (rows (flush w key s)) \<and> sent (flush w key s) = sent s \<and>
    pending (flush w key s) key =
      (if qm_attempts h + 1 \<ge> queued_message_attempt_limit then ps else fail_row r h # ps)"
proof -
  let ?c = "clear_drained_since_idle key s"
  have c: "rows ?c = rows s" "sent ?c = sent s" by (simp_all add: service_ops)
  have f: "flush w key s = deliver w key h (latest_state w key None) ?c"
    using w by (simp add: flush_def drain_head_def Let_def c head_pending p sends_fail_def)
  have "rows (flush w key s) = fst (record_queued_message_failure (qm_id h) r (rows s)) \<and>
      sent (flush w key s) = sent s"
    using w unfolding f
    by (simp add: deliver_def sends_fail_def Let_def c case_prod_beta fire_notify_def)
  then show ?thesis using fail_rows_pending[OF inv refl p] failure_inv[OF inv] by metis
qed

text \<open>
  a prompt the platform refuses stays at the head of its session's queue for its first four
  failed edges, and on the fifth it is set aside with its reason: the prompts behind it move up
  unchanged, and nothing was sent.
\<close>

theorem poison_prompt_is_set_aside:
  assumes "queue_inv (rows s)" "sends_fail w key r" "pending s key = h # ps" "qm_attempts h = 0"
  shows "pending ((flush w key ^^ 5) s) key = ps \<and> sent ((flush w key ^^ 5) s) = sent s \<and>
    (\<forall>n < 5. pending ((flush w key ^^ n) s) key = (fail_row r ^^ n) h # ps)"
proof -
  have at: "qm_attempts ((fail_row r ^^ n) h) = n" for n
    by (induction n) (simp_all add: assms(4) fail_row_def)
  have step: "queue_inv (rows ((flush w key ^^ n) s)) \<and> sent ((flush w key ^^ n) s) = sent s \<and>
      pending ((flush w key ^^ n) s) key = (fail_row r ^^ n) h # ps" if "n < 5" for n
    using that
  proof (induction n)
    case 0
    then show ?case using assms by simp
  next
    case (Suc n)
    then have IH: "queue_inv (rows ((flush w key ^^ n) s))" "sent ((flush w key ^^ n) s) = sent s"
      "pending ((flush w key ^^ n) s) key = (fail_row r ^^ n) h # ps" by simp_all
    show ?case using flush_fails[OF IH(1) assms(2) IH(3)] IH(2) at[of n] Suc.prems
      by (simp add: queued_message_attempt_limit_def)
  qed
  have 5: "(flush w key ^^ 5) s = flush w key ((flush w key ^^ 4) s)"
    by (simp add: numeral_eq_Suc)
  have s4: "queue_inv (rows ((flush w key ^^ 4) s))" "sent ((flush w key ^^ 4) s) = sent s"
    "pending ((flush w key ^^ 4) s) key = (fail_row r ^^ 4) h # ps" using step[of 4] by simp_all
  show ?thesis
    using flush_fails[OF s4(1) assms(2) s4(3)] at[of 4] step
    unfolding 5 by (simp add: queued_message_attempt_limit_def s4(2))
qed

lemma poison_prompt_witness:
  "map qm_id (pending ((flush (sample_world\<lparr>send_now := (\<lambda>_ _. Failed ''gone'')\<rparr>) (''opencode'', ''s'') ^^ 5)
     (new_service sample_rows)) (''opencode'', ''s'')) = [''b'']"
proof -
  have "pending (new_service sample_rows) (''opencode'', ''s'') =
      sample_message ''a'' ''s'' 1 # [sample_message ''b'' ''s'' 2]"
    by (simp add: pending_def new_service_def list_queued_messages_def sample_rows_def
        sample_message_def qm_key_def)
  moreover have "qm_attempts (sample_message ''a'' ''s'' 1) = 0" by (simp add: sample_message_def)
  moreover have "queue_inv (rows (new_service sample_rows))" by (simp add: new_service_def sample_rows_inv)
  moreover have "sends_fail (sample_world\<lparr>send_now := (\<lambda>_ _. Failed ''gone'')\<rparr>) (''opencode'', ''s'') ''gone''"
    by (simp add: sends_fail_def sample_world_def)
  ultimately have "pending ((flush (sample_world\<lparr>send_now := (\<lambda>_ _. Failed ''gone'')\<rparr>) (''opencode'', ''s'') ^^ 5)
     (new_service sample_rows)) (''opencode'', ''s'') = [sample_message ''b'' ''s'' 2]"
    using poison_prompt_is_set_aside by blast
  then show ?thesis by (simp only:) (simp add: sample_message_def)
qed

text \<open>
  \<open>Enqueue\<close> either refuses the prompt and changes nothing, or puts it at the tail of its own
  session's list; held (\<open>force_queue\<close>), or behind a backlog, or under a guard, it sends nothing.
\<close>

theorem enqueue_holds_behind_backlog:
  assumes "force \<or> count_queued_messages (rows s) (p, sr_session req) > 0 \<or>
           drain_guards s (p, sr_session req) \<noteq> None"
  shows "case enqueue w adm i now p force req s of
      (Some _, s') \<Rightarrow> s' = s
    | (None, s') \<Rightarrow> sent s' = sent s \<and> drain_guards s' = drain_guards s \<and>
        (\<exists>pos. list_queued_messages (rows s') (p, sr_session req) =
           list_queued_messages (rows s) (p, sr_session req) @
             [(queued_row i now p req)\<lparr>qm_position := pos\<rparr>]) \<and>
        (\<forall>key. key \<noteq> (p, sr_session req) \<longrightarrow>
           list_queued_messages (rows s') key = list_queued_messages (rows s) key)"
proof (cases rule: enqueue_effect[of w adm i now p force req s])
  case (refused e)
  then show ?thesis by simp
next
  case (appended rows')
  have key: "qm_key (queued_row i now p req) = (p, sr_session req)"
    by (simp add: queued_row_def qm_key_def)
  have eq: "enqueue w adm i now p force req s = (None, fire_notify (p, sr_session req) (s\<lparr>rows := rows'\<rparr>))"
    using appended(2) assms by auto
  note ap = enqueue_appends[OF appended(1), unfolded key]
  have "\<exists>pos. list_queued_messages rows' (p, sr_session req) =
      list_queued_messages (rows s) (p, sr_session req) @ [(queued_row i now p req)\<lparr>qm_position := pos\<rparr>]"
    using ap[of "(p, sr_session req)"] by (auto simp: queued_row_def)
  moreover have "list_queued_messages rows' key' = list_queued_messages (rows s) key'"
    if "key' \<noteq> (p, sr_session req)" for key'
    using ap[of key'] that by simp
  ultimately show ?thesis unfolding eq by (simp add: fire_notify_def)
qed

definition sample_request :: send_request where
  "sample_request = \<lparr>sr_session = ''s'', sr_message = ''hi'', sr_images = [], sr_model = [], sr_agent = [],
     sr_reasoning = [], sr_preserve = False\<rparr>"

lemma enqueue_holds_witness:
  "sent (snd (enqueue sample_world True ''c'' 0 ''opencode'' False sample_request (new_service sample_rows))) = []
   \<and> fst (enqueue sample_world True ''c'' 0 ''opencode'' False sample_request (new_service sample_rows)) = None"
proof -
  have c: "count_queued_messages (rows (new_service sample_rows)) (''opencode'', sr_session sample_request) > 0"
    by (simp add: count_queued_messages_def new_service_def sample_rows_def sample_message_def
        sample_request_def qm_key_def)
  have "fst (enqueue sample_world True ''c'' 0 ''opencode'' False sample_request (new_service sample_rows)) = None"
    using c by (simp add: enqueue_def Let_def sample_request_def sample_world_def enqueue_message_def
        queued_row_def new_service_def sample_rows_def sample_message_def model_for_def split_model_def)
  then show ?thesis
    using enqueue_holds_behind_backlog[where force = False and s = "new_service sample_rows" and
        p = "''opencode''" and req = sample_request and w = sample_world and adm = True and
        i = "''c''" and now = 0] c
    by (simp add: new_service_def case_prod_beta)
qed

end
