(* ===== verification/Session_Log.thy ===== *)
theory Session_Log
  imports Prelude
begin

text \<open>
  The bounded replay log of a conversation stream (internal/convstream/log.go). A frame may carry
  a supersession key and may supersede the frames registered under some keys; superseded frames
  are dropped, the oldest frames are evicted when the log is over its bounds, and a client whose
  cursor is not older than the newest evicted frame resumes from the log. Go's int fields are
  ints; the sequence number, a uint64 counting frames, is a nat.
\<close>

section \<open>The log\<close>

record log_entry =
  le_seq :: nat
  le_frame :: string
  le_key :: string
  le_dropped :: bool

record session_log =
  log_epoch :: string
  log_last :: nat
  log_floor :: nat
  log_entries :: "log_entry list"
  log_bytes :: int
  log_live :: int
  log_dropped :: int
  log_by_key :: "string \<rightharpoonup> nat list"
  max_bytes :: int
  max_entries :: int

definition max_log_bytes :: int where "max_log_bytes = 4 * 2 ^ 20"
definition max_log_entries :: int where "max_log_entries = 20000"

definition new_log :: "string \<Rightarrow> session_log" where
  "new_log epoch = \<lparr>log_epoch = epoch, log_last = 0, log_floor = 0, log_entries = [], log_bytes = 0,
     log_live = 0, log_dropped = 0, log_by_key = (\<lambda>_. None), max_bytes = max_log_bytes,
     max_entries = max_log_entries\<rparr>"

definition log_next :: "session_log \<Rightarrow> session_log" where
  "log_next l = l\<lparr>log_last := log_last l + 1\<rparr>"

text \<open>\<open>sort.Search\<close>: bisection of [i, j) for the first index where the test holds.\<close>

function sort_search :: "(nat \<Rightarrow> bool) \<Rightarrow> nat \<Rightarrow> nat \<Rightarrow> nat" where
  "sort_search f i j =
     (if i < j then let h = (i + j) div 2 in if \<not> f h then sort_search f (h + 1) j else sort_search f i h
      else i)"
  by pat_completeness auto
termination by (relation "measure (\<lambda>(f, i, j). j - i)") (auto simp: Let_def)

declare sort_search.simps [simp del]

definition log_index :: "session_log \<Rightarrow> nat \<Rightarrow> nat option" where
  "log_index l seq =
     (let es = log_entries l;
          i = sort_search (\<lambda>i. le_seq (es ! i) \<ge> seq) 0 (length es)
      in if i < length es \<and> le_seq (es ! i) = seq then Some i else None)"

definition drop_entry :: "log_entry \<Rightarrow> log_entry" where
  "drop_entry e = e\<lparr>le_frame := [], le_dropped := True, le_key := []\<rparr>"

definition log_drop :: "nat \<Rightarrow> session_log \<Rightarrow> session_log" where
  "log_drop seq l =
     (case log_index l seq of
        None \<Rightarrow> l
      | Some i \<Rightarrow>
          let e = log_entries l ! i in
          if le_dropped e then l
          else l\<lparr>log_bytes := log_bytes l - int (length (le_frame e)),
                 log_entries := (log_entries l)[i := drop_entry e],
                 log_live := log_live l - 1, log_dropped := log_dropped l + 1\<rparr>)"

definition drop_key :: "string \<Rightarrow> session_log \<Rightarrow> session_log" where
  "drop_key k l =
     (let l' = fold log_drop (case log_by_key l k of None \<Rightarrow> [] | Some seqs \<Rightarrow> seqs) l
      in l'\<lparr>log_by_key := (log_by_key l')(k := None)\<rparr>)"

definition evict_entry :: "log_entry \<Rightarrow> session_log \<Rightarrow> session_log" where
  "evict_entry e l =
     (if le_dropped e then l\<lparr>log_dropped := log_dropped l - 1\<rparr>
      else let l1 = l\<lparr>log_floor := le_seq e, log_bytes := log_bytes l - int (length (le_frame e)),
                      log_live := log_live l - 1\<rparr>
           in if le_key e = [] then l1
              else let seqs = remove1 (le_seq e) (case log_by_key l (le_key e) of None \<Rightarrow> [] | Some ss \<Rightarrow> ss)
                   in l1\<lparr>log_by_key := (log_by_key l)(le_key e := (if seqs = [] then None else Some seqs))\<rparr>)"

fun trim_loop :: "int \<Rightarrow> int \<Rightarrow> session_log \<Rightarrow> log_entry list \<Rightarrow> session_log \<times> log_entry list" where
  "trim_loop tb te l [] = (l, [])"
| "trim_loop tb te l (e # es) =
     (if log_bytes l > tb \<or> log_live l > te then trim_loop tb te (evict_entry e l) es else (l, e # es))"

definition log_trim :: "int \<Rightarrow> int \<Rightarrow> session_log \<Rightarrow> session_log" where
  "log_trim mb me l =
     (if log_bytes l \<le> mb \<and> log_live l \<le> me then l
      else case trim_loop (mb * 9 div 10) (me * 9 div 10) l (log_entries l) of
          (l', es) \<Rightarrow> l'\<lparr>log_entries := es\<rparr>)"

definition log_repack :: "session_log \<Rightarrow> session_log" where
  "log_repack l =
     (if log_dropped l < 64 \<or> log_dropped l * 2 < int (length (log_entries l)) then l
      else l\<lparr>log_entries := filter (\<lambda>e. \<not> le_dropped e) (log_entries l), log_dropped := 0\<rparr>)"

definition add_entry :: "nat \<Rightarrow> string \<Rightarrow> string \<Rightarrow> session_log \<Rightarrow> session_log" where
  "add_entry seq frame key l =
     (let l1 = l\<lparr>log_entries := log_entries l @ [\<lparr>le_seq = seq, le_frame = frame, le_key = key, le_dropped = False\<rparr>],
                 log_bytes := log_bytes l + int (length frame), log_live := log_live l + 1\<rparr>
      in if key = [] then l1
         else l1\<lparr>log_by_key := (log_by_key l)(key \<mapsto> (case log_by_key l key of None \<Rightarrow> [] | Some ss \<Rightarrow> ss) @ [seq])\<rparr>)"

text \<open>The change of retained bytes is returned beside the log.\<close>

definition log_append :: "nat \<Rightarrow> string \<Rightarrow> string list \<Rightarrow> string \<Rightarrow> session_log \<Rightarrow> session_log \<times> int" where
  "log_append seq frame supersedes key l =
     (let l1 = add_entry seq frame key (fold drop_key supersedes l);
          l2 = log_repack (log_trim (max_bytes l) (max_entries l) l1)
      in (l2, log_bytes l2 - log_bytes l))"

definition log_resumable :: "string \<Rightarrow> nat \<Rightarrow> session_log \<Rightarrow> bool" where
  "log_resumable epoch seq l \<longleftrightarrow> epoch = log_epoch l \<and> seq \<ge> log_floor l \<and> seq \<le> log_last l"

definition log_after :: "nat \<Rightarrow> session_log \<Rightarrow> (nat \<times> string) list" where
  "log_after seq l =
     (let es = log_entries l;
          i = sort_search (\<lambda>i. le_seq (es ! i) > seq) 0 (length es)
      in map (\<lambda>e. (le_seq e, le_frame e)) (filter (\<lambda>e. \<not> le_dropped e) (drop i es)))"

text \<open>\<open>Hub.account\<close> trims a log once all logs together pass their cap.\<close>

definition account_trim :: "session_log \<Rightarrow> session_log" where
  "account_trim l = log_trim (log_bytes l div 2) (max_entries l) l"

section \<open>Bisection\<close>

lemma sort_search_spec:
  assumes "\<And>a b. i \<le> a \<Longrightarrow> a \<le> b \<Longrightarrow> b < j \<Longrightarrow> f a \<Longrightarrow> f b" "i \<le> j"
  shows "i \<le> sort_search f i j \<and> sort_search f i j \<le> j \<and>
    (\<forall>a. i \<le> a \<and> a < sort_search f i j \<longrightarrow> \<not> f a) \<and> (sort_search f i j < j \<longrightarrow> f (sort_search f i j))"
  using assms
proof (induction f i j rule: sort_search.induct)
  case (1 f i j)
  show ?case
  proof (cases "i < j")
    case False
    then have eq: "sort_search f i j = i" by (subst sort_search.simps) simp
    have "j = i" using 1(4) False by linarith
    then show ?thesis unfolding eq by (intro conjI allI impI) auto
  next
    case True
    define h where "h = (i + j) div 2"
    have h: "i \<le> h" "h < j" using True by (auto simp: h_def)
    show ?thesis
    proof (cases "f h")
      case True
      have eq: "sort_search f i j = sort_search f i h"
        using \<open>i < j\<close> True by (subst sort_search.simps) (simp add: h_def Let_def)
      define s where "s = sort_search f i h"
      have IH: "i \<le> s \<and> s \<le> h \<and> (\<forall>a. i \<le> a \<and> a < s \<longrightarrow> \<not> f a) \<and> (s < h \<longrightarrow> f s)"
        unfolding s_def
      proof (rule 1(2)[OF \<open>i < j\<close> h_def])
        show "\<not> \<not> f h" using True by simp
        show "i \<le> h" by (rule h(1))
        show "f b" if "i \<le> a" "a \<le> b" "b < h" "f a" for a b
          by (rule 1(3)[OF that(1,2) _ that(4)]) (use that(3) h(2) in simp)
      qed
      then have "s \<le> j" "f s" using True h(2) by (simp, cases "s < h") auto
      with IH show ?thesis unfolding eq s_def[symmetric] by blast
    next
      case False
      have eq: "sort_search f i j = sort_search f (h + 1) j"
        using \<open>i < j\<close> False by (subst sort_search.simps) (simp add: h_def Let_def)
      define s where "s = sort_search f (h + 1) j"
      have IH: "h + 1 \<le> s \<and> s \<le> j \<and> (\<forall>a. h + 1 \<le> a \<and> a < s \<longrightarrow> \<not> f a) \<and> (s < j \<longrightarrow> f s)"
        unfolding s_def
      proof (rule 1(1)[OF \<open>i < j\<close> h_def False])
        show "h + 1 \<le> j" using h(2) by simp
        show "f b" if "h + 1 \<le> a" "a \<le> b" "b < j" "f a" for a b
          by (rule 1(3)[OF _ that(2-4)]) (use that(1) h(1) in simp)
      qed
      have "\<not> f a" if "i \<le> a" "a \<le> h" for a using 1(3)[OF that(1) that(2) h(2)] False by blast
      then have "\<not> f a" if "i \<le> a" "a < s" for a
        using that IH by (cases "a \<le> h") auto
      with IH h(1) show ?thesis unfolding eq s_def[symmetric] by auto
    qed
  qed
qed

text \<open>On a list sorted by \<open>g\<close>, the search finds where the entries pass the bound.\<close>

lemma sort_search_sorted:
  fixes g :: "'e \<Rightarrow> nat"
  assumes "sorted (map g es)" and up: "\<And>a b. a \<le> b \<Longrightarrow> P a \<Longrightarrow> P b"
  defines "i \<equiv> sort_search (\<lambda>i. P (g (es ! i))) 0 (length es)"
  shows "i \<le> length es" "\<forall>e \<in> set (take i es). \<not> P (g e)" "\<forall>e \<in> set (drop i es). P (g e)"
proof -
  let ?f = "\<lambda>i. P (g (es ! i))"
  have mono: "a \<le> b \<Longrightarrow> b < length es \<Longrightarrow> ?f a \<Longrightarrow> ?f b" for a b
    using up[of "g (es ! a)" "g (es ! b)"] sorted_nth_mono[OF assms(1), of a b] by simp
  have "0 \<le> i \<and> i \<le> length es \<and> (\<forall>a. 0 \<le> a \<and> a < i \<longrightarrow> \<not> ?f a) \<and> (i < length es \<longrightarrow> ?f i)"
    unfolding i_def by (rule sort_search_spec) (erule (2) mono, rule le0)
  then have sp: "i \<le> length es" "\<forall>a<i. \<not> ?f a" "i < length es \<Longrightarrow> ?f i" by blast+
  show "i \<le> length es" by (rule sp)
  show "\<forall>e \<in> set (take i es). \<not> P (g e)" using sp(1,2) by (auto simp: in_set_conv_nth)
  show "\<forall>e \<in> set (drop i es). P (g e)"
  proof
    fix e assume "e \<in> set (drop i es)"
    then obtain k where k: "k < length es - i" "e = es ! (i + k)" by (auto simp: in_set_conv_nth)
    then show "P (g e)" using mono[of i "i + k"] sp(3) by simp
  qed
qed

section \<open>Invariants\<close>

definition live_entries :: "session_log \<Rightarrow> log_entry list" where
  "live_entries l = filter (\<lambda>e. \<not> le_dropped e) (log_entries l)"

definition bytes_of :: "log_entry list \<Rightarrow> int" where
  "bytes_of es = (\<Sum>e\<leftarrow>es. int (length (le_frame e)))"

text \<open>The entries are in order and the counters count them.\<close>

definition counts_ok :: "session_log \<Rightarrow> bool" where
  "counts_ok l \<longleftrightarrow> sorted_wrt (<) (map le_seq (log_entries l)) \<and>
     (\<forall>e \<in> set (log_entries l). le_dropped e \<longrightarrow> le_frame e = [] \<and> le_key e = []) \<and>
     log_bytes l = bytes_of (log_entries l) \<and> log_live l = int (length (live_entries l)) \<and>
     log_dropped l = int (length (log_entries l)) - int (length (live_entries l))"

definition keyed :: "string \<Rightarrow> log_entry list \<Rightarrow> nat list" where
  "keyed k es = map le_seq (filter (\<lambda>e. le_key e = k) es)"

text \<open>The index lists exactly the retained frames of each key.\<close>

definition index_ok :: "session_log \<Rightarrow> bool" where
  "index_ok l \<longleftrightarrow> (\<forall>k. log_by_key l k =
     (if k = [] \<or> keyed k (live_entries l) = [] then None else Some (keyed k (live_entries l))))"

definition log_inv :: "session_log \<Rightarrow> bool" where
  "log_inv l \<longleftrightarrow> counts_ok l \<and> index_ok l"

lemma bytes_of_simps [simp]: "bytes_of [] = 0" "bytes_of (e # es) = int (length (le_frame e)) + bytes_of es"
  "bytes_of (es @ fs) = bytes_of es + bytes_of fs"
  by (simp_all add: bytes_of_def)

lemma bytes_of_nonneg [simp]: "0 \<le> bytes_of es"
  by (induction es) auto

lemma bytes_of_live: "\<forall>e \<in> set es. le_dropped e \<longrightarrow> le_frame e = [] \<and> le_key e = [] \<Longrightarrow>
    bytes_of (filter (\<lambda>e. \<not> le_dropped e) es) = bytes_of es"
  by (induction es) auto

lemma keyed_simps [simp]: "keyed k [] = []"
  "keyed k (e # es) = (if le_key e = k then le_seq e # keyed k es else keyed k es)"
  "keyed k (es @ fs) = keyed k es @ keyed k fs"
  by (simp_all add: keyed_def)

lemma index_lookup: "index_ok l \<Longrightarrow> k \<noteq> [] \<Longrightarrow>
    (case log_by_key l k of None \<Rightarrow> [] | Some ss \<Rightarrow> ss) = keyed k (live_entries l)"
  by (simp add: index_ok_def)

lemma index_okI:
  "(\<And>k. log_by_key l k = (if k = [] \<or> keyed k (live_entries l) = [] then None else Some (keyed k (live_entries l))))
     \<Longrightarrow> index_ok l"
  by (simp add: index_ok_def)

lemma sorted_seqs: "counts_ok l \<Longrightarrow> sorted (map le_seq (log_entries l))"
  and distinct_seqs: "counts_ok l \<Longrightarrow> distinct (map le_seq (log_entries l))"
  by (simp_all add: counts_ok_def strict_sorted_iff)

lemma log_index_Some:
  assumes "log_index l s = Some i"
  shows "i < length (log_entries l)" "le_seq (log_entries l ! i) = s"
  using assms by (auto simp: log_index_def Let_def split: if_splits)

lemma log_index_complete:
  assumes "counts_ok l" "e \<in> set (log_entries l)"
  obtains i where "log_index l (le_seq e) = Some i" "log_entries l ! i = e" "i < length (log_entries l)"
proof -
  let ?es = "log_entries l"
  define i where "i = sort_search (\<lambda>i. le_seq (?es ! i) \<ge> le_seq e) 0 (length ?es)"
  note sp = sort_search_sorted[OF sorted_seqs[OF assms(1)], of "\<lambda>a. a \<ge> le_seq e", folded i_def]
  have sp: "i \<le> length ?es" "\<forall>x \<in> set (take i ?es). \<not> le_seq e \<le> le_seq x"
    "\<forall>x \<in> set (drop i ?es). le_seq e \<le> le_seq x" using sp by auto
  have "e \<in> set (drop i ?es)"
    using assms(2) sp(2) by (metis Un_iff append_take_drop_id order_refl set_append)
  then have i: "i < length ?es" by (cases "i < length ?es") auto
  have "?es ! i = e"
  proof -
    have d: "drop i ?es = ?es ! i # drop (Suc i) ?es" using i by (simp add: Cons_nth_drop_Suc)
    have "le_seq e \<le> le_seq (?es ! i)" using sp(3) by (simp add: d)
    moreover have "sorted (map le_seq (drop i ?es))"
      using sorted_seqs[OF assms(1)] by (metis drop_map sorted_wrt_drop)
    then have "le_seq (?es ! i) \<le> le_seq e" using \<open>e \<in> set (drop i ?es)\<close> by (auto simp: d)
    ultimately have "le_seq (?es ! i) = le_seq e" by simp
    then show ?thesis using distinct_seqs[OF assms(1)] assms(2) i
      by (metis distinct_map inj_on_eq_iff nth_mem)
  qed
  with i show thesis by (intro that[of i]) (simp_all add: log_index_def Let_def flip: i_def)
qed

section \<open>Dropping superseded frames\<close>

text \<open>The parts of the log dropping does not touch.\<close>

definition same_frame :: "session_log \<Rightarrow> session_log \<Rightarrow> bool" where
  "same_frame l l' \<longleftrightarrow> log_epoch l' = log_epoch l \<and> log_last l' = log_last l \<and> log_floor l' = log_floor l \<and>
     max_bytes l' = max_bytes l \<and> max_entries l' = max_entries l"

lemma same_frame_trans: "same_frame a b \<Longrightarrow> same_frame b c \<Longrightarrow> same_frame a c"
  by (simp add: same_frame_def)

lemma drop_effect:
  assumes c: "counts_ok l" and e: "e \<in> set (live_entries l)"
  shows "counts_ok (log_drop (le_seq e) l) \<and> same_frame l (log_drop (le_seq e) l) \<and>
    live_entries (log_drop (le_seq e) l) = filter (\<lambda>x. le_seq x \<noteq> le_seq e) (live_entries l) \<and>
    log_by_key (log_drop (le_seq e) l) = log_by_key l"
proof -
  let ?es = "log_entries l"
  have e': "e \<in> set ?es" "\<not> le_dropped e" using e by (auto simp: live_entries_def)
  obtain i where i: "log_index l (le_seq e) = Some i" "?es ! i = e" "i < length ?es"
    using log_index_complete[OF c e'(1)] .
  define xs ys where "xs = take i ?es" and "ys = drop (Suc i) ?es"
  have es: "?es = xs @ e # ys" using id_take_nth_drop[OF i(3)] by (simp only: xs_def ys_def i(2))
  have upd: "?es[i := drop_entry e] = xs @ drop_entry e # ys"
    using i by (simp add: upd_conv_take_nth_drop xs_def ys_def)
  define l' where "l' = log_drop (le_seq e) l"
  have l': "l' = l\<lparr>log_bytes := log_bytes l - int (length (le_frame e)),
      log_entries := xs @ drop_entry e # ys, log_live := log_live l - 1, log_dropped := log_dropped l + 1\<rparr>"
    using i e' by (simp add: l'_def log_drop_def upd)
  have live: "live_entries l = filter (\<lambda>x. \<not> le_dropped x) xs @ e # filter (\<lambda>x. \<not> le_dropped x) ys"
    using e' by (simp add: live_entries_def es)
  have live': "live_entries l' = filter (\<lambda>x. \<not> le_dropped x) xs @ filter (\<lambda>x. \<not> le_dropped x) ys"
    by (simp add: live_entries_def l' drop_entry_def)
  have ne: "\<forall>x \<in> set xs \<union> set ys. le_seq x \<noteq> le_seq e"
    using distinct_seqs[OF c] by (auto simp: es image_iff)
  have "filter (\<lambda>x. \<not> le_dropped x \<and> le_seq x \<noteq> le_seq e) zs = filter (\<lambda>x. \<not> le_dropped x) zs"
    if "set zs \<subseteq> set xs \<union> set ys" for zs
    by (rule filter_cong) (use that ne in auto)
  then have "filter (\<lambda>x. le_seq x \<noteq> le_seq e) (live_entries l) = live_entries l'"
    by (simp add: live live')
  moreover have "counts_ok l'"
    using c unfolding counts_ok_def live live'
    by (simp add: l' es drop_entry_def sorted_wrt_append)
  moreover have "same_frame l l'" "log_by_key l' = log_by_key l" by (simp_all add: same_frame_def l')
  ultimately show ?thesis by (simp add: l'_def)
qed

lemma drops_effect:
  assumes "counts_ok l" "distinct ss" "set ss \<subseteq> le_seq ` set (live_entries l)"
  shows "counts_ok (fold log_drop ss l) \<and> same_frame l (fold log_drop ss l) \<and>
    live_entries (fold log_drop ss l) = filter (\<lambda>x. le_seq x \<notin> set ss) (live_entries l) \<and>
    log_by_key (fold log_drop ss l) = log_by_key l"
  using assms
proof (induction ss arbitrary: l)
  case Nil
  then show ?case by (simp add: same_frame_def)
next
  case (Cons s ss)
  then obtain e where e: "e \<in> set (live_entries l)" "s = le_seq e" by auto
  note d = drop_effect[OF Cons.prems(1) e(1), folded e(2)]
  have "set ss \<subseteq> le_seq ` set (live_entries (log_drop s l))"
  proof
    fix x assume x: "x \<in> set ss"
    then obtain f where "f \<in> set (live_entries l)" "x = le_seq f" using Cons.prems(3) by auto
    moreover have "x \<noteq> s" using x Cons.prems(2) by auto
    ultimately show "x \<in> le_seq ` set (live_entries (log_drop s l))" using d e by auto
  qed
  then have IH: "counts_ok (fold log_drop ss (log_drop s l)) \<and>
      same_frame (log_drop s l) (fold log_drop ss (log_drop s l)) \<and>
      live_entries (fold log_drop ss (log_drop s l)) =
        filter (\<lambda>x. le_seq x \<notin> set ss) (live_entries (log_drop s l)) \<and>
      log_by_key (fold log_drop ss (log_drop s l)) = log_by_key (log_drop s l)"
    using Cons.IH[of "log_drop s l"] d Cons.prems(2) by simp
  moreover have "filter (\<lambda>x. le_seq x \<notin> set ss) (live_entries (log_drop s l)) =
      filter (\<lambda>x. le_seq x \<notin> set (s # ss)) (live_entries l)"
    using d by (simp add: conj_commute)
  ultimately show ?case using d same_frame_trans by simp metis
qed

lemma live_distinct: "counts_ok l \<Longrightarrow> distinct (map le_seq (live_entries l))"
  using distinct_seqs[of l] by (auto simp: live_entries_def distinct_map intro: inj_on_subset)

lemma keyed_filter_ne: "keyed k (filter (\<lambda>e. le_key e \<noteq> k') es) = (if k = k' then [] else keyed k es)"
  by (induction es) auto

lemma drop_key_effect:
  assumes inv: "log_inv l"
  shows "log_inv (drop_key k l) \<and> same_frame l (drop_key k l) \<and>
    live_entries (drop_key k l) = filter (\<lambda>e. k = [] \<or> le_key e \<noteq> k) (live_entries l)"
proof -
  have c: "counts_ok l" and ix: "index_ok l" using inv by (simp_all add: log_inv_def)
  define ss where "ss = (case log_by_key l k of None \<Rightarrow> [] | Some seqs \<Rightarrow> seqs)"
  define l1 where "l1 = fold log_drop ss l"
  have dk: "drop_key k l = l1\<lparr>log_by_key := (log_by_key l1)(k := None)\<rparr>"
    by (simp add: drop_key_def ss_def l1_def Let_def)
  have ss: "ss = (if k = [] then [] else keyed k (live_entries l))"
    using index_lookup[OF ix] ix by (auto simp: ss_def index_ok_def)
  have "distinct ss" using live_distinct[OF c]
    by (auto simp: ss keyed_def distinct_map intro: inj_on_subset)
  moreover have "set ss \<subseteq> le_seq ` set (live_entries l)" by (auto simp: ss keyed_def)
  ultimately have d: "counts_ok l1" "same_frame l l1"
    "live_entries l1 = filter (\<lambda>x. le_seq x \<notin> set ss) (live_entries l)" "log_by_key l1 = log_by_key l"
    using drops_effect[OF c] unfolding l1_def by blast+
  have "filter (\<lambda>x. le_seq x \<notin> set ss) (live_entries l) =
      filter (\<lambda>e. k = [] \<or> le_key e \<noteq> k) (live_entries l)"
  proof (rule filter_cong[OF refl])
    fix x assume x: "x \<in> set (live_entries l)"
    have "le_seq x \<in> le_seq ` set (filter (\<lambda>e. le_key e = k) (live_entries l)) \<longleftrightarrow> le_key x = k"
      using x live_distinct[OF c] by (auto simp: distinct_map dest: inj_onD)
    then show "le_seq x \<notin> set ss \<longleftrightarrow> k = [] \<or> le_key x \<noteq> k" by (auto simp: ss keyed_def)
  qed
  with d have lv: "live_entries l1 = filter (\<lambda>e. k = [] \<or> le_key e \<noteq> k) (live_entries l)" by simp
  have "index_ok (drop_key k l)"
  proof (rule index_okI)
    fix k'
    have "live_entries (drop_key k l) = live_entries l1" by (simp add: dk live_entries_def)
    moreover have "log_by_key (drop_key k l) k' = (if k' = k then None else log_by_key l k')"
      by (simp add: dk d(4))
    moreover have "log_by_key l k' = (if k' = [] \<or> keyed k' (live_entries l) = [] then None
        else Some (keyed k' (live_entries l)))" using ix by (simp add: index_ok_def)
    ultimately show "log_by_key (drop_key k l) k' =
        (if k' = [] \<or> keyed k' (live_entries (drop_key k l)) = [] then None
         else Some (keyed k' (live_entries (drop_key k l))))"
      by (cases "k = []"; cases "k' = k"; cases "k' = []") (simp_all add: lv keyed_filter_ne)
  qed
  moreover have "counts_ok (drop_key k l)"
    using d(1) by (simp add: dk counts_ok_def live_entries_def)
  ultimately show ?thesis
    using d(2) lv by (simp add: log_inv_def dk same_frame_def live_entries_def)
qed

lemma drop_keys_effect:
  "log_inv l \<Longrightarrow> log_inv (fold drop_key ks l) \<and> same_frame l (fold drop_key ks l) \<and>
    live_entries (fold drop_key ks l) = filter (\<lambda>e. le_key e = [] \<or> le_key e \<notin> set ks) (live_entries l)"
proof (induction ks arbitrary: l)
  case Nil
  then show ?case by (simp add: same_frame_def)
next
  case (Cons k ks)
  note d = drop_key_effect[OF Cons.prems, of k]
  then have "log_inv (fold drop_key ks (drop_key k l)) \<and> same_frame (drop_key k l) (fold drop_key ks (drop_key k l)) \<and>
    live_entries (fold drop_key ks (drop_key k l)) =
      filter (\<lambda>e. le_key e = [] \<or> le_key e \<notin> set ks) (live_entries (drop_key k l))"
    using Cons.IH by blast
  moreover have "filter (\<lambda>e. le_key e = [] \<or> le_key e \<notin> set ks) (live_entries (drop_key k l)) =
      filter (\<lambda>e. le_key e = [] \<or> le_key e \<notin> set (k # ks)) (live_entries l)"
    using d by (auto intro!: filter_cong)
  ultimately show ?case using d same_frame_trans by simp metis
qed

section \<open>Evicting the oldest frames\<close>

lemma keyed_filter_gt:
  "sorted_wrt (<) (map le_seq (e # es)) \<Longrightarrow> filter (\<lambda>x. le_seq x > le_seq e) es = es"
  by (auto simp: filter_id_conv)

text \<open>Evicting the first entry of \<open>es\<close>, where \<open>l\<close> is the log whose entries are \<open>es\<close>.\<close>

lemma evict_effect:
  assumes inv: "log_inv (l\<lparr>log_entries := e # es\<rparr>)"
  defines "l' \<equiv> evict_entry e l"
  shows "log_inv (l'\<lparr>log_entries := es\<rparr>) \<and>
    log_epoch l' = log_epoch l \<and> log_last l' = log_last l \<and> max_bytes l' = max_bytes l \<and>
    max_entries l' = max_entries l \<and>
    log_floor l' = (if le_dropped e then log_floor l else le_seq e)"
proof -
  let ?lv = "filter (\<lambda>e. \<not> le_dropped e)"
  have c: "sorted_wrt (<) (map le_seq (e # es))"
    "\<forall>x \<in> set (e # es). le_dropped x \<longrightarrow> le_frame x = [] \<and> le_key x = []"
    "log_bytes l = bytes_of (e # es)" "log_live l = int (length (?lv (e # es)))"
    "log_dropped l = int (length (e # es)) - int (length (?lv (e # es)))"
    using inv by (simp_all add: log_inv_def counts_ok_def live_entries_def)
  have ix: "log_by_key l k = (if k = [] \<or> keyed k (?lv (e # es)) = [] then None
      else Some (keyed k (?lv (e # es))))" for k
    using inv by (simp add: log_inv_def index_ok_def live_entries_def)
  have "counts_ok (l'\<lparr>log_entries := es\<rparr>)"
    using c by (cases "le_dropped e")
      (simp_all add: counts_ok_def live_entries_def l'_def evict_entry_def Let_def)
  moreover have "index_ok (l'\<lparr>log_entries := es\<rparr>)"
  proof (rule index_okI)
    fix k
    show "log_by_key (l'\<lparr>log_entries := es\<rparr>) k =
        (if k = [] \<or> keyed k (live_entries (l'\<lparr>log_entries := es\<rparr>)) = [] then None
         else Some (keyed k (live_entries (l'\<lparr>log_entries := es\<rparr>))))"
    proof (cases "le_dropped e \<or> le_key e = [] \<or> k \<noteq> le_key e")
      case True
      then have "log_by_key l' k = log_by_key l k" by (auto simp: l'_def evict_entry_def Let_def)
      then show ?thesis using True ix[of k] by (auto simp: live_entries_def)
    next
      case False
      then show ?thesis using ix[of k]
        by (simp add: l'_def evict_entry_def Let_def live_entries_def)
    qed
  qed
  moreover have "log_epoch l' = log_epoch l \<and> log_last l' = log_last l \<and> max_bytes l' = max_bytes l \<and>
    max_entries l' = max_entries l \<and> log_floor l' = (if le_dropped e then log_floor l else le_seq e)"
    by (simp add: l'_def evict_entry_def Let_def)
  ultimately show ?thesis by (simp add: log_inv_def)
qed

text \<open>
  The loop leaves a suffix of the entries; every live entry it took out is at or below the new
  floor, every one it left is above it.
\<close>

lemma trim_loop_effect:
  assumes "log_inv (l\<lparr>log_entries := es\<rparr>)" "trim_loop tb te l es = (l', es')" "0 \<le> tb" "0 \<le> te"
    "log_floor l \<le> log_last l" "\<forall>e \<in> set es. le_seq e \<le> log_last l"
    "\<forall>e \<in> set es. \<not> le_dropped e \<longrightarrow> log_floor l < le_seq e"
  shows "log_inv (l'\<lparr>log_entries := es'\<rparr>) \<and> log_bytes l' \<le> tb \<and> log_live l' \<le> te \<and>
    log_epoch l' = log_epoch l \<and> log_last l' = log_last l \<and> max_bytes l' = max_bytes l \<and>
    max_entries l' = max_entries l \<and> log_floor l \<le> log_floor l' \<and> log_floor l' \<le> log_last l \<and>
    filter (\<lambda>e. \<not> le_dropped e) es' = filter (\<lambda>e. \<not> le_dropped e \<and> le_seq e > log_floor l') es \<and>
    set es' \<subseteq> set es"
  using assms
proof (induction es arbitrary: l)
  case Nil
  then have "log_bytes l = 0" "log_live l = 0"
    by (simp_all add: log_inv_def counts_ok_def live_entries_def)
  then show ?case using Nil by auto
next
  case (Cons e es)
  have srt: "\<forall>x \<in> set es. le_seq e < le_seq x"
    using Cons.prems(1) by (auto simp: log_inv_def counts_ok_def)
  show ?case
  proof (cases "log_bytes l > tb \<or> log_live l > te")
    case True
    define l1 where "l1 = evict_entry e l"
    note ev = evict_effect[OF Cons.prems(1), folded l1_def]
    have tl: "trim_loop tb te l1 es = (l', es')" using Cons.prems(2) True by (simp add: l1_def)
    have fl: "log_floor l \<le> log_floor l1" "log_floor l1 \<le> log_last l"
      using ev Cons.prems(5,6,7) by (auto split: if_splits)
    have up: "\<forall>x \<in> set es. \<not> le_dropped x \<longrightarrow> log_floor l1 < le_seq x"
      using ev Cons.prems(7) srt by auto
    have "log_inv (l'\<lparr>log_entries := es'\<rparr>) \<and> log_bytes l' \<le> tb \<and> log_live l' \<le> te \<and>
      log_epoch l' = log_epoch l1 \<and> log_last l' = log_last l1 \<and> max_bytes l' = max_bytes l1 \<and>
      max_entries l' = max_entries l1 \<and> log_floor l1 \<le> log_floor l' \<and> log_floor l' \<le> log_last l1 \<and>
      filter (\<lambda>e. \<not> le_dropped e) es' = filter (\<lambda>e. \<not> le_dropped e \<and> le_seq e > log_floor l') es \<and>
      set es' \<subseteq> set es"
      using Cons.IH[OF _ tl Cons.prems(3,4)] ev fl up Cons.prems(6) by simp
    moreover from this have "\<not> (\<not> le_dropped e \<and> le_seq e > log_floor l')"
      using ev by (auto split: if_splits)
    ultimately show ?thesis using ev fl by (simp add: subset_insertI2)
  next
    case False
    then have "l' = l" "es' = e # es" using Cons.prems(2) by auto
    moreover have "filter (\<lambda>e. \<not> le_dropped e \<and> le_seq e > log_floor l) (e # es) = filter (\<lambda>e. \<not> le_dropped e) (e # es)"
      using Cons.prems(7) by (intro filter_cong) auto
    ultimately show ?thesis using Cons.prems False by auto
  qed
qed

section \<open>The log and what was appended to it\<close>

text \<open>
  A history lists the frames appended so far, each with the keys it superseded. A frame is
  superseded when a later one named its key.
\<close>

type_synonym log_history = "(log_entry \<times> string list) list"

definition superseded :: "log_history \<Rightarrow> log_entry \<Rightarrow> bool" where
  "superseded h e \<longleftrightarrow> le_key e \<noteq> [] \<and> (\<exists>x \<in> set h. le_seq (fst x) > le_seq e \<and> le_key e \<in> set (snd x))"

definition survivors :: "log_history \<Rightarrow> log_entry list" where
  "survivors h = filter (\<lambda>e. \<not> superseded h e) (map fst h)"

definition log_wf :: "session_log \<Rightarrow> bool" where
  "log_wf l \<longleftrightarrow> log_inv l \<and> log_floor l \<le> log_last l \<and>
     (\<forall>e \<in> set (log_entries l). le_seq e \<le> log_last l) \<and>
     (\<forall>e \<in> set (live_entries l). log_floor l < le_seq e)"

definition logs :: "session_log \<Rightarrow> log_history \<Rightarrow> bool" where
  "logs l h \<longleftrightarrow> log_wf l \<and> sorted_wrt (<) (map (\<lambda>x. le_seq (fst x)) h) \<and>
     (\<forall>x \<in> set h. le_seq (fst x) \<le> log_last l \<and> \<not> le_dropped (fst x)) \<and>
     live_entries l = filter (\<lambda>e. le_seq e > log_floor l) (survivors h)"

lemma survivors_snoc:
  assumes "\<forall>y \<in> set h. le_seq (fst y) < le_seq (fst x)"
  shows "survivors (h @ [x]) =
    filter (\<lambda>e. le_key e = [] \<or> le_key e \<notin> set (snd x)) (survivors h) @ [fst x]"
proof -
  have "\<not> superseded (h @ [x]) (fst x)" using assms by (force simp: superseded_def)
  moreover have "filter (\<lambda>e. \<not> superseded (h @ [x]) e) (map fst h) =
      filter (\<lambda>e. (le_key e = [] \<or> le_key e \<notin> set (snd x)) \<and> \<not> superseded h e) (map fst h)"
    by (rule filter_cong) (use assms in \<open>auto simp: superseded_def\<close>)
  ultimately show ?thesis by (simp add: survivors_def conj_commute)
qed

lemma log_trim_effect:
  assumes wf: "log_wf l" and pos: "0 \<le> mb" "0 \<le> me"
  shows "log_wf (log_trim mb me l) \<and> log_bytes (log_trim mb me l) \<le> mb \<and> log_live (log_trim mb me l) \<le> me \<and>
    log_epoch (log_trim mb me l) = log_epoch l \<and> log_last (log_trim mb me l) = log_last l \<and>
    max_bytes (log_trim mb me l) = max_bytes l \<and> max_entries (log_trim mb me l) = max_entries l \<and>
    log_floor l \<le> log_floor (log_trim mb me l) \<and>
    live_entries (log_trim mb me l) = filter (\<lambda>e. le_seq e > log_floor (log_trim mb me l)) (live_entries l)"
proof (cases "log_bytes l \<le> mb \<and> log_live l \<le> me")
  case True
  then have "filter (\<lambda>e. le_seq e > log_floor l) (live_entries l) = live_entries l"
    using wf by (simp add: log_wf_def filter_id_conv)
  with True wf show ?thesis by (simp add: log_trim_def)
next
  case False
  obtain l' es' where t: "trim_loop (mb * 9 div 10) (me * 9 div 10) l (log_entries l) = (l', es')" by fastforce
  have lt: "log_trim mb me l = l'\<lparr>log_entries := es'\<rparr>" by (simp only: log_trim_def if_not_P[OF False] t prod.case)
  have le: "mb * 9 div 10 \<le> mb" "0 \<le> mb * 9 div 10" "me * 9 div 10 \<le> me" "0 \<le> me * 9 div 10"
    using pos by linarith+
  have w: "log_inv l" "log_floor l \<le> log_last l" "\<forall>e \<in> set (log_entries l). le_seq e \<le> log_last l"
    "\<forall>e \<in> set (log_entries l). \<not> le_dropped e \<longrightarrow> log_floor l < le_seq e"
    using wf by (auto simp: log_wf_def live_entries_def)
  have T: "log_inv (l'\<lparr>log_entries := es'\<rparr>)" "log_bytes l' \<le> mb * 9 div 10" "log_live l' \<le> me * 9 div 10"
    "log_epoch l' = log_epoch l" "log_last l' = log_last l" "max_bytes l' = max_bytes l"
    "max_entries l' = max_entries l" "log_floor l \<le> log_floor l'" "log_floor l' \<le> log_last l"
    "filter (\<lambda>e. \<not> le_dropped e) es' = filter (\<lambda>e. \<not> le_dropped e \<and> le_seq e > log_floor l') (log_entries l)"
    "set es' \<subseteq> set (log_entries l)"
    using trim_loop_effect[OF _ t le(2,4) w(2-4)] w(1) by simp_all
  have lv: "live_entries (l'\<lparr>log_entries := es'\<rparr>) = filter (\<lambda>e. le_seq e > log_floor l') (live_entries l)"
    using T(10) by (simp add: live_entries_def conj_commute)
  have "log_wf (l'\<lparr>log_entries := es'\<rparr>)"
    using T w lv by (auto simp: log_wf_def)
  with T le lv show ?thesis unfolding lt by simp
qed

lemma log_repack_effect:
  assumes "log_wf l"
  shows "log_wf (log_repack l) \<and> same_frame l (log_repack l) \<and> live_entries (log_repack l) = live_entries l \<and>
    log_bytes (log_repack l) = log_bytes l \<and> log_live (log_repack l) = log_live l \<and>
    (log_dropped (log_repack l) < 64 \<or> log_dropped (log_repack l) * 2 < int (length (log_entries (log_repack l))))"
proof (cases "log_dropped l < 64 \<or> log_dropped l * 2 < int (length (log_entries l))")
  case True
  then show ?thesis using assms by (auto simp: log_repack_def same_frame_def)
next
  case False
  define l' where "l' = log_repack l"
  have l': "l' = l\<lparr>log_entries := live_entries l, log_dropped := 0\<rparr>"
    using False by (simp add: l'_def log_repack_def live_entries_def)
  have lv: "live_entries l' = live_entries l" by (simp add: l' live_entries_def)
  have c: "counts_ok l" using assms by (simp add: log_wf_def log_inv_def)
  have "bytes_of (live_entries l) = log_bytes l"
    using c bytes_of_live[of "log_entries l"] by (simp add: counts_ok_def live_entries_def)
  moreover have "sorted_wrt (<) (map le_seq (live_entries l))"
    using c unfolding counts_ok_def live_entries_def strict_sorted_iff
    by (auto simp: distinct_map sorted_filter intro: inj_on_subset)
  ultimately have "counts_ok l'"
    using c unfolding counts_ok_def lv by (simp add: l') (auto simp: live_entries_def)
  moreover have "index_ok l'" using assms unfolding log_wf_def log_inv_def index_ok_def lv by (simp add: l')
  ultimately have "log_wf l'"
    using assms unfolding log_wf_def log_inv_def lv by (simp add: l') (auto simp: live_entries_def)
  then show ?thesis using lv unfolding l'_def[symmetric] by (simp add: l' same_frame_def)
qed

lemma add_entry_effect:
  fixes frame key :: string
  assumes wf: "log_wf l" and new: "log_last l = seq" "\<forall>e \<in> set (log_entries l). le_seq e < seq"
    "log_floor l < seq"
  defines "l' \<equiv> add_entry seq frame key l"
  shows "log_wf l' \<and> same_frame l l' \<and>
    live_entries l' = live_entries l @ [\<lparr>le_seq = seq, le_frame = frame, le_key = key, le_dropped = False\<rparr>]"
proof -
  let ?e = "\<lparr>le_seq = seq, le_frame = frame, le_key = key, le_dropped = False\<rparr>"
  have f: "log_entries l' = log_entries l @ [?e]" "log_bytes l' = log_bytes l + int (length frame)"
    "log_live l' = log_live l + 1" "log_dropped l' = log_dropped l" "log_floor l' = log_floor l"
    "log_last l' = log_last l" "same_frame l l'"
    by (simp_all add: l'_def add_entry_def Let_def same_frame_def)
  have lv: "live_entries l' = live_entries l @ [?e]" by (simp add: live_entries_def f)
  have inv: "counts_ok l" "index_ok l" using wf by (simp_all add: log_wf_def log_inv_def)
  have "counts_ok l'"
    using inv(1) new(2) unfolding counts_ok_def lv by (auto simp: f sorted_wrt_append)
  moreover have "index_ok l'"
  proof (rule index_okI)
    fix k
    have "log_by_key l' k = (if key \<noteq> [] \<and> k = key
        then Some (keyed k (live_entries l) @ [seq]) else log_by_key l k)"
      using index_lookup[OF inv(2), of key] by (simp add: l'_def add_entry_def Let_def)
    moreover have "log_by_key l k = (if k = [] \<or> keyed k (live_entries l) = [] then None
        else Some (keyed k (live_entries l)))" using inv(2) by (simp add: index_ok_def)
    ultimately show "log_by_key l' k = (if k = [] \<or> keyed k (live_entries l') = [] then None
        else Some (keyed k (live_entries l')))"
      unfolding lv by (cases "k = key"; cases "key = []") simp_all
  qed
  ultimately have "log_wf l'"
    using wf new unfolding log_wf_def log_inv_def lv by (auto simp: f)
  with f lv show ?thesis by blast
qed

text \<open>One append, as the session makes it: it reserves the next number first.\<close>

definition emit_frame :: "string \<Rightarrow> string list \<Rightarrow> string \<Rightarrow> session_log \<Rightarrow> session_log" where
  "emit_frame frame supersedes key l =
     fst (log_append (log_last l + 1) frame supersedes key (log_next l))"

definition emitted :: "nat \<Rightarrow> string \<Rightarrow> string list \<Rightarrow> string \<Rightarrow> log_entry \<times> string list" where
  "emitted seq frame supersedes key =
     (\<lparr>le_seq = seq, le_frame = frame, le_key = key, le_dropped = False\<rparr>, supersedes)"

lemma drop_seqs: "map le_seq (log_entries (log_drop s l)) = map le_seq (log_entries l)"
proof (cases "log_index l s")
  case (Some i)
  have "map le_seq ((log_entries l)[i := drop_entry (log_entries l ! i)]) = map le_seq (log_entries l)"
    using log_index_Some(1)[OF Some] by (simp add: map_update drop_entry_def list_update_same_conv)
  then show ?thesis using Some by (simp add: log_drop_def Let_def)
qed (simp add: log_drop_def)

lemma drops_seqs: "map le_seq (log_entries (fold log_drop ss l)) = map le_seq (log_entries l)"
  by (induction ss arbitrary: l) (simp_all add: drop_seqs)

lemma drop_keys_seqs: "map le_seq (log_entries (fold drop_key ks l)) = map le_seq (log_entries l)"
  by (induction ks arbitrary: l) (simp_all add: drop_key_def Let_def drops_seqs)

lemma emit_frame_logs:
  fixes frame key :: string and supersedes :: "string list"
  assumes L: "logs l h" and pos: "0 \<le> max_bytes l" "0 \<le> max_entries l"
  defines "l' \<equiv> emit_frame frame supersedes key l"
  shows "logs l' (h @ [emitted (log_last l + 1) frame supersedes key]) \<and>
    log_last l' = log_last l + 1 \<and> log_epoch l' = log_epoch l \<and>
    max_bytes l' = max_bytes l \<and> max_entries l' = max_entries l \<and>
    log_bytes l' \<le> max_bytes l \<and> log_live l' \<le> max_entries l \<and>
    int (length (log_entries l')) \<le> 2 * max_entries l + 63"
proof -
  let ?n = "log_last l + 1"
  let ?x = "emitted ?n frame supersedes key"
  define l0 where "l0 = log_next l"
  define l1 where "l1 = fold drop_key supersedes l0"
  define l2 where "l2 = add_entry ?n frame key l1"
  define l3 where "l3 = log_trim (max_bytes l) (max_entries l) l2"
  have l': "l' = log_repack l3"
    by (simp add: l'_def emit_frame_def log_append_def l0_def l1_def l2_def l3_def Let_def log_next_def)
  have wf: "log_wf l" and lv: "live_entries l = filter (\<lambda>e. le_seq e > log_floor l) (survivors h)"
    and hs: "\<forall>x \<in> set h. le_seq (fst x) < ?n \<and> \<not> le_dropped (fst x)"
    using L by (auto simp: logs_def)
  have e0: "log_entries l0 = log_entries l" "log_last l0 = ?n" "log_floor l0 = log_floor l"
    "max_bytes l0 = max_bytes l" "max_entries l0 = max_entries l" "log_epoch l0 = log_epoch l"
    by (simp_all add: l0_def log_next_def)
  have wf0: "log_inv l0" using wf
    by (simp add: log_wf_def log_inv_def counts_ok_def index_ok_def live_entries_def l0_def log_next_def)
  note d = drop_keys_effect[OF wf0, of supersedes, folded l1_def]
  have lv0: "live_entries l0 = live_entries l" by (simp add: live_entries_def e0)
  have "set (map le_seq (log_entries l1)) = set (map le_seq (log_entries l))"
    by (simp only: l1_def drop_keys_seqs e0)
  then have sq: "le_seq ` set (log_entries l1) = le_seq ` set (log_entries l)" by simp
  have seqs1: "\<forall>e \<in> set (log_entries l1). le_seq e < ?n"
  proof
    fix e assume "e \<in> set (log_entries l1)"
    then have "le_seq e \<in> le_seq ` set (log_entries l)" using sq by blast
    then obtain e' where "e' \<in> set (log_entries l)" "le_seq e = le_seq e'" by blast
    then show "le_seq e < ?n" using wf by (auto simp: log_wf_def)
  qed
  have f1: "log_last l1 = ?n" "log_floor l1 = log_floor l" "max_bytes l1 = max_bytes l"
    "max_entries l1 = max_entries l" "log_epoch l1 = log_epoch l"
    using d by (simp_all add: same_frame_def e0)
  have lv1: "live_entries l1 = filter (\<lambda>e. le_key e = [] \<or> le_key e \<notin> set supersedes) (live_entries l)"
    using d lv0 by simp
  have fl: "log_floor l \<le> log_last l" using wf by (simp add: log_wf_def)
  have wf1: "log_wf l1"
  proof -
    have "\<forall>e \<in> set (live_entries l1). log_floor l < le_seq e"
      using wf unfolding lv1 log_wf_def by simp
    then show ?thesis using d seqs1 fl by (auto simp: log_wf_def f1)
  qed
  have ad: "log_wf l2" "same_frame l1 l2" "live_entries l2 = live_entries l1 @ [fst ?x]"
    using add_entry_effect[OF wf1 f1(1) seqs1, of frame key] fl
    by (simp_all add: l2_def f1 emitted_def)
  have f2: "log_last l2 = ?n" "log_floor l2 = log_floor l" "max_bytes l2 = max_bytes l"
    "max_entries l2 = max_entries l" "log_epoch l2 = log_epoch l"
    using ad(2) f1 by (simp_all add: same_frame_def)
  note tr = log_trim_effect[OF ad(1) pos, folded l3_def]
  have wf3: "log_wf l3" using tr by blast
  note rp = log_repack_effect[OF wf3, folded l']
  have fin: "log_last l' = ?n" "log_epoch l' = log_epoch l" "max_bytes l' = max_bytes l"
    "max_entries l' = max_entries l" "log_floor l' = log_floor l3" "log_floor l \<le> log_floor l'"
    using rp tr f2 by (simp_all add: same_frame_def)
  have sv: "survivors (h @ [?x]) =
      filter (\<lambda>e. le_key e = [] \<or> le_key e \<notin> set supersedes) (survivors h) @ [fst ?x]"
    using hs by (subst survivors_snoc) (auto simp: emitted_def)
  have "live_entries l' = filter (\<lambda>e. le_seq e > log_floor l') (live_entries l1 @ [fst ?x])"
    using rp tr ad(3) fin(5) by simp
  also have "\<dots> = filter (\<lambda>e. le_seq e > log_floor l') (survivors (h @ [?x]))"
    using fin(6) unfolding sv lv1 lv by (auto intro!: filter_cong)
  finally have live: "live_entries l' = filter (\<lambda>e. le_seq e > log_floor l') (survivors (h @ [?x]))" .
  have wf': "log_wf l'" using rp by blast
  have "sorted_wrt (<) (map (\<lambda>x. le_seq (fst x)) (h @ [?x]))"
    using L hs by (auto simp: logs_def sorted_wrt_append emitted_def)
  moreover have "\<forall>x \<in> set (h @ [?x]). le_seq (fst x) \<le> log_last l' \<and> \<not> le_dropped (fst x)"
    using hs fin(1) by (auto simp: emitted_def)
  ultimately have "logs l' (h @ [?x])" using live wf' unfolding logs_def by blast
  moreover have b: "log_bytes l' \<le> max_bytes l" "log_live l' \<le> max_entries l" using rp tr by simp_all
  moreover have "int (length (log_entries l')) \<le> 2 * max_entries l + 63"
  proof -
    have "log_dropped l' = int (length (log_entries l')) - log_live l'" "0 \<le> log_live l'"
      using wf' by (simp_all add: log_wf_def log_inv_def counts_ok_def)
    then show ?thesis using rp b(2) pos(2) by linarith
  qed
  ultimately show ?thesis using fin by simp
qed

section \<open>Properties\<close>

text \<open>An execution of one epoch's log: appends, and the hub's trims under its global cap.\<close>

inductive log_run :: "session_log \<Rightarrow> log_history \<Rightarrow> bool" where
  log_opened: "log_run (new_log epoch) []"
| log_emit: "log_run l h \<Longrightarrow>
    log_run (emit_frame frame supersedes key l) (h @ [emitted (log_last l + 1) frame supersedes key])"
| log_account: "log_run l h \<Longrightarrow> log_run (account_trim l) h"

lemma log_run_logs: "log_run l h \<Longrightarrow>
    logs l h \<and> max_bytes l = max_log_bytes \<and> max_entries l = max_log_entries \<and>
    log_bytes l \<le> max_log_bytes \<and> log_live l \<le> max_log_entries"
proof (induction rule: log_run.induct)
  case (log_opened epoch)
  have "logs (new_log epoch) []"
    by (simp add: logs_def log_wf_def log_inv_def counts_ok_def index_ok_def live_entries_def
        new_log_def survivors_def)
  then show ?case by (simp add: new_log_def max_log_bytes_def max_log_entries_def)
next
  case (log_emit l h frame supersedes key)
  then show ?case
    using emit_frame_logs[of l h frame supersedes key] by (simp add: max_log_bytes_def max_log_entries_def)
next
  case (log_account l h)
  then have wf: "log_wf l" by (simp add: logs_def)
  then have "0 \<le> log_bytes l" by (simp add: log_wf_def log_inv_def counts_ok_def)
  then have pos: "0 \<le> log_bytes l div 2" "0 \<le> max_entries l" "log_bytes l div 2 \<le> log_bytes l"
    using log_account by (simp_all add: max_log_entries_def)
  note tr = log_trim_effect[OF wf pos(1,2), folded account_trim_def]
  have "logs (account_trim l) h"
    using tr log_account.IH by (auto simp: logs_def intro!: filter_cong)
  then show ?case using tr log_account.IH pos(3) by simp
qed

lemma log_after_live:
  assumes "counts_ok l"
  shows "log_after c l = map (\<lambda>e. (le_seq e, le_frame e)) (filter (\<lambda>e. le_seq e > c) (live_entries l))"
proof -
  define i where "i = sort_search (\<lambda>i. le_seq (log_entries l ! i) > c) 0 (length (log_entries l))"
  have sp: "\<forall>e \<in> set (take i (log_entries l)). \<not> c < le_seq e" "\<forall>e \<in> set (drop i (log_entries l)). c < le_seq e"
    using sort_search_sorted[OF sorted_seqs[OF assms], of "\<lambda>a. a > c", folded i_def] by auto
  have "filter (\<lambda>e. le_seq e > c) (take i (log_entries l)) = []"
    "filter (\<lambda>e. le_seq e > c) (drop i (log_entries l)) = drop i (log_entries l)"
    using sp by (simp_all add: filter_id_conv filter_empty_conv)
  then have "filter (\<lambda>e. le_seq e > c) (log_entries l) = drop i (log_entries l)"
    by (metis append_Nil append_take_drop_id filter_append)
  then have "filter (\<lambda>e. \<not> le_dropped e) (filter (\<lambda>e. le_seq e > c) (log_entries l)) =
      filter (\<lambda>e. \<not> le_dropped e) (drop i (log_entries l))" by simp
  then have "filter (\<lambda>e. \<not> le_dropped e) (drop i (log_entries l)) =
      filter (\<lambda>e. le_seq e > c) (live_entries l)"
    by (simp add: live_entries_def conj_commute)
  then show ?thesis by (simp add: log_after_def Let_def i_def)
qed

lemma log_after_resumable:
  assumes L: "logs l h" and r: "log_resumable epoch c l"
  shows "log_after c l = map (\<lambda>e. (le_seq e, le_frame e)) (filter (\<lambda>e. le_seq e > c) (survivors h))"
proof -
  have "filter (\<lambda>e. le_seq e > c) (live_entries l) = filter (\<lambda>e. le_seq e > c) (survivors h)"
    using L r by (auto simp: logs_def log_resumable_def intro!: filter_cong)
  moreover have "counts_ok l" using L by (simp add: logs_def log_wf_def log_inv_def)
  ultimately show ?thesis by (simp add: log_after_live)
qed

text \<open>
  C20: a client that may resume at a cursor is replayed exactly the frames of this epoch that were
  appended after its cursor and that no later frame superseded, in order: nothing it needs was
  evicted, nothing superseded is sent, whatever the log dropped, trimmed or repacked.
\<close>

theorem resume_replays_everything_missed:
  assumes "log_run l h" "log_resumable epoch c l"
  shows "log_after c l = map (\<lambda>e. (le_seq e, le_frame e)) (filter (\<lambda>e. le_seq e > c) (survivors h))"
  using log_run_logs[OF assms(1)] log_after_resumable assms(2) by blast

text \<open>
  after every append the log is within its bounds (4 MiB of frames, 20,000 live frames, at
  most 40,063 slots with the dropped ones), its counters count what it holds and its key index
  lists exactly the live frames of each key.
\<close>

theorem log_stays_bounded:
  assumes "log_run l h"
  shows "0 \<le> log_bytes (emit_frame frame supersedes key l) \<and>
    log_bytes (emit_frame frame supersedes key l) \<le> 4194304 \<and>
    log_live (emit_frame frame supersedes key l) \<le> 20000 \<and>
    length (log_entries (emit_frame frame supersedes key l)) \<le> 40063 \<and>
    log_inv (emit_frame frame supersedes key l)"
proof -
  have L: "logs l h" "max_bytes l = 4194304" "max_entries l = 20000"
    using log_run_logs[OF assms] by (simp_all add: max_log_bytes_def max_log_entries_def)
  note e = emit_frame_logs[OF L(1), of frame supersedes key]
  then have "log_inv (emit_frame frame supersedes key l)" using L by (simp add: logs_def log_wf_def)
  moreover from this have "0 \<le> log_bytes (emit_frame frame supersedes key l)"
    by (simp add: log_inv_def counts_ok_def)
  ultimately show ?thesis using e L by simp
qed

lemma log_stays_bounded_witness:
  "log_bytes (emit_frame ''frame'' [] ''k'' (new_log ''e'')) \<le> 4194304"
  using log_stays_bounded[OF log_opened[of "''e''"], of "''frame''" "[]" "''k''"] by simp

lemma resume_replays_everything_witness:
  "\<exists>l. log_resumable ''e'' 1 l \<and> log_after 1 l = [(3, ''new'')]"
proof -
  let ?l = "emit_frame ''new'' [''k''] ''k'' (emit_frame ''old'' [] ''k'' (emit_frame ''first'' [] [] (new_log ''e'')))"
  let ?h = "(([] @ [emitted 1 ''first'' [] []]) @ [emitted 2 ''old'' [] ''k'']) @ [emitted 3 ''new'' [''k''] ''k'']"
  have last: "log_last (emit_frame ''first'' [] [] (new_log ''e'')) = 1"
    "log_last (emit_frame ''old'' [] ''k'' (emit_frame ''first'' [] [] (new_log ''e''))) = 2"
    by code_simp+
  have n: "log_last (new_log ''e'') + 1 = 1" "2 + 1 = (3::nat)" by (simp_all add: new_log_def)
  have run: "log_run ?l ?h"
    using log_emit[OF log_emit[OF log_emit[OF log_opened[of "''e''"], of "''first''" "[]" "[]"], of "''old''" "[]" "''k''"],
      of "''new''" "[''k'']" "''k''"]
    by (simp only: last one_add_one n)
  have res: "log_resumable ''e'' 1 ?l" by code_simp
  have "map (\<lambda>e. (le_seq e, le_frame e)) (filter (\<lambda>e. le_seq e > 1) (survivors ?h)) = [(3, ''new'')]"
    by (simp add: survivors_def superseded_def emitted_def)
  then have "log_after 1 ?l = [(3, ''new'')]"
    by (simp only: resume_replays_everything_missed[OF run res])
  with res show ?thesis by (intro exI[of _ ?l] conjI)
qed

end
