(* ===== verification/Conv_Stream.thy ===== *)
theory Conv_Stream
  imports Session_Log
begin

text \<open>
  One session's conversation stream (internal/convstream: session.go, status.go, overlay.go's
  prompts, settle.go, source.go's sink): the source's raw lifecycle becomes status levels and turn
  edges, open prompts hold the session waiting, every published event goes to the replay log and to
  each subscriber's bounded buffer, and a reconnect opens a new epoch. The unconfirmed content kept
  beside the stream is a component of its own: the calls made to it are recorded in order.
\<close>

section \<open>Events\<close>

datatype session_status = Busy | Limited | Waiting | Done | Error | Interrupted

record session_notice =
  sn_kind :: string
  sn_message :: string
  sn_retry_at :: int
  sn_attempt :: int

datatype 'a nullable = Absent | Null | Set 'a

record status_event =
  se_status :: session_status
  se_provisional :: bool
  se_notice :: "session_notice nullable"
  se_resets_at :: int

record prompt =
  pr_id :: string
  pr_kind :: string
  pr_session :: string
  pr_asked_at :: int
  pr_request :: string

record judge =
  ju_prompt :: string
  ju_phase :: string
  ju_starts_at :: int
  ju_reasoning :: string

record background =
  bg_count :: int
  bg_tasks :: "string list"

type_synonym queue_view = "string list"

datatype conv_event =
    StatusEv status_event
  | TurnStarted int
  | TurnEnded string int string
  | PromptAsked prompt
  | PromptJudge judge
  | PromptResolved string string
  | BackgroundChanged background
  | QueueChanged queue_view
  | HistoryCommitted int
  | HistoryRewritten string
  | PartDelta string string string int string
  | PartUpserted string string string bool
  | MessageUpserted string string
  | MessageRemoved string
  | PartRemoved string string
  | StreamControl string
  | OtherEvent string

fun turn_edge :: "conv_event \<Rightarrow> bool" where
  "turn_edge (TurnStarted _) \<longleftrightarrow> True"
| "turn_edge (TurnEnded _ _ _) \<longleftrightarrow> True"
| "turn_edge _ \<longleftrightarrow> False"

text \<open>What an event supersedes in the log, and the key it is superseded under.\<close>

fun compaction :: "conv_event \<Rightarrow> string list \<times> string" where
  "compaction (PartDelta m p f off txt) = ([], ''part:'' @ p)"
| "compaction (PartUpserted m p d final) =
     (if final then ([''part:'' @ p], ''part:'' @ p) else ([], ''part:'' @ p))"
| "compaction (StatusEv _) = ([''status''], ''status'')"
| "compaction (BackgroundChanged _) = ([''background''], ''background'')"
| "compaction (QueueChanged _) = ([''queue''], ''queue'')"
| "compaction (HistoryCommitted _) = ([''history''], ''history'')"
| "compaction (PromptAsked p) = ([], ''prompt:'' @ pr_id p)"
| "compaction (PromptJudge j) = ([], ''prompt:'' @ ju_prompt j)"
| "compaction (PromptResolved i _) = ([''prompt:'' @ i], [])"
| "compaction _ = ([], [])"

section \<open>State\<close>

record overlay =
  ov_prompts :: "prompt list"
  ov_judge :: "string \<rightharpoonup> judge"
  ov_resolved :: "string set"
  ov_background :: background
  ov_queue :: "queue_view option"
  ov_live :: bool

record status_state =
  st_base :: status_event
  st_emitted :: status_event
  st_turn :: bool
  st_pending_end :: bool
  st_gen :: nat

record settlement_read =
  sr_gen :: nat
  sr_epoch :: nat
  sr_replayed :: bool

text \<open>\<open>fm_logged\<close> tells the frames of the log from the connection-level ones.\<close>

record frame_msg =
  fm_seq :: nat
  fm_frame :: string
  fm_logged :: bool

text \<open>
  A subscription: its first frames, the frames still in its buffer and those its consumer took.
  A subscription is over once it has a reason.
\<close>

record subscription =
  sub_resumed :: bool
  sub_cursor :: nat
  sub_attached :: nat
  sub_replay :: "(nat \<times> string) list"
  sub_taken :: "frame_msg list"
  sub_buffer :: "frame_msg list"
  sub_reason :: "string option"

text \<open>
  The last five fields only observe: what was published in this epoch, and the turn, status and
  prompts its first hello stated.
\<close>

datatype ledger_call = LedgerApply conv_event | LedgerSettle

record stream_session =
  ss_detached :: bool
  ss_ever_connected :: bool
  ss_connected :: bool
  ss_conn :: nat
  ss_log :: session_log
  ss_ov :: overlay
  ss_st :: status_state
  ss_subs :: "subscription list"
  ss_reading :: bool
  ss_pending :: "settlement_read option"
  ss_ledger :: "ledger_call list"
  ss_published :: "conv_event list"
  ss_history :: log_history
  ss_seed_turn :: bool
  ss_seed_status :: status_event
  ss_seed_prompts :: "prompt list"

text \<open>
  The world of a call: the encoder of frames (JSON and the SSE framing; none for an event it
  cannot encode), the clock, whether the source can settle a lifecycle and the hub still starts
  workers, whether all logs together are past the hub's cap, and the name of a new epoch.
\<close>

record stream_world =
  sw_encode :: "string \<Rightarrow> nat \<Rightarrow> bool \<Rightarrow> bool \<Rightarrow> conv_event \<Rightarrow> string option"
  sw_now :: int
  sw_settler :: bool
  sw_workers :: bool
  sw_over_cap :: bool
  sw_epoch :: string

definition subscriber_buffer :: nat where "subscriber_buffer = 256"

definition provisional_done :: status_event where
  "provisional_done = \<lparr>se_status = Done, se_provisional = True, se_notice = Null, se_resets_at = 0\<rparr>"

definition new_status_state :: status_state where
  "new_status_state = \<lparr>st_base = provisional_done, st_emitted = provisional_done, st_turn = False,
     st_pending_end = False, st_gen = 0\<rparr>"

definition new_overlay :: overlay where
  "new_overlay = \<lparr>ov_prompts = [], ov_judge = (\<lambda>_. None), ov_resolved = {},
     ov_background = \<lparr>bg_count = 0, bg_tasks = []\<rparr>, ov_queue = None, ov_live = False\<rparr>"

definition new_session :: "string \<Rightarrow> stream_session" where
  "new_session epoch = \<lparr>ss_detached = False, ss_ever_connected = False, ss_connected = False, ss_conn = 0,
     ss_log = new_log epoch, ss_ov = new_overlay, ss_st = new_status_state, ss_subs = [],
     ss_reading = False, ss_pending = None, ss_ledger = [], ss_published = [], ss_history = [],
     ss_seed_turn = False, ss_seed_status = provisional_done, ss_seed_prompts = []\<rparr>"

section \<open>Publishing\<close>

definition kill_sub :: "string \<Rightarrow> subscription \<Rightarrow> subscription" where
  "kill_sub reason sub = (if sub_reason sub = None then sub\<lparr>sub_reason := Some reason\<rparr> else sub)"

text \<open>A subscriber whose buffer is full is reset rather than blocking the producer.\<close>

definition offer :: "frame_msg \<Rightarrow> subscription \<Rightarrow> subscription" where
  "offer m sub =
     (if sub_reason sub \<noteq> None then sub
      else if length (sub_buffer sub) < subscriber_buffer then sub\<lparr>sub_buffer := sub_buffer sub @ [m]\<rparr>
      else kill_sub ''slow-consumer'' sub)"

definition fanout :: "frame_msg \<Rightarrow> stream_session \<Rightarrow> stream_session" where
  "fanout m s = s\<lparr>ss_subs := map (offer m) (ss_subs s)\<rparr>"

definition account :: "stream_world \<Rightarrow> session_log \<Rightarrow> session_log" where
  "account w l = (if sw_over_cap w then account_trim l else l)"

definition publish :: "stream_world \<Rightarrow> conv_event \<Rightarrow> bool \<Rightarrow> stream_session \<Rightarrow> stream_session" where
  "publish w ev replayed s =
     (let l = log_next (ss_log s); seq = log_last l in
      case sw_encode w (log_epoch l) seq replayed True ev of
        None \<Rightarrow> s\<lparr>ss_log := l\<rparr>
      | Some frame \<Rightarrow>
          (case compaction ev of (supersedes, key) \<Rightarrow>
             fanout \<lparr>fm_seq = seq, fm_frame = frame, fm_logged = True\<rparr>
               (s\<lparr>ss_log := account w (fst (log_append seq frame supersedes key l)),
                  ss_published := ss_published s @ [ev],
                  ss_history := ss_history s @ [emitted seq frame supersedes key]\<rparr>)))"

definition control :: "stream_world \<Rightarrow> conv_event \<Rightarrow> stream_session \<Rightarrow> stream_session" where
  "control w ev s =
     (case sw_encode w (log_epoch (ss_log s)) (log_last (ss_log s)) False False ev of
        None \<Rightarrow> s
      | Some frame \<Rightarrow> fanout \<lparr>fm_seq = log_last (ss_log s), fm_frame = frame, fm_logged = False\<rparr> s)"

section \<open>Status levels and turn edges\<close>

definition absolute :: "status_event \<Rightarrow> status_event" where
  "absolute ev =
     (let ev1 = (if se_notice ev = Absent then ev\<lparr>se_notice := Null\<rparr> else ev)
      in if se_status ev1 \<noteq> Limited then ev1\<lparr>se_resets_at := 0\<rparr> else ev1)"

definition same_status :: "status_event \<Rightarrow> status_event \<Rightarrow> bool" where
  "same_status a b \<longleftrightarrow> se_status a = se_status b \<and> se_provisional a = se_provisional b \<and>
     se_resets_at a = se_resets_at b \<and> se_notice a = se_notice b"

definition effective :: "stream_session \<Rightarrow> status_event" where
  "effective s =
     (if ov_prompts (ss_ov s) \<noteq> []
      then \<lparr>se_status = Waiting, se_provisional = False, se_notice = Null, se_resets_at = 0\<rparr>
      else st_base (ss_st s))"

definition upd_st :: "(status_state \<Rightarrow> status_state) \<Rightarrow> stream_session \<Rightarrow> stream_session" where
  "upd_st f s = s\<lparr>ss_st := f (ss_st s)\<rparr>"

definition upd_ov :: "(overlay \<Rightarrow> overlay) \<Rightarrow> stream_session \<Rightarrow> stream_session" where
  "upd_ov f s = s\<lparr>ss_ov := f (ss_ov s)\<rparr>"

definition ledger :: "ledger_call \<Rightarrow> stream_session \<Rightarrow> stream_session" where
  "ledger c s = s\<lparr>ss_ledger := ss_ledger s @ [c]\<rparr>"

definition emit_status :: "stream_world \<Rightarrow> bool \<Rightarrow> stream_session \<Rightarrow> stream_session" where
  "emit_status w replayed s =
     (let e = effective s in
      if same_status e (st_emitted (ss_st s)) then s
      else publish w (StatusEv e) replayed (upd_st (\<lambda>st. st\<lparr>st_emitted := e\<rparr>) s))"

definition start_turn :: "stream_world \<Rightarrow> bool \<Rightarrow> stream_session \<Rightarrow> stream_session" where
  "start_turn w replayed s =
     (let s1 = (if st_pending_end (ss_st s)
                then publish w (TurnEnded ''done'' (sw_now w) []) replayed
                       (upd_st (\<lambda>st. st\<lparr>st_pending_end := False, st_gen := st_gen st + 1\<rparr>) s)
                else s)
      in if st_turn (ss_st s1) then s1
         else publish w (TurnStarted (sw_now w)) replayed (upd_st (\<lambda>st. st\<lparr>st_turn := True\<rparr>) s1))"

definition end_turn :: "stream_world \<Rightarrow> string \<Rightarrow> string \<Rightarrow> bool \<Rightarrow> stream_session \<Rightarrow> stream_session" where
  "end_turn w outcome latest replayed s =
     (if \<not> st_turn (ss_st s) \<and> \<not> st_pending_end (ss_st s) then s
      else publish w (TurnEnded outcome (sw_now w) latest) replayed
             (upd_st (\<lambda>st. st\<lparr>st_turn := False, st_pending_end := False, st_gen := st_gen st + 1\<rparr>) s))"

text \<open>A settled lifecycle: its status and latest message, or none for a failed read.\<close>

type_synonym lifecycle = "(session_status \<times> string) option"

definition settled_outcome :: "lifecycle \<Rightarrow> string \<times> session_status option" where
  "settled_outcome lc =
     (case lc of
        None \<Rightarrow> (''done'', None)
      | Some (status, _) \<Rightarrow>
          (case status of
             Error \<Rightarrow> (''error'', Some Error)
           | Interrupted \<Rightarrow> (''interrupted'', Some Interrupted)
           | Waiting \<Rightarrow> (''done'', Some Waiting)
           | Done \<Rightarrow> (''done'', Some Done)
           | _ \<Rightarrow> (''done'', None)))"

definition settled :: "stream_world \<Rightarrow> nat \<Rightarrow> lifecycle \<Rightarrow> bool \<Rightarrow> stream_session \<Rightarrow> stream_session" where
  "settled w gen lc replayed s =
     (if ss_detached s \<or> gen \<noteq> st_gen (ss_st s) then s
      else case settled_outcome lc of (outcome, status) \<Rightarrow>
        let s1 = (if st_pending_end (ss_st s)
                  then publish w (TurnEnded outcome (sw_now w) (case lc of None \<Rightarrow> [] | Some (_, m) \<Rightarrow> m)) replayed
                         (upd_st (\<lambda>st. st\<lparr>st_pending_end := False\<rparr>) s)
                  else s);
            s2 = (if status \<noteq> None \<and> status \<noteq> Some Waiting then ledger LedgerSettle s1 else s1)
        in case status of
             None \<Rightarrow> s2
           | Some stat \<Rightarrow>
               if se_provisional (st_base (ss_st s2))
               then emit_status w replayed
                      (upd_st (\<lambda>st. st\<lparr>st_base := \<lparr>se_status = stat, se_provisional = False,
                                                se_notice = Null, se_resets_at = 0\<rparr>\<rparr>) s2)
               else s2)"

definition schedule_settle :: "stream_world \<Rightarrow> nat \<Rightarrow> bool \<Rightarrow> stream_session \<Rightarrow> stream_session" where
  "schedule_settle w gen replayed s =
     (if \<not> sw_settler w then settled w gen None replayed s
      else if ss_detached s then s
      else let s1 = s\<lparr>ss_pending := Some \<lparr>sr_gen = gen, sr_epoch = ss_conn s, sr_replayed = replayed\<rparr>\<rparr> in
           if ss_reading s1 then s1
           else if sw_workers w then s1\<lparr>ss_reading := True\<rparr>
           else settled w gen None replayed (s1\<lparr>ss_reading := False, ss_pending := None\<rparr>))"

definition idle :: "stream_world \<Rightarrow> bool \<Rightarrow> stream_session \<Rightarrow> stream_session" where
  "idle w replayed s =
     (let s1 = upd_st (\<lambda>st. let st1 = st\<lparr>st_gen := st_gen st + 1\<rparr>;
                                st2 = (if st_turn st1 then st1\<lparr>st_turn := False, st_pending_end := True\<rparr> else st1)
                            in st2\<lparr>st_base := provisional_done\<rparr>) s;
          s2 = emit_status w replayed (ledger LedgerSettle s1)
      in schedule_settle w (st_gen (ss_st s2)) replayed s2)"

definition status_name :: "session_status \<Rightarrow> string" where
  "status_name st = (case st of Busy \<Rightarrow> ''busy'' | Limited \<Rightarrow> ''limited'' | Waiting \<Rightarrow> ''waiting''
     | Done \<Rightarrow> ''done'' | Error \<Rightarrow> ''error'' | Interrupted \<Rightarrow> ''interrupted'')"

definition on_status :: "stream_world \<Rightarrow> status_event \<Rightarrow> bool \<Rightarrow> stream_session \<Rightarrow> stream_session" where
  "on_status w ev replayed s =
     (if se_provisional ev \<and> se_status ev = Done then idle w replayed s
      else let s1 = (if se_status ev = Busy then start_turn w replayed s
                     else if se_status ev \<in> {Done, Error, Interrupted}
                     then ledger LedgerSettle (end_turn w (status_name (se_status ev)) [] replayed s)
                     else s)
           in emit_status w replayed (upd_st (\<lambda>st. st\<lparr>st_base := absolute ev\<rparr>) s1))"

text \<open>
  The read finished for \<open>request\<close>; a newer request of the same connection is read next, any other
  ends the reading. The result is the request the worker goes on with.
\<close>

definition finish_settlement ::
  "stream_world \<Rightarrow> settlement_read \<Rightarrow> bool \<Rightarrow> lifecycle \<Rightarrow> stream_session
     \<Rightarrow> settlement_read option \<times> stream_session"
where
  "finish_settlement w request cancelled lc s =
     (let live = (\<not> ss_detached s \<and> \<not> cancelled) in
      case ss_pending s of
        Some nxt \<Rightarrow>
          if live \<and> nxt \<noteq> request \<and> sr_gen nxt = st_gen (ss_st s) \<and> sr_epoch nxt = ss_conn s
          then (Some nxt, s)
          else (None, let s1 = s\<lparr>ss_reading := False, ss_pending := None\<rparr> in
                      if live \<and> sr_epoch request = ss_conn s
                      then settled w (sr_gen request) lc (sr_replayed request) s1 else s1)
      | None \<Rightarrow> (None, let s1 = s\<lparr>ss_reading := False, ss_pending := None\<rparr> in
                      if live \<and> sr_epoch request = ss_conn s
                      then settled w (sr_gen request) lc (sr_replayed request) s1 else s1))"

section \<open>Prompts\<close>

text \<open>Asking opens a prompt, a repeat replaces it in place; resolved prompts stay resolved.\<close>

fun replace_prompt :: "prompt \<Rightarrow> prompt list \<Rightarrow> prompt list option" where
  "replace_prompt p [] = None"
| "replace_prompt p (q # qs) =
     (if pr_id q = pr_id p then Some (p # qs) else map_option ((#) q) (replace_prompt p qs))"

definition ov_ask :: "prompt \<Rightarrow> overlay \<Rightarrow> bool \<times> overlay" where
  "ov_ask p ov =
     (if pr_id p \<in> ov_resolved ov then (False, ov)
      else case replace_prompt p (ov_prompts ov) of
          Some ps \<Rightarrow> (True, ov\<lparr>ov_prompts := ps\<rparr>)
        | None \<Rightarrow> (True, ov\<lparr>ov_prompts := ov_prompts ov @ [p]\<rparr>))"

fun remove_prompt :: "string \<Rightarrow> prompt list \<Rightarrow> prompt list" where
  "remove_prompt i [] = []"
| "remove_prompt i (q # qs) = (if pr_id q = i then qs else q # remove_prompt i qs)"

definition ov_resolve :: "string \<Rightarrow> overlay \<Rightarrow> bool \<times> overlay" where
  "ov_resolve i ov =
     (if i \<in> ov_resolved ov then (False, ov)
      else (True, ov\<lparr>ov_resolved := insert i (ov_resolved ov), ov_judge := (ov_judge ov)(i := None),
                     ov_prompts := remove_prompt i (ov_prompts ov)\<rparr>))"

definition same_background :: "background \<Rightarrow> background \<Rightarrow> bool" where
  "same_background a b \<longleftrightarrow> bg_count a = bg_count b \<and> bg_tasks a = bg_tasks b"

section \<open>Handling an event\<close>

definition handle :: "stream_world \<Rightarrow> conv_event \<Rightarrow> bool \<Rightarrow> stream_session \<Rightarrow> stream_session" where
  "handle w ev replayed s =
     (if ss_detached s then s
      else case ev of
          StatusEv st \<Rightarrow> on_status w st replayed s
        | StreamControl _ \<Rightarrow> s
        | PartDelta _ _ _ _ _ \<Rightarrow> publish w ev replayed (ledger (LedgerApply ev) s)
        | PartUpserted _ _ _ _ \<Rightarrow> publish w ev replayed (ledger (LedgerApply ev) s)
        | MessageUpserted _ _ \<Rightarrow> publish w ev replayed (ledger (LedgerApply ev) s)
        | MessageRemoved _ \<Rightarrow> publish w ev replayed (ledger (LedgerApply ev) s)
        | PartRemoved _ _ \<Rightarrow> publish w ev replayed (ledger (LedgerApply ev) s)
        | HistoryRewritten _ \<Rightarrow> publish w ev replayed (ledger (LedgerApply ev) s)
        | PromptAsked p \<Rightarrow>
            (case ov_ask p (ss_ov s) of (new, ov) \<Rightarrow>
               if \<not> new then s
               else emit_status w replayed (publish w ev replayed (s\<lparr>ss_ov := ov\<rparr>)))
        | PromptResolved i _ \<Rightarrow>
            (case ov_resolve i (ss_ov s) of (new, ov) \<Rightarrow>
               if \<not> new then s
               else emit_status w replayed (publish w ev replayed (s\<lparr>ss_ov := ov\<rparr>)))
        | PromptJudge j \<Rightarrow>
            if ju_prompt j \<in> ov_resolved (ss_ov s) then s
            else publish w ev replayed (upd_ov (\<lambda>ov. ov\<lparr>ov_judge := (ov_judge ov)(ju_prompt j \<mapsto> j)\<rparr>) s)
        | BackgroundChanged b \<Rightarrow>
            if same_background b (ov_background (ss_ov s)) then s
            else publish w ev replayed (upd_ov (\<lambda>ov. ov\<lparr>ov_background := b\<rparr>) s)
        | QueueChanged q \<Rightarrow> publish w ev replayed (upd_ov (\<lambda>ov. ov\<lparr>ov_queue := Some q\<rparr>) s)
        | _ \<Rightarrow> publish w ev replayed s)"

section \<open>Subscribing and connecting\<close>

text \<open>A cursor already parsed into (epoch, seq); none for a cold connect or one that does not parse.\<close>

definition attach :: "(string \<times> nat) option \<Rightarrow> stream_session \<Rightarrow> stream_session" where
  "attach cursor s =
     (let resumable = (case cursor of None \<Rightarrow> False | Some (e, at) \<Rightarrow> log_resumable e at (ss_log s));
          at = (if resumable then snd (the cursor) else log_last (ss_log s));
          sub = \<lparr>sub_resumed = resumable, sub_cursor = at, sub_attached = log_last (ss_log s),
                 sub_replay = (if resumable then log_after at (ss_log s) else []),
                 sub_taken = [], sub_buffer = [], sub_reason = None\<rparr>
      in s\<lparr>ss_subs := ss_subs s @ [sub]\<rparr>)"

record seed =
  sd_status :: "status_event option"
  sd_prompts :: "prompt list"
  sd_background :: "background option"

definition seed_status :: "status_event \<Rightarrow> status_state \<Rightarrow> status_state" where
  "seed_status ev st = st\<lparr>st_base := absolute ev, st_turn := (se_status ev = Busy)\<rparr>"

text \<open>A connection that is not the first opens a new epoch and resets the subscribers.\<close>

definition restart :: "stream_world \<Rightarrow> stream_session \<Rightarrow> stream_session" where
  "restart w s =
     (if \<not> ss_ever_connected s then s
      else s\<lparr>ss_log := new_log (sw_epoch w),
             ss_ov := new_overlay\<lparr>ov_background := ov_background (ss_ov s), ov_queue := ov_queue (ss_ov s)\<rparr>,
             ss_subs := map (kill_sub ''source-restarted'') (ss_subs s), ss_history := []\<rparr>)"

definition connect :: "stream_world \<Rightarrow> seed \<Rightarrow> (string \<times> nat) option list \<Rightarrow> stream_session \<Rightarrow> stream_session" where
  "connect w sd waiters s =
     (let s1 = s\<lparr>ss_st := new_status_state\<lparr>st_gen := st_gen (ss_st s) + 1\<rparr>\<rparr>;
          s2 = (restart w s1)\<lparr>ss_ever_connected := True, ss_connected := True, ss_published := []\<rparr>;
          s3 = upd_ov (\<lambda>ov. ov\<lparr>ov_live := True\<rparr>) s2;
          s4 = upd_ov (\<lambda>ov. fold (\<lambda>p ov. snd (ov_ask p ov)) (sd_prompts sd) ov) s3;
          s5 = (case sd_background sd of None \<Rightarrow> s4 | Some b \<Rightarrow> upd_ov (\<lambda>ov. ov\<lparr>ov_background := b\<rparr>) s4);
          s6 = (case sd_status sd of
                  Some ev \<Rightarrow>
                    let t = upd_st (seed_status ev) s5
                    in if \<not> st_turn (ss_st t) then ledger LedgerSettle t else t
                | None \<Rightarrow>
                    let t = upd_st (\<lambda>st. st\<lparr>st_gen := st_gen st + 1\<rparr>) s5
                    in schedule_settle w (st_gen (ss_st t)) False t);
          s7 = upd_st (\<lambda>st. st\<lparr>st_emitted := effective s6\<rparr>) s6;
          s8 = s7\<lparr>ss_seed_turn := st_turn (ss_st s7), ss_seed_status := effective s7,
                  ss_seed_prompts := ov_prompts (ss_ov s7)\<rparr>
      in fold attach waiters s8)"

section \<open>The sink\<close>

text \<open>
  A connection's sink knows the connection's number; it is stale once it closed, another
  connection began or the session detached. \<open>routes\<close> tells the sessions whose prompts belong here.
\<close>

definition new_sink :: "stream_session \<Rightarrow> nat \<times> stream_session" where
  "new_sink s = (ss_conn s + 1, s\<lparr>ss_conn := ss_conn s + 1\<rparr>)"

definition stale :: "nat \<Rightarrow> bool \<Rightarrow> stream_session \<Rightarrow> bool" where
  "stale conn closed s \<longleftrightarrow> closed \<or> conn \<noteq> ss_conn s \<or> ss_detached s"

definition sink_connected ::
  "stream_world \<Rightarrow> (string \<Rightarrow> bool) \<Rightarrow> nat \<Rightarrow> bool \<Rightarrow> bool \<Rightarrow> seed \<Rightarrow> (string \<times> nat) option list
     \<Rightarrow> stream_session \<Rightarrow> bool \<times> stream_session"
where
  "sink_connected w routes conn closed connected sd waiters s =
     (if stale conn closed s \<or> connected then (connected, s)
      else (True, connect w (sd\<lparr>sd_prompts := filter (\<lambda>p. routes (pr_session p)) (sd_prompts sd)\<rparr>) waiters s))"

definition sink_emit ::
  "stream_world \<Rightarrow> (string \<Rightarrow> bool) \<Rightarrow> nat \<Rightarrow> bool \<Rightarrow> conv_event \<Rightarrow> bool \<Rightarrow> stream_session \<Rightarrow> stream_session"
where
  "sink_emit w routes conn closed ev replayed s =
     (if (case ev of PromptAsked p \<Rightarrow> \<not> routes (pr_session p) | _ \<Rightarrow> False) then s
      else if stale conn closed s then s
      else handle w ev replayed s)"

text \<open>The end of a connection that had connected: viewers are told, and the hub reconnects.\<close>

definition connection_lost :: "stream_world \<Rightarrow> string option \<Rightarrow> stream_session \<Rightarrow> stream_session" where
  "connection_lost w err s =
     (let s1 = upd_ov (\<lambda>ov. ov\<lparr>ov_live := False\<rparr>) (s\<lparr>ss_connected := False\<rparr>) in
      case err of None \<Rightarrow> s1 | Some e \<Rightarrow> control w (StreamControl e) s1)"

definition detach :: "stream_world \<Rightarrow> stream_session \<Rightarrow> stream_session" where
  "detach w s = ledger LedgerSettle (s\<lparr>ss_log := new_log (sw_epoch w), ss_detached := True\<rparr>)"

text \<open>The consumer of the \<open>i\<close>th subscription takes its next frame; or closes it.\<close>

definition take_frame :: "nat \<Rightarrow> stream_session \<Rightarrow> stream_session" where
  "take_frame i s =
     (if i < length (ss_subs s)
      then let sub = ss_subs s ! i in
           case sub_buffer sub of
             [] \<Rightarrow> s
           | m # ms \<Rightarrow> s\<lparr>ss_subs := (ss_subs s)[i := sub\<lparr>sub_taken := sub_taken sub @ [m], sub_buffer := ms\<rparr>]\<rparr>
      else s)"

definition close_sub :: "nat \<Rightarrow> stream_session \<Rightarrow> stream_session" where
  "close_sub i s =
     (if i < length (ss_subs s) then s\<lparr>ss_subs := (ss_subs s)[i := kill_sub [] (ss_subs s ! i)]\<rparr> else s)"

section \<open>What publishing changes\<close>

definition encodes :: "stream_world \<Rightarrow> bool" where
  "encodes w \<longleftrightarrow> (\<forall>e n r i ev. sw_encode w e n r i ev \<noteq> None)"

named_theorems stream_simps

lemma publish_fields [stream_simps]:
  "ss_st (publish w ev r s) = ss_st s" "ss_ov (publish w ev r s) = ss_ov s"
  "ss_detached (publish w ev r s) = ss_detached s" "ss_conn (publish w ev r s) = ss_conn s"
  "ss_ever_connected (publish w ev r s) = ss_ever_connected s"
  "ss_seed_turn (publish w ev r s) = ss_seed_turn s" "ss_seed_status (publish w ev r s) = ss_seed_status s"
  "ss_seed_prompts (publish w ev r s) = ss_seed_prompts s" "ss_ledger (publish w ev r s) = ss_ledger s"
  "ss_reading (publish w ev r s) = ss_reading s" "ss_pending (publish w ev r s) = ss_pending s"
  by (simp_all add: publish_def Let_def fanout_def case_prod_beta split: option.split)

lemma publish_published [stream_simps]:
  "encodes w \<Longrightarrow> ss_published (publish w ev r s) = ss_published s @ [ev]"
  by (auto simp: publish_def Let_def fanout_def case_prod_beta encodes_def split: option.split)

lemma upd_fields [stream_simps]:
  "ss_st (upd_st f s) = f (ss_st s)" "ss_ov (upd_st f s) = ss_ov s"
  "ss_published (upd_st f s) = ss_published s" "ss_detached (upd_st f s) = ss_detached s"
  "ss_conn (upd_st f s) = ss_conn s" "ss_seed_turn (upd_st f s) = ss_seed_turn s"
  "ss_seed_status (upd_st f s) = ss_seed_status s" "ss_seed_prompts (upd_st f s) = ss_seed_prompts s"
  "ss_st (upd_ov g s) = ss_st s" "ss_ov (upd_ov g s) = g (ss_ov s)"
  "ss_published (upd_ov g s) = ss_published s" "ss_detached (upd_ov g s) = ss_detached s"
  "ss_conn (upd_ov g s) = ss_conn s" "ss_seed_turn (upd_ov g s) = ss_seed_turn s"
  "ss_seed_status (upd_ov g s) = ss_seed_status s" "ss_seed_prompts (upd_ov g s) = ss_seed_prompts s"
  "ss_st (ledger c s) = ss_st s" "ss_ov (ledger c s) = ss_ov s"
  "ss_published (ledger c s) = ss_published s" "ss_detached (ledger c s) = ss_detached s"
  "ss_conn (ledger c s) = ss_conn s" "ss_seed_turn (ledger c s) = ss_seed_turn s"
  "ss_seed_status (ledger c s) = ss_seed_status s" "ss_seed_prompts (ledger c s) = ss_seed_prompts s"
  by (simp_all add: upd_st_def upd_ov_def ledger_def)

section \<open>What a viewer derives from the stream\<close>

text \<open>
  A viewer starts from the status and the open prompts of its hello and applies the published events
  in order. The hello does not carry the turn: \<open>viewer_turn\<close> starts from the turn the session was
  in when its epoch began, which only the session knows; \<open>seen_turn\<close> is what a viewer
  can tell from the events alone. An edge that does not fit is None and Confused.
\<close>

fun turn_after :: "conv_event \<Rightarrow> bool option \<Rightarrow> bool option" where
  "turn_after (TurnStarted _) (Some False) = Some True"
| "turn_after (TurnStarted _) _ = None"
| "turn_after (TurnEnded _ _ _) (Some True) = Some False"
| "turn_after (TurnEnded _ _ _) _ = None"
| "turn_after _ t = t"

fun status_after :: "conv_event \<Rightarrow> status_event \<Rightarrow> status_event" where
  "status_after (StatusEv e) _ = e"
| "status_after _ e = e"

fun prompts_after :: "conv_event \<Rightarrow> prompt list \<Rightarrow> prompt list" where
  "prompts_after (PromptAsked p) ps = (case replace_prompt p ps of Some qs \<Rightarrow> qs | None \<Rightarrow> ps @ [p])"
| "prompts_after (PromptResolved i _) ps = remove_prompt i ps"
| "prompts_after _ ps = ps"

definition viewer_turn :: "stream_session \<Rightarrow> bool option" where
  "viewer_turn s = fold turn_after (ss_published s) (Some (ss_seed_turn s))"

definition viewer_status :: "stream_session \<Rightarrow> status_event" where
  "viewer_status s = fold status_after (ss_published s) (ss_seed_status s)"

definition viewer_prompts :: "stream_session \<Rightarrow> prompt list" where
  "viewer_prompts s = fold prompts_after (ss_published s) (ss_seed_prompts s)"

lemma viewer_publish [stream_simps]:
  assumes "encodes w"
  shows "viewer_turn (publish w ev r s) = turn_after ev (viewer_turn s)"
    "viewer_status (publish w ev r s) = status_after ev (viewer_status s)"
    "viewer_prompts (publish w ev r s) = prompts_after ev (viewer_prompts s)"
  by (simp_all add: viewer_turn_def viewer_status_def viewer_prompts_def stream_simps assms)

lemma viewer_upd [stream_simps]:
  "viewer_turn (upd_st f s) = viewer_turn s" "viewer_status (upd_st f s) = viewer_status s"
  "viewer_prompts (upd_st f s) = viewer_prompts s"
  "viewer_turn (upd_ov g s) = viewer_turn s" "viewer_status (upd_ov g s) = viewer_status s"
  "viewer_prompts (upd_ov g s) = viewer_prompts s"
  "viewer_turn (ledger c s) = viewer_turn s" "viewer_status (ledger c s) = viewer_status s"
  "viewer_prompts (ledger c s) = viewer_prompts s"
  by (simp_all add: viewer_turn_def viewer_status_def viewer_prompts_def stream_simps)

definition turn_ok :: "stream_session \<Rightarrow> bool" where
  "turn_ok s \<longleftrightarrow> viewer_turn s = Some (st_turn (ss_st s) \<or> st_pending_end (ss_st s)) \<and>
     \<not> (st_turn (ss_st s) \<and> st_pending_end (ss_st s))"

definition emitted_ok :: "stream_session \<Rightarrow> bool" where
  "emitted_ok s \<longleftrightarrow> viewer_status s = st_emitted (ss_st s)"

definition status_ok :: "stream_session \<Rightarrow> bool" where
  "status_ok s \<longleftrightarrow> emitted_ok s \<and> st_emitted (ss_st s) = effective s"

definition prompts_ok :: "stream_session \<Rightarrow> bool" where
  "prompts_ok s \<longleftrightarrow> viewer_prompts s = ov_prompts (ss_ov s) \<and>
     distinct (map pr_id (ov_prompts (ss_ov s))) \<and>
     pr_id ` set (ov_prompts (ss_ov s)) \<inter> ov_resolved (ss_ov s) = {} \<and>
     dom (ov_judge (ss_ov s)) \<inter> ov_resolved (ss_ov s) = {}"

lemma same_status_eq: "same_status a b \<longleftrightarrow> a = b"
  by (cases a; cases b) (auto simp: same_status_def)

lemma turn_after_other: "\<not> turn_edge ev \<Longrightarrow> turn_after ev t = t"
  by (cases ev) auto

lemma status_after_other: "(\<And>e. ev \<noteq> StatusEv e) \<Longrightarrow> status_after ev e = e"
  by (cases ev) auto

lemma emit_status_ok:
  assumes w: "encodes w" and s: "emitted_ok s"
  shows "status_ok (emit_status w r s)" "turn_ok (emit_status w r s) = turn_ok s"
    "prompts_ok (emit_status w r s) = prompts_ok s"
    "ss_detached (emit_status w r s) = ss_detached s" "ss_conn (emit_status w r s) = ss_conn s"
    "st_gen (ss_st (emit_status w r s)) = st_gen (ss_st s)"
proof -
  have "status_ok (emit_status w r s) \<and> turn_ok (emit_status w r s) = turn_ok s \<and>
    prompts_ok (emit_status w r s) = prompts_ok s \<and> ss_detached (emit_status w r s) = ss_detached s \<and>
    ss_conn (emit_status w r s) = ss_conn s \<and> st_gen (ss_st (emit_status w r s)) = st_gen (ss_st s)"
  proof (cases "effective s = st_emitted (ss_st s)")
    case True
    then show ?thesis using s by (simp add: emit_status_def same_status_eq status_ok_def)
  next
    case False
    then show ?thesis using s w
      by (simp add: emit_status_def same_status_eq status_ok_def emitted_ok_def turn_ok_def
          prompts_ok_def stream_simps effective_def Let_def)
  qed
  then show "status_ok (emit_status w r s)" "turn_ok (emit_status w r s) = turn_ok s"
    "prompts_ok (emit_status w r s) = prompts_ok s"
    "ss_detached (emit_status w r s) = ss_detached s" "ss_conn (emit_status w r s) = ss_conn s"
    "st_gen (ss_st (emit_status w r s)) = st_gen (ss_st s)" by auto
qed

lemma start_turn_ok:
  assumes w: "encodes w" and s: "turn_ok s" "emitted_ok s" "prompts_ok s"
  shows "turn_ok (start_turn w r s) \<and> emitted_ok (start_turn w r s) \<and> prompts_ok (start_turn w r s) \<and>
    ss_detached (start_turn w r s) = ss_detached s"
  using s
  by (cases "st_pending_end (ss_st s)"; cases "st_turn (ss_st s)")
    (simp_all add: start_turn_def turn_ok_def emitted_ok_def prompts_ok_def stream_simps w Let_def)

lemma end_turn_ok:
  assumes w: "encodes w" and s: "turn_ok s" "emitted_ok s" "prompts_ok s"
  shows "turn_ok (end_turn w out m r s) \<and> emitted_ok (end_turn w out m r s) \<and> prompts_ok (end_turn w out m r s) \<and>
    ss_detached (end_turn w out m r s) = ss_detached s"
  using s
  by (cases "st_pending_end (ss_st s)"; cases "st_turn (ss_st s)")
    (simp_all add: end_turn_def turn_ok_def emitted_ok_def prompts_ok_def stream_simps w)

definition stream_ok :: "stream_session \<Rightarrow> bool" where
  "stream_ok s \<longleftrightarrow> turn_ok s \<and> status_ok s \<and> prompts_ok s"

lemma settled_ok:
  assumes w: "encodes w" and s: "stream_ok s"
  shows "stream_ok (settled w gen lc r s)"
proof -
  obtain out stat where o: "settled_outcome lc = (out, stat)" by fastforce
  define s1 where "s1 = (if st_pending_end (ss_st s)
      then publish w (TurnEnded out (sw_now w) (case lc of None \<Rightarrow> [] | Some (_, m) \<Rightarrow> m)) r
             (upd_st (\<lambda>st. st\<lparr>st_pending_end := False\<rparr>) s) else s)"
  have 1: "stream_ok s1" using s w
    by (cases "st_pending_end (ss_st s)")
      (simp_all add: s1_def stream_ok_def turn_ok_def status_ok_def emitted_ok_def prompts_ok_def
        effective_def stream_simps)
  define s2 where "s2 = (if stat \<noteq> None \<and> stat \<noteq> Some Waiting then ledger LedgerSettle s1 else s1)"
  have 2: "stream_ok s2" using 1
    by (simp add: s2_def stream_ok_def turn_ok_def status_ok_def emitted_ok_def prompts_ok_def
        effective_def stream_simps)
  have 3: "stream_ok (emit_status w r (upd_st (\<lambda>st. st\<lparr>st_base := b\<rparr>) s2))" for b
  proof -
    let ?t = "upd_st (\<lambda>st. st\<lparr>st_base := b\<rparr>) s2"
    have "emitted_ok ?t" "turn_ok ?t" "prompts_ok ?t" using 2
      by (simp_all add: stream_ok_def turn_ok_def status_ok_def emitted_ok_def prompts_ok_def stream_simps)
    then show ?thesis using emit_status_ok[OF w, of ?t r] by (simp add: stream_ok_def)
  qed
  show ?thesis
    unfolding settled_def o prod.case Let_def s1_def[symmetric] s2_def[symmetric]
    using s 2 3 by (auto split: option.split)
qed

lemma settlement_fields [stream_simps]:
  "stream_ok (s\<lparr>ss_reading := b, ss_pending := p\<rparr>) = stream_ok s"
  "stream_ok (s\<lparr>ss_pending := p\<rparr>) = stream_ok s" "stream_ok (s\<lparr>ss_reading := b\<rparr>) = stream_ok s"
  by (simp_all add: stream_ok_def turn_ok_def status_ok_def emitted_ok_def prompts_ok_def effective_def
      viewer_turn_def viewer_status_def viewer_prompts_def)

lemma schedule_settle_ok: "encodes w \<Longrightarrow> stream_ok s \<Longrightarrow> stream_ok (schedule_settle w g r s)"
  by (simp add: schedule_settle_def Let_def settled_ok stream_simps)

lemma idle_ok:
  assumes w: "encodes w" and s: "stream_ok s"
  shows "stream_ok (idle w r s)"
proof -
  define s1 where "s1 = ledger LedgerSettle (upd_st (\<lambda>st. let st1 = st\<lparr>st_gen := st_gen st + 1\<rparr>;
      st2 = (if st_turn st1 then st1\<lparr>st_turn := False, st_pending_end := True\<rparr> else st1)
    in st2\<lparr>st_base := provisional_done\<rparr>) s)"
  have "turn_ok s1" "emitted_ok s1" "prompts_ok s1" using s
    by (auto simp: s1_def stream_ok_def turn_ok_def status_ok_def emitted_ok_def prompts_ok_def
        stream_simps Let_def)
  then have "stream_ok (emit_status w r s1)"
    using emit_status_ok[OF w, of s1 r] by (simp add: stream_ok_def)
  moreover have "idle w r s =
      schedule_settle w (st_gen (ss_st (emit_status w r s1))) r (emit_status w r s1)"
    by (simp only: idle_def s1_def Let_def)
  ultimately show ?thesis by (simp only: schedule_settle_ok[OF w])
qed

lemma on_status_ok:
  assumes w: "encodes w" and s: "stream_ok s"
  shows "stream_ok (on_status w ev r s)"
proof (cases "se_provisional ev \<and> se_status ev = Done")
  case True
  then show ?thesis using idle_ok[OF assms] by (simp add: on_status_def)
next
  case False
  have s3: "turn_ok s" "emitted_ok s" "prompts_ok s" using s by (simp_all add: stream_ok_def status_ok_def)
  define s1 where "s1 = (if se_status ev = Busy then start_turn w r s
      else if se_status ev \<in> {Done, Error, Interrupted}
      then ledger LedgerSettle (end_turn w (status_name (se_status ev)) [] r s) else s)"
  have "turn_ok s1 \<and> emitted_ok s1 \<and> prompts_ok s1"
    using start_turn_ok[OF w s3, of r] end_turn_ok[OF w s3, of "status_name (se_status ev)" "[]" r] s3
    by (auto simp: s1_def turn_ok_def emitted_ok_def prompts_ok_def stream_simps)
  then have "turn_ok (upd_st (\<lambda>st. st\<lparr>st_base := absolute ev\<rparr>) s1)"
    "emitted_ok (upd_st (\<lambda>st. st\<lparr>st_base := absolute ev\<rparr>) s1)"
    "prompts_ok (upd_st (\<lambda>st. st\<lparr>st_base := absolute ev\<rparr>) s1)"
    by (simp_all add: turn_ok_def emitted_ok_def prompts_ok_def stream_simps)
  then show ?thesis
    using emit_status_ok[OF w] False
    unfolding on_status_def Let_def s1_def[symmetric] stream_ok_def by auto
qed

lemma replace_prompt_ids:
  "replace_prompt p ps = Some qs \<Longrightarrow> map pr_id qs = map pr_id ps"
  by (induction ps arbitrary: qs) (auto split: if_splits)

lemma replace_prompt_None: "replace_prompt p ps = None \<longleftrightarrow> pr_id p \<notin> pr_id ` set ps"
  by (induction ps) auto

lemma remove_prompt_ids: "map pr_id (remove_prompt i ps) = remove1 i (map pr_id ps)"
  by (induction ps) auto

definition overlay_ok :: "overlay \<Rightarrow> bool" where
  "overlay_ok ov \<longleftrightarrow> distinct (map pr_id (ov_prompts ov)) \<and>
     pr_id ` set (ov_prompts ov) \<inter> ov_resolved ov = {} \<and> dom (ov_judge ov) \<inter> ov_resolved ov = {}"

lemma ov_ask_ok:
  assumes "overlay_ok ov" "ov_ask p ov = (True, ov')"
  shows "overlay_ok ov' \<and> ov_prompts ov' = prompts_after (PromptAsked p) (ov_prompts ov)"
proof (cases "replace_prompt p (ov_prompts ov)")
  case None
  have "pr_id p \<notin> pr_id ` set (ov_prompts ov)" using None replace_prompt_None by blast
  moreover have "ov' = ov\<lparr>ov_prompts := ov_prompts ov @ [p]\<rparr>" "pr_id p \<notin> ov_resolved ov"
    using assms(2) None by (auto simp: ov_ask_def split: if_splits)
  ultimately show ?thesis using assms(1) None by (auto simp: overlay_ok_def)
next
  case (Some qs)
  have "pr_id ` set qs = pr_id ` set (ov_prompts ov)"
    using replace_prompt_ids[OF Some] by (metis set_map)
  moreover have "ov' = ov\<lparr>ov_prompts := qs\<rparr>"
    using assms(2) Some by (auto simp: ov_ask_def split: if_splits)
  ultimately show ?thesis using assms(1) Some replace_prompt_ids[OF Some]
    by (simp add: overlay_ok_def)
qed

lemma ov_resolve_ok:
  assumes "overlay_ok ov" "ov_resolve i ov = (True, ov')"
  shows "overlay_ok ov' \<and> ov_prompts ov' = remove_prompt i (ov_prompts ov)"
proof -
  have ov': "ov' = ov\<lparr>ov_resolved := insert i (ov_resolved ov), ov_judge := (ov_judge ov)(i := None),
      ov_prompts := remove_prompt i (ov_prompts ov)\<rparr>"
    using assms(2) by (auto simp: ov_resolve_def split: if_splits)
  have d: "distinct (map pr_id (ov_prompts ov))" using assms(1) by (simp add: overlay_ok_def)
  have ids: "pr_id ` set (remove_prompt i (ov_prompts ov)) = pr_id ` set (ov_prompts ov) - {i}"
    using remove_prompt_ids[of i "ov_prompts ov"] d by (metis set_map set_remove1_eq)
  have "distinct (map pr_id (remove_prompt i (ov_prompts ov)))"
    using d by (simp only: remove_prompt_ids distinct_remove1)
  then show ?thesis using assms(1) ids unfolding ov' overlay_ok_def
    by (auto simp: dom_def split: if_splits)
qed

lemma prompts_ok_alt:
  "prompts_ok s \<longleftrightarrow> viewer_prompts s = ov_prompts (ss_ov s) \<and> overlay_ok (ss_ov s)"
  by (simp add: prompts_ok_def overlay_ok_def)

lemma prompts_after_other: "(\<And>p. ev \<noteq> PromptAsked p) \<Longrightarrow> (\<And>i q. ev \<noteq> PromptResolved i q) \<Longrightarrow> prompts_after ev ps = ps"
  by (cases ev) auto

text \<open>Publishing an event that is no edge, status or prompt, after any bookkeeping.\<close>

lemma publish_ok:
  assumes w: "encodes w" and s: "stream_ok s"
    and ev: "\<not> turn_edge ev" "\<And>e. ev \<noteq> StatusEv e" "\<And>p. ev \<noteq> PromptAsked p" "\<And>i q. ev \<noteq> PromptResolved i q"
  shows "stream_ok (publish w ev r s)"
  using s by (simp add: stream_ok_def turn_ok_def status_ok_def emitted_ok_def prompts_ok_def effective_def
      stream_simps w turn_after_other[OF ev(1)] status_after_other[OF ev(2)] prompts_after_other[OF ev(3,4)])

lemma ledger_ok: "stream_ok s \<Longrightarrow> stream_ok (ledger c s)"
  by (simp add: stream_ok_def turn_ok_def status_ok_def emitted_ok_def prompts_ok_def effective_def stream_simps)

lemma ov_update_fields [stream_simps]:
  "viewer_turn (s\<lparr>ss_ov := ov\<rparr>) = viewer_turn s" "viewer_status (s\<lparr>ss_ov := ov\<rparr>) = viewer_status s"
  "viewer_prompts (s\<lparr>ss_ov := ov\<rparr>) = viewer_prompts s"
  by (simp_all add: viewer_turn_def viewer_status_def viewer_prompts_def)

lemma prompt_event_ok:
  assumes w: "encodes w" and s: "stream_ok s" and ov: "overlay_ok ov"
    "prompts_after ev (ov_prompts (ss_ov s)) = ov_prompts ov"
    and ev: "\<not> turn_edge ev" "\<And>e. ev \<noteq> StatusEv e"
  shows "stream_ok (emit_status w r (publish w ev r (s\<lparr>ss_ov := ov\<rparr>)))"
proof -
  let ?t = "publish w ev r (s\<lparr>ss_ov := ov\<rparr>)"
  have "turn_ok ?t" "emitted_ok ?t" "prompts_ok ?t"
    using s ov
    by (simp_all add: stream_ok_def turn_ok_def status_ok_def emitted_ok_def prompts_ok_alt stream_simps w
        turn_after_other[OF ev(1)] status_after_other[OF ev(2)])
  then show ?thesis using emit_status_ok[OF w, of ?t r] by (simp add: stream_ok_def)
qed

lemma handle_ok:
  assumes w: "encodes w" and s: "stream_ok s" and raw: "\<not> turn_edge ev"
  shows "stream_ok (handle w ev r s)"
proof (cases "ss_detached s")
  case False
  have ovk: "overlay_ok (ss_ov s)" using s by (simp add: stream_ok_def prompts_ok_alt)
  have upd: "stream_ok (upd_ov f s)" if "\<And>ov. overlay_ok ov \<Longrightarrow> overlay_ok (f ov)" "\<And>ov. ov_prompts (f ov) = ov_prompts ov" for f
    using s that by (simp add: stream_ok_def turn_ok_def status_ok_def emitted_ok_def prompts_ok_alt
        effective_def stream_simps)
  show ?thesis
  proof (cases ev)
    case (StatusEv e)
    then show ?thesis using False on_status_ok[OF w s] by (simp add: handle_def)
  next
    case (PromptAsked p)
    obtain new ov where a: "ov_ask p (ss_ov s) = (new, ov)" by fastforce
    show ?thesis
    proof (cases new)
      case True
      then show ?thesis
        using PromptAsked False a prompt_event_ok[OF w s, of ov ev r] ov_ask_ok[OF ovk, of p ov]
        by (simp add: handle_def)
    qed (use PromptAsked False a s in \<open>simp add: handle_def\<close>)
  next
    case (PromptResolved i out)
    obtain new ov where a: "ov_resolve i (ss_ov s) = (new, ov)" by fastforce
    show ?thesis
    proof (cases new)
      case True
      then show ?thesis
        using PromptResolved False a prompt_event_ok[OF w s, of ov ev r] ov_resolve_ok[OF ovk, of i ov]
        by (simp add: handle_def)
    qed (use PromptResolved False a s in \<open>simp add: handle_def\<close>)
  next
    case (PromptJudge j)
    show ?thesis
    proof (cases "ju_prompt j \<in> ov_resolved (ss_ov s)")
      case True
      then show ?thesis using PromptJudge False s by (simp add: handle_def)
    next
      case nr: False
      have "overlay_ok ((ss_ov s)\<lparr>ov_judge := (ov_judge (ss_ov s))(ju_prompt j \<mapsto> j)\<rparr>)"
        using ovk nr by (auto simp: overlay_ok_def)
      then have "stream_ok (upd_ov (\<lambda>ov. ov\<lparr>ov_judge := (ov_judge ov)(ju_prompt j \<mapsto> j)\<rparr>) s)"
        using s by (simp add: stream_ok_def turn_ok_def status_ok_def emitted_ok_def prompts_ok_alt
            effective_def stream_simps)
      then show ?thesis using PromptJudge False nr publish_ok[OF w] by (simp add: handle_def)
    qed
  next
    case (BackgroundChanged b)
    then show ?thesis
      using False s publish_ok[OF w upd] by (simp add: handle_def overlay_ok_def)
  next
    case (QueueChanged q)
    then show ?thesis
      using False publish_ok[OF w upd] by (simp add: handle_def overlay_ok_def)
  qed (use False s raw publish_ok[OF w] publish_ok[OF w ledger_ok[OF s]] in \<open>simp_all add: handle_def\<close>)
qed (simp add: handle_def s)

section \<open>Executions\<close>

datatype stream_call =
    NewSink
  | SinkConnected nat bool bool seed "(string \<times> nat) option list"
  | SinkEmit nat bool conv_event bool
  | SettleRead settlement_read bool lifecycle
  | ConnectionLost "string option"
  | Detached
  | Attached "(string \<times> nat) option"
  | FrameTaken nat
  | SubClosed nat

fun run_stream :: "stream_world \<Rightarrow> (string \<Rightarrow> bool) \<Rightarrow> stream_call \<Rightarrow> stream_session \<Rightarrow> stream_session" where
  "run_stream w routes NewSink s = snd (new_sink s)"
| "run_stream w routes (SinkConnected conn closed connected sd waiters) s =
     snd (sink_connected w routes conn closed connected sd waiters s)"
| "run_stream w routes (SinkEmit conn closed ev replayed) s = sink_emit w routes conn closed ev replayed s"
| "run_stream w routes (SettleRead request cancelled lc) s = snd (finish_settlement w request cancelled lc s)"
| "run_stream w routes (ConnectionLost err) s = connection_lost w err s"
| "run_stream w routes Detached s = detach w s"
| "run_stream w routes (Attached cursor) s = attach cursor s"
| "run_stream w routes (FrameTaken i) s = take_frame i s"
| "run_stream w routes (SubClosed i) s = close_sub i s"

text \<open>Sources report raw lifecycle, never turn edges.\<close>

fun raw_call :: "stream_call \<Rightarrow> bool" where
  "raw_call (SinkEmit _ _ ev _) \<longleftrightarrow> \<not> turn_edge ev"
| "raw_call _ \<longleftrightarrow> True"

inductive stream_run :: "stream_session \<Rightarrow> bool" where
  stream_start: "stream_run (new_session epoch)"
| stream_step: "stream_run s \<Longrightarrow> encodes w \<Longrightarrow> raw_call c \<Longrightarrow> stream_run (run_stream w routes c s)"

definition view :: "stream_session \<Rightarrow> status_state \<times> overlay \<times> conv_event list \<times> bool \<times> status_event \<times> prompt list" where
  "view s = (ss_st s, ss_ov s, ss_published s, ss_seed_turn s, ss_seed_status s, ss_seed_prompts s)"

text \<open>Only these fields matter to what viewers derive, but for the connection flag of the overlay.\<close>

lemma stream_ok_view: "view s = view s' \<Longrightarrow> stream_ok s = stream_ok s'"
  by (simp add: view_def stream_ok_def turn_ok_def status_ok_def emitted_ok_def prompts_ok_def
      effective_def viewer_turn_def viewer_status_def viewer_prompts_def)

lemma attach_view [simp]: "view (attach c s) = view s"
  by (simp add: attach_def view_def Let_def)

lemma attaches_view [simp]: "view (fold attach cs s) = view s"
  by (induction cs arbitrary: s) simp_all

lemma settled_failed: "\<not> st_pending_end (ss_st s) \<Longrightarrow> settled w gen None r s = s"
  by (simp add: settled_def settled_outcome_def)

lemma schedule_failed_view:
  "\<not> st_pending_end (ss_st s) \<Longrightarrow> view (schedule_settle w g r s) = view s"
  by (simp add: schedule_settle_def settled_failed Let_def view_def)

lemma ov_ask_snd_ok: "overlay_ok ov \<Longrightarrow> overlay_ok (snd (ov_ask p ov))"
proof (cases "pr_id p \<in> ov_resolved ov")
  case False
  then have "ov_ask p ov = (True, snd (ov_ask p ov))" by (simp add: ov_ask_def split: option.split)
  then show "overlay_ok ov \<Longrightarrow> overlay_ok (snd (ov_ask p ov))" using ov_ask_ok by blast
qed (simp add: ov_ask_def)

lemma ov_asks_ok: "overlay_ok ov \<Longrightarrow> overlay_ok (fold (\<lambda>p ov. snd (ov_ask p ov)) ps ov)"
  by (induction ps arbitrary: ov) (simp_all add: ov_ask_snd_ok)

lemma overlay_ok_flags [simp]:
  "overlay_ok (ov\<lparr>ov_live := b\<rparr>) = overlay_ok ov" "overlay_ok (ov\<lparr>ov_background := g\<rparr>) = overlay_ok ov"
  "overlay_ok (ov\<lparr>ov_queue := q\<rparr>) = overlay_ok ov" "overlay_ok new_overlay"
  by (simp_all add: overlay_ok_def new_overlay_def)

lemma connect_ok:
  assumes s: "overlay_ok (ss_ov s)"
  shows "stream_ok (connect w sd waiters s)"
proof -
  define s1 where "s1 = s\<lparr>ss_st := new_status_state\<lparr>st_gen := st_gen (ss_st s) + 1\<rparr>\<rparr>"
  define s2 where "s2 = (restart w s1)\<lparr>ss_ever_connected := True, ss_connected := True, ss_published := []\<rparr>"
  define s3 where "s3 = upd_ov (\<lambda>ov. ov\<lparr>ov_live := True\<rparr>) s2"
  define s4 where "s4 = upd_ov (\<lambda>ov. fold (\<lambda>p ov. snd (ov_ask p ov)) (sd_prompts sd) ov) s3"
  define s5 where "s5 = (case sd_background sd of None \<Rightarrow> s4 | Some b \<Rightarrow> upd_ov (\<lambda>ov. ov\<lparr>ov_background := b\<rparr>) s4)"
  define s6 where "s6 = (case sd_status sd of
      Some ev \<Rightarrow> let t = upd_st (seed_status ev) s5 in if \<not> st_turn (ss_st t) then ledger LedgerSettle t else t
    | None \<Rightarrow> let t = upd_st (\<lambda>st. st\<lparr>st_gen := st_gen st + 1\<rparr>) s5 in schedule_settle w (st_gen (ss_st t)) False t)"
  define s7 where "s7 = upd_st (\<lambda>st. st\<lparr>st_emitted := effective s6\<rparr>) s6"
  define s8 where "s8 = s7\<lparr>ss_seed_turn := st_turn (ss_st s7), ss_seed_status := effective s7,
      ss_seed_prompts := ov_prompts (ss_ov s7)\<rparr>"
  have c: "connect w sd waiters s = fold attach waiters s8"
    by (simp only: connect_def Let_def s1_def s2_def s3_def s4_def s5_def s6_def s7_def s8_def)
  have 2: "overlay_ok (ss_ov s2)" "\<not> st_pending_end (ss_st s2)" "ss_published s2 = []"
    using s by (auto simp: s2_def restart_def s1_def new_status_state_def)
  have 4: "overlay_ok (ss_ov s4)" "\<not> st_pending_end (ss_st s4)" "ss_published s4 = []"
    using 2 by (simp_all add: s4_def s3_def stream_simps ov_asks_ok)
  have 5: "overlay_ok (ss_ov s5)" "\<not> st_pending_end (ss_st s5)" "ss_published s5 = []"
    using 4 by (simp_all add: s5_def stream_simps split: option.split)
  have 6: "overlay_ok (ss_ov s6) \<and> \<not> st_pending_end (ss_st s6) \<and> ss_published s6 = []"
  proof (cases "sd_status sd")
    case None
    define t where "t = upd_st (\<lambda>st. st\<lparr>st_gen := st_gen st + 1\<rparr>) s5"
    have "s6 = schedule_settle w (st_gen (ss_st t)) False t"
      by (simp only: s6_def None option.case Let_def t_def)
    moreover have "\<not> st_pending_end (ss_st t)" using 5 by (simp add: t_def stream_simps)
    ultimately have "view s6 = view t" using schedule_failed_view[of t w "st_gen (ss_st t)" False] by simp
    then show ?thesis using 5 by (simp add: view_def t_def stream_simps)
  next
    case (Some ev)
    then show ?thesis using 5 by (simp add: s6_def Let_def stream_simps seed_status_def)
  qed
  have "stream_ok s8" using 6
    by (simp add: s8_def s7_def stream_ok_def turn_ok_def status_ok_def emitted_ok_def prompts_ok_alt
        viewer_turn_def viewer_status_def viewer_prompts_def stream_simps effective_def)
  then show ?thesis unfolding c using stream_ok_view[OF attaches_view] by blast
qed

lemma control_view [simp]: "view (control w ev s) = view s"
  by (simp add: control_def view_def fanout_def split: option.split)

lemma stream_ok_live: "stream_ok (upd_ov (\<lambda>ov. ov\<lparr>ov_live := b\<rparr>) s) = stream_ok s"
  by (simp add: stream_ok_def turn_ok_def status_ok_def emitted_ok_def prompts_ok_alt effective_def stream_simps)

lemma run_stream_ok:
  assumes w: "encodes w" and s: "stream_ok s" and raw: "raw_call c"
  shows "stream_ok (run_stream w routes c s)"
proof (cases c)
  case NewSink
  have v: "view (snd (new_sink s)) = view s" by (simp add: new_sink_def view_def)
  show ?thesis using NewSink s stream_ok_view[OF v] by simp
next
  case (SinkConnected conn closed connected sd waiters)
  have "overlay_ok (ss_ov s)" using s by (simp add: stream_ok_def prompts_ok_alt)
  then show ?thesis using SinkConnected s connect_ok by (simp add: sink_connected_def)
next
  case (SinkEmit conn closed ev replayed)
  then show ?thesis using s raw handle_ok[OF w s] by (simp add: sink_emit_def)
next
  case (SettleRead request cancelled lc)
  then show ?thesis using s settled_ok[OF w]
    by (auto simp: finish_settlement_def Let_def stream_simps split: option.split)
next
  case (ConnectionLost err)
  have v: "view (upd_ov (\<lambda>ov. ov\<lparr>ov_live := False\<rparr>) (s\<lparr>ss_connected := False\<rparr>)) =
      view (upd_ov (\<lambda>ov. ov\<lparr>ov_live := False\<rparr>) s)" by (simp add: view_def upd_ov_def)
  have "stream_ok (upd_ov (\<lambda>ov. ov\<lparr>ov_live := False\<rparr>) (s\<lparr>ss_connected := False\<rparr>))"
    using stream_ok_view[OF v] s stream_ok_live by blast
  then show ?thesis using ConnectionLost
    by (simp add: connection_lost_def Let_def stream_ok_view[OF control_view] split: option.split)
next
  case Detached
  have v: "view (detach w s) = view s" by (simp add: detach_def view_def ledger_def)
  show ?thesis using Detached s stream_ok_view[OF v] by simp
next
  case (Attached cursor)
  then show ?thesis using s stream_ok_view[OF attach_view] by simp
next
  case (FrameTaken i)
  have v: "view (take_frame i s) = view s"
    by (simp add: take_frame_def view_def Let_def split: list.split)
  show ?thesis using FrameTaken s stream_ok_view[OF v] by simp
next
  case (SubClosed i)
  have v: "view (close_sub i s) = view s" by (simp add: close_sub_def view_def)
  show ?thesis using SubClosed s stream_ok_view[OF v] by simp
qed

lemma stream_run_ok: "stream_run s \<Longrightarrow> stream_ok s"
proof (induction rule: stream_run.induct)
  case (stream_start epoch)
  show ?case
    by (simp add: new_session_def stream_ok_def turn_ok_def status_ok_def emitted_ok_def prompts_ok_alt
        viewer_turn_def viewer_status_def viewer_prompts_def effective_def new_status_state_def)
      (simp add: new_overlay_def)
qed (simp add: run_stream_ok)

section \<open>Properties\<close>

text \<open>What a viewer can tell of the turn from the events it has seen, without any word from the hello.\<close>

datatype turn_view = Unseen | Seen bool | Confused

fun seen_turn :: "conv_event \<Rightarrow> turn_view \<Rightarrow> turn_view" where
  "seen_turn (TurnStarted _) v = (if v = Seen True \<or> v = Confused then Confused else Seen True)"
| "seen_turn (TurnEnded _ _ _) v = (if v = Seen False \<or> v = Confused then Confused else Seen False)"
| "seen_turn _ v = v"

lemma turn_after_None: "fold turn_after evs None = None"
proof (induction evs)
  case (Cons ev evs)
  have "turn_after ev None = None" by (cases ev) simp_all
  then show ?case using Cons by simp
qed simp

text \<open>The edges a viewer sees fit together, so its view is the session's turn once it has seen one.\<close>

lemma seen_turns:
  "fold turn_after evs (Some x) = Some b \<Longrightarrow> v = Unseen \<or> v = Seen x \<Longrightarrow>
   fold seen_turn evs v = (if \<exists>ev \<in> set evs. turn_edge ev then Seen b else if v = Unseen then Unseen else Seen b)"
proof (induction evs arbitrary: x v)
  case (Cons ev evs)
  show ?case
  proof (cases "turn_edge ev")
    case False
    then have "turn_after ev (Some x) = Some x" "seen_turn ev v = v" by (cases ev; simp)+
    then show ?thesis using Cons.IH[of x v] Cons.prems False by simp
  next
    case True
    obtain y where y: "turn_after ev (Some x) = Some y"
      using Cons.prems(1) turn_after_None by (cases "turn_after ev (Some x)") simp_all
    then have "seen_turn ev v = Seen y" using True Cons.prems(2) by (cases ev; cases x; auto)
    then show ?thesis using Cons.IH[of y "Seen y"] Cons.prems(1) y True by simp
  qed
qed auto

text \<open>
  C24: a viewer that joins at any point of an epoch and sees the events published from there on sees turn edges
  that strictly alternate; and once it has seen one edge it knows exactly whether a turn is open
  (running, or ended but not yet settled), whatever the order of idle edges, status events, settle
  reads, reconnects and stale callbacks. Before the first edge it knows nothing of the turn, which the hello
  does not carry.
\<close>

theorem viewers_see_alternating_turns:
  assumes "stream_run s"
  shows "fold seen_turn (drop n (ss_published s)) Unseen =
      (if \<exists>ev \<in> set (drop n (ss_published s)). turn_edge ev
       then Seen (st_turn (ss_st s) \<or> st_pending_end (ss_st s)) else Unseen) \<and>
    \<not> (st_turn (ss_st s) \<and> st_pending_end (ss_st s))"
proof -
  have ok: "viewer_turn s = Some (st_turn (ss_st s) \<or> st_pending_end (ss_st s))" "\<not> (st_turn (ss_st s) \<and> st_pending_end (ss_st s))"
    using stream_run_ok[OF assms] unfolding stream_ok_def turn_ok_def by blast+
  have "ss_published s = take n (ss_published s) @ drop n (ss_published s)" by simp
  then have "fold turn_after (drop n (ss_published s)) (fold turn_after (take n (ss_published s)) (Some (ss_seed_turn s))) =
      Some (st_turn (ss_st s) \<or> st_pending_end (ss_st s))"
    using ok(1) unfolding viewer_turn_def by (metis fold_append o_apply)
  then obtain x where "fold turn_after (drop n (ss_published s)) (Some x) = Some (st_turn (ss_st s) \<or> st_pending_end (ss_st s))"
    using turn_after_None by (cases "fold turn_after (take n (ss_published s)) (Some (ss_seed_turn s))") auto
  then show ?thesis using seen_turns[of "drop n (ss_published s)" x] ok(2) by simp
qed

text \<open>
  the status a viewer derives from the stream is always the session's effective status, and
  its open prompts are the session's; so it shows waiting exactly when a prompt is open or the
  source itself reported waiting, no prompt is listed twice, and none that was resolved.
\<close>

theorem viewers_agree_on_status_and_prompts:
  assumes "stream_run s"
  shows "viewer_status s = effective s \<and> viewer_prompts s = ov_prompts (ss_ov s) \<and>
    (se_status (viewer_status s) = Waiting \<longleftrightarrow> viewer_prompts s \<noteq> [] \<or> se_status (st_base (ss_st s)) = Waiting) \<and>
    distinct (map pr_id (viewer_prompts s)) \<and> pr_id ` set (viewer_prompts s) \<inter> ov_resolved (ss_ov s) = {}"
proof -
  have "stream_ok s" by (rule stream_run_ok[OF assms])
  then have "viewer_status s = effective s" "viewer_prompts s = ov_prompts (ss_ov s)"
    "distinct (map pr_id (ov_prompts (ss_ov s)))" "pr_id ` set (ov_prompts (ss_ov s)) \<inter> ov_resolved (ss_ov s) = {}"
    by (simp_all add: stream_ok_def status_ok_def emitted_ok_def prompts_ok_def)
  then show ?thesis by (simp add: effective_def)
qed

section \<open>Subscribers miss nothing\<close>

definition frame_of :: "log_entry \<times> string list \<Rightarrow> nat \<times> string" where
  "frame_of x = (le_seq (fst x), le_frame (fst x))"

text \<open>The logged frames a subscription delivered or still holds.\<close>

definition sub_frames :: "subscription \<Rightarrow> (nat \<times> string) list" where
  "sub_frames sub = map (\<lambda>m. (fm_seq m, fm_frame m)) (filter fm_logged (sub_taken sub @ sub_buffer sub))"

definition sub_ok :: "log_history \<Rightarrow> subscription \<Rightarrow> bool" where
  "sub_ok h sub \<longleftrightarrow> sub_frames sub = map frame_of (filter (\<lambda>x. le_seq (fst x) > sub_attached sub) h) \<and>
     (sub_resumed sub \<longrightarrow> sub_replay sub =
        map (\<lambda>e. (le_seq e, le_frame e)) (filter (\<lambda>e. le_seq e > sub_cursor sub)
          (survivors (filter (\<lambda>x. le_seq (fst x) \<le> sub_attached sub) h))))"

definition subs_ok :: "stream_session \<Rightarrow> bool" where
  "subs_ok s \<longleftrightarrow> log_run (ss_log s) (ss_history s) \<and>
     (\<forall>sub \<in> set (ss_subs s). sub_reason sub = None \<longrightarrow>
        sub_attached sub \<le> log_last (ss_log s) \<and> sub_ok (ss_history s) sub)"

lemma offer_attached [simp]: "sub_attached (offer m sub) = sub_attached sub"
  by (simp add: offer_def kill_sub_def)

lemma offer_live: "sub_reason (offer m sub) = None \<Longrightarrow> sub_reason sub = None"
  by (simp add: offer_def split: if_splits)

lemma offer_frames:
  assumes "sub_reason (offer m sub) = None"
  shows "sub_frames (offer m sub) = sub_frames sub @ (if fm_logged m then [(fm_seq m, fm_frame m)] else [])"
    "sub_resumed (offer m sub) = sub_resumed sub" "sub_replay (offer m sub) = sub_replay sub"
    "sub_cursor (offer m sub) = sub_cursor sub"
proof -
  have "offer m sub = sub\<lparr>sub_buffer := sub_buffer sub @ [m]\<rparr>"
    using assms by (cases "sub_reason sub"; cases "length (sub_buffer sub) < subscriber_buffer")
      (simp_all add: offer_def kill_sub_def)
  then show "sub_frames (offer m sub) = sub_frames sub @ (if fm_logged m then [(fm_seq m, fm_frame m)] else [])"
    "sub_resumed (offer m sub) = sub_resumed sub" "sub_replay (offer m sub) = sub_replay sub"
    "sub_cursor (offer m sub) = sub_cursor sub"
    by (simp_all add: sub_frames_def)
qed

lemma publish_subs_ok:
  assumes s: "subs_ok s" and w: "encodes w"
  shows "subs_ok (publish w ev r s)"
proof -
  let ?l = "ss_log s"
  let ?n = "log_last ?l + 1"
  obtain frame where f: "sw_encode w (log_epoch ?l) ?n r True ev = Some frame"
    using w unfolding encodes_def by blast
  obtain sup key where c: "compaction ev = (sup, key)" by fastforce
  define x where "x = emitted ?n frame sup key"
  define m where "m = \<lparr>fm_seq = ?n, fm_frame = frame, fm_logged = True\<rparr>"
  have p: "publish w ev r s = fanout m (s\<lparr>ss_log := account w (emit_frame frame sup key ?l),
      ss_published := ss_published s @ [ev], ss_history := ss_history s @ [x]\<rparr>)"
    using f c by (simp add: publish_def Let_def log_next_def emit_frame_def x_def m_def)
  have run: "log_run ?l (ss_history s)" using s by (simp add: subs_ok_def)
  have run1: "log_run (emit_frame frame sup key ?l) (ss_history s @ [x])"
    unfolding x_def by (rule log_emit[OF run])
  then have run2: "log_run (account w (emit_frame frame sup key ?l)) (ss_history s @ [x])"
    using log_account by (simp add: account_def)
  have last: "log_last (account w (emit_frame frame sup key ?l)) \<ge> ?n"
    using log_run_logs[OF run2] by (auto simp: logs_def x_def emitted_def)
  have fx: "frame_of x = (?n, frame)" "le_seq (fst x) = ?n" by (simp_all add: x_def emitted_def frame_of_def)
  show ?thesis unfolding subs_ok_def
  proof (intro conjI ballI impI)
    show "log_run (ss_log (publish w ev r s)) (ss_history (publish w ev r s))"
      using run2 by (simp add: p fanout_def)
    fix t assume t: "t \<in> set (ss_subs (publish w ev r s))" "sub_reason t = None"
    then obtain sub where sub: "sub \<in> set (ss_subs s)" "t = offer m sub" by (auto simp: p fanout_def)
    then have live: "sub_reason sub = None" using t(2) offer_live by blast
    then have old: "sub_attached sub \<le> log_last ?l" "sub_ok (ss_history s) sub"
      using s sub(1) by (auto simp: subs_ok_def)
    show "sub_attached t \<le> log_last (ss_log (publish w ev r s))"
      using old last sub(2) by (simp add: p fanout_def)
    show "sub_ok (ss_history (publish w ev r s)) t"
      using old offer_frames[of m sub] t(2) fx sub(2) by (simp add: p fanout_def sub_ok_def m_def)
  qed
qed

text \<open>Calls that leave the log and the subscriptions alone.\<close>

lemma subs_ok_cong:
  "ss_log s = ss_log s' \<Longrightarrow> ss_history s = ss_history s' \<Longrightarrow> ss_subs s = ss_subs s' \<Longrightarrow> subs_ok s = subs_ok s'"
  by (simp add: subs_ok_def)

lemma subs_ok_upd [stream_simps]:
  "subs_ok (upd_st f s) = subs_ok s" "subs_ok (upd_ov g s) = subs_ok s" "subs_ok (ledger c s) = subs_ok s"
  "subs_ok (s\<lparr>ss_ov := ov\<rparr>) = subs_ok s" "subs_ok (s\<lparr>ss_reading := b, ss_pending := q\<rparr>) = subs_ok s"
  "subs_ok (s\<lparr>ss_pending := q\<rparr>) = subs_ok s" "subs_ok (s\<lparr>ss_pending := q, ss_reading := b\<rparr>) = subs_ok s"
  "subs_ok (s\<lparr>ss_reading := b\<rparr>) = subs_ok s"
  by (simp_all add: subs_ok_def upd_st_def upd_ov_def ledger_def)

lemma emit_status_subs: "encodes w \<Longrightarrow> subs_ok s \<Longrightarrow> subs_ok (emit_status w r s)"
  by (simp add: emit_status_def Let_def publish_subs_ok stream_simps)

lemma start_turn_subs: "encodes w \<Longrightarrow> subs_ok s \<Longrightarrow> subs_ok (start_turn w r s)"
  by (simp add: start_turn_def Let_def publish_subs_ok stream_simps)

lemma end_turn_subs: "encodes w \<Longrightarrow> subs_ok s \<Longrightarrow> subs_ok (end_turn w out m r s)"
  by (simp add: end_turn_def publish_subs_ok stream_simps)

lemma settled_subs: "encodes w \<Longrightarrow> subs_ok s \<Longrightarrow> subs_ok (settled w gen lc r s)"
  unfolding settled_def Let_def case_prod_beta
  by (auto simp: publish_subs_ok emit_status_subs stream_simps split: option.split)

lemma schedule_settle_subs: "encodes w \<Longrightarrow> subs_ok s \<Longrightarrow> subs_ok (schedule_settle w g r s)"
  by (simp add: schedule_settle_def Let_def settled_subs stream_simps)

lemma on_status_subs: "encodes w \<Longrightarrow> subs_ok s \<Longrightarrow> subs_ok (on_status w ev r s)"
  by (simp add: on_status_def idle_def Let_def schedule_settle_subs emit_status_subs start_turn_subs
      end_turn_subs stream_simps)

lemma handle_subs: "encodes w \<Longrightarrow> subs_ok s \<Longrightarrow> subs_ok (handle w ev r s)"
  by (cases ev) (auto simp: handle_def on_status_subs publish_subs_ok emit_status_subs stream_simps
      split: prod.split)

lemma restart_subs:
  "subs_ok s \<Longrightarrow> subs_ok (restart w s)"
  by (auto simp: restart_def subs_ok_def kill_sub_def log_opened split: if_splits)

lemma attach_subs:
  assumes "subs_ok s"
  shows "subs_ok (attach cursor s)"
proof -
  have L: "logs (ss_log s) (ss_history s)" using assms log_run_logs by (simp add: subs_ok_def)
  define res where "res = (case cursor of None \<Rightarrow> False | Some (e, at) \<Rightarrow> log_resumable e at (ss_log s))"
  define at where "at = (if res then snd (the cursor) else log_last (ss_log s))"
  define sub where "sub = \<lparr>sub_resumed = res, sub_cursor = at, sub_attached = log_last (ss_log s),
     sub_replay = (if res then log_after at (ss_log s) else []),
     sub_taken = [], sub_buffer = [], sub_reason = None\<rparr>"
  have a: "attach cursor s = s\<lparr>ss_subs := ss_subs s @ [sub]\<rparr>"
    by (simp add: attach_def Let_def sub_def res_def at_def)
  have all: "\<forall>x \<in> set (ss_history s). le_seq (fst x) \<le> log_last (ss_log s)" using L by (simp add: logs_def)
  then have "filter (\<lambda>x. le_seq (fst x) > log_last (ss_log s)) (ss_history s) = []"
    "filter (\<lambda>x. le_seq (fst x) \<le> log_last (ss_log s)) (ss_history s) = ss_history s"
    by (auto simp: filter_empty_conv filter_id_conv not_less)
  moreover have "log_after at (ss_log s) = map (\<lambda>e. (le_seq e, le_frame e))
      (filter (\<lambda>e. le_seq e > at) (survivors (ss_history s)))" if res
  proof -
    have "\<exists>e. log_resumable e at (ss_log s)"
      using that by (auto simp: res_def at_def split: option.splits)
    then show ?thesis using log_after_resumable[OF L] by blast
  qed
  ultimately have "sub_ok (ss_history s) sub" by (simp add: sub_ok_def sub_def sub_frames_def)
  moreover have "sub_attached sub \<le> log_last (ss_log s)" by (simp add: sub_def)
  ultimately show ?thesis using assms unfolding a by (simp add: subs_ok_def)
qed

lemma attaches_subs: "subs_ok s \<Longrightarrow> subs_ok (fold attach cs s)"
  by (induction cs arbitrary: s) (simp_all add: attach_subs)

lemma subs_ok_flags [stream_simps]:
  "subs_ok (s\<lparr>ss_st := st\<rparr>) = subs_ok s"
  "subs_ok (s\<lparr>ss_ever_connected := b, ss_connected := c, ss_published := ps\<rparr>) = subs_ok s"
  "subs_ok (s\<lparr>ss_connected := c\<rparr>) = subs_ok s" "subs_ok (s\<lparr>ss_conn := n\<rparr>) = subs_ok s"
  "subs_ok (s\<lparr>ss_seed_turn := t, ss_seed_status := e, ss_seed_prompts := q\<rparr>) = subs_ok s"
  by (simp_all add: subs_ok_def)

lemma connect_subs: "encodes w \<Longrightarrow> subs_ok s \<Longrightarrow> subs_ok (connect w sd waiters s)"
  unfolding connect_def Let_def
  by (auto simp: stream_simps intro!: attaches_subs schedule_settle_subs restart_subs split: option.split)

lemma take_frame_subs: "subs_ok s \<Longrightarrow> subs_ok (take_frame i s)"
proof (cases "i < length (ss_subs s) \<and> sub_buffer (ss_subs s ! i) \<noteq> []")
  case True
  assume s: "subs_ok s"
  define sub where "sub = ss_subs s ! i"
  obtain m ms where b: "sub_buffer sub = m # ms" using True by (auto simp: sub_def neq_Nil_conv)
  define sub' where "sub' = sub\<lparr>sub_taken := sub_taken sub @ [m], sub_buffer := ms\<rparr>"
  have t: "take_frame i s = s\<lparr>ss_subs := (ss_subs s)[i := sub']\<rparr>"
    using True b by (simp add: take_frame_def Let_def sub_def sub'_def)
  have same: "sub_frames sub' = sub_frames sub" by (simp add: sub'_def sub_frames_def b)
  have keep: "sub_attached sub' = sub_attached sub" "sub_reason sub' = sub_reason sub"
    "sub_resumed sub' = sub_resumed sub" "sub_replay sub' = sub_replay sub" "sub_cursor sub' = sub_cursor sub"
    by (simp_all add: sub'_def)
  have "sub \<in> set (ss_subs s)" using True by (simp add: sub_def)
  then have "sub_reason sub' = None \<Longrightarrow> sub_attached sub' \<le> log_last (ss_log s) \<and> sub_ok (ss_history s) sub'"
    using s by (simp add: subs_ok_def sub_ok_def keep same)
  moreover have "set ((ss_subs s)[i := sub']) \<subseteq> insert sub' (set (ss_subs s))" by (rule set_update_subset_insert)
  ultimately show ?thesis using s unfolding t subs_ok_def by auto
next
  case False
  assume "subs_ok s"
  then show ?thesis using False by (auto simp: take_frame_def Let_def split: list.split)
qed

lemma close_sub_subs:
  assumes "subs_ok s"
  shows "subs_ok (close_sub i s)"
proof -
  let ?t = "kill_sub [] (ss_subs s ! i)"
  have dead: "sub_reason ?t \<noteq> None" by (simp add: kill_sub_def)
  have "sub = ?t \<or> sub \<in> set (ss_subs s)" if "sub \<in> set ((ss_subs s)[i := ?t])" for sub
    using that set_update_subset_insert[of "ss_subs s" i ?t] by blast
  then show ?thesis using assms dead unfolding close_sub_def subs_ok_def by (simp, metis)
qed

lemma control_subs:
  assumes "subs_ok s"
  shows "subs_ok (control w ev s)"
proof (cases "sw_encode w (log_epoch (ss_log s)) (log_last (ss_log s)) False False ev")
  case (Some frame)
  define m where "m = \<lparr>fm_seq = log_last (ss_log s), fm_frame = frame, fm_logged = False\<rparr>"
  have c: "control w ev s = fanout m s" using Some by (simp add: control_def m_def)
  have "sub_ok (ss_history s) (offer m sub) \<and> sub_attached (offer m sub) \<le> log_last (ss_log s)"
    if "sub \<in> set (ss_subs s)" "sub_reason (offer m sub) = None" for sub
    using assms that(1) offer_live[OF that(2)] offer_frames[OF that(2)]
    by (simp add: subs_ok_def sub_ok_def m_def)
  then show ?thesis using assms unfolding c by (auto simp: subs_ok_def fanout_def)
qed (simp add: control_def assms)

lemma run_stream_subs:
  assumes w: "encodes w" and s: "ss_detached s \<or> subs_ok s"
  shows "ss_detached (run_stream w routes c s) \<or> subs_ok (run_stream w routes c s)"
proof (cases "ss_detached s")
  case False
  with s have s: "subs_ok s" by simp
  show ?thesis
  proof (cases c)
    case (SinkConnected conn closed connected sd waiters)
    then show ?thesis using s connect_subs[OF w s] by (simp add: sink_connected_def)
  next
    case (SinkEmit conn closed ev replayed)
    then show ?thesis using s handle_subs[OF w s] by (simp add: sink_emit_def)
  next
    case (SettleRead request cancelled lc)
    then show ?thesis using s settled_subs[OF w]
      by (auto simp: finish_settlement_def Let_def stream_simps split: option.split)
  next
    case (ConnectionLost err)
    then show ?thesis using s
      by (auto simp: connection_lost_def Let_def control_subs stream_simps split: option.split)
  qed (use s in \<open>simp_all add: new_sink_def detach_def ledger_def attach_subs take_frame_subs
        close_sub_subs stream_simps\<close>)
next
  case True
  have det: "ss_detached (publish w ev r t) = ss_detached t" for ev r t by (simp add: stream_simps)
  show ?thesis
    by (cases c) (use True in \<open>simp_all add: new_sink_def sink_connected_def sink_emit_def stale_def
        finish_settlement_def Let_def connection_lost_def control_def fanout_def stream_simps detach_def
        settled_def attach_def take_frame_def close_sub_def split: option.split list.split\<close>)
qed

lemma stream_run_subs: "stream_run s \<Longrightarrow> ss_detached s \<or> subs_ok s"
proof (induction rule: stream_run.induct)
  case (stream_start epoch)
  show ?case by (simp add: new_session_def subs_ok_def log_opened)
qed (simp add: run_stream_subs)

text \<open>
  a subscription that was not reset has every logged frame published since it attached, in
  order and exactly once, delivered or still in its buffer; and what a resumed one was replayed
  are the unsuperseded frames between its cursor and that moment. So no live viewer ever
  silently misses an event: a full buffer ends the subscription instead.
\<close>

theorem live_subscribers_miss_nothing:
  assumes "stream_run s" "\<not> ss_detached s" "sub \<in> set (ss_subs s)" "sub_reason sub = None"
  shows "sub_frames sub = map frame_of (filter (\<lambda>x. le_seq (fst x) > sub_attached sub) (ss_history s)) \<and>
    (sub_resumed sub \<longrightarrow> sub_replay sub = map (\<lambda>e. (le_seq e, le_frame e))
       (filter (\<lambda>e. le_seq e > sub_cursor sub)
         (survivors (filter (\<lambda>x. le_seq (fst x) \<le> sub_attached sub) (ss_history s)))))"
  using stream_run_subs[OF assms(1)] assms(2-4) unfolding subs_ok_def sub_ok_def by blast

definition sample_stream_world :: stream_world where
  "sample_stream_world = \<lparr>sw_encode = (\<lambda>_ _ _ _ _. Some ''frame''), sw_now = 0, sw_settler = True,
     sw_workers = True, sw_over_cap = False, sw_epoch = ''e2''\<rparr>"

definition sample_busy :: status_event where
  "sample_busy = \<lparr>se_status = Busy, se_provisional = False, se_notice = Absent, se_resets_at = 0\<rparr>"

text \<open>A session that connects busy, with one viewer, and then goes idle.\<close>

definition sample_stream :: stream_session where
  "sample_stream =
     run_stream sample_stream_world (\<lambda>_. True) (SinkEmit 1 False (StatusEv provisional_done) False)
       (run_stream sample_stream_world (\<lambda>_. True)
          (SinkConnected 1 False False \<lparr>sd_status = Some sample_busy, sd_prompts = [], sd_background = None\<rparr> [None])
          (run_stream sample_stream_world (\<lambda>_. True) NewSink (new_session ''e1'')))"

lemma sample_stream_run: "stream_run sample_stream"
  unfolding sample_stream_def
  by (intro stream_step stream_start) (simp_all add: encodes_def sample_stream_world_def)

text \<open>The sample goes on: the next turn first publishes the end that was pending, then its start.\<close>

definition sample_stream_on :: stream_session where
  "sample_stream_on = run_stream sample_stream_world (\<lambda>_. True) (SinkEmit 1 False (StatusEv sample_busy) False) sample_stream"

lemma viewers_see_alternating_turns_witness: "fold seen_turn (drop 0 (ss_published sample_stream_on)) Unseen = Seen True"
proof -
  have run: "stream_run sample_stream_on"
    unfolding sample_stream_on_def
    by (intro stream_step sample_stream_run) (simp_all add: encodes_def sample_stream_world_def)
  have "filter turn_edge (ss_published sample_stream_on) \<noteq> []" "st_turn (ss_st sample_stream_on)" by code_simp+
  then show ?thesis using viewers_see_alternating_turns[OF run, of 0] by (auto simp: filter_empty_conv)
qed

lemma viewers_agree_witness: "se_status (viewer_status sample_stream) = Done"
proof -
  have "se_status (effective sample_stream) = Done" by code_simp
  then show ?thesis using viewers_agree_on_status_and_prompts[OF sample_stream_run] by simp
qed

lemma live_subscribers_witness:
  "\<exists>sub \<in> set (ss_subs sample_stream). sub_frames sub = [(1, ''frame'')]"
proof -
  have s: "\<not> ss_detached sample_stream" "length (ss_subs sample_stream) = 1"
    "sub_reason (ss_subs sample_stream ! 0) = None" "sub_attached (ss_subs sample_stream ! 0) = 0"
    "map frame_of (filter (\<lambda>x. le_seq (fst x) > 0) (ss_history sample_stream)) = [(1, ''frame'')]"
    by code_simp+
  then have "ss_subs sample_stream ! 0 \<in> set (ss_subs sample_stream)" by simp
  then show ?thesis
    using live_subscribers_miss_nothing[OF sample_stream_run s(1) _ s(3)] s(4,5) by auto
qed

end
