(* ===== verification/Graph_Cycles.thy ===== *)
theory Graph_Cycles
  imports Prelude
begin

text \<open>
  The cycle check of the factory's graphs: the depth-first visit that hasFormulaCycle
  (internal/factory/native_formula_compile.go) and validateProposalManifest
  (internal/factory/native_proposal.go) both write, with its visiting and visited marks, and the
  proof that it finds a cycle exactly when there is one. Depth is bounded by fuel: one more than
  the number of nodes is enough.
\<close>

datatype 'a visit_result = Cycle | Clear "'a set" | OutOfFuel

text \<open>
  Visiting the nodes \<open>xs\<close> in order, with the visits under way in \<open>doing\<close> and those finished in
  \<open>seen\<close>; the result carries the finished ones.
\<close>

function visits :: "nat \<Rightarrow> ('a \<Rightarrow> 'a list) \<Rightarrow> 'a list \<Rightarrow> 'a set \<Rightarrow> 'a set \<Rightarrow> 'a visit_result" where
  "visits n next [] doing seen = Clear seen"
| "visits 0 next (x # xs) doing seen =
     (if x \<in> doing then Cycle else if x \<in> seen then visits 0 next xs doing seen else OutOfFuel)"
| "visits (Suc n) next (x # xs) doing seen =
     (if x \<in> doing then Cycle
      else if x \<in> seen then visits (Suc n) next xs doing seen
      else case visits n next (next x) (insert x doing) seen of
          Clear done1 \<Rightarrow> visits (Suc n) next xs doing (insert x done1)
        | r \<Rightarrow> r)"
  by pat_completeness auto
termination by (relation "measures [\<lambda>(n, _, _, _, _). n, \<lambda>(_, _, xs, _, _). length xs]") auto

text \<open>The map of successors the code builds from the edges, and the check started from every key.\<close>

definition successors :: "('a \<times> 'a) list \<Rightarrow> 'a \<Rightarrow> 'a list" where
  "successors edges x = map snd (filter (\<lambda>e. fst e = x) edges)"

definition has_cycle :: "'a list \<Rightarrow> ('a \<times> 'a) list \<Rightarrow> bool" where
  "has_cycle nodes edges =
     (case visits (length nodes + 2 * length edges + 1) (successors edges) nodes {} {} of
        Cycle \<Rightarrow> True | _ \<Rightarrow> False)"

section \<open>Correctness\<close>

definition succ_rel :: "('a \<Rightarrow> 'a list) \<Rightarrow> ('a \<times> 'a) set" where
  "succ_rel next = {(x, y). y \<in> set (next x)}"

lemma successors_rel: "succ_rel (successors edges) = set edges"
  by (force simp: succ_rel_def successors_def)

text \<open>A reported cycle is one.\<close>

lemma visits_sound:
  assumes "visits n next xs doing seen = Cycle" "\<forall>v \<in> doing. \<forall>x \<in> set xs. (v, x) \<in> (succ_rel next)\<^sup>+"
  shows "\<exists>x. (x, x) \<in> (succ_rel next)\<^sup>+"
  using assms
proof (induction n "next" xs doing seen rule: visits.induct)
  case (1 n "next" doing seen)
  then show ?case by simp
next
  case (2 "next" x xs doing seen)
  then show ?case by (auto split: if_splits)
next
  case (3 n "next" x xs doing seen)
  show ?case
  proof (cases "x \<in> doing \<or> x \<in> seen")
    case True
    then show ?thesis using 3 by (auto split: if_splits)
  next
    case False
    have step: "\<forall>v \<in> insert x doing. \<forall>y \<in> set (next x). (v, y) \<in> (succ_rel next)\<^sup>+"
      using "3.prems"(2) by (auto simp: succ_rel_def intro: trancl_into_trancl)
    show ?thesis
    proof (cases "visits n next (next x) (insert x doing) seen")
      case Cycle
      then show ?thesis using "3.IH"(2) False step by blast
    next
      case (Clear done1)
      then show ?thesis using "3.IH"(3)[OF _ _ Clear] False 3 by auto
    next
      case OutOfFuel
      then show ?thesis using False "3.prems"(1) by simp
    qed
  qed
qed

text \<open>The finished nodes are closed under the edges and on no cycle.\<close>

definition settled_set :: "('a \<Rightarrow> 'a list) \<Rightarrow> 'a set \<Rightarrow> bool" where
  "settled_set next D \<longleftrightarrow> (\<forall>v \<in> D. set (next v) \<subseteq> D) \<and> (\<forall>v \<in> D. (v, v) \<notin> (succ_rel next)\<^sup>+)"

lemma settled_closed: "settled_set next D \<Longrightarrow> v \<in> D \<Longrightarrow> (v, w) \<in> (succ_rel next)\<^sup>+ \<Longrightarrow> w \<in> D"
  by (rotate_tac 2, induction rule: trancl_induct) (auto simp: settled_set_def succ_rel_def)

lemma settled_insert:
  assumes D: "settled_set next D" and x: "set (next x) \<subseteq> D" "x \<notin> D"
  shows "settled_set next (insert x D)"
proof -
  have "(x, x) \<notin> (succ_rel next)\<^sup>+"
  proof
    assume "(x, x) \<in> (succ_rel next)\<^sup>+"
    then show False
    proof (rule converse_tranclE)
      assume "(x, x) \<in> succ_rel next"
      then show False using x by (auto simp: succ_rel_def)
    next
      fix c assume c: "(x, c) \<in> succ_rel next" "(c, x) \<in> (succ_rel next)\<^sup>+"
      then have "c \<in> D" using x by (auto simp: succ_rel_def)
      then show False using settled_closed[OF D _ c(2)] x by blast
    qed
  qed
  then show ?thesis using D x by (auto simp: settled_set_def)
qed

lemma visits_complete:
  assumes "visits n next xs doing seen = Clear D" "settled_set next seen" "doing \<inter> seen = {}"
  shows "settled_set next D \<and> seen \<subseteq> D \<and> set xs \<subseteq> D \<and> doing \<inter> D = {}"
  using assms
proof (induction n "next" xs doing seen arbitrary: D rule: visits.induct)
  case (1 n "next" doing seen)
  then show ?case by simp
next
  case (2 "next" x xs doing seen)
  then have "x \<in> seen" "visits 0 next xs doing seen = Clear D" "x \<notin> doing" by (auto split: if_splits)
  then show ?case using 2 by auto
next
  case (3 n "next" x xs doing seen)
  show ?case
  proof (cases "x \<in> seen")
    case True
    then have "x \<notin> doing" using "3.prems"(3) by auto
    then have "visits (Suc n) next xs doing seen = Clear D" using "3.prems"(1) True by simp
    then show ?thesis using "3.IH"(1)[OF \<open>x \<notin> doing\<close> True] "3.prems" True by auto
  next
    case False
    then have nd: "x \<notin> doing" using "3.prems"(1) by (auto split: if_splits)
    then obtain done1 where d1: "visits n next (next x) (insert x doing) seen = Clear done1"
      and D: "visits (Suc n) next xs doing (insert x done1) = Clear D"
      using "3.prems"(1) False by (auto split: visit_result.splits)
    have i1: "settled_set next done1 \<and> seen \<subseteq> done1 \<and> set (next x) \<subseteq> done1 \<and> insert x doing \<inter> done1 = {}"
      using "3.IH"(2)[OF nd False d1 "3.prems"(2)] False "3.prems"(3) by auto
    then have "settled_set next (insert x done1)" using settled_insert[of "next" done1 x] by auto
    then have "settled_set next D \<and> insert x done1 \<subseteq> D \<and> set xs \<subseteq> D \<and> doing \<inter> D = {}"
      using "3.IH"(3)[OF nd False d1 D] i1 nd by auto
    then show ?thesis using i1 by auto
  qed
qed

text \<open>The depth never exceeds the nodes not yet being visited.\<close>

lemma visits_fuel:
  assumes "finite U" "\<forall>x \<in> U. set (next x) \<subseteq> U" "set xs \<subseteq> U" "doing \<subseteq> U" "card U < n + card doing + 1"
  shows "visits n next xs doing seen \<noteq> OutOfFuel"
  using assms
proof (induction n "next" xs doing seen rule: visits.induct)
  case (1 n "next" doing seen)
  then show ?case by simp
next
  case (2 "next" x xs doing seen)
  have "x \<in> doing"
  proof (rule ccontr)
    assume "x \<notin> doing"
    then have "doing \<subset> U" using "2.prems"(3,4) by auto
    then have "card doing < card U" using "2.prems"(1) psubset_card_mono by blast
    then show False using "2.prems"(5) by simp
  qed
  then show ?case by simp
next
  case (3 n "next" x xs doing seen)
  show ?case
  proof (cases "x \<in> doing \<or> x \<in> seen")
    case True
    then show ?thesis using "3.IH"(1) "3.prems" by auto
  next
    case False
    have fin: "finite doing" using "3.prems"(1,4) finite_subset by blast
    have "visits n next (next x) (insert x doing) seen \<noteq> OutOfFuel"
      by (rule "3.IH"(2)) (use False "3.prems" fin in auto)
    then show ?thesis using "3.IH"(3) False "3.prems" by (auto split: visit_result.split)
  qed
qed

lemma has_cycle_finds:
  assumes "fst ` set edges \<subseteq> set nodes"
  shows "has_cycle nodes edges \<longleftrightarrow> (\<exists>x. (x, x) \<in> (set edges)\<^sup>+)"
proof -
  let ?n = "length nodes + 2 * length edges + 1" and ?s = "successors edges"
  define U where "U = set nodes \<union> fst ` set edges \<union> snd ` set edges"
  have "card U \<le> card (set nodes) + card (fst ` set edges) + card (snd ` set edges)"
    unfolding U_def by (metis add_mono_thms_linordered_semiring(3) card_Un_le order_trans)
  also have "\<dots> \<le> length nodes + length edges + length edges"
    by (intro add_mono card_length order_trans[OF card_image_le card_length]) auto
  finally have "card U < ?n" by simp
  moreover have "\<forall>x \<in> U. set (?s x) \<subseteq> U" by (auto simp: U_def successors_def)
  ultimately have "visits ?n ?s nodes {} {} \<noteq> OutOfFuel"
    by (intro visits_fuel[of U]) (auto simp: U_def)
  moreover have "\<exists>x. (x, x) \<in> (set edges)\<^sup>+" if "visits ?n ?s nodes {} {} = Cycle"
    using visits_sound[OF that] by (simp add: successors_rel)
  moreover have "\<not> (\<exists>x. (x, x) \<in> (set edges)\<^sup>+)" if c: "visits ?n ?s nodes {} {} = Clear D" for D
  proof
    assume "\<exists>x. (x, x) \<in> (set edges)\<^sup>+"
    then obtain x where x: "(x, x) \<in> (set edges)\<^sup>+" by blast
    then have "x \<in> set nodes" using assms by (auto dest!: tranclD intro: rev_image_eqI)
    moreover have "settled_set ?s D \<and> set nodes \<subseteq> D"
      using visits_complete[OF c] by (auto simp: settled_set_def)
    ultimately show False using x by (auto simp: settled_set_def successors_rel)
  qed
  ultimately show ?thesis
    unfolding has_cycle_def by (cases "visits ?n ?s nodes {} {}") auto
qed

text \<open>
  C30: the factory's cycle check answers yes exactly when the edges have a cycle, whatever order
  the nodes are tried in, as long as every node an edge leaves is tried (the code tries the keys
  of a map, in random order).
\<close>

theorem has_cycle_iff:
  assumes "fst ` set edges \<subseteq> set nodes"
  shows "has_cycle nodes edges \<longleftrightarrow> (\<exists>x. (x, x) \<in> (set edges)\<^sup>+)"
  by (rule has_cycle_finds[OF assms])

lemma has_cycle_iff_witness:
  "has_cycle [1, 2, 3 :: nat] [(1, 2), (2, 3), (3, 1)] \<and> \<not> has_cycle [1, 2 :: nat] [(1, 2), (2, 3)]"
proof -
  have "(1, 1) \<in> (set [(1, 2), (2, 3), (3, 1 :: nat)])\<^sup>+"
    by (rule trancl_trans[of _ 2], rule r_into_trancl, simp, rule trancl_trans[of _ 3],
      rule r_into_trancl, simp, rule r_into_trancl, simp)
  then have "has_cycle [1, 2, 3 :: nat] [(1, 2), (2, 3), (3, 1)]"
    by (subst has_cycle_iff) (simp, blast)
  moreover have "\<not> has_cycle [1, 2 :: nat] [(1, 2), (2, 3)]" by code_simp
  ultimately show ?thesis by simp
qed

section \<open>What a checked graph guarantees\<close>

text \<open>
  The interface the plans rely on: a check that finds every cycle. A graph it accepts can be
  worked off: whatever part of it is left, something there waits for nothing in that part.
\<close>

locale cycle_checker =
  fixes check :: "'a list \<Rightarrow> ('a \<times> 'a) list \<Rightarrow> bool"
  assumes finds: "fst ` set edges \<subseteq> set nodes \<Longrightarrow> check nodes edges \<longleftrightarrow> (\<exists>x. (x, x) \<in> (set edges)\<^sup>+)"
begin

lemma accepted_acyclic: "fst ` set edges \<subseteq> set nodes \<Longrightarrow> \<not> check nodes edges \<longleftrightarrow> acyclic (set edges)"
  by (simp add: finds acyclic_def)

lemma accepted_wf: "fst ` set edges \<subseteq> set nodes \<Longrightarrow> \<not> check nodes edges \<Longrightarrow> wf ((set edges)\<inverse>)"
  using accepted_acyclic by (intro finite_acyclic_wf_converse) auto

lemma something_is_free:
  assumes "fst ` set edges \<subseteq> set nodes" "\<not> check nodes edges" "N \<noteq> {}"
  shows "\<exists>x \<in> N. \<forall>y. (x, y) \<in> set edges \<longrightarrow> y \<notin> N"
  using accepted_wf[OF assms(1,2)] assms(3) unfolding wf_eq_minimal by (metis converse_iff ex_in_conv)

end

interpretation cc: cycle_checker has_cycle
  by unfold_locales (rule has_cycle_finds)

end
