(* ===== verification/Manifest.thy ===== *)
theory Manifest
  imports Graph_Cycles
begin

text \<open>
  The validation of a proposed plan (internal/factory/native_proposal.go,
  validateProposalManifest; the folding of acceptance criteria from native_verification.go). A
  plan is a list of nodes, implementation work or the delivery of a project, with dependencies;
  the theory states what a valid plan is and shows that the checks accept exactly the valid plans.
\<close>

section \<open>The manifest\<close>

record manifest_node =
  mn_key :: string
  mn_type :: string
  mn_requirement :: string
  mn_title :: string
  mn_description :: string
  mn_criteria :: "string list"
  mn_project :: string
  mn_depends_on :: "string list"
  mn_pinned :: bool

record manifest_edge =
  me_from :: string
  me_to :: string
  me_type :: string

record manifest =
  mf_epic :: string
  mf_mol :: string
  mf_project :: string
  mf_nodes :: "manifest_node list"
  mf_edges :: "manifest_edge list"

record epic_scope =
  ep_id :: string
  ep_initial_project :: string

text \<open>The regular expression of keys: a letter, then letters, digits, underscores and dashes.\<close>

definition is_letter :: "char \<Rightarrow> bool" where
  "is_letter c \<longleftrightarrow> (let n = of_char c in (65 \<le> n \<and> n \<le> 90) \<or> (97 \<le> n \<and> n \<le> (122::nat)))"

definition is_digit :: "char \<Rightarrow> bool" where
  "is_digit c \<longleftrightarrow> (let n = of_char c in 48 \<le> n \<and> n \<le> (57::nat))"

definition valid_key :: "string \<Rightarrow> bool" where
  "valid_key k = (case k of
       [] \<Rightarrow> False
     | c # cs \<Rightarrow> is_letter c \<and>
         list_all (\<lambda>d. is_letter d \<or> is_digit d \<or> d = CHR ''_'' \<or> d = CHR ''-'') cs)"

section \<open>The checks\<close>

datatype manifest_error =
    ScopeMismatch | BadKey | BadRequirement | BadPin | BadType | BadDelivery | DuplicateDelivery
  | NoRequiredWork | DeliveryWithoutWork | BadDependency | CyclicDependencies

text \<open>The maps the loop over the nodes fills; an absent key reads as false or the empty string.\<close>

record node_checks =
  nc_keys :: "string \<rightharpoonup> manifest_node"
  nc_deliveries :: "string \<Rightarrow> bool"
  nc_delivery_keys :: "string \<Rightarrow> string"
  nc_implementations :: "string \<Rightarrow> bool"
  nc_required :: nat

definition no_checks :: node_checks where
  "no_checks = \<lparr>nc_keys = (\<lambda>_. None), nc_deliveries = (\<lambda>_. False), nc_delivery_keys = (\<lambda>_. []),
     nc_implementations = (\<lambda>_. False), nc_required = 0\<rparr>"

definition is_delivery :: "manifest_node \<Rightarrow> bool" where
  "is_delivery n \<longleftrightarrow> mn_type n = ''delivery''"

definition is_implementation :: "manifest_node \<Rightarrow> bool" where
  "is_implementation n \<longleftrightarrow> mn_type n = ''implementation''"

definition record_node :: "manifest_node \<Rightarrow> node_checks \<Rightarrow> node_checks" where
  "record_node n c =
     \<lparr>nc_keys = (nc_keys c)(mn_key n \<mapsto> n),
      nc_deliveries = (nc_deliveries c)(mn_project n := is_delivery n \<or> nc_deliveries c (mn_project n)),
      nc_delivery_keys = (if is_delivery n then (nc_delivery_keys c)(mn_project n := mn_key n)
                          else nc_delivery_keys c),
      nc_implementations = (if is_implementation n \<and> mn_requirement n \<noteq> ''reference''
                            then (nc_implementations c)(mn_project n := True) else nc_implementations c),
      nc_required = (if is_implementation n \<and> mn_requirement n = ''required''
                     then nc_required c + 1 else nc_required c)\<rparr>"

definition check_node :: "manifest_node \<Rightarrow> node_checks \<Rightarrow> manifest_error + node_checks" where
  "check_node n c =
     (if \<not> valid_key (mn_key n) \<or> nc_keys c (mn_key n) \<noteq> None then Inl BadKey
      else if mn_requirement n \<noteq> ''required'' \<and> mn_requirement n \<noteq> ''optional'' \<and> mn_requirement n \<noteq> ''reference''
      then Inl BadRequirement
      else if mn_pinned n \<and> mn_requirement n \<noteq> ''reference'' then Inl BadPin
      else if mn_type n \<noteq> ''implementation'' \<and> mn_type n \<noteq> ''delivery'' then Inl BadType
      else if is_delivery n \<and> (mn_requirement n \<noteq> ''required'' \<or> mn_pinned n \<or> mn_depends_on n \<noteq> [])
      then Inl BadDelivery
      else if is_delivery n \<and> nc_deliveries c (mn_project n) then Inl DuplicateDelivery
      else Inr (record_node n c))"

fun check_nodes :: "manifest_node list \<Rightarrow> node_checks \<Rightarrow> manifest_error + node_checks" where
  "check_nodes [] c = Inr c"
| "check_nodes (n # ns) c = (case check_node n c of Inl e \<Rightarrow> Inl e | Inr c' \<Rightarrow> check_nodes ns c')"

text \<open>The declared edges, then those of \<open>dependsOn\<close>.\<close>

definition all_edges :: "manifest \<Rightarrow> manifest_edge list" where
  "all_edges m = mf_edges m @
     concat (map (\<lambda>n. map (\<lambda>d. \<lparr>me_from = mn_key n, me_to = d, me_type = ''blocks''\<rparr>) (mn_depends_on n))
                 (mf_nodes m))"

definition zero_node :: manifest_node where
  "zero_node = \<lparr>mn_key = [], mn_type = [], mn_requirement = [], mn_title = [], mn_description = [],
     mn_criteria = [], mn_project = [], mn_depends_on = [], mn_pinned = False\<rparr>"

definition edge_pair :: "manifest_edge \<Rightarrow> string" where
  "edge_pair e = me_from e @ [CHR 0x00] @ me_to e"

definition bad_edge :: "(string \<rightharpoonup> manifest_node) \<Rightarrow> string set \<Rightarrow> manifest_edge \<Rightarrow> bool" where
  "bad_edge keys seen e =
     (let from = (case keys (me_from e) of Some n \<Rightarrow> n | None \<Rightarrow> zero_node);
          to = (case keys (me_to e) of Some n \<Rightarrow> n | None \<Rightarrow> zero_node);
          valid_type = (me_type e = ''blocks'' \<or> me_type e = ''on_failure'' \<or> me_type e = ''merge_gated'');
          valid_delivery = (me_type e = ''merge_gated'' \<and> is_delivery to \<and> is_implementation from \<and>
                            mn_project from \<noteq> mn_project to)
      in keys (me_from e) = None \<or> keys (me_to e) = None \<or> mn_requirement from = ''reference'' \<or>
         mn_requirement to = ''reference'' \<or> \<not> valid_type \<or>
         (me_type e = ''merge_gated'' \<and> \<not> valid_delivery) \<or>
         (me_type e \<noteq> ''merge_gated'' \<and> (is_delivery from \<or> is_delivery to)) \<or> edge_pair e \<in> seen)"

fun check_edges :: "(string \<rightharpoonup> manifest_node) \<Rightarrow> manifest_edge list \<Rightarrow> string set \<Rightarrow> bool" where
  "check_edges keys [] seen = True"
| "check_edges keys (e # es) seen =
     (if bad_edge keys seen e then False else check_edges keys es (insert (edge_pair e) seen))"

text \<open>A delivery also waits for the required implementation work of its project.\<close>

definition dependency_pairs :: "manifest \<Rightarrow> node_checks \<Rightarrow> (string \<times> string) list" where
  "dependency_pairs m c =
     map (\<lambda>e. (me_from e, me_to e)) (all_edges m) @
     map (\<lambda>n. (nc_delivery_keys c (mn_project n), mn_key n))
       (filter (\<lambda>n. is_implementation n \<and> mn_requirement n = ''required'' \<and>
                    nc_delivery_keys c (mn_project n) \<noteq> []) (mf_nodes m))"

definition validate_manifest :: "manifest \<Rightarrow> epic_scope \<Rightarrow> string \<Rightarrow> manifest_error option" where
  "validate_manifest m epic root_mol =
     (if mf_epic m \<noteq> ep_id epic \<or> mf_mol m \<noteq> root_mol \<or> mf_project m \<noteq> ep_initial_project epic
      then Some ScopeMismatch
      else case check_nodes (mf_nodes m) no_checks of
          Inl e \<Rightarrow> Some e
        | Inr c \<Rightarrow>
            if nc_required c = 0 then Some NoRequiredWork
            else if list_ex (\<lambda>n. nc_deliveries c (mn_project n) \<and> \<not> nc_implementations c (mn_project n)) (mf_nodes m)
            then Some DeliveryWithoutWork
            else if \<not> check_edges (nc_keys c) (all_edges m) {} then Some BadDependency
            else if has_cycle (map mn_key (mf_nodes m)) (dependency_pairs m c) then Some CyclicDependencies
            else None)"

section \<open>What a valid plan is\<close>

definition node_ok :: "manifest_node \<Rightarrow> bool" where
  "node_ok n \<longleftrightarrow> valid_key (mn_key n) \<and> mn_requirement n \<in> {''required'', ''optional'', ''reference''} \<and>
     (mn_pinned n \<longrightarrow> mn_requirement n = ''reference'') \<and> (is_implementation n \<or> is_delivery n) \<and>
     (is_delivery n \<longrightarrow> mn_requirement n = ''required'' \<and> mn_depends_on n = [])"

definition edge_ok :: "manifest_node set \<Rightarrow> manifest_edge \<Rightarrow> bool" where
  "edge_ok ns e \<longleftrightarrow> (\<exists>from \<in> ns. \<exists>to \<in> ns. mn_key from = me_from e \<and> mn_key to = me_to e \<and>
     mn_requirement from \<noteq> ''reference'' \<and> mn_requirement to \<noteq> ''reference'' \<and>
     (if me_type e = ''merge_gated''
      then is_implementation from \<and> is_delivery to \<and> mn_project from \<noteq> mn_project to
      else me_type e \<in> {''blocks'', ''on_failure''} \<and> \<not> is_delivery from \<and> \<not> is_delivery to))"

text \<open>What must be done before what: the edges, and required work before its project's delivery.\<close>

definition waits_for :: "manifest \<Rightarrow> (string \<times> string) set" where
  "waits_for m = {(me_from e, me_to e) | e. e \<in> set (all_edges m)} \<union>
     {(mn_key d, mn_key n) | d n. d \<in> set (mf_nodes m) \<and> n \<in> set (mf_nodes m) \<and> is_delivery d \<and>
        is_implementation n \<and> mn_requirement n = ''required'' \<and> mn_project d = mn_project n}"

definition manifest_ok :: "manifest \<Rightarrow> epic_scope \<Rightarrow> string \<Rightarrow> bool" where
  "manifest_ok m epic root_mol \<longleftrightarrow>
     mf_epic m = ep_id epic \<and> mf_mol m = root_mol \<and> mf_project m = ep_initial_project epic \<and>
     distinct (map mn_key (mf_nodes m)) \<and> (\<forall>n \<in> set (mf_nodes m). node_ok n) \<and>
     distinct (map mn_project (filter is_delivery (mf_nodes m))) \<and>
     (\<exists>n \<in> set (mf_nodes m). is_implementation n \<and> mn_requirement n = ''required'') \<and>
     (\<forall>d \<in> set (mf_nodes m). is_delivery d \<longrightarrow>
        (\<exists>n \<in> set (mf_nodes m). is_implementation n \<and> mn_requirement n \<noteq> ''reference'' \<and> mn_project n = mn_project d)) \<and>
     (\<forall>e \<in> set (all_edges m). edge_ok (set (mf_nodes m)) e) \<and>
     distinct (map (\<lambda>e. (me_from e, me_to e)) (all_edges m)) \<and> acyclic (waits_for m)"

section \<open>The checks accept exactly the valid plans\<close>

definition recorded :: "manifest_node list \<Rightarrow> node_checks" where
  "recorded ns = fold record_node ns no_checks"

lemma recorded_snoc [simp]: "recorded (ns @ [n]) = record_node n (recorded ns)"
  and recorded_Nil [simp]: "recorded [] = no_checks"
  by (simp_all add: recorded_def)

lemma recorded_keys_None: "nc_keys (recorded ns) k = None \<longleftrightarrow> k \<notin> mn_key ` set ns"
  by (induction ns rule: rev_induct) (auto simp: no_checks_def record_node_def)

lemma recorded_keys_Some:
  "distinct (map mn_key ns) \<Longrightarrow> nc_keys (recorded ns) k = Some n \<longleftrightarrow> n \<in> set ns \<and> mn_key n = k"
proof (induction ns rule: rev_induct)
  case (snoc x xs)
  then have "\<forall>y \<in> set xs. mn_key y \<noteq> mn_key x" "nc_keys (recorded xs) k = Some n \<longleftrightarrow> n \<in> set xs \<and> mn_key n = k"
    by (auto simp: image_iff)
  then show ?case by (cases "mn_key x = k") (auto simp: record_node_def)
qed (simp add: no_checks_def)

lemma recorded_deliveries:
  "nc_deliveries (recorded ns) p \<longleftrightarrow> (\<exists>n \<in> set ns. is_delivery n \<and> mn_project n = p)"
  by (induction ns rule: rev_induct) (auto simp: no_checks_def record_node_def)

lemma recorded_implementations:
  "nc_implementations (recorded ns) p \<longleftrightarrow>
     (\<exists>n \<in> set ns. is_implementation n \<and> mn_requirement n \<noteq> ''reference'' \<and> mn_project n = p)"
  by (induction ns rule: rev_induct) (auto simp: no_checks_def record_node_def)

lemma recorded_required:
  "nc_required (recorded ns) = 0 \<longleftrightarrow> \<not> (\<exists>n \<in> set ns. is_implementation n \<and> mn_requirement n = ''required'')"
  by (induction ns rule: rev_induct) (auto simp: no_checks_def record_node_def)

lemma recorded_delivery_keys:
  assumes "distinct (map mn_project (filter is_delivery ns))" "d \<in> set ns" "is_delivery d"
  shows "nc_delivery_keys (recorded ns) (mn_project d) = mn_key d"
  using assms by (induction ns rule: rev_induct) (auto simp: record_node_def)

lemma recorded_no_delivery_key:
  "\<forall>d \<in> set ns. is_delivery d \<longrightarrow> mn_project d \<noteq> p \<Longrightarrow> nc_delivery_keys (recorded ns) p = []"
  by (induction ns rule: rev_induct) (auto simp: no_checks_def record_node_def)

lemma check_nodes_snoc:
  "check_nodes (ns @ [n]) c = (case check_nodes ns c of Inl e \<Rightarrow> Inl e | Inr c' \<Rightarrow> check_node n c')"
  by (induction ns arbitrary: c) (auto split: sum.split)

lemma not_both_types: "is_delivery n \<Longrightarrow> \<not> is_implementation n"
  by (simp add: is_delivery_def is_implementation_def)

lemma check_node_Inr:
  "check_node n c = Inr c' \<longleftrightarrow> c' = record_node n c \<and> node_ok n \<and> nc_keys c (mn_key n) = None \<and>
     \<not> (is_delivery n \<and> nc_deliveries c (mn_project n))"
  by (auto simp: check_node_def node_ok_def is_delivery_def is_implementation_def split: if_splits)

definition nodes_ok :: "manifest_node list \<Rightarrow> bool" where
  "nodes_ok ns \<longleftrightarrow> distinct (map mn_key ns) \<and> (\<forall>n \<in> set ns. node_ok n) \<and>
     distinct (map mn_project (filter is_delivery ns))"

lemma check_nodes_Inr: "check_nodes ns no_checks = Inr c \<longleftrightarrow> c = recorded ns \<and> nodes_ok ns"
proof (induction ns arbitrary: c rule: rev_induct)
  case Nil
  then show ?case by (auto simp: nodes_ok_def)
next
  case (snoc n ns)
  have "check_nodes (ns @ [n]) no_checks = Inr c \<longleftrightarrow>
      (\<exists>c'. check_nodes ns no_checks = Inr c' \<and> check_node n c' = Inr c)"
    by (auto simp: check_nodes_snoc split: sum.split)
  also have "\<dots> \<longleftrightarrow> nodes_ok ns \<and> check_node n (recorded ns) = Inr c" using snoc by auto
  also have "\<dots> \<longleftrightarrow> c = recorded (ns @ [n]) \<and> nodes_ok (ns @ [n])"
    by (auto simp: check_node_Inr nodes_ok_def recorded_keys_None recorded_deliveries image_iff)
  finally show ?case .
qed

lemma edge_pair_inj:
  assumes "CHR 0x00 \<notin> set (me_from e)" "CHR 0x00 \<notin> set (me_from e')"
  shows "edge_pair e = edge_pair e' \<longleftrightarrow> me_from e = me_from e' \<and> me_to e = me_to e'"
proof
  assume "edge_pair e = edge_pair e'"
  then have eq: "me_from e @ CHR 0x00 # me_to e = me_from e' @ CHR 0x00 # me_to e'"
    by (simp add: edge_pair_def)
  have "takeWhile (\<lambda>c. c \<noteq> CHR 0x00) (xs @ CHR 0x00 # ys) = xs"
    "dropWhile (\<lambda>c. c \<noteq> CHR 0x00) (xs @ CHR 0x00 # ys) = CHR 0x00 # ys"
    if "CHR 0x00 \<notin> set xs" for xs ys :: string
    using that by (induction xs) auto
  then show "me_from e = me_from e' \<and> me_to e = me_to e'"
    using assms eq by (metis list.inject)
qed (simp add: edge_pair_def)

lemma valid_key_no_nul: "valid_key k \<Longrightarrow> CHR 0x00 \<notin> set k \<and> k \<noteq> []"
  by (auto simp: valid_key_def list_all_iff is_letter_def is_digit_def Let_def split: list.splits)

lemma ex_unique2:
  assumes "f \<in> S" "A f" "t \<in> S" "B t" "\<And>n. n \<in> S \<Longrightarrow> A n \<Longrightarrow> n = f" "\<And>n. n \<in> S \<Longrightarrow> B n \<Longrightarrow> n = t"
  shows "(\<exists>a \<in> S. \<exists>b \<in> S. A a \<and> B b \<and> R a b) = R f t"
  using assms by blast

text \<open>A bad edge against the nodes recorded.\<close>

lemma bad_edge_iff:
  assumes ok: "nodes_ok ns"
  shows "bad_edge (nc_keys (recorded ns)) seen e \<longleftrightarrow> \<not> edge_ok (set ns) e \<or> edge_pair e \<in> seen"
proof -
  have d: "distinct (map mn_key ns)" and types: "\<forall>n \<in> set ns. is_implementation n \<or> is_delivery n"
    using ok by (auto simp: nodes_ok_def node_ok_def)
  show ?thesis
  proof (cases "me_from e \<in> mn_key ` set ns \<and> me_to e \<in> mn_key ` set ns")
    case True
    then obtain f t where f: "f \<in> set ns" "mn_key f = me_from e" and t: "t \<in> set ns" "mn_key t = me_to e"
      by force
    have uf: "n \<in> set ns \<Longrightarrow> mn_key n = me_from e \<Longrightarrow> n = f" for n
      using d f by (metis distinct_map inj_on_eq_iff)
    have ut: "n \<in> set ns \<Longrightarrow> mn_key n = me_to e \<Longrightarrow> n = t" for n
      using d t by (metis distinct_map inj_on_eq_iff)
    have "edge_ok (set ns) e \<longleftrightarrow> mn_requirement f \<noteq> ''reference'' \<and> mn_requirement t \<noteq> ''reference'' \<and>
      (if me_type e = ''merge_gated'' then is_implementation f \<and> is_delivery t \<and> mn_project f \<noteq> mn_project t
       else me_type e \<in> {''blocks'', ''on_failure''} \<and> \<not> is_delivery f \<and> \<not> is_delivery t)"
      unfolding edge_ok_def
      by (rule ex_unique2[where A = "\<lambda>n. mn_key n = me_from e" and B = "\<lambda>n. mn_key n = me_to e",
            OF f t uf ut])
    moreover have "nc_keys (recorded ns) (me_from e) = Some f" "nc_keys (recorded ns) (me_to e) = Some t"
      using f t by (simp_all add: recorded_keys_Some[OF d])
    ultimately show ?thesis by (simp add: bad_edge_def Let_def) blast
  next
    case False
    then have "\<not> edge_ok (set ns) e" by (force simp: edge_ok_def)
    moreover have "nc_keys (recorded ns) (me_from e) = None \<or> nc_keys (recorded ns) (me_to e) = None"
      using False by (simp add: recorded_keys_None)
    ultimately show ?thesis by (auto simp: bad_edge_def Let_def)
  qed
qed

lemma edge_ok_no_nul: "nodes_ok ns \<Longrightarrow> edge_ok (set ns) e \<Longrightarrow> CHR 0x00 \<notin> set (me_from e)"
  using valid_key_no_nul by (force simp: edge_ok_def nodes_ok_def node_ok_def)

lemma check_edges_iff:
  assumes ok: "nodes_ok ns"
  shows "check_edges (nc_keys (recorded ns)) es seen \<longleftrightarrow>
    (\<forall>e \<in> set es. edge_ok (set ns) e \<and> edge_pair e \<notin> seen) \<and> distinct (map (\<lambda>e. (me_from e, me_to e)) es)"
proof (induction es arbitrary: seen)
  case (Cons e es)
  have inj: "edge_pair x = edge_pair e \<longleftrightarrow> me_from x = me_from e \<and> me_to x = me_to e"
    if "edge_ok (set ns) x" "edge_ok (set ns) e" for x
    using edge_pair_inj edge_ok_no_nul[OF ok] that by simp
  have "check_edges (nc_keys (recorded ns)) (e # es) seen \<longleftrightarrow> edge_ok (set ns) e \<and> edge_pair e \<notin> seen \<and>
      (\<forall>x \<in> set es. edge_ok (set ns) x \<and> edge_pair x \<noteq> edge_pair e \<and> edge_pair x \<notin> seen) \<and>
      distinct (map (\<lambda>e. (me_from e, me_to e)) es)"
    using Cons.IH by (auto simp: bad_edge_iff[OF ok])
  also have "\<dots> \<longleftrightarrow> (\<forall>x \<in> set (e # es). edge_ok (set ns) x \<and> edge_pair x \<notin> seen) \<and>
      distinct (map (\<lambda>e. (me_from e, me_to e)) (e # es))"
    using inj by (auto simp: image_iff)
  finally show ?case .
qed simp

lemma dependency_pairs_waits_for:
  assumes "nodes_ok (mf_nodes m)"
  shows "set (dependency_pairs m (recorded (mf_nodes m))) = waits_for m"
proof -
  let ?ns = "mf_nodes m" let ?k = "nc_delivery_keys (recorded ?ns)"
  have d: "distinct (map mn_project (filter is_delivery ?ns))" using assms by (simp add: nodes_ok_def)
  have key: "?k p \<noteq> [] \<longleftrightarrow> (\<exists>d \<in> set ?ns. is_delivery d \<and> mn_project d = p)" for p
  proof
    assume "?k p \<noteq> []"
    then show "\<exists>d \<in> set ?ns. is_delivery d \<and> mn_project d = p" using recorded_no_delivery_key by blast
  next
    assume "\<exists>d \<in> set ?ns. is_delivery d \<and> mn_project d = p"
    then obtain x where x: "x \<in> set ?ns" "is_delivery x" "mn_project x = p" by blast
    then have "?k p = mn_key x" using recorded_delivery_keys[OF d x(1,2)] by simp
    moreover have "mn_key x \<noteq> []" using x(1) assms valid_key_no_nul by (auto simp: nodes_ok_def node_ok_def)
    ultimately show "?k p \<noteq> []" by simp
  qed
  have pairs: "set (dependency_pairs m (recorded ?ns)) = {(me_from e, me_to e) | e. e \<in> set (all_edges m)} \<union>
      {(?k (mn_project n), mn_key n) | n. n \<in> set ?ns \<and> is_implementation n \<and>
          mn_requirement n = ''required'' \<and> ?k (mn_project n) \<noteq> []}"
    by (auto simp: dependency_pairs_def)
  have "{(?k (mn_project n), mn_key n) | n. n \<in> set ?ns \<and> is_implementation n \<and>
          mn_requirement n = ''required'' \<and> ?k (mn_project n) \<noteq> []} =
    {(mn_key x, mn_key n) | x n. x \<in> set ?ns \<and> n \<in> set ?ns \<and> is_delivery x \<and>
        is_implementation n \<and> mn_requirement n = ''required'' \<and> mn_project x = mn_project n}"
    (is "?A = ?B")
  proof (intro equalityI subsetI)
    fix p assume "p \<in> ?A"
    then obtain n x where n: "p = (?k (mn_project n), mn_key n)" "n \<in> set ?ns" "is_implementation n"
      "mn_requirement n = ''required''" "x \<in> set ?ns" "is_delivery x" "mn_project x = mn_project n"
      unfolding key by blast
    then have "?k (mn_project n) = mn_key x" using recorded_delivery_keys[OF d n(5,6)] by simp
    with n show "p \<in> ?B" by auto
  next
    fix p assume "p \<in> ?B"
    then obtain x n where n: "p = (mn_key x, mn_key n)" "x \<in> set ?ns" "n \<in> set ?ns" "is_delivery x"
      "is_implementation n" "mn_requirement n = ''required''" "mn_project x = mn_project n" by blast
    then have "?k (mn_project n) = mn_key x" using recorded_delivery_keys[OF d n(2,4)] by simp
    moreover have "\<exists>d \<in> set ?ns. is_delivery d \<and> mn_project d = mn_project n" using n by blast
    ultimately show "p \<in> ?A" using n unfolding key mem_Collect_eq
      by (intro exI[of _ n] conjI) simp_all
  qed
  then show ?thesis unfolding pairs waits_for_def by (simp only:)
qed

lemma waits_for_nodes: "\<forall>e \<in> set (all_edges m). edge_ok (set (mf_nodes m)) e \<Longrightarrow>
    fst ` waits_for m \<subseteq> mn_key ` set (mf_nodes m) \<and> snd ` waits_for m \<subseteq> mn_key ` set (mf_nodes m)"
  by (force simp: waits_for_def edge_ok_def)

lemma validate_manifest_None:
  "validate_manifest m epic root = None \<longleftrightarrow> manifest_ok m epic root"
proof (cases "nodes_ok (mf_nodes m)")
  case False
  have "check_nodes (mf_nodes m) no_checks \<noteq> Inr c" for c using False check_nodes_Inr by blast
  then have "\<exists>e. check_nodes (mf_nodes m) no_checks = Inl e"
    by (cases "check_nodes (mf_nodes m) no_checks") auto
  moreover have "\<not> manifest_ok m epic root" using False by (auto simp: manifest_ok_def nodes_ok_def)
  ultimately show ?thesis by (auto simp: validate_manifest_def)
next
  case True
  let ?ns = "mf_nodes m" let ?c = "recorded ?ns"
  have cn: "check_nodes ?ns no_checks = Inr ?c" using True check_nodes_Inr by blast
  have dep: "set (dependency_pairs m ?c) = waits_for m" by (rule dependency_pairs_waits_for[OF True])
  have del: "list_ex (\<lambda>n. nc_deliveries ?c (mn_project n) \<and> \<not> nc_implementations ?c (mn_project n)) ?ns \<longleftrightarrow>
      \<not> (\<forall>d \<in> set ?ns. is_delivery d \<longrightarrow> (\<exists>n \<in> set ?ns. is_implementation n \<and>
            mn_requirement n \<noteq> ''reference'' \<and> mn_project n = mn_project d))"
    by (auto simp: list_ex_iff recorded_deliveries recorded_implementations) metis
  have cyc: "has_cycle (map mn_key ?ns) (dependency_pairs m ?c) \<longleftrightarrow> \<not> acyclic (waits_for m)"
    if "\<forall>e \<in> set (all_edges m). edge_ok (set ?ns) e"
    using cc.accepted_acyclic[of "dependency_pairs m ?c" "map mn_key ?ns"] waits_for_nodes[OF that]
    unfolding dep by (simp, blast)
  have e: "check_edges (nc_keys ?c) (all_edges m) {} \<longleftrightarrow> (\<forall>e \<in> set (all_edges m). edge_ok (set ?ns) e) \<and>
      distinct (map (\<lambda>e. (me_from e, me_to e)) (all_edges m))"
    using check_edges_iff[OF True] by simp
  show ?thesis
    using True cyc unfolding validate_manifest_def cn sum.case recorded_required del e manifest_ok_def nodes_ok_def
    by auto
qed

text \<open>
  C31: the validation of a proposed plan accepts exactly the well-formed plans: the plan is of this
  Epic and its root Mol, keys are valid and unique, every node and edge is of an allowed shape, a
  project has at most one delivery and then also work of its own, some required work exists, no
  pair of nodes is linked twice, and nothing waits for itself, not even through the rule that a
  delivery waits for the required work of its project.
\<close>

theorem validation_accepts_exactly_valid_plans:
  "validate_manifest m epic root = None \<longleftrightarrow> manifest_ok m epic root"
  by (rule validate_manifest_None)

text \<open>
  C25: an accepted plan never gets stuck: whatever work is left (any non-empty set of its nodes),
  some node of it waits only for nodes that are not left, and a delivery waits, directly, for
  every required piece of work of its project.
\<close>

theorem accepted_plan_always_has_free_work:
  assumes "validate_manifest m epic root = None" "N \<subseteq> mn_key ` set (mf_nodes m)" "N \<noteq> {}"
  shows "(\<exists>k \<in> N. \<forall>k'. (k, k') \<in> waits_for m \<longrightarrow> k' \<in> mn_key ` set (mf_nodes m) - N) \<and>
    (\<forall>d \<in> set (mf_nodes m). \<forall>n \<in> set (mf_nodes m). is_delivery d \<longrightarrow> is_implementation n \<longrightarrow>
       mn_requirement n = ''required'' \<longrightarrow> mn_project n = mn_project d \<longrightarrow> (mn_key d, mn_key n) \<in> waits_for m)"
proof -
  have ok: "manifest_ok m epic root" using assms(1) by (simp add: validate_manifest_None)
  then have nodes: "nodes_ok (mf_nodes m)" by (simp add: manifest_ok_def nodes_ok_def)
  note w = waits_for_nodes[of m]
  have edges: "\<forall>e \<in> set (all_edges m). edge_ok (set (mf_nodes m)) e" using ok by (simp add: manifest_ok_def)
  let ?dp = "dependency_pairs m (recorded (mf_nodes m))"
  have dp: "set ?dp = waits_for m" by (rule dependency_pairs_waits_for[OF nodes])
  have sub: "fst ` set ?dp \<subseteq> set (map mn_key (mf_nodes m))" using w[OF edges] by (simp add: dp)
  have "\<not> has_cycle (map mn_key (mf_nodes m)) ?dp"
    using ok cc.accepted_acyclic[OF sub] by (simp add: dp manifest_ok_def)
  then have "\<exists>k \<in> N. \<forall>k'. (k, k') \<in> waits_for m \<longrightarrow> k' \<notin> N"
    using cc.something_is_free[OF sub _ assms(3)] by (simp add: dp)
  then obtain k where k: "k \<in> N" "\<forall>k'. (k, k') \<in> waits_for m \<longrightarrow> k' \<notin> N" by blast
  have "k' \<in> mn_key ` set (mf_nodes m) - N" if "(k, k') \<in> waits_for m" for k'
  proof -
    have "k' \<in> snd ` waits_for m" using that by force
    then show ?thesis using w[OF edges] k(2) that by blast
  qed
  moreover have "(mn_key d, mn_key n) \<in> waits_for m"
    if "d \<in> set (mf_nodes m)" "n \<in> set (mf_nodes m)" "is_delivery d" "is_implementation n"
      "mn_requirement n = ''required''" "mn_project n = mn_project d" for d n
    using that unfolding waits_for_def by (intro UnI2 CollectI exI[of _ d] exI[of _ n]) simp
  ultimately show ?thesis using k(1) by blast
qed

definition sample_node :: "string \<Rightarrow> string \<Rightarrow> string list \<Rightarrow> manifest_node" where
  "sample_node k t deps = \<lparr>mn_key = k, mn_type = t, mn_requirement = ''required'', mn_title = k,
     mn_description = [], mn_criteria = [], mn_project = ''p'', mn_depends_on = deps, mn_pinned = False\<rparr>"

definition sample_plan :: manifest where
  "sample_plan = \<lparr>mf_epic = ''e'', mf_mol = ''m'', mf_project = ''p'',
     mf_nodes = [sample_node ''a'' ''implementation'' [], sample_node ''b'' ''implementation'' [''a''],
                 sample_node ''d'' ''delivery'' []], mf_edges = []\<rparr>"

lemma accepted_plan_witness:
  "validate_manifest sample_plan \<lparr>ep_id = ''e'', ep_initial_project = ''p''\<rparr> ''m'' = None \<and>
   (\<exists>k \<in> {''b'', ''d''}. \<forall>k'. (k, k') \<in> waits_for sample_plan \<longrightarrow> k' \<in> {''a''})"
proof -
  have v: "validate_manifest sample_plan \<lparr>ep_id = ''e'', ep_initial_project = ''p''\<rparr> ''m'' = None"
    by code_simp
  have "mn_key ` set (mf_nodes sample_plan) = {''a'', ''b'', ''d''}"
    by (simp add: sample_plan_def sample_node_def)
  then have "\<exists>k \<in> {''b'', ''d''}. \<forall>k'. (k, k') \<in> waits_for sample_plan \<longrightarrow> k' \<in> {''a'', ''b'', ''d''} - {''b'', ''d''}"
    using accepted_plan_always_has_free_work[OF v, of "{''b'', ''d''}"] by simp
  moreover have "{''a'', ''b'', ''d''} - {''b'', ''d''} = {''a''}" by auto
  ultimately show ?thesis using v by simp
qed

section \<open>Acceptance criteria\<close>

text \<open>
  Before validation the criteria of implementation work are folded into its description: each is
  collapsed to single spaces, must be 1 to 1000 bytes, and becomes a checkbox line.
\<close>

definition is_space :: "char \<Rightarrow> bool" where
  "is_space c \<longleftrightarrow> c = CHR '' '' \<or> (9 \<le> (of_char c :: nat) \<and> (of_char c :: nat) \<le> 13)"

text \<open>\<open>strings.Fields\<close>: the maximal runs of non-space characters.\<close>

fun fields_from :: "string \<Rightarrow> string \<Rightarrow> string list" where
  "fields_from word [] = (if word = [] then [] else [word])"
| "fields_from word (c # cs) =
     (if is_space c then (if word = [] then [] else [word]) @ fields_from [] cs
      else fields_from (word @ [c]) cs)"

definition fields :: "string \<Rightarrow> string list" where
  "fields s = fields_from [] s"

fun join :: "string \<Rightarrow> string list \<Rightarrow> string" where
  "join sep [] = []"
| "join sep [w] = w"
| "join sep (w # ws) = w @ sep @ join sep ws"

definition trim_space :: "string \<Rightarrow> string" where
  "trim_space s = rev (dropWhile is_space (rev (dropWhile is_space s)))"

fun criteria_lines :: "string list \<Rightarrow> string option" where
  "criteria_lines [] = Some []"
| "criteria_lines (c # cs) =
     (let t = join '' '' (fields c) in
      if t = [] \<or> length t > 1000 then None
      else case criteria_lines cs of None \<Rightarrow> None
         | Some rest \<Rightarrow> Some ([CHR 0x0A] @ ''- [ ] '' @ t @ rest))"

datatype fold_error = CriteriaMisplaced | CriteriaCount | CriterionLength

definition fold_acceptance_criteria :: "manifest_node \<Rightarrow> fold_error + manifest_node" where
  "fold_acceptance_criteria n =
     (let criteria = mn_criteria n; n0 = n\<lparr>mn_criteria := []\<rparr> in
      if mn_type n \<noteq> ''implementation'' \<or> mn_requirement n = ''reference''
      then (if criteria \<noteq> [] then Inl CriteriaMisplaced else Inr n0)
      else if criteria = [] \<or> length criteria > 20 then Inl CriteriaCount
      else case criteria_lines criteria of
          None \<Rightarrow> Inl CriterionLength
        | Some lines \<Rightarrow> Inr (n0\<lparr>mn_description :=
            trim_space (mn_description n @ [CHR 0x0A, CHR 0x0A] @ ''Acceptance criteria:'' @ lines)\<rparr>))"

lemma fields_from_words: "w \<in> set (fields_from word s) \<Longrightarrow> \<forall>c \<in> set word. \<not> is_space c \<Longrightarrow>
    w \<noteq> [] \<and> (\<forall>c \<in> set w. \<not> is_space c)"
  by (induction word s rule: fields_from.induct) (auto split: if_splits)

lemma criteria_lines_eq:
  "criteria_lines cs =
     (if \<forall>c \<in> set cs. join '' '' (fields c) \<noteq> [] \<and> length (join '' '' (fields c)) \<le> 1000
      then Some (concat (map (\<lambda>c. [CHR 0x0A] @ ''- [ ] '' @ join '' '' (fields c)) cs)) else None)"
proof (induction cs)
  case (Cons c cs)
  let ?t = "join '' '' (fields c)"
  show ?case
  proof (cases "?t = [] \<or> length ?t > 1000")
    case True
    then show ?thesis by (auto simp: Let_def)
  next
    case False
    then have "criteria_lines (c # cs) = (case criteria_lines cs of None \<Rightarrow> None
        | Some rest \<Rightarrow> Some ([CHR 0x0A] @ ''- [ ] '' @ ?t @ rest))" by (simp add: Let_def)
    then show ?thesis using False unfolding Cons.IH by simp
  qed
qed simp

lemma refold [simp]:
  "n\<lparr>mn_criteria := [], mn_description := d\<rparr>\<lparr>mn_description := mn_description n, mn_criteria := mn_criteria n\<rparr> = n"
  "n\<lparr>mn_criteria := []\<rparr>\<lparr>mn_description := mn_description n, mn_criteria := mn_criteria n\<rparr> = n"
  by (cases n; simp)+

text \<open>
  the text a reviewer approves states the acceptance criteria of every piece of work: folding
  succeeds exactly when work to implement has 1 to 20 criteria of 1 to 1000 bytes once collapsed,
  and anything else has none; it then moves each criterion, in order, into the description, and
  changes nothing but the description and the criteria.
\<close>

theorem folding_keeps_every_criterion:
  "case fold_acceptance_criteria n of
     Inr n' \<Rightarrow>
       mn_criteria n' = [] \<and> n'\<lparr>mn_description := mn_description n, mn_criteria := mn_criteria n\<rparr> = n \<and>
       (if is_implementation n \<and> mn_requirement n \<noteq> ''reference''
        then 0 < length (mn_criteria n) \<and> length (mn_criteria n) \<le> 20 \<and>
          mn_description n' = trim_space (mn_description n @ [CHR 0x0A, CHR 0x0A] @ ''Acceptance criteria:'' @
            concat (map (\<lambda>c. [CHR 0x0A] @ ''- [ ] '' @ join '' '' (fields c)) (mn_criteria n)))
        else mn_criteria n = [] \<and> mn_description n' = mn_description n)
   | Inl _ \<Rightarrow>
       (if is_implementation n \<and> mn_requirement n \<noteq> ''reference''
        then mn_criteria n = [] \<or> length (mn_criteria n) > 20 \<or>
          (\<exists>c \<in> set (mn_criteria n). join '' '' (fields c) = [] \<or> length (join '' '' (fields c)) > 1000)
        else mn_criteria n \<noteq> [])"
proof (cases "is_implementation n \<and> mn_requirement n \<noteq> ''reference''")
  case False
  then have "fold_acceptance_criteria n =
      (if mn_criteria n \<noteq> [] then Inl CriteriaMisplaced else Inr (n\<lparr>mn_criteria := []\<rparr>))"
    by (auto simp: fold_acceptance_criteria_def Let_def is_implementation_def)
  then show ?thesis using False by (simp only: refold if_False split: if_split) simp
next
  case True
  let ?bad = "mn_criteria n = [] \<or> length (mn_criteria n) > 20"
  let ?fits = "\<forall>c \<in> set (mn_criteria n). join '' '' (fields c) \<noteq> [] \<and> length (join '' '' (fields c)) \<le> 1000"
  let ?d = "trim_space (mn_description n @ [CHR 0x0A, CHR 0x0A] @ ''Acceptance criteria:'' @
            concat (map (\<lambda>c. [CHR 0x0A] @ ''- [ ] '' @ join '' '' (fields c)) (mn_criteria n)))"
  have "fold_acceptance_criteria n = (if ?bad then Inl CriteriaCount
      else if ?fits then Inr (n\<lparr>mn_criteria := [], mn_description := ?d\<rparr>) else Inl CriterionLength)"
    using True unfolding fold_acceptance_criteria_def criteria_lines_eq Let_def is_implementation_def by simp
  then show ?thesis using True by (simp add: not_le)
qed

end
