(* ===== verification/Factory_State.thy ===== *)
theory Factory_State
  imports Prelude "HOL-Library.List_Lexorder" "HOL-Library.Char_ord"
begin

text \<open>
  The Factory's work graph as the state database keeps it (\<open>internal/state\<close>, tables
  \<open>factory_*\<close>): epics, issues, their hierarchy and dependencies, proposed removals, plan gates
  with the proposal they decide, merge observations, project requests and attempts. A table is a
  list of rows in rowid order, or a map where its primary key is all that is read; a query is the
  list function it computes. Text compares by bytes, which is the order of the lists here.

  Recursive queries follow the hierarchy and the dependencies; they are computed by iterating the
  step of the query as often as the table has rows, which is enough to reach everything.
\<close>

section \<open>Tables\<close>

record f_issue =
  fi_id :: string
  fi_epic :: string
  fi_project :: string
  fi_kind :: string
  fi_title :: string
  fi_description :: string
  fi_status :: string
  fi_outcome :: string
  fi_reason :: string
  fi_created :: int
  fi_retry_at :: int
  fi_retry_attempts :: int

record epic_models =
  em_plan :: string
  em_implementation :: string
  em_verification :: string

record f_epic =
  fe_status :: string
  fe_project :: string
  fe_platform :: string
  fe_models :: epic_models
  fe_rules :: "(string \<times> string \<times> string) list"

text \<open>A plan gate decides one revision of the epic's proposal; of a proposal's manifest only
  whether it holds an \<open>issues\<close> array and its \<open>baseRevision\<close> (0 when absent) are read here.\<close>

record plan_gate =
  pg_epic :: string
  pg_issue :: string
  pg_revision :: int
  pg_resolution :: string
  pg_hash :: string
  pg_model :: string

record proposal_row =
  pr_epic :: string
  pr_revision :: int
  pr_graph :: bool
  pr_base :: int

record project_gate =
  qg_issue :: string
  qg_epic :: string
  qg_attempt :: string
  qg_work :: string
  qg_resolution :: string
  qg_plan_issue :: string

text \<open>The policy an attempt froze when it was claimed, and an attempt with the summary and the
  commit of its result (empty when the JSON of the row has none).\<close>

record attempt_policy =
  ap_platform :: string
  ap_model :: string
  ap_branch :: string
  ap_base_ref :: string
  ap_target_branch :: string
  ap_checkpoint :: string
  ap_delivery :: bool
  ap_plan_revision :: int
  ap_plan_hash :: string
  ap_target_id :: string
  ap_repository :: string
  ap_projects :: "string list"
  ap_profile :: string
  ap_remote_type :: string
  ap_remote_host :: string
  ap_remote_repo :: string
  ap_rules :: "(string \<times> string \<times> string) list"

record f_attempt =
  fa_id :: string
  fa_epic :: string
  fa_work :: string
  fa_sequence :: nat
  fa_phase :: string
  fa_outcome :: string
  fa_policy :: attempt_policy
  fa_summary :: string
  fa_commit :: string
  fa_created :: int
  fa_finished :: int

record workflow_step =
  ws_kind :: string
  ws_model :: string

record audit_row =
  au_epic :: string
  au_work :: string
  au_attempt :: string
  au_actor :: string
  au_action :: string
  au_commit :: string
  au_created :: int

text \<open>
  A hierarchy row is \<open>(child, parent, requirement)\<close>, one per child, with its \<open>child_index\<close>
  apart (a trigger keeps it from ever changing); a dependency row is
  \<open>(issue, depends on, type)\<close>; a removal keeps the epic and the revision that proposed it.
  A recovery gate is \<open>(issue, attempt, resolution)\<close>, an escalation \<open>(attempt, resolution)\<close>, a
  waiver the validator and the revision it waives; an agent token names its attempt.
\<close>

record factory_db =
  db_epics :: "string \<rightharpoonup> f_epic"
  db_epic_projects :: "(string \<times> string \<times> bool) list"
  db_issues :: "f_issue list"
  db_hierarchy :: "(string \<times> string \<times> string) list"
  db_child_index :: "string \<rightharpoonup> nat"
  db_sequences :: "string \<rightharpoonup> nat"
  db_deps :: "(string \<times> string \<times> string) list"
  db_removed :: "string \<rightharpoonup> string \<times> int"
  db_gates :: "plan_gate list"
  db_proposals :: "proposal_row list"
  db_formula_mols :: "string list"
  db_observations :: "string \<rightharpoonup> string \<times> string"
  db_project_gates :: "project_gate list"
  db_steps :: "string \<rightharpoonup> workflow_step"
  db_provenance :: "string list"
  db_attempts :: "f_attempt list"
  db_tokens :: "(string \<times> string) list"
  db_recoveries :: "(string \<times> string \<times> string) list"
  db_escalations :: "(string \<times> string) list"
  db_waivers :: "(string \<times> int) list"
  db_acks :: "string list"
  db_capacity :: "(int \<times> int) option"
  db_overrides :: "string \<rightharpoonup> int"
  db_audit :: "audit_row list"

definition proposal_of :: "factory_db \<Rightarrow> string \<Rightarrow> int \<Rightarrow> proposal_row option" where
  "proposal_of db e rv = find (\<lambda>p. pr_epic p = e \<and> pr_revision p = rv) (db_proposals db)"

section \<open>Recursive queries\<close>

text \<open>\<open>WITH RECURSIVE r(id) AS (SELECT a UNION SELECT e.target FROM e JOIN r ON e.source = r.id)\<close>,
  iterated \<open>n\<close> times.\<close>

fun reach :: "nat \<Rightarrow> ('a \<times> 'a) list \<Rightarrow> 'a list \<Rightarrow> 'a list" where
  "reach 0 es xs = xs"
| "reach (Suc n) es xs = reach n es (xs @ map snd (filter (\<lambda>(x, y). x \<in> set xs \<and> y \<notin> set xs) es))"

definition reachable :: "('a \<times> 'a) list \<Rightarrow> 'a \<Rightarrow> 'a list" where
  "reachable es a = reach (length es) es [a]"

lemma reach_sound: "set (reach n es xs) \<subseteq> {y. \<exists>x \<in> set xs. (x, y) \<in> (set es)\<^sup>*}"
proof (induction n es xs rule: reach.induct)
  case (1 es xs)
  then show ?case by auto
next
  case (2 n es xs)
  let ?xs = "xs @ map snd (filter (\<lambda>(x, y). x \<in> set xs \<and> y \<notin> set xs) es)"
  have step: "\<exists>x \<in> set xs. (x, z) \<in> (set es)\<^sup>*" if "z \<in> set ?xs" for z
    using that by (auto intro: bexI[rotated])
  show ?case
  proof
    fix y assume "y \<in> set (reach (Suc n) es xs)"
    then obtain z where "z \<in> set ?xs" "(z, y) \<in> (set es)\<^sup>*" using "2.IH" by (auto simp only: reach.simps)
    then show "y \<in> {y. \<exists>x \<in> set xs. (x, y) \<in> (set es)\<^sup>*}"
      using step by (blast intro: rtrancl_trans)
  qed
qed

lemma reach_mono: "set xs \<subseteq> set (reach n es xs)"
  by (induction n es xs rule: reach.induct) auto

text \<open>Each round that is not the last adds the target of some edge.\<close>

lemma reach_closed:
  assumes "card (snd ` set es - set xs) \<le> n"
  shows "(set es) `` set (reach n es xs) \<subseteq> set (reach n es xs)"
  using assms
proof (induction n es xs rule: reach.induct)
  case (1 es xs)
  then have "snd ` set es - set xs = {}" by auto
  then show ?case by force
next
  case (2 n es xs)
  let ?new = "map snd (filter (\<lambda>(x, y). x \<in> set xs \<and> y \<notin> set xs) es)"
  show ?case
  proof (cases "?new = []")
    case True
    then have "(set es) `` set xs \<subseteq> set xs" by (auto simp: filter_empty_conv)
    moreover from True have "reach (Suc n) es xs = reach n es xs" by simp
    moreover have "set (reach n es xs) \<subseteq> set xs"
      using reach_sound[of n es xs] calculation(1)
      by (auto dest!: subsetD[of _ "{y. \<exists>x \<in> set xs. (x, y) \<in> (set es)\<^sup>*}"] Image_closed_trancl)
    moreover note reach_mono[of xs n es]
    ultimately show ?thesis by simp
  next
    case False
    then obtain y where y: "y \<in> set ?new" by (meson list.set_sel(1))
    then have "y \<in> snd ` set es - set xs" by force
    moreover have "snd ` set es - set (xs @ ?new) \<subseteq> (snd ` set es - set xs) - {y}" using y by auto
    ultimately have "card (snd ` set es - set (xs @ ?new)) \<le> n"
    proof -
      assume y': "y \<in> snd ` set es - set xs" and sub: "snd ` set es - set (xs @ ?new) \<subseteq> (snd ` set es - set xs) - {y}"
      have "card (snd ` set es - set (xs @ ?new)) \<le> card ((snd ` set es - set xs) - {y})"
        by (rule card_mono[OF _ sub]) simp
      also have "\<dots> = card (snd ` set es - set xs) - 1" using y' by (simp add: card_Diff_singleton)
      finally show ?thesis using "2.prems" by linarith
    qed
    then show ?thesis using "2.IH" by (simp only: reach.simps)
  qed
qed

lemma reachable_iff: "b \<in> set (reachable es a) \<longleftrightarrow> (a, b) \<in> (set es)\<^sup>*"
proof
  show "b \<in> set (reachable es a) \<Longrightarrow> (a, b) \<in> (set es)\<^sup>*"
    using reach_sound[of "length es" es "[a]"] by (auto simp: reachable_def)
next
  have "card (snd ` set es - set [a]) \<le> length es"
  proof -
    have "card (snd ` set es - set [a]) \<le> card (snd ` set es)" by (rule card_mono) auto
    also have "\<dots> \<le> card (set es)" by (rule card_image_le) simp
    also have "\<dots> \<le> length es" by (rule card_length)
    finally show ?thesis .
  qed
  then have closed: "(set es) `` set (reachable es a) \<subseteq> set (reachable es a)"
    unfolding reachable_def by (rule reach_closed)
  assume "(a, b) \<in> (set es)\<^sup>*"
  then show "b \<in> set (reachable es a)"
  proof induction
    case base
    show ?case using reach_mono[of "[a]"] by (simp add: reachable_def)
  next
    case (step y z)
    then show ?case using closed by auto
  qed
qed

section \<open>Rows by key\<close>

definition hierarchy_row :: "factory_db \<Rightarrow> string \<Rightarrow> (string \<times> string) option" where
  "hierarchy_row db i = map_option snd (find (\<lambda>r. fst r = i) (db_hierarchy db))"

definition issue_row :: "factory_db \<Rightarrow> string \<Rightarrow> f_issue option" where
  "issue_row db i = find (\<lambda>r. fi_id r = i) (db_issues db)"

lemma find_key_Some_iff:
  assumes "distinct (map k xs)"
  shows "find (\<lambda>x. k x = a) xs = Some x \<longleftrightarrow> x \<in> set xs \<and> k x = a"
  using assms by (induction xs) (auto simp: image_iff)

lemma find_key_None_iff: "find (\<lambda>x. k x = a) xs = None \<longleftrightarrow> a \<notin> k ` set xs"
  by (auto simp: find_None_iff)

section \<open>Well-formed graphs\<close>

abbreviation issue_ids :: "factory_db \<Rightarrow> string set" where
  "issue_ids db \<equiv> fi_id ` set (db_issues db)"

definition parent_pairs :: "factory_db \<Rightarrow> (string \<times> string) list" where
  "parent_pairs db = map (\<lambda>(c, p, q). (c, p)) (db_hierarchy db)"

definition dep_pairs :: "factory_db \<Rightarrow> (string \<times> string) list" where
  "dep_pairs db = map (\<lambda>(i, b, ty). (i, b)) (db_deps db)"

definition epic_of :: "factory_db \<Rightarrow> string \<Rightarrow> string option" where
  "epic_of db i = map_option fi_epic (issue_row db i)"

text \<open>
  The hierarchy is a forest within each epic, the dependencies have no cycle, and a removal takes
  the whole subtree. The rest are the keys and foreign keys of the tables.
\<close>

definition hierarchy_ok :: "factory_db \<Rightarrow> bool" where
  "hierarchy_ok db \<longleftrightarrow> distinct (map fst (db_hierarchy db)) \<and> acyclic (set (parent_pairs db)) \<and>
     (\<forall>(c, p) \<in> set (parent_pairs db). epic_of db c \<noteq> None \<and> epic_of db c = epic_of db p) \<and>
     (\<forall>(c, p) \<in> set (parent_pairs db). db_removed db p \<noteq> None \<longrightarrow> db_removed db c \<noteq> None)"

definition deps_ok :: "factory_db \<Rightarrow> bool" where
  "deps_ok db \<longleftrightarrow> acyclic (set (dep_pairs db)) \<and>
     (\<forall>(i, b) \<in> set (dep_pairs db). i \<in> issue_ids db \<and> b \<in> issue_ids db) \<and>
     (\<forall>(i, b, ty) \<in> set (db_deps db). ty \<in> {''blocks'', ''on_failure'', ''merge_gated''})"

definition rows_ok :: "factory_db \<Rightarrow> bool" where
  "rows_ok db \<longleftrightarrow> distinct (map fi_id (db_issues db)) \<and> [] \<notin> issue_ids db"

definition graph_ok :: "factory_db \<Rightarrow> bool" where
  "graph_ok db \<longleftrightarrow> rows_ok db \<and> hierarchy_ok db \<and> deps_ok db"

lemma issue_row_iff:
  assumes "rows_ok db"
  shows "issue_row db i = Some r \<longleftrightarrow> r \<in> set (db_issues db) \<and> fi_id r = i"
  using assms unfolding rows_ok_def issue_row_def by (simp add: find_key_Some_iff)

lemma issue_row_None: "issue_row db i = None \<longleftrightarrow> i \<notin> issue_ids db"
  by (simp add: issue_row_def find_key_None_iff)

lemma hierarchy_row_iff:
  assumes "hierarchy_ok db"
  shows "hierarchy_row db i = Some (p, q) \<longleftrightarrow> (i, p, q) \<in> set (db_hierarchy db)"
proof -
  have d: "distinct (map fst (db_hierarchy db))" using assms by (simp add: hierarchy_ok_def)
  have "hierarchy_row db i = Some (p, q) \<longleftrightarrow> (\<exists>x. find (\<lambda>r. fst r = i) (db_hierarchy db) = Some x \<and> snd x = (p, q))"
    unfolding hierarchy_row_def by auto
  also have "\<dots> \<longleftrightarrow> (i, p, q) \<in> set (db_hierarchy db)"
    unfolding find_key_Some_iff[OF d] by (metis prod.collapse fst_conv snd_conv)
  finally show ?thesis .
qed

lemma hierarchy_row_None: "hierarchy_row db i = None \<longleftrightarrow> i \<notin> fst ` set (db_hierarchy db)"
  by (simp add: hierarchy_row_def find_key_None_iff)

lemma parent_pairs_iff: "(c, p) \<in> set (parent_pairs db) \<longleftrightarrow> (\<exists>q. (c, p, q) \<in> set (db_hierarchy db))"
  unfolding parent_pairs_def by force

end
