(* ===== verification/Factory_Dispatch.thy ===== *)
theory Factory_Dispatch
  imports Factory_State
begin

text \<open>
  What of an epic's work may run: the dispatch states \<open>deriveFactoryIssueDispatch\<close> computes for
  the list of issues (\<open>internal/state/factory_issues.go\<close>), the hold of a graph that awaits
  approval (\<open>factory_graph_approval.go\<close>), and the query with which a claim decides the same again
  inside its transaction (\<open>factory_claim.go\<close>), with the three truth values of SQL.
\<close>

section \<open>Issues as they are listed\<close>

record native_blocker =
  nb_id :: string
  nb_epic :: string
  nb_type :: string
  nb_reason :: string
  nb_outcome :: string

record native_issue =
  ni_id :: string
  ni_epic :: string
  ni_project :: string
  ni_parent :: string
  ni_requirement :: string
  ni_kind :: string
  ni_status :: string
  ni_outcome :: string
  ni_reason :: string
  ni_gate_resolution :: string
  ni_created :: int
  ni_dispatch :: string
  ni_depends_on :: "(string \<times> string) list"
  ni_blockers :: "native_blocker list"

definition gate_of_issue :: "factory_db \<Rightarrow> string \<Rightarrow> plan_gate option" where
  "gate_of_issue db i = find (\<lambda>g. pg_issue g = i) (db_gates db)"

definition gate_of_epic :: "factory_db \<Rightarrow> string \<Rightarrow> plan_gate option" where
  "gate_of_epic db e = find (\<lambda>g. pg_epic g = e) (db_gates db)"

text \<open>\<open>COALESCE(g.resolution, pg.resolution, '')\<close>.\<close>

definition gate_resolution :: "factory_db \<Rightarrow> string \<Rightarrow> string" where
  "gate_resolution db i =
     (case gate_of_issue db i of Some g \<Rightarrow> pg_resolution g
      | None \<Rightarrow> (case find (\<lambda>g. qg_issue g = i) (db_project_gates db) of
          Some g \<Rightarrow> qg_resolution g | None \<Rightarrow> []))"

definition kind_rank :: "string \<Rightarrow> nat" where
  "kind_rank k = (if k = ''mol'' then 0 else if k = ''plan'' then 1 else if k = ''gate'' then 2 else 3)"

definition native_of :: "factory_db \<Rightarrow> f_issue \<Rightarrow> native_issue" where
  "native_of db r =
     \<lparr>ni_id = fi_id r, ni_epic = fi_epic r, ni_project = fi_project r,
      ni_parent = (case hierarchy_row db (fi_id r) of None \<Rightarrow> [] | Some h \<Rightarrow> fst h),
      ni_requirement = (case hierarchy_row db (fi_id r) of None \<Rightarrow> [] | Some h \<Rightarrow> snd h),
      ni_kind = fi_kind r, ni_status = fi_status r, ni_outcome = fi_outcome r,
      ni_reason = fi_reason r, ni_gate_resolution = gate_resolution db (fi_id r),
      ni_created = fi_created r, ni_dispatch = [], ni_depends_on = [], ni_blockers = []\<rparr>"

definition epic_issues :: "factory_db \<Rightarrow> string \<Rightarrow> native_issue list" where
  "epic_issues db e =
     map (native_of db) (sort_key (\<lambda>r. kind_rank (fi_kind r))
       (filter (\<lambda>r. fi_epic r = e \<and> db_removed db (fi_id r) = None) (db_issues db)))"

section \<open>Dependencies that count\<close>

text \<open>The proposal an epic's gate decides, when it is the snapshot of an edited graph and is not
  approved: the graph awaits approval.\<close>

definition pending_graph :: "factory_db \<Rightarrow> string \<Rightarrow> plan_gate option" where
  "pending_graph db e =
     (case gate_of_epic db e of
        None \<Rightarrow> None
      | Some g \<Rightarrow> (case proposal_of db e (pg_revision g) of
            None \<Rightarrow> None
          | Some p \<Rightarrow> if pg_resolution g \<noteq> ''approved'' \<and> pr_graph p then Some g else None))"

text \<open>
  \<open>effectiveFactoryBlockerSQL\<close>: a blocker that was removed still blocks while the revision that
  removed it awaits approval.
\<close>

definition effective_blocker :: "factory_db \<Rightarrow> string \<Rightarrow> bool" where
  "effective_blocker db b =
     (case db_removed db b of
        None \<Rightarrow> True
      | Some (plan, removed_in) \<Rightarrow>
          (case pending_graph db plan of
             None \<Rightarrow> False
           | Some g \<Rightarrow>
               removed_in > 0 \<and> removed_in \<le> pg_revision g \<and>
               (case proposal_of db plan (pg_revision g) of
                  None \<Rightarrow> False | Some p \<Rightarrow> removed_in > pr_base p)))"

record dep_row =
  dr_issue :: string
  dr_type :: string
  dr_blocker :: f_issue
  dr_resolution :: string
  dr_merge :: "string \<times> string"

definition dep_rows :: "factory_db \<Rightarrow> string \<Rightarrow> dep_row list" where
  "dep_rows db e =
     concat (map (\<lambda>(i, b, ty).
         (case issue_row db b of
            None \<Rightarrow> []
          | Some br \<Rightarrow>
              if (\<exists>r \<in> set (db_issues db). fi_id r = i \<and> fi_epic r = e) \<and> effective_blocker db b
              then [\<lparr>dr_issue = i, dr_type = ty, dr_blocker = br,
                     dr_resolution = (case gate_of_issue db b of None \<Rightarrow> [] | Some g \<Rightarrow> pg_resolution g),
                     dr_merge = (case db_observations db b of None \<Rightarrow> ([], []) | Some o' \<Rightarrow> o')\<rparr>]
              else []))
       (sort_key (\<lambda>(i, b, ty). i) (sort_key (\<lambda>(i, b, ty). b) (db_deps db))))"

section \<open>Requirements\<close>

text \<open>
  \<open>factoryIssueRequirement\<close>: the loop over the ancestors that are in the list; \<open>None\<close> when the
  chain is longer than the list, which is a parent cycle, on which the code loops for ever.
\<close>

definition issue_in :: "native_issue list \<Rightarrow> string \<Rightarrow> native_issue option" where
  "issue_in issues i = find (\<lambda>x. ni_id x = i) issues"

fun requirement_loop :: "nat \<Rightarrow> native_issue list \<Rightarrow> string \<Rightarrow> string \<Rightarrow> string option" where
  "requirement_loop 0 issues parent req = None"
| "requirement_loop (Suc n) issues parent req =
     (case issue_in issues parent of
        None \<Rightarrow> Some req
      | Some p \<Rightarrow>
          if ni_requirement p = ''reference'' then Some ''reference''
          else requirement_loop n issues (ni_parent p)
                 (if ni_requirement p = ''optional'' then ''optional'' else req))"

definition requirement_of :: "native_issue list \<Rightarrow> native_issue \<Rightarrow> string option" where
  "requirement_of issues i =
     (if ni_requirement i = ''reference'' then Some ''reference''
      else requirement_loop (Suc (length issues)) issues (ni_parent i) (ni_requirement i))"

abbreviation is_reference :: "native_issue list \<Rightarrow> native_issue \<Rightarrow> bool" where
  "is_reference issues i \<equiv> requirement_of issues i = Some ''reference''"

section \<open>Deriving the dispatch states\<close>

datatype verdict = Satisfied | Holds | Ends | Skips

definition succeeded_row :: "dep_row \<Rightarrow> bool" where
  "succeeded_row r \<longleftrightarrow> fi_status (dr_blocker r) = ''closed'' \<and> fi_outcome (dr_blocker r) = ''succeeded'' \<and>
     (fi_kind (dr_blocker r) \<noteq> ''gate'' \<or> dr_resolution r = ''approved'')"

definition failed_row :: "dep_row \<Rightarrow> bool" where
  "failed_row r \<longleftrightarrow> fi_status (dr_blocker r) = ''closed'' \<and>
     ((fi_kind (dr_blocker r) \<noteq> ''gate'' \<and> fi_outcome (dr_blocker r) = ''failed'') \<or>
      (fi_kind (dr_blocker r) = ''gate'' \<and> dr_resolution r = ''rejected''))"

text \<open>What an edge does to an open issue: \<open>Satisfied\<close> (no blocker), or the issue waits
  (\<open>Holds\<close>), is terminally blocked (\<open>Ends\<close>) or not applicable (\<open>Skips\<close>).\<close>

definition row_verdict :: "dep_row \<Rightarrow> verdict" where
  "row_verdict r =
     (if dr_type r = ''blocks'' then
        (if succeeded_row r then Satisfied
         else if fi_status (dr_blocker r) = ''closed'' then Ends else Holds)
      else if dr_type r = ''merge_gated'' then
        (if fst (dr_merge r) = ''merged'' then Satisfied
         else if fst (dr_merge r) = ''closed'' \<or> fst (dr_merge r) = ''changed'' then Ends else Holds)
      else
        (if failed_row r then Satisfied
         else if fi_status (dr_blocker r) = ''closed'' then Skips else Holds))"

definition merge_reason :: "string \<times> string \<Rightarrow> string" where
  "merge_reason m =
     (if snd m \<noteq> [] then snd m
      else if fst m = ''closed'' then ''Project Delivery PR was closed without merge. Reopen or replace the PR.''
      else if fst m = ''open'' then ''Waiting for the Project Delivery PR to merge.''
      else if fst m = ''draft'' then ''Waiting for the draft Project Delivery PR to become ready and merge.''
      else ''Waiting for the forge to verify the Project Delivery PR.'')"

definition row_blocker :: "dep_row \<Rightarrow> native_blocker" where
  "row_blocker r =
     \<lparr>nb_id = fi_id (dr_blocker r), nb_epic = fi_epic (dr_blocker r), nb_type = dr_type r,
      nb_reason = (if dr_type r = ''merge_gated'' then merge_reason (dr_merge r) else fi_reason (dr_blocker r)),
      nb_outcome = (if dr_type r = ''merge_gated'' then fst (dr_merge r) else fi_outcome (dr_blocker r))\<rparr>"

record dispatch_acc =
  da_issues :: "native_issue list"
  da_not_applicable :: "string set"
  da_waiting :: "string set"
  da_blocked :: "string set"

text \<open>\<open>byID[id]\<close> points into the slice, so a change through it is a change of the slice.\<close>

definition update_issue :: "string \<Rightarrow> (native_issue \<Rightarrow> native_issue) \<Rightarrow> native_issue list \<Rightarrow> native_issue list" where
  "update_issue i f issues = map (\<lambda>x. if ni_id x = i then f x else x) issues"

definition dispatch_row :: "dispatch_acc \<Rightarrow> dep_row \<Rightarrow> dispatch_acc" where
  "dispatch_row acc r =
     (case issue_in (da_issues acc) (dr_issue r) of
        None \<Rightarrow> acc
      | Some issue \<Rightarrow>
          let acc1 = acc\<lparr>da_issues := update_issue (dr_issue r)
                (\<lambda>x. x\<lparr>ni_depends_on := ni_depends_on x @ [(fi_id (dr_blocker r), dr_type r)]\<rparr>) (da_issues acc)\<rparr>;
              acc2 = acc1\<lparr>da_issues := update_issue (dr_issue r)
                (\<lambda>x. x\<lparr>ni_blockers := ni_blockers x @ [row_blocker r]\<rparr>) (da_issues acc1)\<rparr>
          in if ni_status issue \<noteq> ''open'' \<or> is_reference (da_issues acc) issue then acc1
             else (case row_verdict r of
                 Satisfied \<Rightarrow> acc1
               | Holds \<Rightarrow> acc2\<lparr>da_waiting := insert (dr_issue r) (da_waiting acc2)\<rparr>
               | Ends \<Rightarrow> acc2\<lparr>da_blocked := insert (dr_issue r) (da_blocked acc2)\<rparr>
               | Skips \<Rightarrow> acc2\<lparr>da_not_applicable := insert (dr_issue r) (da_not_applicable acc2)\<rparr>))"

text \<open>The newest delivery of a project, the later id on a tie.\<close>

definition newer_delivery :: "native_issue option \<Rightarrow> native_issue \<Rightarrow> native_issue option" where
  "newer_delivery latest i =
     (case latest of
        None \<Rightarrow> Some i
      | Some l \<Rightarrow> if ni_created i > ni_created l \<or> (ni_created i = ni_created l \<and> ni_id i > ni_id l)
                   then Some i else latest)"

definition latest_delivery :: "native_issue list \<Rightarrow> string \<Rightarrow> native_issue option" where
  "latest_delivery issues p =
     foldl newer_delivery None (filter (\<lambda>i. ni_project i = p \<and> ni_kind i = ''delivery'') issues)"

definition is_work :: "native_issue \<Rightarrow> bool" where
  "is_work i \<longleftrightarrow> ni_kind i = ''task'' \<or> ni_kind i = ''implementation''"

definition project_delivered :: "native_issue list \<Rightarrow> string \<Rightarrow> bool" where
  "project_delivered issues p =
     (case latest_delivery issues p of
        None \<Rightarrow> False
      | Some d \<Rightarrow>
          ni_status d = ''closed'' \<and> ni_outcome d = ''succeeded'' \<and>
          (\<forall>i \<in> set issues. ni_project i = p \<and> is_work i \<and> requirement_of issues i = Some ''required''
             \<longrightarrow> (ni_id i, ''blocks'') \<in> set (ni_depends_on d)))"

definition dispatch_state :: "dispatch_acc \<Rightarrow> native_issue \<Rightarrow> native_issue" where
  "dispatch_state acc i =
     (if is_reference (da_issues acc) i then i\<lparr>ni_dispatch := ''reference''\<rparr>
      else if project_delivered (da_issues acc) (ni_project i) \<and> is_work i \<and> ni_status i \<noteq> ''closed''
      then i\<lparr>ni_dispatch := ''not_applicable'',
             ni_reason := ''Final delivery is complete; this work will not run.''\<rparr>
      else i\<lparr>ni_dispatch :=
        (if ni_status i = ''deferred'' \<or> ni_status i = ''retry_wait'' then ni_status i
         else if ni_status i = ''open'' then
           (if ni_id i \<in> da_not_applicable acc then ''not_applicable''
            else if ni_id i \<in> da_blocked acc then ''terminally_blocked''
            else if ni_id i \<in> da_waiting acc then ''waiting'' else ''ready'')
         else if ni_status i = ''closed'' then ''completed'' else ''waiting'')\<rparr>)"

definition block_graph_approval :: "factory_db \<Rightarrow> string \<Rightarrow> native_issue list \<Rightarrow> native_issue list" where
  "block_graph_approval db e issues =
     (case pending_graph db e of
        None \<Rightarrow> issues
      | Some g \<Rightarrow> map (\<lambda>i.
          if ni_status i = ''open'' \<and> (is_work i \<or> ni_kind i = ''delivery'') \<and> ni_dispatch i = ''ready''
          then i\<lparr>ni_dispatch := ''waiting'', ni_blockers := ni_blockers i @
                 [\<lparr>nb_id = pg_issue g, nb_epic = e, nb_type = ''blocks'',
                   nb_reason = ''Waiting for graph approval.'', nb_outcome = []\<rparr>]\<rparr>
          else i) issues)"

text \<open>
  \<open>None\<close>: some chain of parents has no end and the code does not return (its last loop asks for
  the requirement of every issue).
\<close>

definition derive_dispatch :: "factory_db \<Rightarrow> string \<Rightarrow> native_issue list \<Rightarrow> native_issue list option" where
  "derive_dispatch db e issues =
     (if \<exists>i \<in> set issues. requirement_of issues i = None then None
      else let start = map (\<lambda>i. i\<lparr>ni_dispatch := ''waiting''\<rparr>) issues;
               acc = foldl dispatch_row
                 \<lparr>da_issues = start, da_not_applicable = {}, da_waiting = {}, da_blocked = {}\<rparr> (dep_rows db e)
           in Some (block_graph_approval db e (map (dispatch_state acc) (da_issues acc))))"

definition list_factory_issues :: "factory_db \<Rightarrow> string \<Rightarrow> native_issue list option" where
  "list_factory_issues db e = derive_dispatch db e (epic_issues db e)"

section \<open>The loop over the edges\<close>

text \<open>The requirement of an issue depends only on the ids, parents and requirements listed.\<close>

definition shape :: "native_issue \<Rightarrow> string \<times> string \<times> string" where
  "shape i = (ni_id i, ni_parent i, ni_requirement i)"

lemma issue_in_shape:
  assumes "map shape xs = map shape ys"
  shows "map_option shape (issue_in xs i) = map_option shape (issue_in ys i)"
  using assms unfolding issue_in_def
proof (induction xs arbitrary: ys)
  case (Cons x xs)
  then obtain y ys' where "ys = y # ys'" "shape x = shape y" "map shape xs = map shape ys'" by auto
  moreover from this have "ni_id x = ni_id y" by (simp add: shape_def)
  ultimately show ?case using Cons.IH[of ys'] by simp
qed simp

lemma requirement_loop_shape:
  assumes "map shape xs = map shape ys"
  shows "requirement_loop n xs p q = requirement_loop n ys p q"
proof (induction n arbitrary: p q)
  case (Suc n)
  have "map_option shape (issue_in xs p) = map_option shape (issue_in ys p)"
    by (rule issue_in_shape[OF assms])
  then show ?case using Suc by (auto simp: shape_def split: option.splits)
qed simp

lemma requirement_of_shape:
  assumes "map shape xs = map shape ys" "shape i = shape j"
  shows "requirement_of xs i = requirement_of ys j"
proof -
  have "length xs = length ys" using assms(1) by (metis length_map)
  then show ?thesis using requirement_loop_shape[OF assms(1)] assms(2)
    by (simp add: requirement_of_def shape_def)
qed

text \<open>What the loop has added to an issue after the rows \<open>rs\<close>.\<close>

definition may_run :: "native_issue list \<Rightarrow> native_issue \<Rightarrow> bool" where
  "may_run issues i \<longleftrightarrow> ni_status i = ''open'' \<and> \<not> is_reference issues i"

definition edges_of :: "dep_row list \<Rightarrow> native_issue \<Rightarrow> dep_row list" where
  "edges_of rs i = filter (\<lambda>r. dr_issue r = ni_id i) rs"

definition annotate :: "native_issue list \<Rightarrow> dep_row list \<Rightarrow> native_issue \<Rightarrow> native_issue" where
  "annotate issues rs i = i\<lparr>
     ni_depends_on := ni_depends_on i @ map (\<lambda>r. (fi_id (dr_blocker r), dr_type r)) (edges_of rs i),
     ni_blockers := ni_blockers i @ (if may_run issues i
        then map row_blocker (filter (\<lambda>r. row_verdict r \<noteq> Satisfied) (edges_of rs i)) else [])\<rparr>"

definition marked :: "verdict \<Rightarrow> native_issue list \<Rightarrow> dep_row list \<Rightarrow> string set" where
  "marked v issues rs = {ni_id i | i. i \<in> set issues \<and> may_run issues i \<and> v \<in> row_verdict ` set (edges_of rs i)}"

definition acc_after :: "native_issue list \<Rightarrow> dep_row list \<Rightarrow> dispatch_acc" where
  "acc_after issues rs =
     \<lparr>da_issues = map (annotate issues rs) issues, da_not_applicable = marked Skips issues rs,
      da_waiting = marked Holds issues rs, da_blocked = marked Ends issues rs\<rparr>"

lemma annotate_fields [simp]:
  "ni_id (annotate issues rs i) = ni_id i" "ni_status (annotate issues rs i) = ni_status i"
  "shape (annotate issues rs i) = shape i" "ni_project (annotate issues rs i) = ni_project i"
  "ni_kind (annotate issues rs i) = ni_kind i" "ni_outcome (annotate issues rs i) = ni_outcome i"
  "ni_created (annotate issues rs i) = ni_created i"
  by (simp_all add: annotate_def shape_def)

lemma edges_of_snoc: "edges_of (rs @ [r]) i = edges_of rs i @ (if dr_issue r = ni_id i then [r] else [])"
  by (simp add: edges_of_def)

lemma issue_in_map_annotate:
  "issue_in (map (annotate issues rs) xs) x = map_option (annotate issues rs) (issue_in xs x)"
  unfolding issue_in_def by (induction xs) auto

lemma issue_in_iff:
  assumes "distinct (map ni_id issues)"
  shows "issue_in issues x = Some i \<longleftrightarrow> i \<in> set issues \<and> ni_id i = x"
  unfolding issue_in_def by (rule find_key_Some_iff[OF assms])

lemma in_marked:
  "x \<in> marked v issues rs \<longleftrightarrow>
     (\<exists>i \<in> set issues. ni_id i = x \<and> may_run issues i \<and> (\<exists>r \<in> set rs. dr_issue r = x \<and> row_verdict r = v))"
  unfolding marked_def edges_of_def by auto

lemma marked_snoc:
  assumes "distinct (map ni_id issues)" "issue_in issues (dr_issue r) = Some i"
  shows "marked v issues (rs @ [r]) =
    (if may_run issues i \<and> row_verdict r = v then insert (dr_issue r) (marked v issues rs) else marked v issues rs)"
proof -
  have i: "i \<in> set issues" "ni_id i = dr_issue r" using assms by (auto simp: issue_in_iff)
  have uniq: "j = i" if "j \<in> set issues" "ni_id j = dr_issue r" for j
    using inj_onD[of ni_id "set issues" j i] that i assms(1) by (simp add: distinct_map)
  have "x \<in> marked v issues (rs @ [r]) \<longleftrightarrow>
      x \<in> marked v issues rs \<or> (x = dr_issue r \<and> may_run issues i \<and> row_verdict r = v)" for x
  proof (cases "x = dr_issue r")
    case True
    then have eq: "(\<exists>j \<in> set issues. ni_id j = x \<and> P j) \<longleftrightarrow> P i" for P using i uniq by blast
    show ?thesis unfolding in_marked eq using True by auto
  next
    case False
    then show ?thesis unfolding in_marked by auto
  qed
  then show ?thesis by (auto simp only: set_eq_iff insert_iff split: if_splits)
qed

lemma marked_snoc_None:
  assumes "issue_in issues (dr_issue r) = None"
  shows "marked v issues (rs @ [r]) = marked v issues rs"
    "map (annotate issues (rs @ [r])) issues = map (annotate issues rs) issues"
proof -
  have n: "\<And>j. j \<in> set issues \<Longrightarrow> dr_issue r \<noteq> ni_id j"
    using assms unfolding issue_in_def find_key_None_iff by auto
  then have "\<And>j. j \<in> set issues \<Longrightarrow> edges_of (rs @ [r]) j = edges_of rs j" by (auto simp: edges_of_snoc)
  then show "marked v issues (rs @ [r]) = marked v issues rs"
    "map (annotate issues (rs @ [r])) issues = map (annotate issues rs) issues"
    unfolding marked_def annotate_def by (auto cong: conj_cong)
qed

lemma map_shape_annotate: "map shape (map (annotate issues rs) issues) = map shape issues"
  by simp

lemma requirement_annotate:
  "requirement_of (map (annotate issues rs) issues) (annotate issues rs i) = requirement_of issues i"
  by (rule requirement_of_shape[OF map_shape_annotate]) simp

lemma update_annotate:
  assumes "distinct (map ni_id issues)" "issue_in issues x = Some i" "\<And>j. j \<in> set issues \<Longrightarrow> ni_id j \<noteq> x \<Longrightarrow> g j = h j"
    "f (h i) = g i" "\<And>j. ni_id (h j) = ni_id j"
  shows "update_issue x f (map h issues) = map g issues"
proof -
  have i: "i \<in> set issues" "ni_id i = x" using assms(1,2) by (auto simp: issue_in_iff)
  have "(if ni_id (h j) = x then f (h j) else h j) = g j" if "j \<in> set issues" for j
  proof (cases "ni_id j = x")
    case True
    then have "j = i" using inj_onD[of ni_id "set issues" j i] that i assms(1) by (simp add: distinct_map)
    then show ?thesis using True assms(4,5) by simp
  next
    case False
    then show ?thesis using assms(3)[OF that False] assms(5) by simp
  qed
  then show ?thesis unfolding update_issue_def by simp
qed

lemma dispatch_row_step:
  assumes d: "distinct (map ni_id issues)"
  shows "dispatch_row (acc_after issues rs) r = acc_after issues (rs @ [r])"
proof (cases "issue_in issues (dr_issue r)")
  case None
  then show ?thesis
    unfolding dispatch_row_def acc_after_def marked_snoc_None[OF None]
    by (simp add: issue_in_map_annotate)
next
  case (Some i)
  define h where "h = annotate issues rs"
  define g where "g = annotate issues (rs @ [r])"
  define dep where "dep = (fi_id (dr_blocker r), dr_type r)"
  define mid where "mid j = (if ni_id j = dr_issue r then (h j)\<lparr>ni_depends_on := ni_depends_on (h j) @ [dep]\<rparr> else h j)" for j
  let ?upd = "update_issue (dr_issue r) (\<lambda>x. x\<lparr>ni_depends_on := ni_depends_on x @ [dep]\<rparr>) (map h issues)"
  have i: "i \<in> set issues" "ni_id i = dr_issue r" using d Some by (auto simp: issue_in_iff)
  have other: "g j = h j" if "ni_id j \<noteq> dr_issue r" for j
    using that unfolding g_def h_def annotate_def edges_of_snoc by simp
  have mid: "?upd = map mid issues"
    using i by (intro update_annotate[OF d Some]) (auto simp: mid_def h_def)
  have blk: "update_issue (dr_issue r) (\<lambda>x. x\<lparr>ni_blockers := ni_blockers x @ [row_blocker r]\<rparr>) (map mid issues) = map g issues"
    if "may_run issues i" "row_verdict r \<noteq> Satisfied"
    using i that other
    by (intro update_annotate[OF d Some])
       (auto simp: mid_def h_def g_def annotate_def edges_of_snoc dep_def)
  have same: "map mid issues = map g issues" if "\<not> (may_run issues i \<and> row_verdict r \<noteq> Satisfied)"
  proof (rule map_cong[OF refl])
    fix j assume j: "j \<in> set issues"
    show "mid j = g j"
    proof (cases "ni_id j = dr_issue r")
      case True
      then have "j = i" using inj_onD[of ni_id "set issues" j i] j i d by (simp add: distinct_map)
      then show ?thesis using that i unfolding mid_def h_def g_def annotate_def edges_of_snoc dep_def by auto
    qed (simp add: mid_def other)
  qed
  have found: "issue_in (map h issues) (dr_issue r) = Some (h i)"
    using Some by (simp add: issue_in_map_annotate h_def)
  have run: "may_run issues i \<Longrightarrow> ni_status (h i) = ''open''"
      "may_run issues i \<Longrightarrow> requirement_of (map h issues) (h i) \<noteq> Some ''reference''"
      "\<not> may_run issues i \<Longrightarrow> ni_status (h i) = ''open'' \<Longrightarrow> requirement_of (map h issues) (h i) = Some ''reference''"
    unfolding h_def requirement_annotate may_run_def by simp_all
  have marks: "marked v issues (rs @ [r]) =
      (if may_run issues i \<and> row_verdict r = v then insert (dr_issue r) (marked v issues rs) else marked v issues rs)" for v
    by (rule marked_snoc[OF d Some])
  have "acc_after issues (rs @ [r]) =
     \<lparr>da_issues = map g issues, da_not_applicable = marked Skips issues (rs @ [r]),
      da_waiting = marked Holds issues (rs @ [r]), da_blocked = marked Ends issues (rs @ [r])\<rparr>"
    by (simp only: acc_after_def g_def)
  moreover have "acc_after issues rs =
     \<lparr>da_issues = map h issues, da_not_applicable = marked Skips issues rs,
      da_waiting = marked Holds issues rs, da_blocked = marked Ends issues rs\<rparr>"
    by (simp only: acc_after_def h_def)
  ultimately show ?thesis
    unfolding dispatch_row_def
    by (cases "may_run issues i"; cases "row_verdict r")
       (simp_all add: found run marks Let_def mid[unfolded dep_def] same blk cong: if_cong)
qed

lemma dispatch_fold:
  assumes "distinct (map ni_id issues)"
  shows "foldl dispatch_row \<lparr>da_issues = issues, da_not_applicable = {}, da_waiting = {}, da_blocked = {}\<rparr> rs =
    acc_after issues rs"
proof (induction rs rule: rev_induct)
  case Nil
  have "annotate issues [] i = i" for i by (cases i) (simp add: annotate_def edges_of_def)
  then have "map (annotate issues []) issues = issues" by (intro map_idI)
  then show ?case by (simp add: acc_after_def marked_def edges_of_def)
next
  case (snoc r rs)
  then show ?case by (simp add: dispatch_row_step[OF assms])
qed

section \<open>The loop over the ancestors\<close>

lemma in_epic_issues:
  "i \<in> set (epic_issues db e) \<longleftrightarrow>
     (\<exists>r \<in> set (db_issues db). fi_epic r = e \<and> db_removed db (fi_id r) = None \<and> i = native_of db r)"
  unfolding epic_issues_def by auto

lemma native_of_fields [simp]:
  "ni_id (native_of db r) = fi_id r" "ni_kind (native_of db r) = fi_kind r"
  "ni_status (native_of db r) = fi_status r" "ni_project (native_of db r) = fi_project r"
  "ni_blockers (native_of db r) = []" "ni_depends_on (native_of db r) = []"
  by (simp_all add: native_of_def)

lemma distinct_epic_issues:
  assumes "rows_ok db"
  shows "distinct (map ni_id (epic_issues db e))"
proof -
  let ?rs = "filter (\<lambda>r. fi_epic r = e \<and> db_removed db (fi_id r) = None) (db_issues db)"
  have "distinct (map fi_id ?rs)" using assms unfolding rows_ok_def by (simp add: distinct_map_filter)
  then have "distinct (map fi_id (sort_key (\<lambda>r. kind_rank (fi_kind r)) ?rs))"
    by (simp add: distinct_map distinct_sort)
  moreover have "map ni_id (epic_issues db e) = map fi_id (sort_key (\<lambda>r. kind_rank (fi_kind r)) ?rs)"
    by (simp add: epic_issues_def)
  ultimately show ?thesis by simp
qed

text \<open>\<open>EXISTS (SELECT 1 FROM ancestors WHERE requirement = 'reference')\<close>.\<close>

definition reference_ancestor :: "factory_db \<Rightarrow> string \<Rightarrow> bool" where
  "reference_ancestor db i \<longleftrightarrow>
     (\<exists>(c, p, q) \<in> set (db_hierarchy db). q = ''reference'' \<and> c \<in> set (reachable (parent_pairs db) i))"

lemma reference_ancestor_step:
  assumes "hierarchy_ok db" "(i, p, q) \<in> set (db_hierarchy db)"
  shows "reference_ancestor db i \<longleftrightarrow> q = ''reference'' \<or> reference_ancestor db p"
proof -
  let ?P = "set (parent_pairs db)"
  have uniq: "p' = p \<and> q' = q" if "(i, p', q') \<in> set (db_hierarchy db)" for p' q'
    using that assms by (metis hierarchy_row_iff option.inject prod.inject)
  have edge: "(i, y) \<in> ?P \<longleftrightarrow> y = p" for y unfolding parent_pairs_iff using assms(2) uniq by blast
  have "(i, c) \<in> ?P\<^sup>* \<longleftrightarrow> c = i \<or> (p, c) \<in> ?P\<^sup>*" for c
  proof
    assume "(i, c) \<in> ?P\<^sup>*"
    then show "c = i \<or> (p, c) \<in> ?P\<^sup>*" by (cases rule: converse_rtranclE) (use edge in auto)
  next
    have "(i, p) \<in> ?P" using edge by simp
    moreover assume "c = i \<or> (p, c) \<in> ?P\<^sup>*"
    ultimately show "(i, c) \<in> ?P\<^sup>*" by (auto intro: converse_rtrancl_into_rtrancl)
  qed
  then have "reference_ancestor db i \<longleftrightarrow>
      (\<exists>(c, p', q') \<in> set (db_hierarchy db). q' = ''reference'' \<and> c = i) \<or> reference_ancestor db p"
    unfolding reference_ancestor_def reachable_iff by auto
  moreover have "(\<exists>(c, p', q') \<in> set (db_hierarchy db). q' = ''reference'' \<and> c = i) \<longleftrightarrow> q = ''reference''"
  proof
    assume "\<exists>(c, p', q') \<in> set (db_hierarchy db). q' = ''reference'' \<and> c = i"
    then obtain p' where "(i, p', ''reference'') \<in> set (db_hierarchy db)" by blast
    then show "q = ''reference''" using uniq by blast
  qed (use assms(2) in blast)
  ultimately show ?thesis by simp
qed

lemma id_not_empty: "rows_ok db \<Longrightarrow> r \<in> set (db_issues db) \<Longrightarrow> fi_id r \<noteq> []"
  unfolding rows_ok_def by force

lemma parent_not_removed:
  assumes "hierarchy_ok db" "(c, p) \<in> set (parent_pairs db)" "db_removed db c = None"
  shows "db_removed db p = None"
proof -
  have "\<forall>(c, p) \<in> set (parent_pairs db). db_removed db p \<noteq> None \<longrightarrow> db_removed db c \<noteq> None"
    using assms(1) unfolding hierarchy_ok_def by blast
  then show ?thesis using assms(2,3) by fast
qed

lemma reference_ancestor_root:
  assumes "hierarchy_row db i = None"
  shows "\<not> reference_ancestor db i"
proof -
  have "(i, y) \<notin> set (parent_pairs db)" for y
    using assms by (force simp: hierarchy_row_None parent_pairs_iff)
  then have "(i, c) \<in> (set (parent_pairs db))\<^sup>* \<Longrightarrow> c = i" for c by (metis converse_rtranclE)
  then show ?thesis using assms unfolding reference_ancestor_def reachable_iff hierarchy_row_None by force
qed

definition listed :: "factory_db \<Rightarrow> string \<Rightarrow> string \<Rightarrow> bool" where
  "listed db e i \<longleftrightarrow> (\<exists>r \<in> set (db_issues db). fi_id r = i \<and> fi_epic r = e \<and> db_removed db i = None)"

lemma parent_listed:
  assumes ok: "graph_ok db" and "listed db e i" "(i, p, q) \<in> set (db_hierarchy db)"
  shows "listed db e p"
proof -
  have rows: "rows_ok db" and h: "hierarchy_ok db" using ok by (auto simp: graph_ok_def)
  have pair: "(i, p) \<in> set (parent_pairs db)" using assms(3) by (auto simp: parent_pairs_iff)
  obtain r where r: "r \<in> set (db_issues db)" "fi_id r = i" "fi_epic r = e" "db_removed db i = None"
    using assms(2) by (auto simp: listed_def)
  then have "issue_row db i = Some r" using rows by (simp add: issue_row_iff)
  then have "epic_of db i = Some e" using r by (simp add: epic_of_def)
  then have "epic_of db p = Some e" using h pair by (force simp: hierarchy_ok_def)
  then obtain r' where "issue_row db p = Some r'" "fi_epic r' = e" by (auto simp: epic_of_def)
  moreover have "db_removed db p = None" by (rule parent_not_removed[OF h pair r(4)])
  ultimately show ?thesis using rows by (auto simp: issue_row_iff listed_def)
qed

lemma issue_in_listed:
  assumes "rows_ok db"
  shows "issue_in (epic_issues db e) x = Some i \<longleftrightarrow>
    (\<exists>r \<in> set (db_issues db). i = native_of db r \<and> fi_id r = x \<and> fi_epic r = e \<and> db_removed db x = None)"
  unfolding issue_in_iff[OF distinct_epic_issues[OF assms]] in_epic_issues by auto

lemma ancestors_shrink:
  assumes "acyclic (set (parent_pairs db))" "(x, p) \<in> set (parent_pairs db)" "x \<in> A" "finite A"
  shows "card ({y. (p, y) \<in> (set (parent_pairs db))\<^sup>*} \<inter> A) < card ({y. (x, y) \<in> (set (parent_pairs db))\<^sup>*} \<inter> A)"
proof (rule psubset_card_mono)
  let ?P = "set (parent_pairs db)"
  have "(p, x) \<notin> ?P\<^sup>*" using assms(1,2) by (metis acyclic_def rtrancl_into_trancl2)
  moreover have "{y. (p, y) \<in> ?P\<^sup>*} \<subseteq> {y. (x, y) \<in> ?P\<^sup>*}" using assms(2) by (auto intro: converse_rtrancl_into_rtrancl)
  ultimately show "{y. (p, y) \<in> ?P\<^sup>*} \<inter> A \<subset> {y. (x, y) \<in> ?P\<^sup>*} \<inter> A" using assms(3) by blast
qed (use assms in simp)

lemma requirement_loop_ok:
  assumes ok: "graph_ok db" and "x = [] \<or> listed db e x"
    and "card ({y. (x, y) \<in> (set (parent_pairs db))\<^sup>*} \<inter> issue_ids db) < n" "q \<noteq> ''reference''"
  shows "\<exists>q'. requirement_loop n (epic_issues db e) x q = Some q' \<and>
    (q' = ''reference'' \<longleftrightarrow> reference_ancestor db x)"
  using assms(2-)
proof (induction n arbitrary: x q)
  case (Suc n)
  have rows: "rows_ok db" and h: "hierarchy_ok db" using ok by (auto simp: graph_ok_def)
  show ?case
  proof (cases "issue_in (epic_issues db e) x")
    case None
    then have "\<not> listed db e x" using issue_in_listed[OF rows, of e x] by (auto simp: listed_def)
    then have "x = []" using Suc.prems(1) by simp
    then have "x \<notin> fst ` set (db_hierarchy db)"
      using h rows by (force simp: hierarchy_ok_def parent_pairs_iff rows_ok_def epic_of_def issue_row_None)
    then have "\<not> reference_ancestor db x" by (intro reference_ancestor_root) (simp add: hierarchy_row_None)
    then show ?thesis using None Suc.prems(3) by simp
  next
    case (Some i)
    then obtain r where r: "r \<in> set (db_issues db)" "i = native_of db r" "fi_id r = x" "fi_epic r = e"
        "db_removed db x = None"
      using issue_in_listed[OF rows, of e x] by auto
    have lx: "listed db e x" using r by (auto simp: listed_def)
    show ?thesis
    proof (cases "hierarchy_row db x")
      case None
      then have req: "ni_requirement i = []" and par: "ni_parent i = []" using r by (simp_all add: native_of_def)
      have root: "\<not> reference_ancestor db x" by (rule reference_ancestor_root[OF None])
      have nil: "issue_in (epic_issues db e) [] = None"
        using issue_in_listed[OF rows, of e "[]"] id_not_empty[OF rows]
        by (cases "issue_in (epic_issues db e) []") auto
      have "x \<in> issue_ids db" using r by auto
      then have "card ({y. (x, y) \<in> (set (parent_pairs db))\<^sup>*} \<inter> issue_ids db) > 0"
        by (subst card_gt_0_iff) auto
      then obtain m where n: "n = Suc m" using Suc.prems(2) by (cases n) auto
      show ?thesis using Some req par root nil n Suc.prems(3) by simp
    next
      case (Some h')
      then obtain p q' where hr: "(x, p, q') \<in> set (db_hierarchy db)" "h' = (p, q')"
        using h by (cases h') (simp add: hierarchy_row_iff)
      have req: "ni_requirement i = q'" and par: "ni_parent i = p" using r Some hr(2) by (simp_all add: native_of_def)
      have pair: "(x, p) \<in> set (parent_pairs db)" using hr(1) by (auto simp: parent_pairs_iff)
      have step: "reference_ancestor db x \<longleftrightarrow> q' = ''reference'' \<or> reference_ancestor db p"
        by (rule reference_ancestor_step[OF h hr(1)])
      have "card ({y. (p, y) \<in> (set (parent_pairs db))\<^sup>*} \<inter> issue_ids db)
          < card ({y. (x, y) \<in> (set (parent_pairs db))\<^sup>*} \<inter> issue_ids db)"
        using h r by (intro ancestors_shrink[OF _ pair]) (auto simp: hierarchy_ok_def)
      then have less: "card ({y. (p, y) \<in> (set (parent_pairs db))\<^sup>*} \<inter> issue_ids db) < n"
        using Suc.prems(2) by linarith
      have lp: "p = [] \<or> listed db e p" using parent_listed[OF ok lx hr(1)] by simp
      show ?thesis
      proof (cases "q' = ''reference''")
        case True
        then show ?thesis using \<open>issue_in _ x = Some i\<close> req step by simp
      next
        case False
        have "(if q' = ''optional'' then ''optional'' else q) \<noteq> ''reference''" using Suc.prems(3) by simp
        then obtain q'' where "requirement_loop n (epic_issues db e) p
            (if q' = ''optional'' then ''optional'' else q) = Some q''"
            "(q'' = ''reference'' \<longleftrightarrow> reference_ancestor db p)"
          using Suc.IH[OF lp less] by blast
        then show ?thesis using \<open>issue_in _ x = Some i\<close> req par step False by simp
      qed
    qed
  qed
qed simp

lemma requirement_of_listed:
  assumes ok: "graph_ok db" and i: "i \<in> set (epic_issues db e)"
  shows "requirement_of (epic_issues db e) i \<noteq> None"
    "is_reference (epic_issues db e) i \<longleftrightarrow> reference_ancestor db (ni_id i)"
proof -
  have rows: "rows_ok db" and h: "hierarchy_ok db" using ok by (auto simp: graph_ok_def)
  let ?A = "\<lambda>x. {y. (x, y) \<in> (set (parent_pairs db))\<^sup>*} \<inter> issue_ids db"
  obtain r where r: "r \<in> set (db_issues db)" "i = native_of db r" "fi_epic r = e" "db_removed db (fi_id r) = None"
    using i in_epic_issues by auto
  have li: "listed db e (fi_id r)" using r by (auto simp: listed_def)
  have "i = (the (issue_in (epic_issues db e) (fi_id r)))"
    using r issue_in_listed[OF rows, of e "fi_id r" i] by auto
  have sub: "?A x \<subseteq> {y. listed db e y}" if "listed db e x" for x
  proof
    fix y assume "y \<in> ?A x"
    then have "(x, y) \<in> (set (parent_pairs db))\<^sup>*" by simp
    then show "y \<in> {y. listed db e y}"
      by (induction) (use that parent_listed[OF ok] in \<open>auto simp: parent_pairs_iff\<close>)
  qed
  have cardl: "card (?A x) < Suc (length (epic_issues db e))" if "x = [] \<or> listed db e x" for x
  proof (cases "listed db e x")
    case True
    have "{y. listed db e y} = ni_id ` set (epic_issues db e)" by (force simp: listed_def in_epic_issues)
    then have "?A x \<subseteq> ni_id ` set (epic_issues db e)" using sub[OF True] by simp
    then have "card (?A x) \<le> card (ni_id ` set (epic_issues db e))" by (intro card_mono) auto
    also have "\<dots> \<le> length (epic_issues db e)" by (meson List.finite_set card_image_le card_length le_trans)
    finally show ?thesis by simp
  next
    case False
    then have "x = []" using that by simp
    have "(x, y) \<notin> set (parent_pairs db)" for y
      using h rows \<open>x = []\<close> by (force simp: hierarchy_ok_def rows_ok_def epic_of_def issue_row_None)
    then have "y = x" if "(x, y) \<in> (set (parent_pairs db))\<^sup>*" for y using that by (metis converse_rtranclE)
    then have "?A x = {}" using id_not_empty[OF rows] \<open>x = []\<close> by auto
    then have "card (?A x) = 0" by simp
    then show ?thesis by linarith
  qed
  have "\<exists>q'. requirement_of (epic_issues db e) i = Some q' \<and> (q' = ''reference'' \<longleftrightarrow> reference_ancestor db (fi_id r))"
  proof (cases "hierarchy_row db (fi_id r)")
    case None
    then have "ni_requirement i = []" "ni_parent i = []" using r by (simp_all add: native_of_def)
    moreover obtain q' where "requirement_loop (Suc (length (epic_issues db e))) (epic_issues db e) [] [] = Some q'"
        "(q' = ''reference'') = reference_ancestor db []"
      using requirement_loop_ok[OF ok, of "[]" e _ "[]"] cardl[of "[]"] by force
    moreover have "\<not> reference_ancestor db (fi_id r)" by (rule reference_ancestor_root[OF None])
    moreover have "\<not> reference_ancestor db []"
    proof (rule reference_ancestor_root)
      show "hierarchy_row db [] = None"
        unfolding hierarchy_row_None using h rows
        by (force simp: hierarchy_ok_def parent_pairs_iff rows_ok_def epic_of_def issue_row_None)
    qed
    ultimately show ?thesis by (simp add: requirement_of_def)
  next
    case (Some h')
    then obtain p q where hr: "(fi_id r, p, q) \<in> set (db_hierarchy db)" "h' = (p, q)"
      using h by (cases h') (simp add: hierarchy_row_iff)
    have req: "ni_requirement i = q" and par: "ni_parent i = p" using r Some hr(2) by (simp_all add: native_of_def)
    have lp: "p = [] \<or> listed db e p" using parent_listed[OF ok li hr(1)] by simp
    have step: "reference_ancestor db (fi_id r) \<longleftrightarrow> q = ''reference'' \<or> reference_ancestor db p"
      by (rule reference_ancestor_step[OF h hr(1)])
    show ?thesis
    proof (cases "q = ''reference''")
      case True
      then show ?thesis using req step by (simp add: requirement_of_def)
    next
      case False
      then show ?thesis using requirement_loop_ok[OF ok lp cardl[OF lp] False] req par step
        by (simp only: requirement_of_def if_False simp_thms)
    qed
  qed
  then show "requirement_of (epic_issues db e) i \<noteq> None"
    "is_reference (epic_issues db e) i \<longleftrightarrow> reference_ancestor db (ni_id i)"
    using r by auto
qed

section \<open>The states as a table\<close>

definition newer :: "native_issue \<Rightarrow> native_issue \<Rightarrow> bool" where
  "newer i l \<longleftrightarrow> ni_created i > ni_created l \<or> (ni_created i = ni_created l \<and> ni_id i > ni_id l)"

lemma newer_delivery_eq:
  "newer_delivery d i = (case d of None \<Rightarrow> Some i | Some l \<Rightarrow> if newer i l then Some i else Some l)"
  by (simp add: newer_delivery_def newer_def split: option.splits)

lemma newest_None: "foldl newer_delivery None xs = None \<longleftrightarrow> xs = []"
  by (induction xs rule: rev_induct) (auto simp: newer_delivery_eq split: option.splits)

lemma newest_Some:
  "foldl newer_delivery None xs = Some l \<Longrightarrow> l \<in> set xs \<and> (\<forall>x \<in> set xs. \<not> newer x l)"
proof (induction xs arbitrary: l rule: rev_induct)
  case (snoc x xs)
  show ?case
  proof (cases "foldl newer_delivery None xs")
    case None
    then show ?thesis using snoc.prems by (simp add: newest_None newer_delivery_eq newer_def)
  next
    case (Some m)
    then have m: "m \<in> set xs" "\<forall>y \<in> set xs. \<not> newer y m" using snoc.IH by auto
    have l: "l = (if newer x m then x else m)" using snoc.prems Some by (simp add: newer_delivery_eq[of "Some m"] split: if_splits)
    have "\<not> newer y l" if "y \<in> set xs" for y
      using m(2) that l by (auto simp: newer_def split: if_splits)
    moreover have "\<not> newer x l" using l by (auto simp: newer_def)
    ultimately show ?thesis using m(1) l by auto
  qed
qed simp

text \<open>The newest delivery of a project in an epic, and whether it ended the project's work: it
  succeeded and every required piece of work of the project is one it waited for.\<close>

definition newest_delivery :: "factory_db \<Rightarrow> string \<Rightarrow> string \<Rightarrow> native_issue \<Rightarrow> bool" where
  "newest_delivery db e p d \<longleftrightarrow>
     d \<in> set (epic_issues db e) \<and> ni_project d = p \<and> ni_kind d = ''delivery'' \<and>
     (\<forall>x \<in> set (epic_issues db e). ni_project x = p \<longrightarrow> ni_kind x = ''delivery'' \<longrightarrow> \<not> newer x d)"

definition delivery_done :: "factory_db \<Rightarrow> string \<Rightarrow> string \<Rightarrow> bool" where
  "delivery_done db e p \<longleftrightarrow> (\<exists>d \<in> set (epic_issues db e). newest_delivery db e p d \<and>
     ni_status d = ''closed'' \<and> ni_outcome d = ''succeeded'' \<and>
     (\<forall>i \<in> set (epic_issues db e). ni_project i = p \<and> is_work i \<and>
        requirement_of (epic_issues db e) i = Some ''required'' \<longrightarrow>
        (\<exists>r \<in> set (dep_rows db e). dr_issue r = ni_id d \<and> dr_type r = ''blocks'' \<and> fi_id (dr_blocker r) = ni_id i)))"

definition held_by :: "factory_db \<Rightarrow> string \<Rightarrow> native_issue \<Rightarrow> verdict set" where
  "held_by db e i = row_verdict ` set (edges_of (dep_rows db e) i)"

definition dispatch_table :: "factory_db \<Rightarrow> string \<Rightarrow> native_issue \<Rightarrow> string" where
  "dispatch_table db e i =
     (if reference_ancestor db (ni_id i) then ''reference''
      else if delivery_done db e (ni_project i) \<and> is_work i \<and> ni_status i \<noteq> ''closed'' then ''not_applicable''
      else if ni_status i = ''deferred'' \<or> ni_status i = ''retry_wait'' then ni_status i
      else if ni_status i = ''closed'' then ''completed''
      else if ni_status i \<noteq> ''open'' then ''waiting''
      else if Skips \<in> held_by db e i then ''not_applicable''
      else if Ends \<in> held_by db e i then ''terminally_blocked''
      else if Holds \<in> held_by db e i then ''waiting''
      else if pending_graph db e \<noteq> None \<and> (is_work i \<or> ni_kind i = ''delivery'') then ''waiting''
      else ''ready'')"

text \<open>The issue the code returns for a listed one.\<close>

definition waiting_start :: "native_issue \<Rightarrow> native_issue" where
  "waiting_start i = i\<lparr>ni_dispatch := ''waiting''\<rparr>"

definition graph_hold :: "factory_db \<Rightarrow> string \<Rightarrow> native_issue \<Rightarrow> native_issue" where
  "graph_hold db e i =
     (case pending_graph db e of
        None \<Rightarrow> i
      | Some g \<Rightarrow>
          if ni_status i = ''open'' \<and> (is_work i \<or> ni_kind i = ''delivery'') \<and> ni_dispatch i = ''ready''
          then i\<lparr>ni_dispatch := ''waiting'', ni_blockers := ni_blockers i @
                 [\<lparr>nb_id = pg_issue g, nb_epic = e, nb_type = ''blocks'',
                   nb_reason = ''Waiting for graph approval.'', nb_outcome = []\<rparr>]\<rparr>
          else i)"

definition dispatched :: "factory_db \<Rightarrow> string \<Rightarrow> native_issue \<Rightarrow> native_issue" where
  "dispatched db e i =
     (let start = map waiting_start (epic_issues db e); rs = dep_rows db e
      in graph_hold db e (dispatch_state (acc_after start rs) (annotate start rs (waiting_start i))))"

lemma waiting_start_fields [simp]:
  "ni_id (waiting_start i) = ni_id i" "shape (waiting_start i) = shape i"
  "ni_status (waiting_start i) = ni_status i" "ni_kind (waiting_start i) = ni_kind i"
  "ni_project (waiting_start i) = ni_project i" "ni_created (waiting_start i) = ni_created i"
  "ni_outcome (waiting_start i) = ni_outcome i" "ni_blockers (waiting_start i) = ni_blockers i"
  "ni_depends_on (waiting_start i) = ni_depends_on i"
  "is_work (waiting_start i) = is_work i" "edges_of rs (waiting_start i) = edges_of rs i"
  by (simp_all add: waiting_start_def shape_def is_work_def edges_of_def)

lemma map_id_start: "map ni_id (map waiting_start issues) = map ni_id issues"
  by (simp add: comp_def)

lemma list_factory_issues_eq:
  assumes ok: "graph_ok db"
  shows "list_factory_issues db e = Some (map (dispatched db e) (epic_issues db e))"
proof -
  let ?start = "map waiting_start (epic_issues db e)"
  have rows: "rows_ok db" using ok by (simp add: graph_ok_def)
  have d: "distinct (map ni_id ?start)" using distinct_epic_issues[OF rows] by (simp only: map_id_start)
  have ret: "\<not> (\<exists>i \<in> set (epic_issues db e). requirement_of (epic_issues db e) i = None)"
    using requirement_of_listed(1)[OF ok] by blast
  have block: "block_graph_approval db e xs = map (graph_hold db e) xs" for xs
    unfolding block_graph_approval_def graph_hold_def by (cases "pending_graph db e") simp_all
  have start: "map (\<lambda>i. i\<lparr>ni_dispatch := ''waiting''\<rparr>) (epic_issues db e) = ?start"
    by (simp add: waiting_start_def)
  show ?thesis
    unfolding list_factory_issues_def derive_dispatch_def if_not_P[OF ret] start Let_def dispatch_fold[OF d] block
    by (simp add: acc_after_def dispatched_def Let_def comp_def)
qed

lemma newest_map:
  assumes "\<And>i l. newer (f i) (f l) = newer i l"
  shows "foldl newer_delivery None (map f xs) = map_option f (foldl newer_delivery None xs)"
proof (induction xs rule: rev_induct)
  case (snoc x xs)
  have "newer_delivery (map_option f d) (f x) = map_option f (newer_delivery d x)" for d
    by (simp add: newer_delivery_eq assms split: option.splits)
  then show ?case using snoc by simp
qed simp

lemma newer_unique:
  assumes "\<not> newer a b" "\<not> newer b a" shows "ni_id a = ni_id b"
  using assms unfolding newer_def by (metis linorder_less_linear)

definition with_edges :: "factory_db \<Rightarrow> string \<Rightarrow> native_issue \<Rightarrow> native_issue" where
  "with_edges db e i = annotate (map waiting_start (epic_issues db e)) (dep_rows db e) (waiting_start i)"

lemma with_edges_fields [simp]:
  "ni_id (with_edges db e i) = ni_id i" "shape (with_edges db e i) = shape i"
  "ni_status (with_edges db e i) = ni_status i" "ni_kind (with_edges db e i) = ni_kind i"
  "ni_project (with_edges db e i) = ni_project i" "ni_outcome (with_edges db e i) = ni_outcome i"
  "ni_created (with_edges db e i) = ni_created i" "is_work (with_edges db e i) = is_work i"
  by (simp_all add: with_edges_def is_work_def)

lemma newer_with_edges: "newer (with_edges db e i) (with_edges db e l) = newer i l"
  by (simp add: newer_def)

lemma requirement_with_edges:
  "requirement_of (map (with_edges db e) xs) (with_edges db e i) = requirement_of xs i"
  by (rule requirement_of_shape) simp_all

lemma depends_with_edges:
  assumes "d \<in> set (epic_issues db e)"
  shows "set (ni_depends_on (with_edges db e d)) =
    {(fi_id (dr_blocker r), dr_type r) | r. r \<in> set (dep_rows db e) \<and> dr_issue r = ni_id d}"
proof -
  have "ni_depends_on d = []" using assms in_epic_issues by auto
  then show ?thesis unfolding with_edges_def annotate_def by (auto simp: edges_of_def)
qed

lemma project_delivered_iff:
  assumes ok: "graph_ok db"
  shows "project_delivered (map (with_edges db e) (epic_issues db e)) p \<longleftrightarrow> delivery_done db e p"
proof -
  let ?raw = "epic_issues db e" and ?f = "with_edges db e"
  let ?ds = "filter (\<lambda>i. ni_project i = p \<and> ni_kind i = ''delivery'') ?raw"
  let ?required = "\<lambda>i. ni_project i = p \<and> is_work i \<and> requirement_of ?raw i = Some ''required''"
  have ids: "inj_on ni_id (set ?raw)"
    using distinct_epic_issues[of db e] ok by (simp add: graph_ok_def distinct_map)
  have latest: "latest_delivery (map ?f ?raw) p = map_option ?f (foldl newer_delivery None ?ds)"
    unfolding latest_delivery_def newest_map[OF newer_with_edges, symmetric]
    by (simp add: filter_map comp_def)
  have covered: "(\<forall>i \<in> set (map ?f ?raw). ni_project i = p \<and> is_work i \<and>
          requirement_of (map ?f ?raw) i = Some ''required'' \<longrightarrow> (ni_id i, ''blocks'') \<in> set (ni_depends_on (?f d))) \<longleftrightarrow>
      (\<forall>i \<in> set ?raw. ?required i \<longrightarrow> (\<exists>r \<in> set (dep_rows db e). dr_issue r = ni_id d \<and>
          dr_type r = ''blocks'' \<and> fi_id (dr_blocker r) = ni_id i))" if "d \<in> set ?raw" for d
    unfolding depends_with_edges[OF that] by (simp add: requirement_with_edges) (metis (no_types, lifting))
  show ?thesis
  proof (cases "foldl newer_delivery None ?ds")
    case None
    then have "?ds = []" by (simp add: newest_None)
    then have "\<not> newest_delivery db e p d" for d by (auto simp: newest_delivery_def filter_empty_conv)
    then show ?thesis using None by (simp add: project_delivered_def latest delivery_done_def)
  next
    case (Some l)
    then have l: "l \<in> set ?ds" "\<forall>x \<in> set ?ds. \<not> newer x l" using newest_Some by blast+
    then have newest: "newest_delivery db e p l" by (auto simp: newest_delivery_def)
    have uniq: "d = l" if "newest_delivery db e p d" for d
    proof (rule inj_onD[OF ids])
      show "ni_id d = ni_id l"
        by (rule newer_unique) (use that l in \<open>auto simp: newest_delivery_def\<close>)
    qed (use that l in \<open>auto simp: newest_delivery_def\<close>)
    have raw: "l \<in> set ?raw" using l(1) by simp
    have "delivery_done db e p \<longleftrightarrow> ni_status l = ''closed'' \<and> ni_outcome l = ''succeeded'' \<and>
        (\<forall>i \<in> set ?raw. ?required i \<longrightarrow> (\<exists>r \<in> set (dep_rows db e). dr_issue r = ni_id l \<and>
          dr_type r = ''blocks'' \<and> fi_id (dr_blocker r) = ni_id i))"
      unfolding delivery_done_def using uniq newest raw by blast
    then show ?thesis
      unfolding project_delivered_def latest Some using covered[OF raw] by simp
  qed
qed

lemma marked_start:
  assumes ok: "graph_ok db" and i: "i \<in> set (epic_issues db e)"
  shows "ni_id i \<in> marked v (map waiting_start (epic_issues db e)) (dep_rows db e) \<longleftrightarrow>
    ni_status i = ''open'' \<and> \<not> reference_ancestor db (ni_id i) \<and> v \<in> held_by db e i"
proof -
  let ?raw = "epic_issues db e"
  have ids: "inj_on ni_id (set ?raw)"
    using distinct_epic_issues[of db e] ok by (simp add: graph_ok_def distinct_map)
  have req: "requirement_of (map waiting_start ?raw) (waiting_start i) = requirement_of ?raw i"
    by (rule requirement_of_shape) simp_all
  have "(\<exists>j \<in> set (map waiting_start ?raw). ni_id j = ni_id i \<and> P j) \<longleftrightarrow> P (waiting_start i)" for P
    using i ids by (auto dest: inj_onD)
  then have "ni_id i \<in> marked v (map waiting_start ?raw) (dep_rows db e) \<longleftrightarrow>
      may_run (map waiting_start ?raw) (waiting_start i) \<and> (\<exists>r \<in> set (dep_rows db e). dr_issue r = ni_id i \<and> row_verdict r = v)"
    unfolding in_marked by simp
  moreover have "may_run (map waiting_start ?raw) (waiting_start i) \<longleftrightarrow> ni_status i = ''open'' \<and> \<not> reference_ancestor db (ni_id i)"
    using requirement_of_listed(2)[OF ok i] by (simp add: may_run_def req)
  ultimately show ?thesis by (auto simp: held_by_def edges_of_def)
qed

text \<open>The state before the hold of an unapproved graph.\<close>

definition edge_table :: "factory_db \<Rightarrow> string \<Rightarrow> native_issue \<Rightarrow> string" where
  "edge_table db e i =
     (if reference_ancestor db (ni_id i) then ''reference''
      else if delivery_done db e (ni_project i) \<and> is_work i \<and> ni_status i \<noteq> ''closed'' then ''not_applicable''
      else if ni_status i = ''deferred'' \<or> ni_status i = ''retry_wait'' then ni_status i
      else if ni_status i = ''closed'' then ''completed''
      else if ni_status i \<noteq> ''open'' then ''waiting''
      else if Skips \<in> held_by db e i then ''not_applicable''
      else if Ends \<in> held_by db e i then ''terminally_blocked''
      else if Holds \<in> held_by db e i then ''waiting'' else ''ready'')"

definition unheld :: "factory_db \<Rightarrow> string \<Rightarrow> native_issue \<Rightarrow> native_issue" where
  "unheld db e i =
     dispatch_state (acc_after (map waiting_start (epic_issues db e)) (dep_rows db e)) (with_edges db e i)"

lemma dispatched_unheld: "dispatched db e i = graph_hold db e (unheld db e i)"
  by (simp add: dispatched_def Let_def with_edges_def unheld_def)

lemma unheld_fields [simp]:
  "ni_id (unheld db e i) = ni_id i" "ni_status (unheld db e i) = ni_status i"
  "ni_kind (unheld db e i) = ni_kind i" "ni_project (unheld db e i) = ni_project i"
  "is_work (unheld db e i) = is_work i" "ni_blockers (unheld db e i) = ni_blockers (with_edges db e i)"
  by (simp_all add: unheld_def dispatch_state_def is_work_def)

lemma unheld_state:
  assumes ok: "graph_ok db" and i: "i \<in> set (epic_issues db e)"
  shows "ni_dispatch (unheld db e i) = edge_table db e i"
proof -
  let ?acc = "acc_after (map waiting_start (epic_issues db e)) (dep_rows db e)"
  have issues: "da_issues ?acc = map (with_edges db e) (epic_issues db e)"
    by (simp add: acc_after_def with_edges_def comp_def)
  have sets: "ni_id i \<in> da_not_applicable ?acc \<longleftrightarrow> ni_status i = ''open'' \<and> \<not> reference_ancestor db (ni_id i) \<and> Skips \<in> held_by db e i"
      "ni_id i \<in> da_blocked ?acc \<longleftrightarrow> ni_status i = ''open'' \<and> \<not> reference_ancestor db (ni_id i) \<and> Ends \<in> held_by db e i"
      "ni_id i \<in> da_waiting ?acc \<longleftrightarrow> ni_status i = ''open'' \<and> \<not> reference_ancestor db (ni_id i) \<and> Holds \<in> held_by db e i"
    by (simp_all add: acc_after_def marked_start[OF ok i])
  have ref: "is_reference (da_issues ?acc) (with_edges db e i) \<longleftrightarrow> reference_ancestor db (ni_id i)"
    unfolding issues requirement_with_edges by (rule requirement_of_listed(2)[OF ok i])
  have del: "project_delivered (da_issues ?acc) (ni_project i) \<longleftrightarrow> delivery_done db e (ni_project i)"
    unfolding issues by (rule project_delivered_iff[OF ok])
  show ?thesis
    unfolding unheld_def dispatch_state_def ref edge_table_def by (simp add: del sets)
qed

lemma dispatched_state:
  assumes ok: "graph_ok db" and i: "i \<in> set (epic_issues db e)"
  shows "ni_dispatch (dispatched db e i) = dispatch_table db e i"
proof -
  have "ni_dispatch (graph_hold db e (unheld db e i)) =
      (if pending_graph db e \<noteq> None \<and> ni_status i = ''open'' \<and> (is_work i \<or> ni_kind i = ''delivery'') \<and>
          edge_table db e i = ''ready'' then ''waiting'' else edge_table db e i)"
    unfolding graph_hold_def by (cases "pending_graph db e") (simp_all add: unheld_state[OF ok i])
  moreover have "edge_table db e i = ''ready'' \<longleftrightarrow> \<not> reference_ancestor db (ni_id i) \<and>
      \<not> (delivery_done db e (ni_project i) \<and> is_work i \<and> ni_status i \<noteq> ''closed'') \<and> ni_status i = ''open'' \<and>
      Skips \<notin> held_by db e i \<and> Ends \<notin> held_by db e i \<and> Holds \<notin> held_by db e i"
    by (auto simp add: edge_table_def)
  ultimately show ?thesis
    unfolding dispatched_unheld dispatch_table_def edge_table_def
    by (cases "ni_status i = ''open''") simp_all
qed

section \<open>What a listing shows\<close>

lemma dispatched_fields [simp]:
  "ni_id (dispatched db e i) = ni_id i" "ni_status (dispatched db e i) = ni_status i"
  "ni_kind (dispatched db e i) = ni_kind i" "ni_project (dispatched db e i) = ni_project i"
  "is_work (dispatched db e i) = is_work i"
  unfolding dispatched_unheld graph_hold_def is_work_def by (cases "pending_graph db e"; simp)+

lemma listed_issue:
  assumes "graph_ok db" "list_factory_issues db e = Some out" "x \<in> set out"
  obtains i where "i \<in> set (epic_issues db e)" "x = dispatched db e i"
  using assms list_factory_issues_eq by auto

lemma graph_hold_blockers:
  "ni_blockers (graph_hold db e s) = ni_blockers s @
     (case pending_graph db e of None \<Rightarrow> []
      | Some g \<Rightarrow>
          if ni_status s = ''open'' \<and> (is_work s \<or> ni_kind s = ''delivery'') \<and> ni_dispatch s = ''ready''
          then [\<lparr>nb_id = pg_issue g, nb_epic = e, nb_type = ''blocks'',
                 nb_reason = ''Waiting for graph approval.'', nb_outcome = []\<rparr>] else [])"
  unfolding graph_hold_def by (cases "pending_graph db e") simp_all

lemma dispatched_blockers:
  assumes ok: "graph_ok db" and i: "i \<in> set (epic_issues db e)"
  shows "ni_blockers (dispatched db e i) = [] \<longleftrightarrow>
     (ni_status i = ''open'' \<longrightarrow> \<not> reference_ancestor db (ni_id i) \<longrightarrow> held_by db e i \<subseteq> {Satisfied}) \<and>
     (pending_graph db e \<noteq> None \<longrightarrow>
       \<not> (ni_status i = ''open'' \<and> (is_work i \<or> ni_kind i = ''delivery'') \<and> edge_table db e i = ''ready''))"
proof -
  have req: "requirement_of (map waiting_start (epic_issues db e)) (waiting_start i) = requirement_of (epic_issues db e) i"
    by (rule requirement_of_shape) simp_all
  have run: "may_run (map waiting_start (epic_issues db e)) (waiting_start i) \<longleftrightarrow>
      ni_status i = ''open'' \<and> \<not> reference_ancestor db (ni_id i)"
    using requirement_of_listed(2)[OF ok i] by (simp add: may_run_def req)
  have none: "ni_blockers i = []" using i in_epic_issues by auto
  have "ni_blockers (with_edges db e i) = [] \<longleftrightarrow>
      (ni_status i = ''open'' \<longrightarrow> \<not> reference_ancestor db (ni_id i) \<longrightarrow> held_by db e i \<subseteq> {Satisfied})"
    by (auto simp: with_edges_def annotate_def run none held_by_def filter_empty_conv)
  then show ?thesis
    unfolding dispatched_unheld graph_hold_blockers append_is_Nil_conv unheld_fields
    by (cases "pending_graph db e") (simp_all add: unheld_state[OF ok i])
qed

text \<open>
  A sample epic: its root Mol holds one closed task, two open ones that wait for it, the first on
  success and the second on failure, and the delivery that waits for the first two.
\<close>

definition sample_issue :: "string \<Rightarrow> string \<Rightarrow> string \<Rightarrow> string \<Rightarrow> f_issue" where
  "sample_issue i kind status outcome =
     \<lparr>fi_id = i, fi_epic = ''e'', fi_project = ''p'', fi_kind = kind, fi_title = ''t'',
      fi_description = [], fi_status = status, fi_outcome = outcome, fi_reason = [],
      fi_created = 1, fi_retry_at = 0, fi_retry_attempts = 0\<rparr>"

definition sample_graph :: factory_db where
  "sample_graph =
     \<lparr>db_epics = [''e'' \<mapsto> \<lparr>fe_status = ''open'', fe_project = ''p'', fe_platform = ''x'',
        fe_models = \<lparr>em_plan = [], em_implementation = [], em_verification = []\<rparr>, fe_rules = []\<rparr>],
      db_epic_projects = [(''e'', ''p'', True)],
      db_issues = [sample_issue ''m'' ''mol'' ''open'' [], sample_issue ''a'' ''task'' ''closed'' ''succeeded'',
        sample_issue ''b'' ''task'' ''open'' [], sample_issue ''c'' ''task'' ''open'' [],
        sample_issue ''d'' ''delivery'' ''open'' []],
      db_hierarchy = [(''a'', ''m'', ''required''), (''b'', ''m'', ''required''),
        (''c'', ''m'', ''optional''), (''d'', ''m'', ''required'')],
      db_child_index = [''a'' \<mapsto> 1, ''b'' \<mapsto> 2, ''c'' \<mapsto> 3, ''d'' \<mapsto> 4], db_sequences = [''m'' \<mapsto> 5],
      db_deps = [(''b'', ''a'', ''blocks''), (''c'', ''a'', ''on_failure''), (''d'', ''a'', ''blocks''), (''d'', ''b'', ''blocks'')],
      db_removed = Map.empty, db_gates = [], db_proposals = [], db_formula_mols = [''m''],
      db_observations = Map.empty, db_project_gates = [], db_steps = Map.empty, db_provenance = [],
      db_attempts = [], db_tokens = [], db_recoveries = [], db_escalations = [], db_waivers = [], db_acks = [''p''],
      db_capacity = None, db_overrides = Map.empty, db_audit = []\<rparr>"

lemma sample_graph_ok: "graph_ok sample_graph"
proof -
  have p: "set (parent_pairs sample_graph) = {(''a'', ''m''), (''b'', ''m''), (''c'', ''m''), (''d'', ''m'')}"
    by (simp add: parent_pairs_def sample_graph_def)
  have q: "set (dep_pairs sample_graph) = {(''b'', ''a''), (''c'', ''a''), (''d'', ''a''), (''d'', ''b'')}"
    by (simp add: dep_pairs_def sample_graph_def)
  have "acyclic (set (parent_pairs sample_graph))"
    unfolding p by (rule acyclicI_order[where f = "\<lambda>x. if x = ''m'' then 0 else 1 :: nat"]) auto
  moreover have "acyclic (set (dep_pairs sample_graph))"
    unfolding q by (rule acyclicI_order[where f = "\<lambda>x. if x = ''d'' then 2 else if x = ''a'' then 0 else 1 :: nat"]) auto
  ultimately show ?thesis
    unfolding graph_ok_def hierarchy_ok_def deps_ok_def rows_ok_def p q
    by (simp add: sample_graph_def epic_of_def issue_row_def sample_issue_def)
qed

text \<open>
  C3: the listing of an epic's issues always returns, lists exactly the epic's issues that are not
  removed, and gives each the state of the dispatch table: references never run, a delivered
  project's remaining work does not run, and an open issue runs only if none of its effective
  dependencies holds it and the graph does not await approval.
\<close>

theorem listing_follows_dispatch_table:
  assumes "graph_ok db"
  shows "\<exists>out. list_factory_issues db e = Some out \<and> map ni_id out = map ni_id (epic_issues db e) \<and>
    map ni_dispatch out = map (dispatch_table db e) (epic_issues db e)"
  using list_factory_issues_eq[OF assms, of e] dispatched_state[OF assms] by (simp add: comp_def)

lemma listing_follows_dispatch_table_witness:
  "graph_ok sample_graph \<and> (\<exists>out. list_factory_issues sample_graph ''e'' = Some out \<and>
     map ni_dispatch out = [''ready'', ''completed'', ''ready'', ''not_applicable'', ''waiting''])"
proof -
  have "map (dispatch_table sample_graph ''e'') (epic_issues sample_graph ''e'') =
      [''ready'', ''completed'', ''ready'', ''not_applicable'', ''waiting'']"
    by code_simp
  then show ?thesis using listing_follows_dispatch_table[OF sample_graph_ok, of "''e''"] sample_graph_ok by auto
qed

text \<open>
  C18: an open issue that is listed is ready exactly when no blocker is listed with it: whatever
  holds work back (a dependency, a removal that awaits approval, the approval of the graph) is
  named. Only references and the work of a delivered project are not ready without one.
\<close>

theorem held_work_names_its_blockers:
  assumes "graph_ok db" "list_factory_issues db e = Some out" "x \<in> set out" "ni_status x = ''open''"
    and "ni_dispatch x \<noteq> ''reference''" "\<not> (is_work x \<and> delivery_done db e (ni_project x))"
  shows "ni_dispatch x = ''ready'' \<longleftrightarrow> ni_blockers x = []"
proof -
  obtain i where i: "i \<in> set (epic_issues db e)" and x: "x = dispatched db e i"
    by (rule listed_issue[OF assms(1-3)])
  have state: "ni_dispatch x = dispatch_table db e i" unfolding x by (rule dispatched_state[OF assms(1) i])
  have notref: "\<not> reference_ancestor db (ni_id i)"
    using assms(5) unfolding state by (auto simp: dispatch_table_def)
  have st: "ni_status i = ''open''" "\<not> (delivery_done db e (ni_project i) \<and> is_work i \<and> ni_status i \<noteq> ''closed'')"
    using assms(4,6) by (auto simp: x)
  have v: "held_by db e i \<subseteq> {Satisfied} \<longleftrightarrow> Skips \<notin> held_by db e i \<and> Ends \<notin> held_by db e i \<and> Holds \<notin> held_by db e i"
    by (auto, metis verdict.exhaust)
  have b: "ni_blockers x = [] \<longleftrightarrow> held_by db e i \<subseteq> {Satisfied} \<and>
      (pending_graph db e \<noteq> None \<longrightarrow> \<not> ((is_work i \<or> ni_kind i = ''delivery'') \<and> edge_table db e i = ''ready''))"
    unfolding x dispatched_blockers[OF assms(1) i] using notref st by simp
  show ?thesis
    unfolding b state dispatch_table_def edge_table_def v using notref st by auto
qed

lemma held_work_names_its_blockers_witness:
  "list_factory_issues sample_graph ''e'' = Some (map (dispatched sample_graph ''e'') (epic_issues sample_graph ''e'')) \<and>
   (let x = dispatched sample_graph ''e'' (epic_issues sample_graph ''e'' ! 4)
    in ni_dispatch x \<noteq> ''ready'' \<and> ni_blockers x \<noteq> [])"
proof -
  let ?i = "epic_issues sample_graph ''e'' ! 4"
  let ?x = "dispatched sample_graph ''e'' ?i"
  have len: "length (epic_issues sample_graph ''e'') = 5" by code_simp
  have l: "list_factory_issues sample_graph ''e'' = Some (map (dispatched sample_graph ''e'') (epic_issues sample_graph ''e''))"
    by (rule list_factory_issues_eq[OF sample_graph_ok])
  have i: "?i \<in> set (epic_issues sample_graph ''e'')" using len by simp
  have d: "ni_dispatch ?x = ''waiting''"
    unfolding dispatched_state[OF sample_graph_ok i] by code_simp
  have s: "ni_status ?x = ''open''" unfolding dispatched_fields by code_simp
  have w: "\<not> is_work ?x" unfolding dispatched_fields by code_simp
  have "ni_dispatch ?x = ''ready'' \<longleftrightarrow> ni_blockers ?x = []"
    by (rule held_work_names_its_blockers[OF sample_graph_ok l]) (use i d s w in auto)
  then show ?thesis using l d by (simp add: Let_def)
qed

end
