(* ===== verification/Factory_Claim.thy ===== *)
theory Factory_Claim
  imports Factory_Dispatch
begin

text \<open>
  Claiming work (\<open>internal/state/factory_claim.go\<close>, \<open>factory_delivery.go\<close>): the transaction that
  decides again, from the tables, whether an issue may run, checks the order of delivery, the
  workspace of the epic and the capacity, marks the issue \<open>in_progress\<close> and inserts the attempt
  with its frozen policy.
\<close>

section \<open>SQL truth values\<close>

text \<open>\<open>None\<close> is \<open>NULL\<close>; a \<open>WHERE\<close> keeps a row only when its condition is true.\<close>

type_synonym sql_bool = "bool option"

fun sql_not :: "sql_bool \<Rightarrow> sql_bool" where
  "sql_not None = None"
| "sql_not (Some a) = Some (\<not> a)"

fun sql_and :: "sql_bool \<Rightarrow> sql_bool \<Rightarrow> sql_bool" where
  "sql_and (Some False) b = Some False"
| "sql_and a (Some False) = Some False"
| "sql_and (Some True) (Some True) = Some True"
| "sql_and a b = None"

fun sql_or :: "sql_bool \<Rightarrow> sql_bool \<Rightarrow> sql_bool" where
  "sql_or (Some True) b = Some True"
| "sql_or a (Some True) = Some True"
| "sql_or (Some False) (Some False) = Some False"
| "sql_or a b = None"

definition sql_eq :: "'a option \<Rightarrow> 'a \<Rightarrow> sql_bool" where
  "sql_eq x c = map_option (\<lambda>v. v = c) x"

definition sql_true :: "sql_bool \<Rightarrow> bool" where
  "sql_true a \<longleftrightarrow> a = Some True"

section \<open>Whether an issue may be claimed\<close>

text \<open>The condition under \<open>NOT\<close> for one dependency; \<open>g.resolution\<close> is \<open>NULL\<close> for a blocker
  without a plan gate.\<close>

definition edge_met :: "factory_db \<Rightarrow> string \<Rightarrow> f_issue \<Rightarrow> sql_bool" where
  "edge_met db ty b =
     (let resolution = map_option pg_resolution (gate_of_issue db (fi_id b));
          is_closed = Some (fi_status b = ''closed'')
      in sql_or (sql_or
           (sql_and (sql_and (sql_and (Some (ty = ''blocks'')) is_closed) (Some (fi_outcome b = ''succeeded'')))
             (sql_or (Some (fi_kind b \<noteq> ''gate'')) (sql_eq resolution ''approved'')))
           (sql_and (sql_and (Some (ty = ''on_failure'')) is_closed)
             (sql_or (sql_and (Some (fi_kind b \<noteq> ''gate'')) (Some (fi_outcome b = ''failed'')))
                     (sql_and (Some (fi_kind b = ''gate'')) (sql_eq resolution ''rejected'')))))
           (sql_and (sql_and (Some (ty = ''merge_gated'')) (Some (fi_kind b = ''delivery'')))
             (Some (case db_observations db (fi_id b) of None \<Rightarrow> False | Some o' \<Rightarrow> fst o' = ''merged''))))"

definition unmet_dependency :: "factory_db \<Rightarrow> string \<Rightarrow> bool" where
  "unmet_dependency db i \<longleftrightarrow>
     (\<exists>(i', b, ty) \<in> set (db_deps db). i' = i \<and>
        (case issue_row db b of None \<Rightarrow> False
         | Some br \<Rightarrow> effective_blocker db b \<and> sql_true (sql_not (edge_met db ty br))))"

text \<open>The row of the claim's query: kind, status and project of the issue.\<close>

definition claimable_row :: "factory_db \<Rightarrow> string \<Rightarrow> string \<Rightarrow> f_issue option" where
  "claimable_row db e i =
     (case issue_row db i of
        None \<Rightarrow> None
      | Some r \<Rightarrow>
          if fi_epic r = e \<and> db_removed db i = None \<and>
             (\<exists>(e', p, m) \<in> set (db_epic_projects db). e' = e \<and> p = fi_project r) \<and>
             \<not> reference_ancestor db i \<and> \<not> unmet_dependency db i
          then Some r else None)"

definition claimable :: "factory_db \<Rightarrow> string \<Rightarrow> string \<Rightarrow> bool" where
  "claimable db e i \<longleftrightarrow>
     (case claimable_row db e i of
        None \<Rightarrow> False
      | Some r \<Rightarrow> fi_kind r \<in> {''implementation'', ''task'', ''delivery''} \<and> fi_status r = ''open'')"

section \<open>The claim agrees with the dispatch states\<close>

lemma sql_simps [simp]:
  "sql_and (Some a) (Some b) = Some (a \<and> b)" "sql_or (Some a) (Some b) = Some (a \<or> b)"
  "sql_eq (Some v) c = Some (v = c)" "sql_eq None c = None"
  by (cases a; cases b; simp add: sql_eq_def)+

definition edge_met_bool :: "factory_db \<Rightarrow> string \<Rightarrow> f_issue \<Rightarrow> bool" where
  "edge_met_bool db ty b \<longleftrightarrow>
     (ty = ''blocks'' \<and> fi_status b = ''closed'' \<and> fi_outcome b = ''succeeded'' \<and>
        (fi_kind b \<noteq> ''gate'' \<or> map_option pg_resolution (gate_of_issue db (fi_id b)) = Some ''approved'')) \<or>
     (ty = ''on_failure'' \<and> fi_status b = ''closed'' \<and>
        ((fi_kind b \<noteq> ''gate'' \<and> fi_outcome b = ''failed'') \<or>
         (fi_kind b = ''gate'' \<and> map_option pg_resolution (gate_of_issue db (fi_id b)) = Some ''rejected''))) \<or>
     (ty = ''merge_gated'' \<and> fi_kind b = ''delivery'' \<and>
        (case db_observations db (fi_id b) of None \<Rightarrow> False | Some o' \<Rightarrow> fst o' = ''merged''))"

lemma edge_met_known:
  assumes "fi_kind b = ''gate'' \<Longrightarrow> gate_of_issue db (fi_id b) \<noteq> None"
  shows "edge_met db ty b = Some (edge_met_bool db ty b)"
proof (cases "gate_of_issue db (fi_id b)")
  case None
  then have k: "(fi_kind b = ''gate'') = False" using assms by blast
  show ?thesis unfolding edge_met_def edge_met_bool_def None Let_def k by simp
next
  case (Some g)
  show ?thesis unfolding edge_met_def edge_met_bool_def Some Let_def by simp
qed

definition row_of :: "factory_db \<Rightarrow> string \<Rightarrow> string \<Rightarrow> f_issue \<Rightarrow> dep_row" where
  "row_of db i ty b =
     \<lparr>dr_issue = i, dr_type = ty, dr_blocker = b,
      dr_resolution = (case gate_of_issue db (fi_id b) of None \<Rightarrow> [] | Some g \<Rightarrow> pg_resolution g),
      dr_merge = (case db_observations db (fi_id b) of None \<Rightarrow> ([], []) | Some o' \<Rightarrow> o')\<rparr>"

lemma edge_met_verdict:
  assumes "ty \<in> {''blocks'', ''on_failure'', ''merge_gated''}"
    and "db_observations db (fi_id b) \<noteq> None \<Longrightarrow> fi_kind b = ''delivery''"
  shows "edge_met_bool db ty b \<longleftrightarrow> row_verdict (row_of db i ty b) = Satisfied"
proof -
  define r where "r = row_of db i ty b"
  have f: "dr_blocker r = b" "dr_type r = ty"
      "dr_resolution r = (case gate_of_issue db (fi_id b) of None \<Rightarrow> [] | Some g \<Rightarrow> pg_resolution g)"
      "dr_merge r = (case db_observations db (fi_id b) of None \<Rightarrow> ([], []) | Some o' \<Rightarrow> o')"
    by (simp_all add: r_def row_of_def)
  have ok: "succeeded_row r \<longleftrightarrow> fi_status b = ''closed'' \<and> fi_outcome b = ''succeeded'' \<and>
        (fi_kind b \<noteq> ''gate'' \<or> map_option pg_resolution (gate_of_issue db (fi_id b)) = Some ''approved'')"
      "failed_row r \<longleftrightarrow> fi_status b = ''closed'' \<and>
        ((fi_kind b \<noteq> ''gate'' \<and> fi_outcome b = ''failed'') \<or>
         (fi_kind b = ''gate'' \<and> map_option pg_resolution (gate_of_issue db (fi_id b)) = Some ''rejected''))"
    by (simp_all add: succeeded_row_def failed_row_def f split: option.splits)
  have v: "row_verdict r = Satisfied \<longleftrightarrow>
      (if ty = ''blocks'' then succeeded_row r
       else if ty = ''merge_gated'' then fst (dr_merge r) = ''merged'' else failed_row r)"
    by (simp add: row_verdict_def f)
  show ?thesis
  proof -
    from assms(1) consider "ty = ''blocks''" | "ty = ''on_failure''" | "ty = ''merge_gated''" by blast
    then show ?thesis
    proof cases
      case 3
      show ?thesis unfolding r_def[symmetric] unfolding v f edge_met_bool_def unfolding 3 using assms(2)
        by (cases "db_observations db (fi_id b)") auto
    next
      case 1
      show ?thesis unfolding r_def[symmetric] unfolding v ok edge_met_bool_def unfolding 1 by simp
    next
      case 2
      show ?thesis unfolding r_def[symmetric] unfolding v ok edge_met_bool_def unfolding 2 by simp
    qed
  qed
qed

text \<open>What the two ways of deciding share: every gate that blocks has a plan gate, and only
  deliveries have merge observations (which are recorded for deliveries only).\<close>

definition gates_known :: "factory_db \<Rightarrow> bool" where
  "gates_known db \<longleftrightarrow>
     (\<forall>(i, b, ty) \<in> set (db_deps db). \<forall>r. issue_row db b = Some r \<longrightarrow> fi_kind r = ''gate'' \<longrightarrow> gate_of_issue db b \<noteq> None)"

definition observations_ok :: "factory_db \<Rightarrow> bool" where
  "observations_ok db \<longleftrightarrow>
     (\<forall>r \<in> set (db_issues db). db_observations db (fi_id r) \<noteq> None \<longrightarrow> fi_kind r = ''delivery'')"

lemma in_dep_rows:
  assumes "rows_ok db" "r \<in> set (db_issues db)" "fi_epic r = e" "dr_issue d = fi_id r"
  shows "d \<in> set (dep_rows db e) \<longleftrightarrow>
    (\<exists>b ty br. (fi_id r, b, ty) \<in> set (db_deps db) \<and> issue_row db b = Some br \<and> effective_blocker db b \<and>
      d = row_of db (fi_id r) ty br)"
proof -
  have row: "issue_row db b = Some br \<Longrightarrow> fi_id br = b" for b br using assms(1) by (simp add: issue_row_iff)
  define rows where "rows = (\<lambda>(i, b, ty). case issue_row db b of None \<Rightarrow> []
      | Some br \<Rightarrow> if (\<exists>r \<in> set (db_issues db). fi_id r = i \<and> fi_epic r = e) \<and> effective_blocker db b
          then [row_of db i ty br] else [])"
  have eq: "dep_rows db e = concat (map rows (sort_key (\<lambda>(i, b, ty). i) (sort_key (\<lambda>(i, b, ty). b) (db_deps db))))"
    unfolding dep_rows_def rows_def row_of_def
    by (intro arg_cong[where f = concat] map_cong refl)
       (auto simp: row split: option.splits)
  have one: "d \<in> set (rows (i, b, ty)) \<longleftrightarrow> i = fi_id r \<and> (\<exists>br. issue_row db b = Some br \<and> effective_blocker db b \<and> d = row_of db i ty br)"
    for i b ty
    using assms(2-4) by (cases "issue_row db b") (auto simp: rows_def row_of_def)
  have "d \<in> set (dep_rows db e) \<longleftrightarrow> (\<exists>(i, b, ty) \<in> set (db_deps db). d \<in> set (rows (i, b, ty)))"
    unfolding eq by auto
  then show ?thesis unfolding one by blast
qed

lemma unmet_iff_held:
  assumes ok: "graph_ok db" and g: "gates_known db" and o: "observations_ok db"
    and r: "r \<in> set (db_issues db)" "fi_epic r = e"
  shows "unmet_dependency db (fi_id r) \<longleftrightarrow> \<not> held_by db e (native_of db r) \<subseteq> {Satisfied}"
proof -
  have rows: "rows_ok db" and types: "\<forall>(i, b, ty) \<in> set (db_deps db). ty \<in> {''blocks'', ''on_failure'', ''merge_gated''}"
    using ok by (simp_all add: graph_ok_def deps_ok_def)
  have edge: "sql_true (sql_not (edge_met db ty br)) \<longleftrightarrow> row_verdict (row_of db (fi_id r) ty br) \<noteq> Satisfied"
    if d: "(fi_id r, b, ty) \<in> set (db_deps db)" and br: "issue_row db b = Some br" for b ty br
  proof -
    have id: "fi_id br = b" "br \<in> set (db_issues db)" using br rows by (simp_all add: issue_row_iff)
    have "edge_met db ty br = Some (edge_met_bool db ty br)"
      by (rule edge_met_known) (use g d br id in \<open>auto simp: gates_known_def\<close>)
    moreover have "edge_met_bool db ty br \<longleftrightarrow> row_verdict (row_of db (fi_id r) ty br) = Satisfied"
      by (rule edge_met_verdict) (use types d o id in \<open>auto simp: observations_ok_def\<close>)
    ultimately show ?thesis by (simp add: sql_true_def)
  qed
  have "unmet_dependency db (fi_id r) \<longleftrightarrow>
      (\<exists>b ty br. (fi_id r, b, ty) \<in> set (db_deps db) \<and> issue_row db b = Some br \<and> effective_blocker db b \<and>
        row_verdict (row_of db (fi_id r) ty br) \<noteq> Satisfied)"
    unfolding unmet_dependency_def using edge by (fastforce split: option.splits)
  also have "\<dots> \<longleftrightarrow> (\<exists>d \<in> set (dep_rows db e). dr_issue d = fi_id r \<and> row_verdict d \<noteq> Satisfied)"
  proof -
    have "dr_issue (row_of db (fi_id r) ty br) = fi_id r" for ty br by (simp add: row_of_def)
    then show ?thesis using in_dep_rows[OF rows r] by metis
  qed
  also have "\<dots> \<longleftrightarrow> \<not> held_by db e (native_of db r) \<subseteq> {Satisfied}"
    by (auto simp: held_by_def edges_of_def)
  finally show ?thesis .
qed

lemma ready_work_agrees:
  assumes ok: "graph_ok db" and g: "gates_known db" and o: "observations_ok db"
    and l: "list_factory_issues db e = Some out" "x \<in> set out"
    and k: "is_work x \<or> ni_kind x = ''delivery''"
    and p: "\<exists>m. (e, ni_project x, m) \<in> set (db_epic_projects db)"
  shows "ni_dispatch x = ''ready'' \<longleftrightarrow>
    claimable db e (ni_id x) \<and> pending_graph db e = None \<and> \<not> (is_work x \<and> delivery_done db e (ni_project x))"
proof -
  have rows: "rows_ok db" using ok by (simp add: graph_ok_def)
  obtain i where i: "i \<in> set (epic_issues db e)" and x: "x = dispatched db e i"
    by (rule listed_issue[OF ok l])
  obtain r where r: "r \<in> set (db_issues db)" "fi_epic r = e" "db_removed db (fi_id r) = None" "i = native_of db r"
    using i in_epic_issues by auto
  have row: "issue_row db (fi_id r) = Some r" using r rows by (simp add: issue_row_iff)
  have proj: "\<exists>(e', q, m) \<in> set (db_epic_projects db). e' = e \<and> q = fi_project r" using p x r(4) by auto
  have kind: "fi_kind r \<in> {''implementation'', ''task'', ''delivery''}" "is_work i \<or> ni_kind i = ''delivery''"
    using k x r(4) by (auto simp: is_work_def)
  have v: "held_by db e i \<subseteq> {Satisfied} \<longleftrightarrow> Skips \<notin> held_by db e i \<and> Ends \<notin> held_by db e i \<and> Holds \<notin> held_by db e i"
    by (auto, metis verdict.exhaust)
  have claim: "claimable db e (fi_id r) \<longleftrightarrow>
      fi_status r = ''open'' \<and> \<not> reference_ancestor db (fi_id r) \<and> held_by db e i \<subseteq> {Satisfied}"
    unfolding claimable_def claimable_row_def row r(4) using r(1-3) kind(1) proj unmet_iff_held[OF ok g o r(1,2)] by auto
  have state: "ni_dispatch (dispatched db e i) = dispatch_table db e i" by (rule dispatched_state[OF ok i])
  have ids: "ni_id i = fi_id r" "ni_status i = fi_status r" using r(4) by simp_all
  show ?thesis
    unfolding x unfolding state dispatched_fields ids(1) claim dispatch_table_def v using kind(2) ids
    by (cases "fi_status r = ''open''") auto
qed

text \<open>
  C4: the two places that decide whether work may run agree. On a well-formed graph a listed task,
  implementation or delivery of an admitted project shows as ready exactly when the claim's query
  would take it, no graph awaits approval and its project's delivery has not ended its work.
  Two conditions on the stored rows are needed and are hypotheses: every gate that blocks an issue has its
  plan gate row (runtime gates have none, see \<open>resolved_runtime_gate_divides_them\<close>), and merge
  observations are recorded for deliveries only.
\<close>

theorem ready_work_is_claimable_work:
  assumes ok: "graph_ok db" and g: "gates_known db" and o: "observations_ok db"
    and l: "list_factory_issues db e = Some out" "x \<in> set out"
    and k: "is_work x \<or> ni_kind x = ''delivery''"
    and p: "\<exists>m. (e, ni_project x, m) \<in> set (db_epic_projects db)"
  shows "ni_dispatch x = ''ready'' \<longleftrightarrow>
    claimable db e (ni_id x) \<and> pending_graph db e = None \<and> \<not> (is_work x \<and> delivery_done db e (ni_project x))"
  by (rule ready_work_agrees[OF assms])

lemma sample_rows_ok: "gates_known sample_graph \<and> observations_ok sample_graph"
  by (simp add: gates_known_def observations_ok_def sample_graph_def issue_row_def sample_issue_def)

lemma ready_work_is_claimable_work_witness:
  "list_factory_issues sample_graph ''e'' = Some (map (dispatched sample_graph ''e'') (epic_issues sample_graph ''e'')) \<and>
   ni_dispatch (dispatched sample_graph ''e'' (epic_issues sample_graph ''e'' ! 2)) = ''ready'' \<and>
   claimable sample_graph ''e'' ''b''"
proof -
  let ?i = "epic_issues sample_graph ''e'' ! 2"
  let ?x = "dispatched sample_graph ''e'' ?i"
  have len: "length (epic_issues sample_graph ''e'') = 5" by code_simp
  have l: "list_factory_issues sample_graph ''e'' = Some (map (dispatched sample_graph ''e'') (epic_issues sample_graph ''e''))"
    by (rule list_factory_issues_eq[OF sample_graph_ok])
  have i: "?i \<in> set (epic_issues sample_graph ''e'')" using len by simp
  have d: "ni_dispatch ?x = ''ready''" unfolding dispatched_state[OF sample_graph_ok i] by code_simp
  have w: "is_work ?x" unfolding dispatched_fields by code_simp
  have id: "ni_id ?x = ''b''" "ni_project ?x = ''p''" unfolding dispatched_fields by code_simp+
  have "ni_dispatch ?x = ''ready'' \<longleftrightarrow> claimable sample_graph ''e'' (ni_id ?x) \<and> pending_graph sample_graph ''e'' = None \<and>
      \<not> (is_work ?x \<and> delivery_done sample_graph ''e'' (ni_project ?x))"
    by (rule ready_work_is_claimable_work[OF sample_graph_ok _ _ l])
      (use sample_rows_ok i w id in \<open>auto simp: sample_graph_def\<close>)
  then show ?thesis using l d id by simp
qed

text \<open>
  A task linked to a recovery gate of its epic (which has no plan gate), after the gate was closed
  as \<open>succeeded\<close>: the comparison with the missing resolution is \<open>NULL\<close>, so the claim drops the
  dependency, while the listing reads the missing resolution as not approved.
\<close>

definition gate_graph :: factory_db where
  "gate_graph = sample_graph\<lparr>
     db_issues := [sample_issue ''m'' ''mol'' ''open'' [], sample_issue ''g'' ''gate'' ''closed'' ''succeeded'',
       sample_issue ''b'' ''task'' ''open'' []],
     db_hierarchy := [(''b'', ''m'', ''required'')], db_deps := [(''b'', ''g'', ''blocks'')]\<rparr>"

text \<open>
  without a plan gate the two places disagree: work that waits for a runtime gate that was
  resolved in its favour may be claimed, but is listed as terminally blocked, for good.
\<close>

theorem resolved_runtime_gate_divides_them:
  "\<exists>out. list_factory_issues gate_graph ''e'' = Some out \<and>
     map (\<lambda>x. (ni_id x, ni_dispatch x)) out = [(''m'', ''ready''), (''g'', ''completed''), (''b'', ''terminally_blocked'')] \<and>
     claimable gate_graph ''e'' ''b'' \<and> pending_graph gate_graph ''e'' = None"
proof -
  have ok: "graph_ok gate_graph"
  proof -
    have p: "set (parent_pairs gate_graph) = {(''b'', ''m'')}" "set (dep_pairs gate_graph) = {(''b'', ''g'')}"
      by (simp_all add: parent_pairs_def dep_pairs_def gate_graph_def)
    have "acyclic {}" by (simp add: acyclic_def)
    then have "acyclic {(''b'', ''m'')}" "acyclic {(''b'', ''g'')}" by (simp_all add: acyclic_insert)
    then show ?thesis
      unfolding graph_ok_def hierarchy_ok_def deps_ok_def rows_ok_def p
      by (simp add: gate_graph_def sample_graph_def epic_of_def issue_row_def sample_issue_def)
  qed
  have t: "map (\<lambda>i. (ni_id i, dispatch_table gate_graph ''e'' i)) (epic_issues gate_graph ''e'') =
      [(''m'', ''ready''), (''g'', ''completed''), (''b'', ''terminally_blocked'')]"
    by code_simp
  have "map (\<lambda>x. (ni_id x, ni_dispatch x)) (map (dispatched gate_graph ''e'') (epic_issues gate_graph ''e'')) =
      map (\<lambda>i. (ni_id i, dispatch_table gate_graph ''e'' i)) (epic_issues gate_graph ''e'')"
    using dispatched_state[OF ok] by simp
  moreover have "claimable gate_graph ''e'' ''b''" "pending_graph gate_graph ''e'' = None" by code_simp+
  ultimately show ?thesis using list_factory_issues_eq[OF ok, of "''e''"] t by auto
qed

section \<open>The order of delivery\<close>

datatype claim_error =
  BadProfile | EpicNotFound | EpicClosed | AwaitingApproval | NotReady | NoAcknowledgement
| StaleVerification | RequiredWorkOpen | OptionalWorkRunnable | AlreadyDelivered
| WorkspaceInUse | CapacityFull | NullColumn | IdTaken | NoReturn

text \<open>The later row on a tie: \<open>ORDER BY key DESC, rowid DESC LIMIT 1\<close>.\<close>

definition newest_by :: "('a \<Rightarrow> int) \<Rightarrow> 'a list \<Rightarrow> 'a option" where
  "newest_by key xs =
     foldl (\<lambda>best x. case best of None \<Rightarrow> Some x | Some b \<Rightarrow> if key x \<ge> key b then Some x else best) None xs"

text \<open>\<open>staleFactoryVerificationsSQL\<close>: validators that succeeded for another revision than the one
  the gate has approved.\<close>

definition verified_revision :: "factory_db \<Rightarrow> string \<Rightarrow> int" where
  "verified_revision db v =
     (case newest_by (\<lambda>a. int (fa_sequence a))
        (filter (\<lambda>a. fa_work a = v \<and> fa_outcome a = ''succeeded'') (db_attempts db)) of
        None \<Rightarrow> 0 | Some a \<Rightarrow> ap_plan_revision (fa_policy a))"

definition stale_verification :: "factory_db \<Rightarrow> string \<Rightarrow> f_issue \<Rightarrow> bool" where
  "stale_verification db e v \<longleftrightarrow>
     fi_epic v = e \<and> fi_kind v = ''task'' \<and> fi_status v = ''closed'' \<and> fi_outcome v = ''succeeded'' \<and>
     db_removed db (fi_id v) = None \<and>
     (case db_steps db (fi_id v) of None \<Rightarrow> False | Some st \<Rightarrow> ws_kind st = ''verification'') \<and>
     (case gate_of_epic db e of
        None \<Rightarrow> False
      | Some g \<Rightarrow>
          pg_resolution g = ''approved'' \<and>
          (case proposal_of db e (pg_revision g) of None \<Rightarrow> False | Some p \<Rightarrow> pr_graph p) \<and>
          (fi_id v, pg_revision g) \<notin> set (db_waivers db) \<and>
          pg_revision g \<noteq> verified_revision db (fi_id v))"

definition issue_succeeded :: "native_issue \<Rightarrow> bool" where
  "issue_succeeded i \<longleftrightarrow> ni_status i = ''closed'' \<and> ni_outcome i = ''succeeded'' \<and>
     (ni_kind i \<noteq> ''gate'' \<or> ni_gate_resolution i = ''approved'')"

text \<open>The issues of the project a delivery answers for.\<close>

definition before_delivery :: "native_issue list \<Rightarrow> string \<Rightarrow> native_issue \<Rightarrow> bool" where
  "before_delivery issues p i \<longleftrightarrow>
     ni_project i = p \<and> ni_kind i \<noteq> ''delivery'' \<and> ni_kind i \<noteq> ''mol'' \<and> ni_dispatch i \<noteq> ''not_applicable'' \<and>
     \<not> (ni_kind i = ''gate'' \<and> ni_gate_resolution i = []) \<and> \<not> is_reference issues i"

fun delivery_scan ::
  "native_issue list \<Rightarrow> string \<Rightarrow> string \<Rightarrow> native_issue list \<Rightarrow> native_issue option \<Rightarrow> claim_error + native_issue option"
where
  "delivery_scan issues p kind [] latest = Inr latest"
| "delivery_scan issues p kind (i # is) latest =
     (if ni_project i \<noteq> p then delivery_scan issues p kind is latest
      else let latest' = (if ni_kind i = ''delivery'' then newer_delivery latest i else latest) in
        if kind \<noteq> ''delivery'' \<or> \<not> before_delivery issues p i then delivery_scan issues p kind is latest'
        else if requirement_of issues i = Some ''required'' \<and> \<not> issue_succeeded i then Inl RequiredWorkOpen
        else if is_work i \<and> (ni_dispatch i = ''ready'' \<or> ni_status i = ''in_progress'') then Inl OptionalWorkRunnable
        else delivery_scan issues p kind is latest')"

definition validate_delivery_order :: "factory_db \<Rightarrow> string \<Rightarrow> string \<Rightarrow> string \<Rightarrow> claim_error option" where
  "validate_delivery_order db e p kind =
     (if kind = ''delivery'' \<and> (\<exists>v \<in> set (db_issues db). stale_verification db e v) then Some StaleVerification
      else case list_factory_issues db e of
          None \<Rightarrow> Some NoReturn
        | Some issues \<Rightarrow>
            (case delivery_scan issues p kind issues None of
               Inl err \<Rightarrow> Some err
             | Inr latest \<Rightarrow>
                 (case latest of
                    None \<Rightarrow> None
                  | Some d \<Rightarrow> if kind \<noteq> ''delivery'' \<and> ni_status d = ''closed'' \<and> ni_outcome d = ''succeeded''
                              then Some AlreadyDelivered else None)))"

section \<open>Capacity\<close>

definition implement_profile :: string where
  "implement_profile = ''factory-implement/v1''"

definition live_implementation :: "f_attempt \<Rightarrow> bool" where
  "live_implementation a \<longleftrightarrow>
     fa_phase a \<in> {''prepared'', ''active'', ''stopping''} \<and> ap_profile (fa_policy a) = implement_profile"

text \<open>An attempt that waits for a person (an open recovery, escalation or project request) gives
  its capacity back.\<close>

definition takes_capacity :: "factory_db \<Rightarrow> f_attempt \<Rightarrow> bool" where
  "takes_capacity db a \<longleftrightarrow> live_implementation a \<and>
     \<not> (\<exists>(i, at, res) \<in> set (db_recoveries db). at = fa_id a \<and> res = ''open'') \<and>
     \<not> (\<exists>(at, res) \<in> set (db_escalations db). at = fa_id a \<and> res \<notin> {''approve'', ''reject''}) \<and>
     \<not> (\<exists>g \<in> set (db_project_gates db). qg_attempt g = fa_id a \<and> qg_resolution g \<notin> {''approved'', ''rejected''})"

text \<open>\<open>factoryRecoveryYieldedSQL\<close>: the attempt handed its workspace over with a checkpoint.\<close>

definition yielded :: "factory_db \<Rightarrow> f_attempt \<Rightarrow> bool" where
  "yielded db a \<longleftrightarrow> fa_phase a = ''active'' \<and>
     (\<exists>(i, at, res) \<in> set (db_recoveries db). at = fa_id a \<and> res = ''open'' \<and>
        fa_summary a = ''Recovery workspace checkpoint '' @ i \<and> fa_commit a \<noteq> [])"

definition holds_workspace :: "factory_db \<Rightarrow> string \<Rightarrow> f_attempt \<Rightarrow> bool" where
  "holds_workspace db e a \<longleftrightarrow> fa_epic a = e \<and> live_implementation a \<and> \<not> yielded db a"

definition global_active :: "factory_db \<Rightarrow> int" where
  "global_active db = int (length (filter (takes_capacity db) (db_attempts db)))"

definition project_active :: "factory_db \<Rightarrow> string \<Rightarrow> int" where
  "project_active db p =
     int (length (filter (\<lambda>a. takes_capacity db a \<and> ap_repository (fa_policy a) = p) (db_attempts db)))"

definition global_capacity :: "factory_db \<Rightarrow> int" where
  "global_capacity db = (case db_capacity db of None \<Rightarrow> 10 | Some c \<Rightarrow> fst c)"

definition project_capacity :: "factory_db \<Rightarrow> string \<Rightarrow> int" where
  "project_capacity db p =
     (case db_overrides db p of Some c \<Rightarrow> c
      | None \<Rightarrow> (case db_capacity db of None \<Rightarrow> 4 | Some c \<Rightarrow> snd c))"

section \<open>The frozen policy\<close>

definition in_project :: "string \<Rightarrow> string \<Rightarrow> f_attempt \<Rightarrow> bool" where
  "in_project e p a \<longleftrightarrow> fa_epic a = e \<and> ap_repository (fa_policy a) = p"

definition empty_policy :: "string \<Rightarrow> string \<Rightarrow> attempt_policy" where
  "empty_policy p profile =
     \<lparr>ap_platform = [], ap_model = [], ap_branch = [], ap_base_ref = [], ap_target_branch = [],
      ap_checkpoint = [], ap_delivery = False, ap_plan_revision = 0, ap_plan_hash = [],
      ap_target_id = [], ap_repository = p, ap_projects = [], ap_profile = profile,
      ap_remote_type = [], ap_remote_host = [], ap_remote_repo = [], ap_rules = []\<rparr>"

text \<open>The project's newest delivery is a successor of a merged one and has no attempt yet.\<close>

definition successor_lineage :: "factory_db \<Rightarrow> string \<Rightarrow> string \<Rightarrow> bool" where
  "successor_lineage db e p \<longleftrightarrow>
     (let ds = filter (\<lambda>r. fi_epic r = e \<and> fi_project r = p \<and> fi_kind r = ''delivery'') (db_issues db) in
      \<exists>c \<in> set ds. db_removed db (fi_id c) = None \<and>
        (\<forall>d \<in> set ds. db_removed db (fi_id d) = None \<longrightarrow>
           \<not> (fi_created d > fi_created c \<or> (fi_created d = fi_created c \<and> fi_id d > fi_id c))) \<and>
        \<not> (\<exists>a \<in> set (db_attempts db). in_project e p a \<and> fa_created a \<ge> fi_created c) \<and>
        (\<exists>d \<in> set ds. fi_id d \<noteq> fi_id c \<and>
           (case db_observations db (fi_id d) of None \<Rightarrow> False | Some o' \<Rightarrow> fst o' = ''merged'')))"

definition latest_checkpoint :: "factory_db \<Rightarrow> string \<Rightarrow> string \<Rightarrow> string option" where
  "latest_checkpoint db e p =
     (let handoffs = concat (map (\<lambda>r.
            (case find (\<lambda>a. fa_id a = au_attempt r) (db_attempts db) of
               None \<Rightarrow> []
             | Some a \<Rightarrow> if au_epic r = e \<and> ap_repository (fa_policy a) = p \<and>
                           au_action r = ''recovery.checkpoint'' \<and> au_commit r \<noteq> []
                         then [(au_created r, au_commit r)] else [])) (db_audit db));
          accepted = map (\<lambda>a. (fa_finished a, fa_commit a))
            (filter (\<lambda>a. in_project e p a \<and> fa_outcome a = ''succeeded'' \<and> fa_commit a \<noteq> []) (db_attempts db))
      in map_option snd (newest_by fst (handoffs @ accepted)))"

text \<open>\<open>attachWorkflowSteps\<close>: the step of the nearest pinned ancestor.\<close>

fun workflow_of :: "nat \<Rightarrow> factory_db \<Rightarrow> native_issue list \<Rightarrow> string \<Rightarrow> workflow_step option" where
  "workflow_of 0 db issues i = None"
| "workflow_of (Suc n) db issues i =
     (if i = [] then None
      else case (if db_removed db i = None then db_steps db i else None) of
          Some st \<Rightarrow> Some st
        | None \<Rightarrow> workflow_of n db issues (case issue_in issues i of None \<Rightarrow> [] | Some x \<Rightarrow> ni_parent x))"

definition epic_projects :: "factory_db \<Rightarrow> string \<Rightarrow> string list" where
  "epic_projects db e =
     (let ps = filter (\<lambda>(e', p, m). e' = e) (db_epic_projects db)
      in map (\<lambda>(e', p, m). p) (sort_key (\<lambda>(e', p, m). if m then 0 else (1 :: nat)) (sort_key (\<lambda>(e', p, m). p) ps)))"

text \<open>The policy starts from the project's last one with a branch, is pinned to the approved plan,
  takes the model of the workflow step or of the epic, the newest accepted commit, the remote of
  an earlier delivery and the rules of the epic.\<close>

definition carried_policy :: "factory_db \<Rightarrow> string \<Rightarrow> f_epic \<Rightarrow> f_issue \<Rightarrow> string \<Rightarrow> attempt_policy" where
  "carried_policy db e epic r profile =
     (let p = fi_project r;
          p0 = (case newest_by fa_created (filter (\<lambda>a. in_project e p a \<and> ap_branch (fa_policy a) \<noteq> []) (db_attempts db)) of
                  None \<Rightarrow> empty_policy p profile | Some a \<Rightarrow> fa_policy a);
          p1 = (if successor_lineage db e p then p0\<lparr>ap_branch := [], ap_base_ref := [], ap_checkpoint := []\<rparr> else p0)
      in p1\<lparr>ap_repository := p, ap_platform := fe_platform epic, ap_projects := epic_projects db e,
            ap_delivery := (fi_kind r = ''delivery'')\<rparr>)"

definition pin_plan :: "factory_db \<Rightarrow> string \<Rightarrow> attempt_policy \<Rightarrow> attempt_policy" where
  "pin_plan db e q =
     (case gate_of_epic db e of
        None \<Rightarrow> q
      | Some g \<Rightarrow> q\<lparr>ap_model := pg_model g, ap_plan_revision := pg_revision g, ap_plan_hash := pg_hash g\<rparr>)"

definition choose_model :: "f_epic \<Rightarrow> workflow_step option \<Rightarrow> attempt_policy \<Rightarrow> attempt_policy" where
  "choose_model epic step q =
     (let verifies = (case step of None \<Rightarrow> False | Some st \<Rightarrow> ws_kind st = ''verification'');
          q1 = (if verifies then q\<lparr>ap_model := []\<rparr> else q);
          q2 = (case step of None \<Rightarrow> q1 | Some st \<Rightarrow> if ws_model st \<noteq> [] then q1\<lparr>ap_model := ws_model st\<rparr> else q1);
          m = (if verifies then em_verification (fe_models epic) else em_implementation (fe_models epic))
      in if m \<noteq> [] then q2\<lparr>ap_model := m\<rparr> else q2)"

definition take_checkpoint :: "factory_db \<Rightarrow> string \<Rightarrow> string \<Rightarrow> attempt_policy \<Rightarrow> attempt_policy" where
  "take_checkpoint db e p q =
     (if successor_lineage db e p then q
      else case latest_checkpoint db e p of None \<Rightarrow> q | Some sha \<Rightarrow> q\<lparr>ap_checkpoint := sha\<rparr>)"

text \<open>Empty JSON members are omitted and read back as \<open>NULL\<close>, which a string does not scan.\<close>

definition take_remote :: "factory_db \<Rightarrow> string \<Rightarrow> string \<Rightarrow> attempt_policy \<Rightarrow> claim_error + attempt_policy" where
  "take_remote db e p q =
     (case newest_by fa_created (filter (\<lambda>a. in_project e p a \<and> ap_remote_repo (fa_policy a) \<noteq> []) (db_attempts db)) of
        None \<Rightarrow> Inr q
      | Some a \<Rightarrow>
          if ap_remote_type (fa_policy a) = [] \<or> ap_remote_host (fa_policy a) = [] then Inl NullColumn
          else Inr (q\<lparr>ap_remote_type := ap_remote_type (fa_policy a),
                      ap_remote_host := ap_remote_host (fa_policy a),
                      ap_remote_repo := ap_remote_repo (fa_policy a)\<rparr>))"

definition carry_rules :: "f_epic \<Rightarrow> attempt_policy \<Rightarrow> attempt_policy" where
  "carry_rules epic q = (if fe_rules epic = [] then q else q\<lparr>ap_rules := fe_rules epic\<rparr>)"

definition claim_policy ::
  "factory_db \<Rightarrow> string \<Rightarrow> f_epic \<Rightarrow> f_issue \<Rightarrow> string \<Rightarrow> native_issue list \<Rightarrow> claim_error + attempt_policy"
where
  "claim_policy db e epic r profile issues =
     (case take_remote db e (fi_project r)
        (take_checkpoint db e (fi_project r)
          (choose_model epic (workflow_of (length issues) db issues (fi_id r))
            (pin_plan db e (carried_policy db e epic r profile)))) of
        Inl err \<Rightarrow> Inl err
      | Inr q \<Rightarrow> Inr (carry_rules epic q))"

section \<open>Claiming\<close>

definition set_issue :: "string \<Rightarrow> (f_issue \<Rightarrow> f_issue) \<Rightarrow> factory_db \<Rightarrow> factory_db" where
  "set_issue i f db = db\<lparr>db_issues := map (\<lambda>r. if fi_id r = i then f r else r) (db_issues db)\<rparr>"

definition next_sequence :: "factory_db \<Rightarrow> string \<Rightarrow> nat" where
  "next_sequence db i = foldr max (map fa_sequence (filter (\<lambda>a. fa_work a = i) (db_attempts db))) 0 + 1"

text \<open>Marking the issue and inserting the attempt; an error rolls everything back.\<close>

definition start_attempt ::
  "factory_db \<Rightarrow> string \<Rightarrow> string \<Rightarrow> attempt_policy \<Rightarrow> string \<Rightarrow> string \<Rightarrow> int \<Rightarrow> claim_error + f_attempt \<times> factory_db"
where
  "start_attempt db e i pol aid token now =
     (if aid \<in> fa_id ` set (db_attempts db) \<or> token \<in> fst ` set (db_tokens db) then Inl IdTaken
      else let a = \<lparr>fa_id = aid, fa_epic = e, fa_work = i, fa_sequence = next_sequence db i,
                    fa_phase = ''prepared'', fa_outcome = [], fa_policy = pol, fa_summary = [],
                    fa_commit = [], fa_created = now, fa_finished = 0\<rparr>;
               db1 = set_issue i (\<lambda>r. r\<lparr>fi_status := ''in_progress''\<rparr>) db
           in Inr (a, db1\<lparr>db_attempts := db_attempts db @ [a], db_tokens := db_tokens db @ [(token, aid)]\<rparr>))"

definition claim_checks :: "factory_db \<Rightarrow> string \<Rightarrow> string \<Rightarrow> string \<Rightarrow> claim_error + f_epic \<times> f_issue" where
  "claim_checks db e i profile =
     (if profile \<noteq> implement_profile then Inl BadProfile
      else case db_epics db e of
        None \<Rightarrow> Inl EpicNotFound
      | Some epic \<Rightarrow>
          if fe_status epic \<noteq> ''open'' then Inl EpicClosed
          else if pending_graph db e \<noteq> None then Inl AwaitingApproval
          else if \<not> claimable db e i then Inl NotReady
          else case claimable_row db e i of
            None \<Rightarrow> Inl NotReady
          | Some r \<Rightarrow>
              if fi_project r \<notin> set (db_acks db) then Inl NoAcknowledgement
              else case validate_delivery_order db e (fi_project r) (fi_kind r) of
                Some err \<Rightarrow> Inl err
              | None \<Rightarrow>
                  if \<exists>a \<in> set (db_attempts db). holds_workspace db e a then Inl WorkspaceInUse
                  else if global_active db \<ge> global_capacity db \<or>
                          project_active db (fi_project r) \<ge> project_capacity db (fi_project r) then Inl CapacityFull
                  else Inr (epic, r))"

definition claim_implementation ::
  "factory_db \<Rightarrow> string \<Rightarrow> string \<Rightarrow> string \<Rightarrow> string \<Rightarrow> string \<Rightarrow> int \<Rightarrow> claim_error + f_attempt \<times> factory_db"
where
  "claim_implementation db e i profile aid token now =
     (case claim_checks db e i profile of
        Inl err \<Rightarrow> Inl err
      | Inr (epic, r) \<Rightarrow>
          (let db1 = set_issue i (\<lambda>r. r\<lparr>fi_status := ''in_progress''\<rparr>) db
           in case list_factory_issues db1 e of
                None \<Rightarrow> Inl NoReturn
              | Some issues \<Rightarrow>
                  (case claim_policy db e epic r profile issues of
                     Inl err \<Rightarrow> Inl err
                   | Inr pol \<Rightarrow> start_attempt db e i pol aid token now)))"

text \<open>\<open>ClaimFactoryPlan\<close>: a plan is taken once, without capacity or workspace.\<close>

definition plan_row :: "factory_db \<Rightarrow> string \<Rightarrow> string \<Rightarrow> f_issue option" where
  "plan_row db e i =
     (case issue_row db i of
        None \<Rightarrow> None
      | Some r \<Rightarrow> if fi_epic r = e \<and> db_removed db i = None \<and> \<not> reference_ancestor db i then Some r else None)"

definition claim_plan ::
  "factory_db \<Rightarrow> string \<Rightarrow> string \<Rightarrow> string \<Rightarrow> string \<Rightarrow> string \<Rightarrow> int \<Rightarrow> claim_error + f_attempt \<times> factory_db"
where
  "claim_plan db e i profile aid token now =
     (case db_epics db e of
        None \<Rightarrow> Inl EpicNotFound
      | Some epic \<Rightarrow>
          if fe_status epic \<noteq> ''open'' then Inl EpicClosed
          else case plan_row db e i of
            None \<Rightarrow> Inl NotReady
          | Some r \<Rightarrow>
              if fi_kind r \<noteq> ''plan'' \<or> fi_status r \<noteq> ''open'' then Inl NotReady
              else let p0 = (empty_policy (fe_project epic) profile)\<lparr>ap_platform := fe_platform epic\<rparr>;
                       p1 = (case db_steps db i of None \<Rightarrow> p0 | Some st \<Rightarrow> p0\<lparr>ap_model := ws_model st\<rparr>);
                       p2 = (if em_plan (fe_models epic) \<noteq> [] then p1\<lparr>ap_model := em_plan (fe_models epic)\<rparr> else p1);
                       p3 = carry_rules epic p2
                   in start_attempt db e i p3 aid token now)"

section \<open>What a successful claim means\<close>

lemma claim_checks_InrD:
  assumes "claim_checks db e i profile = Inr (epic, r)"
  shows "profile = implement_profile" "db_epics db e = Some epic" "fe_status epic = ''open''"
    "pending_graph db e = None" "claimable db e i" "claimable_row db e i = Some r" "fi_project r \<in> set (db_acks db)"
    "validate_delivery_order db e (fi_project r) (fi_kind r) = None"
    "\<not> (\<exists>a \<in> set (db_attempts db). holds_workspace db e a)"
    "global_active db < global_capacity db" "project_active db (fi_project r) < project_capacity db (fi_project r)"
  using assms unfolding claim_checks_def by (auto split: option.splits if_splits)

lemma start_attempt_InrD:
  assumes "start_attempt db e i pol aid token now = Inr (a, db')"
  shows "aid \<notin> fa_id ` set (db_attempts db)"
    "a = \<lparr>fa_id = aid, fa_epic = e, fa_work = i, fa_sequence = next_sequence db i, fa_phase = ''prepared'',
          fa_outcome = [], fa_policy = pol, fa_summary = [], fa_commit = [], fa_created = now, fa_finished = 0\<rparr>"
    "db' = (set_issue i (\<lambda>r. r\<lparr>fi_status := ''in_progress''\<rparr>) db)
       \<lparr>db_attempts := db_attempts db @ [a], db_tokens := db_tokens db @ [(token, aid)]\<rparr>"
  using assms unfolding start_attempt_def Let_def by (auto split: if_splits)

lemma claim_implementation_InrD:
  assumes "claim_implementation db e i profile aid token now = Inr (a, db')"
  obtains epic r issues pol where "claim_checks db e i profile = Inr (epic, r)"
    "claim_policy db e epic r profile issues = Inr pol"
    "start_attempt db e i pol aid token now = Inr (a, db')"
  using assms unfolding claim_implementation_def Let_def by (auto split: sum.splits prod.splits option.splits)

lemma next_sequence_greater:
  assumes "b \<in> set (db_attempts db)" "fa_work b = i"
  shows "fa_sequence b < next_sequence db i"
proof -
  have "x \<in> set xs \<Longrightarrow> x \<le> foldr max xs (0 :: nat)" for x xs by (induction xs) auto
  then have "fa_sequence b \<le> foldr max (map fa_sequence (filter (\<lambda>a. fa_work a = i) (db_attempts db))) 0"
    using assms by simp
  then show ?thesis by (simp add: next_sequence_def)
qed

lemma policy_repository:
  assumes "claim_policy db e epic r profile issues = Inr pol"
  shows "ap_repository pol = fi_project r"
proof -
  have c: "ap_repository (carried_policy db e epic r profile) = fi_project r"
    by (simp add: carried_policy_def Let_def)
  have g: "ap_repository (pin_plan db e q) = ap_repository q" for q
    by (simp add: pin_plan_def split: option.splits)
  have m: "ap_repository (choose_model epic step q) = ap_repository q" for step q
    unfolding choose_model_def Let_def by (cases step) simp_all
  have h: "ap_repository (take_checkpoint db e p q) = ap_repository q" for p q
    by (simp add: take_checkpoint_def split: option.splits)
  have t: "take_remote db e p q = Inr q' \<Longrightarrow> ap_repository q' = ap_repository q" for p q q'
    unfolding take_remote_def by (auto split: option.splits if_splits)
  have k: "ap_repository (carry_rules epic q) = ap_repository q" for q by (simp add: carry_rules_def)
  show ?thesis
    using assms unfolding claim_policy_def by (auto split: sum.splits simp: k t h m g c)
qed

text \<open>Claims of implementation work and of plans, one after the other (a failed claim changes
  nothing). Plans are claimed under another profile.\<close>

inductive claim_run :: "factory_db \<Rightarrow> factory_db \<Rightarrow> bool" for db0 where
  claim_run_refl: "claim_run db0 db0"
| claim_run_work: "claim_run db0 db \<Longrightarrow>
    claim_implementation db e i profile aid token now = Inr (a, db') \<Longrightarrow> claim_run db0 db'"
| claim_run_plan: "claim_run db0 db \<Longrightarrow> profile \<noteq> implement_profile \<Longrightarrow>
    claim_plan db e i profile aid token now = Inr (a, db') \<Longrightarrow> claim_run db0 db'"

definition within_limits :: "factory_db \<Rightarrow> bool" where
  "within_limits db \<longleftrightarrow>
     (\<forall>e. length (filter (holds_workspace db e) (db_attempts db)) \<le> 1) \<and>
     global_active db \<le> max 0 (global_capacity db) \<and>
     (\<forall>p. project_active db p \<le> max 0 (project_capacity db p))"

lemma started_tables:
  assumes "start_attempt db e i pol aid token now = Inr (a, db')"
  shows "db_attempts db' = db_attempts db @ [a]"
    "takes_capacity db' = takes_capacity db" "holds_workspace db' = holds_workspace db"
    "global_capacity db' = global_capacity db" "project_capacity db' = project_capacity db"
proof -
  note d = start_attempt_InrD(3)[OF assms]
  have t: "db_recoveries db' = db_recoveries db" "db_escalations db' = db_escalations db"
      "db_project_gates db' = db_project_gates db" "db_capacity db' = db_capacity db" "db_overrides db' = db_overrides db"
    unfolding d set_issue_def by simp_all
  show "db_attempts db' = db_attempts db @ [a]" unfolding d set_issue_def by simp
  show "takes_capacity db' = takes_capacity db" by (intro ext) (simp add: takes_capacity_def t)
  have "yielded db' = yielded db" by (intro ext) (simp add: yielded_def t)
  then show "holds_workspace db' = holds_workspace db" by (intro ext) (simp add: holds_workspace_def)
  show "global_capacity db' = global_capacity db" by (simp add: global_capacity_def t)
  show "project_capacity db' = project_capacity db" unfolding project_capacity_def t by (rule refl)
qed

lemma started_counts:
  assumes "start_attempt db e i pol aid token now = Inr (a, db')"
  shows "length (filter (holds_workspace db' e') (db_attempts db')) =
      length (filter (holds_workspace db e') (db_attempts db)) + (if holds_workspace db e' a then 1 else 0)"
    "global_active db' = global_active db + (if takes_capacity db a then 1 else 0)"
    "project_active db' p = project_active db p + (if takes_capacity db a \<and> ap_repository (fa_policy a) = p then 1 else 0)"
  by (simp_all add: started_tables[OF assms] global_active_def project_active_def)

lemma claim_keeps_limits:
  assumes w: "within_limits db" and c: "claim_implementation db e i profile aid token now = Inr (a, db')"
  shows "within_limits db'"
proof -
  obtain epic r issues pol where ch: "claim_checks db e i profile = Inr (epic, r)"
      and pol: "claim_policy db e epic r profile issues = Inr pol"
      and st: "start_attempt db e i pol aid token now = Inr (a, db')"
    by (rule claim_implementation_InrD[OF c])
  note free = claim_checks_InrD(9)[OF ch] and gl = claim_checks_InrD(10)[OF ch] and pr = claim_checks_InrD(11)[OF ch]
  have a: "fa_epic a = e" "ap_repository (fa_policy a) = fi_project r"
    using start_attempt_InrD(2)[OF st] policy_repository[OF pol] by simp_all
  have "length (filter (holds_workspace db' e') (db_attempts db')) \<le> 1" for e'
  proof (cases "e' = e")
    case True
    then have "filter (holds_workspace db e') (db_attempts db) = []" using free by (auto simp: filter_empty_conv)
    then show ?thesis unfolding started_counts(1)[OF st] by simp
  next
    case False
    then have "\<not> holds_workspace db e' a" using a(1) by (simp add: holds_workspace_def)
    then show ?thesis using w unfolding started_counts(1)[OF st] within_limits_def by simp
  qed
  moreover have "global_active db' \<le> max 0 (global_capacity db')"
    using gl unfolding started_counts(2)[OF st] started_tables(4)[OF st] by auto
  moreover have "project_active db' p \<le> max 0 (project_capacity db' p)" for p
  proof (cases "fi_project r = p")
    case True
    then show ?thesis using pr unfolding started_counts(3)[OF st] started_tables(5)[OF st] by auto
  next
    case False
    then have "project_active db' p = project_active db p" using a(2) unfolding started_counts(3)[OF st] by simp
    then show ?thesis using w unfolding started_tables(5)[OF st] within_limits_def by simp
  qed
  ultimately show ?thesis by (simp add: within_limits_def)
qed

lemma claim_plan_InrD:
  assumes "claim_plan db e i profile aid token now = Inr (a, db')"
  obtains pol where "start_attempt db e i pol aid token now = Inr (a, db')" "ap_profile pol = profile"
proof -
  have k: "ap_profile (carry_rules epic q) = ap_profile q" for epic q by (simp add: carry_rules_def)
  have e: "ap_profile (empty_policy p profile) = profile" for p by (simp add: empty_policy_def)
  show ?thesis
    using assms that unfolding claim_plan_def Let_def
    by (auto split: option.splits if_splits simp: k e)
qed

lemma claim_plan_keeps_limits:
  assumes w: "within_limits db" and p: "profile \<noteq> implement_profile"
    and c: "claim_plan db e i profile aid token now = Inr (a, db')"
  shows "within_limits db'"
proof -
  obtain pol where st: "start_attempt db e i pol aid token now = Inr (a, db')" and pr: "ap_profile pol = profile"
    by (rule claim_plan_InrD[OF c])
  have "\<not> live_implementation a" using start_attempt_InrD(2)[OF st] pr p by (simp add: live_implementation_def)
  then have "\<not> takes_capacity db a" "\<not> holds_workspace db e' a" for e'
    by (simp_all add: takes_capacity_def holds_workspace_def)
  then show ?thesis
    using w unfolding within_limits_def started_counts[OF st] started_tables(4,5)[OF st] by simp
qed

text \<open>
  C12: however claims follow each other, from a database without attempts, no epic has two live
  implementation attempts in its workspace and the implementations at work never exceed the global
  capacity or a project's, overrides included.
\<close>

theorem claims_stay_within_limits:
  assumes "claim_run db0 db" "db_attempts db0 = []"
  shows "(\<forall>e. length (filter (holds_workspace db e) (db_attempts db)) \<le> 1) \<and>
    global_active db \<le> max 0 (global_capacity db) \<and> (\<forall>p. project_active db p \<le> max 0 (project_capacity db p))"
proof -
  have "within_limits db"
    using assms(1)
  proof induction
    case claim_run_refl
    then show ?case using assms(2) by (simp add: within_limits_def global_active_def project_active_def)
  qed (blast intro: claim_keeps_limits claim_plan_keeps_limits)+
  then show ?thesis by (simp add: within_limits_def)
qed

lemma sample_claim:
  "\<exists>a db'. claim_implementation sample_graph ''e'' ''b'' implement_profile ''fa'' ''fat'' 5 = Inr (a, db') \<and>
    length (db_attempts db') = 1"
proof -
  have "case claim_implementation sample_graph ''e'' ''b'' implement_profile ''fa'' ''fat'' 5 of
      Inl err \<Rightarrow> False | Inr (a, db') \<Rightarrow> length (db_attempts db') = 1"
    by code_simp
  then show ?thesis by (auto split: sum.splits)
qed

lemma claims_stay_within_limits_witness:
  "\<exists>db. length (db_attempts db) = 1 \<and> (\<forall>e. length (filter (holds_workspace db e) (db_attempts db)) \<le> 1)"
proof -
  obtain a db where c: "claim_implementation sample_graph ''e'' ''b'' implement_profile ''fa'' ''fat'' 5 = Inr (a, db)"
      and n: "length (db_attempts db) = 1"
    using sample_claim by blast
  have "claim_run sample_graph db" by (rule claim_run_work[OF claim_run_refl c])
  moreover have "db_attempts sample_graph = []" by (simp add: sample_graph_def)
  ultimately show ?thesis using claims_stay_within_limits n by blast
qed

section \<open>Claims and the listing\<close>

lemma newest_delivery_iff:
  assumes "graph_ok db"
  shows "newest_delivery db e p d \<longleftrightarrow> latest_delivery (epic_issues db e) p = Some d"
proof -
  let ?ds = "filter (\<lambda>i. ni_project i = p \<and> ni_kind i = ''delivery'') (epic_issues db e)"
  have ids: "inj_on ni_id (set (epic_issues db e))"
    using distinct_epic_issues[of db e] assms by (simp add: graph_ok_def distinct_map)
  show ?thesis
  proof
    assume "latest_delivery (epic_issues db e) p = Some d"
    then show "newest_delivery db e p d"
      using newest_Some[of ?ds d] by (auto simp: latest_delivery_def newest_delivery_def)
  next
    assume n: "newest_delivery db e p d"
    then have "?ds \<noteq> []" by (auto simp: newest_delivery_def filter_empty_conv)
    then obtain l where l: "foldl newer_delivery None ?ds = Some l"
      using newest_None[of ?ds] by (cases "foldl newer_delivery None ?ds") auto
    then have "l \<in> set ?ds" "\<forall>x \<in> set ?ds. \<not> newer x l" using newest_Some by blast+
    then have "ni_id d = ni_id l" "d \<in> set (epic_issues db e)" "l \<in> set (epic_issues db e)"
      using n by (auto intro!: newer_unique simp: newest_delivery_def)
    then have "d = l" using ids by (auto dest: inj_onD)
    then show "latest_delivery (epic_issues db e) p = Some d" using l by (simp add: latest_delivery_def)
  qed
qed

lemma latest_dispatched:
  "latest_delivery (map (dispatched db e) xs) p = map_option (dispatched db e) (latest_delivery xs p)"
proof -
  have c: "ni_created (dispatched db e i) = ni_created i" for i
    unfolding dispatched_unheld graph_hold_def unheld_def dispatch_state_def
    by (cases "pending_graph db e") simp_all
  have "newer (dispatched db e i) (dispatched db e l) = newer i l" for i l by (simp add: newer_def c)
  from newest_map[OF this] show ?thesis by (simp add: latest_delivery_def filter_map comp_def)
qed

lemma delivery_scan_latest:
  "delivery_scan issues p kind is l = Inr l' \<Longrightarrow>
     l' = foldl newer_delivery l (filter (\<lambda>i. ni_project i = p \<and> ni_kind i = ''delivery'') is)"
  by (induction issues p kind "is" l rule: delivery_scan.induct) (auto simp: Let_def split: if_splits)

lemma delivery_scan_passed:
  "delivery_scan issues p ''delivery'' is l = Inr l' \<Longrightarrow> x \<in> set is \<Longrightarrow> before_delivery issues p x \<Longrightarrow>
     (requirement_of issues x = Some ''required'' \<longrightarrow> issue_succeeded x) \<and>
     \<not> (is_work x \<and> (ni_dispatch x = ''ready'' \<or> ni_status x = ''in_progress''))"
proof (induction "is" arbitrary: l)
  case (Cons i "is")
  show ?case
  proof (cases "x = i")
    case True
    then have "ni_project i = p" using Cons.prems(3) by (simp add: before_delivery_def)
    then show ?thesis using Cons.prems True by (auto simp: Let_def split: if_splits)
  next
    case False
    then have "x \<in> set is" using Cons.prems(2) by simp
    then show ?thesis using Cons.IH Cons.prems(1,3) by (auto simp: Let_def split: if_splits)
  qed
qed simp

lemma delivery_order_latest:
  assumes ok: "graph_ok db" and v: "validate_delivery_order db e p kind = None" and k: "kind \<noteq> ''delivery''"
  shows "\<not> delivery_done db e p"
proof
  assume "delivery_done db e p"
  then obtain d where d: "newest_delivery db e p d" "ni_status d = ''closed''" "ni_outcome d = ''succeeded''"
    by (auto simp: delivery_done_def)
  define out where "out = map (dispatched db e) (epic_issues db e)"
  have l: "list_factory_issues db e = Some out" unfolding out_def by (rule list_factory_issues_eq[OF ok])
  have o': "ni_outcome (dispatched db e i) = ni_outcome i" for i
    unfolding dispatched_unheld graph_hold_def unheld_def dispatch_state_def
    by (cases "pending_graph db e") simp_all
  obtain l' where s: "delivery_scan out p kind out None = Inr l'"
    using v k l by (auto simp: validate_delivery_order_def split: sum.splits if_splits)
  have "l' = latest_delivery out p" using delivery_scan_latest[OF s] by (simp add: latest_delivery_def)
  also have "\<dots> = Some (dispatched db e d)"
    using d(1) unfolding newest_delivery_iff[OF ok] out_def latest_dispatched by simp
  finally show False using v k l s d(2,3) by (simp add: validate_delivery_order_def o')
qed

text \<open>
  C15: a successful claim takes an issue that the listing shows as open and ready, marks it
  \<open>in_progress\<close>, adds one attempt for it with a higher sequence number than any before, and changes
  nothing else of the graph; the issue cannot be claimed again until something reopens it. As in
  C4, every gate that blocks an issue has its plan gate row and merge observations are recorded for
  deliveries only; with a resolved runtime gate the claim takes what the listing calls blocked.
\<close>

theorem claim_takes_ready_work:
  assumes ok: "graph_ok db" and g: "gates_known db" and o: "observations_ok db"
    and c: "claim_implementation db e i profile aid token now = Inr (a, db')"
  shows "(\<exists>out x. list_factory_issues db e = Some out \<and> x \<in> set out \<and> ni_id x = i \<and>
        ni_status x = ''open'' \<and> ni_dispatch x = ''ready'') \<and>
    db_issues db' = map (\<lambda>r. if fi_id r = i then r\<lparr>fi_status := ''in_progress''\<rparr> else r) (db_issues db) \<and>
    db_hierarchy db' = db_hierarchy db \<and> db_deps db' = db_deps db \<and> db_removed db' = db_removed db \<and>
    db_attempts db' = db_attempts db @ [a] \<and> fa_work a = i \<and> fa_phase a = ''prepared'' \<and>
    (\<forall>b \<in> set (db_attempts db). fa_work b = i \<longrightarrow> fa_sequence b < fa_sequence a) \<and>
    (\<forall>e'. \<not> claimable db' e' i)"
proof -
  obtain epic r issues pol where ch: "claim_checks db e i profile = Inr (epic, r)"
      and st: "start_attempt db e i pol aid token now = Inr (a, db')"
    by (rule claim_implementation_InrD[OF c])
  note d = claim_checks_InrD[OF ch] and a = start_attempt_InrD(2)[OF st] and db' = start_attempt_InrD(3)[OF st]
  have rows: "rows_ok db" using ok by (simp add: graph_ok_def)
  have row: "issue_row db i = Some r" "fi_epic r = e" "db_removed db i = None"
      "\<exists>(e', p, m) \<in> set (db_epic_projects db). e' = e \<and> p = fi_project r"
    using d(6) unfolding claimable_row_def by (auto split: option.splits if_splits)
  have r: "r \<in> set (db_issues db)" "fi_id r = i" using row(1) rows by (simp_all add: issue_row_iff)
  have k: "fi_kind r \<in> {''implementation'', ''task'', ''delivery''}" "fi_status r = ''open''"
    using d(5,6) by (simp_all add: claimable_def)
  define x where "x = dispatched db e (native_of db r)"
  have l: "list_factory_issues db e = Some (map (dispatched db e) (epic_issues db e))"
    by (rule list_factory_issues_eq[OF ok])
  have x: "x \<in> set (map (dispatched db e) (epic_issues db e))"
  proof -
    have "native_of db r \<in> set (epic_issues db e)" using r row(2,3) by (auto simp: in_epic_issues)
    then show ?thesis unfolding x_def by simp
  qed
  have f: "ni_id x = i" "ni_status x = ''open''" "ni_kind x = fi_kind r" "ni_project x = fi_project r"
    unfolding x_def using r(2) k(2) by simp_all
  have work: "is_work x \<or> ni_kind x = ''delivery''" using k(1) f(3) by (auto simp: is_work_def)
  have adm: "\<exists>m. (e, ni_project x, m) \<in> set (db_epic_projects db)" using row(4) f(4) by auto
  have "\<not> (is_work x \<and> delivery_done db e (ni_project x))"
    using delivery_order_latest[OF ok d(8)] f by (auto simp: is_work_def)
  moreover have "claimable db e (ni_id x)" using d(5) f(1) by simp
  ultimately have ready: "ni_dispatch x = ''ready''"
    using ready_work_agrees[OF ok g o l x work adm] d(4) by blast
  have "\<not> claimable db' e' i" for e'
  proof -
    have ids: "map fi_id (db_issues db') = map fi_id (db_issues db)"
      unfolding db' set_issue_def by (simp add: comp_def if_distrib cong: if_cong)
    then have rows': "rows_ok db'" using rows unfolding rows_ok_def by (metis image_set)
    have iss: "db_issues db' = map (\<lambda>r. if fi_id r = i then r\<lparr>fi_status := ''in_progress''\<rparr> else r) (db_issues db)"
      unfolding db' set_issue_def by simp
    have "fi_status r' = ''in_progress''" if "issue_row db' i = Some r'" for r'
    proof -
      have "r' \<in> set (db_issues db')" "fi_id r' = i" using that issue_row_iff[OF rows'] by simp_all
      then obtain r0 where "r' = (if fi_id r0 = i then r0\<lparr>fi_status := ''in_progress''\<rparr> else r0)" "fi_id r' = i"
        unfolding iss set_map by blast
      then show ?thesis by (simp split: if_splits)
    qed
    moreover have "issue_row db' i = Some r'" if "claimable_row db' e' i = Some r'" for r'
      using that unfolding claimable_row_def by (cases "issue_row db' i") (simp_all split: if_splits)
    ultimately show ?thesis unfolding claimable_def by (cases "claimable_row db' e' i") auto
  qed
  moreover have "db_issues db' = map (\<lambda>r. if fi_id r = i then r\<lparr>fi_status := ''in_progress''\<rparr> else r) (db_issues db)"
      "db_hierarchy db' = db_hierarchy db" "db_deps db' = db_deps db" "db_removed db' = db_removed db"
      "db_attempts db' = db_attempts db @ [a]"
    unfolding db' set_issue_def by simp_all
  moreover have "fa_work a = i" "fa_phase a = ''prepared''" "fa_sequence a = next_sequence db i" using a by simp_all
  ultimately show ?thesis using l x f(1,2) ready next_sequence_greater by auto
qed

lemma claim_takes_ready_work_witness:
  "\<exists>a db'. claim_implementation sample_graph ''e'' ''b'' implement_profile ''fa'' ''fat'' 5 = Inr (a, db') \<and>
     fa_work a = ''b'' \<and> \<not> claimable db' ''e'' ''b''"
proof -
  obtain a db where c: "claim_implementation sample_graph ''e'' ''b'' implement_profile ''fa'' ''fat'' 5 = Inr (a, db)"
    using sample_claim by blast
  show ?thesis
    using claim_takes_ready_work[OF sample_graph_ok _ _ c] sample_rows_ok c by blast
qed

text \<open>
  C16: no delivery starts early. When a delivery is claimed, all required work of its project that
  is in force (not removed, not a reference, not ruled out, no runtime gate) has succeeded, no
  optional work of the project could run or is running. If the approved revision of the plan is a
  graph, every validation step of the epic that succeeded and was not removed did so for that very
  revision, unless a person waived it for that revision.
\<close>

theorem delivery_waits_for_required_work:
  assumes "claim_implementation db e i profile aid token now = Inr (a, db')"
    and "issue_row db i = Some r" "fi_kind r = ''delivery''"
  shows "\<exists>out. list_factory_issues db e = Some out \<and>
    (\<forall>x \<in> set out. before_delivery out (fi_project r) x \<longrightarrow>
       (requirement_of out x = Some ''required'' \<longrightarrow> issue_succeeded x) \<and>
       \<not> (is_work x \<and> (ni_dispatch x = ''ready'' \<or> ni_status x = ''in_progress''))) \<and>
    (\<forall>v \<in> set (db_issues db). \<forall>st g p.
       fi_epic v = e \<and> fi_kind v = ''task'' \<and> fi_status v = ''closed'' \<and> fi_outcome v = ''succeeded'' \<and>
       db_removed db (fi_id v) = None \<and> db_steps db (fi_id v) = Some st \<and> ws_kind st = ''verification'' \<and>
       gate_of_epic db e = Some g \<and> pg_resolution g = ''approved'' \<and> proposal_of db e (pg_revision g) = Some p \<and> pr_graph p
       \<longrightarrow> verified_revision db (fi_id v) = pg_revision g \<or> (fi_id v, pg_revision g) \<in> set (db_waivers db))"
proof -
  obtain epic r' issues pol where ch: "claim_checks db e i profile = Inr (epic, r')"
    by (rule claim_implementation_InrD[OF assms(1)])
  have r: "r' = r" using claim_checks_InrD(6)[OF ch] assms(2) by (auto simp: claimable_row_def split: if_splits)
  note v = claim_checks_InrD(8)[OF ch, unfolded r assms(3)]
  obtain out where l: "list_factory_issues db e = Some out"
    using v by (auto simp: validate_delivery_order_def split: option.splits if_splits)
  obtain l' where s: "delivery_scan out (fi_project r) ''delivery'' out None = Inr l'"
    using v l by (auto simp: validate_delivery_order_def split: sum.splits if_splits)
  have "\<forall>v \<in> set (db_issues db). \<not> stale_verification db e v"
    using v by (auto simp: validate_delivery_order_def split: if_splits)
  then have "\<forall>v \<in> set (db_issues db). \<forall>st g p.
       fi_epic v = e \<and> fi_kind v = ''task'' \<and> fi_status v = ''closed'' \<and> fi_outcome v = ''succeeded'' \<and>
       db_removed db (fi_id v) = None \<and> db_steps db (fi_id v) = Some st \<and> ws_kind st = ''verification'' \<and>
       gate_of_epic db e = Some g \<and> pg_resolution g = ''approved'' \<and> proposal_of db e (pg_revision g) = Some p \<and> pr_graph p
       \<longrightarrow> verified_revision db (fi_id v) = pg_revision g \<or> (fi_id v, pg_revision g) \<in> set (db_waivers db)"
    by (auto simp: stale_verification_def)
  then show ?thesis using l delivery_scan_passed[OF s] by blast
qed

definition finished_graph :: factory_db where
  "finished_graph = sample_graph\<lparr>
     db_issues := [sample_issue ''m'' ''mol'' ''open'' [], sample_issue ''a'' ''task'' ''closed'' ''succeeded'',
       sample_issue ''b'' ''task'' ''closed'' ''succeeded'', sample_issue ''c'' ''task'' ''open'' [],
       sample_issue ''d'' ''delivery'' ''open'' []]\<rparr>"

lemma delivery_waits_for_required_work_witness:
  "\<exists>a db' out. claim_implementation finished_graph ''e'' ''d'' implement_profile ''fa'' ''fat'' 5 = Inr (a, db') \<and>
     list_factory_issues finished_graph ''e'' = Some out"
proof -
  have "\<not> (case claim_implementation finished_graph ''e'' ''d'' implement_profile ''fa'' ''fat'' 5 of
      Inl err \<Rightarrow> True | Inr x \<Rightarrow> False)"
    by code_simp
  then obtain a db where c: "claim_implementation finished_graph ''e'' ''d'' implement_profile ''fa'' ''fat'' 5 = Inr (a, db)"
    by (auto split: sum.splits)
  have row: "issue_row finished_graph ''d'' = Some (sample_issue ''d'' ''delivery'' ''open'' [])" by code_simp
  have "fi_kind (sample_issue ''d'' ''delivery'' ''open'' []) = ''delivery''" by (simp add: sample_issue_def)
  then show ?thesis using delivery_waits_for_required_work[OF c row] c by blast
qed

end
