(* ===== verification/Decimals.thy ===== *)
theory Decimals
  imports Prelude "HOL-Library.Char_ord"
begin

text \<open>
  Decimal numerals as Go prints and parses them: \<open>%d\<close>, \<open>%0*d\<close> and \<open>strconv.ParseUint\<close>.
\<close>

definition digit :: "nat \<Rightarrow> char" where
  "digit n = char_of (48 + n)"

fun decimal :: "nat \<Rightarrow> string" where
  "decimal n = (if n < 10 then [digit n] else decimal (n div 10) @ [digit (n mod 10)])"

declare decimal.simps [simp del]

fun digits_value :: "nat \<Rightarrow> string \<Rightarrow> nat option" where
  "digits_value v [] = Some v"
| "digits_value v (c # cs) =
     (if 48 \<le> (of_char c :: nat) \<and> (of_char c :: nat) \<le> 57 then digits_value (10 * v + (of_char c - 48)) cs else None)"

lemma decimal_step: "n < 10 \<Longrightarrow> decimal n = [digit n]" "\<not> n < 10 \<Longrightarrow> decimal n = decimal (n div 10) @ [digit (n mod 10)]"
  by (simp_all add: decimal.simps)

lemma digit_code [simp]: "n < 10 \<Longrightarrow> of_char (digit n) = (48 + n :: nat)"
  by (simp add: digit_def)

lemma digits_value_snoc:
  "digits_value v (cs @ [c]) = (case digits_value v cs of None \<Rightarrow> None
     | Some w \<Rightarrow> if 48 \<le> (of_char c :: nat) \<and> (of_char c :: nat) \<le> 57 then Some (10 * w + (of_char c - 48)) else None)"
  by (induction v cs rule: digits_value.induct) auto

lemma digits_value_decimal: "digits_value 0 (decimal n) = Some n"
proof (induction n rule: decimal.induct)
  case (1 n)
  show ?case
  proof (cases "n < 10")
    case False
    then show ?thesis using 1 by (simp add: decimal_step(2) digits_value_snoc)
  qed (simp add: decimal_step(1))
qed

lemma decimal_chars: "c \<in> set (decimal n) \<Longrightarrow> \<exists>k < 10. c = digit k"
proof (induction n rule: decimal.induct)
  case (1 n)
  show ?case
  proof (cases "n < 10")
    case False
    have "n mod 10 < 10" by simp
    moreover from this have "\<exists>k < 10. digit (n mod 10) = digit k" by blast
    ultimately show ?thesis using 1 False by (auto simp: decimal_step(2))
  qed (use 1 in \<open>auto simp: decimal_step(1)\<close>)
qed

lemma digit_not: "n < 10 \<Longrightarrow> digit n \<noteq> CHR ''.''" "n < 10 \<Longrightarrow> digit n \<noteq> CHR ''-''" "n < 10 \<Longrightarrow> digit n \<noteq> CHR ''+''"
  using digit_code[of n] by (auto dest!: arg_cong[where f = "of_char :: char \<Rightarrow> nat"])

lemma decimal_ne [simp]: "decimal n \<noteq> []"
  by (subst decimal.simps) simp

text \<open>\<open>%0*d\<close>: zeros on the left up to a width.\<close>

definition padded :: "nat \<Rightarrow> nat \<Rightarrow> string" where
  "padded w n = replicate (w - length (decimal n)) (CHR ''0'') @ decimal n"

text \<open>\<open>strconv.ParseUint(s, 10, 64)\<close>.\<close>

definition parse_uint :: "string \<Rightarrow> nat option" where
  "parse_uint s =
     (if s = [] then None
      else case digits_value 0 s of None \<Rightarrow> None | Some v \<Rightarrow> if v < 2 ^ 64 then Some v else None)"

lemma digits_value_zeros: "digits_value 0 (replicate k (CHR ''0'') @ s) = digits_value 0 s"
  by (induction k) auto

lemma parse_uint_padded: "n < 2 ^ 64 \<Longrightarrow> parse_uint (padded w n) = Some n"
  by (simp add: parse_uint_def padded_def digits_value_zeros digits_value_decimal)

lemma padded_inj: "padded w a = padded w b \<Longrightarrow> a = b"
  by (metis padded_def digits_value_zeros digits_value_decimal option.inject)

lemma length_decimal: "0 < k \<Longrightarrow> length (decimal n) \<le> k \<longleftrightarrow> n < 10 ^ k"
proof (induction n arbitrary: k rule: decimal.induct)
  case (1 n)
  show ?case
  proof (cases "n < 10")
    case True
    have "(10 :: nat) ^ 1 \<le> 10 ^ k" using 1(2) by (intro power_increasing) auto
    then show ?thesis using True 1(2) by (simp add: decimal_step(1))
  next
    case False
    obtain j where k: "k = Suc j" using 1(2) by (cases k) auto
    show ?thesis
    proof (cases "j = 0")
      case True
      have "decimal (n div 10) \<noteq> []" by simp
      then show ?thesis using False True k by (simp add: decimal_step(2))
    next
      case j: False
      have "length (decimal n) \<le> k \<longleftrightarrow> length (decimal (n div 10)) \<le> j" using False k by (simp add: decimal_step(2))
      also have "\<dots> \<longleftrightarrow> n div 10 < 10 ^ j" using 1(1)[OF False] j by simp
      also have "\<dots> \<longleftrightarrow> n < 10 ^ k" unfolding k power_Suc by (simp add: div_less_iff_less_mult mult.commute)
      finally show ?thesis .
    qed
  qed
qed

lemma length_padded: "0 < w \<Longrightarrow> n < 10 ^ w \<Longrightarrow> length (padded w n) = w"
  using length_decimal[of w n] by (simp add: padded_def)

lemma padded_chars: "c \<in> set (padded w n) \<Longrightarrow> \<exists>k < 10. c = digit k"
proof -
  have "CHR ''0'' = digit 0" by code_simp
  then have "c = CHR ''0'' \<Longrightarrow> \<exists>k < 10. c = digit k" by (metis zero_less_numeral)
  then show "c \<in> set (padded w n) \<Longrightarrow> \<exists>k < 10. c = digit k" using decimal_chars by (auto simp: padded_def split: if_split_asm)
qed

end
