(* ===== verification/Factory_Graph.thy ===== *)
theory Factory_Graph
  imports Factory_Claim Manifest Decimals
begin

text \<open>
  Editing the work graph (\<open>internal/state/factory_mutation.go\<close>, \<open>factory_mutation_batch.go\<close>,
  \<open>factory_graph.go\<close>, \<open>factory_graph_removal.go\<close>, \<open>factory_graph_approval.go\<close>): the structural
  mutations with all their guards, the allocation of child ids, and the batch that commits several
  mutations together with the revision that awaits approval.
\<close>

section \<open>Child ids\<close>

definition child_id :: "string \<Rightarrow> nat \<Rightarrow> string" where
  "child_id parent n = parent @ ''.'' @ decimal n"

text \<open>\<open>strconv.Atoi\<close> of what follows the last dot: an optional sign, digits, within 64 bits.\<close>

definition atoi :: "string \<Rightarrow> int option" where
  "atoi s =
     (let (neg, ds) = (case s of [] \<Rightarrow> (False, [])
            | c # cs \<Rightarrow> if c = CHR ''-'' then (True, cs) else if c = CHR ''+'' then (False, cs) else (False, s))
      in if ds = [] then None
         else case digits_value 0 ds of
             None \<Rightarrow> None
           | Some v \<Rightarrow>
               let x = (if neg then - int v else int v)
               in if - (2 ^ 63) \<le> x \<and> x < 2 ^ 63 then Some x else None)"

definition after_last_dot :: "string \<Rightarrow> string" where
  "after_last_dot s = rev (takeWhile (\<lambda>c. c \<noteq> CHR ''.'') (rev s))"

definition child_index :: "string \<Rightarrow> nat option" where
  "child_index i =
     (case atoi (after_last_dot i) of None \<Rightarrow> None | Some x \<Rightarrow> if x < 1 then None else Some (nat x))"

section \<open>Mutations\<close>

datatype mutation_error =
  EpicRequired | EpicUnavailable | ReviseProposalFirst | ProjectNotAdmitted | IssueUnavailable
| ScopeLocked | DeliveryStarted | WrongWorkflowParent | BadKind | TitleRequired | StepPinned
| OwnParent | CrossEpic | HierarchyCycle | OwnDependency | BadMergeGate | BadDependencyType
| DependencyCycle | UnknownAction | BadChildId | ConstraintFailed | EmptyBatch | BadBatchEdit
| NoApprovalGate | ListingHangs

record graph_mutation =
  gm_action :: string
  gm_epic :: string
  gm_actor :: string
  gm_issue :: string
  gm_parent :: string
  gm_project :: string
  gm_kind :: string
  gm_title :: string
  gm_description :: string
  gm_requirement :: string
  gm_depends_on :: string
  gm_dependency_type :: string

definition mutation_requirement :: "string \<Rightarrow> string" where
  "mutation_requirement q = (if q = ''optional'' \<or> q = ''reference'' then q else ''required'')"

definition descendants :: "factory_db \<Rightarrow> string \<Rightarrow> string list" where
  "descendants db i = reachable (map (\<lambda>(c, p). (p, c)) (parent_pairs db)) i"

definition lineage :: "factory_db \<Rightarrow> string \<Rightarrow> string list" where
  "lineage db i = reachable (parent_pairs db) i"

text \<open>Guards. An agent may not edit an epic whose initial proposal has not been materialized.\<close>

definition unmaterialized :: "factory_db \<Rightarrow> string \<Rightarrow> bool" where
  "unmaterialized db e \<longleftrightarrow>
     (\<exists>r \<in> set (db_issues db). fi_epic r = e \<and> fi_kind r = ''materialization'' \<and> fi_status r \<noteq> ''closed'') \<and>
     \<not> (case gate_of_epic db e of
          None \<Rightarrow> False
        | Some g \<Rightarrow> (case proposal_of db e (pg_revision g) of None \<Rightarrow> False | Some p \<Rightarrow> pr_graph p))"

definition admitted :: "factory_db \<Rightarrow> string \<Rightarrow> string \<Rightarrow> bool" where
  "admitted db e p \<longleftrightarrow> (\<exists>(e', p', m) \<in> set (db_epic_projects db). e' = e \<and> p' = p)"

definition scope_locked :: "factory_db \<Rightarrow> string list \<Rightarrow> bool" where
  "scope_locked db ids \<longleftrightarrow>
     (\<exists>g \<in> set (db_project_gates db). (qg_work g \<in> set ids \<or> qg_plan_issue g \<in> set ids) \<and>
        qg_resolution g = ''approved'' \<and>
        (case issue_row db (qg_plan_issue g) of None \<Rightarrow> False | Some p \<Rightarrow> fi_status p \<in> {''open'', ''in_progress''}))"

definition delivery_lock :: "bool \<Rightarrow> f_issue \<Rightarrow> bool" where
  "delivery_lock creating r \<longleftrightarrow> fi_status r = ''in_progress'' \<or>
     (\<not> creating \<and> fi_status r = ''closed'' \<and> fi_outcome r = ''succeeded'')"

definition project_delivering :: "factory_db \<Rightarrow> string \<Rightarrow> string set \<Rightarrow> bool \<Rightarrow> bool" where
  "project_delivering db e ps creating \<longleftrightarrow>
     (\<exists>r \<in> set (db_issues db). fi_epic r = e \<and> fi_project r \<in> ps \<and> fi_kind r = ''delivery'' \<and>
        delivery_lock creating r \<and> db_removed db (fi_id r) = None)"

definition subtree_delivering :: "factory_db \<Rightarrow> string \<Rightarrow> bool" where
  "subtree_delivering db i \<longleftrightarrow>
     (\<exists>x \<in> set (db_issues db). fi_id x \<in> set (descendants db i) \<and>
        (\<exists>d \<in> set (db_issues db). fi_epic d = fi_epic x \<and> fi_project d = fi_project x \<and>
           fi_kind d = ''delivery'' \<and> delivery_lock False d \<and> db_removed db (fi_id d) = None))"

text \<open>\<open>openIssue\<close>: the issue exists, is not removed, has not started and, if \<open>local\<close>, is of the epic.\<close>

definition open_issue :: "factory_db \<Rightarrow> string \<Rightarrow> bool \<Rightarrow> string \<Rightarrow> bool" where
  "open_issue db i local e \<longleftrightarrow>
     (case issue_row db i of
        None \<Rightarrow> False
      | Some r \<Rightarrow> db_removed db i = None \<and> (local \<longrightarrow> fi_epic r = e) \<and>
          fi_status r \<noteq> ''in_progress'' \<and> fi_status r \<noteq> ''closed'')"

text \<open>The guards before the action: the project and kind of the issue the mutation is about.\<close>

definition mutation_guards :: "factory_db \<Rightarrow> graph_mutation \<Rightarrow> mutation_error + string \<times> string" where
  "mutation_guards db m =
     (let e = gm_epic m; creating = (gm_action m = ''create''); subtree = (gm_action m = ''reparent'' \<or> gm_action m = ''delete'')
      in if e = [] then Inl EpicRequired
         else case db_epics db e of
           None \<Rightarrow> Inl EpicUnavailable
         | Some ep \<Rightarrow>
             if fe_status ep \<noteq> ''open'' then Inl EpicUnavailable
             else if gm_actor m = ''mcp'' \<and> unmaterialized db e then Inl ReviseProposalFirst
             else let project = (if creating \<and> gm_project m = [] then fe_project ep else gm_project m)
             in if project \<noteq> [] \<and> \<not> admitted db e project then Inl ProjectNotAdmitted
             else case (if creating then Some (project, gm_kind m)
                        else case issue_row db (gm_issue m) of
                            None \<Rightarrow> None
                          | Some r \<Rightarrow> if fi_epic r = e then Some (fi_project r, fi_kind r) else None) of
               None \<Rightarrow> Inl IssueUnavailable
             | Some (p, k) \<Rightarrow>
                 let lock = (if creating then gm_parent m else gm_issue m)
                 in if scope_locked db (if subtree then descendants db lock else [lock]) \<or>
                       (gm_action m = ''reparent'' \<and> scope_locked db [gm_parent m]) then Inl ScopeLocked
                    else if project_delivering db e {p, if gm_action m = ''edit'' then gm_project m else []} creating \<or>
                            (subtree \<and> subtree_delivering db (gm_issue m)) then Inl DeliveryStarted
                    else Inr (p, k))"

definition insert_issue :: "f_issue \<Rightarrow> factory_db \<Rightarrow> mutation_error + factory_db" where
  "insert_issue r db =
     (if fi_id r \<in> issue_ids db then Inl ConstraintFailed else Inr (db\<lparr>db_issues := db_issues db @ [r]\<rparr>))"

text \<open>\<open>UNIQUE (child_issue_id)\<close> and \<open>UNIQUE (parent_issue_id, child_index)\<close>.\<close>

definition index_taken :: "factory_db \<Rightarrow> string \<Rightarrow> string \<Rightarrow> nat \<Rightarrow> bool" where
  "index_taken db i parent n \<longleftrightarrow>
     (\<exists>(c, p, q) \<in> set (db_hierarchy db). p = parent \<and> c \<noteq> i \<and> db_child_index db c = Some n)"

definition insert_child :: "string \<Rightarrow> string \<Rightarrow> nat \<Rightarrow> string \<Rightarrow> factory_db \<Rightarrow> mutation_error + factory_db" where
  "insert_child parent i n q db =
     (if i \<in> fst ` set (db_hierarchy db) \<or> index_taken db i parent n then Inl ConstraintFailed
      else Inr (db\<lparr>db_hierarchy := db_hierarchy db @ [(i, parent, q)], db_child_index := (db_child_index db)(i \<mapsto> n)\<rparr>))"

definition allocate_child :: "factory_db \<Rightarrow> string \<Rightarrow> nat \<times> factory_db" where
  "allocate_child db parent =
     (case db_sequences db parent of
        None \<Rightarrow> (1, db\<lparr>db_sequences := (db_sequences db)(parent \<mapsto> 2)\<rparr>)
      | Some n \<Rightarrow> (n, db\<lparr>db_sequences := (db_sequences db)(parent \<mapsto> n + 1)\<rparr>))"

text \<open>\<open>closeHandBuiltMaterializationTx\<close>.\<close>

definition hand_built :: "factory_db \<Rightarrow> string \<Rightarrow> bool" where
  "hand_built db e \<longleftrightarrow>
     (case gate_of_epic db e of None \<Rightarrow> False | Some g \<Rightarrow> pg_resolution g = ''approved'') \<and>
     (\<exists>w \<in> set (db_issues db). fi_epic w = e \<and> fi_kind w \<in> {''task'', ''implementation''} \<and>
        db_removed db (fi_id w) = None \<and> (\<forall>x \<in> set (lineage db (fi_id w)). x \<notin> set (db_provenance db)))"

definition close_hand_built :: "string \<Rightarrow> factory_db \<Rightarrow> factory_db" where
  "close_hand_built e db =
     (if hand_built db e
      then db\<lparr>db_issues := map (\<lambda>r. if fi_epic r = e \<and> fi_kind r = ''materialization'' \<and> fi_status r = ''open''
             then r\<lparr>fi_status := ''closed'', fi_outcome := ''succeeded'', fi_reason := ''Work graph built by hand''\<rparr>
             else r) (db_issues db)\<rparr>
      else db)"

text \<open>An agent's new work reopens the completed phase it is added to.\<close>

definition reopen_phase :: "string \<Rightarrow> string \<Rightarrow> factory_db \<Rightarrow> factory_db" where
  "reopen_phase e i db =
     db\<lparr>db_issues := map (\<lambda>r. if fi_id r = i \<and> fi_epic r = e \<and> fi_kind r = ''phase'' \<and>
            fi_status r = ''closed'' \<and> fi_outcome r = ''succeeded''
          then r\<lparr>fi_status := ''open'', fi_outcome := [], fi_reason := []\<rparr> else r) (db_issues db)\<rparr>"

section \<open>The actions\<close>

definition phase_parent :: "factory_db \<Rightarrow> string \<Rightarrow> bool" where
  "phase_parent db i \<longleftrightarrow> (case issue_row db i of None \<Rightarrow> False | Some r \<Rightarrow> fi_kind r = ''phase'')"

definition has_workflow :: "factory_db \<Rightarrow> string \<Rightarrow> bool" where
  "has_workflow db e \<longleftrightarrow> (\<exists>r \<in> set (db_issues db). fi_epic r = e \<and> db_steps db (fi_id r) \<noteq> None)"

definition new_issue :: "graph_mutation \<Rightarrow> string \<Rightarrow> string \<Rightarrow> int \<Rightarrow> f_issue" where
  "new_issue m i project now =
     \<lparr>fi_id = i, fi_epic = gm_epic m, fi_project = project, fi_kind = gm_kind m, fi_title = gm_title m,
      fi_description = gm_description m, fi_status = ''open'', fi_outcome = [], fi_reason = [],
      fi_created = now, fi_retry_at = 0, fi_retry_attempts = 0\<rparr>"

definition inherit_dependencies :: "string \<Rightarrow> string \<Rightarrow> factory_db \<Rightarrow> factory_db" where
  "inherit_dependencies parent i db =
     db\<lparr>db_deps := db_deps db @ map (\<lambda>(x, b, ty). (i, b, ty)) (filter (\<lambda>(x, b, ty). x = parent) (db_deps db))\<rparr>"

text \<open>The new issue's id is returned with the state: it is what the audit record names.\<close>

definition create_issue :: "factory_db \<Rightarrow> graph_mutation \<Rightarrow> string \<Rightarrow> int \<Rightarrow> mutation_error + string \<times> factory_db" where
  "create_issue db m project now =
     (let e = gm_epic m; parent = gm_parent m; in_phase = phase_parent db parent in
      if has_workflow db e \<and> \<not> in_phase then Inl WrongWorkflowParent
      else
        let db1 = (if gm_actor m = ''mcp'' \<and> in_phase \<and> gm_kind m \<noteq> ''mol'' then reopen_phase e parent db else db) in
        if \<not> open_issue db1 parent True e then Inl IssueUnavailable
        else if gm_kind m \<notin> {''mol'', ''task'', ''implementation''} then Inl BadKind
        else if trim_space (gm_title m) = [] then Inl TitleRequired
        else
          let (n, db2) = allocate_child db1 parent; i = child_id parent n in
          case child_index i of
            None \<Rightarrow> Inl BadChildId
          | Some k \<Rightarrow>
              (case insert_issue (new_issue m i project now) db2 of
                 Inl err \<Rightarrow> Inl err
               | Inr db3 \<Rightarrow>
                   (case insert_child parent i k (mutation_requirement (gm_requirement m)) db3 of
                      Inl err \<Rightarrow> Inl err
                    | Inr db4 \<Rightarrow>
                        let db5 = (if in_phase \<and> gm_kind m \<noteq> ''mol'' then inherit_dependencies parent i db4 else db4)
                        in Inr (i, if gm_kind m \<noteq> ''mol'' then close_hand_built e db5 else db5))))"

definition edit_issue :: "factory_db \<Rightarrow> graph_mutation \<Rightarrow> mutation_error + factory_db" where
  "edit_issue db m =
     (if trim_space (gm_title m) = [] then Inl TitleRequired
      else Inr (set_issue (gm_issue m) (\<lambda>r.
             let r1 = r\<lparr>fi_title := gm_title m, fi_description := gm_description m\<rparr>
             in if gm_project m = [] then r1 else r1\<lparr>fi_project := gm_project m\<rparr>) db))"

definition reparent_issue :: "factory_db \<Rightarrow> graph_mutation \<Rightarrow> mutation_error + factory_db" where
  "reparent_issue db m =
     (let i = gm_issue m; parent = gm_parent m; q = mutation_requirement (gm_requirement m) in
      if i = parent then Inl OwnParent
      else if \<not> open_issue db parent True (gm_epic m) then Inl IssueUnavailable
      else if epic_of db i \<noteq> epic_of db parent then Inl CrossEpic
      else if parent \<in> set (descendants db i) then Inl HierarchyCycle
      else if i \<in> fst ` set (db_hierarchy db) \<and>
              (case db_child_index db i of None \<Rightarrow> False | Some n \<Rightarrow> index_taken db i parent n) then Inl ConstraintFailed
      else Inr (db\<lparr>db_hierarchy := map (\<lambda>(c, p, q'). if c = i then (c, parent, q) else (c, p, q')) (db_hierarchy db)\<rparr>))"

definition link_issue :: "factory_db \<Rightarrow> graph_mutation \<Rightarrow> string \<Rightarrow> string \<Rightarrow> mutation_error + factory_db" where
  "link_issue db m project kind =
     (let i = gm_issue m; b = gm_depends_on m; ty = gm_dependency_type m in
      if i = b then Inl OwnDependency
      else if ty = ''merge_gated'' \<and>
        \<not> (case issue_row db b of
             None \<Rightarrow> False
           | Some r \<Rightarrow> db_removed db b = None \<and> fi_kind r = ''delivery'' \<and>
               (kind = ''implementation'' \<or> kind = ''task'') \<and> project \<noteq> fi_project r) then Inl BadMergeGate
      else if ty \<noteq> ''merge_gated'' \<and> \<not> open_issue db b False (gm_epic m) then Inl IssueUnavailable
      else if ty \<notin> {''blocks'', ''on_failure'', ''merge_gated''} then Inl BadDependencyType
      else if i \<in> set (reachable (dep_pairs db) b) then Inl DependencyCycle
      else Inr (if (i, b, ty) \<in> set (db_deps db) then db else db\<lparr>db_deps := db_deps db @ [(i, b, ty)]\<rparr>))"

definition unlink_issue :: "factory_db \<Rightarrow> graph_mutation \<Rightarrow> factory_db" where
  "unlink_issue db m =
     db\<lparr>db_deps := filter (\<lambda>d. d \<noteq> (gm_issue m, gm_depends_on m, gm_dependency_type m)) (db_deps db)\<rparr>"

definition max_revision :: "factory_db \<Rightarrow> string \<Rightarrow> int" where
  "max_revision db e = (let vs = map pr_revision (filter (\<lambda>p. pr_epic p = e) (db_proposals db))
     in if vs = [] then 0 else Max (set vs))"

text \<open>\<open>removeFactoryGraphSubtreeTx\<close>: an issue already removed keeps the revision that removed it.\<close>

definition remove_subtree :: "factory_db \<Rightarrow> string \<Rightarrow> string \<Rightarrow> bool \<Rightarrow> factory_db" where
  "remove_subtree db e i needs_approval =
     (let rv = (if needs_approval then max_revision db e + 1 else 0); ds = set (descendants db i)
      in db\<lparr>db_removed := (\<lambda>x. case db_removed db x of
             Some v \<Rightarrow> Some v
           | None \<Rightarrow> if x \<in> ds then map_option (\<lambda>r. (fi_epic r, rv)) (issue_row db x) else None)\<rparr>)"

definition delete_issue :: "factory_db \<Rightarrow> graph_mutation \<Rightarrow> bool \<Rightarrow> mutation_error + factory_db" where
  "delete_issue db m needs_approval =
     (if \<exists>r \<in> set (db_issues db). fi_id r \<in> set (descendants db (gm_issue m)) \<and>
            fi_status r \<in> {''in_progress'', ''closed''} then Inl IssueUnavailable
      else Inr (remove_subtree db (gm_epic m) (gm_issue m) needs_approval))"

definition with_id :: "string \<Rightarrow> mutation_error + factory_db \<Rightarrow> mutation_error + string \<times> factory_db" where
  "with_id i res = (case res of Inl err \<Rightarrow> Inl err | Inr db \<Rightarrow> Inr (i, db))"

definition apply_action ::
  "factory_db \<Rightarrow> graph_mutation \<Rightarrow> bool \<Rightarrow> string \<Rightarrow> string \<Rightarrow> int \<Rightarrow> mutation_error + string \<times> factory_db"
where
  "apply_action db m needs_approval project kind now =
     (if gm_action m = ''create'' then create_issue db m project now
      else if db_steps db (gm_issue m) \<noteq> None then Inl StepPinned
      else if \<not> open_issue db (gm_issue m) True (gm_epic m) then Inl IssueUnavailable
      else with_id (gm_issue m)
        (if gm_action m = ''edit'' then edit_issue db m
         else if gm_action m = ''reparent'' then reparent_issue db m
         else if gm_action m = ''link'' then link_issue db m project kind
         else if gm_action m = ''unlink'' then Inr (unlink_issue db m)
         else if gm_action m = ''delete'' then delete_issue db m needs_approval
         else Inl UnknownAction))"

text \<open>\<open>mutateFactoryGraphTx\<close>.\<close>

definition mutate_graph_tx :: "factory_db \<Rightarrow> graph_mutation \<Rightarrow> bool \<Rightarrow> int \<Rightarrow> mutation_error + factory_db" where
  "mutate_graph_tx db m needs_approval now =
     (case mutation_guards db m of
        Inl err \<Rightarrow> Inl err
      | Inr (project, kind) \<Rightarrow>
          (case apply_action db m needs_approval project kind now of
             Inl err \<Rightarrow> Inl err
           | Inr (i, db') \<Rightarrow>
               Inr (db'\<lparr>db_audit := db_audit db' @
                 [\<lparr>au_epic = gm_epic m, au_work = i, au_attempt = [], au_actor = gm_actor m,
                   au_action = ''graph.'' @ gm_action m, au_commit = [], au_created = now\<rparr>]\<rparr>)))"

section \<open>Approval of edits\<close>

text \<open>The gate whose approval an edit reopens: the plan gate, or for work built by hand the gate
  under the epic's root formula that a materialization waits for.\<close>

definition approval_gate :: "factory_db \<Rightarrow> string \<Rightarrow> string option" where
  "approval_gate db e =
     (case (case gate_of_epic db e of None \<Rightarrow> None
            | Some g \<Rightarrow> if pg_issue g \<in> issue_ids db \<and> db_removed db (pg_issue g) = None then Some (pg_issue g) else None) of
        Some i \<Rightarrow> Some i
      | None \<Rightarrow> map_option fi_id (find (\<lambda>r.
          fi_epic r = e \<and> fi_kind r = ''gate'' \<and> db_removed db (fi_id r) = None \<and>
          (case hierarchy_row db (fi_id r) of
             None \<Rightarrow> False
           | Some h \<Rightarrow> fst h \<in> set (db_formula_mols db) \<and> hierarchy_row db (fst h) = None) \<and>
          (\<exists>(x, b, ty) \<in> set (db_deps db). b = fi_id r \<and>
             (case issue_row db x of None \<Rightarrow> False
              | Some mr \<Rightarrow> fi_kind mr = ''materialization'' \<and> fi_epic mr = e))) (db_issues db)))"

text \<open>The last approved revision the edit started from.\<close>

definition baseline_revision :: "factory_db \<Rightarrow> string \<Rightarrow> int" where
  "baseline_revision db e =
     (case gate_of_epic db e of
        None \<Rightarrow> 0
      | Some g \<Rightarrow>
          if pg_resolution g = ''approved'' then pg_revision g
          else (case proposal_of db e (pg_revision g) of None \<Rightarrow> 0 | Some p \<Rightarrow> pr_base p))"

text \<open>\<open>reopenFactoryGraphApprovalTx\<close>: the edited graph becomes the next revision of the proposal
  (the hash of its text is a parameter), the gate and its issue are open again.\<close>

definition put_gate :: "plan_gate \<Rightarrow> plan_gate list \<Rightarrow> plan_gate list" where
  "put_gate g gs =
     (if pg_epic g \<in> pg_epic ` set gs
      then map (\<lambda>x. if pg_epic x = pg_epic g
             then x\<lparr>pg_revision := pg_revision g, pg_hash := pg_hash g, pg_resolution := pg_resolution g\<rparr> else x) gs
      else gs @ [g])"

definition reopen_approval :: "factory_db \<Rightarrow> string \<Rightarrow> string \<Rightarrow> mutation_error + factory_db" where
  "reopen_approval db e hash =
     (case approval_gate db e of
        None \<Rightarrow> Inl NoApprovalGate
      | Some gate \<Rightarrow>
          (case list_factory_issues db e of
             None \<Rightarrow> Inl ListingHangs
           | Some issues \<Rightarrow>
               let rv = max_revision db e + 1;
                   p = \<lparr>pr_epic = e, pr_revision = rv, pr_graph = (issues \<noteq> []), pr_base = baseline_revision db e\<rparr>;
                   g = \<lparr>pg_epic = e, pg_issue = gate, pg_revision = rv, pg_resolution = ''open'',
                        pg_hash = hash, pg_model = []\<rparr>
               in Inr (set_issue gate (\<lambda>r. r\<lparr>fi_status := ''open'', fi_outcome := [], fi_reason := []\<rparr>)
                    (db\<lparr>db_proposals := db_proposals db @ [p], db_gates := put_gate g (db_gates db)\<rparr>))))"

text \<open>
  \<open>MutateFactoryGraph\<close> for structural changes: one mutation, or the mutations of a batch with its
  rationale, in one transaction. An agent's changes, and any change of a graph that already awaits
  approval, need approval. (The change of a step's approval is another operation.)
\<close>

fun mutate_all :: "factory_db \<Rightarrow> graph_mutation \<Rightarrow> bool \<Rightarrow> int \<Rightarrow> graph_mutation list \<Rightarrow> mutation_error + factory_db" where
  "mutate_all db m needs_approval now [] = Inr db"
| "mutate_all db m needs_approval now (c # cs) =
     (if gm_action c \<in> {''batch'', ''approve_step'', ''reject_step''} \<or> (gm_epic c \<noteq> [] \<and> gm_epic c \<noteq> gm_epic m)
      then Inl BadBatchEdit
      else case mutate_graph_tx db (c\<lparr>gm_epic := gm_epic m, gm_actor := gm_actor m\<rparr>) needs_approval now of
          Inl err \<Rightarrow> Inl err
        | Inr db' \<Rightarrow> mutate_all db' m needs_approval now cs)"

definition mutate_graph ::
  "factory_db \<Rightarrow> graph_mutation \<Rightarrow> graph_mutation list \<Rightarrow> string \<Rightarrow> string \<Rightarrow> int \<Rightarrow> mutation_error + factory_db"
where
  "mutate_graph db m batch rationale hash now =
     (if gm_action m = ''batch'' \<and> (batch = [] \<or> trim_space rationale = []) then Inl EmptyBatch
      else let changes = (if gm_action m = ''batch'' then batch else [m]);
               needs_approval = (gm_actor m = ''mcp'' \<or> pending_graph db (gm_epic m) \<noteq> None)
           in case mutate_all db m needs_approval now changes of
               Inl err \<Rightarrow> Inl err
             | Inr db' \<Rightarrow> if needs_approval then reopen_approval db' (gm_epic m) hash else Inr db')"

section \<open>Every mutation keeps the graph well formed\<close>

text \<open>What the invariant reads of the issues.\<close>

definition keys_of :: "factory_db \<Rightarrow> (string \<times> string) list" where
  "keys_of db = map (\<lambda>r. (fi_id r, fi_epic r)) (db_issues db)"

lemma ids_of_keys: "map fi_id (db_issues db) = map fst (keys_of db)"
  by (simp add: keys_of_def comp_def)

lemma find_map_key:
  "find (\<lambda>k. fst k = i) (map (\<lambda>r. (fi_id r, fi_epic r)) xs) =
     map_option (\<lambda>r. (fi_id r, fi_epic r)) (find (\<lambda>r. fi_id r = i) xs)"
  by (induction xs) auto

lemma epic_of_keys: "epic_of db i = map_option snd (find (\<lambda>k. fst k = i) (keys_of db))"
  unfolding epic_of_def issue_row_def keys_of_def find_map_key by (simp add: option.map_comp comp_def)

lemma find_snoc: "find P (xs @ [x]) = (case find P xs of Some y \<Rightarrow> Some y | None \<Rightarrow> if P x then Some x else None)"
  by (induction xs) auto

lemma graph_ok_keys:
  assumes "keys_of db' = keys_of db" "db_hierarchy db' = db_hierarchy db" "db_deps db' = db_deps db"
    "db_removed db' = db_removed db"
  shows "graph_ok db' = graph_ok db"
proof -
  have ids: "map fi_id (db_issues db') = map fi_id (db_issues db)" by (simp add: ids_of_keys assms(1))
  then have set: "issue_ids db' = issue_ids db" by (metis image_set)
  have ep: "epic_of db' = epic_of db" by (intro ext) (simp add: epic_of_keys assms(1))
  have pp: "parent_pairs db' = parent_pairs db" "dep_pairs db' = dep_pairs db"
    by (simp_all add: parent_pairs_def dep_pairs_def assms)
  show ?thesis unfolding graph_ok_def rows_ok_def hierarchy_ok_def deps_ok_def ids set ep pp assms ..
qed

lemma keys_of_map:
  assumes "\<And>r. fi_id (g r) = fi_id r" "\<And>r. fi_epic (g r) = fi_epic r"
  shows "keys_of (db\<lparr>db_issues := map g (db_issues db)\<rparr>) = keys_of db"
  using assms by (simp add: keys_of_def comp_def)

lemma set_issue_ok:
  assumes "\<And>r. fi_id (f r) = fi_id r" "\<And>r. fi_epic (f r) = fi_epic r"
  shows "graph_ok (set_issue i f db) = graph_ok db"
  by (rule graph_ok_keys) (simp_all add: set_issue_def keys_of_map assms)

lemma reopen_phase_ok [simp]: "graph_ok (reopen_phase e i db) = graph_ok db"
  by (rule graph_ok_keys) (simp_all add: reopen_phase_def keys_of_map)

lemma close_hand_built_ok [simp]: "graph_ok (close_hand_built e db) = graph_ok db"
proof (cases "hand_built db e")
  case True
  show ?thesis
    by (rule graph_ok_keys) (simp_all add: close_hand_built_def True keys_of_map)
qed (simp add: close_hand_built_def)

lemma graph_ok_other [simp]:
  "graph_ok (db\<lparr>db_sequences := v\<rparr>) = graph_ok db" "graph_ok (db\<lparr>db_audit := u\<rparr>) = graph_ok db"
  "graph_ok (db\<lparr>db_proposals := ps, db_gates := gs\<rparr>) = graph_ok db"
  by (rule graph_ok_keys; simp add: keys_of_def)+

text \<open>A new leaf below an issue that is there and not removed.\<close>

lemma acyclic_fresh:
  assumes "acyclic R" "\<And>x. (x, i) \<notin> R" "fst ` S \<subseteq> {i}" "i \<notin> snd ` S"
  shows "acyclic (R \<union> S)"
proof (rule acyclicI, intro allI notI)
  fix x assume c: "(x, x) \<in> (R \<union> S)\<^sup>+"
  have no: "(y, i) \<notin> (R \<union> S)\<^sup>+" for y
  proof
    assume "(y, i) \<in> (R \<union> S)\<^sup>+"
    then obtain z where "(z, i) \<in> R \<union> S" by (meson tranclE)
    then show False using assms(2,4) by (auto simp: image_iff)
  qed
  have "(y, z) \<in> R\<^sup>+" if "(y, z) \<in> (R \<union> S)\<^sup>+" "y \<noteq> i" for y z
    using that
  proof (induction rule: trancl_induct)
    case (base z)
    then show ?case using assms(3) by (auto simp: image_subset_iff)
  next
    case (step z w)
    have "z \<noteq> i" using step.hyps(1) no by blast
    then have "(z, w) \<in> R" using step.hyps(2) assms(3) by (auto simp: image_subset_iff)
    then show ?case using step by (meson trancl_into_trancl)
  qed
  moreover have "x \<noteq> i" using c no by blast
  ultimately have "(x, x) \<in> R\<^sup>+" using c by blast
  then show False using assms(1) by (auto simp: acyclic_def)
qed

lemma epic_of_Some: "epic_of db i = Some e \<Longrightarrow> i \<in> issue_ids db"
  using issue_row_None[of db i] by (cases "issue_row db i") (auto simp: epic_of_def)

lemma parent_ends:
  assumes "hierarchy_ok db" "(c, p) \<in> set (parent_pairs db)"
  shows "c \<in> issue_ids db" "p \<in> issue_ids db" "epic_of db c = epic_of db p" "epic_of db c \<noteq> None"
proof -
  have b: "epic_of db c \<noteq> None \<and> epic_of db c = epic_of db p"
    using assms unfolding hierarchy_ok_def by blast
  then obtain e where "epic_of db c = Some e" by blast
  then have e: "epic_of db c = Some e" "epic_of db p = Some e" using b by simp_all
  show "epic_of db c = epic_of db p" "epic_of db c \<noteq> None" using e by simp_all
  show "c \<in> issue_ids db" "p \<in> issue_ids db" using epic_of_Some e by blast+
qed

lemma add_leaf_ok:
  assumes ok: "graph_ok db" and new: "fi_id r \<notin> issue_ids db" "fi_id r \<noteq> []"
    and p: "epic_of db parent = Some (fi_epic r)" "db_removed db parent = None"
    and i: "fi_id r = i"
    and db': "db_issues db' = db_issues db @ [r]" "db_hierarchy db' = db_hierarchy db @ [(i, parent, q)]"
      "db_deps db' = db_deps db @ ds" "db_removed db' = db_removed db"
    and ds: "\<forall>(x, b, ty) \<in> set ds. x = i \<and> (\<exists>y. (y, b, ty) \<in> set (db_deps db))"
  shows "graph_ok db'"
proof -
  have rows: "rows_ok db" and h: "hierarchy_ok db" and d: "deps_ok db" using ok by (simp_all add: graph_ok_def)
  have pp: "set (parent_pairs db') = insert (i, parent) (set (parent_pairs db))"
    by (simp add: parent_pairs_def db')
  have dp: "set (dep_pairs db') = set (dep_pairs db) \<union> (\<lambda>(x, b, ty). (x, b)) ` set ds"
    by (auto simp: dep_pairs_def db')
  have fresh: "(x, i) \<notin> set (parent_pairs db)" "(i, x) \<notin> set (parent_pairs db)" for x
    using parent_ends[OF h] new(1) i by blast+
  have dends: "x \<in> issue_ids db \<and> b \<in> issue_ids db" if "(x, b) \<in> set (dep_pairs db)" for x b
    using d that unfolding deps_ok_def by blast
  have dpair: "(y, b) \<in> set (dep_pairs db)" if "(y, b, ty) \<in> set (db_deps db)" for y b ty
    using that by (force simp: dep_pairs_def)
  have dsD: "x = i \<and> (\<exists>y. (y, b, ty) \<in> set (db_deps db))" if "(x, b, ty) \<in> set ds" for x b ty
    using bspec[OF ds that] by simp
  have ne: "parent \<in> issue_ids db" by (rule epic_of_Some[OF p(1)])
  moreover from this have "parent \<noteq> i" using new(1) i by metis
  ultimately have ne: "parent \<in> issue_ids db" "parent \<noteq> i" by blast+
  have ids: "issue_ids db' = insert i (issue_ids db)" by (simp add: db' i)
  have "rows_ok db'" using rows new i unfolding rows_ok_def by (auto simp: db')
  moreover have ep: "epic_of db' x = (if x = i then Some (fi_epic r) else epic_of db x)" for x
  proof -
    have "issue_row db' x = (case issue_row db x of Some s \<Rightarrow> Some s | None \<Rightarrow> if x = i then Some r else None)"
      unfolding issue_row_def db' find_snoc using i by (simp split: option.splits)
    then show ?thesis using new(1) i issue_row_None[of db i] by (auto simp: epic_of_def split: option.splits)
  qed
  moreover have "hierarchy_ok db'"
  proof -
    have "distinct (map fst (db_hierarchy db'))"
      using h fresh(2) unfolding hierarchy_ok_def by (force simp: db' parent_pairs_iff)
    moreover have "acyclic (set (parent_pairs db'))"
    proof -
      have "acyclic (set (parent_pairs db) \<union> {(i, parent)})"
        by (rule acyclic_fresh[where i = i]) (use h fresh ne in \<open>auto simp: hierarchy_ok_def\<close>)
      then show ?thesis by (simp add: pp)
    qed
    moreover have "epic_of db' c \<noteq> None \<and> epic_of db' c = epic_of db' p'"
      if "(c, p') \<in> set (parent_pairs db')" for c p'
    proof (cases "c = i")
      case True
      then have "p' = parent" using that fresh(2) by (auto simp: pp)
      then show ?thesis using p(1) ne True by (simp add: ep)
    next
      case False
      then have "(c, p') \<in> set (parent_pairs db)" using that by (auto simp: pp)
      then show ?thesis using parent_ends[OF h] new(1) i False by (auto simp: ep)
    qed
    moreover have "db_removed db' c \<noteq> None" if "(c, p') \<in> set (parent_pairs db')" "db_removed db' p' \<noteq> None" for c p'
    proof
      assume n: "db_removed db' c = None"
      have "p' = parent \<or> (c, p') \<in> set (parent_pairs db)" using that(1) by (auto simp: pp)
      then have "db_removed db p' = None"
        using parent_not_removed[OF h, of c p'] n p(2) by (metis db'(4))
      then show False using that(2) by (simp add: db')
    qed
    ultimately show ?thesis unfolding hierarchy_ok_def by blast
  qed
  moreover have "deps_ok db'"
  proof -
    have "acyclic (set (dep_pairs db'))"
      unfolding dp
    proof (rule acyclic_fresh[where i = i])
      show "acyclic (set (dep_pairs db))" using d by (simp add: deps_ok_def)
      show "(x, i) \<notin> set (dep_pairs db)" for x using dends new(1) i by blast
      show "fst ` (\<lambda>(x, b, ty). (x, b)) ` set ds \<subseteq> {i}" using ds by auto
      show "i \<notin> snd ` (\<lambda>(x, b, ty). (x, b)) ` set ds"
      proof
        assume "i \<in> snd ` (\<lambda>(x, b, ty). (x, b)) ` set ds"
        then obtain t where "t \<in> set ds" "fst (snd t) = i" by (auto simp: image_iff split: prod.splits)
        then have "(fst t, i, snd (snd t)) \<in> set ds" by (metis prod.collapse)
        then obtain x ty where "(x, i, ty) \<in> set ds" by blast
        then obtain y where "(y, i, ty) \<in> set (db_deps db)" using dsD[of x i ty] by auto
        from dends[OF dpair[OF this]] have "i \<in> issue_ids db" by (rule conjunct2)
        then show False using new(1) unfolding i by contradiction
      qed
    qed
    moreover have "x \<in> issue_ids db' \<and> b \<in> issue_ids db'" if "(x, b) \<in> set (dep_pairs db')" for x b
    proof (cases "(x, b) \<in> set (dep_pairs db)")
      case True
      then show ?thesis using dends unfolding ids by blast
    next
      case False
      then have "(x, b) \<in> (\<lambda>(x, b, ty). (x, b)) ` set ds" using that unfolding dp by blast
      then obtain t where "t \<in> set ds" "fst t = x" "fst (snd t) = b" by (auto simp: image_iff split: prod.splits)
      then have "(x, b, snd (snd t)) \<in> set ds" by (metis prod.collapse)
      then obtain ty where "(x, b, ty) \<in> set ds" by blast
      then obtain y where "x = i" "(y, b, ty) \<in> set (db_deps db)" using dsD[of x b ty] by auto
      then show ?thesis using dends[OF dpair] unfolding ids by blast
    qed
    moreover have "ty \<in> {''blocks'', ''on_failure'', ''merge_gated''}" if "(x, b, ty) \<in> set (db_deps db')" for x b ty
    proof -
      have "\<exists>y. (y, b, ty) \<in> set (db_deps db)" using that dsD[of x b ty] unfolding db' by auto
      then show ?thesis using d unfolding deps_ok_def by blast
    qed
    ultimately show ?thesis unfolding deps_ok_def by blast
  qed
  ultimately show ?thesis by (simp add: graph_ok_def)
qed

lemma in_descendants: "x \<in> set (descendants db i) \<longleftrightarrow> (x, i) \<in> (set (parent_pairs db))\<^sup>*"
proof -
  have "set (map (\<lambda>(c, p). (p, c)) (parent_pairs db)) = (set (parent_pairs db))\<inverse>" by auto
  then show ?thesis unfolding descendants_def reachable_iff by (simp add: rtrancl_converse)
qed

lemma open_issueD:
  assumes "open_issue db i local e"
  obtains r where "issue_row db i = Some r" "db_removed db i = None" "local \<Longrightarrow> fi_epic r = e"
    "fi_status r \<noteq> ''in_progress''" "fi_status r \<noteq> ''closed''"
  using assms unfolding open_issue_def by (auto split: option.splits)

lemma reparent_ok:
  assumes ok: "graph_ok db" and r: "reparent_issue db m = Inr db'"
    and epic: "epic_of db (gm_issue m) \<noteq> None"
  shows "graph_ok db'"
proof -
  define i parent q where "i = gm_issue m" and "parent = gm_parent m" and "q = mutation_requirement (gm_requirement m)"
  have h: "hierarchy_ok db" using ok by (simp add: graph_ok_def)
  have open_p: "open_issue db parent True (gm_epic m)" and same: "epic_of db i = epic_of db parent"
      and nocycle: "parent \<notin> set (descendants db i)"
      and db': "db' = db\<lparr>db_hierarchy := map (\<lambda>(c, p, q'). if c = i then (c, parent, q) else (c, p, q')) (db_hierarchy db)\<rparr>"
    using r unfolding reparent_issue_def Let_def i_def parent_def q_def by (auto split: if_splits)
  let ?P = "set (parent_pairs db)"
  have pp: "set (parent_pairs db') = (\<lambda>(c, p). if c = i then (i, parent) else (c, p)) ` ?P"
    unfolding parent_pairs_def db' by (force simp: image_iff)
  have sub: "set (parent_pairs db') \<subseteq> insert (i, parent) ?P" unfolding pp by (auto split: if_splits)
  have same_issues: "db_issues db' = db_issues db" "db_deps db' = db_deps db" "db_removed db' = db_removed db"
    by (simp_all add: db')
  have ep: "epic_of db' = epic_of db" by (intro ext) (simp add: epic_of_def issue_row_def same_issues)
  have fsts: "map fst (db_hierarchy db') = map fst (db_hierarchy db)"
    unfolding db' by (simp add: comp_def case_prod_beta if_distrib cong: if_cong)
  have "acyclic (insert (i, parent) ?P)"
    using h nocycle by (simp add: acyclic_insert in_descendants hierarchy_ok_def)
  then have ac: "acyclic (set (parent_pairs db'))" by (rule acyclic_subset[OF _ sub])
  have removed: "db_removed db parent = None" using open_p by (rule open_issueD)
  have ends: "epic_of db' c \<noteq> None \<and> epic_of db' c = epic_of db' p" if "(c, p) \<in> set (parent_pairs db')" for c p
    using subsetD[OF sub that] parent_ends(3,4)[OF h] same epic by (auto simp: ep i_def)
  have down: "db_removed db' c \<noteq> None" if "(c, p) \<in> set (parent_pairs db')" "db_removed db' p \<noteq> None" for c p
  proof
    assume n: "db_removed db' c = None"
    have "p = parent \<or> (c, p) \<in> ?P" using subsetD[OF sub that(1)] by blast
    then have "db_removed db p = None"
      using parent_not_removed[OF h, of c p] n removed by (metis same_issues(3))
    then show False using that(2) by (simp add: same_issues)
  qed
  have "hierarchy_ok db'"
    unfolding hierarchy_ok_def using ac ends down h by (simp add: fsts hierarchy_ok_def) blast
  moreover have "rows_ok db'" "deps_ok db'"
    using ok by (simp_all add: graph_ok_def rows_ok_def deps_ok_def same_issues dep_pairs_def)
  ultimately show ?thesis by (simp add: graph_ok_def)
qed

lemma link_ok:
  assumes ok: "graph_ok db" and l: "link_issue db m project kind = Inr db'"
    and i: "gm_issue m \<in> issue_ids db"
  shows "graph_ok db'"
proof (cases "(gm_issue m, gm_depends_on m, gm_dependency_type m) \<in> set (db_deps db)")
  case True
  then have "db' = db" using l unfolding link_issue_def Let_def by (auto split: if_splits)
  then show ?thesis using ok by simp
next
  case False
  define x b ty where "x = gm_issue m" and "b = gm_depends_on m" and "ty = gm_dependency_type m"
  have d: "deps_ok db" using ok by (simp add: graph_ok_def)
  have db': "db' = db\<lparr>db_deps := db_deps db @ [(x, b, ty)]\<rparr>" and types: "ty \<in> {''blocks'', ''on_failure'', ''merge_gated''}"
      and nocycle: "x \<notin> set (reachable (dep_pairs db) b)"
    using l False unfolding link_issue_def Let_def x_def b_def ty_def by (auto split: if_splits)
  have b: "issue_row db b \<noteq> None"
  proof
    assume n: "issue_row db b = None"

    have i: "(gm_issue m = gm_depends_on m) = False"
      using l unfolding link_issue_def Let_def by (cases "gm_issue m = gm_depends_on m") simp_all
    show False
    proof (cases "gm_dependency_type m = ''merge_gated''")
      case True
      show ?thesis using l unfolding link_issue_def Let_def i True n[unfolded b_def] by simp
    next
      case False
      then have f: "(gm_dependency_type m = ''merge_gated'') = False" by simp
      have "\<not> open_issue db (gm_depends_on m) False (gm_epic m)" using n by (simp add: open_issue_def b_def)
      then show ?thesis using l unfolding link_issue_def Let_def i f by simp
    qed
  qed
  have b': "b \<in> issue_ids db" using b unfolding issue_row_None by (rule notnotD)
  have dp: "set (dep_pairs db') = insert (x, b) (set (dep_pairs db))" by (simp add: dep_pairs_def db')
  have "acyclic (set (dep_pairs db'))"
    using d nocycle unfolding dp deps_ok_def acyclic_insert by (simp add: reachable_iff)
  moreover have "y \<in> issue_ids db' \<and> z \<in> issue_ids db'" if "(y, z) \<in> set (dep_pairs db')" for y z
  proof -
    have ids: "issue_ids db' = issue_ids db" by (simp add: db')
    have "(y, z) = (x, b) \<or> (y, z) \<in> set (dep_pairs db)" using that dp by blast
    then show ?thesis unfolding ids using d i b' unfolding deps_ok_def x_def by blast
  qed
  moreover have "ty' \<in> {''blocks'', ''on_failure'', ''merge_gated''}" if "(y, z, ty') \<in> set (db_deps db')" for y z ty'
  proof -
    have "(y, z, ty') = (x, b, ty) \<or> (y, z, ty') \<in> set (db_deps db)" using that by (auto simp: db')
    then show ?thesis using types d unfolding deps_ok_def by blast
  qed
  ultimately have "deps_ok db'" unfolding deps_ok_def by blast
  moreover have "rows_ok db'" "hierarchy_ok db'"
    using ok by (simp_all add: graph_ok_def rows_ok_def hierarchy_ok_def db' parent_pairs_def epic_of_def issue_row_def)
  ultimately show ?thesis by (simp add: graph_ok_def)
qed

lemma unlink_ok:
  assumes ok: "graph_ok db"
  shows "graph_ok (unlink_issue db m)"
proof -
  let ?db = "unlink_issue db m"
  have sub: "set (db_deps ?db) \<subseteq> set (db_deps db)" by (auto simp: unlink_issue_def)
  then have dp: "set (dep_pairs ?db) \<subseteq> set (dep_pairs db)" unfolding dep_pairs_def set_map by (rule image_mono)
  have ids: "issue_ids ?db = issue_ids db" by (simp add: unlink_issue_def)
  have d: "deps_ok db" using ok by (simp add: graph_ok_def)
  have "acyclic (set (dep_pairs ?db))" using d dp by (auto simp: deps_ok_def intro: acyclic_subset)
  moreover have "\<forall>(i, b) \<in> set (dep_pairs ?db). i \<in> issue_ids ?db \<and> b \<in> issue_ids ?db"
    using d dp unfolding ids deps_ok_def by blast
  moreover have "\<forall>(i, b, ty) \<in> set (db_deps ?db). ty \<in> {''blocks'', ''on_failure'', ''merge_gated''}"
    using d sub unfolding deps_ok_def by blast
  ultimately have "deps_ok ?db" by (simp add: deps_ok_def)
  moreover have "rows_ok ?db" "hierarchy_ok ?db"
    using ok by (simp_all add: graph_ok_def rows_ok_def hierarchy_ok_def unlink_issue_def parent_pairs_def epic_of_def issue_row_def)
  ultimately show ?thesis by (simp add: graph_ok_def)
qed

lemma remove_subtree_ok:
  assumes ok: "graph_ok db"
  shows "graph_ok (remove_subtree db e i b)"
proof -
  let ?db = "remove_subtree db e i b"
  have h: "hierarchy_ok db" using ok by (simp add: graph_ok_def)
  have same: "db_issues ?db = db_issues db" "db_hierarchy ?db = db_hierarchy db" "db_deps ?db = db_deps db"
    by (simp_all add: remove_subtree_def Let_def)
  have pp: "parent_pairs ?db = parent_pairs db" "dep_pairs ?db = dep_pairs db"
    by (simp_all add: parent_pairs_def dep_pairs_def same)
  have ep: "epic_of ?db = epic_of db" by (intro ext) (simp add: epic_of_def issue_row_def same)
  have rem: "db_removed ?db x \<noteq> None \<longleftrightarrow> db_removed db x \<noteq> None \<or> (x \<in> set (descendants db i) \<and> x \<in> issue_ids db)" for x
    unfolding remove_subtree_def Let_def using issue_row_None[of db x]
    by (cases "db_removed db x"; cases "issue_row db x") auto
  have "db_removed ?db c \<noteq> None" if cp: "(c, p) \<in> set (parent_pairs db)" and "db_removed ?db p \<noteq> None" for c p
  proof -
    have "db_removed db p \<noteq> None \<or> p \<in> set (descendants db i)" using that(2) unfolding rem by blast
    then show ?thesis
    proof
      assume "db_removed db p \<noteq> None"
      then have "db_removed db c \<noteq> None" using parent_not_removed[OF h cp] by metis
      then show ?thesis unfolding rem by blast
    next
      assume "p \<in> set (descendants db i)"
      then have "c \<in> set (descendants db i)"
        unfolding in_descendants using cp by (rule converse_rtrancl_into_rtrancl[rotated])
      then show ?thesis unfolding rem using parent_ends(1)[OF h cp] by blast
    qed
  qed
  then have "hierarchy_ok ?db" using h unfolding hierarchy_ok_def pp ep same by blast
  moreover have "rows_ok ?db" "deps_ok ?db" using ok by (simp_all add: graph_ok_def rows_ok_def deps_ok_def same pp)
  ultimately show ?thesis by (simp add: graph_ok_def)
qed

lemma open_issue_epic:
  assumes "open_issue db i True e"
  shows "epic_of db i = Some e" "db_removed db i = None" "i \<in> issue_ids db"
proof -
  obtain r where r: "issue_row db i = Some r" "db_removed db i = None" "fi_epic r = e"
    using assms by (rule open_issueD) blast
  then show "epic_of db i = Some e" "db_removed db i = None" by (simp_all add: epic_of_def)
  then show "i \<in> issue_ids db" by (intro epic_of_Some)
qed

lemma new_id: "fi_id (new_issue m i project now) = i" "fi_epic (new_issue m i project now) = gm_epic m"
  by (simp_all add: new_issue_def)

text \<open>What a successful creation did, step by step.\<close>

lemma create_issueE:
  assumes "create_issue db m project now = Inr (i, db')"
  obtains db1 n k where
    "db1 = (if gm_actor m = ''mcp'' \<and> phase_parent db (gm_parent m) \<and> gm_kind m \<noteq> ''mol''
            then reopen_phase (gm_epic m) (gm_parent m) db else db)"
    "open_issue db1 (gm_parent m) True (gm_epic m)" "n = fst (allocate_child db1 (gm_parent m))"
    "i = child_id (gm_parent m) n" "child_index i = Some k" "i \<notin> issue_ids db1"
    "i \<notin> fst ` set (db_hierarchy db1)" "\<not> index_taken db1 i (gm_parent m) k"
    "db' = (let db4 = (snd (allocate_child db1 (gm_parent m)))
              \<lparr>db_issues := db_issues db1 @ [new_issue m i project now],
               db_hierarchy := db_hierarchy db1 @ [(i, gm_parent m, mutation_requirement (gm_requirement m))],
               db_child_index := (db_child_index db1)(i \<mapsto> k)\<rparr>;
            db5 = (if phase_parent db (gm_parent m) \<and> gm_kind m \<noteq> ''mol'' then inherit_dependencies (gm_parent m) i db4 else db4)
        in if gm_kind m \<noteq> ''mol'' then close_hand_built (gm_epic m) db5 else db5)"
proof -
  define db1 where "db1 = (if gm_actor m = ''mcp'' \<and> phase_parent db (gm_parent m) \<and> gm_kind m \<noteq> ''mol''
            then reopen_phase (gm_epic m) (gm_parent m) db else db)"
  obtain n db2 where al: "allocate_child db1 (gm_parent m) = (n, db2)" by (cases "allocate_child db1 (gm_parent m)")
  have db2: "db_issues db2 = db_issues db1" "db_hierarchy db2 = db_hierarchy db1" "db_child_index db2 = db_child_index db1"
    using al unfolding allocate_child_def by (auto split: option.splits)
  obtain k where steps: "open_issue db1 (gm_parent m) True (gm_epic m)" "i = child_id (gm_parent m) n"
      "child_index i = Some k" "i \<notin> issue_ids db2" "i \<notin> fst ` set (db_hierarchy db2)"
      "\<not> index_taken (db2\<lparr>db_issues := db_issues db2 @ [new_issue m i project now]\<rparr>) i (gm_parent m) k"
      "db' = (let db4 = db2\<lparr>db_issues := db_issues db2 @ [new_issue m i project now],
               db_hierarchy := db_hierarchy db2 @ [(i, gm_parent m, mutation_requirement (gm_requirement m))],
               db_child_index := (db_child_index db2)(i \<mapsto> k)\<rparr>;
            db5 = (if phase_parent db (gm_parent m) \<and> gm_kind m \<noteq> ''mol'' then inherit_dependencies (gm_parent m) i db4 else db4)
        in if gm_kind m \<noteq> ''mol'' then close_hand_built (gm_epic m) db5 else db5)"
    using assms
    unfolding create_issue_def Let_def db1_def[symmetric] al prod.case insert_issue_def insert_child_def
    by (auto simp: new_id split: if_split_asm option.split_asm)
  have it: "index_taken (db2\<lparr>db_issues := x\<rparr>) i p k = index_taken db1 i p k" for x i p k
    by (simp add: index_taken_def db2)
  show ?thesis
    by (rule that[OF db1_def steps(1) _ steps(2,3)])
       (use steps al db2 it in \<open>simp_all\<close>)
qed

lemma allocate_tables:
  "db_issues (snd (allocate_child db p)) = db_issues db" "db_hierarchy (snd (allocate_child db p)) = db_hierarchy db"
  "db_deps (snd (allocate_child db p)) = db_deps db" "db_removed (snd (allocate_child db p)) = db_removed db"
  "db_child_index (snd (allocate_child db p)) = db_child_index db"
  "db_gates (snd (allocate_child db p)) = db_gates db" "db_proposals (snd (allocate_child db p)) = db_proposals db"
  by (simp_all add: allocate_child_def split: option.splits)

lemma create_ok:
  assumes ok: "graph_ok db" and c: "create_issue db m project now = Inr (i, db')"
  shows "graph_ok db'"
proof -
  obtain db1 n k where db1: "db1 = (if gm_actor m = ''mcp'' \<and> phase_parent db (gm_parent m) \<and> gm_kind m \<noteq> ''mol''
            then reopen_phase (gm_epic m) (gm_parent m) db else db)"
    and op: "open_issue db1 (gm_parent m) True (gm_epic m)"
    and i: "i = child_id (gm_parent m) n" and new: "i \<notin> issue_ids db1"
    and db': "db' = (let db4 = (snd (allocate_child db1 (gm_parent m)))
              \<lparr>db_issues := db_issues db1 @ [new_issue m i project now],
               db_hierarchy := db_hierarchy db1 @ [(i, gm_parent m, mutation_requirement (gm_requirement m))],
               db_child_index := (db_child_index db1)(i \<mapsto> k)\<rparr>;
            db5 = (if phase_parent db (gm_parent m) \<and> gm_kind m \<noteq> ''mol'' then inherit_dependencies (gm_parent m) i db4 else db4)
        in if gm_kind m \<noteq> ''mol'' then close_hand_built (gm_epic m) db5 else db5)"
    by (rule create_issueE[OF c])
  define db4 where "db4 = (snd (allocate_child db1 (gm_parent m)))
              \<lparr>db_issues := db_issues db1 @ [new_issue m i project now],
               db_hierarchy := db_hierarchy db1 @ [(i, gm_parent m, mutation_requirement (gm_requirement m))],
               db_child_index := (db_child_index db1)(i \<mapsto> k)\<rparr>"
  have ok1: "graph_ok db1" using ok by (simp add: db1)
  have leaf: "graph_ok db5"
    if "db_issues db5 = db_issues db4" "db_hierarchy db5 = db_hierarchy db4" "db_removed db5 = db_removed db4"
      and "db_deps db5 = db_deps db1 @ ds" "\<forall>(x, b, ty) \<in> set ds. x = i \<and> (\<exists>y. (y, b, ty) \<in> set (db_deps db1))" for db5 ds
  proof (rule add_leaf_ok[OF ok1, where r = "new_issue m i project now" and i = i and parent = "gm_parent m"
        and q = "mutation_requirement (gm_requirement m)" and ds = ds])
    show "fi_id (new_issue m i project now) \<notin> issue_ids db1" using new by (simp add: new_id)
    show "fi_id (new_issue m i project now) \<noteq> []" by (simp add: new_id i child_id_def)
    show "epic_of db1 (gm_parent m) = Some (fi_epic (new_issue m i project now))"
      using open_issue_epic(1)[OF op] by (simp add: new_id)
    show "db_removed db1 (gm_parent m) = None" by (rule open_issue_epic(2)[OF op])
  qed (use that in \<open>simp_all add: new_id db4_def allocate_tables\<close>)
  have "graph_ok (if phase_parent db (gm_parent m) \<and> gm_kind m \<noteq> ''mol'' then inherit_dependencies (gm_parent m) i db4 else db4)"
  proof (cases "phase_parent db (gm_parent m) \<and> gm_kind m \<noteq> ''mol''")
    case True
    have "graph_ok (inherit_dependencies (gm_parent m) i db4)"
      by (rule leaf[where ds = "map (\<lambda>(x, b, ty). (i, b, ty)) (filter (\<lambda>(x, b, ty). x = gm_parent m) (db_deps db1))"])
         (auto simp: inherit_dependencies_def db4_def allocate_tables)
    then show ?thesis using True by simp
  next
    case False
    have "graph_ok db4" by (rule leaf[where ds = "[]"]) (auto simp: db4_def allocate_tables)
    then show ?thesis using False by auto
  qed
  then show ?thesis unfolding db' Let_def db4_def[symmetric] by (simp only: close_hand_built_ok split: if_split) simp
qed

lemma if_chain:
  "(if a then x1 else if b then x2 else if c then x3 else if d then x4 else if e then x5 else x6) = y \<Longrightarrow>
     x1 = y \<or> x2 = y \<or> x3 = y \<or> x4 = y \<or> x5 = y \<or> x6 = y"
  by (auto split: if_splits)

text \<open>The cases of an action on an existing issue.\<close>

lemma apply_actionE:
  assumes "apply_action db m b project kind now = Inr (i, db')" "gm_action m \<noteq> ''create''"
  obtains "open_issue db (gm_issue m) True (gm_epic m)" "edit_issue db m = Inr db'"
  | "open_issue db (gm_issue m) True (gm_epic m)" "reparent_issue db m = Inr db'"
  | "open_issue db (gm_issue m) True (gm_epic m)" "link_issue db m project kind = Inr db'"
  | "open_issue db (gm_issue m) True (gm_epic m)" "db' = unlink_issue db m"
  | "open_issue db (gm_issue m) True (gm_epic m)" "delete_issue db m b = Inr db'"
proof -
  have w: "with_id (gm_issue m) res = Inr (i, db') \<Longrightarrow> res = Inr db'" for res
    by (simp add: with_id_def split: sum.splits)
  have op: "open_issue db (gm_issue m) True (gm_epic m)"
    using assms unfolding apply_action_def
    by (cases "open_issue db (gm_issue m) True (gm_epic m)") (simp_all split: if_split_asm)
  have "(if gm_action m = ''edit'' then edit_issue db m
         else if gm_action m = ''reparent'' then reparent_issue db m
         else if gm_action m = ''link'' then link_issue db m project kind
         else if gm_action m = ''unlink'' then Inr (unlink_issue db m)
         else if gm_action m = ''delete'' then delete_issue db m b
         else Inl UnknownAction) = Inr db'"
    using assms(1) op unfolding apply_action_def if_not_P[OF assms(2)]
    by (intro w) (cases "db_steps db (gm_issue m)"; simp only: simp_thms if_True if_False option.simps; simp)
  from if_chain[OF this] show ?thesis using that op by auto
qed

definition reparented :: "factory_db \<Rightarrow> string \<Rightarrow> string \<Rightarrow> string \<Rightarrow> factory_db" where
  "reparented db i parent q =
     db\<lparr>db_hierarchy := map (\<lambda>(c, p, q'). if c = i then (c, parent, q) else (c, p, q')) (db_hierarchy db)\<rparr>"

lemma reparent_issueD:
  "reparent_issue db m = Inr db' \<Longrightarrow> db' = reparented db (gm_issue m) (gm_parent m) (mutation_requirement (gm_requirement m))"
  unfolding reparent_issue_def Let_def reparented_def by (simp split: if_split_asm)

lemma link_issueD:
  "link_issue db m project kind = Inr db' \<Longrightarrow>
     db' = db \<or> db' = db\<lparr>db_deps := db_deps db @ [(gm_issue m, gm_depends_on m, gm_dependency_type m)]\<rparr>"
  unfolding link_issue_def Let_def by (auto split: if_split_asm)

lemma delete_issueD:
  assumes "delete_issue db m b = Inr db'"
  shows "db' = remove_subtree db (gm_epic m) (gm_issue m) b"
    "\<And>r. r \<in> set (db_issues db) \<Longrightarrow> fi_id r \<in> set (descendants db (gm_issue m)) \<Longrightarrow> fi_status r \<notin> {''in_progress'', ''closed''}"
  using assms unfolding delete_issue_def by (auto split: if_split_asm)

definition edited :: "graph_mutation \<Rightarrow> f_issue \<Rightarrow> f_issue" where
  "edited m r = (let r1 = r\<lparr>fi_title := gm_title m, fi_description := gm_description m\<rparr>
     in if gm_project m = [] then r1 else r1\<lparr>fi_project := gm_project m\<rparr>)"

lemma edit_issueD: "edit_issue db m = Inr db' \<Longrightarrow> db' = set_issue (gm_issue m) (edited m) db"
  unfolding edit_issue_def edited_def by (simp split: if_split_asm)

lemma edited_fields [simp]: "fi_id (edited m r) = fi_id r" "fi_epic (edited m r) = fi_epic r"
  by (simp_all add: edited_def Let_def)

lemma apply_action_ok:
  assumes ok: "graph_ok db" and a: "apply_action db m b project kind now = Inr (i, db')"
  shows "graph_ok db'"
proof (cases "gm_action m = ''create''")
  case True
  then show ?thesis using a create_ok[OF ok] unfolding apply_action_def by simp
next
  case False
  show ?thesis
  proof (rule apply_actionE[OF a False])
    assume "edit_issue db m = Inr db'"
    then have "db' = set_issue (gm_issue m) (edited m) db" by (rule edit_issueD)
    then show ?thesis using ok by (simp add: set_issue_ok)
  next
    assume "open_issue db (gm_issue m) True (gm_epic m)" "reparent_issue db m = Inr db'"
    then show ?thesis using reparent_ok[OF ok] open_issue_epic(1) by (metis option.distinct(1))
  next
    assume "open_issue db (gm_issue m) True (gm_epic m)" "link_issue db m project kind = Inr db'"
    then show ?thesis using link_ok[OF ok] open_issue_epic(3) by blast
  next
    assume "db' = unlink_issue db m"
    then show ?thesis using unlink_ok[OF ok] by simp
  next
    assume "delete_issue db m b = Inr db'"
    then show ?thesis using remove_subtree_ok[OF ok] delete_issueD(1) by metis
  qed
qed

lemma mutate_graph_txE:
  assumes "mutate_graph_tx db m b now = Inr db'"
  obtains project kind i db1 where "apply_action db m b project kind now = Inr (i, db1)"
    "\<exists>u. db' = db1\<lparr>db_audit := u\<rparr>" "mutation_guards db m = Inr (project, kind)"
proof -
  obtain project kind where g: "mutation_guards db m = Inr (project, kind)"
    using assms unfolding mutate_graph_tx_def by (cases "mutation_guards db m") auto
  obtain i db1 where a: "apply_action db m b project kind now = Inr (i, db1)"
    using assms unfolding mutate_graph_tx_def g by (cases "apply_action db m b project kind now") auto
  have "\<exists>u. db' = db1\<lparr>db_audit := u\<rparr>"
    using assms unfolding mutate_graph_tx_def g sum.case prod.case a by blast
  then show ?thesis using that g a by blast
qed

lemma mutate_tx_ok:
  assumes ok: "graph_ok db" and m: "mutate_graph_tx db m b now = Inr db'"
  shows "graph_ok db'"
proof -
  obtain project kind i db1 where a: "apply_action db m b project kind now = Inr (i, db1)"
      and db': "\<exists>u. db' = db1\<lparr>db_audit := u\<rparr>"
    by (rule mutate_graph_txE[OF m])
  have "graph_ok db1" using apply_action_ok[OF ok a] .
  then show ?thesis using db' by auto
qed

lemma mutate_all_ok:
  "graph_ok db \<Longrightarrow> mutate_all db m b now cs = Inr db' \<Longrightarrow> graph_ok db'"
proof (induction cs arbitrary: db)
  case (Cons c cs)
  then obtain db1 where "mutate_graph_tx db (c\<lparr>gm_epic := gm_epic m, gm_actor := gm_actor m\<rparr>) b now = Inr db1"
      "mutate_all db1 m b now cs = Inr db'"
    by (auto split: if_split_asm sum.split_asm)
  then show ?case using Cons.IH mutate_tx_ok[OF Cons.prems(1)] by blast
qed simp

lemma reopen_approval_ok:
  assumes "graph_ok db" "reopen_approval db e hash = Inr db'"
  shows "graph_ok db'"
proof -
  obtain gate ps gs where "db' = set_issue gate (\<lambda>r. r\<lparr>fi_status := ''open'', fi_outcome := [], fi_reason := []\<rparr>)
      (db\<lparr>db_proposals := ps, db_gates := gs\<rparr>)"
    using assms(2) unfolding reopen_approval_def Let_def by (auto split: option.splits)
  then show ?thesis using assms(1) by (simp add: set_issue_ok)
qed

lemma mutate_graphE:
  assumes "mutate_graph db m batch rationale hash now = Inr db'"
  obtains cs db1 where
    "mutate_all db m (gm_actor m = ''mcp'' \<or> pending_graph db (gm_epic m) \<noteq> None) now cs = Inr db1"
    "if gm_actor m = ''mcp'' \<or> pending_graph db (gm_epic m) \<noteq> None
     then reopen_approval db1 (gm_epic m) hash = Inr db' else db' = db1"
proof -
  define b where "b = (gm_actor m = ''mcp'' \<or> pending_graph db (gm_epic m) \<noteq> None)"
  define cs where "cs = (if gm_action m = ''batch'' then batch else [m])"
  have e: "\<not> (gm_action m = ''batch'' \<and> (batch = [] \<or> trim_space rationale = []))"
    using assms unfolding mutate_graph_def by (auto split: if_split_asm)
  have r: "(case mutate_all db m b now cs of Inl err \<Rightarrow> Inl err
      | Inr db1 \<Rightarrow> if b then reopen_approval db1 (gm_epic m) hash else Inr db1) = Inr db'"
    using assms unfolding mutate_graph_def if_not_P[OF e] Let_def b_def cs_def .
  then obtain db1 where "mutate_all db m b now cs = Inr db1" by (cases "mutate_all db m b now cs") auto
  with r show ?thesis using that[of cs db1] unfolding b_def by (simp split: if_split_asm)
qed

lemma mutate_graph_ok:
  assumes "graph_ok db" "mutate_graph db m batch rationale hash now = Inr db'"
  shows "graph_ok db'"
proof -
  obtain db1 cs where a: "mutate_all db m (gm_actor m = ''mcp'' \<or> pending_graph db (gm_epic m) \<noteq> None) now cs = Inr db1"
      and r: "if gm_actor m = ''mcp'' \<or> pending_graph db (gm_epic m) \<noteq> None
        then reopen_approval db1 (gm_epic m) hash = Inr db' else db' = db1"
    by (rule mutate_graphE[OF assms(2)])
  have "graph_ok db1" by (rule mutate_all_ok[OF assms(1) a])
  then show ?thesis using r reopen_approval_ok by (metis (full_types))
qed

section \<open>What an edit leaves alone\<close>

text \<open>Issues keep their id and epic and are only added, gates and proposals are not touched.\<close>

definition extends :: "factory_db \<Rightarrow> factory_db \<Rightarrow> bool" where
  "extends db db' \<longleftrightarrow> (\<exists>ks. keys_of db' = keys_of db @ ks) \<and> db_gates db' = db_gates db \<and>
     db_proposals db' = db_proposals db"

lemma extends_refl [simp]: "extends db db"
  by (simp add: extends_def)

lemma extends_trans: "extends a b \<Longrightarrow> extends b c \<Longrightarrow> extends a c"
  unfolding extends_def by (metis append.assoc)

lemma extends_same_issues:
  "db_issues db' = db_issues db \<Longrightarrow> db_gates db' = db_gates db \<Longrightarrow> db_proposals db' = db_proposals db \<Longrightarrow> extends db db'"
  by (simp add: extends_def keys_of_def)

lemma extends_map:
  assumes "\<And>r. fi_id (g r) = fi_id r" "\<And>r. fi_epic (g r) = fi_epic r"
  shows "extends db (db\<lparr>db_issues := map g (db_issues db)\<rparr>)"
  by (simp add: extends_def keys_of_map assms)

lemma reopen_phase_extends: "extends db (reopen_phase e i db)"
  unfolding reopen_phase_def by (rule extends_map) simp_all

lemma close_hand_built_extends: "extends db (close_hand_built e db)"
  unfolding close_hand_built_def by (simp add: extends_map)

lemma set_issue_extends:
  assumes "\<And>r. fi_id (f r) = fi_id r" "\<And>r. fi_epic (f r) = fi_epic r"
  shows "extends db (set_issue i f db)"
  unfolding set_issue_def by (rule extends_map) (simp_all add: assms)

lemma create_extends:
  assumes "create_issue db m project now = Inr (i, db')"
  shows "extends db db'"
proof -
  obtain db1 n k where db1: "db1 = (if gm_actor m = ''mcp'' \<and> phase_parent db (gm_parent m) \<and> gm_kind m \<noteq> ''mol''
            then reopen_phase (gm_epic m) (gm_parent m) db else db)"
    and db': "db' = (let db4 = (snd (allocate_child db1 (gm_parent m)))
              \<lparr>db_issues := db_issues db1 @ [new_issue m i project now],
               db_hierarchy := db_hierarchy db1 @ [(i, gm_parent m, mutation_requirement (gm_requirement m))],
               db_child_index := (db_child_index db1)(i \<mapsto> k)\<rparr>;
            db5 = (if phase_parent db (gm_parent m) \<and> gm_kind m \<noteq> ''mol'' then inherit_dependencies (gm_parent m) i db4 else db4)
        in if gm_kind m \<noteq> ''mol'' then close_hand_built (gm_epic m) db5 else db5)"
    by (rule create_issueE[OF assms])
  define db4 where "db4 = (snd (allocate_child db1 (gm_parent m)))
              \<lparr>db_issues := db_issues db1 @ [new_issue m i project now],
               db_hierarchy := db_hierarchy db1 @ [(i, gm_parent m, mutation_requirement (gm_requirement m))],
               db_child_index := (db_child_index db1)(i \<mapsto> k)\<rparr>"
  define db5 where "db5 = (if phase_parent db (gm_parent m) \<and> gm_kind m \<noteq> ''mol'' then inherit_dependencies (gm_parent m) i db4 else db4)"
  have "extends db db1" by (simp add: db1 reopen_phase_extends)
  moreover have "extends db1 db4" by (simp add: extends_def db4_def allocate_tables keys_of_def)
  moreover have "extends db4 db5"
    by (rule extends_same_issues) (simp_all add: db5_def inherit_dependencies_def)
  moreover have "extends db5 db'" unfolding db' Let_def db4_def[symmetric] db5_def[symmetric]
    by (simp add: close_hand_built_extends)
  ultimately show ?thesis by (meson extends_trans)
qed

lemma apply_action_extends:
  assumes "apply_action db m b project kind now = Inr (i, db')"
  shows "extends db db'"
proof (cases "gm_action m = ''create''")
  case True
  then show ?thesis using assms create_extends unfolding apply_action_def by simp
next
  case False
  show ?thesis
  proof (rule apply_actionE[OF assms False])
    assume "edit_issue db m = Inr db'"
    then have "db' = set_issue (gm_issue m) (edited m) db" by (rule edit_issueD)
    then show ?thesis by (simp add: set_issue_extends)
  next
    assume "reparent_issue db m = Inr db'"
    then have "db' = reparented db (gm_issue m) (gm_parent m) (mutation_requirement (gm_requirement m))"
      by (rule reparent_issueD)
    then show ?thesis by (intro extends_same_issues) (simp_all add: reparented_def)
  next
    assume "link_issue db m project kind = Inr db'"
    then show ?thesis using link_issueD by (intro extends_same_issues) force+
  next
    assume "db' = unlink_issue db m"
    then show ?thesis by (intro extends_same_issues) (simp_all add: unlink_issue_def)
  next
    assume "delete_issue db m b = Inr db'"
    then have "db' = remove_subtree db (gm_epic m) (gm_issue m) b" by (rule delete_issueD)
    then show ?thesis by (intro extends_same_issues) (simp_all add: remove_subtree_def Let_def)
  qed
qed

lemma mutate_tx_extends:
  assumes "mutate_graph_tx db m b now = Inr db'"
  shows "extends db db'"
proof -
  obtain project kind i db1 where a: "apply_action db m b project kind now = Inr (i, db1)"
      and db': "\<exists>u. db' = db1\<lparr>db_audit := u\<rparr>"
    by (rule mutate_graph_txE[OF assms])
  have "extends db1 db'" using db' by (auto intro: extends_same_issues)
  then show ?thesis using apply_action_extends[OF a] extends_trans by blast
qed

lemma mutate_all_extends: "mutate_all db m b now cs = Inr db' \<Longrightarrow> extends db db'"
proof (induction cs arbitrary: db)
  case (Cons c cs)
  then obtain db1 where "mutate_graph_tx db (c\<lparr>gm_epic := gm_epic m, gm_actor := gm_actor m\<rparr>) b now = Inr db1"
      "mutate_all db1 m b now cs = Inr db'"
    by (auto split: if_split_asm sum.split_asm)
  then show ?case using Cons.IH mutate_tx_extends extends_trans by blast
qed simp

end
