(* ===== verification/Factory_Edits.thy ===== *)
theory Factory_Edits
  imports Factory_Graph
begin

text \<open>
  What the edits of the work graph guarantee, whatever their order: the graph stays well formed,
  started work is out of their reach, an agent's edit waits for approval, and ids of children.
\<close>

section \<open>Child ids\<close>

lemma atoi_decimal: "int n < 2 ^ 63 \<Longrightarrow> atoi (decimal n) = Some (int n)"
proof -
  assume n: "int n < 2 ^ 63"
  obtain c cs where d: "decimal n = c # cs" by (cases "decimal n") auto
  then have "\<exists>k < 10. c = digit k" using decimal_chars by (metis list.set_intros(1))
  then have "c \<noteq> CHR ''-''" "c \<noteq> CHR ''+''" using digit_not by auto
  then show ?thesis using n digits_value_decimal[of n] unfolding atoi_def d by simp
qed

lemma after_last_dot_decimal: "after_last_dot (p @ ''.'' @ decimal n) = decimal n"
proof -
  have "\<forall>c \<in> set (rev (decimal n)). c \<noteq> CHR ''.''" using decimal_chars digit_not(1) by fastforce
  then have "takeWhile (\<lambda>c. c \<noteq> CHR ''.'') (rev (decimal n) @ CHR ''.'' # rev p) = rev (decimal n)"
    by (subst takeWhile_append2) auto
  then show ?thesis by (simp add: after_last_dot_def)
qed

lemma child_index_child_id: "1 \<le> n \<Longrightarrow> int n < 2 ^ 63 \<Longrightarrow> child_index (child_id p n) = Some n"
  unfolding child_index_def child_id_def after_last_dot_decimal by (simp add: atoi_decimal)

text \<open>
  the id of a child and the index read back from it belong together: for every index that fits
  64 bits, the id built for it gives the index back, whatever the id of the parent.
\<close>

theorem child_ids_round_trip:
  assumes "1 \<le> n" "int n < 2 ^ 63"
  shows "child_index (child_id p n) = Some n"
  by (rule child_index_child_id[OF assms])

lemma child_ids_round_trip_witness: "child_index (child_id ''e.1'' 120) = Some 120"
  by (rule child_ids_round_trip) simp_all

section \<open>The graph stays well formed\<close>

text \<open>Edits and claims in any order; a failed one changes nothing.\<close>

inductive work_run :: "factory_db \<Rightarrow> factory_db \<Rightarrow> bool" for db0 where
  work_run_refl: "work_run db0 db0"
| work_run_edit: "work_run db0 db \<Longrightarrow> mutate_graph db m batch rationale hash now = Inr db' \<Longrightarrow> work_run db0 db'"
| work_run_work: "work_run db0 db \<Longrightarrow>
    claim_implementation db e i profile aid token now = Inr (a, db') \<Longrightarrow> work_run db0 db'"
| work_run_plan: "work_run db0 db \<Longrightarrow> claim_plan db e i profile aid token now = Inr (a, db') \<Longrightarrow> work_run db0 db'"

inductive_cases work_runE: "work_run db0 db"

lemma start_attempt_ok:
  assumes "graph_ok db" "start_attempt db e i pol aid token now = Inr (a, db')"
  shows "graph_ok db'"
proof -
  have "graph_ok db' = graph_ok (set_issue i (\<lambda>r. r\<lparr>fi_status := ''in_progress''\<rparr>) db)"
    unfolding start_attempt_InrD(3)[OF assms(2)] by (rule graph_ok_keys) (simp_all add: keys_of_def set_issue_def)
  then show ?thesis using assms(1) by (simp add: set_issue_ok)
qed

lemma claim_implementation_ok:
  assumes "graph_ok db" "claim_implementation db e i profile aid token now = Inr (a, db')"
  shows "graph_ok db'"
  using assms(2) by (rule claim_implementation_InrD) (rule start_attempt_ok[OF assms(1)])

lemma claim_plan_ok:
  assumes "graph_ok db" "claim_plan db e i profile aid token now = Inr (a, db')"
  shows "graph_ok db'"
proof -
  obtain pol where "start_attempt db e i pol aid token now = Inr (a, db')"
    using assms(2) claim_plan_InrD by metis
  then show ?thesis by (rule start_attempt_ok[OF assms(1)])
qed

lemma work_run_ok: "work_run db0 db \<Longrightarrow> graph_ok db0 \<Longrightarrow> graph_ok db"
  by (induction rule: work_run.induct) (blast intro: mutate_graph_ok claim_implementation_ok claim_plan_ok)+

text \<open>
  C1: however edits (by people and agents, single or in batches) and claims follow each other, the
  hierarchy stays a forest within its epics, the dependencies never form a cycle, a removed issue
  has no child that is not removed, and for every epic the listing returns.
\<close>

theorem edits_keep_the_graph_well_formed:
  assumes "graph_ok db0" "work_run db0 db"
  shows "graph_ok db \<and> acyclic (set (parent_pairs db)) \<and> acyclic (set (dep_pairs db)) \<and>
    (\<forall>(c, p) \<in> set (parent_pairs db). epic_of db c = epic_of db p \<and> (db_removed db p \<noteq> None \<longrightarrow> db_removed db c \<noteq> None)) \<and>
    (\<forall>e. \<exists>out. list_factory_issues db e = Some out)"
proof -
  have ok: "graph_ok db" by (rule work_run_ok[OF assms(2,1)])
  then have h: "hierarchy_ok db" and d: "deps_ok db" by (simp_all add: graph_ok_def)
  have "acyclic (set (parent_pairs db))" "acyclic (set (dep_pairs db))"
    using h d by (simp_all add: hierarchy_ok_def deps_ok_def)
  moreover have "\<forall>(c, p) \<in> set (parent_pairs db). epic_of db c = epic_of db p \<and> (db_removed db p \<noteq> None \<longrightarrow> db_removed db c \<noteq> None)"
    using h unfolding hierarchy_ok_def by blast
  moreover have "\<exists>out. list_factory_issues db e = Some out" for e using list_factory_issues_eq[OF ok] by blast
  ultimately show ?thesis using ok by blast
qed

text \<open>A person links one task to another, then the linked work is claimed.\<close>

definition sample_edit :: "string \<Rightarrow> string \<Rightarrow> string \<Rightarrow> string \<Rightarrow> string \<Rightarrow> graph_mutation" where
  "sample_edit actor action i parent blocker =
     \<lparr>gm_action = action, gm_epic = ''e'', gm_actor = actor, gm_issue = i, gm_parent = parent, gm_project = [],
      gm_kind = ''task'', gm_title = ''t'', gm_description = [], gm_requirement = [], gm_depends_on = blocker,
      gm_dependency_type = ''blocks''\<rparr>"

lemma edits_keep_the_graph_well_formed_witness:
  "\<exists>db1 db2 a. mutate_graph sample_graph (sample_edit ''user'' ''link'' ''c'' [] ''b'') [] [] [] 5 = Inr db1 \<and>
     claim_implementation db1 ''e'' ''b'' implement_profile ''fa'' ''fat'' 5 = Inr (a, db2) \<and>
     acyclic (set (dep_pairs db2)) \<and> (\<exists>out. list_factory_issues db2 ''e'' = Some out)"
proof -
  have "case mutate_graph sample_graph (sample_edit ''user'' ''link'' ''c'' [] ''b'') [] [] [] 5 of Inl err \<Rightarrow> False
    | Inr db1 \<Rightarrow> (case claim_implementation db1 ''e'' ''b'' implement_profile ''fa'' ''fat'' 5 of
        Inl err \<Rightarrow> False | Inr x \<Rightarrow> True)"
    by code_simp
  then obtain db1 a db2 where
      m: "mutate_graph sample_graph (sample_edit ''user'' ''link'' ''c'' [] ''b'') [] [] [] 5 = Inr db1" and
      c: "claim_implementation db1 ''e'' ''b'' implement_profile ''fa'' ''fat'' 5 = Inr (a, db2)"
    by (auto split: sum.splits)
  have "work_run sample_graph db2"
    by (rule work_run_work[OF work_run_edit[OF work_run_refl m] c])
  then show ?thesis using edits_keep_the_graph_well_formed[OF sample_graph_ok] m c by blast
qed

section \<open>Started work is out of reach of edits\<close>

definition untouched :: "f_issue \<Rightarrow> factory_db \<Rightarrow> factory_db \<Rightarrow> bool" where
  "untouched r db db' \<longleftrightarrow> r \<in> set (db_issues db') \<and> hierarchy_row db' (fi_id r) = hierarchy_row db (fi_id r) \<and>
     filter (\<lambda>(x, b, ty). x = fi_id r) (db_deps db') = filter (\<lambda>(x, b, ty). x = fi_id r) (db_deps db) \<and>
     db_removed db' (fi_id r) = db_removed db (fi_id r)"

lemma untouched_refl: "r \<in> set (db_issues db) \<Longrightarrow> untouched r db db"
  by (simp add: untouched_def)

lemma untouched_trans: "untouched r a b \<Longrightarrow> untouched r b c \<Longrightarrow> untouched r a c"
  by (simp add: untouched_def)

lemma untouched_map:
  assumes "r \<in> set (db_issues db)" "g r = r"
    "db_hierarchy db' = db_hierarchy db" "db_deps db' = db_deps db" "db_removed db' = db_removed db"
    "db_issues db' = map g (db_issues db)"
  shows "untouched r db db'"
  using assms by (force simp: untouched_def hierarchy_row_def image_iff)

definition started :: "f_issue \<Rightarrow> bool" where
  "started r \<longleftrightarrow> fi_status r = ''in_progress'' \<or> fi_status r = ''closed''"

lemma started_not_open:
  assumes "rows_ok db" "r \<in> set (db_issues db)" "started r" "open_issue db i l e"
  shows "fi_id r \<noteq> i"
proof
  assume "fi_id r = i"
  then have "issue_row db i = Some r" using assms(1,2) by (simp add: issue_row_iff)
  then show False using assms(3,4) by (auto simp: open_issue_def started_def)
qed

lemma close_hand_built_untouched:
  assumes "r \<in> set (db_issues db)" "started r"
  shows "untouched r db (close_hand_built e db)"
  using assms unfolding close_hand_built_def
  by (auto simp: untouched_refl started_def intro!: untouched_map[where g = "\<lambda>r. if fi_epic r = e \<and> fi_kind r = ''materialization'' \<and> fi_status r = ''open''
             then r\<lparr>fi_status := ''closed'', fi_outcome := ''succeeded'', fi_reason := ''Work graph built by hand''\<rparr> else r"])

lemma reopen_phase_untouched:
  assumes "r \<in> set (db_issues db)" "fi_kind r \<noteq> ''phase''"
  shows "untouched r db (reopen_phase e i db)"
  by (rule untouched_map[where g = "\<lambda>r. if fi_id r = i \<and> fi_epic r = e \<and> fi_kind r = ''phase'' \<and>
            fi_status r = ''closed'' \<and> fi_outcome r = ''succeeded''
          then r\<lparr>fi_status := ''open'', fi_outcome := [], fi_reason := []\<rparr> else r"])
    (use assms in \<open>simp_all add: reopen_phase_def\<close>)

lemma find_append_other: "\<not> P x \<Longrightarrow> find P (xs @ [x]) = find P xs"
  by (induction xs) auto

lemma create_untouched:
  assumes r: "r \<in> set (db_issues db)" "started r" "fi_kind r \<noteq> ''phase''"
    and c: "create_issue db m project now = Inr (i, db')"
  shows "untouched r db db'"
proof -
  obtain db1 n k where
    db1: "db1 = (if gm_actor m = ''mcp'' \<and> phase_parent db (gm_parent m) \<and> gm_kind m \<noteq> ''mol''
            then reopen_phase (gm_epic m) (gm_parent m) db else db)"
    and fresh: "i \<notin> issue_ids db1"
    and db': "db' = (let db4 = (snd (allocate_child db1 (gm_parent m)))
              \<lparr>db_issues := db_issues db1 @ [new_issue m i project now],
               db_hierarchy := db_hierarchy db1 @ [(i, gm_parent m, mutation_requirement (gm_requirement m))],
               db_child_index := (db_child_index db1)(i \<mapsto> k)\<rparr>;
            db5 = (if phase_parent db (gm_parent m) \<and> gm_kind m \<noteq> ''mol'' then inherit_dependencies (gm_parent m) i db4 else db4)
        in if gm_kind m \<noteq> ''mol'' then close_hand_built (gm_epic m) db5 else db5)"
    by (rule create_issueE[OF c])
  define db4 where "db4 = (snd (allocate_child db1 (gm_parent m)))
              \<lparr>db_issues := db_issues db1 @ [new_issue m i project now],
               db_hierarchy := db_hierarchy db1 @ [(i, gm_parent m, mutation_requirement (gm_requirement m))],
               db_child_index := (db_child_index db1)(i \<mapsto> k)\<rparr>"
  define db5 where "db5 = (if phase_parent db (gm_parent m) \<and> gm_kind m \<noteq> ''mol'' then inherit_dependencies (gm_parent m) i db4 else db4)"
  have 1: "untouched r db db1" using r reopen_phase_untouched untouched_refl unfolding db1 by simp
  then have in1: "r \<in> set (db_issues db1)" by (simp add: untouched_def)
  then have ne: "fi_id r \<noteq> i" using fresh by blast
  have 4: "untouched r db1 db4"
    using in1 ne by (simp add: untouched_def db4_def allocate_tables hierarchy_row_def find_append_other)
  then have in4: "r \<in> set (db_issues db4)" by (simp add: untouched_def)
  have "filter (\<lambda>(x, b, ty). x = fi_id r) (db_deps (inherit_dependencies p i db4)) =
      filter (\<lambda>(x, b, ty). x = fi_id r) (db_deps db4)" for p
    using ne by (auto simp: inherit_dependencies_def filter_empty_conv)
  moreover have "db_issues (inherit_dependencies p i db4) = db_issues db4"
      "db_hierarchy (inherit_dependencies p i db4) = db_hierarchy db4"
      "db_removed (inherit_dependencies p i db4) = db_removed db4" for p
    by (simp_all add: inherit_dependencies_def)
  ultimately have 5: "untouched r db4 db5"
    using in4 by (simp add: untouched_def db5_def hierarchy_row_def)
  then have in5: "r \<in> set (db_issues db5)" by (simp add: untouched_def)
  have "untouched r db5 db'"
    unfolding db' Let_def db4_def[symmetric] db5_def[symmetric]
    using in5 r(2) close_hand_built_untouched untouched_refl by simp
  then show ?thesis using 1 4 5 untouched_trans by blast
qed

lemma reparented_untouched:
  assumes "r \<in> set (db_issues db)" "fi_id r \<noteq> i"
  shows "untouched r db (reparented db i p q)"
proof -
  have "find (\<lambda>x. fst x = fi_id r) (map (\<lambda>(c, p0, q'). if c = i then (c, p, q) else (c, p0, q')) hs) =
      find (\<lambda>x. fst x = fi_id r) hs" for hs :: "(string \<times> string \<times> string) list"
    using assms(2) by (induction hs) auto
  then show ?thesis using assms(1) by (simp add: untouched_def reparented_def hierarchy_row_def)
qed

lemma remove_untouched:
  assumes "r \<in> set (db_issues db)" "fi_id r \<notin> set (descendants db i)"
  shows "untouched r db (remove_subtree db e i b)"
  using assms by (simp add: untouched_def remove_subtree_def Let_def hierarchy_row_def split: option.splits)

lemma set_issue_untouched:
  assumes "r \<in> set (db_issues db)" "fi_id r \<noteq> i"
  shows "untouched r db (set_issue i f db)"
  by (rule untouched_map[where g = "\<lambda>r. if fi_id r = i then f r else r"]) (use assms in \<open>simp_all add: set_issue_def\<close>)

lemma apply_action_untouched:
  assumes rows: "rows_ok db" and r: "r \<in> set (db_issues db)" "started r" "fi_kind r \<noteq> ''phase''"
    and a: "apply_action db m b project kind now = Inr (i, db')"
  shows "untouched r db db'"
proof (cases "gm_action m = ''create''")
  case True
  then show ?thesis using a create_untouched[OF r] unfolding apply_action_def by simp
next
  case False
  have ne: "open_issue db (gm_issue m) True (gm_epic m) \<Longrightarrow> fi_id r \<noteq> gm_issue m"
    by (rule started_not_open[OF rows r(1,2)])
  show ?thesis
  proof (rule apply_actionE[OF a False])
    assume op: "open_issue db (gm_issue m) True (gm_epic m)" and "edit_issue db m = Inr db'"
    then have "db' = set_issue (gm_issue m) (edited m) db" by (intro edit_issueD)
    then show ?thesis using ne[OF op] r(1) by (simp add: set_issue_untouched)
  next
    assume op: "open_issue db (gm_issue m) True (gm_epic m)" and "reparent_issue db m = Inr db'"
    then have "db' = reparented db (gm_issue m) (gm_parent m) (mutation_requirement (gm_requirement m))"
      by (intro reparent_issueD)
    then show ?thesis using ne[OF op] r(1) by (simp add: reparented_untouched)
  next
    assume op: "open_issue db (gm_issue m) True (gm_epic m)" and "link_issue db m project kind = Inr db'"
    then have "db' = db \<or> db' = db\<lparr>db_deps := db_deps db @ [(gm_issue m, gm_depends_on m, gm_dependency_type m)]\<rparr>"
      by (intro link_issueD)
    then show ?thesis using ne[OF op] r(1) by (auto simp: untouched_def hierarchy_row_def)
  next
    assume op: "open_issue db (gm_issue m) True (gm_epic m)" and db': "db' = unlink_issue db m"
    have "filter (\<lambda>(x, b, ty). x = fi_id r) (filter (\<lambda>d. d \<noteq> (gm_issue m, gm_depends_on m, gm_dependency_type m)) ds) =
        filter (\<lambda>(x, b, ty). x = fi_id r) ds" for ds
      unfolding filter_filter using ne[OF op] by (intro filter_cong) auto
    then show ?thesis using r(1) unfolding db' by (simp add: untouched_def unlink_issue_def hierarchy_row_def)
  next
    assume del: "delete_issue db m b = Inr db'"
    have "fi_id r \<notin> set (descendants db (gm_issue m))"
      using delete_issueD(2)[OF del r(1)] r(2) by (auto simp: started_def)
    then show ?thesis using delete_issueD(1)[OF del] r(1) by (simp add: remove_untouched)
  qed
qed

lemma mutate_tx_untouched:
  assumes "rows_ok db" "r \<in> set (db_issues db)" "started r" "fi_kind r \<noteq> ''phase''" "mutate_graph_tx db m b now = Inr db'"
  shows "untouched r db db'"
proof -
  obtain project kind i db1 u where a: "apply_action db m b project kind now = Inr (i, db1)"
      and db': "db' = db1\<lparr>db_audit := u\<rparr>"
    using assms(5) by (rule mutate_graph_txE) blast
  have "untouched r db db1" by (rule apply_action_untouched[OF assms(1-4) a])
  then show ?thesis unfolding db' by (simp add: untouched_def hierarchy_row_def)
qed

lemma mutate_all_untouched:
  assumes "graph_ok db" "r \<in> set (db_issues db)" "started r" "fi_kind r \<noteq> ''phase''" "mutate_all db m b now cs = Inr db'"
  shows "untouched r db db'"
  using assms(1,2,5)
proof (induction cs arbitrary: db)
  case (Cons c cs)
  then obtain db1 where 1: "mutate_graph_tx db (c\<lparr>gm_epic := gm_epic m, gm_actor := gm_actor m\<rparr>) b now = Inr db1"
      "mutate_all db1 m b now cs = Inr db'"
    by (auto split: if_split_asm sum.split_asm)
  have u: "untouched r db db1"
    using mutate_tx_untouched[OF _ Cons.prems(2) assms(3,4) 1(1)] Cons.prems(1) by (simp add: graph_ok_def)
  then have "r \<in> set (db_issues db1)" by (simp add: untouched_def)
  then have "untouched r db1 db'" using Cons.IH[OF mutate_tx_ok[OF Cons.prems(1) 1(1)] _ 1(2)] by blast
  then show ?case using u untouched_trans by blast
qed (simp add: untouched_refl)

text \<open>The issues of plan gates are gates of their epic.\<close>

definition gates_of_epics :: "factory_db \<Rightarrow> bool" where
  "gates_of_epics db \<longleftrightarrow>
     (\<forall>g \<in> set (db_gates db). case issue_row db (pg_issue g) of None \<Rightarrow> False
        | Some r \<Rightarrow> fi_kind r = ''gate'' \<and> fi_epic r = pg_epic g)"

lemma gate_of_epic_in: "gate_of_epic db e = Some g \<Longrightarrow> g \<in> set (db_gates db) \<and> pg_epic g = e"
  by (simp add: gate_of_epic_def find_Some_iff) (metis nth_mem)

lemma approval_gate_cases:
  assumes "approval_gate db e = Some i"
  obtains (plan) g where "gate_of_epic db e = Some g" "i = pg_issue g" "i \<in> issue_ids db" "db_removed db i = None"
  | (formula) r where "r \<in> set (db_issues db)" "fi_id r = i" "fi_epic r = e" "fi_kind r = ''gate''" "db_removed db i = None"
proof (cases "case gate_of_epic db e of None \<Rightarrow> None
            | Some g \<Rightarrow> if pg_issue g \<in> issue_ids db \<and> db_removed db (pg_issue g) = None then Some (pg_issue g) else None")
  case None
  have hit: "\<And>P xs (x :: f_issue). find P xs = Some x \<Longrightarrow> x \<in> set xs \<and> P x"
    unfolding find_Some_iff by (metis nth_mem)
  obtain r where "fi_id r = i" and f: "find (\<lambda>r. fi_epic r = e \<and> fi_kind r = ''gate'' \<and> db_removed db (fi_id r) = None \<and>
          (case hierarchy_row db (fi_id r) of
             None \<Rightarrow> False
           | Some h \<Rightarrow> fst h \<in> set (db_formula_mols db) \<and> hierarchy_row db (fst h) = None) \<and>
          (\<exists>(x, b, ty) \<in> set (db_deps db). b = fi_id r \<and>
             (case issue_row db x of None \<Rightarrow> False
              | Some mr \<Rightarrow> fi_kind mr = ''materialization'' \<and> fi_epic mr = e))) (db_issues db) = Some r"
    using assms unfolding approval_gate_def None option.case by blast
  then show ?thesis using formula hit[OF f] by blast
next
  case (Some j)
  then have "i = j" using assms unfolding approval_gate_def by simp
  then show ?thesis using Some plan by (auto split: option.splits if_splits)
qed

definition reopened :: "factory_db \<Rightarrow> string \<Rightarrow> string \<Rightarrow> string \<Rightarrow> native_issue list \<Rightarrow> factory_db" where
  "reopened db e hash gate issues =
     set_issue gate (\<lambda>r. r\<lparr>fi_status := ''open'', fi_outcome := [], fi_reason := []\<rparr>)
       (db\<lparr>db_proposals := db_proposals db @ [\<lparr>pr_epic = e, pr_revision = max_revision db e + 1,
             pr_graph = (issues \<noteq> []), pr_base = baseline_revision db e\<rparr>],
           db_gates := put_gate \<lparr>pg_epic = e, pg_issue = gate, pg_revision = max_revision db e + 1,
             pg_resolution = ''open'', pg_hash = hash, pg_model = []\<rparr> (db_gates db)\<rparr>)"

lemma reopen_approvalE:
  assumes "reopen_approval db e hash = Inr db'"
  obtains gate issues where "approval_gate db e = Some gate" "list_factory_issues db e = Some issues"
    "db' = reopened db e hash gate issues"
proof -
  obtain gate where g: "approval_gate db e = Some gate"
    using assms unfolding reopen_approval_def by (cases "approval_gate db e") simp_all
  obtain issues where l: "list_factory_issues db e = Some issues"
    using assms unfolding reopen_approval_def g by (cases "list_factory_issues db e") simp_all
  show ?thesis using that[OF g l] assms unfolding reopen_approval_def g l Let_def reopened_def by simp
qed

lemma epic_of_extends:
  assumes "extends db db'" "epic_of db i = Some e"
  shows "epic_of db' i = Some e"
proof -
  obtain ks where "keys_of db' = keys_of db @ ks" using assms(1) by (auto simp: extends_def)
  moreover have "find P xs = Some y \<Longrightarrow> find P (xs @ ys) = Some y" for P and xs ys :: "(string \<times> string) list" and y
    by (induction xs) auto
  ultimately show ?thesis using assms(2) by (auto simp: epic_of_keys)
qed

lemma frozen_by_edits:
  assumes ok: "graph_ok db" and g: "gates_of_epics db"
    and r: "r \<in> set (db_issues db)" "started r" "fi_kind r \<notin> {''phase'', ''gate''}"
    and m: "mutate_graph db m batch rationale hash now = Inr db'"
  shows "untouched r db db'"
proof -
  obtain cs db1 where a: "mutate_all db m (gm_actor m = ''mcp'' \<or> pending_graph db (gm_epic m) \<noteq> None) now cs = Inr db1"
      and re: "if gm_actor m = ''mcp'' \<or> pending_graph db (gm_epic m) \<noteq> None
        then reopen_approval db1 (gm_epic m) hash = Inr db' else db' = db1"
    by (rule mutate_graphE[OF m])
  have u: "untouched r db db1" by (rule mutate_all_untouched[OF ok r(1,2) _ a]) (use r(3) in simp)
  then have in1: "r \<in> set (db_issues db1)" by (simp add: untouched_def)
  have rows1: "rows_ok db1" using mutate_all_ok[OF ok a] by (simp add: graph_ok_def)
  show ?thesis
  proof (cases "db' = db1")
    case False
    then have re: "reopen_approval db1 (gm_epic m) hash = Inr db'" using re by (auto split: if_split_asm)
    obtain gate issues where gate: "approval_gate db1 (gm_epic m) = Some gate"
      and db': "db' = reopened db1 (gm_epic m) hash gate issues"
      by (rule reopen_approvalE[OF re])
    have "fi_id r \<noteq> gate"
      using gate
    proof (cases rule: approval_gate_cases)
      case (plan pg)
      have "issue_row db (fi_id r) = Some r" using ok r(1) by (simp add: issue_row_iff graph_ok_def)
      moreover have "pg \<in> set (db_gates db)"
        using gate_of_epic_in[OF plan(1)] mutate_all_extends[OF a] by (simp add: extends_def)
      ultimately show ?thesis using bspec[OF g[unfolded gates_of_epics_def]] plan(2) r(3) by fastforce
    next
      case (formula s)
      show ?thesis
      proof
        assume "fi_id r = gate"
        then have "r = s" using rows1 in1 formula(1,2) by (metis issue_row_iff option.inject)
        then show False using formula(4) r(3) by simp
      qed
    qed
    then have "untouched r (db1\<lparr>db_proposals := p, db_gates := gs\<rparr>) (set_issue gate f (db1\<lparr>db_proposals := p, db_gates := gs\<rparr>))" for p gs f
      by (intro set_issue_untouched) (use in1 in simp_all)
    moreover have "untouched r db1 (db1\<lparr>db_proposals := p, db_gates := gs\<rparr>)" for p gs
      using in1 by (simp add: untouched_def hierarchy_row_def)
    ultimately have "untouched r db1 db'" unfolding db' reopened_def using untouched_trans by blast
    then show ?thesis using u untouched_trans by blast
  qed (use u in simp)
qed

text \<open>
  C14: no edit reaches started work. Whoever edits, singly or in a batch, a task, implementation,
  plan or delivery that is running or closed keeps its row, its place in the hierarchy, what it
  waits for, and is not removed. (Phases, whose completion follows from their children, and the
  gate that approves the edit are reopened on purpose.)
\<close>

theorem edits_leave_started_work_alone:
  assumes "graph_ok db" "gates_of_epics db"
    and "r \<in> set (db_issues db)" "fi_status r = ''in_progress'' \<or> fi_status r = ''closed''"
      "fi_kind r \<notin> {''phase'', ''gate''}"
    and "mutate_graph db m batch rationale hash now = Inr db'"
  shows "r \<in> set (db_issues db') \<and> hierarchy_row db' (fi_id r) = hierarchy_row db (fi_id r) \<and>
     filter (\<lambda>(x, b, ty). x = fi_id r) (db_deps db') = filter (\<lambda>(x, b, ty). x = fi_id r) (db_deps db) \<and>
     db_removed db' (fi_id r) = db_removed db (fi_id r)"
  using frozen_by_edits[OF assms(1-3) assms(4)[folded started_def] assms(5,6)] by (simp only: untouched_def)

lemma sample_gates: "gates_of_epics sample_graph"
  by (simp add: gates_of_epics_def sample_graph_def)

lemma sample_create:
  obtains db where "mutate_graph sample_graph (sample_edit ''user'' ''create'' [] ''m'' []) [] [] [] 5 = Inr db"
proof -
  have "case mutate_graph sample_graph (sample_edit ''user'' ''create'' [] ''m'' []) [] [] [] 5 of Inl err \<Rightarrow> False
    | Inr db1 \<Rightarrow> True"
    by code_simp
  then show ?thesis using that by (auto split: sum.splits)
qed

lemma edits_leave_started_work_alone_witness:
  "\<exists>db. mutate_graph sample_graph (sample_edit ''user'' ''create'' [] ''m'' []) [] [] [] 5 = Inr db \<and>
     sample_issue ''a'' ''task'' ''closed'' ''succeeded'' \<in> set (db_issues db)"
proof -
  obtain db where m: "mutate_graph sample_graph (sample_edit ''user'' ''create'' [] ''m'' []) [] [] [] 5 = Inr db"
    by (rule sample_create)
  have r: "sample_issue ''a'' ''task'' ''closed'' ''succeeded'' \<in> set (db_issues sample_graph)" by (simp add: sample_graph_def)
  show ?thesis
    using edits_leave_started_work_alone[OF sample_graph_ok sample_gates r _ _ m] m by (simp add: sample_issue_def)
qed

section \<open>An agent's edit awaits approval\<close>

lemma find_put_gate:
  "\<exists>x. find (\<lambda>h. pg_epic h = pg_epic g) (put_gate g gs) = Some x \<and> pg_epic x = pg_epic g \<and>
     pg_revision x = pg_revision g \<and> pg_resolution x = pg_resolution g \<and> pg_hash x = pg_hash g"
proof (cases "pg_epic g \<in> pg_epic ` set gs")
  case True
  let ?f = "\<lambda>x. if pg_epic x = pg_epic g
             then x\<lparr>pg_revision := pg_revision g, pg_hash := pg_hash g, pg_resolution := pg_resolution g\<rparr> else x"
  have "\<exists>x. find (\<lambda>h. pg_epic h = pg_epic g) (map ?f gs) = Some x \<and> pg_epic x = pg_epic g \<and>
     pg_revision x = pg_revision g \<and> pg_resolution x = pg_resolution g \<and> pg_hash x = pg_hash g"
    using True by (induction gs) auto
  then show ?thesis using True by (simp add: put_gate_def)
next
  case False
  then have "find (\<lambda>h. pg_epic h = pg_epic g) gs = None" by (simp only: find_key_None_iff not_False_eq_True)
  then show ?thesis using False by (simp add: put_gate_def find_snoc)
qed

lemma revision_le_max: "p \<in> set (db_proposals db) \<Longrightarrow> pr_epic p = e \<Longrightarrow> pr_revision p \<le> max_revision db e"
proof -
  assume "p \<in> set (db_proposals db)" "pr_epic p = e"
  then have "pr_revision p \<in> set (map pr_revision (filter (\<lambda>p. pr_epic p = e) (db_proposals db)))" by auto
  then show ?thesis unfolding max_revision_def Let_def by (auto simp: filter_empty_conv intro: Max_ge)
qed

lemma set_issue_tables [simp]:
  "db_gates (set_issue i f db) = db_gates db" "db_proposals (set_issue i f db) = db_proposals db"
  by (simp_all add: set_issue_def)

text \<open>After the approval is reopened the new revision is the one the gate decides.\<close>

lemma reopened_gate:
  assumes "issues \<noteq> []"
  obtains g where "pending_graph (reopened db e hash gate issues) e = Some g" "pg_revision g = max_revision db e + 1"
    "pg_hash g = hash" "baseline_revision (reopened db e hash gate issues) e = baseline_revision db e"
proof -
  define db' where "db' = reopened db e hash gate issues"
  define p where "p = \<lparr>pr_epic = e, pr_revision = max_revision db e + 1, pr_graph = (issues \<noteq> []), pr_base = baseline_revision db e\<rparr>"
  define g where "g = \<lparr>pg_epic = e, pg_issue = gate, pg_revision = max_revision db e + 1,
             pg_resolution = ''open'', pg_hash = hash, pg_model = []\<rparr>"
  have t: "db_proposals db' = db_proposals db @ [p]" "db_gates db' = put_gate g (db_gates db)"
    by (simp_all add: db'_def reopened_def p_def g_def)
  have ge: "pg_epic g = e" "pg_revision g = max_revision db e + 1" "pg_resolution g = ''open''" "pg_hash g = hash"
    by (simp_all add: g_def)
  obtain x where x: "gate_of_epic db' e = Some x" "pg_revision x = max_revision db e + 1"
      "pg_resolution x = ''open''" "pg_hash x = hash"
    using find_put_gate[of g "db_gates db"] unfolding gate_of_epic_def t ge by blast
  have "find (\<lambda>q. pr_epic q = e \<and> pr_revision q = max_revision db e + 1) (db_proposals db) = None"
    using revision_le_max[of _ db e] by (fastforce simp: find_None_iff)
  then have pr: "proposal_of db' e (max_revision db e + 1) = Some p"
    unfolding proposal_of_def t find_snoc by (simp add: p_def)
  have "pending_graph db' e = Some x" unfolding pending_graph_def x(1) option.case x(2) pr
    using assms x(3) by (simp add: p_def)
  moreover have "baseline_revision db' e = baseline_revision db e"
    unfolding baseline_revision_def[of db'] x(1) option.case x(2) pr using x(3) by (simp add: p_def)
  ultimately show ?thesis using that x(2,4) unfolding db'_def by blast
qed

lemma pending_graph_holds:
  assumes ok: "graph_ok db" and p: "pending_graph db e \<noteq> None"
  shows "\<exists>err. claim_implementation db e i profile aid token now = Inl err"
    "list_factory_issues db e = Some out \<Longrightarrow> x \<in> set out \<Longrightarrow> is_work x \<or> ni_kind x = ''delivery'' \<Longrightarrow> ni_dispatch x \<noteq> ''ready''"
proof -
  have "claim_implementation db e i profile aid token now \<noteq> Inr y" for y
  proof
    assume "claim_implementation db e i profile aid token now = Inr y"
    then obtain a db' where c: "claim_implementation db e i profile aid token now = Inr (a, db')" by (cases y) simp
    obtain epic r where "claim_checks db e i profile = Inr (epic, r)" by (rule claim_implementation_InrD[OF c])
    then have "pending_graph db e = None" by (rule claim_checks_InrD(4))
    then show False using p by simp
  qed
  then show "\<exists>err. claim_implementation db e i profile aid token now = Inl err"
    by (cases "claim_implementation db e i profile aid token now") auto
  assume l: "list_factory_issues db e = Some out" "x \<in> set out" and k: "is_work x \<or> ni_kind x = ''delivery''"
  obtain j where j: "j \<in> set (epic_issues db e)" and x: "x = dispatched db e j" by (rule listed_issue[OF ok l])
  have "is_work j \<or> ni_kind j = ''delivery''" using k unfolding x by (simp add: is_work_def)
  then show "ni_dispatch x \<noteq> ''ready''" unfolding x dispatched_state[OF ok j] dispatch_table_def using p by auto
qed

lemma edit_awaits_approval:
  assumes ok: "graph_ok db" and gates: "gates_of_epics db"
    and b: "gm_actor m = ''mcp'' \<or> pending_graph db (gm_epic m) \<noteq> None"
    and m: "mutate_graph db m batch rationale hash now = Inr db'"
  obtains g where "pending_graph db' (gm_epic m) = Some g" "pg_revision g = max_revision db (gm_epic m) + 1" "pg_hash g = hash"
    "baseline_revision db' (gm_epic m) = baseline_revision db (gm_epic m)"
proof -
  define e where "e = gm_epic m"
  obtain cs db1 where a: "mutate_all db m (gm_actor m = ''mcp'' \<or> pending_graph db (gm_epic m) \<noteq> None) now cs = Inr db1"
      and re: "reopen_approval db1 e hash = Inr db'"
    using mutate_graphE[OF m] b unfolding e_def by metis
  have ok1: "graph_ok db1" by (rule mutate_all_ok[OF ok a])
  have ext: "extends db db1" by (rule mutate_all_extends[OF a])
  obtain gate issues where gate: "approval_gate db1 e = Some gate" and l: "list_factory_issues db1 e = Some issues"
      and db': "db' = reopened db1 e hash gate issues"
    by (rule reopen_approvalE[OF re])
  have "\<exists>r \<in> set (db_issues db1). fi_epic r = e \<and> db_removed db1 (fi_id r) = None"
    using gate
  proof (cases rule: approval_gate_cases)
    case (plan pg)
    have "pg \<in> set (db_gates db)" "pg_epic pg = e" using gate_of_epic_in[OF plan(1)] ext by (simp_all add: extends_def)
    then have "epic_of db gate = Some e"
      using bspec[OF gates[unfolded gates_of_epics_def]] plan(2) unfolding epic_of_def by (fastforce split: option.splits)
    then have "epic_of db1 gate = Some e" using epic_of_extends[OF ext] by blast
    then show ?thesis using plan(4) ok1 unfolding epic_of_def graph_ok_def by (auto simp: issue_row_iff)
  next
    case (formula r)
    then show ?thesis by blast
  qed
  then have "issues \<noteq> []"
    using l in_epic_issues[of _ db1 e] unfolding list_factory_issues_eq[OF ok1] by fastforce
  then obtain g where "pending_graph db' e = Some g" "pg_revision g = max_revision db1 e + 1"
    "pg_hash g = hash" "baseline_revision db' e = baseline_revision db1 e"
    using reopened_gate unfolding db' by metis
  moreover have "max_revision db1 e = max_revision db e" "baseline_revision db1 e = baseline_revision db e"
  proof -
    have t: "db_gates db1 = db_gates db" "db_proposals db1 = db_proposals db" using ext by (simp_all add: extends_def)
    show "max_revision db1 e = max_revision db e" by (simp add: max_revision_def t)
    show "baseline_revision db1 e = baseline_revision db e"
      unfolding baseline_revision_def gate_of_epic_def proposal_of_def t ..
  qed
  ultimately show ?thesis using that unfolding e_def by simp
qed

text \<open>
  C6: an agent cannot work around a review. After an agent's edit, and after anyone's edit of a
  graph that already awaits approval, the gate decides a new revision of the proposal, its base is
  still the last approved revision, no claim of the epic's work succeeds and none of its
  work is listed as ready.
\<close>

theorem agent_edits_await_approval:
  assumes "graph_ok db" "gates_of_epics db"
    and "gm_actor m = ''mcp'' \<or> pending_graph db (gm_epic m) \<noteq> None"
    and "mutate_graph db m batch rationale hash now = Inr db'"
  shows "(\<exists>g. pending_graph db' (gm_epic m) = Some g \<and> pg_revision g = max_revision db (gm_epic m) + 1 \<and> pg_hash g = hash) \<and>
    baseline_revision db' (gm_epic m) = baseline_revision db (gm_epic m) \<and>
    (\<forall>i profile aid token t. \<exists>err. claim_implementation db' (gm_epic m) i profile aid token t = Inl err) \<and>
    (\<forall>out x. list_factory_issues db' (gm_epic m) = Some out \<longrightarrow> x \<in> set out \<longrightarrow>
       is_work x \<or> ni_kind x = ''delivery'' \<longrightarrow> ni_dispatch x \<noteq> ''ready'')"
proof -
  obtain g where g: "pending_graph db' (gm_epic m) = Some g" "pg_revision g = max_revision db (gm_epic m) + 1"
      "pg_hash g = hash" "baseline_revision db' (gm_epic m) = baseline_revision db (gm_epic m)"
    by (rule edit_awaits_approval[OF assms])
  have ok: "graph_ok db'" by (rule mutate_graph_ok[OF assms(1,4)])
  have p: "pending_graph db' (gm_epic m) \<noteq> None" using g(1) by simp
  show ?thesis using g pending_graph_holds[OF ok p] by blast
qed

text \<open>An epic with an approved plan, and the agent that adds a task to it.\<close>

definition planned_graph :: factory_db where
  "planned_graph = sample_graph\<lparr>
     db_issues := db_issues sample_graph @ [sample_issue ''g'' ''gate'' ''closed'' ''succeeded''],
     db_gates := [\<lparr>pg_epic = ''e'', pg_issue = ''g'', pg_revision = 3, pg_resolution = ''approved'', pg_hash = ''h'', pg_model = []\<rparr>],
     db_proposals := [\<lparr>pr_epic = ''e'', pr_revision = 3, pr_graph = True, pr_base = 0\<rparr>]\<rparr>"

lemma planned_graph_ok: "graph_ok planned_graph" "gates_of_epics planned_graph"
proof -
  let ?iss = "db_issues sample_graph @ [sample_issue ''g'' ''gate'' ''closed'' ''succeeded'']"
  have t: "parent_pairs planned_graph = parent_pairs sample_graph" "dep_pairs planned_graph = dep_pairs sample_graph"
      "db_hierarchy planned_graph = db_hierarchy sample_graph" "db_deps planned_graph = db_deps sample_graph"
      "db_removed planned_graph = db_removed sample_graph" "db_issues planned_graph = ?iss"
    by (simp_all add: planned_graph_def parent_pairs_def dep_pairs_def)
  have ep: "epic_of planned_graph i = (case epic_of sample_graph i of Some e \<Rightarrow> Some e | None \<Rightarrow> if i = ''g'' then Some ''e'' else None)" for i
    unfolding epic_of_def issue_row_def t find_snoc by (simp add: sample_issue_def split: option.splits)
  have h: "hierarchy_ok planned_graph"
  proof -
    have "\<forall>(c, p) \<in> set (parent_pairs sample_graph). epic_of planned_graph c \<noteq> None \<and> epic_of planned_graph c = epic_of planned_graph p"
      using sample_graph_ok unfolding graph_ok_def hierarchy_ok_def ep by (auto split: option.splits)
    then show ?thesis using sample_graph_ok unfolding graph_ok_def hierarchy_ok_def t by blast
  qed
  have d: "deps_ok planned_graph" using sample_graph_ok unfolding graph_ok_def deps_ok_def t by auto
  have "rows_ok planned_graph" unfolding rows_ok_def t by (simp add: sample_graph_def sample_issue_def)
  with h d show "graph_ok planned_graph" by (simp add: graph_ok_def)
  show "gates_of_epics planned_graph"
    by (simp add: gates_of_epics_def planned_graph_def issue_row_def sample_graph_def sample_issue_def)
qed

lemma agent_edits_await_approval_witness:
  "\<exists>db g. mutate_graph planned_graph (sample_edit ''mcp'' ''create'' [] ''m'' []) [] [] ''h4'' 5 = Inr db \<and>
     pending_graph db ''e'' = Some g \<and> pg_revision g = 4 \<and> pg_hash g = ''h4'' \<and> baseline_revision db ''e'' = 3"
proof -
  have "case mutate_graph planned_graph (sample_edit ''mcp'' ''create'' [] ''m'' []) [] [] ''h4'' 5 of
      Inl err \<Rightarrow> False | Inr db \<Rightarrow> True"
    by code_simp
  then obtain db where m: "mutate_graph planned_graph (sample_edit ''mcp'' ''create'' [] ''m'' []) [] [] ''h4'' 5 = Inr db"
    by (auto split: sum.splits)
  have e: "gm_epic (sample_edit ''mcp'' ''create'' [] ''m'' []) = ''e''"
      "gm_actor (sample_edit ''mcp'' ''create'' [] ''m'' []) = ''mcp''" by (simp_all add: sample_edit_def)
  have "max_revision planned_graph ''e'' = 3" "baseline_revision planned_graph ''e'' = 3"
    by (simp_all add: max_revision_def baseline_revision_def gate_of_epic_def planned_graph_def)
  then show ?thesis using agent_edits_await_approval[OF planned_graph_ok _ m] m unfolding e by fastforce
qed

section \<open>Children that are moved\<close>

text \<open>
  A child's index never changes, so a parent that adopts a child from elsewhere may hold the index
  its own sequence allocates next.
\<close>

lemma index_taken_blocks_create:
  assumes "(c, p, q) \<in> set (db_hierarchy db)" "db_child_index db c = Some n"
    and "n = (case db_sequences db p of None \<Rightarrow> 1 | Some k \<Rightarrow> k)" "1 \<le> n" "int n < 2 ^ 63"
    and "gm_parent m = p"
  shows "create_issue db m project now \<noteq> Inr x"
proof
  assume "create_issue db m project now = Inr x"
  then obtain i db' where cr: "create_issue db m project now = Inr (i, db')" by (cases x) simp
  obtain db1 n' k where
    db1: "db1 = (if gm_actor m = ''mcp'' \<and> phase_parent db (gm_parent m) \<and> gm_kind m \<noteq> ''mol''
            then reopen_phase (gm_epic m) (gm_parent m) db else db)"
    and n': "n' = fst (allocate_child db1 (gm_parent m))" and i: "i = child_id (gm_parent m) n'"
    and k: "child_index i = Some k"
    and f: "i \<notin> fst ` set (db_hierarchy db1)" "\<not> index_taken db1 i (gm_parent m) k"
    by (rule create_issueE[OF cr])
  have t: "db_hierarchy db1 = db_hierarchy db" "db_child_index db1 = db_child_index db" "db_sequences db1 = db_sequences db"
    unfolding db1 by (simp_all add: reopen_phase_def)
  have "n' = n" unfolding n' assms(3,6) allocate_child_def t by (simp split: option.splits)
  then have "k = n" using k child_index_child_id[OF assms(4,5)] unfolding i by simp
  moreover have "c \<noteq> i" using f(1) assms(1) unfolding t by force
  ultimately have "index_taken db1 i (gm_parent m) k"
    using assms(1,2,6) unfolding index_taken_def t by fastforce
  then show False using f(2) by blast
qed

lemma adopted_child_locks_parent:
  assumes "(c, p, q) \<in> set (db_hierarchy db)" "db_child_index db c = Some n"
    and "n = (case db_sequences db p of None \<Rightarrow> 1 | Some k \<Rightarrow> k)" "1 \<le> n" "int n < 2 ^ 63"
    and "gm_action m = ''create''" "gm_parent m = p"
  shows "\<exists>err. mutate_graph db m batch rationale hash now = Inl err"
proof (rule ccontr)
  assume "\<not> ?thesis"
  then obtain db' where m: "mutate_graph db m batch rationale hash now = Inr db'"
    by (cases "mutate_graph db m batch rationale hash now") auto
  obtain b db1 where "mutate_all db m b now [m] = Inr db1"
    using m assms(6) unfolding mutate_graph_def Let_def
    by (cases "mutate_all db m (gm_actor m = ''mcp'' \<or> pending_graph db (gm_epic m) \<noteq> None) now [m]") auto
  then obtain db2 where tx: "mutate_graph_tx db (m\<lparr>gm_epic := gm_epic m, gm_actor := gm_actor m\<rparr>) b now = Inr db2"
    by (auto split: if_split_asm sum.split_asm)
  obtain project kind i db3 where
    "apply_action db (m\<lparr>gm_epic := gm_epic m, gm_actor := gm_actor m\<rparr>) b project kind now = Inr (i, db3)"
    by (rule mutate_graph_txE[OF tx])
  then show False using index_taken_blocks_create[OF assms(1-5)] assms(6,7) by (simp add: apply_action_def)
qed

definition adoption_graph :: factory_db where
  "adoption_graph = sample_graph\<lparr>
     db_issues := db_issues sample_graph @ [sample_issue ''n'' ''mol'' ''open'' [], sample_issue ''n.1'' ''task'' ''open'' []],
     db_hierarchy := db_hierarchy sample_graph @ [(''n.1'', ''n'', ''required'')],
     db_child_index := (db_child_index sample_graph)(''n.1'' \<mapsto> 1),
     db_sequences := [''m'' \<mapsto> 5, ''n'' \<mapsto> 2]\<rparr>"

text \<open>
  moving an issue can lock its new parent. The parent \<open>n\<close> has one child; an issue with index 2
  (a second child elsewhere) moves there, and from then on every creation below \<open>n\<close> fails on the
  unique index, since the failed transaction takes back the sequence it advanced. Before the move
  the same creation succeeds.
\<close>

theorem moved_child_locks_its_parent:
  "(\<exists>db. mutate_graph adoption_graph (sample_edit ''user'' ''create'' [] ''n'' []) [] [] [] 5 = Inr db) \<and>
   (\<exists>db. mutate_graph adoption_graph (sample_edit ''user'' ''reparent'' ''b'' ''n'' []) [] [] [] 5 = Inr db \<and>
      (\<forall>m batch rationale hash now. \<exists>err.
         mutate_graph db (m\<lparr>gm_action := ''create'', gm_parent := ''n''\<rparr>) batch rationale hash now = Inl err))"
proof
  have "case mutate_graph adoption_graph (sample_edit ''user'' ''create'' [] ''n'' []) [] [] [] 5 of
      Inl err \<Rightarrow> False | Inr db \<Rightarrow> True"
    by code_simp
  then show "\<exists>db. mutate_graph adoption_graph (sample_edit ''user'' ''create'' [] ''n'' []) [] [] [] 5 = Inr db"
    by (auto split: sum.splits)
next
  have "case mutate_graph adoption_graph (sample_edit ''user'' ''reparent'' ''b'' ''n'' []) [] [] [] 5 of
      Inl err \<Rightarrow> False | Inr db \<Rightarrow> (''b'', ''n'', ''required'') \<in> set (db_hierarchy db) \<and>
        db_child_index db ''b'' = Some 2 \<and> db_sequences db ''n'' = Some 2"
    by code_simp
  then obtain db where m: "mutate_graph adoption_graph (sample_edit ''user'' ''reparent'' ''b'' ''n'' []) [] [] [] 5 = Inr db"
      and h: "(''b'', ''n'', ''required'') \<in> set (db_hierarchy db)" and c: "db_child_index db ''b'' = Some 2"
      and s: "db_sequences db ''n'' = Some 2"
    by (auto split: sum.splits)
  have "\<exists>err. mutate_graph db (m\<lparr>gm_action := ''create'', gm_parent := ''n''\<rparr>) batch rationale hash now = Inl err"
    for m batch rationale hash now
    by (rule adopted_child_locks_parent[OF h c]) (simp_all add: s)
  then show "\<exists>db. mutate_graph adoption_graph (sample_edit ''user'' ''reparent'' ''b'' ''n'' []) [] [] [] 5 = Inr db \<and>
      (\<forall>m batch rationale hash now. \<exists>err.
         mutate_graph db (m\<lparr>gm_action := ''create'', gm_parent := ''n''\<rparr>) batch rationale hash now = Inl err)"
    using m by blast
qed

end
