(* ===== verification/Relay_Store.thy ===== *)
theory Relay_Store
  imports Prelude "HOL-Library.List_Lexorder" "HOL-Library.Char_ord"
begin

text \<open>
  The object store of the share relay (\<open>internal/share/store.go\<close>, \<open>disk.go\<close>): segment-aligned
  keys, and the directory tree a \<open>DiskStore\<close> keeps as the association list of its files. The
  interface \<open>relay.Store\<close> is the locale \<open>object_store\<close>; it holds the lemmas on totals over a
  prefix that quotas rest on. The file system is taken to work: what remains of errors are the
  keys it refuses.
\<close>

section \<open>Keys\<close>

definition key_char :: "char \<Rightarrow> bool" where
  "key_char c \<longleftrightarrow> (let n = of_char c :: nat in
     97 \<le> n \<and> n \<le> 122 \<or> 65 \<le> n \<and> n \<le> 90 \<or> 48 \<le> n \<and> n \<le> 57 \<or> n = 45 \<or> n = 95)"

definition valid_key_segment :: "string \<Rightarrow> bool" where
  "valid_key_segment s \<longleftrightarrow> s \<noteq> [] \<and> (\<forall>c \<in> set s. key_char c)"

fun segments :: "string \<Rightarrow> string list" where
  "segments [] = [[]]"
| "segments (c # cs) =
     (if c = CHR ''/'' then [] # segments cs
      else (case segments cs of [] \<Rightarrow> [[c]] | w # ws \<Rightarrow> (c # w) # ws))"

definition valid_key :: "string \<Rightarrow> bool" where
  "valid_key k \<longleftrightarrow> k \<noteq> [] \<and> (\<forall>s \<in> set (segments k). valid_key_segment s)"

definition trim_slash :: "string \<Rightarrow> string" where
  "trim_slash p = (if p \<noteq> [] \<and> last p = CHR ''/'' then butlast p else p)"

definition valid_prefix :: "string \<Rightarrow> bool" where
  "valid_prefix p \<longleftrightarrow> trim_slash p = [] \<or> valid_key (trim_slash p)"

text \<open>A key lies under a prefix: it is the prefix itself, or below it as a directory.\<close>

definition under :: "string \<Rightarrow> string \<Rightarrow> bool" where
  "under p k \<longleftrightarrow> (let t = trim_slash p in t = [] \<or> k = t \<or> has_prefix k (t @ ''/''))"

section \<open>The disk store\<close>

datatype store_error = InvalidKey | NotFound | StoreFault

type_synonym 'd store = "(string \<times> 'd) list"

text \<open>A file cannot be where a directory is, nor below a file.\<close>

definition blocked :: "'d store \<Rightarrow> string \<Rightarrow> bool" where
  "blocked st k \<longleftrightarrow> (\<exists>k' \<in> fst ` set st. has_prefix k' (k @ ''/'') \<or> has_prefix k (k' @ ''/''))"

definition store_put :: "string \<Rightarrow> 'd \<Rightarrow> 'd store \<Rightarrow> store_error + 'd store" where
  "store_put k d st =
     (if \<not> valid_key k then Inl InvalidKey
      else if blocked st k then Inl StoreFault
      else Inr ((k, d) # filter (\<lambda>o'. fst o' \<noteq> k) st))"

definition store_get :: "'d store \<Rightarrow> string \<Rightarrow> store_error + 'd" where
  "store_get st k =
     (if \<not> valid_key k then Inl InvalidKey
      else case map_of st k of None \<Rightarrow> Inl NotFound | Some d \<Rightarrow> Inr d)"

text \<open>The walk visits a directory's entries in order of their names. An object is listed with its
  content here; the code only reads its size.\<close>

definition store_list :: "string \<Rightarrow> 'd store \<Rightarrow> store_error + (string \<times> 'd) list" where
  "store_list p st =
     (if \<not> valid_prefix p then Inl InvalidKey
      else Inr (sort_key (\<lambda>o'. segments (fst o')) (filter (\<lambda>o'. under p (fst o')) st)))"

definition store_delete_prefix :: "string \<Rightarrow> 'd store \<Rightarrow> store_error + 'd store" where
  "store_delete_prefix p st =
     (if trim_slash p = [] then Inl StoreFault
      else if \<not> valid_key (trim_slash p) then Inl InvalidKey
      else Inr (filter (\<lambda>o'. \<not> under p (fst o')) st))"

definition store_ok :: "'d store \<Rightarrow> bool" where
  "store_ok st \<longleftrightarrow> distinct (map fst st) \<and> (\<forall>k \<in> fst ` set st. valid_key k)"

section \<open>The interface\<close>

locale object_store =
  fixes put :: "string \<Rightarrow> 'd \<Rightarrow> 's \<Rightarrow> store_error + 's"
    and get :: "'s \<Rightarrow> string \<Rightarrow> store_error + 'd"
    and objects_under :: "string \<Rightarrow> 's \<Rightarrow> store_error + (string \<times> 'd) list"
    and delete_prefix :: "string \<Rightarrow> 's \<Rightarrow> store_error + 's"
    and inv :: "'s \<Rightarrow> bool"
  assumes put_inv: "inv s \<Longrightarrow> put k d s = Inr s' \<Longrightarrow> inv s'"
    and delete_inv: "inv s \<Longrightarrow> delete_prefix p s = Inr s' \<Longrightarrow> inv s'"
    and get_put: "inv s \<Longrightarrow> put k d s = Inr s' \<Longrightarrow> get s' k' = (if k' = k then Inr d else get s k')"
    and get_delete: "inv s \<Longrightarrow> delete_prefix p s = Inr s' \<Longrightarrow> get s k' = Inr d \<Longrightarrow>
        get s' k' = (if under p k' then Inl NotFound else Inr d)"
    and delete_only: "inv s \<Longrightarrow> delete_prefix p s = Inr s' \<Longrightarrow> get s' k' = Inr d \<Longrightarrow> get s k' = Inr d"
    and list_objects: "inv s \<Longrightarrow> objects_under p s = Inr os \<Longrightarrow>
        distinct (map fst os) \<and> set os = {(k, d). under p k \<and> get s k = Inr d}"
begin

definition objects :: "string \<Rightarrow> 's \<Rightarrow> (string \<times> 'd) set" where
  "objects p s = {(k, d). under p k \<and> get s k = Inr d}"

lemma objects_list: "inv s \<Longrightarrow> objects_under p s = Inr os \<Longrightarrow> set os = objects p s"
  using list_objects unfolding objects_def by blast

lemma objects_put:
  assumes "inv s" "put k d s = Inr s'" "under p k"
  shows "objects p s' = insert (k, d) {o' \<in> objects p s. fst o' \<noteq> k}"
proof (intro set_eqI)
  fix o' :: "string \<times> 'd"
  obtain k' d' where o': "o' = (k', d')" by (cases o') simp
  show "o' \<in> objects p s' \<longleftrightarrow> o' \<in> insert (k, d) {o' \<in> objects p s. fst o' \<noteq> k}"
    unfolding o' objects_def using get_put[OF assms(1,2), of k'] assms(3) by (cases "k' = k") auto
qed

lemma objects_put_other:
  assumes "inv s" "put k d s = Inr s'" "\<not> under p k"
  shows "objects p s' = objects p s"
proof (intro set_eqI)
  fix o' :: "string \<times> 'd"
  obtain k' d' where o': "o' = (k', d')" by (cases o') simp
  show "o' \<in> objects p s' \<longleftrightarrow> o' \<in> objects p s"
    unfolding o' objects_def using get_put[OF assms(1,2), of k'] assms(3) by (cases "k' = k") auto
qed

lemma objects_delete:
  assumes "inv s" "delete_prefix q s = Inr s'"
  shows "objects p s' = {o' \<in> objects p s. \<not> under q (fst o')}"
proof (intro set_eqI)
  fix o' :: "string \<times> 'd"
  obtain k' d' where o': "o' = (k', d')" by (cases o') simp
  have "get s' k' = Inr d' \<longleftrightarrow> get s k' = Inr d' \<and> \<not> under q k'"
    using get_delete[OF assms, of k' d'] delete_only[OF assms, of k' d'] by (cases "under q k'") auto
  then show "o' \<in> objects p s' \<longleftrightarrow> o' \<in> {o' \<in> objects p s. \<not> under q (fst o')}"
    unfolding o' objects_def by simp
qed

lemma list_filter:
  assumes "inv s" "objects_under p s = Inr os"
  shows "(\<Sum>o' \<leftarrow> filter P os. f o') = (\<Sum>o' \<in> {o' \<in> objects p s. P o'}. f o')"
    "length (filter P os) = card {o' \<in> objects p s. P o'}" "filter P os = [] \<longleftrightarrow> \<not> (\<exists>o' \<in> objects p s. P o')"
proof -
  have d: "distinct (filter P os)" using list_objects[OF assms] by (metis distinct_map distinct_filter)
  have s: "set (filter P os) = {o' \<in> objects p s. P o'}" using objects_list[OF assms] by simp
  show "(\<Sum>o' \<leftarrow> filter P os. f o') = (\<Sum>o' \<in> {o' \<in> objects p s. P o'}. f o')"
    using sum_list_distinct_conv_sum_set[OF d] s by metis
  show "length (filter P os) = card {o' \<in> objects p s. P o'}" using distinct_card[OF d] s by metis
  show "filter P os = [] \<longleftrightarrow> \<not> (\<exists>o' \<in> objects p s. P o')"
    unfolding filter_empty_conv using objects_list[OF assms] by simp
qed

lemma objects_unique: "(k, d) \<in> objects p s \<Longrightarrow> (k, d') \<in> objects p s \<Longrightarrow> d = d'"
  by (simp add: objects_def)

lemma objects_get: "(k, d) \<in> objects p s \<longleftrightarrow> under p k \<and> get s k = Inr d"
  by (simp add: objects_def)

text \<open>Sums over a listing, which do not depend on its order.\<close>

lemma list_sum:
  assumes "inv s" "objects_under p s = Inr os"
  shows "(\<Sum>o' \<leftarrow> os. f o') = (\<Sum>o' \<in> objects p s. f o')" and "finite (objects p s)"
proof -
  have d: "distinct os" using list_objects[OF assms] by (metis distinct_map)
  show "finite (objects p s)" using objects_list[OF assms] by (metis List.finite_set)
  show "(\<Sum>o' \<leftarrow> os. f o') = (\<Sum>o' \<in> objects p s. f o')"
    using objects_list[OF assms] sum_list_distinct_conv_sum_set[OF d] by metis
qed

end

section \<open>The disk store provides it\<close>

lemma map_of_filter_key:
  "map_of (filter (\<lambda>o'. P (fst o')) st) k = (if P k then map_of st k else None)"
  by (induction st) auto

lemma store_put_ok:
  assumes "store_ok st" "store_put k d st = Inr st'"
  shows "store_ok st'"
proof -
  have st': "st' = (k, d) # filter (\<lambda>o'. fst o' \<noteq> k) st" "valid_key k"
    using assms(2) by (auto simp: store_put_def split: if_split_asm)
  have "distinct (map fst (filter (\<lambda>o'. fst o' \<noteq> k) st))" using assms(1) by (simp add: store_ok_def distinct_map_filter)
  then show ?thesis using assms(1) st' by (auto simp: store_ok_def)
qed

lemma store_delete_ok:
  assumes "store_ok st" "store_delete_prefix p st = Inr st'"
  shows "store_ok st'"
proof -
  have st': "st' = filter (\<lambda>o'. \<not> under p (fst o')) st"
    using assms(2) by (auto simp: store_delete_prefix_def split: if_split_asm)
  then show ?thesis using assms(1) by (auto simp: store_ok_def distinct_map_filter)
qed

lemma store_get_Inr: "store_ok st \<Longrightarrow> store_get st k = Inr d \<longleftrightarrow> (k, d) \<in> set st"
proof -
  assume ok: "store_ok st"
  then have d: "distinct (map fst st)" by (simp add: store_ok_def)
  have v: "valid_key k" if "(k, d) \<in> set st" using ok that by (force simp: store_ok_def)
  have "store_get st k = Inr d \<longleftrightarrow> valid_key k \<and> map_of st k = Some d"
    unfolding store_get_def by (simp split: option.splits)
  then show ?thesis using v by (auto simp: map_of_eq_Some_iff[OF d])
qed

interpretation disk: object_store store_put store_get store_list store_delete_prefix store_ok
proof
  show "store_ok s \<Longrightarrow> store_put k d s = Inr s' \<Longrightarrow> store_ok s'" for s :: "'a store" and k d s'
    by (rule store_put_ok)
  show "store_ok s \<Longrightarrow> store_delete_prefix p s = Inr s' \<Longrightarrow> store_ok s'" for s :: "'a store" and p s'
    by (rule store_delete_ok)
  show "store_get s' k' = (if k' = k then Inr d else store_get s k')"
    if "store_ok s" "store_put k d s = Inr s'" for s :: "'a store" and k d s' k'
  proof -
    have "s' = (k, d) # filter (\<lambda>o'. fst o' \<noteq> k) s" "valid_key k"
      using that(2) by (auto simp: store_put_def split: if_split_asm)
    then show ?thesis unfolding store_get_def
      using map_of_filter_key[of "\<lambda>x. x \<noteq> k" s k'] by simp
  qed
  show "store_get s' k' = (if under p k' then Inl NotFound else Inr d)"
    if "store_ok s" "store_delete_prefix p s = Inr s'" "store_get s k' = Inr d" for s :: "'a store" and p s' k' d
  proof -
    have "s' = filter (\<lambda>o'. \<not> under p (fst o')) s"
      using that(2) by (auto simp: store_delete_prefix_def split: if_split_asm)
    then show ?thesis using that(3) map_of_filter_key[of "\<lambda>x. \<not> under p x" s k'] unfolding store_get_def
      by (cases "under p k'"; cases "valid_key k'") simp_all
  qed
  show "store_get s k' = Inr d"
    if "store_ok s" "store_delete_prefix p s = Inr s'" "store_get s' k' = Inr d" for s :: "'a store" and p s' k' d
  proof -
    have "s' = filter (\<lambda>o'. \<not> under p (fst o')) s"
      using that(2) by (auto simp: store_delete_prefix_def split: if_split_asm)
    then show ?thesis using that(3) map_of_filter_key[of "\<lambda>x. \<not> under p x" s k'] unfolding store_get_def
      by (cases "under p k'"; cases "valid_key k'") simp_all
  qed
  show "distinct (map fst os) \<and> set os = {(k, d). under p k \<and> store_get s k = Inr d}"
    if "store_ok s" "store_list p s = Inr os" for s :: "'a store" and p os
  proof -
    have os: "os = sort_key (\<lambda>o'. segments (fst o')) (filter (\<lambda>o'. under p (fst o')) s)"
      using that(2) by (auto simp: store_list_def split: if_split_asm)
    have "inj_on fst (set s)" "distinct s" using that(1) by (simp_all add: store_ok_def distinct_map)
    then have "distinct (map fst os)" unfolding os distinct_map by (auto intro: inj_on_subset)
    moreover have "set os = {(k, d). under p k \<and> store_get s k = Inr d}"
      unfolding os using store_get_Inr[OF that(1)] by auto
    ultimately show ?thesis by blast
  qed
qed

lemmas disk_laws = disk.get_put disk.get_delete disk.delete_only disk.list_objects

end
