(* ===== verification/Relay_Ids.thy ===== *)
theory Relay_Ids
  imports Relay_Store Decimals
begin

text \<open>
  Ids, cursors and keys of the relay (\<open>internal/relay/id.go\<close> and the helpers of \<open>inbox.go\<close>):
  unpadded base64url as Go encodes and decodes it, the dates that partition shares, and the keys
  of objects. A character of these strings stands for a byte.
\<close>

section \<open>Unpadded base64url\<close>

definition sextet_char :: "nat \<Rightarrow> char" where
  "sextet_char n =
     char_of (if n < 26 then 65 + n else if n < 52 then 71 + n else if n < 62 then n - 4
              else if n = 62 then 45 else 95 :: nat)"

definition char_sextet :: "char \<Rightarrow> nat option" where
  "char_sextet c =
     (let n = of_char c :: nat in
      if 65 \<le> n \<and> n \<le> 90 then Some (n - 65)
      else if 97 \<le> n \<and> n \<le> 122 then Some (n - 71)
      else if 48 \<le> n \<and> n \<le> 57 then Some (n + 4)
      else if n = 45 then Some 62 else if n = 95 then Some 63 else None)"

fun encode_bytes :: "nat list \<Rightarrow> nat list" where
  "encode_bytes [] = []"
| "encode_bytes [a] = [a div 4, (a mod 4) * 16]"
| "encode_bytes [a, b] = [a div 4, (a mod 4) * 16 + b div 16, (b mod 16) * 4]"
| "encode_bytes (a # b # c # bs) =
     a div 4 # ((a mod 4) * 16 + b div 16) # ((b mod 16) * 4 + c div 64) # (c mod 64) # encode_bytes bs"

fun decode_sextets :: "nat list \<Rightarrow> nat list option" where
  "decode_sextets [] = Some []"
| "decode_sextets [x] = None"
| "decode_sextets [x, y] = Some [x * 4 + y div 16]"
| "decode_sextets [x, y, z] = Some [x * 4 + y div 16, (y mod 16) * 16 + z div 4]"
| "decode_sextets (x # y # z # w # xs) =
     map_option (\<lambda>bs. (x * 4 + y div 16) # ((y mod 16) * 16 + z div 4) # ((z mod 4) * 64 + w) # bs) (decode_sextets xs)"

fun sextets :: "string \<Rightarrow> nat list option" where
  "sextets [] = Some []"
| "sextets (c # cs) =
     (case char_sextet c of None \<Rightarrow> None | Some x \<Rightarrow> map_option ((#) x) (sextets cs))"

definition base64_encode :: "string \<Rightarrow> string" where
  "base64_encode s = map sextet_char (encode_bytes (map of_char s))"

text \<open>The decoder skips line breaks and ignores the bits left over at the end.\<close>

definition base64_decode :: "string \<Rightarrow> string option" where
  "base64_decode s =
     (case sextets (filter (\<lambda>c. c \<noteq> CHR 0x0A \<and> c \<noteq> CHR 0x0D) s) of
        None \<Rightarrow> None
      | Some xs \<Rightarrow> map_option (map char_of) (decode_sextets xs))"

definition encoded_len :: "nat \<Rightarrow> nat" where
  "encoded_len n = n div 3 * 4 + (n mod 3 * 8 + 5) div 6"

text \<open>\<open>validRandomString\<close> and \<open>validDeliveryID\<close>.\<close>

definition valid_random_string :: "string \<Rightarrow> nat \<Rightarrow> bool" where
  "valid_random_string v n \<longleftrightarrow>
     length v = encoded_len n \<and> (case base64_decode v of None \<Rightarrow> False | Some d \<Rightarrow> length d = n)"

definition valid_delivery_id :: "string \<Rightarrow> bool" where
  "valid_delivery_id v \<longleftrightarrow> valid_random_string v 16"



lemma of_sextet_char:
  assumes "n < 64"
  shows "char_sextet (sextet_char n) = Some n" "key_char (sextet_char n)"
    "sextet_char n \<noteq> CHR 0x0A" "sextet_char n \<noteq> CHR 0x0D"
proof -
  define m where "m = (if n < 26 then 65 + n else if n < 52 then 71 + n else if n < 62 then n - 4
              else if n = 62 then 45 else 95)"
  have m: "of_char (sextet_char n) = m"
    using assms by (simp add: sextet_char_def m_def)
  show "char_sextet (sextet_char n) = Some n"
    unfolding char_sextet_def m Let_def unfolding m_def using assms by (auto split: if_splits)
  show "key_char (sextet_char n)"
    unfolding key_char_def m Let_def unfolding m_def using assms by (auto split: if_splits)
  have "m \<noteq> 10" "m \<noteq> 13" unfolding m_def using assms by (auto split: if_splits)
  then show "sextet_char n \<noteq> CHR 0x0A" "sextet_char n \<noteq> CHR 0x0D" using m by auto
qed

lemma key_char_sextet: "char_sextet c = Some x \<Longrightarrow> key_char c"
  unfolding char_sextet_def key_char_def Let_def
  by (simp split: if_split_asm)

lemma encode_bytes_lt: "\<forall>b \<in> set bs. b < 256 \<Longrightarrow> x \<in> set (encode_bytes bs) \<Longrightarrow> x < 64"
  by (induction bs rule: encode_bytes.induct) (auto simp: div_less_iff_less_mult)

lemma byte_parts:
  fixes a b c :: nat
  assumes "a < 256" "b < 256" "c < 256"
  shows "a div 4 * 4 + (a mod 4 * 16 + b div 16) div 16 = a"
    "(a mod 4 * 16 + b div 16) mod 16 * 16 + (b mod 16 * 4 + c div 64) div 4 = b"
    "(b mod 16 * 4 + c div 64) mod 4 * 64 + c mod 64 = c"
    "(a mod 4 * 16 + b div 16) mod 16 * 16 + b mod 16 * 4 div 4 = b"
proof -
  have p: "(a mod 4 * 16 + b div 16) div 16 = a mod 4" "(a mod 4 * 16 + b div 16) mod 16 = b div 16"
    using assms(2) by (simp_all add: div_less_iff_less_mult)
  have q: "(b mod 16 * 4 + c div 64) div 4 = b mod 16" "(b mod 16 * 4 + c div 64) mod 4 = c div 64"
    using assms(3) by (simp_all add: div_less_iff_less_mult)
  show "a div 4 * 4 + (a mod 4 * 16 + b div 16) div 16 = a"
    "(a mod 4 * 16 + b div 16) mod 16 * 16 + (b mod 16 * 4 + c div 64) div 4 = b"
    "(b mod 16 * 4 + c div 64) mod 4 * 64 + c mod 64 = c"
    "(a mod 4 * 16 + b div 16) mod 16 * 16 + b mod 16 * 4 div 4 = b"
    unfolding p q by simp_all
qed

lemma decode_encode_bytes: "\<forall>b \<in> set bs. b < 256 \<Longrightarrow> decode_sextets (encode_bytes bs) = Some bs"
proof (induction bs rule: encode_bytes.induct)
  case (2 a)
  then show ?case by simp
next
  case (3 a b)
  then show ?case using byte_parts[of a b 0] by simp
next
  case (4 a b c bs)
  then show ?case using byte_parts[of a b c] by simp
qed simp

lemma sextets_map: "\<forall>x \<in> set xs. x < 64 \<Longrightarrow> sextets (map sextet_char xs) = Some xs"
  by (induction xs) (simp_all add: of_sextet_char)

lemma decode_encode: "base64_decode (base64_encode s) = Some s"
proof -
  define bs where "bs = map (of_char :: char \<Rightarrow> nat) s"
  have bs: "\<forall>b \<in> set bs. b < 256" by (auto simp: bs_def)
  then have x: "\<forall>x \<in> set (encode_bytes bs). x < 64" using encode_bytes_lt by blast
  then have "filter (\<lambda>c. c \<noteq> CHR 0x0A \<and> c \<noteq> CHR 0x0D) (map sextet_char (encode_bytes bs)) =
      map sextet_char (encode_bytes bs)"
    by (auto simp: of_sextet_char)
  then have "base64_decode (base64_encode s) = Some (map char_of bs)"
    using sextets_map[OF x] decode_encode_bytes[OF bs]
    unfolding base64_decode_def base64_encode_def bs_def[symmetric] by simp
  then show ?thesis by (simp add: bs_def comp_def)
qed

lemma length_decode: "decode_sextets xs = Some bs \<Longrightarrow> length bs = length xs * 3 div 4"
proof (induction xs arbitrary: bs rule: decode_sextets.induct)
  case (5 x y z w xs)
  then obtain cs where "decode_sextets xs = Some cs" "length bs = 3 + length cs" by auto
  moreover have "length (x # y # z # w # xs) * 3 div 4 = 3 + length xs * 3 div 4" by simp
  ultimately show ?case using 5(1) by simp
qed auto

lemma length_sextets: "sextets s = Some xs \<Longrightarrow> length xs = length s \<and> (\<forall>c \<in> set s. key_char c)"
  by (induction s arbitrary: xs) (auto split: option.splits intro: key_char_sextet)

text \<open>A valid random string holds nothing but characters a key may have.\<close>

lemma valid_random_chars:
  assumes "valid_random_string v 16"
  shows "length v = 22" "\<forall>c \<in> set v. key_char c"
proof -
  let ?v = "filter (\<lambda>c. c \<noteq> CHR 0x0A \<and> c \<noteq> CHR 0x0D) v"
  show len: "length v = 22" using assms by (simp add: valid_random_string_def encoded_len_def)
  obtain xs bs where xs: "sextets ?v = Some xs" and bs: "decode_sextets xs = Some bs" "length bs = 16"
    using assms unfolding valid_random_string_def base64_decode_def by (auto split: option.splits)
  have "16 = length xs * 3 div 4" using length_decode[OF bs(1)] bs(2) by simp
  then have "22 \<le> length xs" by linarith
  then have "length ?v = length v" using length_sextets[OF xs] len length_filter_le[of "\<lambda>c. c \<noteq> CHR 0x0A \<and> c \<noteq> CHR 0x0D" v] by simp
  then have "?v = v" by (metis length_filter_conv_card length_filter_less filter_True linorder_neq_iff)
  then show "\<forall>c \<in> set v. key_char c" using length_sextets[OF xs] by simp
qed

text \<open>
  decoding gives back what was encoded, whatever the bytes: no cursor the relay hands out is
  read back as another one.
\<close>

theorem base64_round_trip: "base64_decode (base64_encode s) = Some s"
  by (rule decode_encode)

section \<open>Dates\<close>

text \<open>Days count from 1970-01-01 in UTC.\<close>

definition leap :: "nat \<Rightarrow> bool" where
  "leap y \<longleftrightarrow> y mod 4 = 0 \<and> (y mod 100 \<noteq> 0 \<or> y mod 400 = 0)"

definition year_days :: "nat \<Rightarrow> nat" where
  "year_days y = (if leap y then 366 else 365)"

definition month_days :: "nat \<Rightarrow> nat \<Rightarrow> nat" where
  "month_days y m =
     (if m = 2 then if leap y then 29 else 28 else if m \<in> {4, 6, 9, 11} then 30 else 31)"

function civil_year :: "nat \<Rightarrow> nat \<Rightarrow> nat \<times> nat" where
  "civil_year y d = (if d < year_days y then (y, d) else civil_year (Suc y) (d - year_days y))"
  by auto
termination
  by (relation "measure snd") (auto simp: year_days_def split: if_splits)

declare civil_year.simps [simp del]

function civil_month :: "nat \<Rightarrow> nat \<Rightarrow> nat \<Rightarrow> nat \<times> nat" where
  "civil_month y m d =
     (if m < 12 \<and> month_days y m \<le> d then civil_month y (Suc m) (d - month_days y m) else (m, Suc d))"
  by auto
termination
  by (relation "measure (\<lambda>(y, m, d). 12 - m)") auto

declare civil_month.simps [simp del]

text \<open>\<open>Format("20060102")\<close>.\<close>

definition date_string :: "nat \<Rightarrow> string" where
  "date_string day =
     (let (y, d) = civil_year 1970 day; (m, dd) = civil_month y 1 d
      in padded 4 y @ padded 2 m @ padded 2 dd)"

text \<open>\<open>time.Parse("20060102", s)\<close> succeeds.\<close>

definition valid_date :: "string \<Rightarrow> bool" where
  "valid_date s \<longleftrightarrow>
     length s = 8 \<and>
     (case (digits_value 0 (take 4 s), digits_value 0 (take 2 (drop 4 s)), digits_value 0 (drop 6 s)) of
        (Some y, Some m, Some d) \<Rightarrow> 1 \<le> m \<and> m \<le> 12 \<and> 1 \<le> d \<and> d \<le> month_days y m
      | _ \<Rightarrow> False)"

lemma civil_year_inverse:
  "civil_year y d = (y', d') \<Longrightarrow> y \<le> y' \<and> d' < year_days y' \<and> d = d' + (\<Sum>k \<in> {y..<y'}. year_days k)"
proof (induction y d arbitrary: y' d' rule: civil_year.induct)
  case (1 y d)
  show ?case
  proof (cases "d < year_days y")
    case True
    then show ?thesis using 1(2) by (simp add: civil_year.simps)
  next
    case False
    then have e: "civil_year (Suc y) (d - year_days y) = (y', d')" using 1(2) by (simp add: civil_year.simps)
    have ih: "Suc y \<le> y' \<and> d' < year_days y' \<and> d - year_days y = d' + (\<Sum>k \<in> {Suc y..<y'}. year_days k)"
      by (rule 1(1)[OF False e])
    then have "(\<Sum>k \<in> {y..<y'}. year_days k) = year_days y + (\<Sum>k \<in> {Suc y..<y'}. year_days k)"
      by (simp add: sum.atLeast_Suc_lessThan)
    then show ?thesis using ih False by linarith
  qed
qed

lemma civil_month_inverse:
  "civil_month y m d = (m', d') \<Longrightarrow> m \<le> 12 \<Longrightarrow>
     m \<le> m' \<and> m' \<le> 12 \<and> 1 \<le> d' \<and> (m' < 12 \<longrightarrow> d' \<le> month_days y m') \<and>
     d + 1 = d' + (\<Sum>k \<in> {m..<m'}. month_days y k)"
proof (induction y m d arbitrary: m' d' rule: civil_month.induct)
  case (1 y m d)
  show ?case
  proof (cases "m < 12 \<and> month_days y m \<le> d")
    case False
    then show ?thesis using 1(2,3) by (auto simp: civil_month.simps)
  next
    case True
    then have e: "civil_month y (Suc m) (d - month_days y m) = (m', d')" using 1(2) by (simp add: civil_month.simps)
    have ih: "Suc m \<le> m' \<and> m' \<le> 12 \<and> 1 \<le> d' \<and> (m' < 12 \<longrightarrow> d' \<le> month_days y m') \<and>
        d - month_days y m + 1 = d' + (\<Sum>k \<in> {Suc m..<m'}. month_days y k)"
      by (rule 1(1)[OF True e]) (use True in simp)
    then have "(\<Sum>k \<in> {m..<m'}. month_days y k) = month_days y m + (\<Sum>k \<in> {Suc m..<m'}. month_days y k)"
      by (simp add: sum.atLeast_Suc_lessThan)
    then show ?thesis using ih True by linarith
  qed
qed

lemma civil_date:
  assumes "civil_year 1970 day = (y, d)" "civil_month y 1 d = (m, dd)"
  shows "1970 \<le> y" "1 \<le> m" "m \<le> 12" "1 \<le> dd" "dd \<le> month_days y m"
    "day + 1 = dd + (\<Sum>k \<in> {1..<m}. month_days y k) + (\<Sum>k \<in> {1970..<y}. year_days k)"
proof -
  note yd = civil_year_inverse[OF assms(1)] and md = civil_month_inverse[OF assms(2)]
  show "1970 \<le> y" "1 \<le> m" "m \<le> 12" "1 \<le> dd" using yd md by auto
  show "day + 1 = dd + (\<Sum>k \<in> {1..<m}. month_days y k) + (\<Sum>k \<in> {1970..<y}. year_days k)"
    using yd md by simp
  have "{1..<12 :: nat} = {1, 2, 3, 4, 5, 6, 7, 8, 9, 10, 11}"
    by (intro set_eqI; simp only: atLeastLessThan_iff insert_iff empty_iff; presburger)
  then have "(\<Sum>k \<in> {1..<12}. month_days y k) + 31 = year_days y"
    by (simp add: month_days_def year_days_def)
  then have "m = 12 \<Longrightarrow> dd \<le> 31" using yd md by auto
  then show "dd \<le> month_days y m" using md by (cases "m < 12") (auto simp: month_days_def)
qed

text \<open>Before the year 10000 every day has a name of its own, and it parses.\<close>

definition in_calendar :: "nat \<Rightarrow> bool" where
  "in_calendar day \<longleftrightarrow> fst (civil_year 1970 day) < 10000"

lemma month_days_le: "month_days y m \<le> 31"
  by (simp add: month_days_def)

lemma date_string_parts:
  assumes "in_calendar day" "civil_year 1970 day = (y, d)" "civil_month y 1 d = (m, dd)"
  shows "length (date_string day) = 8" "take 4 (date_string day) = padded 4 y"
    "take 2 (drop 4 (date_string day)) = padded 2 m" "drop 6 (date_string day) = padded 2 dd"
proof -
  note c = civil_date[OF assms(2,3)]
  have "y < 10 ^ 4" using assms(1,2) by (simp add: in_calendar_def)
  moreover have "m < 10 ^ 2" "dd < 10 ^ 2" using c(3,5) month_days_le[of y m] by simp_all
  ultimately have l: "length (padded 4 y) = 4" "length (padded 2 m) = 2" "length (padded 2 dd) = 2"
    by (simp_all add: length_padded)
  have s: "date_string day = padded 4 y @ padded 2 m @ padded 2 dd"
    unfolding date_string_def assms(2) Let_def prod.case assms(3) ..
  show "length (date_string day) = 8" "take 4 (date_string day) = padded 4 y"
    "take 2 (drop 4 (date_string day)) = padded 2 m" "drop 6 (date_string day) = padded 2 dd"
    unfolding s using l by simp_all
qed

lemma date_string_valid: "in_calendar day \<Longrightarrow> valid_date (date_string day)"
proof -
  assume a: "in_calendar day"
  obtain y d where y: "civil_year 1970 day = (y, d)" by fastforce
  obtain m dd where m: "civil_month y 1 d = (m, dd)" by fastforce
  have p: "digits_value 0 (padded w n) = Some n" for w n
    by (simp add: padded_def digits_value_zeros digits_value_decimal)
  show ?thesis unfolding valid_date_def date_string_parts[OF a y m] p using civil_date[OF y m] by simp
qed

lemma date_string_inj:
  assumes "in_calendar a" "in_calendar b" "date_string a = date_string b"
  shows "a = b"
proof -
  obtain y d m dd where 1: "civil_year 1970 a = (y, d)" "civil_month y 1 d = (m, dd)" by fastforce
  obtain y' d' m' dd' where 2: "civil_year 1970 b = (y', d')" "civil_month y' 1 d' = (m', dd')" by fastforce
  have "padded 4 y = padded 4 y'" "padded 2 m = padded 2 m'" "padded 2 dd = padded 2 dd'"
    using date_string_parts[OF assms(1) 1] date_string_parts[OF assms(2) 2] assms(3) by simp_all
  then have "y = y'" "m = m'" "dd = dd'" using padded_inj by blast+
  then show "a = b" using civil_date(6)[OF 1] civil_date(6)[OF 2] by simp
qed

section \<open>Share ids and keys\<close>

text \<open>\<open>strings.Cut\<close> at a character.\<close>

definition cut_at :: "char \<Rightarrow> string \<Rightarrow> (string \<times> string) option" where
  "cut_at c s = (case dropWhile (\<lambda>x. x \<noteq> c) s of [] \<Rightarrow> None | _ # post \<Rightarrow> Some (takeWhile (\<lambda>x. x \<noteq> c) s, post))"

definition new_id :: "nat \<Rightarrow> string \<Rightarrow> string" where
  "new_id day rnd = date_string day @ ''-'' @ rnd"

definition split_id :: "string \<Rightarrow> (string \<times> string) option" where
  "split_id i =
     (case cut_at (CHR ''-'') i of
        None \<Rightarrow> None
      | Some (date, random) \<Rightarrow>
          if length date \<noteq> 8 \<or> random = [] then None
          else if \<not> valid_date date then None
          else if \<not> valid_random_string random 16 then None
          else Some (date, random))"

definition valid_id :: "string \<Rightarrow> bool" where
  "valid_id i \<longleftrightarrow> split_id i \<noteq> None"

definition prefix_for :: "string \<Rightarrow> string option" where
  "prefix_for i = map_option (\<lambda>(date, random). date @ ''/'' @ random @ ''/'') (split_id i)"

definition date_prefix :: "nat \<Rightarrow> string" where
  "date_prefix day = date_string day @ ''/''"

definition meta_key :: "string \<Rightarrow> string option" where
  "meta_key i = map_option (\<lambda>p. p @ ''meta'') (prefix_for i)"

definition chunk_key :: "string \<Rightarrow> nat \<Rightarrow> string option" where
  "chunk_key i seq = map_option (\<lambda>p. p @ padded 9 seq) (prefix_for i)"

definition last_index_cut :: "string \<Rightarrow> string option" where
  "last_index_cut k = (if CHR ''/'' \<in> set k then Some (rev (takeWhile (\<lambda>c. c \<noteq> CHR ''/'') (rev k))) else None)"

definition seq_from_key :: "string \<Rightarrow> nat option" where
  "seq_from_key k =
     (case last_index_cut k of
        None \<Rightarrow> None
      | Some name \<Rightarrow> if length name \<noteq> 9 then None else parse_uint name)"

definition max_seq :: nat where
  "max_seq = 999999999"

lemma cut_at_Some: "cut_at c s = Some (a, b) \<longleftrightarrow> c \<notin> set a \<and> s = a @ c # b"
proof
  assume h: "cut_at c s = Some (a, b)"
  then obtain x where d: "dropWhile (\<lambda>x. x \<noteq> c) s = x # b" and a: "a = takeWhile (\<lambda>x. x \<noteq> c) s"
    unfolding cut_at_def by (auto split: list.splits)
  have "x = c" using hd_dropWhile[of "\<lambda>x. x \<noteq> c" s] d by simp
  then show "c \<notin> set a \<and> s = a @ c # b"
    using d a takeWhile_dropWhile_id[of "\<lambda>x. x \<noteq> c" s] set_takeWhileD[of c "\<lambda>x. x \<noteq> c" s] by auto
next
  assume h: "c \<notin> set a \<and> s = a @ c # b"
  moreover have "c \<notin> set a \<Longrightarrow> dropWhile (\<lambda>x. x \<noteq> c) (a @ c # b) = c # b \<and> takeWhile (\<lambda>x. x \<noteq> c) (a @ c # b) = a"
    by (induction a) auto
  ultimately have "dropWhile (\<lambda>x. x \<noteq> c) s = c # b" "takeWhile (\<lambda>x. x \<noteq> c) s = a" by simp_all
  then show "cut_at c s = Some (a, b)" by (simp add: cut_at_def)
qed

lemma split_id_SomeD:
  assumes "split_id i = Some (date, random)"
  shows "i = date @ ''-'' @ random" "length date = 8" "valid_date date" "valid_random_string random 16" "CHR ''-'' \<notin> set date"
  using assms unfolding split_id_def by (auto simp: cut_at_Some split: option.splits if_split_asm)

lemma prefix_for_inj:
  assumes "prefix_for i = Some p" "prefix_for j = Some p"
  shows "i = j"
proof -
  obtain d r where i: "split_id i = Some (d, r)" "p = d @ ''/'' @ r @ ''/''" using assms(1) by (auto simp: prefix_for_def)
  obtain d' r' where j: "split_id j = Some (d', r')" "p = d' @ ''/'' @ r' @ ''/''" using assms(2) by (auto simp: prefix_for_def)
  have "d = d'" "r @ ''/'' = r' @ ''/''"
    using i j split_id_SomeD(2)[OF i(1)] split_id_SomeD(2)[OF j(1)] by simp_all
  then show "i = j" using split_id_SomeD(1)[OF i(1)] split_id_SomeD(1)[OF j(1)] by simp
qed

lemma digit_key_char: "n < 10 \<Longrightarrow> key_char (digit n) \<and> digit n \<noteq> CHR ''-'' \<and> digit n \<noteq> CHR ''/''"
proof -
  assume n: "n < 10"
  then have c: "of_char (digit n) = (48 + n :: nat)" by simp
  have "digit n \<noteq> CHR ''/''" using c by auto
  then show ?thesis using n digit_not(2)[OF n] unfolding key_char_def c by simp
qed

lemma key_char_not_slash: "key_char c \<Longrightarrow> c \<noteq> CHR ''/''"
  by (auto simp: key_char_def)

lemma padded_key_chars: "c \<in> set (padded w n) \<Longrightarrow> key_char c \<and> c \<noteq> CHR ''-''"
  using padded_chars digit_key_char by metis

lemma date_string_chars: "c \<in> set (date_string day) \<Longrightarrow> key_char c \<and> c \<noteq> CHR ''-''"
  using padded_key_chars unfolding date_string_def by (auto simp: Let_def split: prod.splits)

lemma new_id_split:
  assumes "in_calendar day" "valid_random_string rnd 16"
  shows "split_id (new_id day rnd) = Some (date_string day, rnd)"
proof -
  have "cut_at (CHR ''-'') (new_id day rnd) = Some (date_string day, rnd)"
    using date_string_chars by (auto simp: cut_at_Some new_id_def)
  moreover obtain y d m dd where "civil_year 1970 day = (y, d)" "civil_month y 1 d = (m, dd)" by fastforce
  then have "length (date_string day) = 8" using date_string_parts(1)[OF assms(1)] by blast
  moreover have "rnd \<noteq> []" using valid_random_chars(1)[OF assms(2)] by auto
  ultimately show ?thesis using date_string_valid[OF assms(1)] assms(2) by (simp add: split_id_def)
qed

text \<open>Digits only, as far as a date or a number is parsed.\<close>

lemma digits_value_chars: "digits_value v s = Some n \<Longrightarrow> c \<in> set s \<Longrightarrow> key_char c"
  by (induction v s rule: digits_value.induct) (auto simp: key_char_def split: if_split_asm)

lemma valid_date_chars: "valid_date s \<Longrightarrow> c \<in> set s \<Longrightarrow> key_char c"
proof -
  assume v: "valid_date s" and c: "c \<in> set s"
  have s: "s = take 4 s @ take 2 (drop 4 s) @ drop 6 s"
    using append_take_drop_id[of 4 s] append_take_drop_id[of 2 "drop 4 s"] by simp
  obtain y m d where "digits_value 0 (take 4 s) = Some y" "digits_value 0 (take 2 (drop 4 s)) = Some m"
      "digits_value 0 (drop 6 s) = Some d"
    using v unfolding valid_date_def by (auto split: option.splits)
  moreover have "c \<in> set (take 4 s) \<or> c \<in> set (take 2 (drop 4 s)) \<or> c \<in> set (drop 6 s)"
    using c s by (metis Un_iff set_append)
  ultimately show "key_char c" using digits_value_chars by blast
qed

lemma segments_join:
  assumes "\<forall>c \<in> set a. c \<noteq> CHR ''/''"
  shows "segments (a @ CHR ''/'' # b) = a # segments b" and "segments a = [a]"
  using assms by (induction a) auto

lemma valid_key_3:
  assumes "valid_key_segment a" "valid_key_segment b" "valid_key_segment c"
  shows "valid_key (a @ ''/'' @ b @ ''/'' @ c)"
proof -
  have n: "\<forall>x \<in> set s. x \<noteq> CHR ''/''" if "valid_key_segment s" for s
    using that key_char_not_slash by (auto simp: valid_key_segment_def)
  have "segments (a @ ''/'' @ b @ ''/'' @ c) = [a, b, c]"
    using segments_join[OF n[OF assms(1)]] segments_join[OF n[OF assms(2)]] segments_join(2)[OF n[OF assms(3)]] by simp
  then show ?thesis using assms by (auto simp: valid_key_def valid_key_segment_def)
qed

lemma keys_valid:
  assumes "split_id i = Some (date, random)"
  shows "\<exists>k. meta_key i = Some k \<and> valid_key k" "\<exists>k. chunk_key i seq = Some k \<and> valid_key k"
proof -
  note s = split_id_SomeD[OF assms]
  have d: "valid_key_segment date" using valid_date_chars[OF s(3)] s(2) by (auto simp: valid_key_segment_def)
  have r: "valid_key_segment random" using valid_random_chars[OF s(4)] by (auto simp: valid_key_segment_def)
  have "valid_key_segment ''meta''" by (simp add: valid_key_segment_def key_char_def)
  then show "\<exists>k. meta_key i = Some k \<and> valid_key k"
    using valid_key_3[OF d r] unfolding meta_key_def prefix_for_def assms by simp
  have "padded 9 seq \<noteq> []" by (simp add: padded_def)
  then have "valid_key_segment (padded 9 seq)" using padded_key_chars by (auto simp: valid_key_segment_def)
  then show "\<exists>k. chunk_key i seq = Some k \<and> valid_key k"
    using valid_key_3[OF d r] unfolding chunk_key_def prefix_for_def assms by simp
qed

lemma last_index_cut_snoc: "\<forall>c \<in> set b. c \<noteq> CHR ''/'' \<Longrightarrow> last_index_cut (a @ CHR ''/'' # b) = Some b"
proof -
  assume "\<forall>c \<in> set b. c \<noteq> CHR ''/''"
  then have "takeWhile (\<lambda>c. c \<noteq> CHR ''/'') (rev b @ CHR ''/'' # rev a) = rev b" by (subst takeWhile_append2) auto
  then show ?thesis by (simp add: last_index_cut_def)
qed

lemma seq_from_key_prefix:
  assumes "prefix_for i = Some p" "\<forall>c \<in> set name. c \<noteq> CHR ''/''"
  shows "seq_from_key (p @ name) = (if length name = 9 then parse_uint name else None)"
proof -
  obtain d r where "p = (d @ ''/'' @ r) @ CHR ''/'' # []" using assms(1) by (auto simp: prefix_for_def)
  then have "last_index_cut (p @ name) = Some name" using last_index_cut_snoc[OF assms(2), of "d @ ''/'' @ r"] by simp
  then show ?thesis by (simp add: seq_from_key_def)
qed

lemma seq_from_chunk_key:
  assumes "chunk_key i seq = Some k" "seq \<le> max_seq"
  shows "seq_from_key k = Some seq"
proof -
  obtain p where p: "prefix_for i = Some p" "k = p @ padded 9 seq" using assms(1) by (auto simp: chunk_key_def)
  have "\<forall>c \<in> set (padded 9 seq). c \<noteq> CHR ''/''" using padded_key_chars key_char_not_slash by blast
  moreover have "seq < 10 ^ 9" "seq < 2 ^ 64" using assms(2) by (simp_all add: max_seq_def)
  ultimately show ?thesis using seq_from_key_prefix[OF p(1)] p(2) length_padded parse_uint_padded by simp
qed

lemma seq_from_meta_key: "meta_key i = Some k \<Longrightarrow> seq_from_key k = None"
proof -
  assume "meta_key i = Some k"
  then obtain p where "prefix_for i = Some p" "k = p @ ''meta''" by (auto simp: meta_key_def)
  then show ?thesis using seq_from_key_prefix[of i p "''meta''"] by simp
qed

text \<open>
  C38: ids from a URL cannot leave their share. An id that is accepted leads to valid keys only (no
  empty or dotted segment), two ids never share a prefix, and the key of a chunk gives back its
  sequence number while the key of the metadata is no chunk.
\<close>

theorem share_keys_are_sound:
  assumes "valid_id i"
  shows "(\<exists>k. meta_key i = Some k \<and> valid_key k \<and> seq_from_key k = None) \<and>
    (\<forall>seq \<le> max_seq. \<exists>k. chunk_key i seq = Some k \<and> valid_key k \<and> seq_from_key k = Some seq) \<and>
    (\<forall>j. prefix_for j = prefix_for i \<longrightarrow> j = i)"
proof -
  obtain date random where s: "split_id i = Some (date, random)" using assms by (auto simp: valid_id_def)
  then obtain p where p: "prefix_for i = Some p" by (simp add: prefix_for_def)
  then have "\<forall>j. prefix_for j = prefix_for i \<longrightarrow> j = i" using prefix_for_inj by metis
  moreover obtain k where "meta_key i = Some k" "valid_key k" using keys_valid(1)[OF s] by blast
  moreover have "\<exists>k. chunk_key i seq = Some k \<and> valid_key k \<and> seq_from_key k = Some seq" if "seq \<le> max_seq" for seq
    using keys_valid(2)[OF s, of seq] seq_from_chunk_key that by blast
  ultimately show ?thesis using seq_from_meta_key by blast
qed

lemma sample_share_id: "valid_id ''20260813-AAAAAAAAAAAAAAAAAAAAAA''"
  by code_simp

lemma share_keys_are_sound_witness:
  "\<exists>k. chunk_key ''20260813-AAAAAAAAAAAAAAAAAAAAAA'' 7 = Some k \<and> valid_key k \<and> seq_from_key k = Some 7"
  using share_keys_are_sound[OF sample_share_id] by (simp add: max_seq_def)

end
