(* ===== verification/Relay_Shares.thy ===== *)
theory Relay_Shares
  imports Relay_Ids
begin

text \<open>
  The share relay (\<open>internal/relay/server.go\<close>, \<open>meta.go\<close>, \<open>sweep.go\<close>): configuration, metadata,
  and the handlers of shares. A request that works outside the mutation lock first and inside it
  later is two steps, so that other requests may come between. Hashing of tokens is a parameter,
  as is what the random source yields; whether the rate limiter lets a request through is an
  argument. Times count nanoseconds since 1970.
\<close>

section \<open>Configuration\<close>

record relay_config =
  rc_max_chunk_bytes :: int
  rc_max_chunks :: int
  rc_max_share_bytes :: int
  rc_ttl :: int
  rc_enrollment :: string
  rc_max_body :: int
  rc_max_headers :: int
  rc_max_pending_bytes :: int
  rc_max_pending :: int
  rc_inbox_ttl :: int
  rc_delivery_ttl :: int
  rc_secret_header :: string

definition or_default :: "int \<Rightarrow> int \<Rightarrow> int" where
  "or_default v d = (if v \<le> 0 then d else v)"

definition second :: int where
  "second = 1000000000"

definition day_length :: int where
  "day_length = 86400 * second"

text \<open>\<open>New\<close>: the limits in force, or no server.\<close>

definition new_server :: "relay_config \<Rightarrow> relay_config option" where
  "new_server c =
     (let c' = \<lparr>rc_max_chunk_bytes = or_default (rc_max_chunk_bytes c) (2 ^ 20),
                rc_max_chunks = or_default (rc_max_chunks c) 4096,
                rc_max_share_bytes = or_default (rc_max_share_bytes c) (32 * 2 ^ 20),
                rc_ttl = or_default (rc_ttl c) (30 * day_length),
                rc_enrollment = rc_enrollment c,
                rc_max_body = or_default (rc_max_body c) (2 ^ 20),
                rc_max_headers = or_default (rc_max_headers c) (16 * 2 ^ 10),
                rc_max_pending_bytes = or_default (rc_max_pending_bytes c) (32 * 2 ^ 20),
                rc_max_pending = or_default (rc_max_pending c) 4096,
                rc_inbox_ttl = or_default (rc_inbox_ttl c) (30 * day_length),
                rc_delivery_ttl = or_default (rc_delivery_ttl c) (2 * day_length),
                rc_secret_header = (if rc_secret_header c = [] then ''X-Webhook-Secret'' else rc_secret_header c)\<rparr>
      in if rc_max_chunks c' > int max_seq + 1 then None else Some c')"

section \<open>State\<close>

text \<open>The JSON of metadata and the decimal text of a time are kept as the values they encode.\<close>

record share_meta =
  sm_version :: int
  sm_delete_hash :: string
  sm_created :: int

record inbox_meta =
  im_version :: int
  im_recipient :: string
  im_key_version :: int
  im_ingest_hash :: string
  im_management_hash :: string
  im_fetch_hash :: string
  im_ack_hash :: string
  im_created :: int
  im_polled :: int
  im_secret_hash :: string
  im_secret_header :: string
  im_recipients :: "(int \<rightharpoonup> string) option"

datatype blob = Bytes string | Share_Meta share_meta | Inbox_Meta inbox_meta | Stamp int

text \<open>Sizes and contents are only ever read of chunks and deliveries.\<close>

fun blob_text :: "blob \<Rightarrow> string" where
  "blob_text (Bytes b) = b"
| "blob_text _ = []"

definition blob_size :: "blob \<Rightarrow> int" where
  "blob_size b = int (length (blob_text b))"

type_synonym objects = "blob store"

datatype reply =
  Status nat
| ShareCreated string string int
| ShareChunks "(nat \<times> string) list" int
| InboxRegistered string string string string string string
| InboxInfo string string int
| KeyVersion int
| SecretHeader string
| DeliveryPage "string list" string
| Ciphertext string
| Ingested string

definition milli :: "int \<Rightarrow> int" where
  "milli now = now div 1000000"

definition day_of :: "int \<Rightarrow> nat" where
  "day_of t = nat (t div day_length)"

section \<open>Metadata and credentials\<close>

definition authorises :: "(string \<Rightarrow> string) \<Rightarrow> string \<Rightarrow> string \<Rightarrow> bool" where
  "authorises hash stored token \<longleftrightarrow> token \<noteq> [] \<and> stored \<noteq> [] \<and> hash token = stored"

definition ascii_lower :: "string \<Rightarrow> string" where
  "ascii_lower = map (\<lambda>c. let n = of_char c :: nat in if 65 \<le> n \<and> n \<le> 90 then char_of (n + 32) else c)"

definition bearer_token :: "string \<Rightarrow> string" where
  "bearer_token v =
     (if length v \<le> 7 \<or> ascii_lower (take 7 v) \<noteq> ''bearer '' then [] else drop 7 v)"

definition put_meta :: "string \<Rightarrow> share_meta \<Rightarrow> objects \<Rightarrow> store_error + objects" where
  "put_meta i m st = (case meta_key i of None \<Rightarrow> Inl StoreFault | Some k \<Rightarrow> store_put k (Share_Meta m) st)"

definition get_meta :: "string \<Rightarrow> objects \<Rightarrow> store_error + share_meta option" where
  "get_meta i st =
     (case meta_key i of
        None \<Rightarrow> Inr None
      | Some k \<Rightarrow>
          (case store_get st k of
             Inl NotFound \<Rightarrow> Inr None
           | Inl e \<Rightarrow> Inl e
           | Inr (Share_Meta m) \<Rightarrow> Inr (Some m)
           | Inr b \<Rightarrow> Inl StoreFault))"

text \<open>\<open>authorise\<close>: the metadata of the share, or the status of the reply.\<close>

definition authorise :: "(string \<Rightarrow> string) \<Rightarrow> string \<Rightarrow> string \<Rightarrow> objects \<Rightarrow> nat + share_meta" where
  "authorise hash i auth st =
     (if \<not> valid_id i then Inl 404
      else case get_meta i st of
        Inl e \<Rightarrow> Inl 500
      | Inr None \<Rightarrow> Inl 404
      | Inr (Some m) \<Rightarrow> if authorises hash (sm_delete_hash m) (bearer_token auth) then Inr m else Inl 404)"

section \<open>Handlers\<close>

definition handle_create ::
  "(string \<Rightarrow> string) \<Rightarrow> relay_config \<Rightarrow> bool \<Rightarrow> int \<Rightarrow> string \<Rightarrow> string \<Rightarrow> objects \<Rightarrow> reply \<times> objects"
where
  "handle_create hash c allowed now rnd token st =
     (if \<not> allowed then (Status 429, st)
      else let i = new_id (day_of now) rnd;
               m = \<lparr>sm_version = 1, sm_delete_hash = hash token, sm_created = milli now\<rparr>
           in case put_meta i m st of
                Inl e \<Rightarrow> (Status 500, st)
              | Inr st' \<Rightarrow> (ShareCreated i token (milli (now + rc_ttl c)), st'))"

text \<open>An append that has been authorised and read, before it takes the lock.\<close>

record pending_append =
  pa_id :: string
  pa_seq :: nat
  pa_body :: string

definition append_begin ::
  "(string \<Rightarrow> string) \<Rightarrow> relay_config \<Rightarrow> string \<Rightarrow> string \<Rightarrow> string \<Rightarrow> string option \<Rightarrow> objects \<Rightarrow> nat + pending_append"
where
  "append_begin hash c i auth seq_text body st =
     (case authorise hash i auth st of
        Inl status \<Rightarrow> Inl status
      | Inr m \<Rightarrow>
          (case parse_uint seq_text of
             None \<Rightarrow> Inl 400
           | Some seq \<Rightarrow>
               if seq > max_seq \<or> int seq \<ge> rc_max_chunks c then Inl 400
               else case body of
                 None \<Rightarrow> Inl 413
               | Some b \<Rightarrow> if int (length b) > rc_max_chunk_bytes c then Inl 413
                           else Inr \<lparr>pa_id = i, pa_seq = seq, pa_body = b\<rparr>))"

definition chunk_objects :: "(string \<times> blob) list \<Rightarrow> (string \<times> blob) list" where
  "chunk_objects objs = filter (\<lambda>o'. seq_from_key (fst o') \<noteq> None) objs"

definition append_commit :: "relay_config \<Rightarrow> pending_append \<Rightarrow> objects \<Rightarrow> reply \<times> objects" where
  "append_commit c a st =
     (case (prefix_for (pa_id a), chunk_key (pa_id a) (pa_seq a)) of
        (Some p, Some key) \<Rightarrow>
          (case store_list p st of
             Inl e \<Rightarrow> (Status 500, st)
           | Inr objs \<Rightarrow>
               let chunks = chunk_objects objs;
                   total = (\<Sum>o' \<leftarrow> chunks. blob_size (snd o'));
                   same = filter (\<lambda>o'. fst o' = key) chunks;
                   replace = (\<Sum>o' \<leftarrow> same. blob_size (snd o'))
               in if same = [] \<and> int (length chunks) \<ge> rc_max_chunks c then (Status 413, st)
                  else if total - replace + int (length (pa_body a)) > rc_max_share_bytes c then (Status 413, st)
                  else case store_put key (Bytes (pa_body a)) st of
                    Inl e \<Rightarrow> (Status 500, st)
                  | Inr st' \<Rightarrow> (Status 204, st'))
      | _ \<Rightarrow> (Status 500, st))"

fun read_chunks :: "objects \<Rightarrow> string \<Rightarrow> nat list \<Rightarrow> (nat \<times> string) list \<Rightarrow> int \<Rightarrow> reply" where
  "read_chunks st i [] cs last_seq = ShareChunks cs last_seq"
| "read_chunks st i (seq # seqs) cs last_seq =
     (case chunk_key i seq of
        None \<Rightarrow> Status 500
      | Some k \<Rightarrow>
          (case store_get st k of
             Inl NotFound \<Rightarrow> ShareChunks cs last_seq
           | Inl e \<Rightarrow> Status 500
           | Inr b \<Rightarrow> read_chunks st i seqs (cs @ [(seq, blob_text b)]) (int seq)))"

text \<open>The listing and the reads may see different states; the data of a chunk is sent in base64.\<close>

definition handle_read :: "string \<Rightarrow> string \<Rightarrow> objects \<Rightarrow> objects \<Rightarrow> reply" where
  "handle_read i from_text st st' =
     (if \<not> valid_id i then Status 404
      else case get_meta i st of
        Inl e \<Rightarrow> Status 500
      | Inr None \<Rightarrow> Status 404
      | Inr (Some m) \<Rightarrow>
          (case (if from_text = [] then Some 0 else parse_uint from_text) of
             None \<Rightarrow> Status 400
           | Some from \<Rightarrow>
               (case prefix_for i of
                  None \<Rightarrow> Status 500
                | Some p \<Rightarrow>
                    (case store_list p st of
                       Inl e \<Rightarrow> Status 500
                     | Inr objs \<Rightarrow>
                         read_chunks st' i
                           (sort (filter (\<lambda>s. from \<le> s) (List.map_filter (\<lambda>o'. seq_from_key (fst o')) objs))) [] (-1)))))"

definition handle_delete :: "(string \<Rightarrow> string) \<Rightarrow> string \<Rightarrow> string \<Rightarrow> objects \<Rightarrow> reply \<times> objects" where
  "handle_delete hash i auth st =
     (case authorise hash i auth st of
        Inl status \<Rightarrow> (Status status, st)
      | Inr m \<Rightarrow>
          (case prefix_for i of
             None \<Rightarrow> (Status 500, st)
           | Some p \<Rightarrow>
               (case store_delete_prefix p st of
                  Inl e \<Rightarrow> (Status 500, st)
                | Inr st' \<Rightarrow> (Status 204, st'))))"

text \<open>One day of the expiry sweep (a day before 1970 has no shares); it stops at an error.\<close>

definition sweep_day :: "relay_config \<Rightarrow> int \<Rightarrow> nat \<Rightarrow> objects \<Rightarrow> store_error + objects" where
  "sweep_day c now k st =
     (let day = (now - rc_ttl c) div day_length - int k - 1
      in if day < 0 then Inr st else store_delete_prefix (date_prefix (nat day)) st)"

fun sweep_days :: "relay_config \<Rightarrow> int \<Rightarrow> nat list \<Rightarrow> objects \<Rightarrow> store_error + objects" where
  "sweep_days c now [] st = Inr st"
| "sweep_days c now (k # ks) st =
     (case sweep_day c now k st of Inl e \<Rightarrow> Inl e | Inr st' \<Rightarrow> sweep_days c now ks st')"

definition sweep_shares :: "relay_config \<Rightarrow> int \<Rightarrow> objects \<Rightarrow> store_error + objects" where
  "sweep_shares c now st = sweep_days c now [0..<90] st"

section \<open>The chunks of a share\<close>

definition chunks_of :: "string \<Rightarrow> objects \<Rightarrow> (string \<times> blob) set" where
  "chunks_of i st =
     (case prefix_for i of
        None \<Rightarrow> {}
      | Some p \<Rightarrow> {o' \<in> disk.objects p st. seq_from_key (fst o') \<noteq> None})"

lemma has_prefix_append: "has_prefix k (a @ b) \<Longrightarrow> has_prefix k a"
  unfolding has_prefix_iff by auto

lemma has_prefix_same_length:
  assumes "has_prefix k a" "has_prefix k b" "length a = length b"
  shows "a = b"
  using assms unfolding has_prefix_def by metis

lemma prefix_for_shape:
  assumes "prefix_for i = Some p"
  obtains d r where "p = d @ ''/'' @ r @ ''/''" "length d = 8" "length r = 22" "valid_date d" "trim_slash p = d @ ''/'' @ r"
    "\<forall>c \<in> set r. key_char c" "split_id i = Some (d, r)"
proof -
  obtain d r where s: "split_id i = Some (d, r)" and p: "p = d @ ''/'' @ r @ ''/''" using assms by (auto simp: prefix_for_def)
  have "trim_slash p = d @ ''/'' @ r" unfolding p trim_slash_def by (simp add: butlast_append)
  then show ?thesis using that s p split_id_SomeD[OF s] valid_random_chars by metis
qed

lemma length_prefix_for: "prefix_for i = Some p \<Longrightarrow> length p = 32"
  by (erule prefix_for_shape) simp

lemma under_prefix_for:
  assumes "prefix_for i = Some p"
  shows "under p k \<longleftrightarrow> k = trim_slash p \<or> has_prefix k p"
proof -
  obtain d r where "p = d @ ''/'' @ r @ ''/''" "trim_slash p = d @ ''/'' @ r" by (rule prefix_for_shape[OF assms])
  then show ?thesis by (simp add: under_def)
qed

text \<open>A chunk's key starts with the prefix, so it belongs to one share.\<close>

lemma chunk_has_prefix:
  assumes "prefix_for i = Some p" "under p k" "seq_from_key k \<noteq> None"
  shows "has_prefix k p"
proof (rule ccontr)
  assume "\<not> has_prefix k p"
  then have k: "k = trim_slash p" using assms(1,2) under_prefix_for by blast
  obtain d r where p: "trim_slash p = d @ ''/'' @ r" "length r = 22" "\<forall>c \<in> set r. key_char c"
    by (rule prefix_for_shape[OF assms(1)])
  have "\<forall>c \<in> set r. c \<noteq> CHR ''/''" using p(3) key_char_not_slash by blast
  then have "last_index_cut k = Some r" using last_index_cut_snoc[of r d] p(1) k by simp
  then show False using assms(3) p(2) by (simp add: seq_from_key_def)
qed

lemma chunk_of_one_share:
  assumes "prefix_for i = Some p" "prefix_for j = Some q" "has_prefix k p" "under q k" "seq_from_key k \<noteq> None"
  shows "i = j"
proof -
  have "has_prefix k q" using chunk_has_prefix assms by blast
  then have "p = q" using has_prefix_same_length assms(3) length_prefix_for[OF assms(1)] length_prefix_for[OF assms(2)] by metis
  then show ?thesis using prefix_for_inj assms(1,2) by blast
qed

lemma chunk_key_parts:
  assumes "chunk_key i seq = Some k" "seq \<le> max_seq"
  obtains p where "prefix_for i = Some p" "has_prefix k p" "under p k" "seq_from_key k = Some seq"
proof -
  obtain p where p: "prefix_for i = Some p" "k = p @ padded 9 seq" using assms(1) by (auto simp: chunk_key_def)
  have "has_prefix k p" unfolding p(2) has_prefix_iff by blast
  then show ?thesis using that p(1) under_prefix_for[OF p(1)] seq_from_chunk_key[OF assms] by blast
qed

text \<open>What an append that is stored does.\<close>

lemma append_commit_cases:
  assumes ok: "store_ok st" and c: "append_commit c a st = (rep, st')"
  obtains (refused) "st' = st" "\<exists>n. rep = Status n \<and> n \<noteq> 204"
  | (stored) key where "chunk_key (pa_id a) (pa_seq a) = Some key" "rep = Status 204"
      "store_put key (Bytes (pa_body a)) st = Inr st'"
      "int (card (chunks_of (pa_id a) st)) < rc_max_chunks c \<or> (\<exists>d. (key, d) \<in> chunks_of (pa_id a) st)"
      "(\<Sum>o' \<in> {o' \<in> chunks_of (pa_id a) st. fst o' \<noteq> key}. blob_size (snd o')) + int (length (pa_body a)) \<le> rc_max_share_bytes c"
proof (cases "prefix_for (pa_id a)")
  case None
  then have "append_commit c a st = (Status 500, st)" by (simp add: append_commit_def)
  then show ?thesis using c refused by simp
next
  case (Some p)
  then obtain key where key: "chunk_key (pa_id a) (pa_seq a) = Some key" by (simp add: chunk_key_def)
  show ?thesis
  proof (cases "store_list p st")
    case (Inl e)
    then have "append_commit c a st = (Status 500, st)" by (simp add: append_commit_def Some key)
    then show ?thesis using c refused by simp
  next
    case (Inr objs)
    define chunks where "chunks = chunk_objects objs"
    define same where "same = filter (\<lambda>o'. fst o' = key) chunks"
    have C: "chunks_of (pa_id a) st = {o' \<in> disk.objects p st. seq_from_key (fst o') \<noteq> None}"
      by (simp add: chunks_of_def Some)
    note lf = disk.list_filter[OF ok Inr]
    have fin: "finite (disk.objects p st)" by (rule disk.list_sum(2)[OF ok Inr])
    have total: "(\<Sum>o' \<leftarrow> chunks. blob_size (snd o')) = (\<Sum>o' \<in> chunks_of (pa_id a) st. blob_size (snd o'))"
      unfolding chunks_def chunk_objects_def C by (rule lf(1))
    have same': "same = filter (\<lambda>o'. fst o' = key \<and> seq_from_key (fst o') \<noteq> None) objs"
      unfolding same_def chunks_def chunk_objects_def filter_filter by (rule filter_cong) auto
    have replace: "(\<Sum>o' \<leftarrow> same. blob_size (snd o')) = (\<Sum>o' \<in> {o' \<in> chunks_of (pa_id a) st. fst o' = key}. blob_size (snd o'))"
      unfolding same' lf(1) C by (rule sum.cong) auto
    have len: "length chunks = card (chunks_of (pa_id a) st)"
      unfolding chunks_def chunk_objects_def C by (rule lf(2))
    have empty: "same = [] \<longleftrightarrow> \<not> (\<exists>d. (key, d) \<in> chunks_of (pa_id a) st)"
      unfolding same' lf(3) C by force
    have split: "(\<Sum>o' \<in> chunks_of (pa_id a) st. blob_size (snd o')) =
        (\<Sum>o' \<in> {o' \<in> chunks_of (pa_id a) st. fst o' = key}. blob_size (snd o')) +
        (\<Sum>o' \<in> {o' \<in> chunks_of (pa_id a) st. fst o' \<noteq> key}. blob_size (snd o'))"
      using fin by (subst sum.union_disjoint[symmetric]) (auto simp: C intro!: sum.cong)
    have run: "append_commit c a st =
      (if same = [] \<and> int (length chunks) \<ge> rc_max_chunks c then (Status 413, st)
       else if (\<Sum>o' \<leftarrow> chunks. blob_size (snd o')) - (\<Sum>o' \<leftarrow> same. blob_size (snd o')) + int (length (pa_body a)) > rc_max_share_bytes c
       then (Status 413, st)
       else case store_put key (Bytes (pa_body a)) st of Inl e \<Rightarrow> (Status 500, st) | Inr st' \<Rightarrow> (Status 204, st'))"
      unfolding append_commit_def Some key option.case prod.case Inr sum.case Let_def chunks_def same_def ..
    show ?thesis
    proof (cases "st' = st \<and> (\<exists>n. rep = Status n \<and> n \<noteq> 204)")
      case True
      then show ?thesis using refused by blast
    next
      case False
      then have q: "\<not> (same = [] \<and> int (length chunks) \<ge> rc_max_chunks c)"
          "\<not> (\<Sum>o' \<leftarrow> chunks. blob_size (snd o')) - (\<Sum>o' \<leftarrow> same. blob_size (snd o')) + int (length (pa_body a)) > rc_max_share_bytes c"
        using c unfolding run by (auto split: if_split_asm)
      then obtain "rep = Status 204" "store_put key (Bytes (pa_body a)) st = Inr st'"
        using c False unfolding run if_not_P[OF q(1)] if_not_P[OF q(2)] by (cases "store_put key (Bytes (pa_body a)) st") auto
      moreover have "int (card (chunks_of (pa_id a) st)) < rc_max_chunks c \<or> (\<exists>d. (key, d) \<in> chunks_of (pa_id a) st)"
        using q(1) unfolding empty len by auto
      moreover have "(\<Sum>o' \<in> {o' \<in> chunks_of (pa_id a) st. fst o' \<noteq> key}. blob_size (snd o')) + int (length (pa_body a)) \<le> rc_max_share_bytes c"
        using q(2) unfolding total replace split by linarith
      ultimately show ?thesis using stored key by blast
    qed
  qed
qed

section \<open>Limits\<close>

definition share_ok :: "relay_config \<Rightarrow> string \<Rightarrow> objects \<Rightarrow> bool" where
  "share_ok c i st \<longleftrightarrow>
     int (card (chunks_of i st)) \<le> rc_max_chunks c \<and>
     (\<Sum>o' \<in> chunks_of i st. blob_size (snd o')) \<le> rc_max_share_bytes c \<and>
     (\<forall>(k, d) \<in> chunks_of i st. \<exists>seq b. chunk_key i seq = Some k \<and> seq \<le> max_seq \<and> int seq < rc_max_chunks c \<and>
        d = Bytes b \<and> int (length b) \<le> rc_max_chunk_bytes c)"

definition limits_ok :: "relay_config \<Rightarrow> bool" where
  "limits_ok c \<longleftrightarrow> 0 < rc_max_chunks c \<and> rc_max_chunks c \<le> int max_seq + 1 \<and> 0 < rc_max_chunk_bytes c \<and>
     0 < rc_max_share_bytes c \<and> 0 < rc_ttl c \<and> 0 < rc_max_body c \<and> 0 < rc_max_headers c \<and>
     0 < rc_max_pending_bytes c \<and> 0 < rc_max_pending c \<and> 0 < rc_inbox_ttl c \<and> 0 < rc_delivery_ttl c \<and>
     rc_secret_header c \<noteq> []"

lemma new_server_limits: "new_server c = Some c' \<Longrightarrow> limits_ok c'"
proof -
  assume n: "new_server c = Some c'"
  have p: "0 < d \<Longrightarrow> 0 < or_default v d" for v d by (simp add: or_default_def)
  have d: "0 < day_length" by (simp add: day_length_def second_def)
  have "rc_max_chunks c' \<le> int max_seq + 1" using n unfolding new_server_def Let_def by (auto split: if_split_asm)
  moreover have "0 < rc_max_chunks c'" "0 < rc_max_chunk_bytes c'" "0 < rc_max_share_bytes c'" "0 < rc_ttl c'"
      "0 < rc_max_body c'" "0 < rc_max_headers c'" "0 < rc_max_pending_bytes c'" "0 < rc_max_pending c'"
      "0 < rc_inbox_ttl c'" "0 < rc_delivery_ttl c'" "rc_secret_header c' \<noteq> []"
    using n d unfolding new_server_def Let_def by (auto split: if_split_asm intro!: p)
  ultimately show ?thesis by (simp add: limits_ok_def)
qed

definition append_ok :: "relay_config \<Rightarrow> pending_append \<Rightarrow> bool" where
  "append_ok c a \<longleftrightarrow> pa_seq a \<le> max_seq \<and> int (pa_seq a) < rc_max_chunks c \<and> int (length (pa_body a)) \<le> rc_max_chunk_bytes c"

lemma append_begin_ok: "append_begin hash c i auth sq body st = Inr a \<Longrightarrow> append_ok c a \<and> pa_id a = i"
  unfolding append_begin_def append_ok_def by (auto split: sum.splits option.splits if_split_asm)

lemma finite_chunks: "store_ok st \<Longrightarrow> finite (chunks_of i st)"
proof (cases "prefix_for i")
  case (Some p)
  assume ok: "store_ok st"
  have "disk.objects p st \<subseteq> set st" using store_get_Inr[OF ok] by (auto simp: disk.objects_def)
  then show ?thesis using finite_subset[OF _ List.finite_set[of st]] by (auto simp: chunks_of_def Some)
qed (simp add: chunks_of_def)

text \<open>Storing a chunk changes the chunks of its share only.\<close>

lemma chunks_after_put:
  assumes ok: "store_ok st" and k: "chunk_key i seq = Some key" "seq \<le> max_seq" and put: "store_put key d st = Inr st'"
  shows "chunks_of i st' = insert (key, d) {o' \<in> chunks_of i st. fst o' \<noteq> key}"
    "j \<noteq> i \<Longrightarrow> chunks_of j st' = chunks_of j st"
proof -
  obtain p where p: "prefix_for i = Some p" "has_prefix key p" "under p key" "seq_from_key key = Some seq"
    by (rule chunk_key_parts[OF k])
  show "chunks_of i st' = insert (key, d) {o' \<in> chunks_of i st. fst o' \<noteq> key}"
    unfolding chunks_of_def p(1) option.case disk.objects_put[OF ok put p(3)] using p(4) by auto
  assume "j \<noteq> i"
  show "chunks_of j st' = chunks_of j st"
  proof (cases "prefix_for j")
    case (Some q)
    have "\<not> under q key" using chunk_of_one_share[OF p(1) Some p(2)] p(4) \<open>j \<noteq> i\<close> by auto
    then show ?thesis unfolding chunks_of_def Some option.case by (simp add: disk.objects_put_other[OF ok put])
  qed (simp add: chunks_of_def)
qed

lemma append_commit_limits:
  assumes ok: "store_ok st" and s: "\<forall>i. share_ok c i st" and a: "append_ok c a"
    and c: "append_commit c a st = (rep, st')"
  shows "store_ok st'" "share_ok c i st'"
proof -
  have "store_ok st' \<and> share_ok c i st'"
    using ok c
  proof (cases rule: append_commit_cases)
    case refused
    then show ?thesis using ok s by simp
  next
    case (stored key)
    let ?i = "pa_id a" and ?old = "{o' \<in> chunks_of (pa_id a) st. fst o' \<noteq> key}"
    have seq: "pa_seq a \<le> max_seq" using a by (simp add: append_ok_def)
    note put = chunks_after_put[OF ok stored(1) seq stored(3)]
    have fin: "finite (chunks_of ?i st)" by (rule finite_chunks[OF ok])
    have "share_ok c ?i st'"
    proof -
      have card: "int (card (chunks_of ?i st')) \<le> rc_max_chunks c"
      proof (cases "\<exists>d. (key, d) \<in> chunks_of ?i st")
        case True
        then obtain d where d: "(key, d) \<in> chunks_of ?i st" by blast
        then have "?old \<subseteq> chunks_of ?i st - {(key, d)}" by auto
        then have "card ?old \<le> card (chunks_of ?i st) - 1"
          using card_mono[OF _ \<open>?old \<subseteq> chunks_of ?i st - {(key, d)}\<close>] fin d by (simp add: card_Diff_singleton)
        moreover have "0 < card (chunks_of ?i st)" using d fin card_gt_0_iff by blast
        moreover have "card (chunks_of ?i st') \<le> Suc (card ?old)" unfolding put(1) by (rule card_insert_le_m1) auto
        ultimately have "card (chunks_of ?i st') \<le> card (chunks_of ?i st)" by linarith
        then show ?thesis using s unfolding share_ok_def by (meson of_nat_mono order_trans)
      next
        case False
        then have "int (card (chunks_of ?i st)) < rc_max_chunks c" using stored(4) by blast
        moreover have "card ?old \<le> card (chunks_of ?i st)" by (rule card_mono[OF fin]) auto
        moreover have "card (chunks_of ?i st') \<le> Suc (card ?old)" unfolding put(1) by (rule card_insert_le_m1) auto
        ultimately show ?thesis by linarith
      qed
      have "(\<Sum>o' \<in> chunks_of ?i st'. blob_size (snd o')) = (\<Sum>o' \<in> ?old. blob_size (snd o')) + int (length (pa_body a))"
        unfolding put(1) using fin by (subst sum.insert) (auto simp: blob_size_def)
      then have bytes: "(\<Sum>o' \<in> chunks_of ?i st'. blob_size (snd o')) \<le> rc_max_share_bytes c" using stored(5) by simp
      have "\<exists>seq b. chunk_key ?i seq = Some k \<and> seq \<le> max_seq \<and> int seq < rc_max_chunks c \<and>
          d = Bytes b \<and> int (length b) \<le> rc_max_chunk_bytes c" if "(k, d) \<in> chunks_of ?i st'" for k d
      proof (cases "k = key \<and> d = Bytes (pa_body a)")
        case True
        then show ?thesis using a stored(1) unfolding append_ok_def by blast
      next
        case False
        then have "(k, d) \<in> chunks_of ?i st" using that unfolding put(1) by auto
        then show ?thesis using s unfolding share_ok_def by blast
      qed
      then show ?thesis using card bytes unfolding share_ok_def by blast
    qed
    then have own: "i = ?i \<Longrightarrow> share_ok c i st'" by (simp only:)
    have other: "share_ok c i st'" if "i \<noteq> ?i"
      using spec[OF s, of i] unfolding share_ok_def put(2)[OF that] .
    have "share_ok c i st'" using own other by (cases "i = ?i") blast+
    then show ?thesis using store_put_ok[OF ok stored(3)] by (rule conjI[rotated])
  qed
  then show "store_ok st'" "share_ok c i st'" by blast+
qed

text \<open>Deleting only takes chunks away.\<close>

lemma share_ok_subset:
  assumes "share_ok c i st" "chunks_of i st' \<subseteq> chunks_of i st" "finite (chunks_of i st)"
  shows "share_ok c i st'"
proof -
  have "card (chunks_of i st') \<le> card (chunks_of i st)" by (rule card_mono[OF assms(3,2)])
  moreover have "(\<Sum>o' \<in> chunks_of i st'. blob_size (snd o')) \<le> (\<Sum>o' \<in> chunks_of i st. blob_size (snd o'))"
    by (rule sum_mono2[OF assms(3,2)]) (simp add: blob_size_def)
  ultimately show ?thesis using assms(1,2) unfolding share_ok_def by (meson of_nat_mono order_trans subsetD)
qed

lemma chunks_after_delete:
  assumes "store_ok st" "store_delete_prefix p st = Inr st'"
  shows "chunks_of i st' \<subseteq> chunks_of i st"
  unfolding chunks_of_def by (auto simp: disk.objects_delete[OF assms] split: option.splits)

section \<open>Reading\<close>

lemma trim_slash_key: "valid_key k \<Longrightarrow> trim_slash k = k"
proof -
  assume v: "valid_key k"
  have "segments (a @ ''/'') = segments a @ [[]]" for a
  proof (induction a)
    case (Cons c a)
    show ?case
    proof (cases "segments a")
      case Nil
      have "segments x \<noteq> []" for x by (induction x) (auto split: list.splits)
      then show ?thesis using Nil by blast
    qed (use Cons in simp)
  qed simp
  then have "[] \<in> set (segments (a @ ''/''))" for a by simp
  moreover have "k = butlast k @ ''/''" if "k \<noteq> []" "last k = CHR ''/''"
    using append_butlast_last_id[OF that(1)] that(2) by simp
  moreover have "[] \<notin> set (segments k)" using v by (auto simp: valid_key_def valid_key_segment_def)
  ultimately have "\<not> (k \<noteq> [] \<and> last k = CHR ''/'')" by metis
  then show ?thesis by (simp only: trim_slash_def if_False)
qed

lemma valid_prefix_for: "prefix_for i = Some p \<Longrightarrow> valid_prefix p"
proof -
  assume "prefix_for i = Some p"
  then obtain d r where t: "trim_slash p = d @ ''/'' @ r" and s: "split_id i = Some (d, r)" by (rule prefix_for_shape)
  note h = split_id_SomeD[OF s]
  have v: "valid_key_segment d" "valid_key_segment r"
    using valid_date_chars[OF h(3)] h(2) valid_random_chars[OF h(4)] by (auto simp: valid_key_segment_def)
  then have "\<forall>x \<in> set d. x \<noteq> CHR ''/''" "\<forall>x \<in> set r. x \<noteq> CHR ''/''"
    using key_char_not_slash by (auto simp: valid_key_segment_def)
  then have "segments (d @ ''/'' @ r) = [d, r]"
    using segments_join(1)[of d r] segments_join(2)[of r] by simp
  then show ?thesis using t v by (simp add: valid_prefix_def valid_key_def valid_key_segment_def)
qed

text \<open>The chunk at a sequence number.\<close>

definition chunk_at :: "string \<Rightarrow> objects \<Rightarrow> nat \<Rightarrow> string option" where
  "chunk_at i st seq =
     (case chunk_key i seq of
        None \<Rightarrow> None
      | Some k \<Rightarrow> (case store_get st k of Inl e \<Rightarrow> None | Inr b \<Rightarrow> Some (blob_text b)))"

definition stored_seqs :: "string \<Rightarrow> objects \<Rightarrow> nat set" where
  "stored_seqs i st = {seq. seq \<le> max_seq \<and> chunk_at i st seq \<noteq> None}"

lemma listed_seqs:
  assumes ok: "store_ok st" and s: "share_ok c i st" and p: "prefix_for i = Some p" and l: "store_list p st = Inr objs"
  shows "distinct (List.map_filter (\<lambda>o'. seq_from_key (fst o')) objs)"
    "set (List.map_filter (\<lambda>o'. seq_from_key (fst o')) objs) = stored_seqs i st"
proof -
  have C: "chunks_of i st = {o' \<in> disk.objects p st. seq_from_key (fst o') \<noteq> None}" by (simp add: chunks_of_def p)
  have set: "set objs = disk.objects p st" by (rule disk.objects_list[OF ok l])
  have d: "distinct (map fst objs)" using disk.list_objects[OF ok l] by blast
  have key: "chunk_key i seq = Some (fst o') \<and> seq \<le> max_seq" if "o' \<in> set objs" "seq_from_key (fst o') = Some seq" for o' seq
  proof -
    have "(fst o', snd o') \<in> chunks_of i st" using that set C by simp
    then obtain n where n: "chunk_key i n = Some (fst o')" "n \<le> max_seq" using s unfolding share_ok_def by blast
    then have "seq = n" using seq_from_chunk_key that(2) by fastforce
    then show ?thesis using n by simp
  qed
  have mf: "List.map_filter f xs = map (the \<circ> f) (filter (\<lambda>x. f x \<noteq> None) xs)" for f :: "(string \<times> blob) \<Rightarrow> nat option" and xs
    by (induction xs) (auto simp: List.map_filter_simps)
  show "distinct (List.map_filter (\<lambda>o'. seq_from_key (fst o')) objs)"
    unfolding mf distinct_map
  proof
    show "distinct (filter (\<lambda>o'. seq_from_key (fst o') \<noteq> None) objs)" using d by (simp add: distinct_map)
    show "inj_on (the \<circ> (\<lambda>o'. seq_from_key (fst o'))) (set (filter (\<lambda>o'. seq_from_key (fst o') \<noteq> None) objs))"
    proof (rule inj_onI)
      fix x y
      assume x: "x \<in> set (filter (\<lambda>o'. seq_from_key (fst o') \<noteq> None) objs)" and y: "y \<in> set (filter (\<lambda>o'. seq_from_key (fst o') \<noteq> None) objs)"
        and e: "(the \<circ> (\<lambda>o'. seq_from_key (fst o'))) x = (the \<circ> (\<lambda>o'. seq_from_key (fst o'))) y"
      then obtain n where "seq_from_key (fst x) = Some n" "seq_from_key (fst y) = Some n" by auto
      then have "fst x = fst y" using key[of x n] key[of y n] x y by simp
      then show "x = y" using d x y by (auto simp: distinct_map inj_on_def)
    qed
  qed
  have "seq \<in> set (List.map_filter (\<lambda>o'. seq_from_key (fst o')) objs) \<longleftrightarrow> (\<exists>o' \<in> set objs. seq_from_key (fst o') = Some seq)" for seq
    unfolding mf by force
  moreover have "(\<exists>o' \<in> set objs. seq_from_key (fst o') = Some seq) \<longleftrightarrow> seq \<in> stored_seqs i st" for seq
  proof
    assume "\<exists>o' \<in> set objs. seq_from_key (fst o') = Some seq"
    then obtain o' where o': "o' \<in> set objs" "seq_from_key (fst o') = Some seq" by blast
    then have "store_get st (fst o') = Inr (snd o')" using set by (auto simp: disk.objects_def)
    then show "seq \<in> stored_seqs i st" using key[OF o'] by (simp add: stored_seqs_def chunk_at_def)
  next
    assume "seq \<in> stored_seqs i st"
    then obtain k b where k: "chunk_key i seq = Some k" "seq \<le> max_seq" "store_get st k = Inr b"
      unfolding stored_seqs_def chunk_at_def by (auto split: option.splits sum.splits)
    then obtain q where "prefix_for i = Some q" "under q k" "seq_from_key k = Some seq" by (metis chunk_key_parts)
    then have "(k, b) \<in> set objs" using set k(3) p by (simp add: disk.objects_def)
    then show "\<exists>o' \<in> set objs. seq_from_key (fst o') = Some seq" using \<open>seq_from_key k = Some seq\<close> by force
  qed
  ultimately show "set (List.map_filter (\<lambda>o'. seq_from_key (fst o')) objs) = stored_seqs i st" by blast
qed

lemma read_chunks_all:
  assumes "\<forall>seq \<in> set seqs. chunk_at i st seq \<noteq> None"
  shows "read_chunks st i seqs cs l =
    ShareChunks (cs @ map (\<lambda>seq. (seq, the (chunk_at i st seq))) seqs) (if seqs = [] then l else int (last seqs))"
  using assms
proof (induction seqs arbitrary: cs l)
  case (Cons s seqs)
  then obtain k b where "chunk_key i s = Some k" "store_get st k = Inr b" "chunk_at i st s = Some (blob_text b)"
    unfolding chunk_at_def by (auto split: option.splits sum.splits)
  then show ?case using Cons by simp
qed simp

text \<open>What a viewer gets: the chunks from a number on, ascending.\<close>

definition chunks_from :: "string \<Rightarrow> objects \<Rightarrow> nat \<Rightarrow> (nat \<times> string) list" where
  "chunks_from i st from =
     map (\<lambda>seq. (seq, the (chunk_at i st seq))) (sorted_list_of_set {seq \<in> stored_seqs i st. from \<le> seq})"

definition last_seq_of :: "(nat \<times> string) list \<Rightarrow> int" where
  "last_seq_of cs = (if cs = [] then -1 else int (fst (last cs)))"

lemma handle_read_eq:
  assumes ok: "store_ok st" and s: "share_ok c i st" and m: "get_meta i st = Inr (Some m)" and v: "valid_id i"
    and f: "(if from_text = [] then Some 0 else parse_uint from_text) = Some from"
  shows "handle_read i from_text st st = ShareChunks (chunks_from i st from) (last_seq_of (chunks_from i st from))"
    "finite (stored_seqs i st)"
proof -
  obtain p where p: "prefix_for i = Some p" using v by (auto simp: valid_id_def prefix_for_def)
  obtain objs where l: "store_list p st = Inr objs" using valid_prefix_for[OF p] by (simp add: store_list_def)
  let ?seqs = "sort (filter (\<lambda>s. from \<le> s) (List.map_filter (\<lambda>o'. seq_from_key (fst o')) objs))"
  note seqs = listed_seqs[OF ok s p l]
  show fin: "finite (stored_seqs i st)" using seqs(2) by (metis List.finite_set)
  have eq: "?seqs = sorted_list_of_set {seq \<in> stored_seqs i st. from \<le> seq}"
    by (rule sorted_distinct_set_unique) (use seqs fin in auto)
  have "\<forall>seq \<in> set ?seqs. chunk_at i st seq \<noteq> None" using seqs(2) by (auto simp: stored_seqs_def)
  note all = read_chunks_all[OF this, of "[]" "-1"]
  have "read_chunks st i ?seqs [] (-1) = ShareChunks (chunks_from i st from) (last_seq_of (chunks_from i st from))"
    unfolding all chunks_from_def eq[symmetric] last_seq_of_def by (simp add: last_map)
  then show "handle_read i from_text st st = ShareChunks (chunks_from i st from) (last_seq_of (chunks_from i st from))"
    unfolding handle_read_def using v m f p l by simp
qed

end
