(* ===== verification/Relay_Inbox.thy ===== *)
theory Relay_Inbox
  imports Relay_Shares
begin

text \<open>
  Webhook inboxes of the relay (\<open>internal/relay/inbox.go\<close>, \<open>inbox_retention.go\<close>): registration,
  encrypted ingestion under quotas, key rotation, secrets, paging, acknowledgement, revocation and
  retention. Handlers that leave the lock between two phases are two operations. Parameters:
  \<open>hash\<close> (of tokens), \<open>parse\<close> (an age recipient to its canonical text) and \<open>seal\<close> (the age
  encryption of an envelope).
\<close>

section \<open>Metadata\<close>

definition inbox_meta_key :: "string \<Rightarrow> string" where
  "inbox_meta_key i = ''inboxes/'' @ i @ ''/meta''"

definition delivery_prefix :: "string \<Rightarrow> string" where
  "delivery_prefix i = ''inboxes/'' @ i @ ''/deliveries/''"

definition delivery_key :: "string \<Rightarrow> string \<Rightarrow> string" where
  "delivery_key i d = delivery_prefix i @ d"

definition delivery_time_key :: "string \<Rightarrow> string \<Rightarrow> string" where
  "delivery_time_key i d = ''inboxes/'' @ i @ ''/delivery-times/'' @ d"

definition delivery_id_from_key :: "string \<Rightarrow> string option" where
  "delivery_id_from_key k =
     (let d = rev (takeWhile (\<lambda>c. c \<noteq> CHR ''/'') (rev k)) in if valid_delivery_id d then Some d else None)"

definition put_inbox_meta :: "string \<Rightarrow> inbox_meta \<Rightarrow> objects \<Rightarrow> store_error + objects" where
  "put_inbox_meta i m st = store_put (inbox_meta_key i) (Inbox_Meta m) st"

definition get_inbox_meta :: "string \<Rightarrow> objects \<Rightarrow> store_error + inbox_meta option" where
  "get_inbox_meta i st =
     (if \<not> valid_random_string i 16 then Inr None
      else case store_get st (inbox_meta_key i) of
        Inl NotFound \<Rightarrow> Inr None
      | Inl e \<Rightarrow> Inl e
      | Inr (Inbox_Meta m) \<Rightarrow>
          if im_version m \<noteq> 1 then Inl StoreFault
          else if im_recipients m = None \<and> im_recipient m \<noteq> []
          then Inr (Some (m\<lparr>im_recipients := Some [im_key_version m \<mapsto> im_recipient m]\<rparr>))
          else Inr (Some m)
      | Inr b \<Rightarrow> Inl StoreFault)"

definition recipient_of :: "inbox_meta \<Rightarrow> int \<Rightarrow> string" where
  "recipient_of m v = (case im_recipients m of None \<Rightarrow> [] | Some rs \<Rightarrow> (case rs v of None \<Rightarrow> [] | Some r \<Rightarrow> r))"

definition authorise_inbox ::
  "(string \<Rightarrow> string) \<Rightarrow> (inbox_meta \<Rightarrow> string) \<Rightarrow> string \<Rightarrow> string \<Rightarrow> objects \<Rightarrow> nat + inbox_meta"
where
  "authorise_inbox hash credential i auth st =
     (case get_inbox_meta i st of
        Inl e \<Rightarrow> Inl 500
      | Inr None \<Rightarrow> Inl 404
      | Inr (Some m) \<Rightarrow> if authorises hash (credential m) (bearer_token auth) then Inr m else Inl 404)"

section \<open>Registration and management\<close>

record registration =
  rg_recipient :: string
  rg_secret :: string
  rg_header :: string

text \<open>The five random strings of a registration.\<close>

record inbox_tokens =
  it_id :: string
  it_ingest :: string
  it_management :: string
  it_fetch :: string
  it_ack :: string

definition handle_register ::
  "(string \<Rightarrow> string) \<Rightarrow> (string \<Rightarrow> string option) \<Rightarrow> relay_config \<Rightarrow> string \<Rightarrow> registration option \<Rightarrow>
     inbox_tokens \<Rightarrow> int \<Rightarrow> objects \<Rightarrow> reply \<times> objects"
where
  "handle_register hash parse c auth req t now st =
     (if \<not> authorises hash (hash (rc_enrollment c)) (bearer_token auth) then (Status 401, st)
      else case req of
        None \<Rightarrow> (Status 400, st)
      | Some rq \<Rightarrow>
          (case parse (rg_recipient rq) of
             None \<Rightarrow> (Status 400, st)
           | Some recipient \<Rightarrow>
               let m0 = \<lparr>im_version = 1, im_recipient = recipient, im_key_version = 1,
                         im_ingest_hash = hash (it_ingest t), im_management_hash = hash (it_management t),
                         im_fetch_hash = hash (it_fetch t), im_ack_hash = hash (it_ack t),
                         im_created = milli now, im_polled = milli now, im_secret_hash = [],
                         im_secret_header = rg_header rq, im_recipients = Some [1 \<mapsto> recipient]\<rparr>;
                   m = (if rg_secret rq = [] then m0
                        else m0\<lparr>im_secret_hash := hash (rg_secret rq),
                                im_secret_header := (if rg_header rq = [] then rc_secret_header c else rg_header rq)\<rparr>)
               in case put_inbox_meta (it_id t) m st of
                    Inl e \<Rightarrow> (Status 500, st)
                  | Inr st' \<Rightarrow> (InboxRegistered (it_id t) (''/i/'' @ it_id t @ ''/'' @ it_ingest t) (it_management t)
                                (it_fetch t) (it_ack t) (im_secret_header m), st')))"

definition handle_manage :: "(string \<Rightarrow> string) \<Rightarrow> string \<Rightarrow> string \<Rightarrow> objects \<Rightarrow> reply" where
  "handle_manage hash i auth st =
     (case authorise_inbox hash im_management_hash i auth st of
        Inl status \<Rightarrow> Status status
      | Inr m \<Rightarrow> InboxInfo i (im_recipient m) (im_key_version m))"

text \<open>Rotation and secrets: authorised and decoded first, applied to the metadata of then.\<close>

definition rotate_begin ::
  "(string \<Rightarrow> string) \<Rightarrow> (string \<Rightarrow> string option) \<Rightarrow> string \<Rightarrow> string \<Rightarrow> string option \<Rightarrow> objects \<Rightarrow> nat + string \<times> string"
where
  "rotate_begin hash parse i auth req st =
     (case authorise_inbox hash im_management_hash i auth st of
        Inl status \<Rightarrow> Inl status
      | Inr m \<Rightarrow>
          (case req of
             None \<Rightarrow> Inl 400
           | Some r \<Rightarrow> (case parse r of None \<Rightarrow> Inl 400 | Some recipient \<Rightarrow> Inr (i, recipient))))"

definition rotated :: "string \<Rightarrow> inbox_meta \<Rightarrow> inbox_meta" where
  "rotated recipient m =
     (let v = im_key_version m + 1;
          rs = (case im_recipients m of None \<Rightarrow> [1 \<mapsto> im_recipient m] | Some rs \<Rightarrow> rs)
      in m\<lparr>im_key_version := v, im_recipients := Some (rs(v \<mapsto> recipient)), im_recipient := recipient\<rparr>)"

definition rotate_commit :: "string \<times> string \<Rightarrow> objects \<Rightarrow> reply \<times> objects" where
  "rotate_commit pr st =
     (case get_inbox_meta (fst pr) st of
        Inl e \<Rightarrow> (Status 500, st)
      | Inr None \<Rightarrow> (Status 404, st)
      | Inr (Some m) \<Rightarrow>
          (case put_inbox_meta (fst pr) (rotated (snd pr) m) st of
             Inl e \<Rightarrow> (Status 500, st)
           | Inr st' \<Rightarrow> (KeyVersion (im_key_version m + 1), st')))"

text \<open>The outer option is the decoding of the body, the inner one the presence of \<open>secret\<close>.\<close>

definition secret_begin ::
  "(string \<Rightarrow> string) \<Rightarrow> string \<Rightarrow> string \<Rightarrow> (string option \<times> string) option \<Rightarrow> objects \<Rightarrow> nat + string \<times> string \<times> string"
where
  "secret_begin hash i auth req st =
     (case authorise_inbox hash im_management_hash i auth st of
        Inl status \<Rightarrow> Inl status
      | Inr m \<Rightarrow>
          (case req of
             None \<Rightarrow> Inl 400
           | Some (None, header) \<Rightarrow> Inl 400
           | Some (Some secret, header) \<Rightarrow> Inr (i, secret, header)))"

definition secret_commit ::
  "(string \<Rightarrow> string) \<Rightarrow> relay_config \<Rightarrow> string \<times> string \<times> string \<Rightarrow> objects \<Rightarrow> reply \<times> objects"
where
  "secret_commit hash c pr st =
     (case pr of (i, secret, header) \<Rightarrow>
        (case get_inbox_meta i st of
           Inl e \<Rightarrow> (Status 500, st)
         | Inr None \<Rightarrow> (Status 404, st)
         | Inr (Some m) \<Rightarrow>
             let m' = (if secret = [] then m\<lparr>im_secret_hash := [], im_secret_header := []\<rparr>
                       else m\<lparr>im_secret_hash := hash secret,
                              im_secret_header := (if header = [] then rc_secret_header c else header)\<rparr>)
             in case put_inbox_meta i m' st of
                  Inl e \<Rightarrow> (Status 500, st)
                | Inr st' \<Rightarrow> (SecretHeader (im_secret_header m'), st')))"

definition revoke_begin :: "(string \<Rightarrow> string) \<Rightarrow> string \<Rightarrow> string \<Rightarrow> objects \<Rightarrow> nat + string" where
  "revoke_begin hash i auth st =
     (case authorise_inbox hash im_management_hash i auth st of Inl status \<Rightarrow> Inl status | Inr m \<Rightarrow> Inr i)"

definition revoke_commit :: "string \<Rightarrow> objects \<Rightarrow> reply \<times> objects" where
  "revoke_commit i st =
     (case store_delete_prefix (''inboxes/'' @ i) st of
        Inl e \<Rightarrow> (Status 500, st)
      | Inr st' \<Rightarrow> (Status 204, st'))"

section \<open>Ingestion\<close>

text \<open>A request's headers by canonical name; \<open>body\<close> is \<open>None\<close> when it could not be read.\<close>

record webhook =
  wh_token :: string
  wh_method :: string
  wh_headers :: "(string \<times> string list) list"
  wh_query :: string
  wh_body :: "string option"

record envelope =
  en_version :: int
  en_key_version :: int
  en_inbox :: string
  en_delivery :: string
  en_body :: string
  en_method :: string
  en_header :: "(string \<times> string) list"
  en_query :: string
  en_received :: int

definition header_get :: "(string \<times> string list) list \<Rightarrow> string \<Rightarrow> string" where
  "header_get hs name =
     (case find (\<lambda>h. ascii_lower (fst h) = ascii_lower name) hs of
        None \<Rightarrow> []
      | Some h \<Rightarrow> (case snd h of [] \<Rightarrow> [] | v # _ \<Rightarrow> v))"

definition sensitive_headers :: "string list" where
  "sensitive_headers = [''authorization'', ''cookie'', ''set-cookie'', ''proxy-authorization'', ''x-webhook-secret'']"

definition header_dropped :: "string \<Rightarrow> string \<Rightarrow> bool" where
  "header_dropped secret_header name \<longleftrightarrow>
     ascii_lower name = ascii_lower secret_header \<or> ascii_lower name \<in> set sensitive_headers"

fun retain_values :: "string \<Rightarrow> string list \<Rightarrow> int \<Rightarrow> int \<Rightarrow> (string \<times> string) list \<Rightarrow> (int \<times> (string \<times> string) list) option" where
  "retain_values name [] limit sz out = Some (sz, out)"
| "retain_values name (v # vs) limit sz out =
     (let candidate = int (length name + length v + 4) in
      if sz + candidate > limit then None
      else retain_values name vs limit (sz + candidate) (out @ [(name, v)]))"

fun retain_headers ::
  "string \<Rightarrow> (string \<times> string list) list \<Rightarrow> int \<Rightarrow> int \<Rightarrow> (string \<times> string) list \<Rightarrow> (string \<times> string) list option"
where
  "retain_headers secret_header [] limit sz out = Some out"
| "retain_headers secret_header ((name, vs) # hs) limit sz out =
     (if header_dropped secret_header name then retain_headers secret_header hs limit sz out
      else case retain_values name vs limit sz out of
        None \<Rightarrow> None
      | Some (sz', out') \<Rightarrow> retain_headers secret_header hs limit sz' out')"

definition retained_headers :: "(string \<times> string list) list \<Rightarrow> string \<Rightarrow> int \<Rightarrow> (string \<times> string) list option" where
  "retained_headers src secret_header limit = retain_headers secret_header src limit 0 []"

text \<open>A sealed delivery before it takes the lock.\<close>

record pending_ingest =
  pi_inbox :: string
  pi_delivery :: string
  pi_ciphertext :: string

definition ingest_begin ::
  "(string \<Rightarrow> string) \<Rightarrow> (string \<Rightarrow> string option) \<Rightarrow> (string \<Rightarrow> envelope \<Rightarrow> string option) \<Rightarrow> relay_config \<Rightarrow>
     string \<Rightarrow> webhook \<Rightarrow> bool \<Rightarrow> string \<Rightarrow> int \<Rightarrow> objects \<Rightarrow> nat + pending_ingest"
where
  "ingest_begin hash parse seal c i w allowed d now st =
     (case get_inbox_meta i st of
        Inl e \<Rightarrow> Inl 500
      | Inr None \<Rightarrow> Inl 404
      | Inr (Some m) \<Rightarrow>
          if \<not> authorises hash (im_ingest_hash m) (wh_token w) then Inl 404
          else if im_secret_hash m \<noteq> [] \<and> hash (header_get (wh_headers w) (im_secret_header m)) \<noteq> im_secret_hash m then Inl 401
          else if \<not> allowed then Inl 429
          else case parse (recipient_of m (im_key_version m)) of
            None \<Rightarrow> Inl 500
          | Some recipient \<Rightarrow>
              (case wh_body w of
                 None \<Rightarrow> Inl 400
               | Some body \<Rightarrow>
                   if int (length body) > rc_max_body c then Inl 413
                   else case retained_headers (wh_headers w) (im_secret_header m) (rc_max_headers c) of
                     None \<Rightarrow> Inl 413
                   | Some headers \<Rightarrow>
                       (case seal recipient
                          \<lparr>en_version = 1, en_key_version = im_key_version m, en_inbox = i, en_delivery = d,
                           en_body = body, en_method = wh_method w, en_header = headers, en_query = wh_query w,
                           en_received = milli now\<rparr> of
                          None \<Rightarrow> Inl 500
                        | Some ct \<Rightarrow> Inr \<lparr>pi_inbox = i, pi_delivery = d, pi_ciphertext = ct\<rparr>)))"

definition put_inbox_delivery :: "int \<Rightarrow> pending_ingest \<Rightarrow> objects \<Rightarrow> bool \<times> objects" where
  "put_inbox_delivery now p st =
     (let tk = delivery_time_key (pi_inbox p) (pi_delivery p) in
      case store_put tk (Stamp (milli now)) st of
        Inl e \<Rightarrow> (False, st)
      | Inr st1 \<Rightarrow>
          (case store_put (delivery_key (pi_inbox p) (pi_delivery p)) (Bytes (pi_ciphertext p)) st1 of
             Inr st2 \<Rightarrow> (True, st2)
           | Inl e \<Rightarrow> (False, case store_delete_prefix tk st1 of Inl e' \<Rightarrow> st1 | Inr st2 \<Rightarrow> st2)))"

definition ingest_commit :: "relay_config \<Rightarrow> int \<Rightarrow> pending_ingest \<Rightarrow> objects \<Rightarrow> reply \<times> objects" where
  "ingest_commit c now p st =
     (case store_list (delivery_prefix (pi_inbox p)) st of
        Inl e \<Rightarrow> (Status 500, st)
      | Inr objs \<Rightarrow>
          if int (length objs) \<ge> rc_max_pending c then (Status 413, st)
          else if (\<Sum>o' \<leftarrow> objs. blob_size (snd o')) + int (length (pi_ciphertext p)) > rc_max_pending_bytes c
          then (Status 413, st)
          else case put_inbox_delivery now p st of
            (False, st') \<Rightarrow> (Status 500, st')
          | (True, st') \<Rightarrow> (Ingested (pi_delivery p), st'))"

section \<open>Polling\<close>

definition filter_delivery_page :: "string list \<Rightarrow> string \<Rightarrow> string \<Rightarrow> string list" where
  "filter_delivery_page ids after through = filter (\<lambda>d. after < d \<and> d \<le> through) ids"

definition encode_inbox_cursor :: "string \<Rightarrow> string \<Rightarrow> string" where
  "encode_inbox_cursor after through = base64_encode (after @ [CHR 0x0A] @ through)"

definition decode_inbox_cursor :: "string \<Rightarrow> (string \<times> string) option" where
  "decode_inbox_cursor cursor =
     (case base64_decode cursor of
        None \<Rightarrow> None
      | Some s \<Rightarrow>
          (case cut_at (CHR 0x0A) s of
             None \<Rightarrow> None
           | Some (after, through) \<Rightarrow>
               if valid_delivery_id after \<and> valid_delivery_id through \<and> after \<le> through
               then Some (after, through) else None))"

definition inbox_page_size :: nat where
  "inbox_page_size = 50"

text \<open>The page for a cursor: the ids and the next cursor.\<close>

definition delivery_page :: "(string \<times> blob) list \<Rightarrow> string \<Rightarrow> (string list \<times> string) option" where
  "delivery_page objs cursor =
     (let ids = sort (List.map_filter (\<lambda>o'. delivery_id_from_key (fst o')) objs);
          bounds = (if cursor = [] then Some ([], if ids = [] then [] else last ids) else decode_inbox_cursor cursor)
      in case bounds of
           None \<Rightarrow> None
         | Some (after, through) \<Rightarrow>
             let page = take inbox_page_size (filter_delivery_page ids after through)
             in Some (page, if length page = inbox_page_size then encode_inbox_cursor (last page) through else []))"

definition list_begin :: "(string \<Rightarrow> string) \<Rightarrow> string \<Rightarrow> string \<Rightarrow> string \<Rightarrow> objects \<Rightarrow> nat + string list \<times> string" where
  "list_begin hash i auth cursor st =
     (case authorise_inbox hash im_fetch_hash i auth st of
        Inl status \<Rightarrow> Inl status
      | Inr m \<Rightarrow>
          (case store_list (delivery_prefix i) st of
             Inl e \<Rightarrow> Inl 500
           | Inr objs \<Rightarrow> (case delivery_page objs cursor of None \<Rightarrow> Inl 400 | Some page \<Rightarrow> Inr page)))"

text \<open>\<open>finishInboxPoll\<close>: authorised again, under the lock, and the poll is remembered.\<close>

definition finish_inbox_poll ::
  "(string \<Rightarrow> string) \<Rightarrow> string \<Rightarrow> string \<Rightarrow> string list \<times> string \<Rightarrow> int \<Rightarrow> objects \<Rightarrow> reply \<times> objects"
where
  "finish_inbox_poll hash i auth page now st =
     (case authorise_inbox hash im_fetch_hash i auth st of
        Inl status \<Rightarrow> (Status status, st)
      | Inr m \<Rightarrow>
          (case put_inbox_meta i (m\<lparr>im_polled := milli now\<rparr>) st of
             Inl e \<Rightarrow> (Status 500, st)
           | Inr st' \<Rightarrow> (DeliveryPage (fst page) (snd page), st')))"

definition handle_fetch :: "(string \<Rightarrow> string) \<Rightarrow> string \<Rightarrow> string \<Rightarrow> string \<Rightarrow> objects \<Rightarrow> reply" where
  "handle_fetch hash i auth d st =
     (case authorise_inbox hash im_fetch_hash i auth st of
        Inl status \<Rightarrow> Status status
      | Inr m \<Rightarrow>
          if \<not> valid_delivery_id d then Status 404
          else case store_get st (delivery_key i d) of
            Inl NotFound \<Rightarrow> Status 404
          | Inl e \<Rightarrow> Status 500
          | Inr b \<Rightarrow> Ciphertext (blob_text b))"

definition delete_inbox_delivery :: "string \<Rightarrow> string \<Rightarrow> objects \<Rightarrow> bool \<times> objects" where
  "delete_inbox_delivery i d st =
     (case store_delete_prefix (delivery_key i d) st of
        Inl e \<Rightarrow> (False, st)
      | Inr st1 \<Rightarrow>
          (case store_delete_prefix (delivery_time_key i d) st1 of Inl e \<Rightarrow> (False, st1) | Inr st2 \<Rightarrow> (True, st2)))"

definition handle_acknowledge :: "(string \<Rightarrow> string) \<Rightarrow> string \<Rightarrow> string \<Rightarrow> string \<Rightarrow> objects \<Rightarrow> reply \<times> objects" where
  "handle_acknowledge hash i auth d st =
     (case authorise_inbox hash im_ack_hash i auth st of
        Inl status \<Rightarrow> (Status status, st)
      | Inr m \<Rightarrow>
          if \<not> valid_delivery_id d then (Status 404, st)
          else case delete_inbox_delivery i d st of
            (False, st') \<Rightarrow> (Status 500, st')
          | (True, st') \<Rightarrow> (Status 204, st'))"

section \<open>Retention\<close>

definition past :: "int \<Rightarrow> int \<Rightarrow> int \<Rightarrow> bool" where
  "past now ms ttl \<longleftrightarrow> \<not> now < ms * 1000000 + ttl"

definition expire_inbox_delivery :: "relay_config \<Rightarrow> int \<Rightarrow> string \<Rightarrow> string \<Rightarrow> objects \<Rightarrow> bool \<times> objects" where
  "expire_inbox_delivery c now i d st =
     (case store_get st (delivery_time_key i d) of
        Inl NotFound \<Rightarrow>
          (case store_put (delivery_time_key i d) (Stamp (milli now)) st of Inl e \<Rightarrow> (False, st) | Inr st' \<Rightarrow> (True, st'))
      | Inl e \<Rightarrow> (False, st)
      | Inr (Stamp created) \<Rightarrow>
          if created \<le> 0 then (False, st)
          else if past now created (rc_delivery_ttl c) then delete_inbox_delivery i d st
          else (True, st)
      | Inr b \<Rightarrow> (False, st))"

fun expire_deliveries :: "relay_config \<Rightarrow> int \<Rightarrow> string \<Rightarrow> string list \<Rightarrow> objects \<Rightarrow> bool \<times> objects" where
  "expire_deliveries c now i [] st = (True, st)"
| "expire_deliveries c now i (d # ds) st =
     (case expire_inbox_delivery c now i d st of
        (False, st') \<Rightarrow> (False, st')
      | (True, st') \<Rightarrow> expire_deliveries c now i ds st')"

text \<open>\<open>sweepInbox\<close>: metadata that does not decode is left alone.\<close>

definition sweep_inbox :: "relay_config \<Rightarrow> int \<Rightarrow> string \<Rightarrow> objects \<Rightarrow> bool \<times> objects" where
  "sweep_inbox c now i st =
     (case store_get st (inbox_meta_key i) of
        Inl NotFound \<Rightarrow> (True, st)
      | Inl e \<Rightarrow> (False, st)
      | Inr (Inbox_Meta m) \<Rightarrow>
          let polled = (if im_polled m = 0 then milli now else im_polled m) in
          (case (if im_polled m = 0 then put_inbox_meta i (m\<lparr>im_polled := polled\<rparr>) st else Inr st) of
             Inl e \<Rightarrow> (False, st)
           | Inr st1 \<Rightarrow>
               if polled > 0 \<and> past now polled (rc_inbox_ttl c)
               then (case store_delete_prefix (''inboxes/'' @ i) st1 of Inl e \<Rightarrow> (False, st1) | Inr st2 \<Rightarrow> (True, st2))
               else case store_list (delivery_prefix i) st1 of
                 Inl e \<Rightarrow> (False, st1)
               | Inr objs \<Rightarrow> expire_deliveries c now i (List.map_filter (\<lambda>o'. delivery_id_from_key (fst o')) objs) st1)
      | Inr b \<Rightarrow> (True, st))"

text \<open>The inboxes a sweep visits, by the metadata it lists.\<close>

definition swept_inboxes :: "objects \<Rightarrow> string list" where
  "swept_inboxes st =
     (case store_list ''inboxes/'' st of
        Inl e \<Rightarrow> []
      | Inr objs \<Rightarrow>
          map (\<lambda>o'. let r = drop 8 (fst o') in if has_suffix r ''/meta'' then take (length r - 5) r else r)
            (filter (\<lambda>o'. has_suffix (fst o') ''/meta'') objs))"


section \<open>Keys by their segments\<close>

fun join_slash :: "string list \<Rightarrow> string" where
  "join_slash [] = []"
| "join_slash [w] = w"
| "join_slash (w # ws) = w @ ''/'' @ join_slash ws"

lemma segments_ne [simp]: "segments s \<noteq> []"
  by (induction s) (auto split: list.splits)

lemma segments_append: "segments (a @ CHR ''/'' # b) = segments a @ segments b"
proof (induction a)
  case (Cons c a)
  then show ?case by (cases "segments a") auto
qed simp

lemma join_Cons: "ws \<noteq> [] \<Longrightarrow> join_slash (w # ws) = w @ ''/'' @ join_slash ws"
  by (cases ws) auto

lemma join_segments: "join_slash (segments s) = s"
proof (induction s)
  case (Cons c s)
  obtain w ws where w: "segments s = w # ws" by (cases "segments s") auto
  then show ?case using Cons by (cases ws) (auto simp: join_Cons)
qed simp

lemma join_append: "xs \<noteq> [] \<Longrightarrow> ys \<noteq> [] \<Longrightarrow> join_slash (xs @ ys) = join_slash xs @ ''/'' @ join_slash ys"
proof (induction xs)
  case (Cons x xs)
  then show ?case by (cases xs) (auto simp: join_Cons)
qed simp

lemma under_segments:
  assumes "trim_slash p \<noteq> []"
  shows "under p k \<longleftrightarrow> prefix (segments (trim_slash p)) (segments k)"
proof
  assume "under p k"
  then consider "k = trim_slash p" | r where "k = trim_slash p @ CHR ''/'' # r"
    using assms by (auto simp: under_def Let_def has_prefix_iff)
  then show "prefix (segments (trim_slash p)) (segments k)"
    by cases (simp_all add: segments_append)
next
  assume "prefix (segments (trim_slash p)) (segments k)"
  then obtain ws where ws: "segments k = segments (trim_slash p) @ ws" by (auto simp: prefix_def)
  show "under p k"
  proof (cases "ws = []")
    case True
    then have "k = trim_slash p" using ws join_segments by (metis append_Nil2)
    then show ?thesis by (simp add: under_def)
  next
    case False
    then have "k = trim_slash p @ ''/'' @ join_slash ws"
      using join_append[of "segments (trim_slash p)" ws] join_segments[of k] join_segments[of "trim_slash p"] ws by simp
    then show ?thesis by (auto simp: under_def Let_def has_prefix_iff)
  qed
qed

lemma segments_plain: "\<forall>c \<in> set a. c \<noteq> CHR ''/'' \<Longrightarrow> segments a = [a]"
  by (induction a) auto

lemma segments_random: "valid_random_string i 16 \<Longrightarrow> segments i = [i]"
  using valid_random_chars(2) key_char_not_slash by (intro segments_plain) blast

lemma inbox_segments:
  assumes "valid_random_string i 16"
  shows "segments (''inboxes/'' @ i) = [''inboxes'', i]"
    "segments (inbox_meta_key i) = [''inboxes'', i, ''meta'']"
    "segments (delivery_prefix i) = [''inboxes'', i, ''deliveries'', []]"
    "valid_delivery_id d \<Longrightarrow> segments (delivery_key i d) = [''inboxes'', i, ''deliveries'', d]"
    "valid_delivery_id d \<Longrightarrow> segments (delivery_time_key i d) = [''inboxes'', i, ''delivery-times'', d]"
proof -
  have p: "segments (''inboxes/'' @ x) = ''inboxes'' # segments x" for x by simp
  have q: "segments (i @ CHR ''/'' # x) = i # segments x" for x
    using segments_append[of i x] segments_random[OF assms] by simp
  show "segments (''inboxes/'' @ i) = [''inboxes'', i]" unfolding p segments_random[OF assms] ..
  show "segments (inbox_meta_key i) = [''inboxes'', i, ''meta'']"
    unfolding inbox_meta_key_def p using q[of "''meta''"] by simp
  show "segments (delivery_prefix i) = [''inboxes'', i, ''deliveries'', []]"
    unfolding delivery_prefix_def p using q[of "''deliveries/''"] by simp
  assume "valid_delivery_id d"
  then have d: "segments d = [d]" using segments_random by (simp add: valid_delivery_id_def)
  show "segments (delivery_key i d) = [''inboxes'', i, ''deliveries'', d]"
    unfolding delivery_key_def delivery_prefix_def using q[of "''deliveries/'' @ d"] d by simp
  show "segments (delivery_time_key i d) = [''inboxes'', i, ''delivery-times'', d]"
    unfolding delivery_time_key_def using q[of "''delivery-times/'' @ d"] d by simp
qed

text \<open>What lies under the prefixes the inboxes use.\<close>

lemma trim_slash_plain: "last s \<noteq> CHR ''/'' \<Longrightarrow> trim_slash s = s"
  by (simp add: trim_slash_def)

lemma random_last: "valid_random_string i 16 \<Longrightarrow> i \<noteq> [] \<and> last i \<noteq> CHR ''/''"
proof -
  assume v: "valid_random_string i 16"
  have "i \<noteq> []" using valid_random_chars(1)[OF v] by auto
  then show ?thesis using valid_random_chars(2)[OF v] key_char_not_slash last_in_set by blast
qed

lemma under_inbox:
  assumes "valid_random_string i 16"
  shows "under (''inboxes/'' @ i) k \<longleftrightarrow> prefix [''inboxes'', i] (segments k)"
    "under (delivery_prefix i) k \<longleftrightarrow> prefix [''inboxes'', i, ''deliveries''] (segments k)"
    "valid_delivery_id d \<Longrightarrow> under (delivery_key i d) k \<longleftrightarrow> prefix [''inboxes'', i, ''deliveries'', d] (segments k)"
    "valid_delivery_id d \<Longrightarrow> under (delivery_time_key i d) k \<longleftrightarrow> prefix [''inboxes'', i, ''delivery-times'', d] (segments k)"
proof -
  have u: "trim_slash p = p' \<Longrightarrow> p' \<noteq> [] \<Longrightarrow> under p k \<longleftrightarrow> prefix (segments p') (segments k)" for p p'
    using under_segments by metis
  have "trim_slash (''inboxes/'' @ i) = ''inboxes/'' @ i"
    by (rule trim_slash_plain) (use random_last[OF assms] in simp)
  from u[OF this] show "under (''inboxes/'' @ i) k \<longleftrightarrow> prefix [''inboxes'', i] (segments k)"
    by (simp only: inbox_segments(1)[OF assms]) simp
  have "trim_slash (delivery_prefix i) = ''inboxes/'' @ i @ ''/deliveries''"
    by (simp add: trim_slash_def delivery_prefix_def butlast_append)
  moreover have "segments (''inboxes/'' @ i @ ''/deliveries'') = [''inboxes'', i, ''deliveries'']"
    using segments_append[of "''inboxes/'' @ i" "''deliveries''"] inbox_segments(1)[OF assms] by simp
  ultimately show "under (delivery_prefix i) k \<longleftrightarrow> prefix [''inboxes'', i, ''deliveries''] (segments k)"
    using u by (metis append_is_Nil_conv list.discI)
  assume d: "valid_delivery_id d"
  then have l: "d \<noteq> [] \<and> last d \<noteq> CHR ''/''" using random_last by (simp add: valid_delivery_id_def)
  have "trim_slash (delivery_key i d) = delivery_key i d" "delivery_key i d \<noteq> []"
    by (rule trim_slash_plain) (use l in \<open>simp_all add: delivery_key_def delivery_prefix_def\<close>)
  from u[OF this] show "under (delivery_key i d) k \<longleftrightarrow> prefix [''inboxes'', i, ''deliveries'', d] (segments k)"
    by (simp only: inbox_segments(4)[OF assms d])
  have "trim_slash (delivery_time_key i d) = delivery_time_key i d" "delivery_time_key i d \<noteq> []"
    by (rule trim_slash_plain) (use l in \<open>simp_all add: delivery_time_key_def\<close>)
  from u[OF this] show "under (delivery_time_key i d) k \<longleftrightarrow> prefix [''inboxes'', i, ''delivery-times'', d] (segments k)"
    by (simp only: inbox_segments(5)[OF assms d])
qed

text \<open>Keys of shares are dates first, keys of inboxes are not.\<close>

definition inbox_key :: "string \<Rightarrow> bool" where
  "inbox_key k \<longleftrightarrow> hd (segments k) = ''inboxes''"

lemma valid_date_not_inboxes: "valid_date s \<Longrightarrow> s \<noteq> ''inboxes''"
  by (rule notI) (simp add: valid_date_def)

lemma share_prefix_segments:
  assumes "prefix_for i = Some p"
  obtains d r where "split_id i = Some (d, r)" "segments (trim_slash p) = [d, r]" "d \<noteq> ''inboxes''" "trim_slash p \<noteq> []"
proof -
  obtain d r where t: "trim_slash p = d @ ''/'' @ r" "valid_date d" "split_id i = Some (d, r)"
    by (rule prefix_for_shape[OF assms])
  note s = split_id_SomeD[OF t(3)]
  have "\<forall>x \<in> set d. x \<noteq> CHR ''/''" using valid_date_chars[OF t(2)] key_char_not_slash by blast
  then have "segments d = [d]" "segments r = [r]" using segments_plain segments_random[OF s(4)] by blast+
  then have "segments (trim_slash p) = [d, r]" unfolding t(1) using segments_append[of d r] by simp
  then show ?thesis using that t valid_date_not_inboxes by simp
qed

lemma share_not_inbox: "prefix_for i = Some p \<Longrightarrow> under p k \<Longrightarrow> \<not> inbox_key k"
proof -
  assume p: "prefix_for i = Some p" and u: "under p k"
  obtain d r where "segments (trim_slash p) = [d, r]" "d \<noteq> ''inboxes''" "trim_slash p \<noteq> []"
    by (rule share_prefix_segments[OF p])
  then show "\<not> inbox_key k" using u by (auto simp: under_segments inbox_key_def prefix_def)
qed

section \<open>The deliveries of an inbox\<close>

definition deliveries :: "string \<Rightarrow> objects \<Rightarrow> (string \<times> blob) set" where
  "deliveries i st = disk.objects (delivery_prefix i) st"

lemma finite_objects: "store_ok st \<Longrightarrow> finite (disk.objects p st)"
proof -
  assume ok: "store_ok st"
  have "disk.objects p st \<subseteq> set st" using store_get_Inr[OF ok] by (auto simp: disk.objects_def)
  then show ?thesis using finite_subset List.finite_set by blast
qed

lemma finite_deliveries: "store_ok st \<Longrightarrow> finite (deliveries i st)"
  by (simp add: deliveries_def finite_objects)

lemma deliveries_put_other:
  assumes "store_ok st" "store_put k b st = Inr st'" "\<not> under (delivery_prefix i) k"
  shows "deliveries i st' = deliveries i st"
  unfolding deliveries_def by (rule disk.objects_put_other[OF assms])

lemma deliveries_delete:
  assumes "store_ok st" "store_delete_prefix p st = Inr st'"
  shows "deliveries i st' = {o' \<in> deliveries i st. \<not> under p (fst o')}"
  unfolding deliveries_def by (rule disk.objects_delete[OF assms])

lemma chunks_put_inbox:
  assumes "store_ok st" "store_put k b st = Inr st'" "inbox_key k"
  shows "chunks_of j st' = chunks_of j st"
proof (cases "prefix_for j")
  case (Some p)
  then have "\<not> under p k" using share_not_inbox assms(3) by blast
  then show ?thesis by (simp add: chunks_of_def Some disk.objects_put_other[OF assms(1,2)])
qed (simp add: chunks_of_def)

text \<open>A delivery prefix holds nothing of the shares; ids that are not valid hold nothing at all.\<close>

lemma not_under_delivery: "valid_random_string i 16 \<Longrightarrow> \<not> inbox_key k \<Longrightarrow> \<not> under (delivery_prefix i) k"
  by (auto simp: under_inbox inbox_key_def prefix_def)

lemma get_inbox_meta_cong:
  "store_get st' (inbox_meta_key i) = store_get st (inbox_meta_key i) \<Longrightarrow> get_inbox_meta i st' = get_inbox_meta i st"
  by (simp add: get_inbox_meta_def)

lemma inbox_meta_put_other:
  assumes "store_ok st" "store_put k b st = Inr st'" "k \<noteq> inbox_meta_key i"
  shows "get_inbox_meta i st' = get_inbox_meta i st"
  by (rule get_inbox_meta_cong) (use disk.get_put[OF assms(1,2)] assms(3) in simp)

lemma inbox_meta_delete_other:
  assumes "store_ok st" "store_delete_prefix p st = Inr st'" "\<not> under p (inbox_meta_key i)"
  shows "get_inbox_meta i st' = get_inbox_meta i st"
proof (rule get_inbox_meta_cong)
  have "st' = filter (\<lambda>o'. \<not> under p (fst o')) st"
    using assms(2) by (auto simp: store_delete_prefix_def split: if_split_asm)
  then show "store_get st' (inbox_meta_key i) = store_get st (inbox_meta_key i)"
    using assms(3) map_of_filter_key[of "\<lambda>x. \<not> under p x" st "inbox_meta_key i"] by (simp add: store_get_def)
qed

definition normal_meta :: "inbox_meta \<Rightarrow> inbox_meta" where
  "normal_meta m =
     (if im_recipients m = None \<and> im_recipient m \<noteq> [] then m\<lparr>im_recipients := Some [im_key_version m \<mapsto> im_recipient m]\<rparr> else m)"

lemma inbox_meta_put:
  assumes "store_ok st" "put_inbox_meta i m st = Inr st'" "valid_random_string i 16"
  shows "get_inbox_meta i st' = (if im_version m \<noteq> 1 then Inl StoreFault else Inr (Some (normal_meta m)))"
    "j \<noteq> i \<Longrightarrow> get_inbox_meta j st' = get_inbox_meta j st"
    "deliveries j st' = deliveries j st \<or> \<not> valid_random_string j 16"
    "chunks_of s st' = chunks_of s st"
    "store_ok st'"
proof -
  have put: "store_put (inbox_meta_key i) (Inbox_Meta m) st = Inr st'" using assms(2) by (simp add: put_inbox_meta_def)
  show "store_ok st'" by (rule store_put_ok[OF assms(1) put])
  show "get_inbox_meta i st' = (if im_version m \<noteq> 1 then Inl StoreFault else Inr (Some (normal_meta m)))"
    using disk.get_put[OF assms(1) put, of "inbox_meta_key i"] assms(3) by (simp add: get_inbox_meta_def normal_meta_def)
  show "j \<noteq> i \<Longrightarrow> get_inbox_meta j st' = get_inbox_meta j st"
    by (rule inbox_meta_put_other[OF assms(1) put]) (simp add: inbox_meta_key_def)
  show "deliveries j st' = deliveries j st \<or> \<not> valid_random_string j 16"
  proof (cases "valid_random_string j 16")
    case True
    have "\<not> under (delivery_prefix j) (inbox_meta_key i)"
      by (simp add: under_inbox[OF True] inbox_segments[OF assms(3)])
    then show ?thesis using deliveries_put_other[OF assms(1) put] by blast
  qed simp
  have "inbox_key (inbox_meta_key i)" by (simp add: inbox_key_def inbox_segments[OF assms(3)])
  then show "chunks_of s st' = chunks_of s st" by (rule chunks_put_inbox[OF assms(1) put])
qed

section \<open>Steps that only take away or keep\<close>

text \<open>The metadata an inbox has afterwards knows every recipient of a key version it knew before.\<close>

definition meta_grows :: "string \<Rightarrow> objects \<Rightarrow> objects \<Rightarrow> bool" where
  "meta_grows j st st' \<longleftrightarrow>
     (\<forall>m'. get_inbox_meta j st' = Inr (Some m') \<longrightarrow>
        (\<exists>m. get_inbox_meta j st = Inr (Some m) \<and> im_key_version m \<le> im_key_version m' \<and>
           (\<forall>v. v \<le> im_key_version m \<longrightarrow> recipient_of m' v = recipient_of m v)))"

lemma meta_grows_refl: "get_inbox_meta j st' = get_inbox_meta j st \<Longrightarrow> meta_grows j st st'"
  by (simp add: meta_grows_def)

lemma meta_grows_trans:
  assumes "meta_grows j a b" "meta_grows j b c"
  shows "meta_grows j a c"
  unfolding meta_grows_def
proof (intro allI impI)
  fix m2 assume "get_inbox_meta j c = Inr (Some m2)"
  then obtain m1 where 1: "get_inbox_meta j b = Inr (Some m1)" "im_key_version m1 \<le> im_key_version m2"
      "\<forall>v. v \<le> im_key_version m1 \<longrightarrow> recipient_of m2 v = recipient_of m1 v"
    using assms(2) unfolding meta_grows_def by blast
  then obtain m0 where 0: "get_inbox_meta j a = Inr (Some m0)" "im_key_version m0 \<le> im_key_version m1"
      "\<forall>v. v \<le> im_key_version m0 \<longrightarrow> recipient_of m1 v = recipient_of m0 v"
    using assms(1) unfolding meta_grows_def by blast
  have "recipient_of m2 v = recipient_of m0 v" if "v \<le> im_key_version m0" for v
    using 0(2,3) 1(3) that by simp
  then show "\<exists>m. get_inbox_meta j a = Inr (Some m) \<and> im_key_version m \<le> im_key_version m2 \<and>
      (\<forall>v. v \<le> im_key_version m \<longrightarrow> recipient_of m2 v = recipient_of m v)"
    using 0(1,2) 1(2) by (intro exI[of _ m0]) auto
qed

text \<open>An object of an inbox called \<open>meta\<close> is the metadata of a valid id.\<close>

definition meta_name :: "string \<Rightarrow> bool" where
  "meta_name k \<longleftrightarrow> (inbox_key k \<and> last (segments k) = ''meta'' \<longrightarrow> (\<exists>i. valid_random_string i 16 \<and> k = inbox_meta_key i))"

definition metas_ok :: "objects \<Rightarrow> bool" where
  "metas_ok st \<longleftrightarrow> (\<forall>k \<in> fst ` set st. meta_name k)"

lemma metas_put:
  assumes "store_put k b st = Inr st'" "meta_name k" "metas_ok st"
  shows "metas_ok st'"
proof -
  have "st' = (k, b) # filter (\<lambda>o'. fst o' \<noteq> k) st" using assms(1) by (auto simp: store_put_def split: if_split_asm)
  then show ?thesis using assms(2,3) by (auto simp: metas_ok_def)
qed

lemma metas_delete:
  assumes "store_delete_prefix p st = Inr st'" "metas_ok st"
  shows "metas_ok st'"
proof -
  have "st' = filter (\<lambda>o'. \<not> under p (fst o')) st"
    using assms(1) by (auto simp: store_delete_prefix_def split: if_split_asm)
  then show ?thesis using assms(2) by (auto simp: metas_ok_def)
qed

lemma delivery_not_meta: "valid_delivery_id d \<Longrightarrow> d \<noteq> ''meta''"
  using valid_random_chars(1) unfolding valid_delivery_id_def by fastforce

lemma meta_names:
  assumes "valid_random_string i 16"
  shows "meta_name (inbox_meta_key i)" "valid_delivery_id d \<Longrightarrow> meta_name (delivery_key i d)"
    "valid_delivery_id d \<Longrightarrow> meta_name (delivery_time_key i d)"
  using assms inbox_segments(4,5)[OF assms, of d] delivery_not_meta by (auto simp: meta_name_def)

definition calm :: "objects \<Rightarrow> objects \<Rightarrow> bool" where
  "calm st st' \<longleftrightarrow> store_ok st' \<and>
     (\<forall>j. valid_random_string j 16 \<longrightarrow> deliveries j st' \<subseteq> deliveries j st) \<and>
     (\<forall>j. meta_grows j st st') \<and> (\<forall>s. chunks_of s st' \<subseteq> chunks_of s st) \<and> (metas_ok st \<longrightarrow> metas_ok st')"

lemma calmD:
  assumes "calm st st'"
  shows "store_ok st'" "valid_random_string j 16 \<Longrightarrow> deliveries j st' \<subseteq> deliveries j st" "meta_grows j st st'"
    "chunks_of s st' \<subseteq> chunks_of s st" "metas_ok st \<Longrightarrow> metas_ok st'"
  using assms unfolding calm_def by blast+

text \<open>A quiet step leaves the shares alone too, but for what it deletes.\<close>

definition shares_kept :: "objects \<Rightarrow> objects \<Rightarrow> bool" where
  "shares_kept st st' \<longleftrightarrow> (\<forall>o' \<in> set st'. o' \<in> set st \<or> inbox_key (fst o'))"

definition quiet :: "objects \<Rightarrow> objects \<Rightarrow> bool" where
  "quiet st st' \<longleftrightarrow> calm st st' \<and> shares_kept st st'"

lemma quietD:
  assumes "quiet st st'"
  shows "store_ok st'" "valid_random_string j 16 \<Longrightarrow> deliveries j st' \<subseteq> deliveries j st" "meta_grows j st st'"
    "chunks_of s st' \<subseteq> chunks_of s st" "metas_ok st \<Longrightarrow> metas_ok st'" "shares_kept st st'" "calm st st'"
  using assms calmD unfolding quiet_def by blast+

lemma quiet_refl: "store_ok st \<Longrightarrow> quiet st st"
  by (simp add: quiet_def calm_def meta_grows_refl shares_kept_def)

lemma shares_kept_trans: "shares_kept a b \<Longrightarrow> shares_kept b c \<Longrightarrow> shares_kept a c"
  unfolding shares_kept_def by blast

lemma quiet_trans: "quiet a b \<Longrightarrow> quiet b c \<Longrightarrow> quiet a c"
proof -
  assume "quiet a b" "quiet b c"
  then have "calm a b" "calm b c" "shares_kept a c" using shares_kept_trans unfolding quiet_def by blast+
  then show ?thesis unfolding quiet_def calm_def by (meson meta_grows_trans order_trans)
qed

lemma shares_kept_put:
  assumes "store_put k b st = Inr st'" "inbox_key k"
  shows "shares_kept st st'"
proof -
  have "st' = (k, b) # filter (\<lambda>o'. fst o' \<noteq> k) st" using assms(1) by (auto simp: store_put_def split: if_split_asm)
  then show ?thesis using assms(2) by (auto simp: shares_kept_def)
qed

lemma shares_kept_delete: "store_delete_prefix p st = Inr st' \<Longrightarrow> shares_kept st st'"
  by (auto simp: store_delete_prefix_def shares_kept_def split: if_split_asm)

lemma quiet_delete:
  assumes ok: "store_ok st" and d: "store_delete_prefix p st = Inr st'"
  shows "quiet st st'"
proof -
  have "meta_grows j st st'" for j
  proof (cases "under p (inbox_meta_key j)")
    case True
    have "st' = filter (\<lambda>o'. \<not> under p (fst o')) st"
      using d by (auto simp: store_delete_prefix_def split: if_split_asm)
    then have "map_of st' (inbox_meta_key j) = None"
      using True map_of_filter_key[of "\<lambda>x. \<not> under p x" st "inbox_meta_key j"] by simp
    then have "\<nexists>m. get_inbox_meta j st' = Inr (Some m)"
      unfolding get_inbox_meta_def store_get_def by simp
    then show ?thesis unfolding meta_grows_def by blast
  next
    case False
    then show ?thesis using inbox_meta_delete_other[OF ok d] meta_grows_refl by blast
  qed
  then show ?thesis
    using deliveries_delete[OF ok d] chunks_after_delete[OF ok d] store_delete_ok[OF ok d] metas_delete[OF d]
      shares_kept_delete[OF d]
    unfolding quiet_def calm_def by blast
qed

lemma quiet_put_meta:
  assumes ok: "store_ok st" and put: "put_inbox_meta i m' st = Inr st'" and v: "valid_random_string i 16"
    and g: "im_version m' = 1 \<Longrightarrow> \<exists>m. get_inbox_meta i st = Inr (Some m) \<and> im_key_version m \<le> im_key_version m' \<and>
      (\<forall>v. v \<le> im_key_version m \<longrightarrow> recipient_of (normal_meta m') v = recipient_of m v)"
  shows "quiet st st'"
proof -
  note e = inbox_meta_put[OF ok put v]
  have k: "im_key_version (normal_meta m') = im_key_version m'" by (simp add: normal_meta_def)
  have "meta_grows j st st'" for j
  proof (cases "j = i")
    case True
    show ?thesis unfolding True meta_grows_def e(1) using g k by (simp split: if_split)
  next
    case False
    then show ?thesis by (intro meta_grows_refl e(2))
  qed
  moreover have "deliveries j st' \<subseteq> deliveries j st" if "valid_random_string j 16" for j using e(3)[of j] that by blast
  moreover have "metas_ok st'" if "metas_ok st"
    using metas_put[of "inbox_meta_key i"] put meta_names(1)[OF v] that unfolding put_inbox_meta_def by blast
  moreover have "shares_kept st st'"
    using shares_kept_put[of "inbox_meta_key i"] put unfolding put_inbox_meta_def by (simp add: inbox_key_def inbox_segments[OF v])
  ultimately show ?thesis using e(4,5) unfolding quiet_def calm_def by simp
qed

lemma quiet_put_stamp:
  assumes ok: "store_ok st" and put: "store_put (delivery_time_key i d) b st = Inr st'"
    and v: "valid_random_string i 16" "valid_delivery_id d"
  shows "quiet st st'" "valid_random_string j 16 \<Longrightarrow> deliveries j st' = deliveries j st"
    "get_inbox_meta j st' = get_inbox_meta j st" "chunks_of s st' = chunks_of s st"
proof -
  show del: "deliveries j st' = deliveries j st" if "valid_random_string j 16" for j
    by (rule deliveries_put_other[OF ok put]) (simp add: under_inbox[OF that] inbox_segments[OF v(1)] v(2))
  show m: "get_inbox_meta j st' = get_inbox_meta j st" for j
  proof (rule inbox_meta_put_other[OF ok put], rule notI)
    assume e: "delivery_time_key i d = inbox_meta_key j"
    have "segments (inbox_meta_key j) = ''inboxes'' # segments j @ [''meta'']"
      unfolding inbox_meta_key_def using segments_append[of j "''meta''"] by simp
    then have "last (segments (delivery_time_key i d)) = ''meta''" using e by simp
    then have "d = ''meta''" using inbox_segments(5)[OF v(1,2)] by simp
    then show False using valid_random_chars(1) v(2) unfolding valid_delivery_id_def by fastforce
  qed
  have k: "inbox_key (delivery_time_key i d)" by (simp add: inbox_key_def inbox_segments[OF v(1)] v(2))
  then show c: "chunks_of s st' = chunks_of s st" for s by (rule chunks_put_inbox[OF ok put])
  show "quiet st st'" using c del m meta_grows_refl store_put_ok[OF ok put] metas_put[OF put] meta_names(3)[OF v]
      shares_kept_put[OF put k]
    unfolding quiet_def calm_def by simp
qed

lemma calm_create:
  assumes ok: "store_ok st" and put: "put_meta i m st = Inr st'"
  shows "calm st st'"
proof -
  obtain k where k: "meta_key i = Some k" and p: "store_put k (Share_Meta m) st = Inr st'"
    using put by (auto simp: put_meta_def split: option.splits)
  obtain q where q: "prefix_for i = Some q" "k = q @ ''meta''" using k by (auto simp: meta_key_def)
  have "under q k" using under_prefix_for[OF q(1)] unfolding q(2) has_prefix_iff by blast
  then have n: "\<not> inbox_key k" by (rule share_not_inbox[OF q(1)])
  have "k \<noteq> inbox_meta_key j" for j using n by (auto simp: inbox_key_def inbox_meta_key_def)
  then have "meta_grows j st st'" for j by (intro meta_grows_refl inbox_meta_put_other[OF ok p])
  moreover have "deliveries j st' = deliveries j st" if "valid_random_string j 16" for j
    by (rule deliveries_put_other[OF ok p not_under_delivery[OF that n]])
  moreover have "chunks_of s st' \<subseteq> chunks_of s st" for s
  proof (cases "prefix_for s")
    case (Some r)
    have "seq_from_key k = None" by (rule seq_from_meta_key[OF k])
    then show ?thesis
      unfolding chunks_of_def Some option.case
      by (cases "under r k") (auto simp: disk.objects_put[OF ok p] disk.objects_put_other[OF ok p])
  qed (simp add: chunks_of_def)
  moreover have "meta_name k" using n by (simp add: meta_name_def)
  ultimately show ?thesis using store_put_ok[OF ok p] metas_put[OF p] unfolding calm_def by simp
qed

text \<open>Metadata that is read can be put back with more.\<close>

lemma get_inbox_meta_valid: "get_inbox_meta i st = Inr (Some m) \<Longrightarrow> valid_random_string i 16"
  by (simp add: get_inbox_meta_def split: if_split_asm)

lemma get_inbox_meta_normal:
  assumes "get_inbox_meta i st = Inr (Some m)"
  shows "im_version m = 1" "im_recipients m = None \<Longrightarrow> im_recipient m = []" "normal_meta m = m"
proof -
  obtain m0 where "im_version m0 = 1" "m = normal_meta m0"
    using assms unfolding get_inbox_meta_def normal_meta_def
    by (auto split: if_split_asm sum.split_asm store_error.split_asm blob.split_asm)
  then show "im_version m = 1" "im_recipients m = None \<Longrightarrow> im_recipient m = []" "normal_meta m = m"
    by (auto simp: normal_meta_def split: if_split_asm)
qed

lemma quiet_update:
  assumes ok: "store_ok st" and g: "get_inbox_meta i st = Inr (Some m)" and put: "put_inbox_meta i m' st = Inr st'"
    and same: "im_recipients m' = im_recipients m" "im_recipient m' = im_recipient m" "im_key_version m' = im_key_version m"
  shows "quiet st st'"
proof (rule quiet_put_meta[OF ok put get_inbox_meta_valid[OF g]])
  have "recipient_of (normal_meta m') v = recipient_of (normal_meta m) v" for v
    by (simp add: normal_meta_def recipient_of_def same)
  then show "\<exists>m. get_inbox_meta i st = Inr (Some m) \<and> im_key_version m \<le> im_key_version m' \<and>
      (\<forall>v. v \<le> im_key_version m \<longrightarrow> recipient_of (normal_meta m') v = recipient_of m v)"
    using g same(3) get_inbox_meta_normal(3)[OF g] by simp
qed

lemma rotate_quiet:
  assumes ok: "store_ok st" and r: "rotate_commit pr st = (rep, st')"
  shows "quiet st st'"
proof (cases "get_inbox_meta (fst pr) st")
  case (Inr om)
  show ?thesis
  proof (cases om)
    case None
    then show ?thesis using r Inr quiet_refl[OF ok] by (simp add: rotate_commit_def)
  next
    case (Some m)
    then have g: "get_inbox_meta (fst pr) st = Inr (Some m)" using Inr by simp
    have known: "recipient_of (normal_meta (rotated (snd pr) m)) v = recipient_of m v" if "v \<le> im_key_version m" for v
      using that get_inbox_meta_normal(2)[OF g]
      by (auto simp: normal_meta_def rotated_def recipient_of_def Let_def split: option.splits)
    show ?thesis
    proof (cases "put_inbox_meta (fst pr) (rotated (snd pr) m) st")
      case (Inr st1)
      then have "st' = st1" using r g by (simp add: rotate_commit_def)
      moreover have "quiet st st1"
        by (rule quiet_put_meta[OF ok Inr get_inbox_meta_valid[OF g]])
           (use g known in \<open>auto simp: rotated_def Let_def\<close>)
      ultimately show ?thesis by simp
    qed (use r g quiet_refl[OF ok] in \<open>simp add: rotate_commit_def\<close>)
  qed
qed (use r quiet_refl[OF ok] in \<open>simp add: rotate_commit_def\<close>)

lemma secret_quiet:
  assumes ok: "store_ok st" and r: "secret_commit hash c pr st = (rep, st')"
  shows "quiet st st'"
proof -
  obtain i secret header where pr: "pr = (i, secret, header)" by (cases pr)
  show ?thesis
  proof (cases "get_inbox_meta i st")
    case (Inr om)
    show ?thesis
    proof (cases om)
      case None
      then show ?thesis using r Inr quiet_refl[OF ok] by (simp add: secret_commit_def pr)
    next
      case (Some m)
      then have g: "get_inbox_meta i st = Inr (Some m)" using Inr by simp
      define m' where "m' = (if secret = [] then m\<lparr>im_secret_hash := [], im_secret_header := []\<rparr>
                       else m\<lparr>im_secret_hash := hash secret,
                              im_secret_header := (if header = [] then rc_secret_header c else header)\<rparr>)"
      have same: "im_recipients m' = im_recipients m" "im_recipient m' = im_recipient m" "im_key_version m' = im_key_version m"
        by (simp_all add: m'_def)
      have st': "(case put_inbox_meta i m' st of Inl e \<Rightarrow> (Status 500, st) | Inr st' \<Rightarrow> (SecretHeader (im_secret_header m'), st')) = (rep, st')"
        using r unfolding secret_commit_def pr prod.case g sum.case option.case Let_def m'_def .
      show ?thesis
      proof (cases "put_inbox_meta i m' st")
        case (Inr st1)
        then show ?thesis using st' quiet_update[OF ok g Inr same] by simp
      qed (use st' quiet_refl[OF ok] in simp)
    qed
  qed (use r quiet_refl[OF ok] in \<open>simp add: secret_commit_def pr\<close>)
qed

lemma poll_quiet:
  assumes ok: "store_ok st" and r: "finish_inbox_poll hash i auth page now st = (rep, st')"
  shows "quiet st st'"
proof (cases "authorise_inbox hash im_fetch_hash i auth st")
  case (Inr m)
  then have g: "get_inbox_meta i st = Inr (Some m)"
    by (auto simp: authorise_inbox_def split: sum.splits option.splits if_split_asm)
  show ?thesis
  proof (cases "put_inbox_meta i (m\<lparr>im_polled := milli now\<rparr>) st")
    case p: (Inr st1)
    then show ?thesis using r Inr quiet_update[OF ok g p] by (simp add: finish_inbox_poll_def)
  qed (use r Inr quiet_refl[OF ok] in \<open>simp add: finish_inbox_poll_def\<close>)
qed (use r quiet_refl[OF ok] in \<open>simp add: finish_inbox_poll_def\<close>)

lemma delete_delivery_quiet:
  assumes ok: "store_ok st" and r: "delete_inbox_delivery i d st = (b, st')"
  shows "quiet st st'"
proof (cases "store_delete_prefix (delivery_key i d) st")
  case (Inr st1)
  have q: "quiet st st1" by (rule quiet_delete[OF ok Inr])
  show ?thesis
  proof (cases "store_delete_prefix (delivery_time_key i d) st1")
    case d: (Inr st2)
    have "quiet st1 st2" by (rule quiet_delete[OF quietD(1)[OF q] d])
    then show ?thesis using r Inr d quiet_trans[OF q] by (simp add: delete_inbox_delivery_def)
  qed (use r Inr q in \<open>simp add: delete_inbox_delivery_def\<close>)
qed (use r quiet_refl[OF ok] in \<open>simp add: delete_inbox_delivery_def\<close>)

lemma acknowledge_quiet:
  assumes ok: "store_ok st" and r: "handle_acknowledge hash i auth d st = (rep, st')"
  shows "quiet st st'"
proof (cases "authorise_inbox hash im_ack_hash i auth st")
  case (Inr m)
  obtain b st1 where d: "delete_inbox_delivery i d st = (b, st1)" by fastforce
  show ?thesis using r Inr d delete_delivery_quiet[OF ok d] quiet_refl[OF ok]
    by (auto simp: handle_acknowledge_def split: if_split_asm bool.split_asm)
qed (use r quiet_refl[OF ok] in \<open>simp add: handle_acknowledge_def\<close>)

lemma revoke_quiet: "store_ok st \<Longrightarrow> revoke_commit i st = (rep, st') \<Longrightarrow> quiet st st'"
  using quiet_refl quiet_delete by (fastforce simp: revoke_commit_def split: sum.splits)

lemma expire_one_quiet:
  assumes ok: "store_ok st" and r: "expire_inbox_delivery c now i d st = (b, st')"
    and v: "valid_random_string i 16" "valid_delivery_id d"
  shows "quiet st st'"
proof (cases "store_get st (delivery_time_key i d)")
  case (Inr x)
  obtain b1 st1 where d: "delete_inbox_delivery i d st = (b1, st1)" by fastforce
  show ?thesis
    using r Inr d delete_delivery_quiet[OF ok d] quiet_refl[OF ok]
    by (cases x) (auto simp: expire_inbox_delivery_def split: if_split_asm)
next
  case (Inl e)
  show ?thesis
  proof (cases "e = NotFound")
    case True
    show ?thesis
    proof (cases "store_put (delivery_time_key i d) (Stamp (milli now)) st")
      case p: (Inr st1)
      then show ?thesis using r Inl True quiet_put_stamp(1)[OF ok p v] by (simp add: expire_inbox_delivery_def)
    qed (use r Inl True quiet_refl[OF ok] in \<open>simp add: expire_inbox_delivery_def\<close>)
  next
    case False
    then show ?thesis using r Inl quiet_refl[OF ok] by (cases e) (simp_all add: expire_inbox_delivery_def)
  qed
qed

lemma expire_quiet:
  "store_ok st \<Longrightarrow> valid_random_string i 16 \<Longrightarrow> \<forall>d \<in> set ds. valid_delivery_id d \<Longrightarrow>
     expire_deliveries c now i ds st = (b, st') \<Longrightarrow> quiet st st'"
proof (induction ds arbitrary: st)
  case (Cons d ds)
  obtain b1 st1 where e: "expire_inbox_delivery c now i d st = (b1, st1)" by fastforce
  have q: "quiet st st1" by (rule expire_one_quiet[OF Cons.prems(1) e Cons.prems(2)]) (use Cons.prems(3) in simp)
  show ?case
  proof (cases b1)
    case True
    then have "expire_deliveries c now i ds st1 = (b, st')" using Cons.prems(4) e by simp
    then show ?thesis using Cons.IH[OF quietD(1)[OF q] Cons.prems(2)] Cons.prems(3) quiet_trans[OF q] by simp
  next
    case False
    then show ?thesis using Cons.prems(4) e q by simp
  qed
qed (simp add: quiet_refl)

lemma listed_ids_valid: "\<forall>d \<in> set (List.map_filter (\<lambda>o'. delivery_id_from_key (fst o')) objs). valid_delivery_id d"
  by (induction objs) (auto simp: List.map_filter_simps delivery_id_from_key_def Let_def split: option.splits if_split_asm)

lemma sweep_inbox_quiet:
  assumes ok: "store_ok st" and v: "valid_random_string i 16" and r: "sweep_inbox c now i st = (b, st')"
  shows "quiet st st'"
proof (cases "store_get st (inbox_meta_key i)")
  case (Inl e)
  then show ?thesis using r quiet_refl[OF ok] by (cases e) (simp_all add: sweep_inbox_def)
next
  case (Inr x)
  show ?thesis
  proof (cases x)
    case (Inbox_Meta m)
    define polled where "polled = (if im_polled m = 0 then milli now else im_polled m)"
    define up where "up = (if im_polled m = 0 then put_inbox_meta i (m\<lparr>im_polled := polled\<rparr>) st else Inr st)"
    have run: "(case up of
             Inl e \<Rightarrow> (False, st)
           | Inr st1 \<Rightarrow>
               if polled > 0 \<and> past now polled (rc_inbox_ttl c)
               then (case store_delete_prefix (''inboxes/'' @ i) st1 of Inl e \<Rightarrow> (False, st1) | Inr st2 \<Rightarrow> (True, st2))
               else case store_list (delivery_prefix i) st1 of
                 Inl e \<Rightarrow> (False, st1)
               | Inr objs \<Rightarrow> expire_deliveries c now i (List.map_filter (\<lambda>o'. delivery_id_from_key (fst o')) objs) st1) = (b, st')"
      using r unfolding sweep_inbox_def Inr sum.case Inbox_Meta blob.case Let_def polled_def up_def .
    show ?thesis
    proof (cases up)
      case (Inl e)
      then show ?thesis using run quiet_refl[OF ok] by simp
    next
      case u: (Inr st1)
      have q: "quiet st st1"
      proof (cases "im_polled m = 0")
        case True
        then have put: "put_inbox_meta i (m\<lparr>im_polled := polled\<rparr>) st = Inr st1" using u by (simp add: up_def)
        show ?thesis
        proof (rule quiet_put_meta[OF ok put v])
          assume "im_version (m\<lparr>im_polled := polled\<rparr>) = 1"
          then have g: "get_inbox_meta i st = Inr (Some (normal_meta m))"
            using Inr Inbox_Meta v by (simp add: get_inbox_meta_def normal_meta_def)
          have "recipient_of (normal_meta (m\<lparr>im_polled := polled\<rparr>)) w = recipient_of (normal_meta m) w" for w
            by (simp add: normal_meta_def recipient_of_def)
          then show "\<exists>m0. get_inbox_meta i st = Inr (Some m0) \<and> im_key_version m0 \<le> im_key_version (m\<lparr>im_polled := polled\<rparr>) \<and>
              (\<forall>w. w \<le> im_key_version m0 \<longrightarrow> recipient_of (normal_meta (m\<lparr>im_polled := polled\<rparr>)) w = recipient_of m0 w)"
            using g by (simp add: normal_meta_def)
        qed
      next
        case False
        then show ?thesis using u quiet_refl[OF ok] by (simp add: up_def)
      qed
      have ok1: "store_ok st1" by (rule quietD(1)[OF q])
      have "quiet st1 st'"
      proof (cases "polled > 0 \<and> past now polled (rc_inbox_ttl c)")
        case True
        then show ?thesis using run u quiet_delete[OF ok1] quiet_refl[OF ok1]
          by (auto split: sum.split_asm)
      next
        case False
        show ?thesis
        proof (cases "store_list (delivery_prefix i) st1")
          case (Inr objs)
          then have "expire_deliveries c now i (List.map_filter (\<lambda>o'. delivery_id_from_key (fst o')) objs) st1 = (b, st')"
            using run False by (simp only: u sum.case if_False)
          then show ?thesis by (rule expire_quiet[OF ok1 v listed_ids_valid])
        qed (use run u False quiet_refl[OF ok1] in auto)
      qed
      then show ?thesis by (rule quiet_trans[OF q])
    qed
  qed (use r Inr quiet_refl[OF ok] in \<open>simp_all add: sweep_inbox_def\<close>)
qed

lemma create_calm: "store_ok st \<Longrightarrow> handle_create hash c allowed now rnd token st = (rep, st') \<Longrightarrow> calm st st'"
  using quietD(7)[OF quiet_refl] calm_create
  by (fastforce simp: handle_create_def Let_def split: if_split_asm sum.split_asm)

lemma share_delete_quiet: "store_ok st \<Longrightarrow> handle_delete hash i auth st = (rep, st') \<Longrightarrow> quiet st st'"
  using quiet_refl quiet_delete by (fastforce simp: handle_delete_def split: option.split_asm sum.split_asm)

lemma sweep_day_quiet: "store_ok st \<Longrightarrow> sweep_day c now k st = Inr st' \<Longrightarrow> quiet st st'"
  using quiet_refl quiet_delete by (fastforce simp: sweep_day_def Let_def split: if_split_asm)

section \<open>Registration and ingestion\<close>

text \<open>A registration is refused, or it writes the metadata of its id.\<close>

lemma register_cases:
  assumes ok: "store_ok st" and r: "handle_register hash parse c auth req t now st = (rep, st')"
    and v: "valid_random_string (it_id t) 16"
  obtains (refused) n where "st' = st" "rep = Status n"
  | (registered) m where "put_inbox_meta (it_id t) m st = Inr st'" "im_version m = 1"
      "\<And>j. j \<noteq> it_id t \<Longrightarrow> get_inbox_meta j st' = get_inbox_meta j st"
      "\<And>j. valid_random_string j 16 \<Longrightarrow> deliveries j st' = deliveries j st"
      "\<And>s. chunks_of s st' = chunks_of s st" "store_ok st'" "metas_ok st \<longrightarrow> metas_ok st'" "shares_kept st st'"
proof (cases "\<exists>n. st' = st \<and> rep = Status n")
  case True
  then show ?thesis using refused by blast
next
  case False
  then obtain m where m: "put_inbox_meta (it_id t) m st = Inr st'" "im_version m = 1"
    using r unfolding handle_register_def Let_def
    by (auto split: if_split_asm option.split_asm sum.split_asm)
  have p: "store_put (inbox_meta_key (it_id t)) (Inbox_Meta m) st = Inr st'" using m(1) by (simp add: put_inbox_meta_def)
  from metas_put[OF this meta_names(1)[OF v]] have "metas_ok st \<longrightarrow> metas_ok st'" by blast
  moreover have "shares_kept st st'" by (rule shares_kept_put[OF p]) (simp add: inbox_key_def inbox_segments[OF v])
  moreover note e = inbox_meta_put[OF ok m(1) v]
  have "deliveries j st' = deliveries j st" if "valid_random_string j 16" for j using e(3) that by blast
  ultimately show ?thesis using registered[OF m e(2)] e(4,5) by blast
qed

text \<open>What an ingestion does under the lock.\<close>

lemma under_own_delivery:
  assumes "valid_random_string i 16" "valid_delivery_id d"
  shows "under (delivery_prefix i) (delivery_key i d)" "valid_random_string j 16 \<Longrightarrow> j \<noteq> i \<Longrightarrow> \<not> under (delivery_prefix j) (delivery_key i d)"
    "inbox_key (delivery_key i d)" "delivery_key i d \<noteq> inbox_meta_key j"
proof -
  show "under (delivery_prefix i) (delivery_key i d)"
    by (simp add: under_inbox[OF assms(1)] inbox_segments(4)[OF assms])
  show "inbox_key (delivery_key i d)" by (simp add: inbox_key_def inbox_segments(4)[OF assms])
  show "\<not> under (delivery_prefix j) (delivery_key i d)" if "valid_random_string j 16" "j \<noteq> i"
    using that by (simp add: under_inbox[OF that(1)] inbox_segments(4)[OF assms])
  have "last (segments (inbox_meta_key j)) = ''meta''"
    unfolding inbox_meta_key_def using segments_append[of "''inboxes/'' @ j" "''meta''"] by simp
  moreover have "last (segments (delivery_key i d)) = d" by (simp add: inbox_segments(4)[OF assms])
  ultimately show "delivery_key i d \<noteq> inbox_meta_key j" using delivery_not_meta[OF assms(2)] by metis
qed

lemma ingest_commit_cases:
  assumes ok: "store_ok st" and r: "ingest_commit c now p st = (rep, st')"
    and v: "valid_random_string (pi_inbox p) 16" "valid_delivery_id (pi_delivery p)"
  obtains (refused) n where "quiet st st'" "rep = Status n"
  | (stored) "rep = Ingested (pi_delivery p)" "store_ok st'" "metas_ok st \<longrightarrow> metas_ok st'"
      "deliveries (pi_inbox p) st' =
         insert (delivery_key (pi_inbox p) (pi_delivery p), Bytes (pi_ciphertext p))
           {o' \<in> deliveries (pi_inbox p) st. fst o' \<noteq> delivery_key (pi_inbox p) (pi_delivery p)}"
      "\<And>j. valid_random_string j 16 \<Longrightarrow> j \<noteq> pi_inbox p \<Longrightarrow> deliveries j st' = deliveries j st"
      "\<And>j. get_inbox_meta j st' = get_inbox_meta j st" "\<And>s. chunks_of s st' = chunks_of s st"
      "int (card (deliveries (pi_inbox p) st)) < rc_max_pending c"
      "(\<Sum>o' \<in> deliveries (pi_inbox p) st. blob_size (snd o')) + int (length (pi_ciphertext p)) \<le> rc_max_pending_bytes c"
      "shares_kept st st'"
proof (cases "store_list (delivery_prefix (pi_inbox p)) st")
  case (Inl e)
  then show ?thesis using r refused quiet_refl[OF ok] by (auto simp: ingest_commit_def)
next
  case (Inr objs)
  define total where "total = (\<Sum>o' \<leftarrow> objs. blob_size (snd o'))"
  have total: "total = (\<Sum>o' \<in> deliveries (pi_inbox p) st. blob_size (snd o'))"
    unfolding total_def deliveries_def by (rule disk.list_sum(1)[OF ok Inr])
  have len: "length objs = card (deliveries (pi_inbox p) st)"
    using disk.list_filter(2)[OF ok Inr, of "\<lambda>_. True"] unfolding deliveries_def by simp
  define tk where "tk = delivery_time_key (pi_inbox p) (pi_delivery p)"
  define dk where "dk = delivery_key (pi_inbox p) (pi_delivery p)"
  have run: "ingest_commit c now p st =
     (if int (length objs) \<ge> rc_max_pending c then (Status 413, st)
      else if total + int (length (pi_ciphertext p)) > rc_max_pending_bytes c then (Status 413, st)
      else case put_inbox_delivery now p st of
            (False, st') \<Rightarrow> (Status 500, st')
          | (True, st') \<Rightarrow> (Ingested (pi_delivery p), st'))"
    unfolding ingest_commit_def Inr sum.case total_def ..
  show ?thesis
  proof (cases "int (length objs) \<ge> rc_max_pending c \<or> total + int (length (pi_ciphertext p)) > rc_max_pending_bytes c")
    case True
    then show ?thesis using r refused quiet_refl[OF ok] unfolding run by (auto split: if_split_asm)
  next
    case False
    then have r': "(case put_inbox_delivery now p st of
            (False, st') \<Rightarrow> (Status 500, st')
          | (True, st') \<Rightarrow> (Ingested (pi_delivery p), st')) = (rep, st')"
      using r unfolding run by (simp only: de_Morgan_disj if_False)
    show ?thesis
    proof (cases "store_put tk (Stamp (milli now)) st")
      case e: (Inl e)
      then show ?thesis using r' refused quiet_refl[OF ok] by (auto simp: put_inbox_delivery_def Let_def tk_def)
    next
      case s1: (Inr st1)
      note q1 = quiet_put_stamp[OF ok s1[unfolded tk_def] v]
      have ok1: "store_ok st1" using q1(1) quietD(1) by blast
      show ?thesis
      proof (cases "store_put dk (Bytes (pi_ciphertext p)) st1")
        case e: (Inl e)
        have run2: "put_inbox_delivery now p st = (False, case store_delete_prefix tk st1 of Inl e' \<Rightarrow> st1 | Inr st2 \<Rightarrow> st2)"
          unfolding put_inbox_delivery_def Let_def using s1 e by (simp add: tk_def dk_def)
        have "quiet st1 (case store_delete_prefix tk st1 of Inl e' \<Rightarrow> st1 | Inr st2 \<Rightarrow> st2)"
          using quiet_refl[OF ok1] quiet_delete[OF ok1] by (cases "store_delete_prefix tk st1") auto
        then show ?thesis using r' refused quiet_trans[OF q1(1)] unfolding run2 by auto
      next
        case s2: (Inr st2)
        have st2: "rep = Ingested (pi_delivery p)" "st' = st2"
          using r' s1 s2 by (simp_all add: put_inbox_delivery_def Let_def tk_def dk_def)
        note u = under_own_delivery[OF v, folded dk_def]
        note put = disk.objects_put[OF ok1 s2] disk.objects_put_other[OF ok1 s2]
        have "deliveries (pi_inbox p) st2 = insert (dk, Bytes (pi_ciphertext p)) {o' \<in> deliveries (pi_inbox p) st. fst o' \<noteq> dk}"
          using put(1)[OF u(1)] q1(2)[OF v(1)] by (simp add: deliveries_def)
        moreover have "deliveries j st2 = deliveries j st" if "valid_random_string j 16" "j \<noteq> pi_inbox p" for j
          using put(2)[OF u(2)[OF that]] q1(2)[OF that(1)] by (simp add: deliveries_def)
        moreover have "get_inbox_meta j st2 = get_inbox_meta j st" for j
          using inbox_meta_put_other[OF ok1 s2 u(4)] q1(3) by simp
        moreover have "chunks_of s st2 = chunks_of s st" for s
          using chunks_put_inbox[OF ok1 s2 u(3)] q1(4) by simp
        moreover have "shares_kept st st2"
          by (rule shares_kept_trans[OF quietD(6)[OF q1(1)] shares_kept_put[OF s2 u(3)]])
        moreover have "metas_ok st \<longrightarrow> metas_ok st2"
          using quietD(5)[OF q1(1)] metas_put[OF s2] meta_names(2)[OF v] unfolding dk_def by blast
        ultimately show ?thesis
          using stored store_put_ok[OF ok1 s2] False unfolding st2 total len dk_def by simp
      qed
    qed
  qed
qed

section \<open>Retained headers\<close>

text \<open>Every value of a header that is not dropped, and the size charged for the lot.\<close>

definition kept_headers :: "string \<Rightarrow> (string \<times> string list) list \<Rightarrow> (string \<times> string) list" where
  "kept_headers secret_header src =
     concat (map (\<lambda>h. map (\<lambda>v. (fst h, v)) (snd h)) (filter (\<lambda>h. \<not> header_dropped secret_header (fst h)) src))"

definition header_bytes :: "(string \<times> string) list \<Rightarrow> int" where
  "header_bytes hs = (\<Sum>h \<leftarrow> hs. int (length (fst h) + length (snd h) + 4))"

lemma header_bytes_simps [simp]:
  "header_bytes [] = 0" "header_bytes (h # hs) = int (length (fst h) + length (snd h) + 4) + header_bytes hs"
  "header_bytes (hs @ hs') = header_bytes hs + header_bytes hs'"
  by (auto simp: header_bytes_def)

lemma header_bytes_nonneg: "0 \<le> header_bytes hs"
  by (auto simp: header_bytes_def intro!: sum_list_nonneg)

lemma retain_values_eq:
  "sz \<le> limit \<Longrightarrow> retain_values name vs limit sz out =
     (let kept = map (\<lambda>v. (name, v)) vs in
      if sz + header_bytes kept \<le> limit then Some (sz + header_bytes kept, out @ kept) else None)"
proof (induction vs arbitrary: sz out)
  case (Cons v vs)
  have "0 \<le> header_bytes (map (\<lambda>v. (name, v)) vs)" by (rule header_bytes_nonneg)
  then show ?case using Cons by (auto simp: Let_def)
qed (simp add: Let_def)

lemma retain_headers_eq:
  "sz \<le> limit \<Longrightarrow> retain_headers sh src limit sz out =
     (if sz + header_bytes (kept_headers sh src) \<le> limit then Some (out @ kept_headers sh src) else None)"
proof (induction src arbitrary: sz out)
  case (Cons h src)
  obtain name vs where h: "h = (name, vs)" by (cases h) simp
  define kept where "kept = map (\<lambda>v. (name, v)) vs"
  have nn: "0 \<le> header_bytes (kept_headers sh src)" by (rule header_bytes_nonneg)
  show ?case
  proof (cases "header_dropped sh name")
    case True
    then show ?thesis using Cons by (simp add: h kept_headers_def)
  next
    case False
    have k: "kept_headers sh (h # src) = kept @ kept_headers sh src" using False by (simp add: h kept_headers_def kept_def)
    have v: "retain_values name vs limit sz out = (if sz + header_bytes kept \<le> limit then Some (sz + header_bytes kept, out @ kept) else None)"
      using retain_values_eq[OF Cons.prems, of name vs out] by (simp add: Let_def kept_def)
    show ?thesis
    proof (cases "sz + header_bytes kept \<le> limit")
      case True
      then have "retain_headers sh (h # src) limit sz out = retain_headers sh src limit (sz + header_bytes kept) (out @ kept)"
        using False v by (simp add: h)
      then show ?thesis using Cons.IH[OF True, of "out @ kept"] by (simp add: k add.assoc)
    next
      case no: False
      then have "retain_headers sh (h # src) limit sz out = None" using False v by (simp add: h)
      then show ?thesis using no nn by (simp add: k)
    qed
  qed
qed (simp add: kept_headers_def)

lemma retained_headers_eq:
  "0 \<le> limit \<Longrightarrow> retained_headers src sh limit =
     (if header_bytes (kept_headers sh src) \<le> limit then Some (kept_headers sh src) else None)"
  using retain_headers_eq[of 0 limit sh src "[]"] by (simp add: retained_headers_def)

lemma kept_header_names: "(n, v) \<in> set (kept_headers sh src) \<Longrightarrow> \<not> header_dropped sh n"
  by (auto simp: kept_headers_def)

section \<open>What a pending delivery holds\<close>

definition inbox_ok :: "relay_config \<Rightarrow> string \<Rightarrow> objects \<Rightarrow> bool" where
  "inbox_ok c i st \<longleftrightarrow> int (card (deliveries i st)) \<le> rc_max_pending c \<and>
     (\<Sum>o' \<in> deliveries i st. blob_size (snd o')) \<le> rc_max_pending_bytes c"

definition envelope_ok :: "relay_config \<Rightarrow> envelope \<Rightarrow> bool" where
  "envelope_ok c en \<longleftrightarrow> int (length (en_body en)) \<le> rc_max_body c \<and> header_bytes (en_header en) \<le> rc_max_headers c \<and>
     (\<forall>h \<in> set (en_header en). ascii_lower (fst h) \<notin> set sensitive_headers)"

text \<open>A ciphertext is a valid envelope sealed for the recipient the inbox records for its key version.\<close>

definition sealed_for ::
  "(string \<Rightarrow> string option) \<Rightarrow> (string \<Rightarrow> envelope \<Rightarrow> string option) \<Rightarrow> relay_config \<Rightarrow>
     string \<Rightarrow> string \<Rightarrow> string \<Rightarrow> objects \<Rightarrow> bool"
where
  "sealed_for parse seal c i d ct st \<longleftrightarrow>
     (\<exists>en r0 r. parse r0 = Some r \<and> seal r en = Some ct \<and> en_inbox en = i \<and> en_delivery en = d \<and> envelope_ok c en \<and>
        (\<forall>m. get_inbox_meta i st = Inr (Some m) \<longrightarrow>
           en_key_version en \<le> im_key_version m \<and> recipient_of m (en_key_version en) = r0))"

lemma sealed_grows: "sealed_for parse seal c i d ct st \<Longrightarrow> meta_grows i st st' \<Longrightarrow> sealed_for parse seal c i d ct st'"
proof -
  assume s: "sealed_for parse seal c i d ct st" and g: "meta_grows i st st'"
  obtain en r0 r where e: "parse r0 = Some r" "seal r en = Some ct" "en_inbox en = i" "en_delivery en = d" "envelope_ok c en"
    and m: "\<And>m. get_inbox_meta i st = Inr (Some m) \<Longrightarrow> en_key_version en \<le> im_key_version m \<and> recipient_of m (en_key_version en) = r0"
    using s unfolding sealed_for_def by blast
  have "en_key_version en \<le> im_key_version m' \<and> recipient_of m' (en_key_version en) = r0"
    if m': "get_inbox_meta i st' = Inr (Some m')" for m'
  proof -
    obtain m0 where "get_inbox_meta i st = Inr (Some m0)" "im_key_version m0 \<le> im_key_version m'"
        "\<forall>v. v \<le> im_key_version m0 \<longrightarrow> recipient_of m' v = recipient_of m0 v"
      using g m' unfolding meta_grows_def by blast
    then show ?thesis using m by fastforce
  qed
  then show ?thesis unfolding sealed_for_def using e by blast
qed

lemma ingest_begin_sealed:
  assumes r: "ingest_begin hash parse seal c i w allowed d now st = Inr p" and h: "0 \<le> rc_max_headers c"
  shows "pi_inbox p = i" "pi_delivery p = d" "valid_random_string i 16" "sealed_for parse seal c i d (pi_ciphertext p) st"
proof -
  obtain m recipient body headers ct where g: "get_inbox_meta i st = Inr (Some m)"
    and a: "parse (recipient_of m (im_key_version m)) = Some recipient" "\<not> int (length body) > rc_max_body c"
      "retained_headers (wh_headers w) (im_secret_header m) (rc_max_headers c) = Some headers"
      "seal recipient \<lparr>en_version = 1, en_key_version = im_key_version m, en_inbox = i, en_delivery = d,
           en_body = body, en_method = wh_method w, en_header = headers, en_query = wh_query w,
           en_received = milli now\<rparr> = Some ct"
    and p: "p = \<lparr>pi_inbox = i, pi_delivery = d, pi_ciphertext = ct\<rparr>"
    using r unfolding ingest_begin_def by (auto split: sum.split_asm option.split_asm if_split_asm)
  show "pi_inbox p = i" "pi_delivery p = d" by (simp_all add: p)
  show "valid_random_string i 16" by (rule get_inbox_meta_valid[OF g])
  have hd: "headers = kept_headers (im_secret_header m) (wh_headers w)" "header_bytes headers \<le> rc_max_headers c"
    using a(3) retained_headers_eq[OF h] by (auto split: if_split_asm)
  have "\<forall>h \<in> set headers. ascii_lower (fst h) \<notin> set sensitive_headers"
    using kept_header_names unfolding hd(1) header_dropped_def by fastforce
  then show "sealed_for parse seal c i d (pi_ciphertext p) st"
    unfolding sealed_for_def using a g p hd(2)
    by (intro exI[of _ "\<lparr>en_version = 1, en_key_version = im_key_version m, en_inbox = i, en_delivery = d,
           en_body = body, en_method = wh_method w, en_header = headers, en_query = wh_query w,
           en_received = milli now\<rparr>"] exI[of _ "recipient_of m (im_key_version m)"] exI[of _ recipient])
      (simp add: envelope_ok_def)
qed

lemma inbox_ok_subset:
  assumes "inbox_ok c i st" "deliveries i st' \<subseteq> deliveries i st" "finite (deliveries i st)"
  shows "inbox_ok c i st'"
proof -
  have "card (deliveries i st') \<le> card (deliveries i st)" by (rule card_mono[OF assms(3,2)])
  moreover have "(\<Sum>o' \<in> deliveries i st'. blob_size (snd o')) \<le> (\<Sum>o' \<in> deliveries i st. blob_size (snd o'))"
    by (rule sum_mono2[OF assms(3,2)]) (simp add: blob_size_def)
  ultimately show ?thesis using assms(1) unfolding inbox_ok_def by (meson of_nat_mono order_trans)
qed

lemma inbox_ok_insert:
  assumes f: "finite (deliveries i st)" and e: "deliveries i st' = insert (k, Bytes ct) {o' \<in> deliveries i st. fst o' \<noteq> k}"
    and n: "int (card (deliveries i st)) < rc_max_pending c"
      "(\<Sum>o' \<in> deliveries i st. blob_size (snd o')) + int (length ct) \<le> rc_max_pending_bytes c"
  shows "inbox_ok c i st'"
proof -
  let ?old = "{o' \<in> deliveries i st. fst o' \<noteq> k}"
  have "card (deliveries i st') \<le> Suc (card ?old)" unfolding e by (rule card_insert_le_m1) auto
  moreover have "card ?old \<le> card (deliveries i st)" by (rule card_mono[OF f]) auto
  moreover have "(\<Sum>o' \<in> deliveries i st'. blob_size (snd o')) = int (length ct) + (\<Sum>o' \<in> ?old. blob_size (snd o'))"
    unfolding e using f by (subst sum.insert) (auto simp: blob_size_def)
  moreover have "(\<Sum>o' \<in> ?old. blob_size (snd o')) \<le> (\<Sum>o' \<in> deliveries i st. blob_size (snd o'))"
    by (rule sum_mono2[OF f]) (auto simp: blob_size_def)
  ultimately show ?thesis using n unfolding inbox_ok_def by linarith
qed

text \<open>
  A webhook keeps every header that is not sensitive, in order, when what they are charged
  together is within the limit, and is refused otherwise: the running check does not depend on the
  order in which headers are visited, nor do dropped headers count.
\<close>

theorem retained_headers_charge_every_header:
  assumes "0 \<le> limit"
  shows "retained_headers src sh limit =
     (if header_bytes (kept_headers sh src) \<le> limit then Some (kept_headers sh src) else None) \<and>
    (\<forall>(n, v) \<in> set (kept_headers sh src). ascii_lower n \<noteq> ascii_lower sh \<and> ascii_lower n \<notin> set sensitive_headers)"
proof
  show "retained_headers src sh limit =
     (if header_bytes (kept_headers sh src) \<le> limit then Some (kept_headers sh src) else None)"
    by (rule retained_headers_eq[OF assms])
  show "\<forall>(n, v) \<in> set (kept_headers sh src). ascii_lower n \<noteq> ascii_lower sh \<and> ascii_lower n \<notin> set sensitive_headers"
    using kept_header_names by (fastforce simp: header_dropped_def)
qed

lemma retained_headers_charge_every_header_witness:
  "retained_headers [(''Cookie'', [''x'']), (''X-A'', [''1'', ''2''])] ''X-Key'' 16 = Some [(''X-A'', ''1''), (''X-A'', ''2'')] \<and>
   retained_headers [(''Cookie'', [''x'']), (''X-A'', [''1'', ''2''])] ''X-Key'' 15 = None"
proof -
  have k: "kept_headers ''X-Key'' [(''Cookie'', [''x'']), (''X-A'', [''1'', ''2''])] = [(''X-A'', ''1''), (''X-A'', ''2'')]" by code_simp
  show ?thesis
    using retained_headers_charge_every_header[of 16 "[(''Cookie'', [''x'']), (''X-A'', [''1'', ''2''])]" "''X-Key''"]
      retained_headers_charge_every_header[of 15 "[(''Cookie'', [''x'']), (''X-A'', [''1'', ''2''])]" "''X-Key''"]
    unfolding k by simp
qed

end
