(* ===== verification/Relay_Server.thy ===== *)
theory Relay_Server
  imports Relay_Inbox
begin

text \<open>
  The relay as a whole: its requests and its hourly sweep as steps on one state. The store is
  shared; a request that does its work outside the mutation lock and then takes it waits in one
  of the lists in between, so a run of steps is an interleaving of concurrent requests. The theory
  holds the invariants of every run and what survives of a revoked share or inbox.
\<close>

section \<open>State and steps\<close>

record relay =
  rl_objects :: objects
  rl_appends :: "pending_append list"
  rl_rotations :: "(string \<times> string) list"
  rl_secrets :: "(string \<times> string \<times> string) list"
  rl_revokes :: "string list"
  rl_polls :: "(string \<times> string \<times> string list \<times> string) list"
  rl_ingests :: "pending_ingest list"
  rl_sweep :: "int \<times> string list"

text \<open>What arrives (with what the clock and the random source yield), and who takes the lock next.\<close>

datatype event =
  Create bool int string string
| Begin_Append string string string "string option"
| Commit_Append nat
| Delete_Share string string
| Register string "registration option" inbox_tokens int
| Begin_Rotate string string "string option"
| Commit_Rotate nat
| Begin_Secret string string "(string option \<times> string) option"
| Commit_Secret nat
| Begin_Revoke string string
| Commit_Revoke nat
| Begin_Ingest string webhook bool string int
| Commit_Ingest nat int
| Begin_Poll string string string
| Commit_Poll nat int
| Acknowledge string string string
| Sweep_Day int nat
| Sweep_Inboxes int
| Sweep_Next

definition without :: "nat \<Rightarrow> 'a list \<Rightarrow> 'a list" where
  "without n xs = take n xs @ drop (Suc n) xs"

text \<open>A handler's reply, or the waiting request it has become.\<close>

definition parked :: "nat + 'a \<Rightarrow> ('a list \<Rightarrow> relay) \<Rightarrow> 'a list \<Rightarrow> reply option \<times> relay" where
  "parked r upd xs = (case r of Inl status \<Rightarrow> (Some (Status status), upd xs) | Inr x \<Rightarrow> (None, upd (xs @ [x])))"

definition stored :: "reply \<times> objects \<Rightarrow> relay \<Rightarrow> reply option \<times> relay" where
  "stored r s = (Some (fst r), s\<lparr>rl_objects := snd r\<rparr>)"

text \<open>The \<open>n\<close>-th waiting request takes the lock.\<close>

definition resumed ::
  "nat \<Rightarrow> 'a list \<Rightarrow> ('a \<Rightarrow> objects \<Rightarrow> reply \<times> objects) \<Rightarrow> ('a list \<Rightarrow> relay) \<Rightarrow> relay \<Rightarrow> reply option \<times> relay"
where
  "resumed n xs commit upd s =
     (if n < length xs then stored (commit (xs ! n) (rl_objects s)) (upd (without n xs)) else (None, s))"

definition begin_poll ::
  "(string \<Rightarrow> string) \<Rightarrow> string \<Rightarrow> string \<Rightarrow> string \<Rightarrow> objects \<Rightarrow> nat + string \<times> string \<times> string list \<times> string"
where
  "begin_poll hash i auth cursor st =
     (case list_begin hash i auth cursor st of Inl status \<Rightarrow> Inl status | Inr page \<Rightarrow> Inr (i, auth, page))"

definition sweep_next :: "relay_config \<Rightarrow> relay \<Rightarrow> reply option \<times> relay" where
  "sweep_next c s =
     (case rl_sweep s of
        (now, []) \<Rightarrow> (None, s)
      | (now, i # ids) \<Rightarrow>
          (case sweep_inbox c now i (rl_objects s) of
             (ok, st') \<Rightarrow> (None, s\<lparr>rl_objects := st', rl_sweep := (now, if ok then ids else [])\<rparr>)))"

fun step ::
  "(string \<Rightarrow> string) \<Rightarrow> (string \<Rightarrow> string option) \<Rightarrow> (string \<Rightarrow> envelope \<Rightarrow> string option) \<Rightarrow> relay_config \<Rightarrow>
     relay \<Rightarrow> event \<Rightarrow> reply option \<times> relay"
where
  "step hash parse seal c s (Create allowed now rnd token) =
     stored (handle_create hash c allowed now rnd token (rl_objects s)) s"
| "step hash parse seal c s (Begin_Append i auth seq body) =
     parked (append_begin hash c i auth seq body (rl_objects s)) (\<lambda>xs. s\<lparr>rl_appends := xs\<rparr>) (rl_appends s)"
| "step hash parse seal c s (Commit_Append n) =
     resumed n (rl_appends s) (append_commit c) (\<lambda>xs. s\<lparr>rl_appends := xs\<rparr>) s"
| "step hash parse seal c s (Delete_Share i auth) = stored (handle_delete hash i auth (rl_objects s)) s"
| "step hash parse seal c s (Register auth req t now) =
     stored (handle_register hash parse c auth req t now (rl_objects s)) s"
| "step hash parse seal c s (Begin_Rotate i auth req) =
     parked (rotate_begin hash parse i auth req (rl_objects s)) (\<lambda>xs. s\<lparr>rl_rotations := xs\<rparr>) (rl_rotations s)"
| "step hash parse seal c s (Commit_Rotate n) =
     resumed n (rl_rotations s) rotate_commit (\<lambda>xs. s\<lparr>rl_rotations := xs\<rparr>) s"
| "step hash parse seal c s (Begin_Secret i auth req) =
     parked (secret_begin hash i auth req (rl_objects s)) (\<lambda>xs. s\<lparr>rl_secrets := xs\<rparr>) (rl_secrets s)"
| "step hash parse seal c s (Commit_Secret n) =
     resumed n (rl_secrets s) (secret_commit hash c) (\<lambda>xs. s\<lparr>rl_secrets := xs\<rparr>) s"
| "step hash parse seal c s (Begin_Revoke i auth) =
     parked (revoke_begin hash i auth (rl_objects s)) (\<lambda>xs. s\<lparr>rl_revokes := xs\<rparr>) (rl_revokes s)"
| "step hash parse seal c s (Commit_Revoke n) =
     resumed n (rl_revokes s) revoke_commit (\<lambda>xs. s\<lparr>rl_revokes := xs\<rparr>) s"
| "step hash parse seal c s (Begin_Ingest i w allowed d now) =
     parked (ingest_begin hash parse seal c i w allowed d now (rl_objects s)) (\<lambda>xs. s\<lparr>rl_ingests := xs\<rparr>) (rl_ingests s)"
| "step hash parse seal c s (Commit_Ingest n now) =
     resumed n (rl_ingests s) (ingest_commit c now) (\<lambda>xs. s\<lparr>rl_ingests := xs\<rparr>) s"
| "step hash parse seal c s (Begin_Poll i auth cursor) =
     parked (begin_poll hash i auth cursor (rl_objects s)) (\<lambda>xs. s\<lparr>rl_polls := xs\<rparr>) (rl_polls s)"
| "step hash parse seal c s (Commit_Poll n now) =
     resumed n (rl_polls s) (\<lambda>(i, auth, page) st. finish_inbox_poll hash i auth page now st) (\<lambda>xs. s\<lparr>rl_polls := xs\<rparr>) s"
| "step hash parse seal c s (Acknowledge i auth d) = stored (handle_acknowledge hash i auth d (rl_objects s)) s"
| "step hash parse seal c s (Sweep_Day now k) =
     (None, case sweep_day c now k (rl_objects s) of Inl e \<Rightarrow> s | Inr st' \<Rightarrow> s\<lparr>rl_objects := st'\<rparr>)"
| "step hash parse seal c s (Sweep_Inboxes now) = (None, s\<lparr>rl_sweep := (now, swept_inboxes (rl_objects s))\<rparr>)"
| "step hash parse seal c s Sweep_Next = sweep_next c s"

definition empty_relay :: relay where
  "empty_relay = \<lparr>rl_objects = [], rl_appends = [], rl_rotations = [], rl_secrets = [], rl_revokes = [],
     rl_polls = [], rl_ingests = [], rl_sweep = (0, [])\<rparr>"

text \<open>
  The random source: what it yields has the length asked for, and the id of a new inbox is not one
  in use already (128 random bits).
\<close>

definition fresh_inbox :: "string \<Rightarrow> relay \<Rightarrow> bool" where
  "fresh_inbox i s \<longleftrightarrow> (\<forall>o' \<in> set (rl_objects s). \<not> under (''inboxes/'' @ i) (fst o')) \<and>
     (\<forall>p \<in> set (rl_ingests s). pi_inbox p \<noteq> i)"

fun random_ok :: "relay \<Rightarrow> event \<Rightarrow> bool" where
  "random_ok s (Create allowed now rnd token) = valid_random_string rnd 16"
| "random_ok s (Register auth req t now) = (valid_random_string (it_id t) 16 \<and> fresh_inbox (it_id t) s)"
| "random_ok s (Begin_Ingest i w allowed d now) = valid_delivery_id d"
| "random_ok s _ = True"

text \<open>Runs of the relay, with the events and the replies.\<close>

inductive relay_run ::
  "(string \<Rightarrow> string) \<Rightarrow> (string \<Rightarrow> string option) \<Rightarrow> (string \<Rightarrow> envelope \<Rightarrow> string option) \<Rightarrow> relay_config \<Rightarrow>
     relay \<Rightarrow> (event \<times> reply option) list \<Rightarrow> relay \<Rightarrow> bool"
  for hash parse seal c s0
where
  run_start: "relay_run hash parse seal c s0 [] s0"
| run_step: "relay_run hash parse seal c s0 es s \<Longrightarrow> random_ok s e \<Longrightarrow> step hash parse seal c s e = (r, s') \<Longrightarrow>
     relay_run hash parse seal c s0 (es @ [(e, r)]) s'"

inductive_cases relay_run_snocE: "relay_run hash parse seal c s0 (es @ [er]) s'"

text \<open>The same by evaluation.\<close>

fun run_events ::
  "(string \<Rightarrow> string) \<Rightarrow> (string \<Rightarrow> string option) \<Rightarrow> (string \<Rightarrow> envelope \<Rightarrow> string option) \<Rightarrow> relay_config \<Rightarrow>
     relay \<Rightarrow> event list \<Rightarrow> (reply option list \<times> relay) option"
where
  "run_events hash parse seal c s [] = Some ([], s)"
| "run_events hash parse seal c s (e # es) =
     (if random_ok s e then
        case step hash parse seal c s e of
          (r, s') \<Rightarrow> map_option (\<lambda>(rs, s''). (r # rs, s'')) (run_events hash parse seal c s' es)
      else None)"

lemma run_events_append:
  assumes "relay_run hash parse seal c s0 es s"
  shows "run_events hash parse seal c s evs = Some (rs, s') \<Longrightarrow>
    relay_run hash parse seal c s0 (es @ zip evs rs) s' \<and> length rs = length evs"
  using assms
proof (induction evs arbitrary: es s rs)
  case (Cons e evs)
  obtain r s1 where st: "step hash parse seal c s e = (r, s1)" by fastforce
  then obtain rs1 where rs: "rs = r # rs1" "run_events hash parse seal c s1 evs = Some (rs1, s')" "random_ok s e"
    using Cons.prems(1) by (auto split: if_split_asm)
  have "relay_run hash parse seal c s0 (es @ [(e, r)]) s1" by (rule run_step[OF Cons.prems(2) rs(3) st])
  from Cons.IH[OF rs(2) this] show ?case by (simp add: rs(1))
qed simp

lemma run_events_run:
  "run_events hash parse seal c s evs = Some (rs, s') \<Longrightarrow> relay_run hash parse seal c s (zip evs rs) s'"
  using run_events_append[OF run_start] by fastforce

section \<open>The invariant of every run\<close>

definition pending_sealed ::
  "(string \<Rightarrow> string option) \<Rightarrow> (string \<Rightarrow> envelope \<Rightarrow> string option) \<Rightarrow> relay_config \<Rightarrow> pending_ingest \<Rightarrow> objects \<Rightarrow> bool"
where
  "pending_sealed parse seal c p st \<longleftrightarrow> valid_random_string (pi_inbox p) 16 \<and> valid_delivery_id (pi_delivery p) \<and>
     sealed_for parse seal c (pi_inbox p) (pi_delivery p) (pi_ciphertext p) st"

definition delivery_sealed ::
  "(string \<Rightarrow> string option) \<Rightarrow> (string \<Rightarrow> envelope \<Rightarrow> string option) \<Rightarrow> relay_config \<Rightarrow> string \<Rightarrow> string \<times> blob \<Rightarrow> objects \<Rightarrow> bool"
where
  "delivery_sealed parse seal c i o' st \<longleftrightarrow>
     (\<exists>d ct. valid_delivery_id d \<and> o' = (delivery_key i d, Bytes ct) \<and> sealed_for parse seal c i d ct st)"

definition objects_ok ::
  "(string \<Rightarrow> string option) \<Rightarrow> (string \<Rightarrow> envelope \<Rightarrow> string option) \<Rightarrow> relay_config \<Rightarrow> objects \<Rightarrow> bool"
where
  "objects_ok parse seal c st \<longleftrightarrow> store_ok st \<and> metas_ok st \<and> (\<forall>i. share_ok c i st) \<and>
     (\<forall>i. valid_random_string i 16 \<longrightarrow> inbox_ok c i st \<and> (\<forall>o' \<in> deliveries i st. delivery_sealed parse seal c i o' st))"

definition waiting_ok ::
  "(string \<Rightarrow> string option) \<Rightarrow> (string \<Rightarrow> envelope \<Rightarrow> string option) \<Rightarrow> relay_config \<Rightarrow> relay \<Rightarrow> bool"
where
  "waiting_ok parse seal c s \<longleftrightarrow> (\<forall>a \<in> set (rl_appends s). append_ok c a) \<and>
     (\<forall>p \<in> set (rl_ingests s). pending_sealed parse seal c p (rl_objects s)) \<and>
     (\<forall>i \<in> set (snd (rl_sweep s)). valid_random_string i 16)"

definition relay_ok ::
  "(string \<Rightarrow> string option) \<Rightarrow> (string \<Rightarrow> envelope \<Rightarrow> string option) \<Rightarrow> relay_config \<Rightarrow> relay \<Rightarrow> bool"
where
  "relay_ok parse seal c s \<longleftrightarrow> objects_ok parse seal c (rl_objects s) \<and> waiting_ok parse seal c s"

lemma relay_okD:
  assumes "relay_ok parse seal c s"
  shows "store_ok (rl_objects s)" "metas_ok (rl_objects s)" "share_ok c i (rl_objects s)"
    "valid_random_string i 16 \<Longrightarrow> inbox_ok c i (rl_objects s)"
    "valid_random_string i 16 \<Longrightarrow> o' \<in> deliveries i (rl_objects s) \<Longrightarrow> delivery_sealed parse seal c i o' (rl_objects s)"
    "a \<in> set (rl_appends s) \<Longrightarrow> append_ok c a"
    "p \<in> set (rl_ingests s) \<Longrightarrow> pending_sealed parse seal c p (rl_objects s)"
    "j \<in> set (snd (rl_sweep s)) \<Longrightarrow> valid_random_string j 16"
  using assms unfolding relay_ok_def objects_ok_def waiting_ok_def by blast+

lemma set_without: "set (without n xs) \<subseteq> set xs"
  unfolding without_def using set_take_subset[of n xs] set_drop_subset[of "Suc n" xs] by auto

lemma meta_quietI:
  assumes "\<And>j. get_inbox_meta j st' = get_inbox_meta j st"
  shows "meta_grows j st st'"
  by (rule meta_grows_refl) (rule assms)

lemma pending_grows: "pending_sealed parse seal c p st \<Longrightarrow> meta_grows (pi_inbox p) st st' \<Longrightarrow> pending_sealed parse seal c p st'"
  using sealed_grows unfolding pending_sealed_def by blast

lemma delivery_grows: "delivery_sealed parse seal c i o' st \<Longrightarrow> meta_grows i st st' \<Longrightarrow> delivery_sealed parse seal c i o' st'"
  using sealed_grows unfolding delivery_sealed_def by blast

lemma objects_ok_calm:
  assumes ok: "objects_ok parse seal c st" and q: "calm st st'"
  shows "objects_ok parse seal c st'"
proof -
  have st: "store_ok st" "metas_ok st" using ok unfolding objects_ok_def by blast+
  have "share_ok c i st'" for i
    using share_ok_subset[OF _ calmD(4)[OF q] finite_chunks[OF st(1)]] ok unfolding objects_ok_def by blast
  moreover have "inbox_ok c i st'" if "valid_random_string i 16" for i
    using inbox_ok_subset[OF _ calmD(2)[OF q that] finite_deliveries[OF st(1)]] ok that unfolding objects_ok_def by blast
  moreover have "delivery_sealed parse seal c i o' st'"
    if v: "valid_random_string i 16" and o': "o' \<in> deliveries i st'" for i o'
  proof -
    have "o' \<in> deliveries i st" using calmD(2)[OF q v] o' by blast
    then have "delivery_sealed parse seal c i o' st" using ok v unfolding objects_ok_def by blast
    then show ?thesis by (rule delivery_grows[OF _ calmD(3)[OF q]])
  qed
  ultimately show ?thesis using calmD(1)[OF q] calmD(5)[OF q st(2)] unfolding objects_ok_def by blast
qed

text \<open>A step that only takes objects away keeps the invariant.\<close>

lemma relay_ok_calm:
  assumes ok: "relay_ok parse seal c s" and q: "calm (rl_objects s) (rl_objects s')"
    and sub: "set (rl_appends s') \<subseteq> set (rl_appends s)" "set (rl_ingests s') \<subseteq> set (rl_ingests s)"
      "set (snd (rl_sweep s')) \<subseteq> set (snd (rl_sweep s))"
  shows "relay_ok parse seal c s'"
proof -
  have "pending_sealed parse seal c p (rl_objects s')" if "p \<in> set (rl_ingests s')" for p
    using pending_grows[OF relay_okD(7)[OF ok] calmD(3)[OF q]] sub(2) that by blast
  then have "waiting_ok parse seal c s'"
    using sub ok unfolding relay_ok_def waiting_ok_def by blast
  then show ?thesis using ok objects_ok_calm[OF _ q] unfolding relay_ok_def by blast
qed

lemmas relay_ok_quiet = relay_ok_calm[OF _ quietD(7)]

lemma stored_calm:
  assumes ok: "relay_ok parse seal c s" and r: "stored (rep, st') s = (r, s')" and q: "calm (rl_objects s) st'"
  shows "relay_ok parse seal c s'"
proof -
  have s': "s' = s\<lparr>rl_objects := st'\<rparr>" using r by (simp add: stored_def)
  show ?thesis by (rule relay_ok_calm[OF ok]) (use q in \<open>simp_all add: s'\<close>)
qed

lemmas stored_quiet = stored_calm[OF _ _ quietD(7)]

lemma register_ok:
  assumes ok: "relay_ok parse seal c s" and v: "valid_random_string (it_id t) 16" and f: "fresh_inbox (it_id t) s"
    and h: "handle_register hash parse c auth req t now (rl_objects s) = (rep, st')"
  shows "relay_ok parse seal c (s\<lparr>rl_objects := st'\<rparr>)"
  using relay_okD(1)[OF ok] h v
proof (cases rule: register_cases)
  case (refused n)
  then show ?thesis using ok by simp
next
  case (registered m)
  have none: "deliveries (it_id t) (rl_objects s) = {}"
  proof -
    have "\<not> under (delivery_prefix (it_id t)) (fst o')" if "o' \<in> set (rl_objects s)" for o'
      using f that under_inbox(1,2)[OF v, of "fst o'"] unfolding fresh_inbox_def by (auto simp: prefix_def)
    moreover have "deliveries (it_id t) (rl_objects s) \<subseteq> set (rl_objects s)"
      using store_get_Inr[OF relay_okD(1)[OF ok]] by (auto simp: deliveries_def disk.objects_def)
    moreover have "o' \<in> deliveries (it_id t) (rl_objects s) \<Longrightarrow> under (delivery_prefix (it_id t)) (fst o')" for o'
      by (auto simp: deliveries_def disk.objects_def)
    ultimately show ?thesis by blast
  qed
  have grows: "meta_grows j (rl_objects s) st'" if "j \<noteq> it_id t" for j
    by (rule meta_grows_refl) (rule registered(3)[OF that])
  have "inbox_ok c i st' \<and> (\<forall>o' \<in> deliveries i st'. delivery_sealed parse seal c i o' st')"
    if i: "valid_random_string i 16" for i
  proof -
    have "delivery_sealed parse seal c i o' st'" if "o' \<in> deliveries i st'" for o'
    proof (cases "i = it_id t")
      case True
      then show ?thesis using that registered(4)[OF i] none by simp
    next
      case False
      then show ?thesis using delivery_grows[OF relay_okD(5)[OF ok i] grows] that registered(4)[OF i] by simp
    qed
    moreover have "inbox_ok c i st'" using relay_okD(4)[OF ok i] registered(4)[OF i] by (simp add: inbox_ok_def)
    ultimately show ?thesis by blast
  qed
  moreover have "share_ok c i st'" for i
    using relay_okD(3)[OF ok, of i] unfolding share_ok_def registered(5) .
  ultimately have "objects_ok parse seal c st'"
    using registered(6,7) relay_okD(2)[OF ok] unfolding objects_ok_def by blast
  moreover have "pending_sealed parse seal c p st'" if p: "p \<in> set (rl_ingests s)" for p
    using pending_grows[OF relay_okD(7)[OF ok p] grows] f p unfolding fresh_inbox_def by blast
  ultimately show ?thesis using ok unfolding relay_ok_def waiting_ok_def by simp
qed

lemma append_keeps_ok:
  assumes ok: "relay_ok parse seal c s" and a: "a \<in> set (rl_appends s)" and h: "append_commit c a (rl_objects s) = (rep, st')"
  shows "relay_ok parse seal c (s\<lparr>rl_objects := st'\<rparr>)"
  using relay_okD(1)[OF ok] h
proof (cases rule: append_commit_cases)
  case refused
  then show ?thesis using ok by simp
next
  case (stored key)
  note st = relay_okD(1)[OF ok]
  have "\<forall>i. share_ok c i (rl_objects s)" using relay_okD(3)[OF ok] by blast
  note lim = append_commit_limits[OF st this relay_okD(6)[OF ok a] h]
  have "pa_seq a \<le> max_seq" using relay_okD(6)[OF ok a] by (simp add: append_ok_def)
  then obtain p where p: "prefix_for (pa_id a) = Some p" "under p key" using chunk_key_parts stored(1) by metis
  have n: "\<not> inbox_key key" by (rule share_not_inbox[OF p])
  then have k: "key \<noteq> inbox_meta_key j" for j by (auto simp: inbox_key_def inbox_meta_key_def)
  have meta: "get_inbox_meta j st' = get_inbox_meta j (rl_objects s)" for j by (rule inbox_meta_put_other[OF st stored(3) k])
  have del: "deliveries j st' = deliveries j (rl_objects s)" if "valid_random_string j 16" for j
    by (rule deliveries_put_other[OF st stored(3) not_under_delivery[OF that n]])
  have "metas_ok st'" using metas_put[OF stored(3) _ relay_okD(2)[OF ok]] n by (simp add: meta_name_def)
  moreover have "inbox_ok c i st' \<and> (\<forall>o' \<in> deliveries i st'. delivery_sealed parse seal c i o' st')"
    if i: "valid_random_string i 16" for i
    using relay_okD(4)[OF ok i] delivery_grows[OF relay_okD(5)[OF ok i] meta_quietI[OF meta]] del[OF i]
    by (simp add: inbox_ok_def)
  ultimately have "objects_ok parse seal c st'" using lim unfolding objects_ok_def by blast
  moreover have "pending_sealed parse seal c p st'" if "p \<in> set (rl_ingests s)" for p
    by (rule pending_grows[OF relay_okD(7)[OF ok that] meta_quietI[OF meta]])
  ultimately show ?thesis using ok unfolding relay_ok_def waiting_ok_def by simp
qed

lemma ingest_keeps_ok:
  assumes ok: "relay_ok parse seal c s" and p: "p \<in> set (rl_ingests s)" and h: "ingest_commit c now p (rl_objects s) = (rep, st')"
  shows "relay_ok parse seal c (s\<lparr>rl_objects := st'\<rparr>)"
proof -
  have v: "valid_random_string (pi_inbox p) 16" "valid_delivery_id (pi_delivery p)"
    and sl: "sealed_for parse seal c (pi_inbox p) (pi_delivery p) (pi_ciphertext p) (rl_objects s)"
    using relay_okD(7)[OF ok p] by (simp_all add: pending_sealed_def)
  show ?thesis
    using relay_okD(1)[OF ok] h v
  proof (cases rule: ingest_commit_cases)
    case (refused n)
    show ?thesis by (rule relay_ok_quiet[OF ok]) (use refused in simp_all)
  next
    case stored
    note grows = meta_quietI[of st' "rl_objects s", OF stored(6)]
    have "inbox_ok c i st' \<and> (\<forall>o' \<in> deliveries i st'. delivery_sealed parse seal c i o' st')"
      if i: "valid_random_string i 16" for i
    proof (cases "i = pi_inbox p")
      case True
      have "inbox_ok c (pi_inbox p) st'"
        by (rule inbox_ok_insert[OF finite_deliveries[OF relay_okD(1)[OF ok]] stored(4,8,9)])
      moreover have "delivery_sealed parse seal c (pi_inbox p) o' st'" if "o' \<in> deliveries (pi_inbox p) st'" for o'
      proof (cases "o' \<in> deliveries (pi_inbox p) (rl_objects s)")
        case True
        then show ?thesis using delivery_grows[OF relay_okD(5)[OF ok v(1)] grows] by blast
      next
        case False
        then have "o' = (delivery_key (pi_inbox p) (pi_delivery p), Bytes (pi_ciphertext p))" using that stored(4) by blast
        then show ?thesis using v(2) sealed_grows[OF sl grows] unfolding delivery_sealed_def by blast
      qed
      ultimately show ?thesis using True by simp
    next
      case False
      note same = stored(5)[OF i False]
      show ?thesis
        using relay_okD(4)[OF ok i] delivery_grows[OF relay_okD(5)[OF ok i] grows] same by (simp add: inbox_ok_def)
    qed
    moreover have "share_ok c i st'" for i
      using relay_okD(3)[OF ok, of i] unfolding share_ok_def stored(7) .
    ultimately have "objects_ok parse seal c st'"
      using stored(2,3) relay_okD(2)[OF ok] unfolding objects_ok_def by blast
    moreover have "pending_sealed parse seal c q st'" if "q \<in> set (rl_ingests s)" for q
      by (rule pending_grows[OF relay_okD(7)[OF ok that] grows])
    ultimately show ?thesis using ok unfolding relay_ok_def waiting_ok_def by simp
  qed
qed

text \<open>The inboxes a sweep visits have valid ids.\<close>

lemma segments_suffix: "segments (a @ ''/meta'') = segments a @ [''meta'']"
  using segments_append[of a "''meta''"] by simp

lemma swept_valid:
  assumes ok: "store_ok st" "metas_ok st" and i: "i \<in> set (swept_inboxes st)"
  shows "valid_random_string i 16"
proof -
  obtain objs where l: "store_list ''inboxes/'' st = Inr objs" using i unfolding swept_inboxes_def by (cases "store_list ''inboxes/'' st") auto
  then obtain o' where o': "o' \<in> set objs" "has_suffix (fst o') ''/meta''"
    and i': "i = (let r = drop 8 (fst o') in if has_suffix r ''/meta'' then take (length r - 5) r else r)"
    using i unfolding swept_inboxes_def l sum.case set_map set_filter by blast
  have "o' \<in> disk.objects ''inboxes/'' st" using o'(1) disk.objects_list[OF ok(1) l] by simp
  then have u: "under ''inboxes/'' (fst o')" and mem: "o' \<in> set st"
    using store_get_Inr[OF ok(1)] by (auto simp: disk.objects_def)
  have t: "trim_slash ''inboxes/'' = ''inboxes''" by (simp add: trim_slash_def)
  have "segments ''inboxes'' = [''inboxes'']" by (rule segments_plain) simp
  then have "prefix [''inboxes''] (segments (fst o'))" using u under_segments[of "''inboxes/''" "fst o'"] t by simp
  then have "inbox_key (fst o')" by (auto simp: inbox_key_def prefix_def)
  moreover have "last (segments (fst o')) = ''meta''"
    using o'(2) segments_suffix unfolding has_suffix_iff by fastforce
  ultimately obtain j where j: "valid_random_string j 16" "fst o' = inbox_meta_key j"
    using ok(2) mem unfolding metas_ok_def meta_name_def by blast
  have "drop 8 (fst o') = j @ ''/meta''" by (simp add: j(2) inbox_meta_key_def)
  then have "i = j" by (simp add: i' Let_def)
  then show ?thesis using j(1) by simp
qed

lemma parked_cases:
  assumes "parked r upd xs = (rep, s')"
  obtains n where "s' = upd xs" "r = Inl n" | x where "s' = upd (xs @ [x])" "r = Inr x"
  using assms by (cases r) (auto simp: parked_def)

lemma resumed_quiet:
  assumes ok: "relay_ok parse seal c s" and r: "resumed n xs commit upd s = (rep, s')"
    and q: "\<And>x rep st'. x \<in> set xs \<Longrightarrow> commit x (rl_objects s) = (rep, st') \<Longrightarrow> quiet (rl_objects s) st'"
    and u: "\<And>ys. rl_objects (upd ys) = rl_objects s \<and> rl_appends (upd ys) = rl_appends s \<and>
        rl_ingests (upd ys) = rl_ingests s \<and> rl_sweep (upd ys) = rl_sweep s"
  shows "relay_ok parse seal c s'"
proof (cases "n < length xs")
  case True
  obtain rep1 st1 where co: "commit (xs ! n) (rl_objects s) = (rep1, st1)" by fastforce
  have s': "s' = (upd (without n xs))\<lparr>rl_objects := st1\<rparr>" using r True co by (simp add: resumed_def stored_def)
  have "quiet (rl_objects s) st1" by (rule q[OF _ co]) (use True in simp)
  then show ?thesis using relay_ok_quiet[OF ok, of s'] u by (simp add: s')
qed (use r ok in \<open>simp add: resumed_def\<close>)

lemma resumed_commit:
  assumes ok: "relay_ok parse seal c s" and r: "resumed n xs commit upd s = (rep, s')"
    and k: "\<And>x rep st'. x \<in> set xs \<Longrightarrow> commit x (rl_objects s) = (rep, st') \<Longrightarrow> relay_ok parse seal c (s\<lparr>rl_objects := st'\<rparr>)"
    and w: "\<And>st. relay_ok parse seal c (s\<lparr>rl_objects := st\<rparr>) \<Longrightarrow> relay_ok parse seal c ((upd (without n xs))\<lparr>rl_objects := st\<rparr>)"
  shows "relay_ok parse seal c s'"
proof (cases "n < length xs")
  case True
  obtain rep1 st1 where co: "commit (xs ! n) (rl_objects s) = (rep1, st1)" by fastforce
  have s': "s' = (upd (without n xs))\<lparr>rl_objects := st1\<rparr>" using r True co by (simp add: resumed_def stored_def)
  have "relay_ok parse seal c (s\<lparr>rl_objects := st1\<rparr>)" by (rule k[OF _ co]) (use True in simp)
  then show ?thesis using w by (simp add: s')
qed (use r ok in \<open>simp add: resumed_def\<close>)

lemma sweep_next_ok:
  assumes ok: "relay_ok parse seal c s" and r: "sweep_next c s = (rep, s')"
  shows "relay_ok parse seal c s'"
proof -
  obtain now ids where w: "rl_sweep s = (now, ids)" by fastforce
  show ?thesis
  proof (cases ids)
    case Nil
    then show ?thesis using r w ok by (simp add: sweep_next_def)
  next
    case (Cons i ids')
    obtain b st' where sw: "sweep_inbox c now i (rl_objects s) = (b, st')" by fastforce
    have "valid_random_string i 16" using relay_okD(8)[OF ok] w Cons by simp
    then have q: "quiet (rl_objects s) st'" using sweep_inbox_quiet[OF relay_okD(1)[OF ok] _ sw] by blast
    have s': "s' = s\<lparr>rl_objects := st', rl_sweep := (now, if b then ids' else [])\<rparr>"
      using r w Cons sw by (simp add: sweep_next_def)
    show ?thesis by (rule relay_ok_quiet[OF ok]) (use q w Cons in \<open>auto simp: s'\<close>)
  qed
qed

lemma relay_ok_waiting:
  assumes "relay_ok parse seal c s" "rl_objects s' = rl_objects s"
    "set (rl_appends s') \<subseteq> set (rl_appends s)" "set (rl_ingests s') \<subseteq> set (rl_ingests s)"
    "set (snd (rl_sweep s')) \<subseteq> set (snd (rl_sweep s))"
  shows "relay_ok parse seal c s'"
  using assms unfolding relay_ok_def waiting_ok_def by auto

lemma step_ok:
  assumes ok: "relay_ok parse seal c s" and lim: "limits_ok c" and rnd: "random_ok s e"
    and st: "step hash parse seal c s e = (rep, s')"
  shows "relay_ok parse seal c s'"
proof -
  note o = relay_okD(1)[OF ok]
  show ?thesis
  proof (cases e)
    case (Create allowed now rnd token)
    obtain r1 st1 where h: "handle_create hash c allowed now rnd token (rl_objects s) = (r1, st1)" by fastforce
    show ?thesis by (rule stored_calm[OF ok _ create_calm[OF o h]]) (use st Create h in simp)
  next
    case (Begin_Append i auth seq body)
    have "parked (append_begin hash c i auth seq body (rl_objects s)) (\<lambda>xs. s\<lparr>rl_appends := xs\<rparr>) (rl_appends s) = (rep, s')"
      using st Begin_Append by simp
    then show ?thesis
    proof (cases rule: parked_cases)
      case (1 n)
      then show ?thesis using ok by simp
    next
      case (2 x)
      have "append_ok c x" using append_begin_ok[OF 2(2)] by blast
      then show ?thesis using ok unfolding 2(1) relay_ok_def waiting_ok_def by simp
    qed
  next
    case (Commit_Append n)
    show ?thesis
    proof (rule resumed_commit[OF ok])
      show "resumed n (rl_appends s) (append_commit c) (\<lambda>xs. s\<lparr>rl_appends := xs\<rparr>) s = (rep, s')" using st Commit_Append by simp
      show "relay_ok parse seal c ((s\<lparr>rl_appends := without n (rl_appends s)\<rparr>)\<lparr>rl_objects := st\<rparr>)"
        if "relay_ok parse seal c (s\<lparr>rl_objects := st\<rparr>)" for st
        by (rule relay_ok_waiting[OF that]) (simp_all add: set_without)
    qed (rule append_keeps_ok[OF ok])
  next
    case (Delete_Share i auth)
    obtain r1 st1 where h: "handle_delete hash i auth (rl_objects s) = (r1, st1)" by fastforce
    show ?thesis by (rule stored_quiet[OF ok _ share_delete_quiet[OF o h]]) (use st Delete_Share h in simp)
  next
    case (Register auth req t now)
    obtain r1 st1 where h: "handle_register hash parse c auth req t now (rl_objects s) = (r1, st1)" by fastforce
    have "s' = s\<lparr>rl_objects := st1\<rparr>" using st Register h by (simp add: stored_def)
    then show ?thesis using register_ok[OF ok _ _ h] rnd Register by simp
  next
    case (Begin_Rotate i auth req)
    then have "parked (rotate_begin hash parse i auth req (rl_objects s)) (\<lambda>xs. s\<lparr>rl_rotations := xs\<rparr>) (rl_rotations s) = (rep, s')"
      using st by simp
    then show ?thesis by (cases rule: parked_cases) (auto intro: relay_ok_waiting[OF ok])
  next
    case (Commit_Rotate n)
    then have "resumed n (rl_rotations s) rotate_commit (\<lambda>xs. s\<lparr>rl_rotations := xs\<rparr>) s = (rep, s')" using st by simp
    then show ?thesis by (rule resumed_quiet[OF ok]) (use rotate_quiet[OF o] in auto)
  next
    case (Begin_Secret i auth req)
    then have "parked (secret_begin hash i auth req (rl_objects s)) (\<lambda>xs. s\<lparr>rl_secrets := xs\<rparr>) (rl_secrets s) = (rep, s')"
      using st by simp
    then show ?thesis by (cases rule: parked_cases) (auto intro: relay_ok_waiting[OF ok])
  next
    case (Commit_Secret n)
    then have "resumed n (rl_secrets s) (secret_commit hash c) (\<lambda>xs. s\<lparr>rl_secrets := xs\<rparr>) s = (rep, s')" using st by simp
    then show ?thesis by (rule resumed_quiet[OF ok]) (use secret_quiet[OF o] in auto)
  next
    case (Begin_Revoke i auth)
    then have "parked (revoke_begin hash i auth (rl_objects s)) (\<lambda>xs. s\<lparr>rl_revokes := xs\<rparr>) (rl_revokes s) = (rep, s')"
      using st by simp
    then show ?thesis by (cases rule: parked_cases) (auto intro: relay_ok_waiting[OF ok])
  next
    case (Commit_Revoke n)
    then have "resumed n (rl_revokes s) revoke_commit (\<lambda>xs. s\<lparr>rl_revokes := xs\<rparr>) s = (rep, s')" using st by simp
    then show ?thesis by (rule resumed_quiet[OF ok]) (use revoke_quiet[OF o] in auto)
  next
    case (Begin_Ingest i w allowed d now)
    have "parked (ingest_begin hash parse seal c i w allowed d now (rl_objects s)) (\<lambda>xs. s\<lparr>rl_ingests := xs\<rparr>) (rl_ingests s) = (rep, s')"
      using st Begin_Ingest by simp
    then show ?thesis
    proof (cases rule: parked_cases)
      case (1 n)
      then show ?thesis using ok by simp
    next
      case (2 p)
      have "0 \<le> rc_max_headers c" using lim by (simp add: limits_ok_def)
      note b = ingest_begin_sealed[OF 2(2) this]
      have "pending_sealed parse seal c p (rl_objects s)"
        using b rnd Begin_Ingest unfolding pending_sealed_def by simp
      then show ?thesis using ok unfolding 2(1) relay_ok_def waiting_ok_def by simp
    qed
  next
    case (Commit_Ingest n now)
    show ?thesis
    proof (rule resumed_commit[OF ok])
      show "resumed n (rl_ingests s) (ingest_commit c now) (\<lambda>xs. s\<lparr>rl_ingests := xs\<rparr>) s = (rep, s')" using st Commit_Ingest by simp
      show "relay_ok parse seal c ((s\<lparr>rl_ingests := without n (rl_ingests s)\<rparr>)\<lparr>rl_objects := st\<rparr>)"
        if "relay_ok parse seal c (s\<lparr>rl_objects := st\<rparr>)" for st
        by (rule relay_ok_waiting[OF that]) (simp_all add: set_without)
    qed (rule ingest_keeps_ok[OF ok])
  next
    case (Begin_Poll i auth cursor)
    then have "parked (begin_poll hash i auth cursor (rl_objects s)) (\<lambda>xs. s\<lparr>rl_polls := xs\<rparr>) (rl_polls s) = (rep, s')"
      using st by simp
    then show ?thesis by (cases rule: parked_cases) (auto intro: relay_ok_waiting[OF ok])
  next
    case (Commit_Poll n now)
    then have "resumed n (rl_polls s) (\<lambda>(i, auth, page) st. finish_inbox_poll hash i auth page now st)
        (\<lambda>xs. s\<lparr>rl_polls := xs\<rparr>) s = (rep, s')" using st by simp
    then show ?thesis by (rule resumed_quiet[OF ok]) (use poll_quiet[OF o] in auto)
  next
    case (Acknowledge i auth d)
    obtain r1 st1 where h: "handle_acknowledge hash i auth d (rl_objects s) = (r1, st1)" by fastforce
    show ?thesis by (rule stored_quiet[OF ok _ acknowledge_quiet[OF o h]]) (use st Acknowledge h in simp)
  next
    case (Sweep_Day now k)
    show ?thesis
    proof (cases "sweep_day c now k (rl_objects s)")
      case (Inr st1)
      show ?thesis by (rule relay_ok_quiet[OF ok]) (use sweep_day_quiet[OF o Inr] st Sweep_Day Inr in auto)
    qed (use st Sweep_Day ok in simp)
  next
    case (Sweep_Inboxes now)
    then have s': "s' = s\<lparr>rl_sweep := (now, swept_inboxes (rl_objects s))\<rparr>" using st by simp
    show ?thesis using ok swept_valid[OF o relay_okD(2)[OF ok]] unfolding s' relay_ok_def waiting_ok_def by simp
  next
    case Sweep_Next
    then show ?thesis using sweep_next_ok[OF ok] st by simp
  qed
qed

lemma empty_relay_ok: "limits_ok c \<Longrightarrow> relay_ok parse seal c empty_relay"
proof -
  assume l: "limits_ok c"
  have "store_get [] k \<noteq> Inr (d :: blob)" for k d by (simp add: store_get_def)
  then have "deliveries i [] = {}" "chunks_of i [] = {}" for i
    by (auto simp: deliveries_def chunks_of_def disk.objects_def split: option.splits)
  then show ?thesis using l
    by (simp add: relay_ok_def objects_ok_def waiting_ok_def empty_relay_def share_ok_def inbox_ok_def
        limits_ok_def store_ok_def metas_ok_def)
qed

lemma run_ok:
  assumes "relay_run hash parse seal c s0 es s" "relay_ok parse seal c s0" "limits_ok c"
  shows "relay_ok parse seal c s"
  using assms by (induction rule: relay_run.induct) (auto intro: step_ok)

section \<open>A deleted share stays deleted\<close>

lemma resumed_kept:
  assumes r: "resumed n xs commit upd s = (rep, s')" and u: "\<And>ys. rl_objects (upd ys) = rl_objects s"
    and q: "\<And>x rep st'. x \<in> set xs \<Longrightarrow> commit x (rl_objects s) = (rep, st') \<Longrightarrow> P st'" and P: "P (rl_objects s)"
  shows "P (rl_objects s')"
proof (cases "n < length xs")
  case True
  obtain rep1 st1 where co: "commit (xs ! n) (rl_objects s) = (rep1, st1)" by fastforce
  have "s' = (upd (without n xs))\<lparr>rl_objects := st1\<rparr>" using r True co by (simp add: resumed_def stored_def)
  moreover have "P st1" by (rule q[OF _ co]) (use True in simp)
  ultimately show ?thesis by simp
qed (use r P in \<open>simp add: resumed_def\<close>)

lemma stored_kept: "stored (commit (rl_objects s)) s = (rep, s') \<Longrightarrow> (\<And>rep st'. commit (rl_objects s) = (rep, st') \<Longrightarrow> P st') \<Longrightarrow> P (rl_objects s')"
  by (cases "commit (rl_objects s)") (auto simp: stored_def)

lemma parked_kept: "parked r upd xs = (rep, s') \<Longrightarrow> (\<And>ys. rl_objects (upd ys) = st) \<Longrightarrow> rl_objects s' = st"
  by (cases r) (auto simp: parked_def)

lemma shares_kept_refl: "shares_kept st st"
  by (simp add: shares_kept_def)

text \<open>Only creating a share and storing a chunk write anything of a share.\<close>

lemma step_shares_kept:
  assumes ok: "relay_ok parse seal c s" and rnd: "random_ok s e" and st: "step hash parse seal c s e = (rep, s')"
    and e: "\<nexists>allowed now rnd token. e = Create allowed now rnd token" "\<nexists>n. e = Commit_Append n"
  shows "shares_kept (rl_objects s) (rl_objects s')"
proof -
  note o = relay_okD(1)[OF ok]
  have refl: "rl_objects s' = rl_objects s \<Longrightarrow> ?thesis" by (simp add: shares_kept_refl)
  show ?thesis
  proof (cases e)
    case (Begin_Append i auth seq body)
    show ?thesis by (rule refl, rule parked_kept[OF st[unfolded Begin_Append step.simps]]) simp
  next
    case (Delete_Share i auth)
    show ?thesis
      by (rule stored_kept[where commit = "handle_delete hash i auth"]) (use st Delete_Share quietD(6)[OF share_delete_quiet[OF o]] in auto)
  next
    case (Register auth req t now)
    show ?thesis
    proof (rule stored_kept[where commit = "handle_register hash parse c auth req t now"])
      show "stored (handle_register hash parse c auth req t now (rl_objects s)) s = (rep, s')" using st Register by simp
      fix rep st' assume h: "handle_register hash parse c auth req t now (rl_objects s) = (rep, st')"
      show "shares_kept (rl_objects s) st'"
        by (rule register_cases[OF o h]) (use rnd Register shares_kept_refl in auto)
    qed
  next
    case (Begin_Rotate i auth req)
    show ?thesis by (rule refl, rule parked_kept[OF st[unfolded Begin_Rotate step.simps]]) simp
  next
    case (Commit_Rotate n)
    show ?thesis by (rule resumed_kept[OF st[unfolded Commit_Rotate step.simps]])
        (use quietD(6)[OF rotate_quiet[OF o]] shares_kept_refl in auto)
  next
    case (Begin_Secret i auth req)
    show ?thesis by (rule refl, rule parked_kept[OF st[unfolded Begin_Secret step.simps]]) simp
  next
    case (Commit_Secret n)
    show ?thesis by (rule resumed_kept[OF st[unfolded Commit_Secret step.simps]])
        (use quietD(6)[OF secret_quiet[OF o]] shares_kept_refl in auto)
  next
    case (Begin_Revoke i auth)
    show ?thesis by (rule refl, rule parked_kept[OF st[unfolded Begin_Revoke step.simps]]) simp
  next
    case (Commit_Revoke n)
    show ?thesis by (rule resumed_kept[OF st[unfolded Commit_Revoke step.simps]])
        (use quietD(6)[OF revoke_quiet[OF o]] shares_kept_refl in auto)
  next
    case (Begin_Ingest i w allowed d now)
    show ?thesis by (rule refl, rule parked_kept[OF st[unfolded Begin_Ingest step.simps]]) simp
  next
    case (Commit_Ingest n now)
    have kept: "shares_kept (rl_objects s) st'" if p: "p \<in> set (rl_ingests s)" and h: "ingest_commit c now p (rl_objects s) = (rep, st')" for p rep st'
      using o h
    proof (rule ingest_commit_cases)
      show "valid_random_string (pi_inbox p) 16" "valid_delivery_id (pi_delivery p)"
        using relay_okD(7)[OF ok p] by (simp_all add: pending_sealed_def)
    qed (use quietD(6) in blast)+
    show ?thesis by (rule resumed_kept[OF st[unfolded Commit_Ingest step.simps]]) (use kept shares_kept_refl in auto)
  next
    case (Begin_Poll i auth cursor)
    show ?thesis by (rule refl, rule parked_kept[OF st[unfolded Begin_Poll step.simps]]) simp
  next
    case (Commit_Poll n now)
    show ?thesis by (rule resumed_kept[OF st[unfolded Commit_Poll step.simps]])
        (use quietD(6)[OF poll_quiet[OF o]] shares_kept_refl in auto)
  next
    case (Acknowledge i auth d)
    show ?thesis
      by (rule stored_kept[where commit = "handle_acknowledge hash i auth d"])
        (use st Acknowledge quietD(6)[OF acknowledge_quiet[OF o]] in auto)
  next
    case (Sweep_Day now k)
    show ?thesis
      by (cases "sweep_day c now k (rl_objects s)")
        (use st Sweep_Day quietD(6)[OF sweep_day_quiet[OF o]] shares_kept_refl in auto)
  next
    case (Sweep_Inboxes now)
    then show ?thesis using st shares_kept_refl by auto
  next
    case Sweep_Next
    obtain now ids where w: "rl_sweep s = (now, ids)" by fastforce
    show ?thesis
    proof (cases ids)
      case Nil
      then show ?thesis using st w Sweep_Next shares_kept_refl by (simp add: sweep_next_def)
    next
      case (Cons i ids')
      obtain b st' where sw: "sweep_inbox c now i (rl_objects s) = (b, st')" by fastforce
      have "valid_random_string i 16" using relay_okD(8)[OF ok] w Cons by simp
      then have "shares_kept (rl_objects s) st'" using quietD(6) sweep_inbox_quiet[OF o _ sw] by blast
      then show ?thesis using st w Cons sw Sweep_Next by (auto simp: sweep_next_def)
    qed
  qed (use e in auto)
qed

text \<open>An event that does not create the share \<open>i\<close>.\<close>

fun creates :: "string \<Rightarrow> event \<Rightarrow> bool" where
  "creates i (Create allowed now rnd token) \<longleftrightarrow> new_id (day_of now) rnd = i"
| "creates i _ \<longleftrightarrow> False"

lemma meta_key_inj: "meta_key i = Some k \<Longrightarrow> meta_key j = Some k \<Longrightarrow> i = j"
  using prefix_for_inj by (auto simp: meta_key_def)

lemma step_share_gone:
  assumes ok: "relay_ok parse seal c s" and rnd: "random_ok s e" and st: "step hash parse seal c s e = (rep, s')"
    and k: "meta_key i = Some k" and n: "\<not> creates i e" and gone: "k \<notin> fst ` set (rl_objects s)"
  shows "k \<notin> fst ` set (rl_objects s')"
proof -
  note o = relay_okD(1)[OF ok]
  consider (create) allowed now rnd token where "e = Create allowed now rnd token" | (append) n where "e = Commit_Append n"
    | (other) "\<nexists>allowed now rnd token. e = Create allowed now rnd token" "\<nexists>n. e = Commit_Append n" by blast
  then show ?thesis
  proof cases
    case (create allowed now rnd token)
    show ?thesis
    proof (rule stored_kept[where commit = "handle_create hash c allowed now rnd token"])
      show "stored (handle_create hash c allowed now rnd token (rl_objects s)) s = (rep, s')" using st create by simp
      fix rep st' assume h: "handle_create hash c allowed now rnd token (rl_objects s) = (rep, st')"
      have "new_id (day_of now) rnd \<noteq> i" using n create by simp
      then have "meta_key (new_id (day_of now) rnd) \<noteq> Some k" using meta_key_inj k by blast
      then show "k \<notin> fst ` set st'" using h gone
        by (auto simp: handle_create_def Let_def put_meta_def store_put_def split: if_split_asm sum.split_asm option.split_asm)
    qed
  next
    case (append n)
    show ?thesis
    proof (rule resumed_kept[OF st[unfolded append step.simps]])
      fix a rep st' assume a: "a \<in> set (rl_appends s)" and h: "append_commit c a (rl_objects s) = (rep, st')"
      show "k \<notin> fst ` set st'"
        using o h
      proof (cases rule: append_commit_cases)
        case (stored key)
        have "seq_from_key key \<noteq> None"
          using seq_from_chunk_key[OF stored(1)] relay_okD(6)[OF ok a] by (simp add: append_ok_def)
        then have "key \<noteq> k" using seq_from_meta_key[OF k] by metis
        then show ?thesis using stored(3) gone by (auto simp: store_put_def split: if_split_asm)
      qed (use gone in simp)
    qed (use gone in auto)
  next
    case other
    have "\<not> inbox_key k"
    proof -
      obtain q where q: "prefix_for i = Some q" "k = q @ ''meta''" using k by (auto simp: meta_key_def)
      have "under q k" using under_prefix_for[OF q(1)] unfolding q(2) has_prefix_iff by blast
      then show ?thesis by (rule share_not_inbox[OF q(1)])
    qed
    then show ?thesis using step_shares_kept[OF ok rnd st other] gone unfolding shares_kept_def by force
  qed
qed

lemma run_share_gone:
  assumes r: "relay_run hash parse seal c s0 es s" and ok: "relay_ok parse seal c s0" and lim: "limits_ok c"
    and k: "meta_key i = Some k" and gone: "k \<notin> fst ` set (rl_objects s0)"
  shows "\<forall>(e, rep) \<in> set es. \<not> creates i e \<Longrightarrow> k \<notin> fst ` set (rl_objects s)"
  using r
proof (induction rule: relay_run.induct)
  case run_start
  then show ?case using gone by simp
next
  case (run_step es s e rep s')
  have "relay_ok parse seal c s" by (rule run_ok[OF run_step.hyps(1) ok lim])
  then show ?case using step_share_gone[OF _ run_step.hyps(2,3) k] run_step.IH run_step.prems by auto
qed

text \<open>Without metadata every request for the share is refused.\<close>

lemma gone_get_meta:
  assumes "meta_key i = Some k" "k \<notin> fst ` set st" "store_ok st"
  shows "get_meta i st = Inr None"
proof -
  obtain date random where "split_id i = Some (date, random)"
    using assms(1) by (auto simp: meta_key_def prefix_for_def split: option.split_asm)
  then have "valid_key k" using keys_valid(1) assms(1) by fastforce
  moreover have "map_of st k = None" using assms(2) by (simp add: map_of_eq_None_iff)
  ultimately show ?thesis using assms(1) by (simp add: get_meta_def store_get_def)
qed

lemma delete_removes_meta:
  assumes ok: "store_ok st" and d: "handle_delete hash i auth st = (Status 204, st')" and k: "meta_key i = Some k"
  shows "k \<notin> fst ` set st'"
proof -
  obtain p where p: "prefix_for i = Some p" "k = p @ ''meta''" using k by (auto simp: meta_key_def)
  have "under p k" using under_prefix_for[OF p(1)] unfolding p(2) has_prefix_iff by blast
  moreover have "store_delete_prefix p st = Inr st'"
    using d p(1) unfolding handle_delete_def authorise_def
    by (auto split: sum.split_asm if_split_asm option.split_asm)
  ultimately show ?thesis by (auto simp: store_delete_prefix_def split: if_split_asm)
qed

end
