(* ===== verification/Relay_Runs.thy ===== *)
theory Relay_Runs
  imports Relay_Server
begin

text \<open>
  What every run of the relay guarantees: its limits, whom a pending delivery is sealed for, that a
  deleted share stays deleted, what a polling viewer sees, how long a share is kept, and a concrete
  run on which these are tried.
\<close>

section \<open>A concrete run\<close>

text \<open>Tokens hash to themselves with a mark, a recipient parses when it starts with \<open>age1\<close>, sealing
  keeps the recipient and the body in sight.\<close>

definition sample_hash :: "string \<Rightarrow> string" where
  "sample_hash s = CHR ''#'' # s"

definition sample_parse :: "string \<Rightarrow> string option" where
  "sample_parse r = (if has_prefix r ''age1'' then Some r else None)"

definition sample_seal :: "string \<Rightarrow> envelope \<Rightarrow> string option" where
  "sample_seal r en = Some (r @ ''|'' @ en_body en)"

definition sample_input :: relay_config where
  "sample_input = \<lparr>rc_max_chunk_bytes = 8, rc_max_chunks = 2, rc_max_share_bytes = 0, rc_ttl = 0, rc_enrollment = ''enrol'',
     rc_max_body = 0, rc_max_headers = -1, rc_max_pending_bytes = 0, rc_max_pending = 0, rc_inbox_ttl = 0,
     rc_delivery_ttl = 0, rc_secret_header = []\<rparr>"

definition sample_config :: relay_config where
  "sample_config = \<lparr>rc_max_chunk_bytes = 8, rc_max_chunks = 2, rc_max_share_bytes = 33554432, rc_ttl = 2592000000000000,
     rc_enrollment = ''enrol'', rc_max_body = 1048576, rc_max_headers = 16384, rc_max_pending_bytes = 33554432,
     rc_max_pending = 4096, rc_inbox_ttl = 2592000000000000, rc_delivery_ttl = 172800000000000,
     rc_secret_header = ''X-Webhook-Secret''\<rparr>"

lemma sample_server: "new_server sample_input = Some sample_config"
  by (simp add: new_server_def sample_input_def sample_config_def or_default_def day_length_def second_def max_seq_def)

definition sample_time :: int where
  "sample_time = 20678 * day_length"

definition sample_random :: string where
  "sample_random = ''AAAAAAAAAAAAAAAAAAAAAA''"

definition sample_share :: string where
  "sample_share = new_id (day_of sample_time) sample_random"

definition sample_tokens :: inbox_tokens where
  "sample_tokens = \<lparr>it_id = sample_random, it_ingest = ''in'', it_management = ''man'', it_fetch = ''get'', it_ack = ''ack''\<rparr>"

definition sample_webhook :: webhook where
  "sample_webhook = \<lparr>wh_token = ''in'', wh_method = ''POST'',
     wh_headers = [(''X-Event'', [''push'']), (''Cookie'', [''secret''])], wh_query = [], wh_body = Some ''body''\<rparr>"

definition share_events :: "event list" where
  "share_events = [Create True sample_time sample_random ''tok'',
     Begin_Append sample_share ''Bearer tok'' ''0'' (Some ''one''), Commit_Append 0,
     Begin_Append sample_share ''Bearer tok'' ''1'' (Some ''two''), Commit_Append 0]"

definition inbox_events :: "event list" where
  "inbox_events = [Register ''Bearer enrol'' (Some \<lparr>rg_recipient = ''age1x'', rg_secret = [], rg_header = []\<rparr>) sample_tokens sample_time,
     Begin_Ingest sample_random sample_webhook True sample_random sample_time, Commit_Ingest 0 sample_time]"

definition run_sample :: "event list \<Rightarrow> (reply option list \<times> relay) option" where
  "run_sample = run_events sample_hash sample_parse sample_seal sample_config empty_relay"

lemma sample_digits: "char_of (48 :: nat) = CHR ''0''" "char_of (49 :: nat) = CHR ''1''" "char_of (50 :: nat) = CHR ''2''"
  "char_of (51 :: nat) = CHR ''3''" "char_of (54 :: nat) = CHR ''6''" "char_of (56 :: nat) = CHR ''8''"
  by code_simp+

lemma sample_share_eq: "sample_share = ''20260813-AAAAAAAAAAAAAAAAAAAAAA''"
  by (simp add: sample_share_def new_id_def sample_random_def sample_time_def day_of_def day_length_def second_def
      date_string_def civil_year.simps civil_month.simps year_days_def month_days_def leap_def padded_def
      decimal.simps digit_def sample_digits)

lemma sample_split: "split_id sample_share = Some (''20260813'', sample_random)"
  unfolding sample_share_eq sample_random_def by code_simp

lemma sample_prefix: "prefix_for sample_share = Some ''20260813/AAAAAAAAAAAAAAAAAAAAAA/''"
  by (simp add: prefix_for_def sample_split) (simp add: sample_random_def)

definition sample_meta :: share_meta where
  "sample_meta = \<lparr>sm_version = 1, sm_delete_hash = ''#tok'', sm_created = 1786579200000\<rparr>"

definition sample_objects :: "string list \<Rightarrow> objects" where
  "sample_objects bodies =
     rev ((''20260813/AAAAAAAAAAAAAAAAAAAAAA/meta'', Share_Meta sample_meta) #
       map (\<lambda>(k, b). (''20260813/AAAAAAAAAAAAAAAAAAAAAA/'' @ k, Bytes b)) (zip [''000000000'', ''000000001''] bodies))"

lemma sample_share_create: "handle_create sample_hash sample_config True sample_time sample_random ''tok'' [] =
    (ShareCreated sample_share ''tok'' 1789171200000, sample_objects [])"
proof -
  have k: "meta_key sample_share = Some ''20260813/AAAAAAAAAAAAAAAAAAAAAA/meta''" by (simp add: meta_key_def sample_prefix)
  have v: "valid_key ''20260813/AAAAAAAAAAAAAAAAAAAAAA/meta''" by code_simp
  have t: "milli sample_time = 1786579200000" "milli (sample_time + rc_ttl sample_config) = 1789171200000"
    by (simp_all add: milli_def sample_time_def day_length_def second_def sample_config_def)
  show ?thesis
    by (simp add: handle_create_def Let_def sample_share_def[symmetric] put_meta_def k store_put_def v blocked_def
        sample_objects_def sample_meta_def sample_hash_def t)
qed

lemma sample_authorised:
  assumes "map_of st ''20260813/AAAAAAAAAAAAAAAAAAAAAA/meta'' = Some (Share_Meta sample_meta)"
  shows "authorise sample_hash sample_share ''Bearer tok'' st = Inr sample_meta"
proof -
  have k: "meta_key sample_share = Some ''20260813/AAAAAAAAAAAAAAAAAAAAAA/meta''" by (simp add: meta_key_def sample_prefix)
  have v: "valid_key ''20260813/AAAAAAAAAAAAAAAAAAAAAA/meta''" by code_simp
  have "authorises sample_hash (sm_delete_hash sample_meta) (bearer_token ''Bearer tok'')" unfolding sample_meta_def by code_simp
  then show ?thesis by (simp add: authorise_def valid_id_def sample_split get_meta_def k store_get_def v assms)
qed

lemma sample_append:
  assumes "map_of st ''20260813/AAAAAAAAAAAAAAAAAAAAAA/meta'' = Some (Share_Meta sample_meta)"
  shows "length b \<le> 8 \<Longrightarrow> append_begin sample_hash sample_config sample_share ''Bearer tok'' ''0'' (Some b) st = Inr \<lparr>pa_id = sample_share, pa_seq = 0, pa_body = b\<rparr>"
    "length b \<le> 8 \<Longrightarrow> append_begin sample_hash sample_config sample_share ''Bearer tok'' ''1'' (Some b) st = Inr \<lparr>pa_id = sample_share, pa_seq = 1, pa_body = b\<rparr>"
proof -
  have u: "parse_uint ''0'' = Some 0" "parse_uint ''1'' = Some 1" by (simp_all add: parse_uint_def)
  show "length b \<le> 8 \<Longrightarrow> append_begin sample_hash sample_config sample_share ''Bearer tok'' ''0'' (Some b) st = Inr \<lparr>pa_id = sample_share, pa_seq = 0, pa_body = b\<rparr>"
    "length b \<le> 8 \<Longrightarrow> append_begin sample_hash sample_config sample_share ''Bearer tok'' ''1'' (Some b) st = Inr \<lparr>pa_id = sample_share, pa_seq = 1, pa_body = b\<rparr>"
    unfolding append_begin_def sample_authorised[OF assms] u sum.case option.case
    by (simp_all add: sample_config_def max_seq_def)
qed

lemma sample_commit:
  "append_commit sample_config \<lparr>pa_id = sample_share, pa_seq = 0, pa_body = ''one''\<rparr> (sample_objects []) =
     (Status 204, sample_objects [''one''])"
  "append_commit sample_config \<lparr>pa_id = sample_share, pa_seq = 1, pa_body = ''two''\<rparr> (sample_objects [''one'']) =
     (Status 204, sample_objects [''one'', ''two''])"
proof -
  have z: "replicate 8 CHR ''0'' = ''00000000''" by code_simp
  have k: "chunk_key sample_share 0 = Some ''20260813/AAAAAAAAAAAAAAAAAAAAAA/000000000''"
    "chunk_key sample_share 1 = Some ''20260813/AAAAAAAAAAAAAAAAAAAAAA/000000001''"
    using z by (simp_all add: chunk_key_def sample_prefix padded_def decimal.simps digit_def sample_digits)
  have v: "valid_key ''20260813/AAAAAAAAAAAAAAAAAAAAAA/000000000''" "valid_key ''20260813/AAAAAAAAAAAAAAAAAAAAAA/000000001''"
    "valid_key ''20260813/AAAAAAAAAAAAAAAAAAAAAA''"
    by code_simp+
  have s: "seq_from_key ''20260813/AAAAAAAAAAAAAAAAAAAAAA/meta'' = None"
    "seq_from_key ''20260813/AAAAAAAAAAAAAAAAAAAAAA/000000000'' = Some 0"
    by (simp_all add: seq_from_key_def last_index_cut_def parse_uint_def)
  show "append_commit sample_config \<lparr>pa_id = sample_share, pa_seq = 0, pa_body = ''one''\<rparr> (sample_objects []) =
     (Status 204, sample_objects [''one''])"
    using k v s
    by (simp add: append_commit_def sample_prefix store_list_def valid_prefix_def trim_slash_def under_def has_prefix_def
      chunk_objects_def store_put_def blocked_def sample_objects_def sample_config_def blob_size_def)
  show "append_commit sample_config \<lparr>pa_id = sample_share, pa_seq = 1, pa_body = ''two''\<rparr> (sample_objects [''one'']) =
     (Status 204, sample_objects [''one'', ''two''])"
    using k v s
    by (simp add: append_commit_def sample_prefix store_list_def valid_prefix_def trim_slash_def under_def has_prefix_def
      chunk_objects_def store_put_def blocked_def sample_objects_def sample_config_def blob_size_def)
qed

lemma share_events_run: "run_sample share_events =
   Some ([Some (ShareCreated sample_share ''tok'' 1789171200000), None, Some (Status 204), None, Some (Status 204)],
     empty_relay\<lparr>rl_objects := sample_objects [''one'', ''two'']\<rparr>)"
proof -
  have "random_ok empty_relay (Create True sample_time sample_random ''tok'')"
    unfolding random_ok.simps sample_random_def by code_simp
  moreover have "map_of (sample_objects []) ''20260813/AAAAAAAAAAAAAAAAAAAAAA/meta'' = Some (Share_Meta sample_meta)"
      "map_of (sample_objects [''one'']) ''20260813/AAAAAAAAAAAAAAAAAAAAAA/meta'' = Some (Share_Meta sample_meta)"
    by (simp_all add: sample_objects_def)
  note b = sample_append(1)[OF this(1), of "''one''"] sample_append(2)[OF this(2), of "''two''"]
  ultimately show ?thesis
    unfolding run_sample_def share_events_def
    using sample_commit by (simp add: stored_def parked_def resumed_def without_def b empty_relay_def sample_share_create)
qed

lemma inbox_events_run: "map_option fst (run_sample inbox_events) =
   Some [Some (InboxRegistered sample_random ''/i/AAAAAAAAAAAAAAAAAAAAAA/in'' ''man'' ''get'' ''ack'' []), None, Some (Ingested sample_random)]"
  by code_simp

text \<open>The state the inbox run ends in.\<close>

definition sample_inbox_state :: relay where
  "sample_inbox_state = snd (the (run_sample inbox_events))"

lemma run_sampleD: "run_sample evs = Some (rs, s) \<Longrightarrow>
    relay_run sample_hash sample_parse sample_seal sample_config empty_relay (zip evs rs) s"
  unfolding run_sample_def by (rule run_events_run)

lemma sample_share_run:
  "relay_run sample_hash sample_parse sample_seal sample_config empty_relay
     (zip share_events [Some (ShareCreated sample_share ''tok'' 1789171200000), None, Some (Status 204), None, Some (Status 204)])
     (empty_relay\<lparr>rl_objects := sample_objects [''one'', ''two'']\<rparr>)"
  by (rule run_sampleD[OF share_events_run])

lemma sample_inbox_run:
  "relay_run sample_hash sample_parse sample_seal sample_config empty_relay
     (zip inbox_events [Some (InboxRegistered sample_random ''/i/AAAAAAAAAAAAAAAAAAAAAA/in'' ''man'' ''get'' ''ack'' []), None, Some (Ingested sample_random)])
     sample_inbox_state"
proof -
  obtain rs s where r: "run_sample inbox_events = Some (rs, s)" using inbox_events_run by (cases "run_sample inbox_events") auto
  then show ?thesis using run_sampleD[OF r] inbox_events_run by (simp add: sample_inbox_state_def)
qed

section \<open>Properties\<close>

text \<open>
  C2: The quotas hold in every state the relay can reach, whatever requests interleave between
  their check and their write: a share has at most the configured number of chunks, bytes and
  bytes per chunk, numbered below the limit, and an inbox at most the configured pending deliveries
  and bytes.
\<close>

theorem relay_limits_hold:
  assumes "new_server cfg = Some c" and "relay_run hash parse seal c empty_relay es s"
  shows "share_ok c i (rl_objects s) \<and> (valid_random_string i 16 \<longrightarrow> inbox_ok c i (rl_objects s))"
proof -
  have lim: "limits_ok c" by (rule new_server_limits[OF assms(1)])
  note ok = run_ok[OF assms(2) empty_relay_ok[OF lim] lim]
  show ?thesis using relay_okD(3,4)[OF ok] by blast
qed

lemma relay_limits_hold_witness:
  "share_ok sample_config sample_share (sample_objects [''one'', ''two'']) \<and> chunk_at sample_share (sample_objects [''one'', ''two'']) 1 = Some ''two''"
proof -
  have "chunk_key sample_share 1 = Some ''20260813/AAAAAAAAAAAAAAAAAAAAAA/000000001''"
    "valid_key ''20260813/AAAAAAAAAAAAAAAAAAAAAA/000000001''"
  proof -
    have "replicate 8 CHR ''0'' = ''00000000''" by code_simp
    then show "chunk_key sample_share 1 = Some ''20260813/AAAAAAAAAAAAAAAAAAAAAA/000000001''"
      by (simp add: chunk_key_def sample_prefix padded_def decimal.simps digit_def sample_digits)
  qed code_simp
  then have "chunk_at sample_share (sample_objects [''one'', ''two'']) 1 = Some ''two''"
    by (simp add: chunk_at_def store_get_def sample_objects_def)
  then show ?thesis using relay_limits_hold[OF sample_server sample_share_run, of sample_share] by simp
qed

text \<open>
  C13: Every delivery pending in an inbox, in every reachable state, is an envelope of that inbox and
  delivery sealed for the recipient the metadata records under the envelope's key version, with a
  body and headers within the limits and none of the sensitive headers, though recipients are
  rotated and quotas checked while it is sealed.
\<close>

theorem pending_deliveries_sealed:
  assumes "new_server cfg = Some c" and "relay_run hash parse seal c empty_relay es s"
    and "valid_random_string i 16" and "(k, b) \<in> deliveries i (rl_objects s)"
  shows "\<exists>d ct. valid_delivery_id d \<and> k = delivery_key i d \<and> b = Bytes ct \<and> sealed_for parse seal c i d ct (rl_objects s)"
proof -
  have lim: "limits_ok c" by (rule new_server_limits[OF assms(1)])
  note ok = run_ok[OF assms(2) empty_relay_ok[OF lim] lim]
  show ?thesis using relay_okD(5)[OF ok assms(3,4)] unfolding delivery_sealed_def by blast
qed

text \<open>
  C28: Once a share has been deleted it stays deleted: whatever happens next, short of a new share
  drawing the same id, reading it, deleting it and appending to it all answer 404, also when an
  append authorised before the deletion is stored after it.
\<close>

theorem deleted_share_stays_deleted:
  assumes "new_server cfg = Some c" and "relay_run hash parse seal c empty_relay es s" and "valid_id i"
    and "step hash parse seal c s (Delete_Share i auth) = (Some (Status 204), s1)"
    and "relay_run hash parse seal c s1 es' s'" and "\<forall>(e, rep) \<in> set es'. \<not> creates i e"
  shows "handle_read i from (rl_objects s') st = Status 404 \<and>
    step hash parse seal c s' (Delete_Share i auth') = (Some (Status 404), s') \<and>
    step hash parse seal c s' (Begin_Append i auth' seq body) = (Some (Status 404), s')"
proof -
  have lim: "limits_ok c" by (rule new_server_limits[OF assms(1)])
  note ok = run_ok[OF assms(2) empty_relay_ok[OF lim] lim]
  obtain k where k: "meta_key i = Some k" using assms(3) by (auto simp: valid_id_def meta_key_def prefix_for_def)
  obtain rep st' where d: "handle_delete hash i auth (rl_objects s) = (rep, st')" by fastforce
  then have d': "handle_delete hash i auth (rl_objects s) = (Status 204, st')" "s1 = s\<lparr>rl_objects := st'\<rparr>"
    using assms(4) by (auto simp: stored_def)
  have ok1: "relay_ok parse seal c s1" by (rule step_ok[OF ok lim _ assms(4)]) simp
  have "k \<notin> fst ` set (rl_objects s1)" using delete_removes_meta[OF relay_okD(1)[OF ok] d'(1) k] d'(2) by simp
  note gone = run_share_gone[OF assms(5) ok1 lim k this assms(6)]
  have "get_meta i (rl_objects s') = Inr None"
    by (rule gone_get_meta[OF k gone relay_okD(1)[OF run_ok[OF assms(5) ok1 lim]]])
  then show ?thesis using assms(3)
    by (simp add: handle_read_def handle_delete_def append_begin_def authorise_def stored_def parked_def)
qed

lemma pending_deliveries_sealed_witness:
  "\<exists>d ct. valid_delivery_id d \<and> delivery_key sample_random sample_random = delivery_key sample_random d \<and>
     Bytes ''age1x|body'' = Bytes ct \<and> sealed_for sample_parse sample_seal sample_config sample_random d ct (rl_objects sample_inbox_state)"
proof (rule pending_deliveries_sealed[OF sample_server sample_inbox_run])
  show v: "valid_random_string sample_random 16" unfolding sample_random_def by code_simp
  have "case store_get (rl_objects sample_inbox_state) (delivery_key sample_random sample_random) of Inr (Bytes b) \<Rightarrow> b = ''age1x|body'' | _ \<Rightarrow> False"
    by code_simp
  then have "store_get (rl_objects sample_inbox_state) (delivery_key sample_random sample_random) = Inr (Bytes ''age1x|body'')"
    by (auto split: sum.splits blob.splits)
  then show "(delivery_key sample_random sample_random, Bytes ''age1x|body'') \<in> deliveries sample_random (rl_objects sample_inbox_state)"
    using under_own_delivery(1)[of sample_random sample_random] v by (simp add: deliveries_def disk.objects_def valid_delivery_id_def)
qed

text \<open>An append that was authorised before the share was deleted, and is stored after it.\<close>

definition late_append :: pending_append where
  "late_append = \<lparr>pa_id = sample_share, pa_seq = 1, pa_body = ''two''\<rparr>"

definition late_relay :: relay where
  "late_relay = empty_relay\<lparr>rl_objects := sample_objects [''one''], rl_appends := [late_append]\<rparr>"

lemma late_run: "run_sample (butlast share_events) =
   Some ([Some (ShareCreated sample_share ''tok'' 1789171200000), None, Some (Status 204), None], late_relay)"
proof -
  have "random_ok empty_relay (Create True sample_time sample_random ''tok'')"
    unfolding random_ok.simps sample_random_def by code_simp
  moreover have "map_of (sample_objects []) ''20260813/AAAAAAAAAAAAAAAAAAAAAA/meta'' = Some (Share_Meta sample_meta)"
      "map_of (sample_objects [''one'']) ''20260813/AAAAAAAAAAAAAAAAAAAAAA/meta'' = Some (Share_Meta sample_meta)"
    by (simp_all add: sample_objects_def)
  note b = sample_append(1)[OF this(1), of "''one''"] sample_append(2)[OF this(2), of "''two''"]
  ultimately show ?thesis
    unfolding run_sample_def share_events_def late_relay_def late_append_def
    using sample_commit by (simp add: stored_def parked_def resumed_def without_def b empty_relay_def sample_share_create)
qed

lemma late_delete: "step sample_hash sample_parse sample_seal sample_config late_relay (Delete_Share sample_share ''Bearer tok'') =
    (Some (Status 204), late_relay\<lparr>rl_objects := []\<rparr>)"
proof -
  have "map_of (sample_objects [''one'']) ''20260813/AAAAAAAAAAAAAAAAAAAAAA/meta'' = Some (Share_Meta sample_meta)"
    by (simp add: sample_objects_def)
  note a = sample_authorised[OF this]
  have v: "valid_key ''20260813/AAAAAAAAAAAAAAAAAAAAAA''" by code_simp
  have "store_delete_prefix ''20260813/AAAAAAAAAAAAAAAAAAAAAA/'' (sample_objects [''one'']) = Inr []"
    by (simp add: store_delete_prefix_def trim_slash_def v sample_objects_def under_def has_prefix_def)
  then show ?thesis by (simp add: late_relay_def handle_delete_def a sample_prefix stored_def)
qed

lemma late_commit: "append_commit sample_config late_append [] = (Status 204, [(''20260813/AAAAAAAAAAAAAAAAAAAAAA/000000001'', Bytes ''two'')])"
proof -
  have z: "replicate 8 CHR ''0'' = ''00000000''" by code_simp
  have k: "chunk_key sample_share 1 = Some ''20260813/AAAAAAAAAAAAAAAAAAAAAA/000000001''"
    using z by (simp_all add: chunk_key_def sample_prefix padded_def decimal.simps digit_def sample_digits)
  have v: "valid_key ''20260813/AAAAAAAAAAAAAAAAAAAAAA/000000001''" "valid_key ''20260813/AAAAAAAAAAAAAAAAAAAAAA''"
    by code_simp+
  show ?thesis
    using k v by (simp add: late_append_def append_commit_def sample_prefix store_list_def valid_prefix_def trim_slash_def
      chunk_objects_def store_put_def blocked_def sample_config_def)
qed

lemma deleted_share_stays_deleted_witness:
  "\<exists>s' :: relay. rl_objects s' = [(''20260813/AAAAAAAAAAAAAAAAAAAAAA/000000001'', Bytes ''two'')] \<and>
     handle_read sample_share [] (rl_objects s') (rl_objects s') = Status 404"
proof -
  let ?s1 = "late_relay\<lparr>rl_objects := []\<rparr>"
  let ?s2 = "empty_relay\<lparr>rl_objects := [(''20260813/AAAAAAAAAAAAAAAAAAAAAA/000000001'', Bytes ''two'')]\<rparr>"
  have "step sample_hash sample_parse sample_seal sample_config ?s1 (Commit_Append 0) = (Some (Status 204), ?s2)"
    by (simp add: resumed_def late_relay_def stored_def without_def late_commit empty_relay_def)
  from run_step[OF run_start _ this]
  have r: "relay_run sample_hash sample_parse sample_seal sample_config ?s1 [(Commit_Append 0, Some (Status 204))] ?s2" by simp
  have "handle_read sample_share [] (rl_objects ?s2) (rl_objects ?s2) = Status 404"
    using deleted_share_stays_deleted[OF sample_server run_sampleD[OF late_run] _ late_delete r] by (simp add: valid_id_def sample_split)
  then show ?thesis by (intro exI[of _ ?s2]) simp
qed

lemma sorted_le_last: "sorted xs \<Longrightarrow> x \<in> set xs \<Longrightarrow> x \<le> last xs"
  by (induction xs) auto

lemma last_seq_bound:
  assumes "seq \<in> stored_seqs i st" "finite (stored_seqs i st)"
  shows "int seq \<le> last_seq_of (chunks_from i st 0)"
proof -
  let ?l = "sorted_list_of_set (stored_seqs i st)"
  have ne: "?l \<noteq> []" "seq \<in> set ?l" using assms by auto
  have "seq \<le> last ?l" by (rule sorted_le_last[OF _ ne(2)]) simp
  then show ?thesis using ne(1) by (simp add: last_seq_of_def chunks_from_def last_map)
qed

text \<open>
  A viewer that polls from the number after the last one it got sees each chunk once, in
  ascending order: when the writer only adds chunks beyond those it has sent, the first answer
  followed by the second is what reading the share afresh gives.
\<close>

theorem viewer_polls_resume:
  assumes "new_server cfg = Some c" and "relay_run hash parse seal c empty_relay es s"
    and "relay_run hash parse seal c s es' s'" and "valid_id i"
    and "handle_read i [] (rl_objects s) (rl_objects s) = ShareChunks cs l"
    and "get_meta i (rl_objects s') = Inr (Some m)"
    and "from \<noteq> []" and "parse_uint from = Some (nat (l + 1))"
    and "\<forall>seq \<in> stored_seqs i (rl_objects s). chunk_at i (rl_objects s') seq = chunk_at i (rl_objects s) seq"
    and "\<forall>seq \<in> stored_seqs i (rl_objects s') - stored_seqs i (rl_objects s). l < int seq"
  shows "\<exists>cs' l'. handle_read i from (rl_objects s') (rl_objects s') = ShareChunks cs' l' \<and>
    handle_read i [] (rl_objects s') (rl_objects s') = ShareChunks (cs @ cs') (last_seq_of (cs @ cs')) \<and>
    sorted_wrt (<) (map fst (cs @ cs')) \<and> set (map fst (cs @ cs')) = stored_seqs i (rl_objects s')"
proof -
  have lim: "limits_ok c" by (rule new_server_limits[OF assms(1)])
  note ok = run_ok[OF assms(2) empty_relay_ok[OF lim] lim]
  note ok' = run_ok[OF assms(3) ok lim]
  let ?st = "rl_objects s" and ?st' = "rl_objects s'"
  obtain m0 where m0: "get_meta i ?st = Inr (Some m0)"
    using assms(5) unfolding handle_read_def by (auto split: if_split_asm sum.split_asm option.split_asm)
  note r0 = handle_read_eq[OF relay_okD(1)[OF ok] relay_okD(3)[OF ok] m0 assms(4), of "[]" 0]
  have cs: "cs = chunks_from i ?st 0" "l = last_seq_of (chunks_from i ?st 0)" using r0(1) assms(5) by simp_all
  have r1: "handle_read i from ?st' ?st' = ShareChunks (chunks_from i ?st' (nat (l + 1))) (last_seq_of (chunks_from i ?st' (nat (l + 1))))"
    by (rule handle_read_eq(1)[OF relay_okD(1)[OF ok'] relay_okD(3)[OF ok'] assms(6,4)]) (use assms(7,8) in simp)
  have r2: "handle_read i [] ?st' ?st' = ShareChunks (chunks_from i ?st' 0) (last_seq_of (chunks_from i ?st' 0))"
    by (rule handle_read_eq(1)[OF relay_okD(1)[OF ok'] relay_okD(3)[OF ok'] assms(6,4)]) simp
  let ?A = "stored_seqs i ?st" and ?B = "stored_seqs i ?st'"
  have fin: "finite ?A" "finite ?B"
    using r0(2) handle_read_eq(2)[OF relay_okD(1)[OF ok'] relay_okD(3)[OF ok'] assms(6,4), of "[]" 0] by simp_all
  have sub: "?A \<subseteq> ?B" using assms(9) unfolding stored_seqs_def by auto
  have le: "int seq \<le> l" if "seq \<in> ?A" for seq
    using that fin(1) unfolding cs(2) by (rule last_seq_bound)
  have "nat (l + 1) \<le> seq \<longleftrightarrow> l < int seq" for seq by (auto simp: nat_le_iff)
  then have B: "{seq \<in> ?B. nat (l + 1) \<le> seq} = ?B - ?A" using assms(10) le not_less by blast
  have split: "sorted_list_of_set ?B = sorted_list_of_set ?A @ sorted_list_of_set (?B - ?A)"
  proof (rule sorted_distinct_set_unique)
    have "a < b" if "a \<in> ?A" "b \<in> ?B - ?A" for a b
    proof -
      have "l < int b" using assms(10) that(2) by blast
      then show ?thesis using le[OF that(1)] by linarith
    qed
    then show "sorted (sorted_list_of_set ?A @ sorted_list_of_set (?B - ?A))"
      using fin by (fastforce simp: sorted_append)
  qed (use fin sub in auto)
  have same: "map (\<lambda>seq. (seq, the (chunk_at i ?st' seq))) (sorted_list_of_set ?A) = cs"
    using assms(9) fin(1) by (simp add: cs(1) chunks_from_def)
  have cat: "chunks_from i ?st' 0 = cs @ chunks_from i ?st' (nat (l + 1))"
    by (simp add: chunks_from_def[of i ?st'] B split same[symmetric])
  have "map fst (chunks_from i ?st' 0) = sorted_list_of_set ?B" by (simp add: chunks_from_def comp_def)
  then have seqs: "sorted_wrt (<) (map fst (cs @ chunks_from i ?st' (nat (l + 1)))) \<and>
      set (map fst (cs @ chunks_from i ?st' (nat (l + 1)))) = ?B"
    unfolding cat[symmetric] using fin(2) by (simp only: sorted_list_of_set.set_sorted_key_list_of_set strict_sorted_list_of_set simp_thms)
  show ?thesis
    by (intro exI[of _ "chunks_from i ?st' (nat (l + 1))"] exI[of _ "last_seq_of (chunks_from i ?st' (nat (l + 1)))"])
      (use r1 r2 seqs in \<open>simp only: cat simp_thms\<close>)
qed

lemma sample_share_two: "relay_run sample_hash sample_parse sample_seal sample_config
    (empty_relay\<lparr>rl_objects := sample_objects [''one'']\<rparr>)
    [(Begin_Append sample_share ''Bearer tok'' ''1'' (Some ''two''), None), (Commit_Append 0, Some (Status 204))]
    (empty_relay\<lparr>rl_objects := sample_objects [''one'', ''two'']\<rparr>)"
proof -
  have m: "map_of (sample_objects [''one'']) ''20260813/AAAAAAAAAAAAAAAAAAAAAA/meta'' = Some (Share_Meta sample_meta)"
    by (simp add: sample_objects_def)
  have "run_events sample_hash sample_parse sample_seal sample_config (empty_relay\<lparr>rl_objects := sample_objects [''one'']\<rparr>)
      [Begin_Append sample_share ''Bearer tok'' ''1'' (Some ''two''), Commit_Append 0] =
    Some ([None, Some (Status 204)], empty_relay\<lparr>rl_objects := sample_objects [''one'', ''two'']\<rparr>)"
    using sample_commit sample_append(2)[OF m, of "''two''"]
    by (simp add: stored_def parked_def resumed_def without_def empty_relay_def)
  from run_events_run[OF this] show ?thesis by simp
qed

lemma stored_seqs_eq:
  assumes ok: "store_ok st" and s: "share_ok c i st" and p: "prefix_for i = Some p"
  shows "stored_seqs i st = set (List.map_filter (\<lambda>o'. seq_from_key (fst o')) (filter (\<lambda>o'. under p (fst o')) st))"
proof -
  obtain objs where l: "store_list p st = Inr objs" using valid_prefix_for[OF p] by (simp add: store_list_def)
  have "set objs = set (filter (\<lambda>o'. under p (fst o')) st)" using l by (auto simp: store_list_def split: if_split_asm)
  then show ?thesis using listed_seqs(2)[OF ok s p l] by (simp add: List.map_filter_def)
qed

lemma sample_read:
  assumes "relay_ok sample_parse sample_seal sample_config s"
  shows "rl_objects s = sample_objects [''one''] \<Longrightarrow>
      stored_seqs sample_share (rl_objects s) = {0} \<and>
      handle_read sample_share [] (rl_objects s) (rl_objects s) = ShareChunks [(0, ''one'')] 0"
    "rl_objects s = sample_objects [''one'', ''two''] \<Longrightarrow>
      stored_seqs sample_share (rl_objects s) = {0, 1} \<and>
      handle_read sample_share ''1'' (rl_objects s) (rl_objects s) = ShareChunks [(1, ''two'')] 1"
proof -
  have z: "replicate 8 CHR ''0'' = ''00000000''" by code_simp
  have k: "chunk_key sample_share 0 = Some ''20260813/AAAAAAAAAAAAAAAAAAAAAA/000000000''"
    "chunk_key sample_share 1 = Some ''20260813/AAAAAAAAAAAAAAAAAAAAAA/000000001''"
    using z by (simp_all add: chunk_key_def sample_prefix padded_def decimal.simps digit_def sample_digits)
  have v: "valid_key ''20260813/AAAAAAAAAAAAAAAAAAAAAA/000000000''" "valid_key ''20260813/AAAAAAAAAAAAAAAAAAAAAA/000000001''"
    "valid_key ''20260813/AAAAAAAAAAAAAAAAAAAAAA/meta''"
    by code_simp+
  have q: "seq_from_key ''20260813/AAAAAAAAAAAAAAAAAAAAAA/meta'' = None"
    "seq_from_key ''20260813/AAAAAAAAAAAAAAAAAAAAAA/000000000'' = Some 0"
    "seq_from_key ''20260813/AAAAAAAAAAAAAAAAAAAAAA/000000001'' = Some 1"
    by (simp_all add: seq_from_key_def last_index_cut_def parse_uint_def)
  have mk: "meta_key sample_share = Some ''20260813/AAAAAAAAAAAAAAAAAAAAAA/meta''" by (simp add: meta_key_def sample_prefix)
  have i: "valid_id sample_share" by (simp add: valid_id_def sample_split)
  note o = relay_okD(1)[OF assms] relay_okD(3)[OF assms]
  have m: "rl_objects s = sample_objects bs \<Longrightarrow> length bs \<le> 2 \<Longrightarrow> get_meta sample_share (rl_objects s) = Inr (Some sample_meta)" for bs
    using v(3) by (cases bs; cases "tl bs") (auto simp: get_meta_def mk store_get_def sample_objects_def)
  have sq: "stored_seqs sample_share (rl_objects s) =
      set (List.map_filter (\<lambda>o'. seq_from_key (fst o')) (filter (\<lambda>o'. under ''20260813/AAAAAAAAAAAAAAAAAAAAAA/'' (fst o')) (rl_objects s)))"
    by (rule stored_seqs_eq[OF o sample_prefix])
  have pu: "parse_uint ''1'' = Some 1" by (simp add: parse_uint_def)
  show "stored_seqs sample_share (rl_objects s) = {0} \<and>
      handle_read sample_share [] (rl_objects s) (rl_objects s) = ShareChunks [(0, ''one'')] 0"
    if st: "rl_objects s = sample_objects [''one'']"
  proof -
    have a: "stored_seqs sample_share (rl_objects s) = {0}"
      unfolding sq unfolding st using q by (simp add: sample_objects_def under_def trim_slash_def has_prefix_def List.map_filter_simps)
    have b: "chunk_at sample_share (rl_objects s) 0 = Some ''one''"
      unfolding st using k v by (simp add: chunk_at_def store_get_def sample_objects_def)
    have "chunks_from sample_share (rl_objects s) 0 = [(0, ''one'')]" by (simp add: chunks_from_def a b)
    then show ?thesis using a handle_read_eq(1)[OF o m[OF st] i, of "[]" 0] by (simp add: last_seq_of_def)
  qed
  show "stored_seqs sample_share (rl_objects s) = {0, 1} \<and>
      handle_read sample_share ''1'' (rl_objects s) (rl_objects s) = ShareChunks [(1, ''two'')] 1"
    if st: "rl_objects s = sample_objects [''one'', ''two'']"
  proof -
    have a: "stored_seqs sample_share (rl_objects s) = {0, 1}"
      unfolding sq unfolding st using q by (auto simp: sample_objects_def under_def trim_slash_def has_prefix_def List.map_filter_simps)
    have b: "chunk_at sample_share (rl_objects s) 1 = Some ''two''"
      unfolding st using k v by (simp add: chunk_at_def store_get_def sample_objects_def)
    have "{seq \<in> {0, 1}. 1 \<le> seq} = {1 :: nat}" by auto
    then have "chunks_from sample_share (rl_objects s) 1 = [(1, ''two'')]" using b by (simp add: chunks_from_def a)
    then show ?thesis using a pu handle_read_eq(1)[OF o m[OF st] i, of "''1''" 1] by (simp add: last_seq_of_def)
  qed
qed

lemma sample_first_run: "\<exists>rs. run_sample (take 3 share_events) = Some (rs, empty_relay\<lparr>rl_objects := sample_objects [''one'']\<rparr>)"
proof -
  have "random_ok empty_relay (Create True sample_time sample_random ''tok'')"
    unfolding random_ok.simps sample_random_def by code_simp
  moreover have m: "map_of (sample_objects []) ''20260813/AAAAAAAAAAAAAAAAAAAAAA/meta'' = Some (Share_Meta sample_meta)"
    by (simp add: sample_objects_def)
  ultimately show ?thesis
    unfolding run_sample_def share_events_def
    using sample_commit sample_append(1)[OF m, of "''one''"]
    by (simp add: stored_def parked_def resumed_def without_def empty_relay_def sample_share_create numeral_3_eq_3)
qed

lemma viewer_polls_resume_witness:
  "\<exists>cs' l'. handle_read sample_share ''1'' (sample_objects [''one'', ''two'']) (sample_objects [''one'', ''two'']) = ShareChunks cs' l' \<and>
    handle_read sample_share [] (sample_objects [''one'', ''two'']) (sample_objects [''one'', ''two'']) =
      ShareChunks ([(0, ''one'')] @ cs') (last_seq_of ([(0, ''one'')] @ cs'))"
proof -
  let ?s = "empty_relay\<lparr>rl_objects := sample_objects [''one'']\<rparr>" and ?s' = "empty_relay\<lparr>rl_objects := sample_objects [''one'', ''two'']\<rparr>"
  have lim: "limits_ok sample_config" by (rule new_server_limits[OF sample_server])
  obtain rs where r: "run_sample (take 3 share_events) = Some (rs, ?s)" using sample_first_run by blast
  note run = run_sampleD[OF r]
  note ok = run_ok[OF run empty_relay_ok[OF lim] lim]
  note ok' = run_ok[OF sample_share_two ok lim]
  have st: "stored_seqs sample_share (sample_objects [''one'']) = {0} \<and>
      handle_read sample_share [] (sample_objects [''one'']) (sample_objects [''one'']) = ShareChunks [(0, ''one'')] 0"
    using sample_read(1)[OF ok] by simp
  have st': "stored_seqs sample_share (sample_objects [''one'', ''two'']) = {0, 1}" using sample_read(2)[OF ok'] by simp
  have k: "chunk_key sample_share 0 = Some ''20260813/AAAAAAAAAAAAAAAAAAAAAA/000000000''"
  proof -
    have "replicate 8 CHR ''0'' = ''00000000''" by code_simp
    then show ?thesis by (simp_all add: chunk_key_def sample_prefix padded_def decimal.simps digit_def sample_digits)
  qed
  have same: "chunk_at sample_share (sample_objects [''one'', ''two'']) 0 = chunk_at sample_share (sample_objects [''one'']) 0"
    by (simp add: chunk_at_def k store_get_def sample_objects_def)
  have mk: "meta_key sample_share = Some ''20260813/AAAAAAAAAAAAAAAAAAAAAA/meta''" by (simp add: meta_key_def sample_prefix)
  have v: "valid_key ''20260813/AAAAAAAAAAAAAAAAAAAAAA/meta''" by code_simp
  have m: "get_meta sample_share (rl_objects ?s') = Inr (Some sample_meta)"
    by (simp add: get_meta_def mk store_get_def v sample_objects_def)
  have i: "valid_id sample_share" by (simp add: valid_id_def sample_split)
  have "\<exists>cs' l'. handle_read sample_share ''1'' (rl_objects ?s') (rl_objects ?s') = ShareChunks cs' l' \<and>
      handle_read sample_share [] (rl_objects ?s') (rl_objects ?s') = ShareChunks ([(0, ''one'')] @ cs') (last_seq_of ([(0, ''one'')] @ cs')) \<and>
      sorted_wrt (<) (map fst ([(0, ''one'')] @ cs')) \<and> set (map fst ([(0, ''one'')] @ cs')) = stored_seqs sample_share (rl_objects ?s')"
    by (rule viewer_polls_resume[OF sample_server run sample_share_two i _ m, of _ 0])
      (use st st' same in \<open>auto simp: parse_uint_def\<close>)
  then show ?thesis by fastforce
qed

section \<open>Retention of shares\<close>

lemma civil_year_ge: "y \<le> fst (civil_year y d)"
proof (induction y d rule: civil_year.induct)
  case (1 y d)
  then show ?case by (subst civil_year.simps) auto
qed

lemma civil_year_mono: "d \<le> d' \<Longrightarrow> fst (civil_year y d) \<le> fst (civil_year y d')"
proof (induction y d arbitrary: d' rule: civil_year.induct)
  case (1 y d)
  show ?case
  proof (cases "d < year_days y")
    case True
    then show ?thesis using civil_year_ge by (subst civil_year.simps) simp
  next
    case False
    then show ?thesis using 1 by (simp add: civil_year.simps[of y])
  qed
qed

lemma in_calendar_mono: "in_calendar b \<Longrightarrow> a \<le> b \<Longrightarrow> in_calendar a"
  using civil_year_mono[of a b 1970] by (simp add: in_calendar_def)

lemma segments_date: "segments (date_string day) = [date_string day]" "date_string day \<noteq> []"
  "trim_slash (date_prefix day) = date_string day" "valid_key (date_string day)"
proof -
  have c: "\<forall>x \<in> set (date_string day). key_char x \<and> x \<noteq> CHR ''/''"
    using date_string_chars key_char_not_slash by blast
  then show s: "segments (date_string day) = [date_string day]" by (intro segments_plain) blast
  show n: "date_string day \<noteq> []" by (simp add: date_string_def padded_def Let_def split: prod.split)
  show "trim_slash (date_prefix day) = date_string day" by (simp add: trim_slash_def date_prefix_def)
  show "valid_key (date_string day)" using c n s by (simp add: valid_key_def valid_key_segment_def)
qed

text \<open>What one day of the sweep deletes.\<close>

lemma sweep_day_objects:
  assumes day: "prefix_for i = Some p" "split_id i = Some (date_string d, rnd)" "in_calendar d"
    and limit: "limit = (now - rc_ttl c) div day_length" "in_calendar (nat limit)" and k: "under p key"
  shows "\<exists>st'. sweep_day c now n st = Inr st' \<and> ((key, b) \<in> set st' \<longleftrightarrow> (key, b) \<in> set st \<and> int d \<noteq> limit - int n - 1)"
proof (cases "limit - int n - 1 < 0")
  case True
  then show ?thesis by (simp add: sweep_day_def Let_def limit(1)[symmetric])
next
  case False
  let ?d = "nat (limit - int n - 1)"
  have cal: "in_calendar ?d" by (rule in_calendar_mono[OF limit(2)]) simp
  have "under (date_prefix ?d) key \<longleftrightarrow> prefix [date_string ?d] (segments key)"
    using under_segments[of "date_prefix ?d" key] segments_date[of ?d] by simp
  moreover obtain r where "split_id i = Some (date_string d, r)" "segments (trim_slash p) = [date_string d, r]" "trim_slash p \<noteq> []"
    using share_prefix_segments[OF day(1)] day(2) by (metis Pair_inject option.inject)
  then have "prefix [date_string d, r] (segments key)" using under_segments[of p key] k by simp
  ultimately have same: "under (date_prefix ?d) key \<longleftrightarrow> date_string ?d = date_string d" by (auto simp: prefix_def)
  have u: "under (date_prefix ?d) key \<longleftrightarrow> int d = limit - int n - 1"
  proof -
    have "int ?d = limit - int n - 1" using False by simp
    then have "?d = d \<longleftrightarrow> int d = limit - int n - 1" by linarith
    then show ?thesis using date_string_inj[OF cal day(3)] same by auto
  qed
  have "sweep_day c now n st = Inr (filter (\<lambda>o'. \<not> under (date_prefix ?d) (fst o')) st)"
    using False segments_date[of ?d] by (simp add: sweep_day_def Let_def limit(1)[symmetric] store_delete_prefix_def)
  then show ?thesis using u by auto
qed

lemma sweep_days_objects:
  assumes day: "prefix_for i = Some p" "split_id i = Some (date_string d, rnd)" "in_calendar d"
    and limit: "limit = (now - rc_ttl c) div day_length" "in_calendar (nat limit)" and k: "under p key"
  shows "\<exists>st'. sweep_days c now ns st = Inr st' \<and>
    ((key, b) \<in> set st' \<longleftrightarrow> (key, b) \<in> set st \<and> (\<forall>n \<in> set ns. int d \<noteq> limit - int n - 1))"
proof (induction ns arbitrary: st)
  case (Cons n ns)
  obtain st1 where 1: "sweep_day c now n st = Inr st1" "(key, b) \<in> set st1 \<longleftrightarrow> (key, b) \<in> set st \<and> int d \<noteq> limit - int n - 1"
    using sweep_day_objects[OF assms] by blast
  obtain st2 where 2: "sweep_days c now ns st1 = Inr st2"
      "(key, b) \<in> set st2 \<longleftrightarrow> (key, b) \<in> set st1 \<and> (\<forall>n \<in> set ns. int d \<noteq> limit - int n - 1)"
    using Cons.IH by blast
  show ?case by (intro exI[of _ st2]) (use 1 2 in auto)
qed simp

text \<open>
  The expiry sweep deletes exactly the shares whose day lies in the ninety days before the
  cut-off, and so never an object of a share before its advertised expiry: what a share created at
  \<open>t\<close> holds survives every sweep until the retention period has passed since \<open>t\<close>.
\<close>

theorem sweep_respects_retention:
  assumes "0 \<le> t" and "in_calendar (day_of t)" and "valid_random_string rnd 16" and "prefix_for (new_id (day_of t) rnd) = Some p"
    and "under p key" and "in_calendar (nat ((now - rc_ttl c) div day_length))"
  shows "\<exists>st'. sweep_shares c now st = Inr st' \<and>
    ((key, b) \<in> set st' \<longleftrightarrow> (key, b) \<in> set st \<and>
       \<not> ((now - rc_ttl c) div day_length - 90 \<le> t div day_length \<and> t div day_length < (now - rc_ttl c) div day_length)) \<and>
    (now < t + rc_ttl c \<longrightarrow> (key, b) \<in> set st \<longrightarrow> (key, b) \<in> set st')"
proof -
  let ?cut = "(now - rc_ttl c) div day_length"
  have dl: "0 < day_length" by (simp add: day_length_def second_def)
  have d: "int (day_of t) = t div day_length" using assms(1) dl by (simp add: day_of_def pos_imp_zdiv_nonneg_iff)
  obtain st' where st': "sweep_shares c now st = Inr st'"
      "(key, b) \<in> set st' \<longleftrightarrow> (key, b) \<in> set st \<and> (\<forall>n \<in> set [0..<90]. int (day_of t) \<noteq> ?cut - int n - 1)"
    using sweep_days_objects[OF assms(4) new_id_split[OF assms(2,3)] assms(2) refl assms(6,5), of "[0..<90]" st b]
    unfolding sweep_shares_def by blast
  have w: "(\<forall>n \<in> set [0..<90]. int (day_of t) \<noteq> ?cut - int n - 1) \<longleftrightarrow> \<not> (?cut - 90 \<le> t div day_length \<and> t div day_length < ?cut)"
  proof
    assume a: "\<forall>n \<in> set [0..<90]. int (day_of t) \<noteq> ?cut - int n - 1"
    show "\<not> (?cut - 90 \<le> t div day_length \<and> t div day_length < ?cut)"
    proof
      assume b: "?cut - 90 \<le> t div day_length \<and> t div day_length < ?cut"
      let ?n = "nat (?cut - 1 - t div day_length)"
      have "?n \<in> set [0..<90]" "int ?n = ?cut - 1 - t div day_length" using b by auto
      then show False using a d by force
    qed
  next
    assume "\<not> (?cut - 90 \<le> t div day_length \<and> t div day_length < ?cut)"
    then show "\<forall>n \<in> set [0..<90]. int (day_of t) \<noteq> ?cut - int n - 1" using d by auto
  qed
  have "?cut \<le> t div day_length" if "now < t + rc_ttl c" using dl that by (intro zdiv_mono1) simp_all
  then show ?thesis using st' w by (intro exI[of _ st']) auto
qed

lemma sweep_respects_retention_witness:
  "\<exists>st'. sweep_shares sample_config (sample_time + 2592000000000000) (sample_objects [''one'']) = Inr st' \<and>
     (''20260813/AAAAAAAAAAAAAAAAAAAAAA/000000000'', Bytes ''one'') \<in> set st'"
proof -
  have t: "0 \<le> sample_time" "sample_time div day_length = 20678" "day_of sample_time = 20678" "sample_time + 2592000000000000 - rc_ttl sample_config = sample_time"
    by (simp_all add: sample_time_def day_length_def second_def day_of_def sample_config_def)
  have cal: "in_calendar 20678" by (simp add: in_calendar_def civil_year.simps year_days_def leap_def)
  have r: "valid_random_string sample_random 16" unfolding sample_random_def by code_simp
  have u: "under ''20260813/AAAAAAAAAAAAAAAAAAAAAA/'' ''20260813/AAAAAAAAAAAAAAAAAAAAAA/000000000''" by code_simp
  have p: "prefix_for (new_id (day_of sample_time) sample_random) = Some ''20260813/AAAAAAAAAAAAAAAAAAAAAA/''"
    using sample_prefix by (simp add: sample_share_def)
  have c: "in_calendar (day_of sample_time)" "in_calendar (nat ((sample_time + 2592000000000000 - rc_ttl sample_config) div day_length))"
    using cal t by simp_all
  show ?thesis
    using sweep_respects_retention[OF t(1) c(1) r p u c(2), of "sample_objects [''one'']" "Bytes ''one''"]
    unfolding t(2,4) by (auto simp: sample_objects_def)
qed

definition revoked_events :: "event list" where
  "revoked_events = butlast inbox_events @
     [Begin_Revoke sample_random ''Bearer man'', Commit_Revoke 0, Commit_Ingest 0 sample_time]"

text \<open>
  A webhook accepted while its inbox is being revoked is stored after the revocation, because
  ingestion does not look at the metadata again under the lock: it is acknowledged to its sender,
  no token fetches it, and since the sweep finds inboxes by their metadata no sweep visits it.
\<close>

theorem ingest_survives_revocation:
  "case run_sample revoked_events of
     None \<Rightarrow> False
   | Some (rs, s) \<Rightarrow>
       drop 3 rs = [Some (Status 204), Some (Ingested sample_random)] \<and>
       (case store_get (rl_objects s) (delivery_key sample_random sample_random) of Inr (Bytes b) \<Rightarrow> b = ''age1x|body'' | _ \<Rightarrow> False) \<and>
       handle_fetch sample_hash sample_random ''Bearer get'' sample_random (rl_objects s) = Status 404 \<and>
       swept_inboxes (rl_objects s) = []"
  by code_simp

end
