(* ===== verification/Relay_Paging.thy ===== *)
theory Relay_Paging
  imports Relay_Runs
begin

text \<open>
  Polling an inbox page by page: the loop of the owner's poller over the cursors of
  \<open>handleListInboxDeliveries\<close> (\<open>internal/webhook/poller.go\<close>, \<open>internal/relay/inbox.go\<close>). Between two
  requests the inbox may change, so the loop runs over one listing per request.
\<close>

section \<open>Following the cursors\<close>

text \<open>The ids of all pages, and whether the last page was reached; nothing when a cursor is refused.\<close>

fun follow_cursors :: "(string \<times> blob) list list \<Rightarrow> string \<Rightarrow> (string list \<times> bool) option" where
  "follow_cursors [] cursor = Some ([], False)"
| "follow_cursors (objs # rest) cursor =
     (case delivery_page objs cursor of
        None \<Rightarrow> None
      | Some (page, next) \<Rightarrow>
          if next = [] then Some (page, True)
          else map_option (\<lambda>(ids, done). (page @ ids, done)) (follow_cursors rest next))"

definition inbox_listing :: "string \<Rightarrow> relay \<Rightarrow> (string \<times> blob) list" where
  "inbox_listing i s = (case store_list (delivery_prefix i) (rl_objects s) of Inl e \<Rightarrow> [] | Inr objs \<Rightarrow> objs)"

definition pending_ids :: "string \<Rightarrow> relay \<Rightarrow> string set" where
  "pending_ids i s = {d. valid_delivery_id d \<and> delivery_key i d \<in> fst ` set (inbox_listing i s)}"

section \<open>Listings\<close>

definition listed_ids :: "(string \<times> blob) list \<Rightarrow> string list" where
  "listed_ids objs = sort (List.map_filter (\<lambda>o'. delivery_id_from_key (fst o')) objs)"

definition listing_ok :: "string \<Rightarrow> (string \<times> blob) list \<Rightarrow> bool" where
  "listing_ok i objs \<longleftrightarrow> distinct (map fst objs) \<and> (\<forall>o' \<in> set objs. \<exists>d. valid_delivery_id d \<and> fst o' = delivery_key i d)"

lemma id_chars: "valid_delivery_id d \<Longrightarrow> c \<in> set d \<Longrightarrow> key_char c"
  using valid_random_chars(2) by (auto simp: valid_delivery_id_def)

lemma id_from_delivery_key: "valid_delivery_id d \<Longrightarrow> delivery_id_from_key (delivery_key i d) = Some d"
proof -
  assume v: "valid_delivery_id d"
  have n: "\<forall>c \<in> set (rev d). c \<noteq> CHR ''/''" using id_chars[OF v] key_char_not_slash by auto
  have "rev (delivery_key i d) = rev d @ CHR ''/'' # rev (''inboxes/'' @ i @ ''/deliveries'')"
    by (simp add: delivery_key_def delivery_prefix_def)
  moreover have "takeWhile (\<lambda>c. c \<noteq> CHR ''/'') (rev d @ CHR ''/'' # s) = rev d" for s
    using takeWhile_append2[of "rev d" "\<lambda>c. c \<noteq> CHR ''/''"] n by simp
  ultimately have "takeWhile (\<lambda>c. c \<noteq> CHR ''/'') (rev (delivery_key i d)) = rev d" by metis
  then show ?thesis using v by (simp add: delivery_id_from_key_def)
qed

lemma map_filter_listing:
  assumes "\<forall>o' \<in> set objs. \<exists>d. valid_delivery_id d \<and> fst o' = delivery_key i d"
  shows "map (delivery_key i) (List.map_filter (\<lambda>o'. delivery_id_from_key (fst o')) objs) = map fst objs"
  using assms by (induction objs) (auto simp: List.map_filter_simps id_from_delivery_key)

lemma listed_ids_props:
  assumes "listing_ok i objs"
  shows "sorted_wrt (<) (listed_ids objs)" "\<forall>d \<in> set (listed_ids objs). valid_delivery_id d"
    "d \<in> set (listed_ids objs) \<longleftrightarrow> valid_delivery_id d \<and> delivery_key i d \<in> fst ` set objs"
    "length (listed_ids objs) = length objs"
proof -
  let ?ids = "List.map_filter (\<lambda>o'. delivery_id_from_key (fst o')) objs"
  have m: "map (delivery_key i) ?ids = map fst objs" by (rule map_filter_listing) (use assms in \<open>auto simp: listing_ok_def\<close>)
  have "distinct ?ids" using assms m by (metis distinct_map listing_ok_def)
  then show "sorted_wrt (<) (listed_ids objs)" by (simp add: listed_ids_def strict_sorted_iff)
  show v: "\<forall>d \<in> set (listed_ids objs). valid_delivery_id d" using listed_ids_valid by (simp add: listed_ids_def)
  show "length (listed_ids objs) = length objs" using arg_cong[OF m, of length] by (simp add: listed_ids_def)
  have e: "delivery_key i ` set ?ids = fst ` set objs" using arg_cong[OF m, of set] by simp
  have "inj (delivery_key i)" by (rule injI) (simp add: delivery_key_def)
  from inj_image_mem_iff[OF this, of d "set ?ids"]
  have "d \<in> set ?ids \<longleftrightarrow> delivery_key i d \<in> fst ` set objs" unfolding e by (rule sym)
  moreover have "set (listed_ids objs) = set ?ids" by (simp add: listed_ids_def)
  ultimately show "d \<in> set (listed_ids objs) \<longleftrightarrow> valid_delivery_id d \<and> delivery_key i d \<in> fst ` set objs"
    using v by blast
qed

lemma reachable_listing:
  assumes "relay_ok parse seal c s" "valid_random_string i 16"
  shows "listing_ok i (inbox_listing i s)"
proof (cases "store_list (delivery_prefix i) (rl_objects s)")
  case (Inl e)
  then show ?thesis by (simp add: inbox_listing_def listing_ok_def)
next
  case (Inr objs)
  note o = relay_okD(1)[OF assms(1)]
  have d: "distinct (map fst objs)" using disk.list_objects[OF o Inr] by blast
  have "\<exists>d. valid_delivery_id d \<and> fst o' = delivery_key i d" if "o' \<in> set objs" for o'
  proof -
    have "o' \<in> deliveries i (rl_objects s)" using that disk.objects_list[OF o Inr] by (simp add: deliveries_def)
    then show ?thesis using relay_okD(5)[OF assms] unfolding delivery_sealed_def by fastforce
  qed
  then show ?thesis using d by (simp add: inbox_listing_def Inr listing_ok_def)
qed

section \<open>Cursors\<close>

lemma cursor_round_trip:
  assumes "valid_delivery_id a" "valid_delivery_id t" "a \<le> t"
  shows "decode_inbox_cursor (encode_inbox_cursor a t) = Some (a, t)" "encode_inbox_cursor a t \<noteq> []"
proof -
  have "\<not> key_char (CHR 0x0A)" by (simp add: key_char_def)
  then have "CHR 0x0A \<notin> set a" using id_chars[OF assms(1)] by blast
  then have "cut_at (CHR 0x0A) (a @ [CHR 0x0A] @ t) = Some (a, t)" by (simp add: cut_at_Some)
  then show d: "decode_inbox_cursor (encode_inbox_cursor a t) = Some (a, t)"
    using assms by (simp add: decode_inbox_cursor_def encode_inbox_cursor_def decode_encode[of "a @ [CHR 0x0A] @ t", simplified])
  have "decode_inbox_cursor [] = None" by code_simp
  then show "encode_inbox_cursor a t \<noteq> []" using d by auto
qed

section \<open>The walk over sorted ids\<close>

fun walk :: "string list list \<Rightarrow> string \<Rightarrow> string \<Rightarrow> string list \<times> bool" where
  "walk [] a t = ([], False)"
| "walk (ids # rest) a t =
     (let page = take inbox_page_size (filter_delivery_page ids a t)
      in if length page = inbox_page_size then (case walk rest (last page) t of (r, f) \<Rightarrow> (page @ r, f)) else (page, True))"

lemma walk_step:
  "walk (ids # rest) a t =
     (let page = take inbox_page_size (filter_delivery_page ids a t); w = walk rest (last page) t
      in if length page = inbox_page_size then (page @ fst w, snd w) else (page, True))"
  by (simp add: Let_def split: prod.split)

lemmas walk_simps = walk.simps(1) walk_step

declare walk.simps(2) [simp del]

lemma page_props:
  assumes "sorted_wrt (<) ids" "\<forall>d \<in> set ids. valid_delivery_id d"
  shows "sorted_wrt (<) (take inbox_page_size (filter_delivery_page ids a t))"
    "d \<in> set (take inbox_page_size (filter_delivery_page ids a t)) \<Longrightarrow> d \<in> set ids \<and> a < d \<and> d \<le> t \<and> valid_delivery_id d"
proof -
  show "sorted_wrt (<) (take inbox_page_size (filter_delivery_page ids a t))"
    unfolding filter_delivery_page_def by (intro sorted_wrt_take sorted_wrt_filter assms(1))
  show "d \<in> set (take inbox_page_size (filter_delivery_page ids a t)) \<Longrightarrow> d \<in> set ids \<and> a < d \<and> d \<le> t \<and> valid_delivery_id d"
    using assms(2) by (auto simp: filter_delivery_page_def dest: in_set_takeD)
qed

lemma sorted_last: "sorted_wrt (<) xs \<Longrightarrow> d \<in> set xs \<Longrightarrow> d \<le> last xs" for xs :: "string list"
  by (induction xs) (auto intro: less_imp_le)

lemma page_rest:
  fixes ids :: "string list"
  assumes s: "sorted_wrt (<) ids" and n: "0 < n" "n \<le> length (filter (\<lambda>d. a < d \<and> d \<le> t) ids)"
  shows "filter (\<lambda>d. last (take n (filter (\<lambda>d. a < d \<and> d \<le> t) ids)) < d \<and> d \<le> t) ids =
    drop n (filter (\<lambda>d. a < d \<and> d \<le> t) ids)"
proof -
  let ?p = "filter (\<lambda>d. a < d \<and> d \<le> t) ids"
  let ?l = "last (take n ?p)"
  have ne: "take n ?p \<noteq> []" using n by auto
  then have l: "?l \<in> set (take n ?p)" by (rule last_in_set)
  then have al: "a < ?l" by (auto dest: in_set_takeD)
  have sp: "sorted_wrt (<) ?p" by (rule sorted_wrt_filter[OF s])
  then have s2: "sorted_wrt (<) (take n ?p @ drop n ?p)" by simp
  have "filter (\<lambda>d. ?l < d \<and> d \<le> t) ids = filter (\<lambda>d. ?l < d) ?p"
    unfolding filter_filter by (rule filter_cong) (use al in auto)
  also have "\<dots> = filter (\<lambda>d. ?l < d) (take n ?p) @ filter (\<lambda>d. ?l < d) (drop n ?p)"
    by (metis append_take_drop_id filter_append)
  also have "filter (\<lambda>d. ?l < d) (take n ?p) = []"
    using sorted_last[OF sorted_wrt_take[OF sp]] by (auto simp: filter_empty_conv not_less)
  also have "filter (\<lambda>d. ?l < d) (drop n ?p) = drop n ?p"
  proof -
    have "\<forall>x \<in> set (take n ?p). \<forall>y \<in> set (drop n ?p). x < y" using s2 unfolding sorted_wrt_append by blast
    then have "\<forall>y \<in> set (drop n ?p). ?l < y" using l by blast
    then show ?thesis by (simp only: filter_id_conv)
  qed
  finally show ?thesis by simp
qed

lemma walk_sorted:
  "\<forall>ids \<in> set idss. sorted_wrt (<) ids \<and> (\<forall>d \<in> set ids. valid_delivery_id d) \<Longrightarrow>
     sorted_wrt (<) (fst (walk idss a t)) \<and>
     (\<forall>d \<in> set (fst (walk idss a t)). a < d \<and> d \<le> t \<and> (\<exists>ids \<in> set idss. d \<in> set ids))"
proof (induction idss arbitrary: a)
  case (Cons ids rest)
  define page where "page = take inbox_page_size (filter_delivery_page ids a t)"
  have srt: "sorted_wrt (<) ids" and val: "\<forall>d \<in> set ids. valid_delivery_id d" using Cons.prems by simp_all
  note pp = page_props[OF srt val, where a = a and t = t, folded page_def]
  have p: "sorted_wrt (<) page" "\<And>d. d \<in> set page \<Longrightarrow> d \<in> set ids \<and> a < d \<and> d \<le> t"
    using pp by blast+
  show ?case
  proof (cases "length page = inbox_page_size")
    case True
    then have ne: "page \<noteq> []" by (auto simp: inbox_page_size_def)
    define r where "r = fst (walk rest (last page) t)"
    have ih: "sorted_wrt (<) r" "\<forall>d \<in> set r. last page < d \<and> d \<le> t \<and> (\<exists>ids \<in> set rest. d \<in> set ids)"
      using Cons.IH[of "last page"] Cons.prems by (auto simp: r_def)
    have "sorted_wrt (<) (page @ r)"
      using p(1) ih sorted_last[OF p(1)] by (auto simp: sorted_wrt_append intro: le_less_trans)
    moreover have "a < last page" using p(2) last_in_set[OF ne] by blast
    ultimately show ?thesis using ih p(2) True
      by (auto simp: walk_step Let_def page_def[symmetric] r_def[symmetric] intro: less_trans)
  next
    case False
    then show ?thesis using p by (auto simp: walk_step Let_def page_def[symmetric])
  qed
qed simp

lemma walk_complete:
  "\<forall>ids \<in> set idss. sorted_wrt (<) ids \<and> (\<forall>d \<in> set ids. valid_delivery_id d) \<Longrightarrow> snd (walk idss a t) \<Longrightarrow>
     \<forall>ids \<in> set idss. d \<in> set ids \<Longrightarrow> a < d \<Longrightarrow> d \<le> t \<Longrightarrow> d \<in> set (fst (walk idss a t))"
proof (induction idss arbitrary: a)
  case (Cons ids rest)
  define P where "P = filter_delivery_page ids a t"
  have dP: "d \<in> set P" using Cons.prems by (simp add: P_def filter_delivery_page_def)
  show ?case
  proof (cases "length (take inbox_page_size P) = inbox_page_size")
    case True
    show ?thesis
    proof (cases "d \<in> set (take inbox_page_size P)")
      case False
      have n: "0 < inbox_page_size" "inbox_page_size \<le> length P" using True by (auto simp: inbox_page_size_def)
      have "set P = set (take inbox_page_size P) \<union> set (drop inbox_page_size P)" by (metis append_take_drop_id set_append)
      then have "d \<in> set (drop inbox_page_size P)" using dP False by blast
      then have "last (take inbox_page_size P) < d"
        using page_rest[of ids inbox_page_size a t] n Cons.prems(1) unfolding P_def filter_delivery_page_def by (metis (mono_tags, lifting) list.set_intros(1) mem_Collect_eq set_filter)
      then show ?thesis
        using Cons.IH[of "last (take inbox_page_size P)"] Cons.prems True by (simp add: walk_step Let_def P_def[symmetric])
    qed (use True in \<open>simp add: walk_step Let_def P_def[symmetric]\<close>)
  next
    case False
    then have "take inbox_page_size P = P" by simp
    then show ?thesis using dP False by (simp add: walk_step Let_def P_def[symmetric])
  qed
qed simp

lemma walk_ends:
  "sorted_wrt (<) ids \<Longrightarrow> length (filter_delivery_page ids a t) div inbox_page_size < k \<Longrightarrow> snd (walk (replicate k ids) a t)"
proof (induction k arbitrary: a)
  case (Suc k)
  define P where "P = filter_delivery_page ids a t"
  show ?case
  proof (cases "length (take inbox_page_size P) = inbox_page_size")
    case True
    then have n: "0 < inbox_page_size" "inbox_page_size \<le> length P" by (auto simp: inbox_page_size_def)
    have "filter_delivery_page ids (last (take inbox_page_size P)) t = drop inbox_page_size P"
      using page_rest[OF Suc.prems(1), of inbox_page_size a t] n unfolding P_def filter_delivery_page_def by blast
    moreover have "(length P - inbox_page_size) div inbox_page_size < k"
      using Suc.prems(2) n by (simp add: P_def[symmetric] le_div_geq)
    ultimately have "snd (walk (replicate k ids) (last (take inbox_page_size P)) t)"
      using Suc.IH[OF Suc.prems(1), of "last (take inbox_page_size P)"] by simp
    then show ?thesis using True by (simp add: walk_step Let_def P_def[symmetric])
  next
    case False
    then have "take inbox_page_size P = P" "length P \<noteq> inbox_page_size" by auto
    then show ?thesis by (simp add: walk_step Let_def P_def[symmetric])
  qed
qed simp

text \<open>Following the cursors is that walk.\<close>

lemma delivery_page_walk:
  assumes "listing_ok i objs" "(if cursor = [] then Some ([], if listed_ids objs = [] then [] else last (listed_ids objs)) else decode_inbox_cursor cursor) = Some (a, t)"
  shows "delivery_page objs cursor =
    (let page = take inbox_page_size (filter_delivery_page (listed_ids objs) a t)
     in Some (page, if length page = inbox_page_size then encode_inbox_cursor (last page) t else []))"
  using assms(2) by (simp add: delivery_page_def listed_ids_def[symmetric] Let_def)

lemma follow_walk:
  "\<forall>objs \<in> set objss. listing_ok i objs \<Longrightarrow> decode_inbox_cursor cursor = Some (a, t) \<Longrightarrow> cursor \<noteq> [] \<Longrightarrow> valid_delivery_id t \<Longrightarrow>
     follow_cursors objss cursor = Some (walk (map listed_ids objss) a t)"
proof (induction objss arbitrary: cursor a)
  case (Cons objs rest)
  define page where "page = take inbox_page_size (filter_delivery_page (listed_ids objs) a t)"
  have ok: "listing_ok i objs" using Cons.prems(1) by simp
  have d: "delivery_page objs cursor = Some (page, if length page = inbox_page_size then encode_inbox_cursor (last page) t else [])"
    using delivery_page_walk[OF ok, of cursor a t] Cons.prems(2,3) by (simp add: page_def Let_def)
  show ?case
  proof (cases "length page = inbox_page_size")
    case True
    then have "page \<noteq> []" by (auto simp: inbox_page_size_def)
    then have l: "valid_delivery_id (last page)" "last page \<le> t"
      using page_props(2)[OF listed_ids_props(1,2)[OF ok], where d = "last page" and a = a and t = t] last_in_set unfolding page_def by blast+
    note c = cursor_round_trip[OF l(1) Cons.prems(4) l(2)]
    have "follow_cursors rest (encode_inbox_cursor (last page) t) = Some (walk (map listed_ids rest) (last page) t)"
      by (rule Cons.IH[OF _ c Cons.prems(4)]) (use Cons.prems(1) in simp)
    then show ?thesis using d True c(2) by (simp add: walk_step Let_def page_def[symmetric] split: prod.split)
  next
    case False
    then show ?thesis using d by (simp add: walk_step Let_def page_def[symmetric])
  qed
qed simp

lemma follow_first:
  assumes "listing_ok i objs" "\<forall>objs \<in> set rest. listing_ok i objs"
  shows "follow_cursors (objs # rest) [] =
    Some (walk (map listed_ids (objs # rest)) [] (if listed_ids objs = [] then [] else last (listed_ids objs)))"
proof -
  define t where "t = (if listed_ids objs = [] then [] else last (listed_ids objs))"
  define page where "page = take inbox_page_size (filter_delivery_page (listed_ids objs) [] t)"
  have d: "delivery_page objs [] = Some (page, if length page = inbox_page_size then encode_inbox_cursor (last page) t else [])"
    using delivery_page_walk[OF assms(1), of "[]" "[]" t] by (simp add: page_def t_def Let_def)
  show ?thesis
  proof (cases "length page = inbox_page_size")
    case True
    then have ne: "page \<noteq> []" by (auto simp: inbox_page_size_def)
    then have l: "valid_delivery_id (last page)" "last page \<le> t"
      using page_props(2)[OF listed_ids_props(1,2)[OF assms(1)], where d = "last page" and a = "[]" and t = t] last_in_set unfolding page_def by blast+
    have "listed_ids objs \<noteq> []" using ne by (auto simp: page_def filter_delivery_page_def)
    then have t: "valid_delivery_id t" using listed_ids_props(2)[OF assms(1)] by (simp add: t_def)
    note c = cursor_round_trip[OF l(1) t l(2)]
    have "follow_cursors rest (encode_inbox_cursor (last page) t) = Some (walk (map listed_ids rest) (last page) t)"
      by (rule follow_walk[OF assms(2) c t])
    then show ?thesis using d True c(2) by (simp add: walk_step Let_def page_def[symmetric] t_def[symmetric] split: prod.split)
  next
    case False
    then show ?thesis using d by (simp add: walk_step Let_def page_def[symmetric] t_def[symmetric])
  qed
qed

section \<open>Properties\<close>

lemma listings_ok:
  assumes "new_server cfg = Some c" "valid_random_string i 16"
    and "\<forall>s \<in> set ss. \<exists>es. relay_run hash parse seal c empty_relay es s"
  shows "\<forall>objs \<in> set (map (inbox_listing i) ss). listing_ok i objs"
proof -
  have lim: "limits_ok c" by (rule new_server_limits[OF assms(1)])
  have "listing_ok i (inbox_listing i s)" if "s \<in> set ss" for s
    using reachable_listing[OF run_ok[OF _ empty_relay_ok[OF lim] lim] assms(2)] assms(3) that by blast
  then show ?thesis by simp
qed

lemma pending_listed: "listing_ok i (inbox_listing i s) \<Longrightarrow> set (listed_ids (inbox_listing i s)) = pending_ids i s"
  using listed_ids_props(3) by (auto simp: pending_ids_def)

lemma polling_sees_every_delivery_once_lemma:
  assumes "new_server cfg = Some c" and "valid_random_string i 16"
    and "\<forall>s \<in> set (s0 # ss). \<exists>es. relay_run hash parse seal c empty_relay es s"
  shows "\<exists>ids done. follow_cursors (map (inbox_listing i) (s0 # ss)) [] = Some (ids, done) \<and>
    sorted_wrt (<) ids \<and> set ids \<subseteq> (\<Union>s \<in> set (s0 # ss). pending_ids i s) \<and>
    (done \<longrightarrow> (\<Inter>s \<in> set (s0 # ss). pending_ids i s) \<subseteq> set ids)"
proof -
  note ok = listings_ok[OF assms]
  let ?ls = "map (inbox_listing i) (s0 # ss)"
  define idss where "idss = map listed_ids ?ls"
  define t where "t = (if listed_ids (inbox_listing i s0) = [] then [] else last (listed_ids (inbox_listing i s0)))"
  have f: "follow_cursors ?ls [] = Some (walk idss [] t)"
    using follow_first[of i "inbox_listing i s0" "map (inbox_listing i) ss"] ok by (simp add: idss_def t_def)
  have srt: "\<forall>ids \<in> set idss. sorted_wrt (<) ids \<and> (\<forall>d \<in> set ids. valid_delivery_id d)"
    using ok listed_ids_props(1,2) unfolding idss_def set_map by blast
  have pend: "set (listed_ids (inbox_listing i s)) = pending_ids i s" if "s \<in> set (s0 # ss)" for s
    using pending_listed[of i s] ok that by auto
  have s: "sorted_wrt (<) (fst (walk idss [] t))" "set (fst (walk idss [] t)) \<subseteq> (\<Union>s \<in> set (s0 # ss). pending_ids i s)"
  proof -
    show "sorted_wrt (<) (fst (walk idss [] t))" using walk_sorted[OF srt] by blast
    have "\<exists>ids \<in> set idss. d \<in> set ids" if "d \<in> set (fst (walk idss [] t))" for d using walk_sorted[OF srt] that by blast
    then show "set (fst (walk idss [] t)) \<subseteq> (\<Union>s \<in> set (s0 # ss). pending_ids i s)" using pend by (fastforce simp: idss_def)
  qed
  have "(\<Inter>s \<in> set (s0 # ss). pending_ids i s) \<subseteq> set (fst (walk idss [] t))" if fin: "snd (walk idss [] t)"
  proof
    fix d assume d: "d \<in> (\<Inter>s \<in> set (s0 # ss). pending_ids i s)"
    then have all: "\<forall>ids \<in> set idss. d \<in> set ids" using pend by (auto simp: idss_def)
    then have d0: "d \<in> set (listed_ids (inbox_listing i s0))" by (simp add: idss_def)
    have srt0: "sorted_wrt (<) (listed_ids (inbox_listing i s0))" using srt by (simp add: idss_def)
    have "d \<le> t" using sorted_last[OF srt0 d0] d0 by (auto simp: t_def)
    moreover have "valid_delivery_id d" using srt d0 by (simp add: idss_def)
    then have "d \<noteq> []" using random_last by (auto simp: valid_delivery_id_def)
    then have "[] < d" by (cases d) auto
    ultimately show "d \<in> set (fst (walk idss [] t))" using walk_complete[OF srt fin all] by blast
  qed
  then show ?thesis using f s by (intro exI[of _ "fst (walk idss [] t)"] exI[of _ "snd (walk idss [] t)"]) auto
qed

text \<open>
  C5: A poll of an inbox that changes between its requests is refused no cursor, never sees a
  delivery twice and sees them in ascending order; and once the last page is reached, it has seen
  every delivery that was pending throughout, whatever arrived or was removed in between.
\<close>

theorem polling_sees_every_delivery_once:
  assumes "new_server cfg = Some c" and "valid_random_string i 16"
    and "\<forall>s \<in> set (s0 # ss). \<exists>es. relay_run hash parse seal c empty_relay es s"
  shows "\<exists>ids done. follow_cursors (map (inbox_listing i) (s0 # ss)) [] = Some (ids, done) \<and>
    sorted_wrt (<) ids \<and> set ids \<subseteq> (\<Union>s \<in> set (s0 # ss). pending_ids i s) \<and>
    (done \<longrightarrow> (\<Inter>s \<in> set (s0 # ss). pending_ids i s) \<subseteq> set ids)"
  by (rule polling_sees_every_delivery_once_lemma[OF assms])

text \<open>
  C33: Polling ends: on an inbox that does not change, one request more than there are full pages
  of pending deliveries reaches the last page, and then exactly the pending deliveries were seen.
\<close>

theorem polling_ends:
  assumes "new_server cfg = Some c" and "valid_random_string i 16" and "relay_run hash parse seal c empty_relay es s"
    and "card (pending_ids i s) div 50 < k"
  shows "\<exists>ids. follow_cursors (replicate k (inbox_listing i s)) [] = Some (ids, True) \<and>
    sorted_wrt (<) ids \<and> set ids = pending_ids i s"
proof -
  obtain k' where k: "k = Suc k'" using assms(4) by (cases k) auto
  have run: "\<forall>s' \<in> set (s # replicate k' s). \<exists>es. relay_run hash parse seal c empty_relay es s'" using assms(3) by auto
  obtain ids fin where f: "follow_cursors (map (inbox_listing i) (s # replicate k' s)) [] = Some (ids, fin)"
      "sorted_wrt (<) ids" "set ids \<subseteq> (\<Union>s' \<in> set (s # replicate k' s). pending_ids i s')"
      "fin \<longrightarrow> (\<Inter>s' \<in> set (s # replicate k' s). pending_ids i s') \<subseteq> set ids"
    using polling_sees_every_delivery_once_lemma[OF assms(1,2) run] by blast
  have same: "map (inbox_listing i) (s # replicate k' s) = replicate k (inbox_listing i s)" by (simp add: k map_replicate)
  have ok: "listing_ok i (inbox_listing i s)" "\<forall>objs \<in> set (replicate k' (inbox_listing i s)). listing_ok i objs"
    using listings_ok[OF assms(1,2) run] by auto
  let ?ids = "listed_ids (inbox_listing i s)"
  have walked: "follow_cursors (replicate k (inbox_listing i s)) [] =
      Some (walk (replicate k ?ids) [] (if ?ids = [] then [] else last ?ids))"
    using follow_first[OF ok] by (simp add: k)
  note p = listed_ids_props[OF ok(1)]
  have "distinct ?ids" using p(1) strict_sorted_iff by blast
  then have "card (pending_ids i s) = length ?ids" using pending_listed[OF ok(1)] distinct_card by metis
  moreover have "length (filter_delivery_page ?ids [] t) \<le> length ?ids" for t by (simp add: filter_delivery_page_def)
  ultimately have "length (filter_delivery_page ?ids [] t) div inbox_page_size < k" for t
    using assms(4) div_le_mono[of "length (filter_delivery_page ?ids [] t)" "length ?ids" 50] by (simp add: inbox_page_size_def)
  then have "snd (walk (replicate k ?ids) [] (if ?ids = [] then [] else last ?ids))" by (rule walk_ends[OF p(1)])
  then have "fin" using f(1) walked unfolding same by simp
  then have "set ids = pending_ids i s" using f(3,4) by auto
  then show ?thesis using f(1,2) \<open>fin\<close> unfolding same by auto
qed

lemma sample_pending: "pending_ids sample_random sample_inbox_state = {sample_random}"
proof -
  have l: "map fst (inbox_listing sample_random sample_inbox_state) = [delivery_key sample_random sample_random]" by code_simp
  have v: "valid_delivery_id sample_random" unfolding sample_random_def by code_simp
  have "fst ` set (inbox_listing sample_random sample_inbox_state) = {delivery_key sample_random sample_random}"
    using arg_cong[OF l, of set] by simp
  then show ?thesis using v by (auto simp: pending_ids_def delivery_key_def)
qed

lemma sample_valid: "valid_random_string sample_random 16"
  unfolding sample_random_def by code_simp

lemma polling_sees_every_delivery_once_witness:
  "\<exists>ids. follow_cursors [inbox_listing sample_random sample_inbox_state, []] [] = Some (ids, True) \<and> set ids = {sample_random}"
proof -
  have "\<exists>es. relay_run sample_hash sample_parse sample_seal sample_config empty_relay es sample_inbox_state"
    using sample_inbox_run by blast
  moreover have "\<exists>es. relay_run sample_hash sample_parse sample_seal sample_config empty_relay es empty_relay"
    by (rule exI[of _ "[]"]) (rule run_start)
  ultimately have "\<forall>s \<in> set [sample_inbox_state, empty_relay]. \<exists>es. relay_run sample_hash sample_parse sample_seal sample_config empty_relay es s"
    by simp
  from polling_sees_every_delivery_once[OF sample_server sample_valid this]
  obtain ids fin where f: "follow_cursors [inbox_listing sample_random sample_inbox_state, inbox_listing sample_random empty_relay] [] = Some (ids, fin)"
      "set ids \<subseteq> pending_ids sample_random sample_inbox_state \<union> pending_ids sample_random empty_relay"
    by auto
  have "map_option snd (follow_cursors [inbox_listing sample_random sample_inbox_state, []] []) = Some True \<and>
      map_option fst (follow_cursors [inbox_listing sample_random sample_inbox_state, []] []) \<noteq> Some []" by code_simp
  moreover have e: "inbox_listing sample_random empty_relay = []" unfolding inbox_listing_def empty_relay_def sample_random_def by code_simp
  then have "pending_ids sample_random empty_relay = {}" by (simp add: pending_ids_def)
  ultimately show ?thesis using f sample_pending unfolding e by (cases ids) auto
qed

lemma polling_ends_witness: "follow_cursors [inbox_listing sample_random sample_inbox_state] [] = Some ([sample_random], True)"
proof -
  obtain ids where f: "follow_cursors (replicate 1 (inbox_listing sample_random sample_inbox_state)) [] = Some (ids, True)"
      "sorted_wrt (<) ids" "set ids = {sample_random}"
    using polling_ends[OF sample_server sample_valid sample_inbox_run, of 1] sample_pending by auto
  have "ids = [sample_random]"
    using f(2,3) by (cases ids; cases "tl ids") auto
  then show ?thesis using f(1) by simp
qed

end
