(* ===== verification/Webhook_Match.thy ===== *)
theory Webhook_Match
  imports Decimals
begin

text \<open>
  Which webhook deliveries a subscription takes (\<open>internal/webhook/dispatch.go\<close>): predicates over
  headers and over the JSON body, JSON pointers, and the comparison of JSON values in which a
  number and the text of a number meet. Predicates are taken as \<open>encoding/json\<close> decodes them;
  a number keeps its text. Letters are folded in ASCII only.
\<close>

section \<open>JSON\<close>

datatype json = JNull | JBool bool | JNum string | JStr string | JArr "json list" | JObj "(string \<times> json) list"

definition is_digit :: "char \<Rightarrow> bool" where
  "is_digit c \<longleftrightarrow> (let n = of_char c :: nat in 48 \<le> n \<and> n \<le> 57)"

text \<open>\<open>strings.Cut\<close> at the first character of a kind.\<close>

definition cut_first :: "(char \<Rightarrow> bool) \<Rightarrow> string \<Rightarrow> string \<times> string option" where
  "cut_first p s = (takeWhile (\<lambda>c. \<not> p c) s, case dropWhile (\<lambda>c. \<not> p c) s of [] \<Rightarrow> None | _ # post \<Rightarrow> Some post)"

definition digits_only :: "string \<Rightarrow> bool" where
  "digits_only s \<longleftrightarrow> s \<noteq> [] \<and> (\<forall>c \<in> set s. is_digit c)"

definition strip_sign :: "string \<Rightarrow> bool \<times> string" where
  "strip_sign s = (case s of [] \<Rightarrow> (False, []) | c # cs \<Rightarrow> if c = CHR ''-'' then (True, cs) else (False, s))"

definition strip_exp_sign :: "string \<Rightarrow> bool \<times> string" where
  "strip_exp_sign s =
     (case s of [] \<Rightarrow> (False, [])
      | c # cs \<Rightarrow> if c = CHR ''-'' then (True, cs) else if c = CHR ''+'' then (False, cs) else (False, s))"

text \<open>The grammar of a JSON number, which \<open>json.Valid\<close> accepts.\<close>

definition is_e :: "char \<Rightarrow> bool" where
  "is_e c \<longleftrightarrow> c = CHR ''e'' \<or> c = CHR ''E''"

definition json_number :: "string \<Rightarrow> bool" where
  "json_number s =
     (case cut_first is_e (snd (strip_sign s)) of
        (mantissa, ex) \<Rightarrow>
          (case cut_first (\<lambda>c. c = CHR ''.'') mantissa of
             (whole, fr) \<Rightarrow>
               digits_only whole \<and> (hd whole = CHR ''0'' \<longrightarrow> whole = ''0'') \<and>
               (case fr of None \<Rightarrow> True | Some f \<Rightarrow> digits_only f) \<and>
               (case ex of None \<Rightarrow> True | Some e \<Rightarrow> digits_only (snd (strip_exp_sign e)))))"

section \<open>Numbers\<close>

definition trim_zeros :: "string \<Rightarrow> string" where
  "trim_zeros = dropWhile (\<lambda>c. c = CHR ''0'')"

definition trim_right_zeros :: "string \<Rightarrow> string" where
  "trim_right_zeros s = rev (trim_zeros (rev s))"

text \<open>Digits as a number, and a signed decimal as \<open>big.Int\<close> prints it.\<close>

definition digits_nat :: "string \<Rightarrow> nat" where
  "digits_nat s = foldl (\<lambda>v c. 10 * v + (of_char c - 48)) 0 s"

definition signed_value :: "string \<Rightarrow> int" where
  "signed_value s = (case strip_exp_sign s of (neg, ds) \<Rightarrow> if neg then - int (digits_nat ds) else int (digits_nat ds))"

definition int_text :: "int \<Rightarrow> string" where
  "int_text n = (if n < 0 then CHR ''-'' # decimal (nat (- n)) else decimal (nat n))"

text \<open>The parts of a number: its sign, the digits of whole and fraction, the length of the fraction
  and the exponent.\<close>

definition number_parts :: "string \<Rightarrow> bool \<times> string \<times> nat \<times> int" where
  "number_parts s =
     (case strip_sign s of (neg, s') \<Rightarrow>
       (case cut_first is_e s' of (mantissa, ex) \<Rightarrow>
         (case cut_first (\<lambda>c. c = CHR ''.'') mantissa of (whole, fr) \<Rightarrow>
            let f = (case fr of None \<Rightarrow> [] | Some f \<Rightarrow> f)
            in (neg, whole @ f, length f, case ex of None \<Rightarrow> 0 | Some e \<Rightarrow> if e = [] then 0 else signed_value e))))"

definition canonical_number :: "string \<Rightarrow> string option" where
  "canonical_number s =
     (if s = [] \<or> \<not> (hd s = CHR ''-'' \<or> is_digit (hd s)) \<or> \<not> json_number s then None
      else case number_parts s of (neg, all, fl, ex) \<Rightarrow>
        let ds = trim_zeros all in
        if ds = [] then Some ''0''
        else let sig = trim_right_zeros ds
             in Some ((if neg then ''-'' else []) @ sig @ ''e'' @ int_text (ex + (int (length ds) - int (length sig) - int fl))))"

section \<open>Comparison\<close>

fun scalar_equals_text :: "json \<Rightarrow> string \<Rightarrow> bool" where
  "scalar_equals_text JNull s \<longleftrightarrow> s = ''null''"
| "scalar_equals_text (JBool b) s \<longleftrightarrow> s = (if b then ''true'' else ''false'')"
| "scalar_equals_text (JNum v) s \<longleftrightarrow>
     (case canonical_number s of None \<Rightarrow> False
      | Some want \<Rightarrow> (case canonical_number v of None \<Rightarrow> False | Some got \<Rightarrow> got = want))"
| "scalar_equals_text _ s \<longleftrightarrow> False"

text \<open>\<open>sameJSON got want\<close>. A Go map has each key once.\<close>

function same_json :: "json \<Rightarrow> json \<Rightarrow> bool" where
  "same_json got (JNum w) = (case got of JNum g \<Rightarrow> scalar_equals_text (JNum w) g | _ \<Rightarrow> False)"
| "same_json got (JArr w) =
     (case got of JArr g \<Rightarrow> length g = length w \<and> (\<forall>(x, y) \<in> set (zip g w). same_json x y) | _ \<Rightarrow> False)"
| "same_json got (JObj w) =
     (case got of
        JObj g \<Rightarrow> length g = length w \<and>
          (\<forall>(k, wv) \<in> set w. case map_of g k of None \<Rightarrow> False | Some gv \<Rightarrow> same_json gv wv)
      | _ \<Rightarrow> False)"
| "same_json got JNull \<longleftrightarrow> got = JNull"
| "same_json got (JBool b) \<longleftrightarrow> got = JBool b"
| "same_json got (JStr s) \<longleftrightarrow> got = JStr s"
  by pat_completeness auto
termination
proof (relation "measure (\<lambda>(g, w). size w)", goal_cases)
  case (2 got w g z x y)
  then have "y \<in> set w" using set_zip_rightD by metis
  then have "size y \<le> size_list size w" by (rule size_list_estimation') simp
  then show ?case by simp
next
  case (3 got w g z k wv gv)
  then have "size wv \<le> size_list (size_prod (\<lambda>_. 0) size) w"
    by (intro size_list_estimation'[of z]) auto
  then show ?case by simp
qed simp

fun json_equal :: "json \<Rightarrow> json \<Rightarrow> bool" where
  "json_equal got (JStr s) = (case got of JStr g \<Rightarrow> g = s | _ \<Rightarrow> scalar_equals_text got s)"
| "json_equal got want = (case got of JStr s \<Rightarrow> scalar_equals_text want s | _ \<Rightarrow> same_json got want)"

definition ascii_fold :: "string \<Rightarrow> string" where
  "ascii_fold = map (\<lambda>c. let n = of_char c :: nat in if 65 \<le> n \<and> n \<le> 90 then char_of (n + 32) else c)"

definition equal_fold :: "string \<Rightarrow> string \<Rightarrow> bool" where
  "equal_fold a b \<longleftrightarrow> ascii_fold a = ascii_fold b"

fun header_equals :: "string \<Rightarrow> json \<Rightarrow> bool \<Rightarrow> bool" where
  "header_equals v (JStr w) ci = (v = w \<or> ci \<and> equal_fold v w)"
| "header_equals v (JBool b) ci = (let w = (if b then ''true'' else ''false'') in v = w \<or> ci \<and> equal_fold v w)"
| "header_equals v (JNum n) ci = scalar_equals_text (JNum n) v"
| "header_equals v _ ci = False"

section \<open>Predicates\<close>

record predicate =
  pr_exists :: "bool option"
  pr_equals :: "json option"
  pr_one_of :: "json list"
  pr_op :: string
  pr_value :: "json option"

definition predicate_match :: "predicate \<Rightarrow> bool \<Rightarrow> (json \<Rightarrow> bool) \<Rightarrow> bool" where
  "predicate_match p found equal =
     (let rest =
            (if \<not> found then False
             else let want = (if pr_op p = ''equals'' then pr_value p else pr_equals p);
                      wants = (case want of None \<Rightarrow> pr_one_of p | Some w \<Rightarrow> w # pr_one_of p)
                  in \<exists>w \<in> set wants. equal w)
      in case pr_exists p of
           None \<Rightarrow> rest
         | Some ex \<Rightarrow>
             if found \<noteq> ex then False
             else if \<not> ex then True
             else if pr_equals p = None \<and> pr_one_of p = [] \<and> pr_op p = [] then True
             else rest)"

section \<open>JSON pointers\<close>

fun unescape_token :: "string \<Rightarrow> string option" where
  "unescape_token [] = Some []"
| "unescape_token (c # cs) =
     (if c \<noteq> CHR ''~'' then map_option ((#) c) (unescape_token cs)
      else case cs of
        [] \<Rightarrow> None
      | d # ds \<Rightarrow>
          if d = CHR ''0'' then map_option ((#) (CHR ''~'')) (unescape_token ds)
          else if d = CHR ''1'' then map_option ((#) (CHR ''/'')) (unescape_token ds)
          else None)"

fun index_loop :: "nat \<Rightarrow> string \<Rightarrow> nat option" where
  "index_loop n [] = Some n"
| "index_loop n (c # cs) =
     (if \<not> is_digit c then None
      else let n' = n * 10 + (of_char c - 48) in if n' > 2 ^ 31 then None else index_loop n' cs)"

definition pointer_index :: "string \<Rightarrow> nat option" where
  "pointer_index t =
     (if t = [] \<or> (length t > 1 \<and> hd t = CHR ''0'') then None else index_loop 0 t)"

fun split_slash :: "string \<Rightarrow> string list" where
  "split_slash [] = [[]]"
| "split_slash (c # cs) =
     (if c = CHR ''/'' then [] # split_slash cs
      else (case split_slash cs of [] \<Rightarrow> [[c]] | w # ws \<Rightarrow> (c # w) # ws))"

fun pointer_walk :: "string list \<Rightarrow> json \<Rightarrow> json option" where
  "pointer_walk [] cur = Some cur"
| "pointer_walk (part # parts) cur =
     (case unescape_token part of
        None \<Rightarrow> None
      | Some t \<Rightarrow>
          (case cur of
             JObj m \<Rightarrow> (case map_of m t of None \<Rightarrow> None | Some v \<Rightarrow> pointer_walk parts v)
           | JArr xs \<Rightarrow>
               (case pointer_index t of
                  None \<Rightarrow> None
                | Some i \<Rightarrow> if i \<ge> length xs then None else pointer_walk parts (xs ! i))
           | _ \<Rightarrow> None))"

definition pointer_value :: "json \<Rightarrow> string \<Rightarrow> json option" where
  "pointer_value doc pointer =
     (if pointer = [] then Some doc
      else if hd pointer \<noteq> CHR ''/'' then None
      else pointer_walk (split_slash (tl pointer)) doc)"

definition valid_project_pointer :: "string \<Rightarrow> bool" where
  "valid_project_pointer pointer =
     (if pointer = [] then True
      else if hd pointer \<noteq> CHR ''/'' then False
      else \<forall>t \<in> set (split_slash (tl pointer)). unescape_token t \<noteq> None)"

section \<open>Subscriptions\<close>

text \<open>A subscription's predicates, \<open>None\<close> when the stored text does not decode. \<open>ws_json_empty\<close> says
  that the stored text of the body predicates is empty or literally the empty object, the two
  texts for which the body is not looked at.\<close>

record subscription =
  ws_routine :: string
  ws_headers :: "(string \<times> predicate) list option"
  ws_json :: "(string \<times> predicate) list option"
  ws_json_empty :: bool
  ws_pointer :: string

text \<open>The parsed body is \<open>None\<close> when it is no JSON; an error is \<open>None\<close> of the outer option.\<close>

definition header_values :: "(string \<times> string list) list \<Rightarrow> string \<Rightarrow> string list" where
  "header_values hs name = concat (map snd (filter (\<lambda>h. equal_fold (fst h) name) hs))"

definition header_matches :: "(string \<times> string list) list \<Rightarrow> string \<times> predicate \<Rightarrow> bool" where
  "header_matches hs np =
     (let values = header_values hs (fst np)
      in predicate_match ((snd np)\<lparr>pr_op := []\<rparr>) (values \<noteq> []) (\<lambda>want. \<exists>v \<in> set values. header_equals v want True))"

definition body_matches :: "json \<Rightarrow> string \<times> predicate \<Rightarrow> bool" where
  "body_matches body np =
     (case pointer_value body (fst np) of
        None \<Rightarrow> predicate_match (snd np) False (\<lambda>want. False)
      | Some v \<Rightarrow> predicate_match (snd np) True (\<lambda>want. json_equal v want))"

definition sub_matches :: "(string \<times> string list) list \<Rightarrow> json option \<Rightarrow> subscription \<Rightarrow> bool option" where
  "sub_matches hs body sub =
     (case ws_headers sub of
        None \<Rightarrow> None
      | Some ps \<Rightarrow>
          if \<not> (\<forall>np \<in> set ps. header_matches hs np) then Some False
          else if ws_json_empty sub then Some True
          else case body of
            None \<Rightarrow> Some False
          | Some b \<Rightarrow>
              (case ws_json sub of
                 None \<Rightarrow> None
               | Some qs \<Rightarrow> Some (\<forall>np \<in> set qs. body_matches b np)))"

section \<open>Pointers reach what they name\<close>

text \<open>RFC 6901: a reference token written into a pointer, and the location a path of tokens names.\<close>

fun escape_token :: "string \<Rightarrow> string" where
  "escape_token [] = []"
| "escape_token (c # cs) =
     (if c = CHR ''~'' then ''~0'' else if c = CHR ''/'' then ''~1'' else [c]) @ escape_token cs"

definition pointer_of :: "string list \<Rightarrow> string" where
  "pointer_of path = concat (map (\<lambda>t. CHR ''/'' # escape_token t) path)"

fun locate :: "string list \<Rightarrow> json \<Rightarrow> json option" where
  "locate [] cur = Some cur"
| "locate (t # ts) (JObj m) = (case map_of m t of None \<Rightarrow> None | Some v \<Rightarrow> locate ts v)"
| "locate (t # ts) (JArr xs) =
     (case find (\<lambda>i. t = decimal i \<and> i \<le> 2 ^ 31) [0..<length xs] of None \<Rightarrow> None | Some i \<Rightarrow> locate ts (xs ! i))"
| "locate (t # ts) _ = None"

lemma unescape_escape_token: "unescape_token (escape_token t) = Some t"
  by (induction t) auto

lemma escape_no_slash: "CHR ''/'' \<notin> set (escape_token t)"
  by (induction t) auto

lemma split_slash_append: "CHR ''/'' \<notin> set a \<Longrightarrow> split_slash (a @ CHR ''/'' # b) = a # split_slash b"
  by (induction a) auto

lemma split_slash_plain: "CHR ''/'' \<notin> set a \<Longrightarrow> split_slash a = [a]"
  by (induction a) auto

lemma split_pointer: "path \<noteq> [] \<Longrightarrow> split_slash (tl (pointer_of path)) = map escape_token path"
proof (induction path)
  case (Cons t ts)
  show ?case
  proof (cases ts)
    case Nil
    then show ?thesis using split_slash_plain[OF escape_no_slash] by (simp add: pointer_of_def)
  next
    case (Cons u us)
    then have "pointer_of ts = CHR ''/'' # tl (pointer_of ts)" by (simp add: pointer_of_def)
    then have "tl (pointer_of (t # ts)) = escape_token t @ CHR ''/'' # tl (pointer_of ts)" by (simp add: pointer_of_def)
    then show ?thesis using split_slash_append[OF escape_no_slash] Cons.IH Cons by simp
  qed
qed simp

text \<open>An index is read exactly from the decimal text of a number up to the limit.\<close>

lemma is_digit_digit: "n < 10 \<Longrightarrow> is_digit (digit n)"
  by (simp add: is_digit_def)

lemma index_loop_append: "index_loop n (a @ b) = (case index_loop n a of None \<Rightarrow> None | Some m \<Rightarrow> index_loop m b)"
  by (induction n a rule: index_loop.induct) (auto simp: Let_def)

lemma index_loop_decimal: "index_loop 0 (decimal n) = (if n \<le> 2 ^ 31 then Some n else None)"
proof (induction n rule: decimal.induct)
  case (1 n)
  show ?case
  proof (cases "n < 10")
    case True
    then show ?thesis using is_digit_digit by (simp add: decimal_step(1) Let_def)
  next
    case False
    have m: "n mod 10 < 10" "n div 10 * 10 + n mod 10 = n" by simp_all
    show ?thesis
    proof (cases "n div 10 \<le> 2 ^ 31")
      case True
      then have "index_loop 0 (decimal (n div 10)) = Some (n div 10)" using 1 False by simp
      then show ?thesis using m is_digit_digit[OF m(1)]
        unfolding decimal_step(2)[OF False] index_loop_append by (simp add: Let_def)
    next
      case no: False
      then have "\<not> n \<le> 2 ^ 31" by (metis div_le_dividend order_trans)
      then show ?thesis using 1[OF False] no unfolding decimal_step(2)[OF False] index_loop_append by simp
    qed
  qed
qed

lemma index_loop_sound: "index_loop n s = Some m \<Longrightarrow> (\<forall>c \<in> set s. is_digit c)"
  by (induction n s rule: index_loop.induct) (auto simp: Let_def split: if_split_asm)

lemma decimal_head: "decimal n \<noteq> ''0'' \<Longrightarrow> hd (decimal n) \<noteq> CHR ''0''"
proof (induction n rule: decimal.induct)
  case (1 n)
  have z: "CHR ''0'' = digit 0" by code_simp
  show ?case
  proof (cases "n < 10")
    case True
    then have d: "decimal n = [digit n]" by (rule decimal_step(1))
    show ?thesis using 1(2) by (simp add: d)
  next
    case False
    have d: "decimal n = decimal (n div 10) @ [digit (n mod 10)]" by (rule decimal_step(2)[OF False])
    have "decimal (n div 10) \<noteq> ''0''"
    proof
      assume e: "decimal (n div 10) = ''0''"
      have "digits_value 0 ''0'' = Some 0" by code_simp
      then have "n div 10 = 0" using digits_value_decimal[of "n div 10"] e by simp
      then show False using False by simp
    qed
    then show ?thesis using 1(1)[OF False] by (simp add: d)
  qed
qed

lemma index_text:
  "\<forall>c \<in> set s. is_digit c \<Longrightarrow> s \<noteq> [] \<Longrightarrow> \<not> (length s > 1 \<and> hd s = CHR ''0'') \<Longrightarrow> \<exists>n. s = decimal n"
proof (induction s rule: rev_induct)
  case (snoc c s)
  have d: "is_digit c" using snoc.prems by simp
  then have r: "48 \<le> (of_char c :: nat)" "(of_char c :: nat) \<le> 57" by (simp_all add: is_digit_def Let_def)
  then have c: "c = digit (of_char c - 48)" "of_char c - 48 < (10 :: nat)" by (simp add: digit_def, arith)
  show ?case
  proof (cases "s = []")
    case True
    then show ?thesis using c decimal_step(1)[OF c(2)] by (intro exI[of _ "of_char c - 48"]) simp
  next
    case False
    then have h: "hd s \<noteq> CHR ''0''" using snoc.prems(3) by simp
    then obtain n where n: "s = decimal n" using snoc False by auto
    have "n \<noteq> 0"
    proof
      assume "n = 0"
      then have "s = [digit 0]" using n by (simp add: decimal_step(1))
      moreover have "CHR ''0'' = digit 0" by code_simp
      ultimately show False using h by simp
    qed
    then have "decimal (10 * n + (of_char c - 48)) = decimal n @ [digit (of_char c - 48)]"
      using decimal_step(2)[of "10 * n + (of_char c - 48)"] c(2) by simp
    then show ?thesis using n c(1) by (intro exI[of _ "10 * n + (of_char c - 48)"]) simp
  qed
qed simp

lemma pointer_index_iff: "pointer_index t = Some i \<longleftrightarrow> t = decimal i \<and> i \<le> 2 ^ 31"
proof
  assume p: "pointer_index t = Some i"
  then have t: "t \<noteq> []" "\<not> (length t > 1 \<and> hd t = CHR ''0'')" "index_loop 0 t = Some i"
    by (auto simp: pointer_index_def split: if_split_asm)
  then obtain n where "t = decimal n" using index_text[OF index_loop_sound[OF t(3)]] by blast
  then show "t = decimal i \<and> i \<le> 2 ^ 31" using t(3) index_loop_decimal by (auto split: if_split_asm)
next
  assume t: "t = decimal i \<and> i \<le> 2 ^ 31"
  have "\<not> (length (decimal i) > 1 \<and> hd (decimal i) = CHR ''0'')"
    using decimal_head[of i] by (cases "decimal i = ''0''") auto
  then show "pointer_index t = Some i" using t index_loop_decimal by (simp add: pointer_index_def)
qed

lemma decimal_inj: "decimal a = decimal b \<Longrightarrow> a = b"
  using digits_value_decimal by (metis option.inject)

lemma walk_locates: "pointer_walk (map escape_token path) doc = locate path doc"
proof (induction path doc rule: locate.induct)
  case (3 t ts xs)
  have u: "unescape_token (escape_token t) = Some t" by (rule unescape_escape_token)
  show ?case
  proof (cases "pointer_index t")
    case None
    then have "\<not> (t = decimal i \<and> i \<le> 2 ^ 31)" for i using pointer_index_iff by (metis option.distinct(1))
    then have "find (\<lambda>i. t = decimal i \<and> i \<le> 2 ^ 31) [0..<length xs] = None" by (simp add: find_None_iff)
    then show ?thesis using u None by simp
  next
    case (Some i)
    then have i: "t = decimal i" "i \<le> 2 ^ 31" using pointer_index_iff by blast+
    have only: "t = decimal j \<and> j \<le> 2 ^ 31 \<longleftrightarrow> j = i" for j using i decimal_inj by blast
    show ?thesis
    proof (cases "i < length xs")
      case True
      then have f: "find (\<lambda>j. t = decimal j \<and> j \<le> 2 ^ 31) [0..<length xs] = Some i"
        unfolding only by (simp add: find_Some_iff) (intro exI[of _ i], simp)
      then show ?thesis using u Some True 3[OF f] by simp
    next
      case False
      then have "find (\<lambda>j. t = decimal j \<and> j \<le> 2 ^ 31) [0..<length xs] = None"
        unfolding only by (auto simp: find_None_iff)
      then show ?thesis using u Some False by simp
    qed
  qed
qed (auto simp: unescape_escape_token split: option.splits)

text \<open>
  The pointer written from a path of field names and indexes (each \<open>~\<close> and \<open>/\<close> escaped as RFC
  6901 says) is accepted and leads to exactly the value at that path: a field by its name, an array
  element only by the decimal text of its index, with neither sign nor leading zero.
\<close>

theorem pointers_lead_to_their_value:
  "pointer_value doc (pointer_of path) = locate path doc \<and> valid_project_pointer (pointer_of path)"
proof (cases path)
  case Nil
  then show ?thesis by (simp add: pointer_of_def pointer_value_def valid_project_pointer_def)
next
  case (Cons t ts)
  then have s: "split_slash (tl (pointer_of path)) = map escape_token path" by (intro split_pointer) simp
  have p: "pointer_of path \<noteq> []" "hd (pointer_of path) = CHR ''/''" using Cons by (simp_all add: pointer_of_def)
  then show ?thesis using s walk_locates unescape_escape_token
    by (auto simp: pointer_value_def valid_project_pointer_def)
qed

end
