(* ===== verification/Webhook_Numbers.thy ===== *)
theory Webhook_Numbers
  imports Webhook_Match Complex_Main
begin

text \<open>
  The canonical text of a JSON number (\<open>canonicalNumber\<close>) against the rational it denotes: equal
  texts are equal values, however the numbers are spelled.
\<close>

section \<open>The value of a number\<close>

definition number_value :: "string \<Rightarrow> rat" where
  "number_value s =
     (case number_parts s of (neg, all, fl, ex) \<Rightarrow>
        (if neg then -1 else 1) * of_nat (digits_nat all) * (10 powi (ex - int fl)))"

section \<open>Digits\<close>

lemma digits_nat_Nil [simp]: "digits_nat [] = 0"
  by (simp add: digits_nat_def)

lemma digits_nat_snoc [simp]: "digits_nat (s @ [c]) = 10 * digits_nat s + (of_char c - 48)"
  by (simp add: digits_nat_def)

lemma digits_nat_single [simp]: "digits_nat [c] = of_char c - 48"
  by (simp add: digits_nat_def)

lemma zero_code: "(of_char (CHR ''0'') :: nat) = 48"
  by simp

lemma digits_nat_zeros: "digits_nat (s @ replicate k (CHR ''0'')) = digits_nat s * 10 ^ k"
proof (induction k)
  case (Suc k)
  have "replicate (Suc k) (CHR ''0'') = replicate k (CHR ''0'') @ [CHR ''0'']" by (simp add: replicate_append_same)
  then show ?case using digits_nat_snoc[of "s @ replicate k (CHR ''0'')" "CHR ''0''"] Suc by simp
qed simp

lemma digits_nat_Cons_zero: "digits_nat (CHR ''0'' # s) = digits_nat s"
  by (simp add: digits_nat_def)

lemma digits_nat_trim: "digits_nat (trim_zeros s) = digits_nat s"
  unfolding trim_zeros_def by (induction s) (simp_all add: digits_nat_Cons_zero)

lemma trim_zeros_hd: "trim_zeros s \<noteq> [] \<Longrightarrow> hd (trim_zeros s) \<noteq> CHR ''0''"
  unfolding trim_zeros_def by (rule hd_dropWhile)

lemma set_trim: "set (trim_zeros s) \<subseteq> set s"
  by (simp add: trim_zeros_def set_dropWhileD subsetI)

lemma dropWhile_replicate: "\<exists>k. s = replicate k x @ dropWhile (\<lambda>c. c = x) s"
proof (induction s)
  case (Cons a s)
  then obtain k where k: "s = replicate k x @ dropWhile (\<lambda>c. c = x) s" by blast
  show ?case
  proof (cases "a = x")
    case True
    then have "a # s = replicate (Suc k) x @ dropWhile (\<lambda>c. c = x) (a # s)" using k by simp
    then show ?thesis by blast
  qed (intro exI[of _ 0], simp)
qed simp

lemma trim_right:
  obtains k where "ds = trim_right_zeros ds @ replicate k (CHR ''0'')" "k = length ds - length (trim_right_zeros ds)"
proof -
  obtain k where k: "rev ds = replicate k (CHR ''0'') @ trim_zeros (rev ds)"
    using dropWhile_replicate[of "rev ds" "CHR ''0''"] unfolding trim_zeros_def by blast
  have "ds = rev (replicate k (CHR ''0'') @ trim_zeros (rev ds))" using k by (metis rev_rev_ident)
  then have d: "ds = trim_right_zeros ds @ replicate k (CHR ''0'')" by (simp add: trim_right_zeros_def)
  then have "length ds = length (trim_right_zeros ds) + k" using length_append length_replicate by metis
  then show ?thesis using that d by simp
qed

lemma trim_right_last: "trim_right_zeros ds \<noteq> [] \<Longrightarrow> last (trim_right_zeros ds) \<noteq> CHR ''0''"
  using trim_zeros_hd[of "rev ds"] by (simp add: trim_right_zeros_def last_rev)

lemma digit_range: "is_digit c \<Longrightarrow> 48 \<le> (of_char c :: nat) \<and> (of_char c :: nat) \<le> 57"
  by (simp add: is_digit_def Let_def)

lemma digit_of_char: "is_digit c \<Longrightarrow> digit (of_char c - 48) = c"
  using digit_range[of c] by (simp add: digit_def)

lemma digit_zero_iff: "is_digit c \<Longrightarrow> of_char c - 48 = (0 :: nat) \<longleftrightarrow> c = CHR ''0''"
proof -
  assume d: "is_digit c"
  have "of_char c - 48 = (0 :: nat) \<longleftrightarrow> of_char c = (of_char (CHR ''0'') :: nat)" using digit_range[OF d] by auto
  then show ?thesis unfolding of_char_eq_iff .
qed

text \<open>Without leading zeros, digits are the decimal text of their number.\<close>

lemma decimal_digits_nat:
  "\<forall>c \<in> set s. is_digit c \<Longrightarrow> s \<noteq> [] \<Longrightarrow> hd s \<noteq> CHR ''0'' \<Longrightarrow> 0 < digits_nat s \<and> decimal (digits_nat s) = s"
proof (induction s rule: rev_induct)
  case (snoc c s)
  have d: "is_digit c" using snoc.prems by simp
  have c: "of_char c - 48 < (10 :: nat)" using digit_range[OF d] by arith
  show ?case
  proof (cases "s = []")
    case True
    then have "c \<noteq> CHR ''0''" using snoc.prems by simp
    then show ?thesis using True c digit_zero_iff[OF d] digit_of_char[OF d] by (simp add: decimal_step(1))
  next
    case False
    then have ih: "0 < digits_nat s" "decimal (digits_nat s) = s" using snoc by simp_all
    have "(10 * digits_nat s + (of_char c - 48)) div 10 = digits_nat s" "(10 * digits_nat s + (of_char c - 48)) mod 10 = of_char c - 48"
      using c by simp_all
    moreover have "\<not> digits_nat (s @ [c]) < 10" using ih(1) by simp
    ultimately show ?thesis using ih digit_of_char[OF d] by (simp add: decimal_step(2))
  qed
qed simp

lemma digits_nat_mod:
  assumes "\<forall>c \<in> set s. is_digit c" "s \<noteq> []" "last s \<noteq> CHR ''0''"
  shows "digits_nat s mod 10 \<noteq> 0"
proof -
  have s: "s = butlast s @ [last s]" using assms(2) by simp
  have d: "is_digit (last s)" using assms(1,2) by simp
  have n: "digits_nat s = 10 * digits_nat (butlast s) + (of_char (last s) - 48)" by (subst s) (rule digits_nat_snoc)
  have "of_char (last s) - 48 < (10 :: nat)" using digit_range[OF d] by arith
  then have "digits_nat s mod 10 = of_char (last s) - 48" unfolding n by simp
  then show ?thesis using digit_zero_iff[OF d] assms(3) by simp
qed

section \<open>Scientific form is unique\<close>

lemma scaled_unique:
  fixes n m :: nat
  assumes "n mod 10 \<noteq> 0" "m mod 10 \<noteq> 0" and e: "of_nat n * (10 powi a) = (of_nat m * (10 powi b) :: rat)"
  shows "n = m \<and> a = b"
proof -
  have *: "n = m \<and> a = b" if n: "n mod 10 \<noteq> 0" and le: "a \<le> b" and e: "of_nat n * (10 powi a) = (of_nat m * (10 powi b) :: rat)" for n m a b
  proof -
    have "(10 :: rat) powi b = 10 powi a * 10 powi (b - a)" using power_int_add[of "10 :: rat" a "b - a"] by simp
    then have "of_nat n = (of_nat m * (10 powi (b - a)) :: rat)" using e by simp
    also have "\<dots> = of_nat (m * 10 ^ nat (b - a))" using le by (simp add: power_int_def)
    finally have nm: "n = m * 10 ^ nat (b - a)" by (simp only: of_nat_eq_iff)
    have "nat (b - a) = 0"
    proof (rule ccontr)
      assume "nat (b - a) \<noteq> 0"
      then obtain j where "nat (b - a) = Suc j" by (cases "nat (b - a)") auto
      then show False using nm n by simp
    qed
    then show ?thesis using nm le by simp
  qed
  show ?thesis
  proof (cases "a \<le> b")
    case False
    then show ?thesis using *[OF assms(2) _ e[symmetric]] by auto
  qed (use *[OF assms(1) _ e] in auto)
qed

section \<open>The canonical form\<close>

lemma json_number_parts:
  assumes "json_number s" "number_parts s = (neg, all, fl, ex)"
  shows "\<forall>c \<in> set all. is_digit c" "neg \<longleftrightarrow> s \<noteq> [] \<and> hd s = CHR ''-''"
proof -
  obtain neg' s' where st: "strip_sign s = (neg', s')" by fastforce
  obtain mantissa e where c: "cut_first is_e s' = (mantissa, e)" by fastforce
  obtain whole fr where d: "cut_first (\<lambda>c. c = CHR ''.'') mantissa = (whole, fr)" by fastforce
  have all: "neg = neg'" "all = whole @ (case fr of None \<Rightarrow> [] | Some f \<Rightarrow> f)"
    using assms(2) st c d by (auto simp: number_parts_def Let_def)
  have "digits_only whole" "\<And>f. fr = Some f \<Longrightarrow> digits_only f"
    using assms(1) st c d by (auto simp: json_number_def)
  then show "\<forall>c \<in> set all. is_digit c" unfolding all(2) by (auto simp: digits_only_def split: option.splits)
  show "neg \<longleftrightarrow> s \<noteq> [] \<and> hd s = CHR ''-''" using st all(1) by (auto simp: strip_sign_def split: list.splits if_splits)
qed

text \<open>What a number is: zero, or a sign, significant digits and a scale.\<close>

lemma canonical_cases:
  assumes "canonical_number s = Some t"
  obtains (zero) "t = ''0''" "number_value s = 0"
  | (scaled) neg sig e where "t = (if neg then ''-'' else []) @ sig @ ''e'' @ int_text e"
      "\<forall>c \<in> set sig. is_digit c" "sig \<noteq> []" "decimal (digits_nat sig) = sig" "0 < digits_nat sig" "digits_nat sig mod 10 \<noteq> 0"
      "number_value s = (if neg then -1 else 1) * (of_nat (digits_nat sig) * (10 powi e))"
proof -
  obtain neg all fl ex where p: "number_parts s = (neg, all, fl, ex)" by (metis prod_cases4)
  have j: "json_number s" using assms by (simp add: canonical_number_def split: if_split_asm)
  note dg = json_number_parts(1)[OF j p]
  define ds where "ds = trim_zeros all"
  have dsd: "\<forall>c \<in> set ds. is_digit c" using dg set_trim unfolding ds_def by blast
  have val: "number_value s = (if neg then -1 else 1) * of_nat (digits_nat ds) * (10 powi (ex - int fl))"
    by (simp add: number_value_def p ds_def digits_nat_trim)
  show ?thesis
  proof (cases "ds = []")
    case True
    then have "t = ''0''" using assms by (simp add: canonical_number_def p ds_def[symmetric] Let_def split: if_split_asm)
    then show ?thesis using zero val True by simp
  next
    case False
    define sig where "sig = trim_right_zeros ds"
    obtain k where k: "ds = sig @ replicate k (CHR ''0'')" "k = length ds - length sig"
      unfolding sig_def by (rule trim_right)
    have hd: "hd ds \<noteq> CHR ''0''" using trim_zeros_hd False unfolding ds_def by blast
    have ne: "sig \<noteq> []"
    proof
      assume "sig = []"
      then have "ds = replicate k (CHR ''0'')" using k(1) by simp
      then show False using hd False by (cases k) auto
    qed
    have sd: "\<forall>c \<in> set sig. is_digit c" using dsd by (subst (asm) k(1)) simp
    have hs: "hd sig \<noteq> CHR ''0''" using hd ne by (subst (asm) k(1)) simp
    have ls: "last sig \<noteq> CHR ''0''" using trim_right_last ne unfolding sig_def by blast
    define e where "e = ex + (int (length ds) - int (length sig) - int fl)"
    have t: "t = (if neg then ''-'' else []) @ sig @ ''e'' @ int_text e"
      using assms False unfolding canonical_number_def p prod.case ds_def[symmetric] Let_def sig_def[symmetric] e_def
      by (simp split: if_split_asm)
    have "digits_nat ds = digits_nat sig * 10 ^ k" using digits_nat_zeros[of sig k] k(1) by simp
    moreover have "int k = int (length ds) - int (length sig)" using k by (metis add_diff_cancel_left' length_append length_replicate of_nat_add)
    then have "e = int k + (ex - int fl)" by (simp add: e_def)
    then have "(10 :: rat) powi e = 10 ^ k * 10 powi (ex - int fl)"
      using power_int_add[of "10 :: rat" "int k" "ex - int fl"] by simp
    ultimately have "number_value s = (if neg then -1 else 1) * (of_nat (digits_nat sig) * (10 powi e))"
      unfolding val by simp
    note sc = scaled[OF t sd ne _ _ digits_nat_mod[OF sd ne ls] this]
    show ?thesis by (rule sc) (use decimal_digits_nat[OF sd ne hs] in simp_all)
  qed
qed

lemma takeWhile_hd: "takeWhile P xs \<noteq> [] \<Longrightarrow> hd (takeWhile P xs) = hd xs \<and> xs \<noteq> []"
  by (cases xs) auto

lemma int_text_inj: "int_text a = int_text b \<Longrightarrow> a = b"
proof -
  assume e: "int_text a = int_text b"
  have inj: "decimal n = decimal m \<Longrightarrow> n = m" for n m using digits_value_decimal by (metis option.inject)
  have nd: "CHR ''-'' \<notin> set (decimal n)" for n using decimal_chars digit_not(2) by fastforce
  have ns: "decimal n \<noteq> CHR ''-'' # x" for n x using nd[of n] by (metis list.set_intros(1))
  show "a = b"
  proof (cases "a < 0"; cases "b < 0")
    assume "a < 0" "b < 0"
    then show ?thesis using e inj[of "nat (- a)" "nat (- b)"] by (auto simp: int_text_def)
  next
    assume "a < 0" "\<not> b < 0"
    then show ?thesis using e ns by (simp add: int_text_def) (metis ns)
  next
    assume "\<not> a < 0" "b < 0"
    then show ?thesis using e ns by (simp add: int_text_def)
  next
    assume "\<not> a < 0" "\<not> b < 0"
    then show ?thesis using e inj[of "nat a" "nat b"] by (auto simp: int_text_def)
  qed
qed

lemma scaled_text_inj:
  assumes e: "(if n then ''-'' else []) @ sig @ ''e'' @ int_text a = (if m then ''-'' else []) @ sig' @ ''e'' @ int_text b"
    and d: "\<forall>c \<in> set sig. is_digit c" "\<forall>c \<in> set sig'. is_digit c" "sig \<noteq> []" "sig' \<noteq> []"
  shows "n = m \<and> sig = sig' \<and> a = b"
proof -
  have nd: "\<not> is_digit (CHR ''-'')" "\<not> is_digit (CHR ''e'')" by (simp_all add: is_digit_def)
  have hd: "is_digit (hd sig)" "is_digit (hd sig')" using d by auto
  have nm: "n = m"
    using arg_cong[OF e, of hd] hd nd(1) d(3,4) by (cases n; cases m) (auto simp: hd_append)
  then have e2: "sig @ CHR ''e'' # int_text a = sig' @ CHR ''e'' # int_text b" using e by (cases n) auto
  have tk: "takeWhile is_digit (s @ CHR ''e'' # x) = s" if "\<forall>c \<in> set s. is_digit c" for s x
    using takeWhile_append2[of s is_digit "CHR ''e'' # x"] that nd(2) by simp
  have "sig = sig'" using arg_cong[OF e2, of "takeWhile is_digit"] tk[OF d(1)] tk[OF d(2)] by simp
  then show ?thesis using e2 nm int_text_inj by simp
qed

text \<open>
  C39: Two JSON numbers have the same canonical text exactly when they denote the same rational
  number, whatever their spelling (leading and trailing zeros, fraction, exponent, sign of zero),
  without the value ever being computed; and precisely the JSON numbers have one.
\<close>

theorem canonical_number_decides_value:
  "(canonical_number s \<noteq> None \<longleftrightarrow> json_number s) \<and>
   (canonical_number s \<noteq> None \<longrightarrow> canonical_number t \<noteq> None \<longrightarrow>
      (canonical_number s = canonical_number t \<longleftrightarrow> number_value s = number_value t))"
proof (intro conjI impI)
  have st: "s \<noteq> [] \<and> (hd s = CHR ''-'' \<or> is_digit (hd s))" if j: "json_number s"
  proof -
    obtain neg s' where n: "strip_sign s = (neg, s')" by fastforce
    obtain mantissa e where c: "cut_first is_e s' = (mantissa, e)" by fastforce
    obtain whole fr where d: "cut_first (\<lambda>c. c = CHR ''.'') mantissa = (whole, fr)" by fastforce
    have w: "whole \<noteq> []" "is_digit (hd whole)" using j n c d by (auto simp: json_number_def digits_only_def)
    have "whole = takeWhile (\<lambda>c. c \<noteq> CHR ''.'') mantissa" "mantissa = takeWhile (\<lambda>c. \<not> is_e c) s'"
      using c d by (simp_all add: cut_first_def)
    then have "hd s' = hd whole" "s' \<noteq> []" using w(1) takeWhile_hd by metis+
    then show ?thesis using n w(2) by (auto simp: strip_sign_def split: list.splits if_splits)
  qed
  show "canonical_number s \<noteq> None \<longleftrightarrow> json_number s"
    using st by (auto simp: canonical_number_def Let_def split: prod.splits)
  assume "canonical_number s \<noteq> None" "canonical_number t \<noteq> None"
  then obtain a b where a: "canonical_number s = Some a" and b: "canonical_number t = Some b" by blast
  show "canonical_number s = canonical_number t \<longleftrightarrow> number_value s = number_value t"
    using a
  proof (cases rule: canonical_cases)
    case 1: zero
    show ?thesis
      using b
    proof (cases rule: canonical_cases)
      case zero
      then show ?thesis using 1 a b by simp
    next
      case (scaled neg sig e)
      have "hd b \<noteq> CHR ''0'' \<or> tl b \<noteq> []" using scaled(1,3) by auto
      then have "a \<noteq> b" using 1(1) by auto
      moreover have "number_value t \<noteq> 0" using scaled(5,7) by simp
      ultimately show ?thesis using 1(2) a b by simp
    qed
  next
    case 1: (scaled neg sig e)
    show ?thesis
      using b
    proof (cases rule: canonical_cases)
      case zero
      have "hd a \<noteq> CHR ''0'' \<or> tl a \<noteq> []" using 1(1,3) by auto
      then have "a \<noteq> b" using zero(1) by auto
      moreover have "number_value s \<noteq> 0" using 1(5,7) by simp
      ultimately show ?thesis using zero(2) a b by simp
    next
      case 2: (scaled neg' sig' e')
      have pos: "0 < (of_nat (digits_nat sig) * (10 powi e) :: rat)" "0 < (of_nat (digits_nat sig') * (10 powi e') :: rat)"
        using 1(5) 2(5) by simp_all
      show ?thesis
      proof
        assume "canonical_number s = canonical_number t"
        then show "number_value s = number_value t"
          using scaled_text_inj[of neg sig e neg' sig' e'] 1(1,2,3,7) 2(1,2,3,7) a b by simp
      next
        assume v: "number_value s = number_value t"
        have n: "neg = neg'" using v pos unfolding 1(7) 2(7) by (cases neg; cases neg') auto
        then have "of_nat (digits_nat sig) * (10 powi e) = (of_nat (digits_nat sig') * (10 powi e') :: rat)"
          using v unfolding 1(7) 2(7) by (cases neg) auto
        then have "digits_nat sig = digits_nat sig' \<and> e = e'" by (rule scaled_unique[OF 1(6) 2(6)])
        then have "sig = sig'" "e = e'" using 1(4) 2(4) by metis+
        then show "canonical_number s = canonical_number t" using a b 1(1) 2(1) n by simp
      qed
    qed
  qed
qed

lemma canonical_number_witness:
  "canonical_number ''0.50e2'' = canonical_number ''50'' \<and> number_value ''0.50e2'' = number_value ''50'' \<and>
   number_value ''-5'' \<noteq> number_value ''5''"
proof -
  have "canonical_number ''0.50e2'' = Some ''5e1''" "canonical_number ''50'' = Some ''5e1''" by code_simp+
  moreover have "canonical_number ''-5'' = Some ''-5e0''" "canonical_number ''5'' = Some ''5e0''" by code_simp+
  ultimately show ?thesis
    using canonical_number_decides_value[of "''0.50e2''" "''50''"] canonical_number_decides_value[of "''-5''" "''5''"] by simp
qed

end
