(* ===== verification/Routine_Store.thy ===== *)
theory Routine_Store
  imports Manifest Models Webhook_Match
begin

text \<open>
  The tables \<open>routine\<close> and \<open>routine_run\<close> and their operations (\<open>internal/state/routines.go\<close>,
  \<open>internal/state/routine_runs.go\<close>, \<open>internal/state/routine_worktrees.go\<close>, with the indexes and
  checks of \<open>migrateToV70\<close>, \<open>migrateToV72\<close> and \<open>migrateToV73\<close>). SQL is read as the list
  operation it performs; a transaction that fails leaves the tables as they were. A schedule's JSON
  is kept as the value it encodes. The table \<open>webhook_dispatch\<close> stands here as well, because
  deleting a routine cancels its queued dispatches in the same transaction.
\<close>

section \<open>Rows\<close>

datatype session_mode = Mode_New | Mode_Reuse | Mode_Existing
datatype schedule_kind = Kind_None | Kind_Timeout | Kind_Once | Kind_Cron
datatype run_state = Running | Success | Failure | Interrupted
datatype trigger = By_Hand | By_Schedule | By_Webhook
datatype schedule_config = Cfg_None | Cfg_Due int | Cfg_At int | Cfg_Cron string string

record routine =
  ro_id :: string
  ro_name :: string
  ro_prompt :: string
  ro_directory :: string
  ro_remote :: string
  ro_agent :: string
  ro_model :: string
  ro_platform :: string
  ro_mode :: session_mode
  ro_session :: string
  ro_worktree :: bool
  ro_cleanup :: bool
  ro_kind :: schedule_kind
  ro_config :: schedule_config
  ro_rules :: string
  ro_due :: int
  ro_enabled :: bool
  ro_deleted :: bool
  ro_delete_after :: bool
  ro_archive_after :: bool
  ro_notify :: bool
  ro_created :: int
  ro_updated :: int
  ro_deleted_at :: int
  ro_expired_at :: int

record routine_run =
  rr_id :: string
  rr_routine :: string
  rr_version :: int
  rr_name :: string
  rr_prompt :: string
  rr_directory :: string
  rr_remote :: string
  rr_agent :: string
  rr_model :: string
  rr_mode :: session_mode
  rr_target :: string
  rr_worktree :: bool
  rr_cleanup :: bool
  rr_worktree_path :: string
  rr_trigger :: trigger
  rr_platform :: string
  rr_session :: string
  rr_state :: run_state
  rr_error :: string
  rr_occurrence :: int
  rr_created :: int
  rr_started :: int
  rr_finished :: int
  rr_archive :: bool
  rr_notify :: bool

datatype dispatch_state = Disp_Queued | Disp_Terminal | Disp_Failure | Disp_Ignored | Disp_Cancelled

record dispatch_row =
  di_inbox :: string
  di_delivery :: string
  di_routine :: string
  di_state :: dispatch_state
  di_error :: string
  di_created :: int
  di_finished :: int

text \<open>An item of the Inbox, as the completion of a run and a failed webhook post it.\<close>

record notice =
  no_id :: string
  no_title :: string
  no_body :: string
  no_created :: int
  no_session :: "(string \<times> string) option"

record rdb =
  routines :: "routine list"
  runs :: "routine_run list"
  dispatches :: "dispatch_row list"
  notices :: "notice list"

datatype routine_error =
    Routine_Not_Found | Run_Not_Found | Run_Active | Project_Error | Name_Conflict
  | Validation | Never_Fires | Constraint | Failed string

section \<open>Routines\<close>

definition find_routine :: "rdb \<Rightarrow> string \<Rightarrow> routine option" where
  "find_routine db i = find (\<lambda>r. ro_id r = i) (routines db)"

definition get_routine :: "rdb \<Rightarrow> string \<Rightarrow> routine_error + routine" where
  "get_routine db i = (case find_routine db i of None \<Rightarrow> Inl Routine_Not_Found | Some r \<Rightarrow> Inr r)"

text \<open>SQLite's \<open>trim\<close> strips spaces only, and \<open>NOCASE\<close> folds ASCII letters only.\<close>

definition sql_trim :: "string \<Rightarrow> string" where
  "sql_trim s = rev (dropWhile ((=) CHR '' '') (rev (dropWhile ((=) CHR '' '') s)))"

text \<open>The index \<open>routine_active_name_uq\<close>.\<close>

definition name_taken :: "rdb \<Rightarrow> string \<Rightarrow> string \<Rightarrow> bool" where
  "name_taken db i name \<longleftrightarrow>
     (\<exists>r \<in> set (routines db). ro_id r \<noteq> i \<and> \<not> ro_deleted r \<and> equal_fold (ro_name r) name)"

definition create_routine :: "rdb \<Rightarrow> routine \<Rightarrow> routine_error + rdb" where
  "create_routine db r =
     (if find_routine db (ro_id r) \<noteq> None then Inl Constraint
      else if sql_trim (ro_name r) = [] \<or> ro_deleted r \<noteq> (ro_deleted_at r > 0) \<or> ro_deleted_at r < 0 then Inl Constraint
      else if \<not> ro_deleted r \<and> name_taken db (ro_id r) (ro_name r) then Inl Name_Conflict
      else Inr (db\<lparr>routines := routines db @ [r]\<rparr>))"

definition map_routines :: "(routine \<Rightarrow> bool) \<Rightarrow> (routine \<Rightarrow> routine) \<Rightarrow> rdb \<Rightarrow> rdb" where
  "map_routines p f db = db\<lparr>routines := map (\<lambda>r. if p r then f r else r) (routines db)\<rparr>"

text \<open>What \<open>UpdateRoutine\<close> writes over a row: the definition, but neither the creation nor the
  deletion. A reused session stays while the routine keeps running on the same machine, project
  and platform.\<close>

definition updated_routine :: "routine \<Rightarrow> routine \<Rightarrow> routine" where
  "updated_routine r old =
     r\<lparr>ro_session := (if ro_mode r = Mode_Reuse \<and> ro_mode old = Mode_Reuse \<and> ro_directory old = ro_directory r \<and>
                         ro_remote old = ro_remote r \<and> ro_platform old = ro_platform r
                      then ro_session old else ro_session r),
       ro_created := ro_created old, ro_deleted := ro_deleted old, ro_deleted_at := ro_deleted_at old,
       ro_expired_at := 0\<rparr>"

definition update_routine :: "rdb \<Rightarrow> routine \<Rightarrow> routine_error + rdb" where
  "update_routine db r =
     (let live = (\<lambda>x. ro_id x = ro_id r \<and> \<not> ro_deleted x) in
      if \<not> (\<exists>x \<in> set (routines db). live x) then Inl Routine_Not_Found
      else if sql_trim (ro_name r) = [] then Inl Constraint
      else if name_taken db (ro_id r) (ro_name r) then Inl Name_Conflict
      else Inr (map_routines live (updated_routine r) db))"

definition cancel_dispatches :: "string \<Rightarrow> int \<Rightarrow> rdb \<Rightarrow> rdb" where
  "cancel_dispatches i now db =
     db\<lparr>dispatches := map (\<lambda>d. if di_routine d = i \<and> di_state d = Disp_Queued
                             then d\<lparr>di_state := Disp_Cancelled, di_finished := now\<rparr> else d) (dispatches db)\<rparr>"

definition soft_delete_routine :: "rdb \<Rightarrow> string \<Rightarrow> int \<Rightarrow> routine_error + rdb" where
  "soft_delete_routine db i now =
     (let live = (\<lambda>x. ro_id x = i \<and> \<not> ro_deleted x) in
      if \<not> (\<exists>x \<in> set (routines db). live x) then Inl Routine_Not_Found
      else if now \<le> 0 then Inl Constraint
      else Inr (cancel_dispatches i now
             (map_routines live (\<lambda>r. r\<lparr>ro_enabled := False, ro_deleted := True, ro_deleted_at := now, ro_updated := now\<rparr>) db)))"

section \<open>Claiming a run\<close>

text \<open>The keys of the partial indexes \<open>routine_run_one_shared_active_uq\<close> and
  \<open>routine_run_one_active_target_uq\<close>: a run in a shared session claims its routine and its
  session while it is running.\<close>

definition shared_claim :: "routine_run \<Rightarrow> string option" where
  "shared_claim r = (if rr_state r = Running \<and> rr_mode r \<noteq> Mode_New then Some (rr_routine r) else None)"

definition target_claim :: "routine_run \<Rightarrow> (string \<times> string) option" where
  "target_claim r =
     (if rr_state r = Running \<and> rr_mode r \<noteq> Mode_New \<and> (rr_target r \<noteq> [] \<or> rr_session r \<noteq> [])
      then Some (rr_remote r, if rr_target r \<noteq> [] then rr_target r else rr_session r) else None)"

definition clash :: "routine_run \<Rightarrow> routine_run \<Rightarrow> bool" where
  "clash a b \<longleftrightarrow>
     rr_id a = rr_id b \<or> (rr_routine a = rr_routine b \<and> rr_occurrence a = rr_occurrence b) \<or>
     (shared_claim a \<noteq> None \<and> shared_claim a = shared_claim b) \<or>
     (target_claim a \<noteq> None \<and> target_claim a = target_claim b)"

text \<open>The snapshot of the routine that a claimed run keeps, in the directory chosen for it.\<close>

definition snapshot :: "routine \<Rightarrow> string \<Rightarrow> routine_run \<Rightarrow> routine_run" where
  "snapshot ro dir run =
     run\<lparr>rr_version := ro_updated ro, rr_name := ro_name ro, rr_prompt := ro_prompt ro, rr_directory := dir,
         rr_remote := ro_remote ro, rr_agent := ro_agent ro, rr_model := ro_model ro, rr_mode := ro_mode ro,
         rr_target := ro_session ro, rr_archive := ro_archive_after ro, rr_notify := ro_notify ro,
         rr_platform := ro_platform ro, rr_worktree := ro_worktree ro, rr_cleanup := ro_cleanup ro\<rparr>"

text \<open>A target is a directory and the machine it was looked up on.\<close>

definition run_directory :: "routine \<Rightarrow> (string \<times> string) option \<Rightarrow> string option" where
  "run_directory ro target =
     (let dir = (case target of
                   None \<Rightarrow> Some (ro_directory ro)
                 | Some (d, remote) \<Rightarrow>
                     if d = [] then Some (ro_directory ro)
                     else if ro_remote ro \<noteq> remote \<or> (ro_directory ro \<noteq> [] \<and> ro_directory ro \<noteq> d) then None
                     else Some d)
      in case dir of None \<Rightarrow> None | Some d \<Rightarrow> if d = [] then None else Some d)"

definition claim_routine_run ::
  "rdb \<Rightarrow> routine_run \<Rightarrow> (string \<times> string) option \<Rightarrow> routine_error + (routine_run \<times> bool \<times> rdb)" where
  "claim_routine_run db run target =
     (case find (\<lambda>r. ro_id r = rr_routine run \<and> \<not> ro_deleted r) (routines db) of
        None \<Rightarrow> Inl Routine_Not_Found
      | Some ro \<Rightarrow>
          (case run_directory ro target of
             None \<Rightarrow> Inl Project_Error
           | Some dir \<Rightarrow>
               let new = snapshot ro dir run in
               if rr_occurrence new \<le> 0 then Inl Constraint
               else if \<exists>r \<in> set (runs db). clash new r then
                 (case find (\<lambda>r. rr_routine r = rr_routine run \<and> rr_occurrence r = rr_occurrence run) (runs db) of
                    None \<Rightarrow> Inl Run_Active
                  | Some r \<Rightarrow> Inr (r, False, db))
               else Inr (new, True, db\<lparr>runs := runs db @ [new]\<rparr>)))"

definition get_routine_run :: "rdb \<Rightarrow> string \<Rightarrow> routine_error + routine_run" where
  "get_routine_run db i = (case find (\<lambda>r. rr_id r = i) (runs db) of None \<Rightarrow> Inl Run_Not_Found | Some r \<Rightarrow> Inr r)"

section \<open>Linking and settling a run\<close>

definition map_runs :: "(routine_run \<Rightarrow> bool) \<Rightarrow> (routine_run \<Rightarrow> routine_run) \<Rightarrow> rdb \<Rightarrow> rdb" where
  "map_runs p f db = db\<lparr>runs := map (\<lambda>r. if p r then f r else r) (runs db)\<rparr>"

abbreviation running_run :: "string \<Rightarrow> routine_run \<Rightarrow> bool" where
  "running_run i r \<equiv> rr_id r = i \<and> rr_state r = Running"

text \<open>The first link of a reused session binds the routine to it, unless the routine was edited
  to run elsewhere meanwhile.\<close>

definition bind_session :: "string \<Rightarrow> string \<Rightarrow> rdb \<Rightarrow> rdb" where
  "bind_session i session db =
     (case find (\<lambda>r. rr_id r = i) (runs db) of
        None \<Rightarrow> db
      | Some run \<Rightarrow>
          if rr_mode run \<noteq> Mode_Reuse \<or> rr_target run \<noteq> [] then db
          else map_routines (\<lambda>r. ro_id r = rr_routine run \<and> ro_directory r = rr_directory run \<and> ro_remote r = rr_remote run \<and>
                                 ro_mode r = Mode_Reuse \<and> ro_session r = [])
                 (\<lambda>r. r\<lparr>ro_session := session\<rparr>) db)"

definition linked :: "string \<Rightarrow> string \<Rightarrow> int \<Rightarrow> routine_run \<Rightarrow> routine_run" where
  "linked platform session started r = r\<lparr>rr_platform := platform, rr_session := session, rr_started := started\<rparr>"

text \<open>Whether the running run \<open>i\<close> has the session key of another run.\<close>

definition session_conflict :: "rdb \<Rightarrow> string \<Rightarrow> bool" where
  "session_conflict db i \<longleftrightarrow>
     (\<exists>r \<in> set (runs db). \<exists>q \<in> set (runs db).
        running_run i r \<and> rr_id q \<noteq> i \<and> target_claim r \<noteq> None \<and> target_claim r = target_claim q)"

definition link_routine_run :: "rdb \<Rightarrow> string \<Rightarrow> string \<Rightarrow> string \<Rightarrow> int \<Rightarrow> bool \<Rightarrow> routine_error + rdb" where
  "link_routine_run db i platform session started bind =
     (let db' = (if bind then bind_session i session db else db);
          db'' = map_runs (running_run i) (linked platform session started) db'
      in if \<not> (\<exists>r \<in> set (runs db). running_run i r) then Inl Run_Not_Found
         else if session_conflict db'' i then Inl Constraint
         else Inr db'')"

definition set_run_worktree :: "rdb \<Rightarrow> string \<Rightarrow> string \<Rightarrow> routine_error + rdb" where
  "set_run_worktree db i path =
     (let p = (\<lambda>r. running_run i r \<and> rr_worktree r) in
      if \<not> (\<exists>r \<in> set (runs db). p r) then Inl Routine_Not_Found
      else Inr (map_runs p (\<lambda>r. r\<lparr>rr_worktree_path := path\<rparr>) db))"

fun state_text :: "run_state \<Rightarrow> string" where
  "state_text Running = ''running''"
| "state_text Success = ''success''"
| "state_text Failure = ''failure''"
| "state_text Interrupted = ''interrupted''"

abbreviation newline :: char where "newline \<equiv> CHR 0x0A"

definition notice_section :: "string \<Rightarrow> string" where
  "notice_section t = (if trim_space t = [] then [] else trim_space t @ [newline, newline])"

definition run_notice :: "routine_run \<Rightarrow> run_state \<Rightarrow> string \<Rightarrow> string \<Rightarrow> int \<Rightarrow> notice" where
  "run_notice run st err reply finished =
     \<lparr>no_id = ''routine-'' @ rr_id run,
      no_title = rr_name run @ '': '' @ state_text st,
      no_body = ''Run '' @ rr_id run @ '' finished with status **'' @ state_text st @ ''**.'' @ [newline, newline] @
                notice_section err @ notice_section reply @ ''[View routines](/routines)'',
      no_created = finished,
      no_session = (if rr_platform run \<noteq> [] \<and> rr_session run \<noteq> [] then Some (rr_platform run, rr_session run) else None)\<rparr>"

text \<open>How a settled run moves its routine on. A run that consumed a scheduled occurrence advances
  it, if the routine is unchanged since the claim or still due at that occurrence; any other run
  only deletes an unchanged routine that is to be deleted after a success.\<close>

definition unchanged_or_due :: "routine_run \<Rightarrow> routine \<Rightarrow> bool" where
  "unchanged_or_due run r \<longleftrightarrow>
     ro_id r = rr_routine run \<and> \<not> ro_deleted r \<and> (ro_updated r = rr_version run \<or> ro_due r = rr_occurrence run)"

definition settle_routine :: "routine_run \<Rightarrow> run_state \<Rightarrow> int \<Rightarrow> int \<Rightarrow> bool \<Rightarrow> bool \<Rightarrow> rdb \<Rightarrow> rdb" where
  "settle_routine run st finished next_due enabled advance db =
     (if \<not> advance then
        if st = Success then
          map_routines (\<lambda>r. ro_id r = rr_routine run \<and> \<not> ro_deleted r \<and> ro_delete_after r \<and> ro_updated r = rr_version run)
            (\<lambda>r. r\<lparr>ro_due := 0, ro_enabled := False, ro_deleted := True, ro_deleted_at := finished, ro_updated := finished\<rparr>) db
        else db
      else if st = Success then
        map_routines (unchanged_or_due run)
          (\<lambda>r. if ro_delete_after r
                then r\<lparr>ro_due := 0, ro_enabled := False, ro_deleted := True, ro_deleted_at := finished, ro_updated := finished\<rparr>
                else r\<lparr>ro_due := next_due, ro_enabled := enabled, ro_updated := finished\<rparr>) db
      else map_routines (unchanged_or_due run) (\<lambda>r. r\<lparr>ro_due := next_due, ro_enabled := enabled, ro_updated := finished\<rparr>) db)"

definition finished_run :: "run_state \<Rightarrow> string \<Rightarrow> int \<Rightarrow> routine_run \<Rightarrow> routine_run" where
  "finished_run st err finished r = r\<lparr>rr_state := st, rr_error := err, rr_finished := finished\<rparr>"

text \<open>\<open>FinishRoutineRun\<close>; \<open>False\<close> says that the run had been settled before. The notice is
  posted unless the run was a success its routine did not ask to hear of; the table's checks
  refuse a title with a space at an end.\<close>

definition finish_routine_run ::
  "rdb \<Rightarrow> string \<Rightarrow> run_state \<Rightarrow> string \<Rightarrow> string \<Rightarrow> int \<Rightarrow> int \<Rightarrow> bool \<Rightarrow> bool \<Rightarrow> routine_error + (bool \<times> rdb)" where
  "finish_routine_run db i st err reply finished next_due enabled advance =
     (case find (running_run i) (runs db) of
        None \<Rightarrow> Inr (False, db)
      | Some run \<Rightarrow>
          let db1 = map_runs (running_run i) (finished_run st err finished) db;
              db2 = settle_routine run st finished next_due enabled advance db1;
              n = run_notice run st err reply finished
          in if st = Success \<and> \<not> rr_notify run then Inr (True, db2)
             else if (\<exists>m \<in> set (notices db2). no_id m = no_id n) \<or> sql_trim (no_title n) \<noteq> no_title n then Inl Constraint
             else Inr (True, db2\<lparr>notices := notices db2 @ [n]\<rparr>))"

section \<open>Listings\<close>

definition due_before :: "routine \<Rightarrow> routine \<Rightarrow> bool" where
  "due_before a b \<longleftrightarrow> ro_due a < ro_due b \<or> (ro_due a = ro_due b \<and> \<not> lexordp (<) (ro_id b) (ro_id a))"

fun insert_due :: "routine \<Rightarrow> routine list \<Rightarrow> routine list" where
  "insert_due r [] = [r]"
| "insert_due r (x # xs) = (if due_before r x then r # x # xs else x # insert_due r xs)"

definition is_due :: "rdb \<Rightarrow> int \<Rightarrow> routine \<Rightarrow> bool" where
  "is_due db now r \<longleftrightarrow>
     ro_enabled r \<and> \<not> ro_deleted r \<and> ro_due r > 0 \<and> ro_due r \<le> now \<and>
     \<not> (\<exists>x \<in> set (runs db). rr_routine x = ro_id r \<and> rr_state x = Running \<and> rr_mode x \<noteq> Mode_New)"

definition list_due_routines :: "rdb \<Rightarrow> int \<Rightarrow> routine list" where
  "list_due_routines db now = foldr insert_due (filter (is_due db now) (routines db)) []"

definition expire_overdue :: "rdb \<Rightarrow> int \<Rightarrow> rdb" where
  "expire_overdue db now =
     map_routines (\<lambda>r. ro_enabled r \<and> \<not> ro_deleted r \<and> ro_kind r = Kind_Timeout \<and> ro_due r > 0 \<and> ro_due r \<le> now \<and>
                     \<not> (\<exists>x \<in> set (runs db). rr_routine x = ro_id r \<and> rr_occurrence x = ro_due r))
       (\<lambda>r. r\<lparr>ro_enabled := False, ro_expired_at := now, ro_updated := now\<rparr>) db"

end
