(* ===== verification/Routine_Service.thy ===== *)
theory Routine_Service
  imports Routine_Store
begin

text \<open>
  The routine service (\<open>internal/routines\<close>: service.go, schedule.go, launch_project.go, settle.go,
  worktree.go): validation of a routine, its schedule, and the launch of a run as the steps between
  which other goroutines may act: the claim, the session and its link, the prompt, the settlement.
  The cron library, the hosts, the platforms and the ids drawn at random are arguments. Times are
  nanoseconds since the epoch, stored ones milliseconds.
\<close>

section \<open>Schedules\<close>

record cron_library =
  cron_zone :: "string \<Rightarrow> bool"
  cron_parses :: "string \<Rightarrow> bool"
  cron_next :: "string \<Rightarrow> string \<Rightarrow> int \<Rightarrow> int option"

text \<open>\<open>None\<close> as a kind stands for any text that is no kind.\<close>

record schedule =
  sc_kind :: "schedule_kind option"
  sc_timeout :: int
  sc_at :: int
  sc_cron :: string
  sc_zone :: string

definition unix_milli :: "int \<Rightarrow> int" where
  "unix_milli t = t div 1000000"

definition zero_time :: int where
  "zero_time = -62135596800000000000"

definition encode_schedule ::
  "cron_library \<Rightarrow> schedule \<Rightarrow> int \<Rightarrow> routine_error + (schedule_config \<times> int)" where
  "encode_schedule lib s now =
     (case sc_kind s of
        None \<Rightarrow> Inl Validation
      | Some Kind_None \<Rightarrow> Inr (Cfg_None, 0)
      | Some Kind_Timeout \<Rightarrow>
          if sc_timeout s \<le> 0 \<or> sc_timeout s div 1000000 \<le> 0 then Inl Validation
          else let due = unix_milli (now + sc_timeout s) in Inr (Cfg_Due due, due)
      | Some Kind_Once \<Rightarrow>
          if sc_at s = zero_time \<or> \<not> sc_at s > now then Inl Validation
          else let due = unix_milli (sc_at s) in Inr (Cfg_At due, due)
      | Some Kind_Cron \<Rightarrow>
          let zone = (if sc_zone s = [] then ''UTC'' else sc_zone s) in
          if \<not> cron_zone lib zone \<or> length (Manifest.fields (sc_cron s)) \<noteq> 5 then Inl Validation
          else if \<not> cron_parses lib (sc_cron s) then Inl (Failed ''cron'')
          else case cron_next lib (sc_cron s) zone now of
            None \<Rightarrow> Inl Never_Fires
          | Some next \<Rightarrow> Inr (Cfg_Cron (sc_cron s) zone, unix_milli next))"

section \<open>Definitions of routines\<close>

text \<open>The permission rules are their JSON text; a session mode is the text of the request.\<close>

record input =
  in_platform :: string
  in_name :: string
  in_prompt :: string
  in_directory :: string
  in_remote :: string
  in_agent :: string
  in_model :: string
  in_mode :: string
  in_session :: string
  in_worktree :: bool
  in_cleanup :: bool
  in_schedule :: schedule
  in_enabled :: bool
  in_delete_after :: bool
  in_archive_after :: bool
  in_notify :: bool
  in_rules :: string
  in_keep :: bool

definition is_abs :: "string \<Rightarrow> bool" where
  "is_abs p = has_prefix p ''/''"

definition mode_text :: "session_mode \<Rightarrow> string" where
  "mode_text m = (case m of Mode_New \<Rightarrow> ''new'' | Mode_Reuse \<Rightarrow> ''reuse'' | Mode_Existing \<Rightarrow> ''existing'')"

definition parse_mode :: "string \<Rightarrow> session_mode option" where
  "parse_mode s =
     (let m = (if trim_space s = [] then mode_text Mode_New else trim_space s)
      in if m = mode_text Mode_New then Some Mode_New
         else if m = mode_text Mode_Reuse then Some Mode_Reuse
         else if m = mode_text Mode_Existing then Some Mode_Existing else None)"

text \<open>The routine a valid input describes; its id and times are the caller's to set.\<close>

definition built_routine :: "input \<Rightarrow> session_mode \<Rightarrow> schedule_config \<Rightarrow> int \<Rightarrow> routine" where
  "built_routine i mode config due =
     \<lparr>ro_id = [], ro_name = trim_space (in_name i), ro_prompt = in_prompt i,
      ro_directory = trim_space (in_directory i),
      ro_remote = (if trim_space (in_remote i) = [] then ''local'' else trim_space (in_remote i)),
      ro_agent = trim_space (in_agent i), ro_model = trim_space (in_model i), ro_platform = in_platform i,
      ro_mode = mode, ro_session = (if mode = Mode_Existing then trim_space (in_session i) else []),
      ro_worktree = in_worktree i, ro_cleanup = in_cleanup i,
      ro_kind = (case sc_kind (in_schedule i) of None \<Rightarrow> Kind_None | Some k \<Rightarrow> k), ro_config = config,
      ro_rules = in_rules i, ro_due = due, ro_enabled = in_enabled i, ro_deleted = False,
      ro_delete_after = in_delete_after i, ro_archive_after = in_archive_after i, ro_notify = in_notify i,
      ro_created = 0, ro_updated = 0, ro_deleted_at = 0, ro_expired_at = 0\<rparr>"

definition build_routine :: "cron_library \<Rightarrow> input \<Rightarrow> int \<Rightarrow> routine_error + routine" where
  "build_routine lib i now =
     (let directory = trim_space (in_directory i); session = trim_space (in_session i) in
      if trim_space (in_name i) = [] \<or> trim_space (in_prompt i) = [] \<or> (directory \<noteq> [] \<and> \<not> is_abs directory)
      then Inl Validation
      else if directory = [] \<and> (parse_mode (in_mode i) \<noteq> Some Mode_New \<or>
                (sc_kind (in_schedule i) \<noteq> Some Kind_None \<and> \<not> in_keep i)) then Inl Validation
      else case parse_mode (in_mode i) of
        None \<Rightarrow> Inl Validation
      | Some mode \<Rightarrow>
          if mode = Mode_Existing \<and> session = [] then Inl Validation
          else if in_worktree i \<and> mode \<noteq> Mode_New then Inl Validation
          else if in_cleanup i \<and> \<not> in_worktree i then Inl Validation
          else if in_keep i then Inr (built_routine i mode Cfg_None 0)
          else case encode_schedule lib (in_schedule i) now of
            Inl e \<Rightarrow> Inl (if e = Never_Fires then Never_Fires else Validation)
          | Inr (config, due) \<Rightarrow> Inr (built_routine i mode config due))"

text \<open>\<open>InputFromRoutine\<close>: an \<open>at\<close> that was never set is the zero time.\<close>

definition input_from_routine :: "routine \<Rightarrow> int \<Rightarrow> input" where
  "input_from_routine r now =
     (let due_at = (case ro_config r of Cfg_Due d \<Rightarrow> d | _ \<Rightarrow> 0);
          at = (case ro_config r of Cfg_At a \<Rightarrow> a | _ \<Rightarrow> 0)
      in \<lparr>in_platform = [], in_name = ro_name r, in_prompt = ro_prompt r, in_directory = ro_directory r,
          in_remote = ro_remote r, in_agent = ro_agent r, in_model = ro_model r, in_mode = mode_text (ro_mode r),
          in_session = ro_session r, in_worktree = ro_worktree r, in_cleanup = ro_cleanup r,
          in_schedule =
            \<lparr>sc_kind = Some (ro_kind r),
             sc_timeout = (if ro_kind r = Kind_Timeout then due_at * 1000000 - now else 0),
             sc_at = (if at > 0 then at * 1000000 else zero_time),
             sc_cron = (case ro_config r of Cfg_Cron c _ \<Rightarrow> c | _ \<Rightarrow> []),
             sc_zone = (case ro_config r of Cfg_Cron _ z \<Rightarrow> z | _ \<Rightarrow> [])\<rparr>,
          in_enabled = ro_enabled r, in_delete_after = ro_delete_after r, in_archive_after = ro_archive_after r,
          in_notify = ro_notify r, in_rules = ro_rules r, in_keep = False\<rparr>)"

section \<open>Platforms\<close>

text \<open>What the service asks of its surroundings outside a launch: the platform of the settings,
  the registered platforms, and the platform of a known session.\<close>

record world =
  w_cron :: cron_library
  w_default :: string
  w_registered :: "string list"
  w_session_platform :: "string \<Rightarrow> string option"

text \<open>\<open>SplitPlatformID\<close> and \<open>CompoundPlatformID\<close> of \<open>r-<remote>:<base>\<close>.\<close>

definition split_platform_id :: "string \<Rightarrow> string \<times> string" where
  "split_platform_id i =
     (if \<not> has_prefix i ''r-'' then ([], i)
      else case cut_first ((=) CHR '':'') (drop 2 i) of
        (_, None) \<Rightarrow> ([], i)
      | (remote, Some base) \<Rightarrow> (remote, base))"

definition compound_platform_id :: "string \<Rightarrow> string \<Rightarrow> string" where
  "compound_platform_id remote base = ''r-'' @ remote @ '':'' @ base"

fun least_text :: "string \<Rightarrow> string list \<Rightarrow> string" where
  "least_text m [] = m"
| "least_text m (x # xs) = least_text (if lexordp (<) x m then x else m) xs"

definition pick_enabled_platform :: "string \<Rightarrow> string list \<Rightarrow> string" where
  "pick_enabled_platform preferred enabled =
     (if enabled = [] \<or> preferred \<in> set enabled then preferred
      else if OpenCodeID \<in> set enabled then OpenCodeID
      else least_text (hd enabled) (tl enabled))"

definition local_remote :: "string \<Rightarrow> bool" where
  "local_remote i \<longleftrightarrow> i = [] \<or> i = ''local''"

definition default_platform :: "world \<Rightarrow> string \<Rightarrow> string" where
  "default_platform w remote =
     (if local_remote remote then w_default w
      else pick_enabled_platform (w_default w)
             (map snd (filter (\<lambda>p. fst p = remote) (map split_platform_id (w_registered w)))))"

definition target_platform :: "world \<Rightarrow> input \<Rightarrow> routine_error + input" where
  "target_platform w i =
     (if in_mode i \<noteq> mode_text Mode_Existing then
        (case platform_for_model (in_platform i) (in_model i) of
           None \<Rightarrow> Inl Validation
         | Some p \<Rightarrow> Inr (i\<lparr>in_platform := p\<rparr>))
      else if in_platform i \<noteq> [] \<or> in_session i = [] then Inr i
      else case w_session_platform w (in_session i) of
        None \<Rightarrow> Inr i
      | Some p \<Rightarrow> Inr (i\<lparr>in_platform := p\<rparr>))"

definition create_service :: "world \<Rightarrow> rdb \<Rightarrow> input \<Rightarrow> string \<Rightarrow> int \<Rightarrow> routine_error + (routine \<times> rdb)" where
  "create_service w db i new now =
     (case target_platform w i of
        Inl e \<Rightarrow> Inl e
      | Inr i1 \<Rightarrow>
          let i2 = (if in_platform i1 = [] then i1\<lparr>in_platform := default_platform w (in_remote i1)\<rparr> else i1) in
          if in_keep i2 then Inl Validation
          else case build_routine (w_cron w) i2 now of
            Inl e \<Rightarrow> Inl e
          | Inr r \<Rightarrow>
              let r' = r\<lparr>ro_id := new, ro_created := unix_milli now, ro_updated := unix_milli now\<rparr>
              in case create_routine db r' of Inl e \<Rightarrow> Inl e | Inr db' \<Rightarrow> Inr (r', db'))"

definition update_service :: "world \<Rightarrow> rdb \<Rightarrow> string \<Rightarrow> input \<Rightarrow> int \<Rightarrow> routine_error + (routine \<times> rdb)" where
  "update_service w db i inp now =
     (case get_routine db i of
        Inl e \<Rightarrow> Inl e
      | Inr old \<Rightarrow>
          (case target_platform w inp of
             Inl e \<Rightarrow> Inl e
           | Inr i1 \<Rightarrow>
               let i2 = (if in_platform i1 = [] then i1\<lparr>in_platform := ro_platform old\<rparr> else i1) in
               if trim_space (in_directory i2) = [] \<and> in_keep i2 \<and> ro_kind old \<noteq> Kind_None then Inl Validation
               else case build_routine (w_cron w) i2 now of
                 Inl e \<Rightarrow> Inl e
               | Inr r \<Rightarrow>
                   let r1 = (if in_keep i2
                             then r\<lparr>ro_kind := ro_kind old, ro_config := ro_config old, ro_due := ro_due old\<rparr> else r);
                       r2 = r1\<lparr>ro_id := i, ro_created := ro_created old, ro_updated := unix_milli now\<rparr>
                   in case update_routine db r2 of
                        Inl e \<Rightarrow> Inl e
                      | Inr db' \<Rightarrow> (case get_routine db' i of Inl e \<Rightarrow> Inl e | Inr r3 \<Rightarrow> Inr (r3, db'))))"

end
