(* ===== verification/Routine_Launch.thy ===== *)
theory Routine_Launch
  imports Routine_Service
begin

text \<open>
  The launch of a routine run (\<open>internal/routines\<close>: service.go, launch_project.go, settle.go,
  worktree.go) and its interleavings. A launch claims its run, prepares a session and links it, and
  prompts it; \<open>flights\<close> holds the launches between two of these steps, and \<open>prompted\<close> records every
  prompt handed to a session. Launches by hand, by a webhook and by the scheduler run beside each
  other and beside the settlement of the running runs, so any order of the steps is a run of the
  system; a crash loses the flights.
\<close>

section \<open>Projects of unbound routines\<close>

record host_project =
  hp_directory :: string
  hp_upstreams :: "string list"
  hp_origin :: string
  hp_archived :: bool
  hp_last_used :: int

record catalog_project =
  ct_key :: string
  ct_directory :: string
  ct_remote :: string
  ct_archived :: bool

text \<open>The projects of the routine's machine, the times at which projects were archived, and the
  catalog of all machines; \<open>None\<close> is a failure to read them. The normalised identity of a
  repository URL is a parameter.\<close>

record projects_view =
  pv_reachable :: bool
  pv_normalize :: "string \<Rightarrow> string"
  pv_projects :: "host_project list option"
  pv_archived :: "string \<Rightarrow> string \<Rightarrow> int option"
  pv_catalog :: "catalog_project list option"

definition normalize_remote_id :: "string \<Rightarrow> string" where
  "normalize_remote_id r = (if r = [] then ''local'' else r)"

definition only_match :: "string list \<Rightarrow> routine_error + string" where
  "only_match ds = (case remdups ds of [d] \<Rightarrow> Inr d | _ \<Rightarrow> Inl Validation)"

definition launch_project_key :: "projects_view \<Rightarrow> string \<Rightarrow> string \<Rightarrow> routine_error + string" where
  "launch_project_key v owner key =
     (case pv_catalog v of
        None \<Rightarrow> Inl Validation
      | Some ps \<Rightarrow> only_match (map ct_directory (filter (\<lambda>p. ct_key p = key \<and> \<not> ct_archived p \<and> is_abs (ct_directory p) \<and>
                       normalize_remote_id (ct_remote p) = normalize_remote_id owner) ps)))"

definition project_candidate :: "projects_view \<Rightarrow> string \<Rightarrow> host_project \<Rightarrow> bool" where
  "project_candidate v remote p \<longleftrightarrow>
     \<not> (hp_archived p \<or>
        (case pv_archived v (normalize_remote_id remote) (hp_directory p) of None \<Rightarrow> False | Some at \<Rightarrow> hp_last_used p \<le> at) \<or>
        \<not> is_abs (hp_directory p))"

definition project_matches :: "projects_view \<Rightarrow> string \<Rightarrow> host_project \<Rightarrow> bool" where
  "project_matches v project p \<longleftrightarrow>
     (let key = pv_normalize v project in
      project = hp_directory p \<or> (key \<noteq> [] \<and> key \<in> set (hp_upstreams p)) \<or>
      (key \<noteq> [] \<and> (hp_origin p = key \<or> pv_normalize v (hp_origin p) = key)))"

definition launch_project :: "projects_view \<Rightarrow> routine \<Rightarrow> string \<Rightarrow> routine_error + string" where
  "launch_project v r wanted =
     (let project = trim_space wanted in
      if ro_directory r \<noteq> [] then
        (if project \<noteq> [] \<and> project \<noteq> ro_directory r then Inl Project_Error else Inr (ro_directory r))
      else if project = [] then Inl Project_Error
      else if \<not> pv_reachable v then Inl (Failed ''routine target is unavailable'')
      else let git_key = has_prefix project ''git:'' \<and> \<not> has_prefix project ''git://'' in
        if \<not> is_abs project \<and> (has_prefix project ''dir:'' \<or> git_key \<or> pv_normalize v project = [])
        then launch_project_key v (ro_remote r) project
        else case pv_projects v of
          None \<Rightarrow> Inl (Failed ''listing routine projects'')
        | Some ps \<Rightarrow> only_match (map hp_directory (filter (\<lambda>p. project_candidate v (ro_remote r) p \<and> project_matches v project p) ps)))"

section \<open>Settling a run\<close>

text \<open>\<open>Service.finish\<close>: only a scheduled occurrence consumes the schedule, or a run that was
  launched by hand for the occurrence that was due.\<close>

definition consumes :: "routine_run \<Rightarrow> routine \<Rightarrow> bool" where
  "consumes run r \<longleftrightarrow> rr_trigger run = By_Schedule \<or> (ro_due r > 0 \<and> rr_occurrence run = ro_due r)"

definition next_occurrence :: "cron_library \<Rightarrow> routine \<Rightarrow> int \<Rightarrow> routine_error + (int \<times> bool)" where
  "next_occurrence lib r now =
     (if ro_kind r = Kind_Cron \<and> ro_enabled r \<and> \<not> ro_deleted r then
        (case ro_config r of
           Cfg_Cron cron zone \<Rightarrow>
             (case encode_schedule lib \<lparr>sc_kind = Some Kind_Cron, sc_timeout = 0, sc_at = zero_time, sc_cron = cron, sc_zone = zone\<rparr> now of
                Inl e \<Rightarrow> Inl e
              | Inr (_, next) \<Rightarrow> Inr (next, True))
         | _ \<Rightarrow> Inl (Failed ''schedule config''))
      else Inr (0, False))"

definition finish_service ::
  "cron_library \<Rightarrow> rdb \<Rightarrow> routine_run \<Rightarrow> run_state \<Rightarrow> string \<Rightarrow> string \<Rightarrow> int \<Rightarrow> routine_error + rdb" where
  "finish_service lib db run st err reply now =
     (case get_routine db (rr_routine run) of
        Inl e \<Rightarrow> Inl e
      | Inr r \<Rightarrow>
          (case (if consumes run r then next_occurrence lib r now else Inr (0, False)) of
             Inl e \<Rightarrow> Inl e
           | Inr (next, enabled) \<Rightarrow>
               (case finish_routine_run db (rr_id run) st err reply (unix_milli now) next enabled (consumes run r) of
                  Inl e \<Rightarrow> Inl e
                | Inr (_, db') \<Rightarrow> Inr db')))"

section \<open>Launching\<close>

datatype stage = Claimed | Linked string string

record flight =
  fl_run :: routine_run
  fl_prompt :: string
  fl_stage :: stage

record service =
  sv_db :: rdb
  sv_flights :: "flight list"
  sv_prompted :: "(string \<times> string \<times> string) list"

text \<open>What a launch meets: the host of the run's machine, whether a platform is registered, the
  start of the runtime, the session created for the run (an error, or its id, its worktree path
  when it has one, and a failure after the link), and the directory of the session to continue.\<close>

record created_session =
  cs_fresh :: bool
  cs_path :: string
  cs_session :: string

record launch =
  la_host :: "string option"
  la_known :: "string \<Rightarrow> bool"
  la_runtime :: "string option"
  la_create :: "string + created_session"
  la_commit :: "string option"
  la_adapter :: bool
  la_detail :: "string option"

definition quoted :: "string \<Rightarrow> string" where
  "quoted s = [CHR 0x22] @ s @ [CHR 0x22]"

text \<open>\<open>filepath.Clean\<close>.\<close>

definition clean_step :: "bool \<Rightarrow> string list \<Rightarrow> string \<Rightarrow> string list" where
  "clean_step rooted stack part =
     (if part = [] \<or> part = ''.'' then stack
      else if part = ''..'' then
        (if stack \<noteq> [] \<and> last stack \<noteq> ''..'' then butlast stack else if rooted then stack else stack @ [part])
      else stack @ [part])"

definition clean_path :: "string \<Rightarrow> string" where
  "clean_path p =
     (let rooted = is_abs p; body = join ''/'' (foldl (clean_step rooted) [] (split_slash p))
      in if rooted then ''/'' @ body else if body = [] then ''.'' else body)"

text \<open>The checks before a session is touched: the platform under which the host runs the run.\<close>

definition route_run :: "world \<Rightarrow> launch \<Rightarrow> routine_run \<Rightarrow> string + string" where
  "route_run w la run =
     (if rr_trigger run = By_Webhook \<and> \<not> local_remote (rr_remote run) then Inl ''routine runs on another machine''
      else case la_host la of
        None \<Rightarrow> Inl (''routine target '' @ quoted (rr_remote run) @ '' is unavailable'')
      | Some host \<Rightarrow>
          let pid = (if rr_platform run = [] then default_platform w (rr_remote run) else rr_platform run);
              owner = fst (split_platform_id pid); base = snd (split_platform_id pid);
              pid' = (if local_remote host then pid else compound_platform_id host base)
          in if owner \<noteq> [] \<and> owner \<noteq> host then Inl ''routine platform does not belong to target''
             else if pid' \<noteq> [] \<and> \<not> la_known la pid' then Inl (''routine platform '' @ quoted pid' @ '' is unavailable'')
             else case la_runtime la of Some e \<Rightarrow> Inl e | None \<Rightarrow> Inr pid')"

definition error_text :: "routine_error \<Rightarrow> string" where
  "error_text e =
     (case e of
        Routine_Not_Found \<Rightarrow> ''routine not found''
      | Run_Not_Found \<Rightarrow> ''routine run not found''
      | Run_Active \<Rightarrow> ''routine already has an active shared-session run''
      | Project_Error \<Rightarrow> ''routine requires a project; a fixed project cannot be overridden''
      | Name_Conflict \<Rightarrow> ''routine name already exists''
      | Validation \<Rightarrow> ''invalid routine''
      | Never_Fires \<Rightarrow> ''cron expression never fires''
      | Constraint \<Rightarrow> ''constraint failed''
      | Failed t \<Rightarrow> t)"

text \<open>The session of a run: a fresh one, in a worktree when the run asks for it, or the one it
  continues. On failure the tables are those the failed call left.\<close>

definition link_run :: "rdb \<Rightarrow> routine_run \<Rightarrow> string \<Rightarrow> string \<Rightarrow> bool \<Rightarrow> int \<Rightarrow> routine_error + rdb" where
  "link_run db run pid session bind now = link_routine_run db (rr_id run) pid session (unix_milli now) bind"

definition create_run_session ::
  "launch \<Rightarrow> rdb \<Rightarrow> routine_run \<Rightarrow> string \<Rightarrow> int \<Rightarrow> (string \<times> rdb) + (string \<times> rdb)" where
  "create_run_session la db run pid now =
     (case la_create la of
        Inl e \<Rightarrow> Inl (e, db)
      | Inr c \<Rightarrow>
          let bind = (rr_mode run = Mode_Reuse) in
          if \<not> rr_worktree run then
            if trim_space (cs_session c) = [] then Inl (''platform returned no session'', db)
            else (case link_run db run pid (cs_session c) bind now of
               Inl e \<Rightarrow> Inl (error_text e, db)
             | Inr db' \<Rightarrow> (case la_commit la of Some e \<Rightarrow> Inl (e, db') | None \<Rightarrow> Inr (cs_session c, db')))
          else if \<not> cs_fresh c \<or> cs_path c = [] \<or> cs_session c = []
          then Inl (''routine requires a freshly created worktree session'', db)
          else case set_run_worktree db (rr_id run) (cs_path c) of
            Inl e \<Rightarrow> Inl (error_text e, db)
          | Inr db1 \<Rightarrow>
              (case link_run db1 run pid (cs_session c) bind now of
                 Inl e \<Rightarrow> Inl (error_text e, db1)
               | Inr db2 \<Rightarrow> Inr (cs_session c, db2)))"

definition continue_session ::
  "launch \<Rightarrow> rdb \<Rightarrow> routine_run \<Rightarrow> string \<Rightarrow> int \<Rightarrow> (string \<times> rdb) + (string \<times> rdb)" where
  "continue_session la db run pid now =
     (if \<not> la_adapter la then Inl (''routine platform '' @ quoted pid @ '' is unavailable'', db)
      else case la_detail la of
        None \<Rightarrow> Inl (''routine session '' @ quoted (rr_target run) @ '' is unavailable'', db)
      | Some dir \<Rightarrow>
          if clean_path dir \<noteq> clean_path (rr_directory run)
          then Inl (''routine session '' @ quoted (rr_target run) @ '' does not belong to '' @ quoted (rr_directory run), db)
          else case link_run db run pid (rr_target run) False now of
            Inl e \<Rightarrow> Inl (''linking routine session: '' @ error_text e, db)
          | Inr db' \<Rightarrow> Inr (rr_target run, db'))"

definition prepare_session ::
  "world \<Rightarrow> launch \<Rightarrow> rdb \<Rightarrow> routine_run \<Rightarrow> int \<Rightarrow> (string \<times> rdb) + (string \<times> string \<times> rdb)" where
  "prepare_session w la db run now =
     (case route_run w la run of
        Inl e \<Rightarrow> Inl (e, db)
      | Inr pid \<Rightarrow>
          (case (if rr_target run = [] then create_run_session la db run pid now else continue_session la db run pid now) of
             Inl f \<Rightarrow> Inl f
           | Inr (session, db') \<Rightarrow> Inr (pid, session, db')))"

section \<open>Settlement\<close>

datatype session_status = St_Busy | St_Waiting | St_Done | St_Error | St_Interrupted | St_Limited

text \<open>What the removal of a run's worktree meets.\<close>

record worktree_view =
  wv_tree :: "session_status list"
  wv_host :: bool
  wv_platform :: bool
  wv_sessions :: "string + session_status list"
  wv_list :: "string + (string \<times> string) list"
  wv_remove :: "string option"

definition remove_listed :: "routine_run \<Rightarrow> worktree_view \<Rightarrow> (string \<times> string) list \<Rightarrow> string" where
  "remove_listed run v ws =
     (case find (\<lambda>w. clean_path (fst w) = clean_path (rr_worktree_path run)) ws of
        None \<Rightarrow> []
      | Some w \<Rightarrow>
          if snd w \<noteq> ''routine/'' @ rr_id run \<or> clean_path (rr_worktree_path run) = clean_path (rr_directory run)
          then ''Worktree retained: workspace identity changed.''
          else case wv_remove v of Some e \<Rightarrow> ''Worktree cleanup failed: '' @ e | None \<Rightarrow> [])"

definition cleanup_run_worktree :: "routine_run \<Rightarrow> worktree_view \<Rightarrow> string" where
  "cleanup_run_worktree run v =
     (if \<not> rr_worktree run \<or> \<not> rr_cleanup run \<or> rr_worktree_path run = [] then []
      else if \<exists>st \<in> set (wv_tree v). st = St_Busy \<or> st = St_Waiting \<or> st = St_Limited
      then ''Worktree retained: a child session still needs attention.''
      else if \<not> wv_platform v then ''Worktree retained: session platform is unavailable.''
      else case wv_sessions v of
        Inl e \<Rightarrow> ''Worktree retained: '' @ e
      | Inr sts \<Rightarrow>
          if \<exists>st \<in> set sts. st = St_Busy \<or> st = St_Waiting then ''Worktree retained: a session still needs attention.''
          else if \<not> wv_host v then ''Worktree cleanup failed: owning machine is unavailable.''
          else case wv_list v of
            Inl e \<Rightarrow> ''Worktree cleanup failed: '' @ e
          | Inr ws \<Rightarrow> remove_listed run v ws)"

text \<open>How the session of a running run looks to \<open>settleRunning\<close>.\<close>

datatype observation =
    Obs_No_Platform
  | Obs_Error bool
  | Obs_Gone
  | Obs_Session session_status int string worktree_view bool

text \<open>The outcome the settlement writes, if any: a state, an error and the reply. In
  \<open>Obs_Session\<close>, the time is that of the session's last write, and the flag says whether archiving
  the session works; a run whose session is to be archived waits until the session is quiet.\<close>

definition quiet_ms :: int where "quiet_ms = 5000"

definition settle_outcome ::
  "routine_run \<Rightarrow> observation \<Rightarrow> bool \<Rightarrow> int \<Rightarrow> (run_state \<times> string \<times> string) option" where
  "settle_outcome run ob recover now =
     (if rr_platform run = [] \<or> rr_session run = [] then
        (if recover then Some (Interrupted, ''dispatch interrupted before session linkage'', []) else None)
      else case ob of
        Obs_No_Platform \<Rightarrow> None
      | Obs_Error not_found \<Rightarrow>
          if recover \<or> not_found then Some (Interrupted, ''session is no longer available'', []) else None
      | Obs_Gone \<Rightarrow> Some (Interrupted, ''session is no longer available'', [])
      | Obs_Session st updated reply view archives \<Rightarrow>
          if st = St_Done \<or> st = St_Waiting then
            (if rr_cleanup run \<and> unix_milli now - updated < quiet_ms then None
             else if rr_archive run \<and> fst (split_platform_id (rr_platform run)) = [] \<and> unix_milli now - updated < quiet_ms then None
             else if rr_archive run \<and> \<not> archives then None
             else Some (Success, cleanup_run_worktree run view, reply))
          else if st = St_Error then Some (Failure, ''error'', reply)
          else if st = St_Interrupted then Some (Interrupted, ''interrupted'', [])
          else None)"

definition settle_run ::
  "world \<Rightarrow> rdb \<Rightarrow> routine_run \<Rightarrow> observation \<Rightarrow> bool \<Rightarrow> int \<Rightarrow> routine_error option \<times> rdb" where
  "settle_run w db run ob recover now =
     (case settle_outcome run ob recover now of
        None \<Rightarrow> (None, db)
      | Some (st, err, reply) \<Rightarrow>
          (case finish_service (w_cron w) db run st err reply now of Inl e \<Rightarrow> (Some e, db) | Inr db' \<Rightarrow> (None, db')))"

definition run_before :: "routine_run \<Rightarrow> routine_run \<Rightarrow> bool" where
  "run_before a b \<longleftrightarrow> rr_created a < rr_created b \<or> (rr_created a = rr_created b \<and> \<not> lexordp (<) (rr_id b) (rr_id a))"

fun insert_run :: "routine_run \<Rightarrow> routine_run list \<Rightarrow> routine_run list" where
  "insert_run r [] = [r]"
| "insert_run r (x # xs) = (if run_before r x then r # x # xs else x # insert_run r xs)"

definition list_running :: "rdb \<Rightarrow> routine_run list" where
  "list_running db = foldr insert_run (filter (\<lambda>r. rr_state r = Running) (runs db)) []"

text \<open>\<open>settleRunning\<close> goes through the runs that were running when it began; the answer says
  whether every settlement worked.\<close>

fun settle_all ::
  "world \<Rightarrow> rdb \<Rightarrow> routine_run list \<Rightarrow> (routine_run \<Rightarrow> observation) \<Rightarrow> bool \<Rightarrow> int \<Rightarrow> bool \<times> rdb" where
  "settle_all w db [] ob recover now = (True, db)"
| "settle_all w db (r # rs) ob recover now =
     (case settle_run w db r (ob r) recover now of
        (e, db') \<Rightarrow> (case settle_all w db' rs ob recover now of (ok, db'') \<Rightarrow> (e = None \<and> ok, db'')))"

definition settle_running :: "world \<Rightarrow> rdb \<Rightarrow> (routine_run \<Rightarrow> observation) \<Rightarrow> bool \<Rightarrow> int \<Rightarrow> bool \<times> rdb" where
  "settle_running w db ob recover now = settle_all w db (list_running db) ob recover now"

section \<open>The steps of a launch\<close>

abbreviation flight_of :: "string \<Rightarrow> flight \<Rightarrow> bool" where
  "flight_of i f \<equiv> rr_id (fl_run f) = i"

definition drop_flight :: "string \<Rightarrow> service \<Rightarrow> service" where
  "drop_flight i s = s\<lparr>sv_flights := filter (\<lambda>f. \<not> flight_of i f) (sv_flights s)\<rparr>"

definition new_run :: "string \<Rightarrow> string \<Rightarrow> trigger \<Rightarrow> int \<Rightarrow> int \<Rightarrow> routine_run" where
  "new_run i routine trig occurrence now =
     \<lparr>rr_id = i, rr_routine = routine, rr_version = 0, rr_name = [], rr_prompt = [], rr_directory = [], rr_remote = [],
      rr_agent = [], rr_model = [], rr_mode = Mode_New, rr_target = [], rr_worktree = False, rr_cleanup = False,
      rr_worktree_path = [], rr_trigger = trig, rr_platform = [], rr_session = [], rr_state = Running, rr_error = [],
      rr_occurrence = occurrence, rr_created = unix_milli now, rr_started = 0, rr_finished = 0, rr_archive = False,
      rr_notify = False\<rparr>"

text \<open>The claim: a claimed run starts a flight. The routine is the row as the caller read it.\<close>

definition claim_step ::
  "service \<Rightarrow> routine \<Rightarrow> int \<Rightarrow> trigger \<Rightarrow> string \<Rightarrow> string option \<Rightarrow> string \<Rightarrow> int \<Rightarrow>
   (routine_error + (routine_run \<times> bool)) \<times> service" where
  "claim_step s ro occurrence trig prompt project new now =
     (let target = (case project of None \<Rightarrow> None | Some d \<Rightarrow> Some (d, ro_remote ro)) in
      case claim_routine_run (sv_db s) (new_run new (ro_id ro) trig occurrence now) target of
        Inl e \<Rightarrow> (Inl e, s)
      | Inr (run, claimed, db') \<Rightarrow>
          (Inr (run, claimed),
           if claimed then s\<lparr>sv_db := db', sv_flights := sv_flights s @ [\<lparr>fl_run = run, fl_prompt = prompt, fl_stage = Claimed\<rparr>]\<rparr>
           else s))"

text \<open>A launch that fails settles its run.\<close>

definition fail_dispatch ::
  "world \<Rightarrow> service \<Rightarrow> routine_run \<Rightarrow> string \<Rightarrow> int \<Rightarrow> (routine_error + routine_run) \<times> service" where
  "fail_dispatch w s run cause now =
     (case finish_service (w_cron w) (sv_db s) run Failure cause [] now of
        Inl e \<Rightarrow> (Inl (Failed (''recording routine failure after '' @ cause)), drop_flight (rr_id run) s)
      | Inr db' \<Rightarrow> (get_routine_run db' (rr_id run), drop_flight (rr_id run) (s\<lparr>sv_db := db'\<rparr>)))"

text \<open>\<open>None\<close> means that the launch goes on.\<close>

definition launch_step ::
  "world \<Rightarrow> launch \<Rightarrow> service \<Rightarrow> flight \<Rightarrow> int \<Rightarrow> (routine_error + routine_run) option \<times> service" where
  "launch_step w la s f now =
     (let run = fl_run f in
      case prepare_session w la (sv_db s) run now of
        Inl (cause, db') \<Rightarrow> (case fail_dispatch w (s\<lparr>sv_db := db'\<rparr>) run cause now of (r, s') \<Rightarrow> (Some r, s'))
      | Inr (pid, session, db') \<Rightarrow>
          (None, s\<lparr>sv_db := db',
                   sv_flights := map (\<lambda>g. if flight_of (rr_id run) g then g\<lparr>fl_stage := Linked pid session\<rparr> else g) (sv_flights s)\<rparr>))"

definition send_step ::
  "world \<Rightarrow> service \<Rightarrow> flight \<Rightarrow> string \<Rightarrow> string option \<Rightarrow> int \<Rightarrow> (routine_error + routine_run) \<times> service" where
  "send_step w s f session err now =
     (let run = fl_run f; s1 = s\<lparr>sv_prompted := sv_prompted s @ [(rr_id run, session, fl_prompt f)]\<rparr> in
      case err of
        Some e \<Rightarrow> fail_dispatch w s1 run e now
      | None \<Rightarrow> (get_routine_run (sv_db s1) (rr_id run), drop_flight (rr_id run) s1))"

section \<open>The calls\<close>

text \<open>\<open>claimAndDispatchPrompt\<close>, when nothing comes between its steps.\<close>

definition claim_and_dispatch ::
  "world \<Rightarrow> launch \<Rightarrow> string option \<Rightarrow> service \<Rightarrow> routine \<Rightarrow> int \<Rightarrow> trigger \<Rightarrow> string \<Rightarrow> string option \<Rightarrow> string \<Rightarrow> int \<Rightarrow>
   (routine_error + routine_run) \<times> service" where
  "claim_and_dispatch w la send s ro occurrence trig prompt project new now =
     (case claim_step s ro occurrence trig prompt project new now of
        (Inl e, s1) \<Rightarrow> (Inl e, s1)
      | (Inr (run, claimed), s1) \<Rightarrow>
          if \<not> claimed then (Inr run, s1)
          else let f = \<lparr>fl_run = run, fl_prompt = prompt, fl_stage = Claimed\<rparr> in
            case launch_step w la s1 f now of
              (Some r, s2) \<Rightarrow> (r, s2)
            | (None, s2) \<Rightarrow>
                (case find (flight_of (rr_id run)) (sv_flights s2) of
                   Some f2 \<Rightarrow>
                     (case fl_stage f2 of
                        Linked pid session \<Rightarrow> send_step w s2 f2 session send now
                      | Claimed \<Rightarrow> (Inr run, s2))
                 | None \<Rightarrow> (Inr run, s2)))"

definition manual_occurrence :: "routine \<Rightarrow> int \<Rightarrow> int" where
  "manual_occurrence r now = (if ro_due r > 0 \<and> ro_due r \<le> unix_milli now then ro_due r else unix_milli now)"

text \<open>\<open>RunNow\<close> and \<open>RunNowInProject\<close>, \<open>RunWebhook\<close> and \<open>RunWebhookInProject\<close>, up to the claim.\<close>

definition run_now :: "projects_view \<Rightarrow> service \<Rightarrow> string \<Rightarrow> string \<Rightarrow> string \<Rightarrow> int \<Rightarrow>
    (routine_error + (routine_run \<times> bool)) \<times> service" where
  "run_now v s i project new now =
     (case get_routine (sv_db s) i of
        Inl e \<Rightarrow> (Inl e, s)
      | Inr r \<Rightarrow>
          if project = [] then claim_step s r (manual_occurrence r now) By_Hand (ro_prompt r) None new now
          else case launch_project v r project of
            Inl e \<Rightarrow> (Inl e, s)
          | Inr dir \<Rightarrow> claim_step s r (manual_occurrence r now) By_Hand (ro_prompt r) (Some dir) new now)"

definition webhook_prompt :: "routine \<Rightarrow> string \<Rightarrow> string" where
  "webhook_prompt r payload = ro_prompt r @ [newline, newline] @ payload"

definition run_webhook :: "projects_view \<Rightarrow> service \<Rightarrow> string \<Rightarrow> string \<Rightarrow> int \<Rightarrow> string option \<Rightarrow> string \<Rightarrow> int \<Rightarrow>
    (routine_error + (routine_run \<times> bool)) \<times> service" where
  "run_webhook v s i payload occurrence project new now =
     (case get_routine (sv_db s) i of
        Inl e \<Rightarrow> (Inl e, s)
      | Inr r \<Rightarrow>
          if ro_deleted r \<or> \<not> ro_enabled r then (Inl (Failed ''routine is disabled''), s)
          else case project of
            None \<Rightarrow> claim_step s r occurrence By_Webhook (webhook_prompt r payload) None new now
          | Some p \<Rightarrow>
              if \<not> local_remote (ro_remote r) then (Inl (Failed ''routine runs on another machine''), s)
              else case launch_project v r p of
                Inl e \<Rightarrow> (Inl e, s)
              | Inr dir \<Rightarrow> claim_step s r occurrence By_Webhook (webhook_prompt r payload) (Some dir) new now)"

text \<open>\<open>Tick\<close>: the running runs are settled, then every due routine is launched, until a launch
  fails. The worlds the launches meet are listed in their order.\<close>

record tick_world =
  tw_launch :: launch
  tw_send :: "string option"
  tw_new :: string

fun tick_launches :: "world \<Rightarrow> service \<Rightarrow> (routine \<times> tick_world) list \<Rightarrow> int \<Rightarrow> routine_error option \<times> service" where
  "tick_launches w s [] now = (None, s)"
| "tick_launches w s ((r, t) # rs) now =
     (case claim_and_dispatch w (tw_launch t) (tw_send t) s r (ro_due r) By_Schedule (ro_prompt r) None (tw_new t) now of
        (Inl e, s') \<Rightarrow> (Some e, s')
      | (Inr _, s') \<Rightarrow> tick_launches w s' rs now)"

definition tick :: "world \<Rightarrow> service \<Rightarrow> (routine_run \<Rightarrow> observation) \<Rightarrow> (routine \<Rightarrow> tick_world) \<Rightarrow> int \<Rightarrow> routine_error option \<times> service" where
  "tick w s ob tw now =
     (case settle_running w (sv_db s) ob False now of
        (ok, db') \<Rightarrow>
          if \<not> ok then (Some (Failed ''settling runs''), s\<lparr>sv_db := db'\<rparr>)
          else tick_launches w (s\<lparr>sv_db := db'\<rparr>) (map (\<lambda>r. (r, tw r)) (list_due_routines db' (unix_milli now))) now)"

definition recover_runs :: "world \<Rightarrow> service \<Rightarrow> (routine_run \<Rightarrow> observation) \<Rightarrow> int \<Rightarrow> service" where
  "recover_runs w s ob now =
     s\<lparr>sv_db := expire_overdue (snd (settle_running w (sv_db s) ob True now)) (unix_milli now)\<rparr>"

end
