(* ===== verification/Routine_Runs.thy ===== *)
theory Routine_Runs
  imports Routine_Launch
begin

text \<open>
  Every interleaving of the routine service: definitions edited, runs launched by hand, by the
  schedule and by webhooks, settled and interrupted by a crash. A run of the system is any
  sequence of the steps below. The lemmas show that runs stay unique per occurrence, that shared
  sessions are claimed by one run, that a settled run never changes and is announced once, and how
  a settled run moves the schedule on.
\<close>

section \<open>Steps\<close>

text \<open>\<open>Due\<close> carries the routine as the tick listed it, which may have changed since.\<close>

datatype event =
    Create input string
  | Update string input
  | Delete string
  | Run_Now projects_view string string string
  | Webhook projects_view string string int "string option" string
  | Due routine string
  | Launch_On string launch
  | Send_On string "string option"
  | Settle string observation bool
  | Expire
  | Crash

definition on_db :: "service \<Rightarrow> routine_error + ('a \<times> rdb) \<Rightarrow> service" where
  "on_db s r = (case r of Inl _ \<Rightarrow> s | Inr (_, db) \<Rightarrow> s\<lparr>sv_db := db\<rparr>)"

fun step :: "world \<Rightarrow> service \<Rightarrow> int \<Rightarrow> event \<Rightarrow> service" where
  "step w s now (Create i new) = on_db s (create_service w (sv_db s) i new now)"
| "step w s now (Update i inp) = on_db s (update_service w (sv_db s) i inp now)"
| "step w s now (Delete i) =
     (case soft_delete_routine (sv_db s) i (unix_milli now) of Inl _ \<Rightarrow> s | Inr db \<Rightarrow> s\<lparr>sv_db := db\<rparr>)"
| "step w s now (Run_Now v i project new) = snd (run_now v s i project new now)"
| "step w s now (Webhook v i payload occurrence project new) = snd (run_webhook v s i payload occurrence project new now)"
| "step w s now (Due seen new) = snd (claim_step s seen (ro_due seen) By_Schedule (ro_prompt seen) None new now)"
| "step w s now (Launch_On i la) =
     (case find (flight_of i) (sv_flights s) of
        None \<Rightarrow> s
      | Some f \<Rightarrow> if fl_stage f = Claimed then snd (launch_step w la s f now) else s)"
| "step w s now (Send_On i err) =
     (case find (flight_of i) (sv_flights s) of
        None \<Rightarrow> s
      | Some f \<Rightarrow> (case fl_stage f of Claimed \<Rightarrow> s | Linked pid session \<Rightarrow> snd (send_step w s f session err now)))"
| "step w s now (Settle i ob recover) =
     (case find (running_run i) (runs (sv_db s)) of
        None \<Rightarrow> s
      | Some run \<Rightarrow> s\<lparr>sv_db := snd (settle_run w (sv_db s) run ob recover now)\<rparr>)"
| "step w s now Expire = s\<lparr>sv_db := expire_overdue (sv_db s) (unix_milli now)\<rparr>"
| "step w s now Crash = s\<lparr>sv_flights := []\<rparr>"

definition empty_service :: service where
  "empty_service = \<lparr>sv_db = \<lparr>routines = [], runs = [], dispatches = [], notices = []\<rparr>, sv_flights = [], sv_prompted = []\<rparr>"

inductive service_run :: "world \<Rightarrow> service \<Rightarrow> bool" for w where
  start: "service_run w empty_service"
| next_step: "service_run w s \<Longrightarrow> service_run w (step w s now ev)"

section \<open>Runs\<close>

definition runs_ok :: "routine_run list \<Rightarrow> bool" where
  "runs_ok rs \<longleftrightarrow> distinct (map rr_id rs) \<and> (\<forall>a \<in> set rs. \<forall>b \<in> set rs. rr_id a \<noteq> rr_id b \<longrightarrow> \<not> clash a b)"

lemma clash_sym: "clash a b \<Longrightarrow> clash b a"
  unfolding clash_def by metis

lemma runs_ok_snoc:
  assumes "runs_ok rs" "\<not> (\<exists>r \<in> set rs. clash new r)"
  shows "runs_ok (rs @ [new])"
proof -
  have "rr_id new \<notin> set (map rr_id rs)" using assms(2) by (auto simp: clash_def)
  moreover have "\<not> clash a b" if "a \<in> set (rs @ [new])" "b \<in> set (rs @ [new])" "rr_id a \<noteq> rr_id b" for a b
    using that assms clash_sym unfolding runs_ok_def by auto
  ultimately show ?thesis using assms(1) unfolding runs_ok_def by auto
qed

text \<open>A change of rows that keeps their identity and gives up claims at most.\<close>

definition keeps_identity :: "(routine_run \<Rightarrow> routine_run) \<Rightarrow> bool" where
  "keeps_identity f \<longleftrightarrow>
     (\<forall>r. rr_id (f r) = rr_id r \<and> rr_routine (f r) = rr_routine r \<and> rr_occurrence (f r) = rr_occurrence r)"

lemma clash_mono:
  assumes "clash a' b'" "rr_id a' = rr_id a" "rr_id b' = rr_id b" "rr_routine a' = rr_routine a" "rr_routine b' = rr_routine b"
    "rr_occurrence a' = rr_occurrence a" "rr_occurrence b' = rr_occurrence b"
    "shared_claim a' = None \<or> shared_claim a' = shared_claim a" "shared_claim b' = None \<or> shared_claim b' = shared_claim b"
    "target_claim a' = None \<or> target_claim a' = target_claim a" "target_claim b' = None \<or> target_claim b' = target_claim b"
  shows "clash a b"
proof -
  consider "rr_id a' = rr_id b'" | "rr_routine a' = rr_routine b' \<and> rr_occurrence a' = rr_occurrence b'"
    | "shared_claim a' \<noteq> None \<and> shared_claim a' = shared_claim b'" | "target_claim a' \<noteq> None \<and> target_claim a' = target_claim b'"
    using assms(1) unfolding clash_def by blast
  then show ?thesis
  proof cases
    case 3
    then show ?thesis using assms(8,9) unfolding clash_def by metis
  next
    case 4
    then show ?thesis using assms(10,11) unfolding clash_def by metis
  qed (use assms in \<open>simp_all add: clash_def\<close>)
qed

lemma map_ids: "keeps_identity f \<Longrightarrow> map rr_id (map (\<lambda>r. if p r then f r else r) rs) = map rr_id rs"
  by (simp add: keeps_identity_def)

lemma runs_ok_map:
  assumes "runs_ok rs" "keeps_identity f"
    "\<And>r. p r \<Longrightarrow> shared_claim (f r) = None \<or> shared_claim (f r) = shared_claim r"
    "\<And>r. p r \<Longrightarrow> target_claim (f r) = None \<or> target_claim (f r) = target_claim r"
  shows "runs_ok (map (\<lambda>r. if p r then f r else r) rs)"
proof -
  let ?g = "\<lambda>r. if p r then f r else r"
  have i: "rr_id (?g r) = rr_id r" "rr_routine (?g r) = rr_routine r" "rr_occurrence (?g r) = rr_occurrence r" for r
    using assms(2) by (simp_all add: keeps_identity_def)
  have s: "shared_claim (?g r) = None \<or> shared_claim (?g r) = shared_claim r"
    "target_claim (?g r) = None \<or> target_claim (?g r) = target_claim r" for r using assms(3,4) by auto
  have c: "clash a b" if cl: "clash (?g a) (?g b)" for a b
    by (rule clash_mono[OF cl i(1) i(1) i(2) i(2) i(3) i(3) s(1) s(1) s(2) s(2)])
  have "\<not> clash a' b'" if ab: "a' \<in> set (map ?g rs)" "b' \<in> set (map ?g rs)" "rr_id a' \<noteq> rr_id b'" for a' b'
  proof -
    obtain a b where g: "a' = ?g a" "a \<in> set rs" "b' = ?g b" "b \<in> set rs" using ab(1,2) unfolding set_map by blast
    have "rr_id a \<noteq> rr_id b" using ab(3) unfolding g(1,3) i(1) .
    then have "\<not> clash a b" using assms(1) g(2,4) unfolding runs_ok_def by blast
    then show ?thesis using c unfolding g(1,3) by blast
  qed
  moreover have "distinct (map rr_id (map ?g rs))" unfolding map_ids[OF assms(2)] using assms(1) by (simp add: runs_ok_def)
  ultimately show ?thesis unfolding runs_ok_def by blast
qed

lemma runs_ok_finish: "runs_ok rs \<Longrightarrow> st \<noteq> Running \<Longrightarrow> runs_ok (map (\<lambda>r. if p r then finished_run st e t r else r) rs)"
  by (rule runs_ok_map) (auto simp: keeps_identity_def finished_run_def shared_claim_def target_claim_def)

lemma runs_ok_worktree: "runs_ok rs \<Longrightarrow> runs_ok (map (\<lambda>r. if p r then r\<lparr>rr_worktree_path := x\<rparr> else r) rs)"
  by (rule runs_ok_map) (auto simp: keeps_identity_def shared_claim_def target_claim_def)

lemma same_id_same_row: "runs_ok rs \<Longrightarrow> a \<in> set rs \<Longrightarrow> b \<in> set rs \<Longrightarrow> rr_id a = rr_id b \<Longrightarrow> a = b"
  unfolding runs_ok_def by (metis distinct_map inj_onD)

lemma runs_map_routines [simp]: "runs (map_routines p f db) = runs db"
  by (simp add: map_routines_def)

lemma runs_settle_routine [simp]: "runs (settle_routine run st t n e a db) = runs db"
  by (simp add: settle_routine_def)

lemma runs_bind [simp]: "runs (bind_session i s db) = runs db"
  by (simp add: bind_session_def split: option.split)

lemma runs_link:
  assumes "link_routine_run db i pid session t bind = Inr db'"
  shows "runs db' = map (\<lambda>r. if running_run i r then linked pid session t r else r) (runs db)"
    and "\<exists>r \<in> set (runs db). running_run i r"
    and "\<And>r q. r \<in> set (runs db') \<Longrightarrow> q \<in> set (runs db') \<Longrightarrow> running_run i r \<Longrightarrow> rr_id q \<noteq> i \<Longrightarrow>
       target_claim r = None \<or> target_claim r \<noteq> target_claim q"
proof -
  let ?m = "map_runs (running_run i) (linked pid session t) (if bind then bind_session i session db else db)"
  define m where "m = ?m"
  have no: "\<exists>r \<in> set (runs db). running_run i r" "\<not> session_conflict m i" and m: "db' = m"
    using assms unfolding link_routine_run_def Let_def m_def[symmetric] by (auto split: if_split_asm)
  show "runs db' = map (\<lambda>r. if running_run i r then linked pid session t r else r) (runs db)"
    unfolding m m_def by (simp add: map_runs_def)
  show "\<exists>r \<in> set (runs db). running_run i r" by (rule no(1))
  show "target_claim r = None \<or> target_claim r \<noteq> target_claim q"
    if "r \<in> set (runs db')" "q \<in> set (runs db')" "running_run i r" "rr_id q \<noteq> i" for r q
    using no(2) that unfolding m session_conflict_def by blast
qed

lemma runs_ok_link:
  assumes "runs_ok (runs db)" "link_routine_run db i pid session t bind = Inr db'"
  shows "runs_ok (runs db')"
proof -
  let ?g = "\<lambda>r. if running_run i r then linked pid session t r else r"
  note l = runs_link[OF assms(2)]
  have i: "rr_id (?g r) = rr_id r" "rr_routine (?g r) = rr_routine r" "rr_occurrence (?g r) = rr_occurrence r"
    "shared_claim (?g r) = shared_claim r" for r by (simp_all add: linked_def shared_claim_def)
  have u: "target_claim (?g r) = target_claim r" if "\<not> running_run i r" for r using that by (simp only: if_False)
  have st: "rr_state (?g r) = rr_state r" for r by (simp add: linked_def)
  have one: "\<not> clash a' b'" if ab: "a' \<in> set (runs db')" "b' \<in> set (runs db')" "rr_id a' \<noteq> rr_id b'" "rr_id b' \<noteq> i" for a' b'
  proof
    assume c: "clash a' b'"
    obtain a b where a: "a' = ?g a" "a \<in> set (runs db)" and b: "b' = ?g b" "b \<in> set (runs db)"
      using ab(1,2) unfolding l(1) set_map by blast
    have n: "\<not> clash a b" using assms(1) a(2) b(2) ab(3) unfolding runs_ok_def a(1) b(1) i by blast
    have bi: "rr_id b \<noteq> i" using ab(4) unfolding b(1) i .
    then have tb: "target_claim b' = target_claim b" using u[of b] b(1) by blast
    have t: "target_claim a' \<noteq> None" "target_claim a' = target_claim b'"
      using c n ab(3) unfolding clash_def a(1) b(1) i by auto
    show False
    proof (cases "running_run i a")
      case True
      then have "running_run i a'" unfolding a(1) i st by simp
      then show False using l(3)[OF ab(1,2)] ab(4) t by blast
    next
      case False
      then have "target_claim a' = target_claim a" using u[of a] a(1) by blast
      then show False using t tb n unfolding clash_def by simp
    qed
  qed
  have "\<not> clash a b" if "a \<in> set (runs db')" "b \<in> set (runs db')" "rr_id a \<noteq> rr_id b" for a b
  proof (cases "rr_id b = i")
    case True
    then show ?thesis using one[OF that(2,1)] that(3) clash_sym by metis
  next
    case False
    then show ?thesis using one[OF that] by blast
  qed
  moreover have "map rr_id (runs db') = map rr_id (runs db)" unfolding l(1) by (simp add: linked_def)
  ultimately show ?thesis using assms(1) unfolding runs_ok_def by metis
qed

section \<open>How the tables evolve\<close>

text \<open>The part of a run that its claim fixes.\<close>

definition frozen :: "routine_run \<Rightarrow> routine_run" where
  "frozen r = r\<lparr>rr_worktree_path := [], rr_platform := [], rr_session := [], rr_state := Running, rr_error := [],
                rr_started := 0, rr_finished := 0\<rparr>"

definition run_later :: "routine_run \<Rightarrow> routine_run \<Rightarrow> bool" where
  "run_later r r' \<longleftrightarrow> frozen r' = frozen r \<and> (rr_state r \<noteq> Running \<longrightarrow> r' = r) \<and>
     (rr_session r \<noteq> [] \<longrightarrow> rr_session r' = rr_session r \<and> rr_platform r' = rr_platform r)"

definition news :: "routine_run \<Rightarrow> bool" where
  "news r \<longleftrightarrow> rr_state r \<noteq> Running \<and> (rr_state r \<noteq> Success \<or> rr_notify r)"

definition announcements :: "rdb \<Rightarrow> string \<Rightarrow> nat" where
  "announcements db i = length (filter (\<lambda>n. no_id n = ''routine-'' @ i) (notices db))"

definition announced_ok :: "rdb \<Rightarrow> bool" where
  "announced_ok db \<longleftrightarrow> (\<forall>i. announcements db i = (if \<exists>r \<in> set (runs db). rr_id r = i \<and> news r then 1 else 0))"

definition db_later :: "rdb \<Rightarrow> rdb \<Rightarrow> bool" where
  "db_later db db' \<longleftrightarrow> list_all2 run_later (runs db) (take (length (runs db)) (runs db')) \<and>
     (\<exists>ns. notices db' = notices db @ ns)"

definition db_ok :: "rdb \<Rightarrow> bool" where
  "db_ok db \<longleftrightarrow> runs_ok (runs db) \<and> announced_ok db"

text \<open>A change of the tables that keeps the invariant, moves runs forward and adds none.\<close>

definition good_change :: "rdb \<Rightarrow> rdb \<Rightarrow> bool" where
  "good_change db db' \<longleftrightarrow> db_ok db' \<and> db_later db db' \<and> length (runs db') = length (runs db)"

lemma frozen_eq:
  assumes "frozen r' = frozen r"
  shows "rr_id r' = rr_id r" "rr_routine r' = rr_routine r" "rr_occurrence r' = rr_occurrence r" "rr_target r' = rr_target r"
    "rr_notify r' = rr_notify r" "rr_name r' = rr_name r" "rr_mode r' = rr_mode r" "rr_remote r' = rr_remote r"
    "rr_version r' = rr_version r" "rr_trigger r' = rr_trigger r" "rr_directory r' = rr_directory r"
  using arg_cong[OF assms, of rr_id] arg_cong[OF assms, of rr_routine] arg_cong[OF assms, of rr_occurrence]
    arg_cong[OF assms, of rr_target] arg_cong[OF assms, of rr_notify] arg_cong[OF assms, of rr_name]
    arg_cong[OF assms, of rr_mode] arg_cong[OF assms, of rr_remote] arg_cong[OF assms, of rr_version]
    arg_cong[OF assms, of rr_trigger] arg_cong[OF assms, of rr_directory]
  by (simp_all add: frozen_def)

lemma run_later_refl [simp]: "run_later r r"
  by (simp add: run_later_def)

lemma run_later_trans: "run_later a b \<Longrightarrow> run_later b c \<Longrightarrow> run_later a c"
  unfolding run_later_def by (metis (no_types))

lemma later_list_trans: "list_all2 run_later xs ys \<Longrightarrow> list_all2 run_later ys zs \<Longrightarrow> list_all2 run_later xs zs"
  by (rule list_all2_trans[of run_later run_later run_later]) (rule run_later_trans)

lemma db_later_refl [simp]: "db_later db db"
  by (simp add: db_later_def list.rel_refl)

lemma db_later_length: "db_later db db' \<Longrightarrow> length (runs db) \<le> length (runs db')"
  unfolding db_later_def by (auto dest: list_all2_lengthD)

lemma db_later_trans:
  assumes "db_later a b" "db_later b c"
  shows "db_later a c"
proof -
  let ?n = "length (runs a)"
  have n: "?n \<le> length (runs b)" "length (runs b) \<le> length (runs c)" using db_later_length assms by blast+
  have "list_all2 run_later (take ?n (runs b)) (take ?n (take (length (runs b)) (runs c)))"
    using assms(2) unfolding db_later_def by (blast intro: list_all2_takeI)
  then have "list_all2 run_later (take ?n (runs b)) (take ?n (runs c))" using n by (simp add: min_absorb1)
  moreover have "list_all2 run_later (runs a) (take ?n (runs b))" using assms(1) by (simp add: db_later_def)
  ultimately have "list_all2 run_later (runs a) (take ?n (runs c))"
    using later_list_trans by blast
  then show ?thesis using assms unfolding db_later_def by auto
qed

lemma db_later_row:
  assumes "db_later db db'" "r \<in> set (runs db)"
  shows "\<exists>r' \<in> set (runs db'). run_later r r'"
proof -
  obtain k where k: "k < length (runs db)" "runs db ! k = r" using assms(2) by (auto simp: in_set_conv_nth)
  have l: "length (runs db) \<le> length (runs db')" by (rule db_later_length[OF assms(1)])
  have "run_later r (take (length (runs db)) (runs db') ! k)"
    using assms(1) k unfolding db_later_def by (auto dest: list_all2_nthD)
  then show ?thesis using k l by (intro bexI[of _ "runs db' ! k"]) auto
qed

lemma good_change_refl: "db_ok db \<Longrightarrow> good_change db db"
  by (simp add: good_change_def)

lemma good_change_trans: "good_change a b \<Longrightarrow> good_change b c \<Longrightarrow> good_change a c"
  unfolding good_change_def using db_later_trans by metis

lemma good_change_routines:
  "db_ok db \<Longrightarrow> runs db' = runs db \<Longrightarrow> notices db' = notices db \<Longrightarrow> good_change db db'"
  by (simp add: good_change_def db_ok_def announced_ok_def announcements_def db_later_def list.rel_refl)

lemma notices_map_routines [simp]: "notices (map_routines p f db) = notices db"
  by (simp add: map_routines_def)

lemma notices_bind [simp]: "notices (bind_session i s db) = notices db"
  by (simp add: bind_session_def split: option.split)

text \<open>A change of one running row that neither settles it nor loses its session.\<close>

lemma good_change_running:
  assumes ok: "db_ok db" and rs: "runs db' = map (\<lambda>r. if running_run i r then f r else r) (runs db)" and n: "notices db' = notices db"
    and okr: "runs_ok (runs db')"
    and f: "\<And>r. r \<in> set (runs db) \<Longrightarrow> running_run i r \<Longrightarrow> frozen (f r) = frozen r \<and> rr_state (f r) = Running \<and>
              (rr_session r \<noteq> [] \<longrightarrow> rr_session (f r) = rr_session r \<and> rr_platform (f r) = rr_platform r)"
  shows "good_change db db'"
proof -
  let ?g = "\<lambda>r. if running_run i r then f r else r"
  have g: "run_later r (?g r) \<and> rr_id (?g r) = rr_id r \<and> news (?g r) = news r" if "r \<in> set (runs db)" for r
    using f[OF that] frozen_eq(1)[of "f r" r] by (auto simp: run_later_def news_def)
  have "list_all2 run_later (runs db) (runs db')" unfolding rs by (simp add: list_all2_conv_all_nth g)
  then have "db_later db db'" using n rs by (simp add: db_later_def)
  moreover have "(\<exists>r \<in> set (runs db'). rr_id r = j \<and> news r) = (\<exists>r \<in> set (runs db). rr_id r = j \<and> news r)" for j
    unfolding rs set_map bex_simps(7) by (intro bex_cong refl) (simp only: g)
  then have "announced_ok db'" using ok n by (simp add: db_ok_def announced_ok_def announcements_def)
  ultimately show ?thesis using okr rs by (simp add: good_change_def db_ok_def)
qed

lemma good_change_worktree:
  assumes "db_ok db" "set_run_worktree db i path = Inr db'"
  shows "good_change db db'"
proof -
  let ?p = "\<lambda>r. running_run i r \<and> rr_worktree r"
  have d: "db' = map_runs ?p (\<lambda>r. r\<lparr>rr_worktree_path := path\<rparr>) db"
    using assms(2) by (simp add: set_run_worktree_def Let_def split: if_split_asm)
  have r: "runs db' = map (\<lambda>r. if running_run i r then (if rr_worktree r then r\<lparr>rr_worktree_path := path\<rparr> else r) else r) (runs db)"
    unfolding d by (auto simp: map_runs_def)
  have "runs_ok (runs db')" using runs_ok_worktree[of "runs db" ?p path] assms(1) by (simp add: d map_runs_def db_ok_def)
  then show ?thesis
    by (intro good_change_running[OF assms(1) r]) (simp_all add: d map_runs_def frozen_def)
qed

lemma good_change_link:
  assumes "db_ok db" "link_routine_run db i pid session t bind = Inr db'" "\<And>r. r \<in> set (runs db) \<Longrightarrow> rr_id r = i \<Longrightarrow> rr_session r = []"
  shows "good_change db db'"
proof -
  have n: "notices db' = notices db"
    using assms(2) by (auto simp: link_routine_run_def Let_def map_runs_def split: if_split_asm)
  have "runs_ok (runs db')" using runs_ok_link[OF _ assms(2)] assms(1) by (simp add: db_ok_def)
  then show ?thesis
    by (intro good_change_running[OF assms(1) runs_link(1)[OF assms(2)] n]) (auto simp: linked_def frozen_def assms(3))
qed

lemma notice_id_inj: "''routine-'' @ i = ''routine-'' @ j \<longleftrightarrow> i = j"
  by (rule same_append_eq)

lemma good_change_finish:
  assumes ok: "db_ok db" and st: "st \<noteq> Running" and fin: "finish_routine_run db i st err reply t next en adv = Inr (b, db')"
  shows "good_change db db'"
proof (cases "find (running_run i) (runs db)")
  case None
  then show ?thesis using fin good_change_refl[OF ok] by (simp add: finish_routine_run_def)
next
  case (Some run)
  let ?g = "\<lambda>r. if running_run i r then finished_run st err t r else r"
  let ?n = "run_notice run st err reply t"
  have run: "run \<in> set (runs db)" "running_run i run" using Some by (auto simp: find_Some_iff)
  have rs: "runs db' = map ?g (runs db)"
    using fin Some by (auto simp: finish_routine_run_def Let_def map_runs_def split: if_split_asm)
  have ns: "notices db' = notices db @ (if st = Success \<and> \<not> rr_notify run then [] else [?n])"
    using fin Some by (auto simp: finish_routine_run_def Let_def map_runs_def settle_routine_def split: if_split_asm)
  have only: "r = run" if "r \<in> set (runs db)" "rr_id r = i" for r
    using same_id_same_row[of "runs db" r run] ok run that by (simp add: db_ok_def)
  have "list_all2 run_later (runs db) (runs db')"
    unfolding rs by (auto simp: list_all2_conv_all_nth run_later_def frozen_def finished_run_def)
  then have later: "db_later db db'" using ns rs by (simp add: db_later_def)
  have "runs_ok (runs db')" unfolding rs using ok by (intro runs_ok_finish st) (simp add: db_ok_def)
  moreover have "announced_ok db'" unfolding announced_ok_def
  proof
    fix j
    have id: "rr_id (?g r) = rr_id r" for r by (simp add: finished_run_def)
    have bex: "(\<exists>r \<in> set (runs db'). rr_id r = j \<and> news r) = (\<exists>r \<in> set (runs db). rr_id r = j \<and> news (?g r))"
      unfolding rs set_map bex_simps(7) id by simp
    have before: "announcements db j = (if \<exists>r \<in> set (runs db). rr_id r = j \<and> news r then 1 else 0)"
      using ok by (simp add: db_ok_def announced_ok_def)
    have added: "announcements db' j = announcements db j + (if j = i \<and> \<not> (st = Success \<and> \<not> rr_notify run) then 1 else 0)"
      using ns run(2) by (auto simp: announcements_def run_notice_def)
    show "announcements db' j = (if \<exists>r \<in> set (runs db'). rr_id r = j \<and> news r then 1 else 0)"
    proof (cases "j = i")
      case True
      have z: "\<not> (\<exists>r \<in> set (runs db). rr_id r = j \<and> news r)" using only run(2) True by (auto simp: news_def)
      have gr: "?g run = finished_run st err t run" using run(2) by simp
      have "(\<exists>r \<in> set (runs db). rr_id r = j \<and> news (?g r)) = news (?g run)"
      proof
        assume "\<exists>r \<in> set (runs db). rr_id r = j \<and> news (?g r)"
        then obtain r where r: "r \<in> set (runs db)" "rr_id r = j" "news (?g r)" by blast
        then show "news (?g run)" using only[OF r(1)] True by blast
      next
        assume "news (?g run)"
        then show "\<exists>r \<in> set (runs db). rr_id r = j \<and> news (?g r)" using run True by blast
      qed
      then have "(\<exists>r \<in> set (runs db). rr_id r = j \<and> news (?g r)) = news (finished_run st err t run)" unfolding gr .
      also have "news (finished_run st err t run) = (\<not> (st = Success \<and> \<not> rr_notify run))"
        using st by (auto simp: news_def finished_run_def)
      finally show ?thesis using added before z True unfolding bex by simp
    next
      case False
      have "(\<exists>r \<in> set (runs db). rr_id r = j \<and> news (?g r)) = (\<exists>r \<in> set (runs db). rr_id r = j \<and> news r)"
        using False by (intro bex_cong refl) auto
      then show ?thesis using added before False unfolding bex by simp
    qed
  qed
  ultimately show ?thesis using later rs by (simp add: good_change_def db_ok_def)
qed

lemma good_change_finish_service:
  assumes "db_ok db" "st \<noteq> Running" "finish_service lib db run st err reply now = Inr db'"
  shows "good_change db db'"
  using assms good_change_finish[OF assms(1,2)]
  by (auto simp: finish_service_def split: sum.split_asm if_split_asm)

lemma settle_outcome_state: "settle_outcome run ob recover now = Some (st, err, reply) \<Longrightarrow> st \<noteq> Running"
  by (auto simp: settle_outcome_def split: observation.split_asm if_split_asm)

lemma good_change_settle:
  assumes "db_ok db"
  shows "good_change db (snd (settle_run w db run ob recover now))"
proof (cases "settle_outcome run ob recover now")
  case None
  then show ?thesis using good_change_refl[OF assms] by (simp add: settle_run_def)
next
  case (Some oc)
  then obtain st err reply where oc: "settle_outcome run ob recover now = Some (st, err, reply)" by (cases oc) auto
  then show ?thesis
    using good_change_finish_service[OF assms settle_outcome_state[OF oc]] good_change_refl[OF assms]
    by (auto simp: settle_run_def split: sum.split)
qed

lemma good_change_settle_all:
  "db_ok db \<Longrightarrow> good_change db (snd (settle_all w db rs ob recover now))"
proof (induction rs arbitrary: db)
  case Nil
  then show ?case by (simp add: good_change_refl)
next
  case (Cons r rs)
  let ?db = "snd (settle_run w db r (ob r) recover now)"
  have 1: "good_change db ?db" by (rule good_change_settle[OF Cons.prems])
  then have "good_change ?db (snd (settle_all w ?db rs ob recover now))"
    by (intro Cons.IH) (simp add: good_change_def)
  from good_change_trans[OF 1 this] show ?case by (simp add: split_def)
qed

text \<open>Operations on definitions leave the runs alone.\<close>

lemma create_service_runs: "create_service w db i new now = Inr (r, db') \<Longrightarrow> runs db' = runs db \<and> notices db' = notices db"
  by (auto simp: create_service_def create_routine_def Let_def split: sum.split_asm if_split_asm)

lemma update_service_runs: "update_service w db i inp now = Inr (r, db') \<Longrightarrow> runs db' = runs db \<and> notices db' = notices db"
  by (auto simp: update_service_def update_routine_def Let_def split: sum.split_asm if_split_asm)

lemma soft_delete_runs: "soft_delete_routine db i now = Inr db' \<Longrightarrow> runs db' = runs db \<and> notices db' = notices db"
  by (auto simp: soft_delete_routine_def cancel_dispatches_def Let_def split: if_split_asm)

lemma expire_runs [simp]: "runs (expire_overdue db now) = runs db" "notices (expire_overdue db now) = notices db"
  by (simp_all add: expire_overdue_def)

section \<open>The claim\<close>

lemma claim_new:
  assumes "claim_routine_run db run target = Inr (r, True, db')"
  shows "runs db' = runs db @ [r]" "notices db' = notices db" "\<not> (\<exists>x \<in> set (runs db). clash r x)"
    "rr_id r = rr_id run" "rr_routine r = rr_routine run" "rr_occurrence r = rr_occurrence run" "rr_trigger r = rr_trigger run"
    "rr_state r = rr_state run" "rr_session r = rr_session run" "0 < rr_occurrence r"
    "\<exists>ro. find (\<lambda>x. ro_id x = rr_routine run \<and> \<not> ro_deleted x) (routines db) = Some ro \<and> rr_prompt r = ro_prompt ro \<and> rr_version r = ro_updated ro"
  using assms
  by (auto simp: claim_routine_run_def Let_def snapshot_def split: option.split_asm if_split_asm)

lemma claim_old:
  assumes "claim_routine_run db run target = Inr (r, False, db')"
  shows "db' = db" "r \<in> set (runs db)" "rr_routine r = rr_routine run" "rr_occurrence r = rr_occurrence run"
  using assms
  by (auto simp: claim_routine_run_def Let_def find_Some_iff split: option.split_asm if_split_asm)

lemma claim_keeps:
  assumes ok: "db_ok db" and c: "claim_routine_run db run target = Inr (r, True, db')" and st: "rr_state run = Running"
  shows "db_ok db' \<and> db_later db db'"
proof -
  note n = claim_new[OF c]
  have "announced_ok db'" using ok n(1,2) st n(8)
    by (auto simp: db_ok_def announced_ok_def announcements_def news_def)
  moreover have "runs_ok (runs db')" using ok n(1,3) runs_ok_snoc by (simp add: db_ok_def)
  ultimately show ?thesis using n(1,2) by (simp add: db_ok_def db_later_def list.rel_refl)
qed

section \<open>Flights\<close>

text \<open>Outside the ids \<open>X\<close> no row gets another session.\<close>

definition sessions_kept :: "string set \<Rightarrow> rdb \<Rightarrow> rdb \<Rightarrow> bool" where
  "sessions_kept X db db' \<longleftrightarrow>
     (\<forall>r \<in> set (runs db'). rr_id r \<notin> X \<longrightarrow>
        (\<exists>q \<in> set (runs db). rr_id q = rr_id r \<and> rr_session q = rr_session r))"

definition flight_ok :: "rdb \<Rightarrow> flight \<Rightarrow> bool" where
  "flight_ok db f \<longleftrightarrow>
     (\<exists>r \<in> set (runs db). frozen r = frozen (fl_run f) \<and>
        (case fl_stage f of
           Claimed \<Rightarrow> rr_session r = []
         | Linked pid session \<Rightarrow> session \<noteq> [] \<and> rr_session r = session \<and> rr_platform r = pid))"

definition prompt_ok :: "rdb \<Rightarrow> string \<times> string \<times> string \<Rightarrow> bool" where
  "prompt_ok db p \<longleftrightarrow> (\<exists>r \<in> set (runs db). rr_id r = fst p \<and> rr_session r = fst (snd p) \<and> fst (snd p) \<noteq> [])"

abbreviation flight_id :: "flight \<Rightarrow> string" where
  "flight_id f \<equiv> rr_id (fl_run f)"

definition service_ok :: "service \<Rightarrow> bool" where
  "service_ok s \<longleftrightarrow>
     db_ok (sv_db s) \<and> distinct (map flight_id (sv_flights s)) \<and> distinct (map fst (sv_prompted s)) \<and>
     (\<forall>f \<in> set (sv_flights s). flight_ok (sv_db s) f \<and> flight_id f \<notin> fst ` set (sv_prompted s)) \<and>
     (\<forall>p \<in> set (sv_prompted s). prompt_ok (sv_db s) p)"

lemma sessions_kept_refl [simp]: "sessions_kept X db db"
  by (auto simp: sessions_kept_def)

lemma sessions_kept_same: "runs db' = runs db \<Longrightarrow> sessions_kept X db db'"
  by (auto simp: sessions_kept_def)

lemma sessions_kept_trans: "sessions_kept X a b \<Longrightarrow> sessions_kept X b c \<Longrightarrow> sessions_kept X a c"
  unfolding sessions_kept_def by metis

lemma sessions_kept_map:
  assumes "runs db' = map g (runs db)" "\<And>r. rr_id (g r) = rr_id r" "\<And>r. rr_id r \<notin> X \<Longrightarrow> rr_session (g r) = rr_session r"
  shows "sessions_kept X db db'"
  unfolding sessions_kept_def assms(1) set_map using assms(2,3) by auto

lemma sessions_kept_finish: "finish_routine_run db i st err reply t next en adv = Inr (b, db') \<Longrightarrow> sessions_kept X db db'"
proof (cases "find (running_run i) (runs db)")
  case (Some run)
  assume "finish_routine_run db i st err reply t next en adv = Inr (b, db')"
  then have "runs db' = map (\<lambda>r. if running_run i r then finished_run st err t r else r) (runs db)"
    using Some by (auto simp: finish_routine_run_def Let_def map_runs_def split: if_split_asm)
  then show ?thesis by (rule sessions_kept_map) (simp_all add: finished_run_def)
qed (simp add: finish_routine_run_def)

lemma sessions_kept_finish_service: "finish_service lib db run st err reply now = Inr db' \<Longrightarrow> sessions_kept X db db'"
  by (auto simp: finish_service_def dest: sessions_kept_finish split: sum.split_asm if_split_asm)

lemma sessions_kept_settle: "sessions_kept X db (snd (settle_run w db run ob recover now))"
  by (auto simp: settle_run_def dest: sessions_kept_finish_service split: option.split sum.split)

lemma sessions_kept_link:
  "link_routine_run db i pid session t bind = Inr db' \<Longrightarrow> sessions_kept {i} db db'"
  by (rule sessions_kept_map[OF runs_link(1)]) (auto simp: linked_def)

lemma sessions_kept_worktree: "set_run_worktree db i path = Inr db' \<Longrightarrow> sessions_kept X db db'"
  by (rule sessions_kept_map[of _ "\<lambda>r. if running_run i r \<and> rr_worktree r then r\<lparr>rr_worktree_path := path\<rparr> else r"])
    (auto simp: set_run_worktree_def map_runs_def Let_def split: if_split_asm)

lemma flight_row_id: "flight_ok db f \<Longrightarrow> \<exists>r \<in> set (runs db). rr_id r = flight_id f"
  unfolding flight_ok_def using frozen_eq(1) by blast

lemma flight_stays:
  assumes "db_ok db" "db_later db db'" "sessions_kept X db db'" "flight_ok db f" "flight_id f \<notin> X"
  shows "flight_ok db' f"
proof -
  obtain r where r: "r \<in> set (runs db)" "frozen r = frozen (fl_run f)"
    "case fl_stage f of Claimed \<Rightarrow> rr_session r = []
     | Linked pid session \<Rightarrow> session \<noteq> [] \<and> rr_session r = session \<and> rr_platform r = pid"
    using assms(4) by (auto simp: flight_ok_def)
  obtain r' where r': "r' \<in> set (runs db')" "run_later r r'" using db_later_row[OF assms(2) r(1)] by blast
  have fr: "frozen r' = frozen r" using r'(2) by (simp add: run_later_def)
  have "case fl_stage f of Claimed \<Rightarrow> rr_session r' = []
     | Linked pid session \<Rightarrow> session \<noteq> [] \<and> rr_session r' = session \<and> rr_platform r' = pid"
  proof (cases "fl_stage f")
    case Claimed
    have "rr_id r' \<notin> X" using assms(5) frozen_eq(1)[OF fr] frozen_eq(1)[OF r(2)] by simp
    then obtain q where q: "q \<in> set (runs db)" "rr_id q = rr_id r'" "rr_session q = rr_session r'"
      using assms(3) r'(1) by (auto simp: sessions_kept_def)
    then have "q = r" using same_id_same_row[of "runs db" q r] r(1) assms(1) frozen_eq(1)[OF fr] by (simp add: db_ok_def)
    then show ?thesis using q(3) r(3) Claimed by simp
  next
    case (Linked pid session)
    then show ?thesis using r(3) r'(2) by (auto simp: run_later_def)
  qed
  then show ?thesis using r'(1) fr r(2) by (auto simp: flight_ok_def)
qed

lemma prompt_stays: "db_later db db' \<Longrightarrow> prompt_ok db p \<Longrightarrow> prompt_ok db' p"
proof -
  assume l: "db_later db db'" and "prompt_ok db p"
  then obtain r where r: "r \<in> set (runs db)" "rr_id r = fst p" "rr_session r = fst (snd p)" "fst (snd p) \<noteq> []"
    by (auto simp: prompt_ok_def)
  obtain r' where r': "r' \<in> set (runs db')" "run_later r r'" using db_later_row[OF l r(1)] by blast
  then show ?thesis using r frozen_eq(1)[of r' r] by (auto simp: prompt_ok_def run_later_def)
qed

text \<open>A change of the tables alone, by any operation but a link.\<close>

lemma service_db:
  assumes ok: "service_ok s" and db: "good_change (sv_db s) db'" and k: "sessions_kept {} (sv_db s) db'"
  shows "service_ok (s\<lparr>sv_db := db'\<rparr>)"
proof -
  have d: "db_ok (sv_db s)" "db_later (sv_db s) db'" using ok db by (simp_all add: service_ok_def good_change_def)
  have "flight_ok db' f" if "f \<in> set (sv_flights s)" for f
    using flight_stays[OF d k] that ok by (simp add: service_ok_def)
  moreover have "prompt_ok db' p" if "p \<in> set (sv_prompted s)" for p
    using prompt_stays[OF d(2)] that ok by (simp add: service_ok_def)
  ultimately show ?thesis using ok db by (simp add: service_ok_def good_change_def)
qed

lemma service_routines:
  "service_ok s \<Longrightarrow> runs db' = runs (sv_db s) \<and> notices db' = notices (sv_db s) \<Longrightarrow> service_ok (s\<lparr>sv_db := db'\<rparr>)"
  by (intro service_db good_change_routines sessions_kept_same) (auto simp: service_ok_def)

lemma service_claim:
  assumes ok: "service_ok s"
  shows "service_ok (snd (claim_step s ro occurrence trig prompt project new now))"
proof (cases "claim_routine_run (sv_db s) (new_run new (ro_id ro) trig occurrence now)
    (case project of None \<Rightarrow> None | Some d \<Rightarrow> Some (d, ro_remote ro))")
  case (Inl e)
  then show ?thesis using ok by (simp add: claim_step_def)
next
  case (Inr x)
  then obtain r c db' where x: "x = (r, c, db')" by (cases x) auto
  show ?thesis
  proof (cases c)
    case False
    then show ?thesis using Inr x ok by (simp add: claim_step_def)
  next
    case True
    then have c: "claim_routine_run (sv_db s) (new_run new (ro_id ro) trig occurrence now)
      (case project of None \<Rightarrow> None | Some d \<Rightarrow> Some (d, ro_remote ro)) = Inr (r, True, db')" using Inr x by simp
    note n = claim_new[OF c]
    have d: "db_ok db'" "db_later (sv_db s) db'"
      using claim_keeps[OF _ c] ok by (auto simp: service_ok_def new_run_def)
    have fresh: "rr_id x \<noteq> rr_id r" if "x \<in> set (runs (sv_db s))" for x using n(3) that by (auto simp: clash_def)
    have k: "sessions_kept {rr_id r} (sv_db s) db'" using n(1) by (auto simp: sessions_kept_def)
    have old: "flight_ok db' f \<and> flight_id f \<noteq> rr_id r" if f: "f \<in> set (sv_flights s)" for f
    proof -
      have o: "flight_ok (sv_db s) f" using ok f by (simp add: service_ok_def)
      then have i: "flight_id f \<noteq> rr_id r" using flight_row_id fresh by metis
      then show ?thesis using flight_stays[OF _ d(2) k o] ok by (simp add: service_ok_def)
    qed
    have p: "prompt_ok db' p \<and> fst p \<noteq> rr_id r" if p: "p \<in> set (sv_prompted s)" for p
    proof -
      have o: "prompt_ok (sv_db s) p" using ok p by (simp add: service_ok_def)
      then have "fst p \<noteq> rr_id r" using fresh by (auto simp: prompt_ok_def)
      then show ?thesis using prompt_stays[OF d(2) o] by simp
    qed
    have "flight_ok db' \<lparr>fl_run = r, fl_prompt = prompt, fl_stage = Claimed\<rparr>"
      using n(1,9) by (auto simp: flight_ok_def new_run_def)
    moreover have "rr_id r \<notin> set (map flight_id (sv_flights s))" using old by (metis (no_types, lifting) imageE set_map)
    moreover have "rr_id r \<notin> fst ` set (sv_prompted s)" using p by (metis imageE)
    moreover have "\<forall>f \<in> set (sv_flights s). flight_ok db' f" "\<forall>p \<in> set (sv_prompted s). prompt_ok db' p" using old p by blast+
    ultimately show ?thesis using c ok d(1)
      by (simp add: claim_step_def service_ok_def Let_def)
  qed
qed

section \<open>The steps of a flight\<close>

definition prepared :: "rdb \<Rightarrow> rdb \<Rightarrow> routine_run \<Rightarrow> bool" where
  "prepared db db' run \<longleftrightarrow> good_change db db' \<and> sessions_kept {rr_id run} db db'"

definition has_session :: "rdb \<Rightarrow> routine_run \<Rightarrow> string \<Rightarrow> string \<Rightarrow> bool" where
  "has_session db run pid session \<longleftrightarrow>
     (\<exists>r \<in> set (runs db). frozen r = frozen run \<and> session \<noteq> [] \<and> rr_session r = session \<and> rr_platform r = pid)"

definition unlinked :: "rdb \<Rightarrow> routine_run \<Rightarrow> bool" where
  "unlinked db run \<longleftrightarrow> db_ok db \<and> (\<exists>r \<in> set (runs db). frozen r = frozen run \<and> rr_session r = [])"

lemma unlinked_row: "unlinked db run \<Longrightarrow> r \<in> set (runs db) \<Longrightarrow> rr_id r = rr_id run \<Longrightarrow> frozen r = frozen run \<and> rr_session r = []"
  unfolding unlinked_def db_ok_def using same_id_same_row frozen_eq(1) by metis

lemma link_prepared:
  assumes u: "unlinked db run" and l: "link_run db run pid session bind now = Inr db'" and s: "session \<noteq> []"
  shows "prepared db db' run \<and> has_session db' run pid session"
proof -
  have l': "link_routine_run db (rr_id run) pid session (unix_milli now) bind = Inr db'" using l by (simp add: link_run_def)
  have "good_change db db'"
    using good_change_link[OF _ l'] u unlinked_row[OF u] by (auto simp: unlinked_def)
  moreover have "sessions_kept {rr_id run} db db'" by (rule sessions_kept_link[OF l'])
  moreover obtain r where r: "r \<in> set (runs db)" "running_run (rr_id run) r" using runs_link(2)[OF l'] by blast
  have "linked pid session (unix_milli now) r \<in> set (runs db')" unfolding runs_link(1)[OF l'] set_map using r by force
  moreover have "frozen (linked pid session (unix_milli now) r) = frozen run"
    using unlinked_row[OF u r(1)] r(2) by (simp add: frozen_def linked_def)
  ultimately show ?thesis using s by (auto simp: prepared_def has_session_def linked_def intro!: bexI)
qed

lemma prepared_refl: "unlinked db run \<Longrightarrow> prepared db db run"
  by (simp add: prepared_def unlinked_def good_change_refl)

lemma prepared_trans: "prepared a b run \<Longrightarrow> prepared b c run \<Longrightarrow> prepared a c run"
  unfolding prepared_def using good_change_trans sessions_kept_trans by blast

lemma worktree_prepared:
  assumes u: "unlinked db run" and w: "set_run_worktree db (rr_id run) path = Inr db'"
  shows "prepared db db' run \<and> unlinked db' run"
proof -
  have d: "db_ok db" using u by (simp add: unlinked_def)
  have g: "good_change db db'" by (rule good_change_worktree[OF d w])
  obtain r where r: "r \<in> set (runs db)" "frozen r = frozen run" "rr_session r = []" using u by (auto simp: unlinked_def)
  obtain r' where r': "r' \<in> set (runs db')" "run_later r r'" using db_later_row[OF _ r(1)] g by (auto simp: good_change_def)
  have k: "sessions_kept {} db db'" by (rule sessions_kept_worktree[OF w])
  obtain q where q: "q \<in> set (runs db)" "rr_id q = rr_id r'" "rr_session q = rr_session r'"
    using k r'(1) by (auto simp: sessions_kept_def)
  have fr: "frozen r' = frozen r" using r'(2) by (simp add: run_later_def)
  have "q = r" using same_id_same_row[of "runs db" q r] d q r(1) frozen_eq(1)[OF fr] by (simp add: db_ok_def)
  then have "unlinked db' run" using q(3) r r'(1) fr g by (auto simp: unlinked_def good_change_def)
  then show ?thesis using g k by (auto simp: prepared_def sessions_kept_def)
qed

lemma trim_nil [simp]: "trim_space [] = []"
  by (simp add: trim_space_def)

lemma trim_ne: "trim_space s \<noteq> [] \<Longrightarrow> s \<noteq> []"
  by auto

lemma create_prepared:
  assumes u: "unlinked db run"
  shows "create_run_session la db run pid now = Inl (e, db') \<Longrightarrow> prepared db db' run"
    and "create_run_session la db run pid now = Inr (session, db') \<Longrightarrow> prepared db db' run \<and> has_session db' run pid session"
proof -
  note ref = prepared_refl[OF u]
  assume "create_run_session la db run pid now = Inl (e, db')"
  then show "prepared db db' run"
    using ref link_prepared[OF u _ trim_ne] worktree_prepared[OF u]
    by (auto simp: create_run_session_def Let_def split: sum.split_asm if_split_asm option.split_asm)
next
  assume c: "create_run_session la db run pid now = Inr (session, db')"
  then obtain cs where cs: "la_create la = Inr cs" by (auto simp: create_run_session_def split: sum.split_asm)
  show "prepared db db' run \<and> has_session db' run pid session"
  proof (cases "rr_worktree run")
    case False
    then have "link_run db run pid (cs_session cs) (rr_mode run = Mode_Reuse) now = Inr db'" "session = cs_session cs" "session \<noteq> []"
      using c cs by (auto simp: create_run_session_def Let_def split: sum.split_asm if_split_asm option.split_asm)
    then show ?thesis using link_prepared[OF u] by blast
  next
    case True
    then obtain db1 where 1: "set_run_worktree db (rr_id run) (cs_path cs) = Inr db1"
      and 2: "link_run db1 run pid (cs_session cs) (rr_mode run = Mode_Reuse) now = Inr db'" "session = cs_session cs" "session \<noteq> []"
      using c cs by (auto simp: create_run_session_def Let_def split: sum.split_asm if_split_asm)
    then show ?thesis using worktree_prepared[OF u 1] link_prepared prepared_trans by blast
  qed
qed

lemma continue_prepared:
  assumes u: "unlinked db run" and t: "rr_target run \<noteq> []"
  shows "continue_session la db run pid now = Inl (e, db') \<Longrightarrow> prepared db db' run"
    and "continue_session la db run pid now = Inr (session, db') \<Longrightarrow> prepared db db' run \<and> has_session db' run pid session"
  using prepared_refl[OF u] link_prepared[OF u _ t]
  by (auto simp: continue_session_def split: option.split_asm sum.split_asm if_split_asm)

lemma session_prepared:
  assumes u: "unlinked db run"
  shows "prepare_session w la db run now = Inl (e, db') \<Longrightarrow> prepared db db' run"
    and "prepare_session w la db run now = Inr (pid, session, db') \<Longrightarrow> prepared db db' run \<and> has_session db' run pid session"
  using prepared_refl[OF u] create_prepared[OF u] continue_prepared[OF u]
  by (auto simp: prepare_session_def split: sum.split_asm if_split_asm)

lemma service_drop: "service_ok s \<Longrightarrow> service_ok (drop_flight i s)"
  by (auto simp: service_ok_def drop_flight_def distinct_map_filter)

lemma flight_unlinked:
  "service_ok s \<Longrightarrow> f \<in> set (sv_flights s) \<Longrightarrow> fl_stage f = Claimed \<Longrightarrow> unlinked (sv_db s) (fl_run f)"
  unfolding service_ok_def flight_ok_def unlinked_def by fastforce

lemma other_flights:
  assumes ok: "service_ok s" and p: "prepared (sv_db s) db' run" and g: "g \<in> set (sv_flights s)" "flight_id g \<noteq> rr_id run"
  shows "flight_ok db' g"
  using flight_stays[of "sv_db s" db' "{rr_id run}" g] ok p g by (auto simp: service_ok_def prepared_def good_change_def)

lemma service_prepared:
  assumes ok: "service_ok s" and p: "prepared (sv_db s) db' run"
  shows "service_ok (drop_flight (rr_id run) (s\<lparr>sv_db := db'\<rparr>))"
proof -
  have "db_ok db'" "db_later (sv_db s) db'" using p by (simp_all add: prepared_def good_change_def)
  then show ?thesis using ok other_flights[OF ok p] prompt_stays
    by (auto simp: service_ok_def drop_flight_def distinct_map_filter)
qed

lemma fail_dispatch_state:
  assumes ok: "service_ok (drop_flight (rr_id run) s)"
  shows "service_ok (snd (fail_dispatch w s run cause now))"
proof (cases "finish_service (w_cron w) (sv_db s) run Failure cause [] now")
  case (Inl e)
  then show ?thesis using ok by (simp add: fail_dispatch_def)
next
  case (Inr db')
  have d: "sv_db (drop_flight (rr_id run) s) = sv_db s" by (simp add: drop_flight_def)
  have "service_ok ((drop_flight (rr_id run) s)\<lparr>sv_db := db'\<rparr>)"
  proof (rule service_db[OF ok])
    show "good_change (sv_db (drop_flight (rr_id run) s)) db'"
      using good_change_finish_service[OF _ _ Inr] ok by (simp add: d service_ok_def)
    show "sessions_kept {} (sv_db (drop_flight (rr_id run) s)) db'" using sessions_kept_finish_service[OF Inr] by (simp add: d)
  qed
  moreover have "(drop_flight (rr_id run) s)\<lparr>sv_db := db'\<rparr> = drop_flight (rr_id run) (s\<lparr>sv_db := db'\<rparr>)"
    by (simp add: drop_flight_def)
  ultimately show ?thesis using Inr by (simp add: fail_dispatch_def)
qed

lemma service_launch:
  assumes ok: "service_ok s" and f: "f \<in> set (sv_flights s)" "fl_stage f = Claimed"
  shows "service_ok (snd (launch_step w la s f now))"
proof (cases "prepare_session w la (sv_db s) (fl_run f) now")
  case (Inl x)
  then obtain e db' where x: "prepare_session w la (sv_db s) (fl_run f) now = Inl (e, db')" by (cases x) auto
  have "prepared (sv_db s) db' (fl_run f)" by (rule session_prepared(1)[OF flight_unlinked[OF ok f] x])
  then have "service_ok (drop_flight (flight_id f) (s\<lparr>sv_db := db'\<rparr>))" by (rule service_prepared[OF ok])
  then show ?thesis using x fail_dispatch_state by (simp add: launch_step_def split_def Let_def)
next
  case (Inr x)
  then obtain pid session db' where x: "prepare_session w la (sv_db s) (fl_run f) now = Inr (pid, session, db')" by (cases x) auto
  have p: "prepared (sv_db s) db' (fl_run f)" and h: "has_session db' (fl_run f) pid session"
    using session_prepared(2)[OF flight_unlinked[OF ok f] x] by blast+
  let ?g = "\<lambda>g. if flight_of (flight_id f) g then g\<lparr>fl_stage := Linked pid session\<rparr> else g"
  have d: "db_ok db'" "db_later (sv_db s) db'" using p by (simp_all add: prepared_def good_change_def)
  have i: "flight_id (?g g) = flight_id g" for g by simp
  have fl: "flight_ok db' (?g g) \<and> flight_id (?g g) \<notin> fst ` set (sv_prompted s)" if g: "g \<in> set (sv_flights s)" for g
  proof (cases "flight_id g = flight_id f")
    case True
    then have "g = f" using ok f(1) g by (auto simp: service_ok_def distinct_map dest: inj_onD)
    then show ?thesis using h ok g by (auto simp: has_session_def flight_ok_def service_ok_def)
  next
    case False
    then show ?thesis using other_flights[OF ok p g] ok g by (simp add: service_ok_def)
  qed
  have "map flight_id (map ?g (sv_flights s)) = map flight_id (sv_flights s)" by simp
  then have "distinct (map flight_id (map ?g (sv_flights s)))" using ok by (simp add: service_ok_def del: map_map)
  moreover have "\<forall>h \<in> set (map ?g (sv_flights s)). flight_ok db' h \<and> flight_id h \<notin> fst ` set (sv_prompted s)"
    unfolding set_map using fl by blast
  moreover have "\<forall>p \<in> set (sv_prompted s). prompt_ok db' p" using prompt_stays[OF d(2)] ok by (simp add: service_ok_def)
  moreover have "distinct (map fst (sv_prompted s))" using ok by (simp add: service_ok_def)
  ultimately have "service_ok (s\<lparr>sv_db := db', sv_flights := map ?g (sv_flights s)\<rparr>)"
    using d(1) unfolding service_ok_def by (simp del: map_map set_map)
  then show ?thesis using x by (simp add: launch_step_def Let_def)
qed

lemma service_send:
  assumes ok: "service_ok s" and f: "f \<in> set (sv_flights s)" "fl_stage f = Linked pid session"
  shows "service_ok (snd (send_step w s f session err now))"
proof -
  let ?s = "s\<lparr>sv_prompted := sv_prompted s @ [(flight_id f, session, fl_prompt f)]\<rparr>"
  obtain r where r: "r \<in> set (runs (sv_db s))" "frozen r = frozen (fl_run f)" "session \<noteq> []" "rr_session r = session"
    using ok f by (auto simp: service_ok_def flight_ok_def)
  then have "prompt_ok (sv_db s) (flight_id f, session, fl_prompt f)" using frozen_eq(1)[OF r(2)] by (auto simp: prompt_ok_def)
  moreover have "flight_id f \<notin> fst ` set (sv_prompted s)" using ok f by (simp add: service_ok_def)
  ultimately have "service_ok (drop_flight (flight_id f) ?s)" using ok
    by (auto simp: service_ok_def drop_flight_def distinct_map_filter)
  then show ?thesis using fail_dispatch_state by (cases err) (simp_all add: send_step_def Let_def)
qed

lemma routine_step_ok: "service_ok s \<Longrightarrow> service_ok (step w s now ev)"
proof (cases ev)
  case (Create i new)
  assume ok: "service_ok s"
  show ?thesis using Create ok service_routines[OF ok] create_service_runs
    by (auto simp: on_db_def split: sum.split)
next
  case (Update i inp)
  assume ok: "service_ok s"
  show ?thesis using Update ok service_routines[OF ok] update_service_runs
    by (auto simp: on_db_def split: sum.split)
next
  case (Delete i)
  assume ok: "service_ok s"
  show ?thesis using Delete ok service_routines[OF ok] soft_delete_runs by (auto split: sum.split)
next
  case (Run_Now v i project new)
  assume ok: "service_ok s"
  then show ?thesis using Run_Now service_claim by (auto simp: run_now_def split: sum.split)
next
  case (Webhook v i payload occurrence project new)
  assume ok: "service_ok s"
  then show ?thesis using Webhook service_claim by (auto simp: run_webhook_def split: sum.split option.split)
next
  case (Due seen new)
  assume ok: "service_ok s"
  then show ?thesis using Due service_claim by simp
next
  case (Launch_On i la)
  assume ok: "service_ok s"
  then show ?thesis using Launch_On service_launch by (auto simp: find_Some_iff split: option.split)
next
  case (Send_On i err)
  assume ok: "service_ok s"
  then show ?thesis using Send_On service_send by (auto simp: find_Some_iff split: option.split stage.split)
next
  case (Settle i ob recover)
  assume ok: "service_ok s"
  then have "db_ok (sv_db s)" by (simp add: service_ok_def)
  then show ?thesis using Settle ok service_db[OF ok good_change_settle sessions_kept_settle] by (auto split: option.split)
next
  case Expire
  assume ok: "service_ok s"
  then show ?thesis using Expire service_routines[OF ok] by simp
next
  case Crash
  assume ok: "service_ok s"
  then show ?thesis using Crash by (simp add: service_ok_def)
qed

lemma empty_ok: "service_ok empty_service"
  by (simp add: service_ok_def empty_service_def db_ok_def runs_ok_def announced_ok_def announcements_def)

lemma service_run_ok: "service_run w s \<Longrightarrow> service_ok s"
  by (induction rule: service_run.induct) (simp_all add: empty_ok routine_step_ok)

lemma prompted_once:
  assumes ok: "service_ok s"
  shows "distinct (map fst (sv_prompted s)) \<and>
    (\<forall>(i, session, prompt) \<in> set (sv_prompted s).
       \<exists>run \<in> set (runs (sv_db s)). rr_id run = i \<and> rr_session run = session \<and>
         (\<forall>other \<in> set (runs (sv_db s)).
            rr_routine other = rr_routine run \<and> rr_occurrence other = rr_occurrence run \<longrightarrow> other = run))"
proof -
  have r: "runs_ok (runs (sv_db s))" using ok by (simp add: service_ok_def db_ok_def)
  have one: "other = run" if "run \<in> set (runs (sv_db s))" "other \<in> set (runs (sv_db s))"
    "rr_routine other = rr_routine run" "rr_occurrence other = rr_occurrence run" for run other
  proof -
    have "clash other run" using that(3,4) by (simp add: clash_def)
    then have "rr_id other = rr_id run" using r that(1,2) unfolding runs_ok_def by blast
    then show ?thesis using same_id_same_row[OF r that(2,1)] by blast
  qed
  have "\<exists>run \<in> set (runs (sv_db s)). rr_id run = fst p \<and> rr_session run = fst (snd p) \<and>
      (\<forall>other \<in> set (runs (sv_db s)). rr_routine other = rr_routine run \<and> rr_occurrence other = rr_occurrence run \<longrightarrow> other = run)"
    if p: "p \<in> set (sv_prompted s)" for p
  proof -
    have "prompt_ok (sv_db s) p" using ok p by (simp add: service_ok_def)
    then show ?thesis using one unfolding prompt_ok_def by blast
  qed
  then show ?thesis using ok by (auto simp: service_ok_def split_def)
qed

section \<open>Time only moves runs forward\<close>

lemma fail_dispatch_later:
  "db_ok (sv_db s) \<Longrightarrow> db_later (sv_db s) (sv_db (snd (fail_dispatch w s run cause now)))"
  using good_change_finish_service[of "sv_db s" Failure]
  by (auto simp: fail_dispatch_def drop_flight_def good_change_def split: sum.split)

lemma step_later:
  assumes ok: "service_ok s"
  shows "db_later (sv_db s) (sv_db (step w s now ev))"
proof -
  have d: "db_ok (sv_db s)" using ok by (simp add: service_ok_def)
  have same: "runs db' = runs (sv_db s) \<and> notices db' = notices (sv_db s) \<Longrightarrow> db_later (sv_db s) db'" for db'
    by (simp add: db_later_def list.rel_refl)
  have claim: "db_later (sv_db s) (sv_db (snd (claim_step s ro occurrence trig prompt project new now)))" for ro occurrence trig prompt project new
  proof (cases "claim_routine_run (sv_db s) (new_run new (ro_id ro) trig occurrence now)
      (case project of None \<Rightarrow> None | Some d \<Rightarrow> Some (d, ro_remote ro))")
    case (Inr x)
    then show ?thesis
      using claim_keeps[OF d, of "new_run new (ro_id ro) trig occurrence now" "case project of None \<Rightarrow> None | Some d \<Rightarrow> Some (d, ro_remote ro)"]
      by (cases x) (auto simp: claim_step_def new_run_def)
  qed (simp add: claim_step_def)
  have flight: "f \<in> set (sv_flights s) \<Longrightarrow> fl_stage f = Claimed \<Longrightarrow> db_later (sv_db s) (sv_db (snd (launch_step w la s f now)))" for f la
  proof -
    assume f: "f \<in> set (sv_flights s)" "fl_stage f = Claimed"
    note u = flight_unlinked[OF ok f]
    show ?thesis
    proof (cases "prepare_session w la (sv_db s) (fl_run f) now")
      case (Inl x)
      then obtain e db' where x: "prepare_session w la (sv_db s) (fl_run f) now = Inl (e, db')" by (cases x) auto
      then have g: "good_change (sv_db s) db'" using session_prepared(1)[OF u x] by (simp add: prepared_def)
      then have "db_later db' (sv_db (snd (fail_dispatch w (s\<lparr>sv_db := db'\<rparr>) (fl_run f) e now)))"
        using fail_dispatch_later[of "s\<lparr>sv_db := db'\<rparr>"] by (simp add: good_change_def)
      then show ?thesis using g x db_later_trans by (auto simp: launch_step_def split_def Let_def good_change_def)
    next
      case (Inr x)
      then obtain pid session db' where x: "prepare_session w la (sv_db s) (fl_run f) now = Inr (pid, session, db')" by (cases x) auto
      then show ?thesis using session_prepared(2)[OF u x] by (simp add: prepared_def good_change_def launch_step_def Let_def)
    qed
  qed
  show ?thesis
  proof (cases ev)
    case (Create i new)
    then show ?thesis using same create_service_runs by (auto simp: on_db_def split: sum.split)
  next
    case (Update i inp)
    then show ?thesis using same update_service_runs by (auto simp: on_db_def split: sum.split)
  next
    case (Delete i)
    then show ?thesis using same soft_delete_runs by (auto split: sum.split)
  next
    case (Run_Now v i project new)
    then show ?thesis using claim by (auto simp: run_now_def split: sum.split)
  next
    case (Webhook v i payload occurrence project new)
    then show ?thesis using claim by (auto simp: run_webhook_def split: sum.split option.split)
  next
    case (Launch_On i la)
    then show ?thesis using flight by (auto simp: find_Some_iff split: option.split)
  next
    case (Send_On i err)
    have "db_later (sv_db s) (sv_db (snd (send_step w s f session err now)))" for f session
      using fail_dispatch_later[of "s\<lparr>sv_prompted := sv_prompted s @ [(flight_id f, session, fl_prompt f)]\<rparr>"] d
      by (auto simp: send_step_def Let_def drop_flight_def split: option.split)
    then show ?thesis using Send_On by (auto split: option.split stage.split)
  next
    case (Settle i ob recover)
    then show ?thesis using good_change_settle[OF d] by (auto simp: good_change_def split: option.split)
  qed (use claim same in simp_all)
qed

section \<open>A sample\<close>

definition run_steps :: "world \<Rightarrow> service \<Rightarrow> (int \<times> event) list \<Rightarrow> service" where
  "run_steps w s evs = foldl (\<lambda>s e. step w s (fst e) (snd e)) s evs"

lemma service_run_steps: "service_run w s \<Longrightarrow> service_run w (run_steps w s evs)"
  by (induction evs arbitrary: s) (simp_all add: run_steps_def service_run.intros)

definition minute :: int where "minute = 60000000000"

definition sample_world :: world where
  "sample_world =
     \<lparr>w_cron = \<lparr>cron_zone = (\<lambda>_. True), cron_parses = (\<lambda>_. True), cron_next = (\<lambda>_ _ t. Some ((t div minute + 1) * minute))\<rparr>,
      w_default = ''opencode'', w_registered = [''opencode''], w_session_platform = (\<lambda>_. None)\<rparr>"

definition sample_input :: "string \<Rightarrow> string \<Rightarrow> string \<Rightarrow> input" where
  "sample_input name mode session =
     \<lparr>in_platform = ''opencode'', in_name = name, in_prompt = ''p'', in_directory = ''/d'', in_remote = [], in_agent = [],
      in_model = [], in_mode = mode, in_session = session, in_worktree = False, in_cleanup = False,
      in_schedule = \<lparr>sc_kind = Some Kind_Cron, sc_timeout = 0, sc_at = 0, sc_cron = ''* * * * *'', sc_zone = []\<rparr>,
      in_enabled = True, in_delete_after = False, in_archive_after = False, in_notify = False, in_rules = ''[]'', in_keep = False\<rparr>"

definition sample_launch :: launch where
  "sample_launch =
     \<lparr>la_host = Some ''local'', la_known = (\<lambda>_. True), la_runtime = None,
      la_create = Inr \<lparr>cs_fresh = True, cs_path = [], cs_session = ''s''\<rparr>, la_commit = None, la_adapter = True,
      la_detail = Some ''/d''\<rparr>"

definition sample_projects :: projects_view where
  "sample_projects =
     \<lparr>pv_reachable = True, pv_normalize = (\<lambda>_. []), pv_projects = None, pv_archived = (\<lambda>_ _. None), pv_catalog = None\<rparr>"

text \<open>A routine that reuses its session is created, run by hand, launched and prompted.\<close>

definition sample_service :: service where
  "sample_service = run_steps sample_world empty_service
     [(minute, Create (sample_input ''a'' ''reuse'' []) ''A''),
      (minute, Run_Now sample_projects ''A'' [] ''r1''),
      (minute, Launch_On ''r1'' sample_launch),
      (minute, Send_On ''r1'' None)]"

lemma sample_service_run: "service_run sample_world sample_service"
  unfolding sample_service_def by (intro service_run_steps service_run.start)

lemma sample_prompted: "sv_prompted sample_service = [(''r1'', ''s'', ''p'')]"
  by code_simp

end
