(* ===== verification/Json_Maps.thy ===== *)
theory Json_Maps
  imports Prelude "HOL-Library.List_Lexorder" "HOL-Library.Char_ord"
begin

text \<open>
  The JSON text in which the delivery log keeps a request's headers and query: \<open>json.Marshal\<close> and
  \<open>json.Unmarshal\<close> of a \<open>map[string][]string\<close>, as \<open>internal/webhook\<close> uses them in poller.go and
  dispatch.go. Marshalling writes the keys in ascending order without white space and escapes
  quotes, backslashes, control characters and \<open><\<close>, \<open>>\<close>, \<open>&\<close>; unmarshalling also takes white space,
  the other escapes, \<open>null\<close> and repeated keys. A nil map or slice is the empty one; characters are
  code points, and an escape of one beyond the model's 256 is not read.
\<close>

type_synonym string_map = "(string \<times> string list) list"

text \<open>A Go map is the list of its entries in ascending order of their keys.\<close>

definition go_map :: "string_map \<Rightarrow> bool" where
  "go_map m \<longleftrightarrow> sorted_wrt (<) (map fst m)"

section \<open>Writing\<close>

abbreviation char_code :: "char \<Rightarrow> nat" where
  "char_code c \<equiv> of_char c"

definition json_quote :: char where "json_quote = CHR 0x22"

definition hex_digit :: "nat \<Rightarrow> char" where
  "hex_digit n = (if n < 10 then char_of (48 + n) else char_of (87 + n))"

definition json_escape :: "char \<Rightarrow> string" where
  "json_escape c =
     (if c = json_quote \<or> c = backslash then [backslash, c]
      else if c = CHR 0x08 then [backslash, CHR ''b'']
      else if c = CHR 0x0C then [backslash, CHR ''f'']
      else if c = CHR 0x0A then [backslash, CHR ''n'']
      else if c = CHR 0x0D then [backslash, CHR ''r'']
      else if c = CHR 0x09 then [backslash, CHR ''t'']
      else if char_code c < 32 \<or> c = CHR ''<'' \<or> c = CHR ''>'' \<or> c = CHR ''&''
      then [backslash, CHR ''u'', CHR ''0'', CHR ''0'', hex_digit (char_code c div 16), hex_digit (char_code c mod 16)]
      else [c])"

definition json_string :: "string \<Rightarrow> string" where
  "json_string s = [json_quote] @ concat (map json_escape s) @ [json_quote]"

fun json_commas :: "string list \<Rightarrow> string" where
  "json_commas [] = []"
| "json_commas [x] = x"
| "json_commas (x # xs) = x @ '','' @ json_commas xs"

definition json_strings :: "string list \<Rightarrow> string" where
  "json_strings xs = ''['' @ json_commas (map json_string xs) @ '']''"

definition json_entry :: "string \<times> string list \<Rightarrow> string" where
  "json_entry e = json_string (fst e) @ '':'' @ json_strings (snd e)"

definition marshal_map :: "string_map \<Rightarrow> string" where
  "marshal_map m =
     ''{'' @ json_commas (map json_entry (sort_key fst m)) @ ''}''"

section \<open>Reading\<close>

definition json_space :: "char \<Rightarrow> bool" where
  "json_space c \<longleftrightarrow> c = CHR '' '' \<or> c = CHR 0x09 \<or> c = CHR 0x0A \<or> c = CHR 0x0D"

definition skip_space :: "string \<Rightarrow> string" where
  "skip_space = dropWhile json_space"

definition hex_value :: "char \<Rightarrow> nat option" where
  "hex_value c =
     (if 48 \<le> char_code c \<and> char_code c \<le> 57 then Some (char_code c - 48)
      else if 97 \<le> char_code c \<and> char_code c \<le> 102 then Some (char_code c - 87)
      else if 65 \<le> char_code c \<and> char_code c \<le> 70 then Some (char_code c - 55) else None)"

fun read_hex :: "string \<Rightarrow> nat option" where
  "read_hex s = foldl (\<lambda>n c. case (n, hex_value c) of (Some v, Some d) \<Rightarrow> Some (v * 16 + d) | _ \<Rightarrow> None) (Some 0) s"

text \<open>The character an escape stands for and the text behind it.\<close>

definition read_escape :: "string \<Rightarrow> (char \<times> string) option" where
  "read_escape s =
     (case s of
        [] \<Rightarrow> None
      | c # s' \<Rightarrow>
          if c = json_quote \<or> c = backslash \<or> c = CHR ''/'' then Some (c, s')
          else if c = CHR ''b'' then Some (CHR 0x08, s')
          else if c = CHR ''f'' then Some (CHR 0x0C, s')
          else if c = CHR ''n'' then Some (CHR 0x0A, s')
          else if c = CHR ''r'' then Some (CHR 0x0D, s')
          else if c = CHR ''t'' then Some (CHR 0x09, s')
          else if c = CHR ''u'' \<and> 4 \<le> length s' then
            (case read_hex (take 4 s') of
               None \<Rightarrow> None
             | Some n \<Rightarrow> if n < 256 then Some (char_of n, drop 4 s') else None)
          else None)"

lemma read_escape_shorter: "read_escape s = Some (c, s') \<Longrightarrow> length s' < length s"
  by (auto simp: read_escape_def split: list.split_asm if_split_asm option.split_asm)

text \<open>The rest of a string literal, behind its opening quote.\<close>

function read_string :: "string \<Rightarrow> (string \<times> string) option" where
  "read_string [] = None"
| "read_string (c # s) =
     (if c = json_quote then Some ([], s)
      else if c = backslash then
        (case read_escape s of
           None \<Rightarrow> None
         | Some (d, s') \<Rightarrow> map_option (\<lambda>(u, rest). (d # u, rest)) (read_string s'))
      else if char_code c < 32 then None
      else map_option (\<lambda>(u, rest). (c # u, rest)) (read_string s))"
  by pat_completeness auto
termination
  by (relation "measure length") (auto dest: read_escape_shorter)

lemma read_string_shorter: "read_string s = Some (u, s') \<Longrightarrow> length s' < length s"
proof (induction s arbitrary: u rule: read_string.induct)
  case (2 c s)
  then show ?case
    using read_escape_shorter by (fastforce split: if_split_asm option.split_asm)
qed simp

text \<open>White space and then the given character or word.\<close>

definition read_token :: "string \<Rightarrow> string \<Rightarrow> string option" where
  "read_token u s =
     (let s' = skip_space s in if take (length u) s' = u then Some (drop (length u) s') else None)"

lemma read_token_shorter: "read_token u s = Some r \<Longrightarrow> u \<noteq> [] \<Longrightarrow> length r < length s"
proof -
  assume "read_token u s = Some r" "u \<noteq> []"
  then have t: "take (length u) (skip_space s) = u" "r = drop (length u) (skip_space s)"
    by (auto simp: read_token_def Let_def split: if_split_asm)
  have "length (skip_space s) \<le> length s" by (simp add: skip_space_def length_dropWhile_le)
  moreover have "0 < length u" "length u \<le> length (skip_space s)" using t(1) \<open>u \<noteq> []\<close> by (simp, metis length_take min.cobounded1)
  ultimately show ?thesis using t(2) by (metis diff_less le_less_trans length_drop less_le_trans nat_less_le)
qed

text \<open>An element of an array of strings; \<open>null\<close> leaves the empty string.\<close>

definition read_element :: "string \<Rightarrow> (string \<times> string) option" where
  "read_element s =
     (case read_token [json_quote] s of
        Some s' \<Rightarrow> read_string s'
      | None \<Rightarrow> map_option (\<lambda>r. ([], r)) (read_token ''null'' s))"

lemma read_element_shorter: "read_element s = Some (u, s') \<Longrightarrow> length s' < length s"
  by (auto simp: read_element_def dest!: read_string_shorter read_token_shorter split: option.split_asm)

text \<open>The rest of an array behind an opening bracket or a comma.\<close>

function read_elements :: "string \<Rightarrow> (string list \<times> string) option" where
  "read_elements s =
     (case read_element s of
        None \<Rightarrow> None
      | Some (u, s1) \<Rightarrow>
          (case read_token '']'' s1 of
             Some r \<Rightarrow> Some ([u], r)
           | None \<Rightarrow>
               (case read_token '','' s1 of
                  None \<Rightarrow> None
                | Some s2 \<Rightarrow> map_option (\<lambda>(us, r). (u # us, r)) (read_elements s2))))"
  by pat_completeness auto
termination
  by (relation "measure length") (auto dest!: read_element_shorter read_token_shorter)

declare read_elements.simps [simp del]

definition read_array :: "string \<Rightarrow> (string list \<times> string) option" where
  "read_array s =
     (case read_token ''['' s of
        Some s' \<Rightarrow>
          (case read_token '']'' s' of Some r \<Rightarrow> Some ([], r) | None \<Rightarrow> read_elements s')
      | None \<Rightarrow> map_option (\<lambda>r. ([], r)) (read_token ''null'' s))"

text \<open>An entry of an object and the entries behind an opening brace or a comma.\<close>

definition read_entry :: "string \<Rightarrow> ((string \<times> string list) \<times> string) option" where
  "read_entry s =
     (case read_token [json_quote] s of
        None \<Rightarrow> None
      | Some s' \<Rightarrow>
          (case read_string s' of
             None \<Rightarrow> None
           | Some (k, s1) \<Rightarrow>
               (case read_token '':'' s1 of
                  None \<Rightarrow> None
                | Some s2 \<Rightarrow> map_option (\<lambda>(xs, r). ((k, xs), r)) (read_array s2))))"

lemma read_elements_shorter: "read_elements s = Some (us, r) \<Longrightarrow> length r < length s"
proof (induction s arbitrary: us rule: read_elements.induct)
  case (1 s)
  obtain u s1 where e: "read_element s = Some (u, s1)"
    using 1(2) unfolding read_elements.simps[of s] by (auto split: option.split_asm)
  note l = read_element_shorter[OF e]
  show ?case
  proof (cases "read_token '']'' s1")
    case None
    then obtain s2 vs where t: "read_token '','' s1 = Some s2" "read_elements s2 = Some (vs, r)"
      using 1(2) e unfolding read_elements.simps[of s] by (auto split: option.split_asm)
    have "length r < length s2" by (rule 1(1)[OF e refl None t])
    then show ?thesis using l read_token_shorter[OF t(1)] by simp
  next
    case (Some r')
    then show ?thesis using 1(2) e l read_token_shorter[OF Some] unfolding read_elements.simps[of s] by simp
  qed
qed

lemma read_array_shorter: "read_array s = Some (xs, r) \<Longrightarrow> length r < length s"
  by (auto simp: read_array_def dest!: read_elements_shorter read_token_shorter split: option.split_asm)

lemma read_entry_shorter: "read_entry s = Some (e, r) \<Longrightarrow> length r < length s"
  by (auto simp: read_entry_def dest!: read_array_shorter read_string_shorter read_token_shorter split: option.split_asm)

function read_entries :: "string \<Rightarrow> (string_map \<times> string) option" where
  "read_entries s =
     (case read_entry s of
        None \<Rightarrow> None
      | Some (e, s1) \<Rightarrow>
          (case read_token ''}'' s1 of
             Some r \<Rightarrow> Some ([e], r)
           | None \<Rightarrow>
               (case read_token '','' s1 of
                  None \<Rightarrow> None
                | Some s2 \<Rightarrow> map_option (\<lambda>(es, r). (e # es, r)) (read_entries s2))))"
  by pat_completeness auto
termination
  by (relation "measure length") (auto dest!: read_entry_shorter read_token_shorter)

declare read_entries.simps [simp del]

text \<open>A repeated key replaces the entry before; behind the value only white space may follow.\<close>

definition put_entry :: "string_map \<Rightarrow> string \<times> string list \<Rightarrow> string_map" where
  "put_entry m e = filter (\<lambda>f. fst f \<noteq> fst e) m @ [e]"

definition read_map :: "string \<Rightarrow> (string_map \<times> string) option" where
  "read_map s =
     (case read_token ''{'' s of
        Some s' \<Rightarrow>
          (case read_token ''}'' s' of Some r \<Rightarrow> Some ([], r) | None \<Rightarrow> read_entries s')
      | None \<Rightarrow> map_option (\<lambda>r. ([], r)) (read_token ''null'' s))"

definition unmarshal_map :: "string \<Rightarrow> string_map option" where
  "unmarshal_map s =
     (case read_map s of
        None \<Rightarrow> None
      | Some (m, r) \<Rightarrow> if skip_space r = [] then Some (sort_key fst (foldl put_entry [] m)) else None)"

section \<open>What is written is read back\<close>

lemma char_code_lt [simp]: "char_code c < 256"
  using nat_of_char_less_256 by simp

lemma hex_value_digit: "n < 16 \<Longrightarrow> hex_value (hex_digit n) = Some n"
  by (cases "n < 10") (simp_all add: hex_value_def hex_digit_def take_bit_nat_eq_self)

lemma read_escape_json:
  assumes "json_escape c \<noteq> [c]"
  shows "\<exists>e. json_escape c = backslash # e \<and> read_escape (e @ s) = Some (c, s)"
proof -
  have z: "hex_value (CHR ''0'') = Some 0" by (simp add: hex_value_def)
  have h: "hex_value (hex_digit (char_code c div 16)) = Some (char_code c div 16)"
    "hex_value (hex_digit (char_code c mod 16)) = Some (char_code c mod 16)"
    using char_code_lt[of c] by (intro hex_value_digit; simp add: less_mult_imp_div_less)+
  have "char_of (char_code c div 16 * 16 + char_code c mod 16) = c" by (simp add: mult.commute)
  then show ?thesis using assms char_code_lt[of c]
    by (cases "c = json_quote \<or> c = backslash \<or> c \<in> {CHR 0x08, CHR 0x0C, CHR 0x0A, CHR 0x0D, CHR 0x09}")
      (auto simp: json_escape_def read_escape_def json_quote_def z h split: if_split_asm)
qed

lemma read_string_json:
  "read_string (concat (map json_escape u) @ json_quote # s) = Some (u, s)"
proof (induction u)
  case (Cons c u)
  let ?rest = "concat (map json_escape u) @ json_quote # s"
  show ?case
  proof (cases "json_escape c = [c]")
    case True
    have "c \<noteq> json_quote" "c \<noteq> backslash" "\<not> char_code c < 32" using True
      by (auto simp: json_escape_def split: if_split_asm)
    then show ?thesis using Cons True by simp
  next
    case False
    obtain e where e: "json_escape c = backslash # e" "read_escape (e @ ?rest) = Some (c, ?rest)"
      using read_escape_json[OF False] by blast
    have "backslash \<noteq> json_quote" by (simp add: json_quote_def)
    then show ?thesis using e Cons by simp
  qed
qed simp

lemma skip_nothing: "\<not> json_space c \<Longrightarrow> skip_space (c # s) = c # s"
  by (simp add: skip_space_def)

lemma json_punctuation [simp]:
  "\<not> json_space json_quote" "\<not> json_space CHR ''{''" "\<not> json_space CHR ''}''" "\<not> json_space CHR ''[''"
  "\<not> json_space CHR '']''" "\<not> json_space CHR '':''" "\<not> json_space CHR '',''"
  "json_quote \<noteq> CHR '']''" "json_quote \<noteq> CHR ''}''" "CHR ''['' \<noteq> json_quote"
  by (simp_all add: json_space_def json_quote_def)

lemma read_token_char: "\<not> json_space d \<Longrightarrow> read_token [c] (d # s) = (if d = c then Some s else None)"
  by (simp add: read_token_def skip_nothing)

lemma read_element_json: "read_element (json_string u @ s) = Some (u, s)"
  by (simp add: read_element_def json_string_def read_token_char read_string_json)

lemma json_commas_Cons: "xs \<noteq> [] \<Longrightarrow> json_commas (x # xs) = x @ '','' @ json_commas xs"
  by (cases xs) simp_all

lemma read_elements_json:
  "us \<noteq> [] \<Longrightarrow> read_elements (json_commas (map json_string us) @ '']'' @ s) = Some (us, s)"
proof (induction us)
  case (Cons u us)
  show ?case
  proof (cases "us = []")
    case True
    then show ?thesis by (subst read_elements.simps) (simp add: read_element_json read_token_char)
  next
    case False
    then have "json_commas (map json_string (u # us)) @ '']'' @ s =
        json_string u @ CHR '','' # json_commas (map json_string us) @ '']'' @ s"
      by (simp add: json_commas_Cons)
    then show ?thesis using Cons.IH[OF False]
      by (subst read_elements.simps) (simp add: read_element_json read_token_char)
  qed
qed simp

lemma json_string_head: "\<exists>v. json_string u @ s = json_quote # v"
  by (simp add: json_string_def)

lemma read_array_json: "read_array (json_strings xs @ s) = Some (xs, s)"
proof (cases xs)
  case Nil
  then show ?thesis by (simp add: read_array_def json_strings_def read_token_char)
next
  case (Cons u us)
  have "\<exists>v. json_commas (map json_string xs) @ '']'' @ s = json_quote # v"
    unfolding Cons by (cases us) (simp_all add: json_string_def)
  then obtain v where v: "json_commas (map json_string xs) @ '']'' @ s = json_quote # v" by blast
  then have "read_token '']'' (json_commas (map json_string xs) @ '']'' @ s) = None"
    by (simp add: read_token_char del: append.simps)
  moreover have "read_elements (json_commas (map json_string xs) @ '']'' @ s) = Some (xs, s)"
    by (rule read_elements_json) (simp add: Cons)
  ultimately show ?thesis
    by (simp add: read_array_def json_strings_def read_token_char)
qed

lemma read_entry_json: "read_entry (json_entry e @ s) = Some (e, s)"
proof (cases e)
  case (Pair k xs)
  have "json_entry e @ s = json_quote # concat (map json_escape k) @ json_quote # CHR '':'' # json_strings xs @ s"
    by (simp add: Pair json_entry_def json_string_def)
  then show ?thesis
    by (simp add: read_entry_def read_token_char read_string_json read_array_json Pair)
qed

lemma read_entries_json:
  "es \<noteq> [] \<Longrightarrow> read_entries (json_commas (map json_entry es) @ ''}'' @ s) = Some (es, s)"
proof (induction es)
  case (Cons e es)
  show ?case
  proof (cases "es = []")
    case True
    then show ?thesis by (subst read_entries.simps) (simp add: read_entry_json read_token_char)
  next
    case False
    then have "json_commas (map json_entry (e # es)) @ ''}'' @ s =
        json_entry e @ CHR '','' # json_commas (map json_entry es) @ ''}'' @ s"
      by (simp add: json_commas_Cons)
    then show ?thesis using Cons.IH[OF False]
      by (subst read_entries.simps) (simp add: read_entry_json read_token_char)
  qed
qed simp

lemma foldl_put_entry: "distinct (map fst (m @ es)) \<Longrightarrow> foldl put_entry m es = m @ es"
proof (induction es arbitrary: m)
  case (Cons e es)
  have "filter (\<lambda>f. fst f \<noteq> fst e) m = m" using Cons.prems by (auto simp: filter_id_conv image_iff)
  then show ?case using Cons.IH[of "m @ [e]"] Cons.prems by (simp add: put_entry_def)
qed simp

lemma read_map_json: "read_map (''{'' @ json_commas (map json_entry es) @ ''}'') = Some (es, [])"
proof (cases es)
  case Nil
  then show ?thesis by (simp add: read_map_def read_token_char)
next
  case (Cons e es')
  have "\<exists>v. json_commas (map json_entry es) @ ''}'' = json_quote # v"
    unfolding Cons by (cases es') (simp_all add: json_entry_def json_string_def)
  then obtain v where "json_commas (map json_entry es) @ ''}'' = json_quote # v" by blast
  then have "read_token ''}'' (json_commas (map json_entry es) @ ''}'') = None"
    by (simp add: read_token_char del: append.simps)
  moreover have "read_entries (json_commas (map json_entry es) @ ''}'') = Some (es, [])"
    using read_entries_json[of es "[]"] by (simp add: Cons)
  ultimately show ?thesis by (simp add: read_map_def read_token_char)
qed

lemma unmarshal_marshal: "go_map m \<Longrightarrow> unmarshal_map (marshal_map m) = Some m"
proof -
  assume m: "go_map m"
  then have "sorted (map fst m)" and d: "distinct (map fst m)" by (simp_all add: go_map_def strict_sorted_iff)
  then have s: "sort_key fst m = m" by (intro sort_key_id_if_sorted)
  then show ?thesis
    by (simp add: unmarshal_map_def marshal_map_def read_map_json[simplified] foldl_put_entry skip_space_def d)
qed

end
