(* ===== verification/Webhook_Delivery.thy ===== *)
theory Webhook_Delivery
  imports Routine_Runs Json_Maps "HOL-Library.Word"
begin

text \<open>
  What becomes of a webhook delivery (\<open>internal/state\<close>: webhook_delivery.go, webhook.go;
  \<open>internal/webhook\<close>: dispatch.go, launch_project.go, poller.go). The poller logs a delivery, runs
  the routines whose subscriptions match, and acknowledges it to the relay; a failure is recorded and
  retried. The tables \<open>webhook_inbox\<close>, \<open>webhook_subscription\<close> and \<open>webhook_delivery\<close> stand beside the
  routine service, whose tables hold the dispatches. The log keeps headers and query as the JSON texts
  of \<open>Json_Maps\<close>; decoding a body, fetching and decrypting an envelope, the delivery's files and the payload's text
  are arguments.
\<close>

section \<open>Occurrences\<close>

unbundle bit_operations_syntax

text \<open>FNV-1a over the bytes, as \<open>hash/fnv\<close> computes it.\<close>

definition fnv1a :: "string \<Rightarrow> 64 word" where
  "fnv1a s = foldl (\<lambda>h c. (h XOR of_nat (of_char c)) * 1099511628211) 14695981039346656037 s"

definition webhook_occurrence :: "string \<Rightarrow> string \<Rightarrow> int" where
  "webhook_occurrence inbox delivery =
     (let v = uint (fnv1a (inbox @ '':'' @ delivery) AND 0x7FFFFFFFFFFFFFFF) in if v \<noteq> 0 then v else 1)"

section \<open>Tables\<close>

record inbox_row =
  ib_id :: string
  ib_name :: string

record sub_row =
  sb_id :: string
  sb_inbox :: string
  sb_sub :: subscription

record delivery_row =
  dl_inbox :: string
  dl_id :: string
  dl_item :: string
  dl_title :: string
  dl_body :: string
  dl_headers :: string
  dl_query :: string
  dl_attempts :: int
  dl_error :: string
  dl_retry :: int
  dl_accepted :: int

record webhooks =
  wh_service :: service
  wh_inboxes :: "inbox_row list"
  wh_subs :: "sub_row list"
  wh_deliveries :: "delivery_row list"

abbreviation wh_db :: "webhooks \<Rightarrow> rdb" where
  "wh_db wh \<equiv> sv_db (wh_service wh)"

definition put_db :: "rdb \<Rightarrow> webhooks \<Rightarrow> webhooks" where
  "put_db db wh = wh\<lparr>wh_service := (wh_service wh)\<lparr>sv_db := db\<rparr>\<rparr>"

section \<open>The delivery log\<close>

definition max_attempts :: int where "max_attempts = 8"

text \<open>\<open>1 << attempt\<close> seconds, as milliseconds.\<close>

definition retry_delay :: "nat \<Rightarrow> int" where
  "retry_delay attempt = 2 ^ min attempt 6 * 1000"

abbreviation for_delivery :: "string \<Rightarrow> string \<Rightarrow> delivery_row \<Rightarrow> bool" where
  "for_delivery inbox delivery r \<equiv> dl_inbox r = inbox \<and> dl_id r = delivery"

definition find_delivery :: "string \<Rightarrow> string \<Rightarrow> delivery_row list \<Rightarrow> delivery_row option" where
  "find_delivery inbox delivery rows = find (for_delivery inbox delivery) rows"

record request =
  rq_title :: string
  rq_body :: string
  rq_headers :: string
  rq_query :: string

text \<open>\<open>AcceptWebhookDelivery\<close>. The lookup leaves \<open>sql.ErrNoRows\<close> when there is no row; deleting the
  row of an earlier failure leaves no error at all, and any value but \<open>ErrNoRows\<close> returns before the
  insertion, whereupon the transaction is rolled back.\<close>

datatype sql_error = No_Error | No_Rows

definition accepted_row :: "string \<Rightarrow> string \<Rightarrow> request \<Rightarrow> int \<Rightarrow> delivery_row" where
  "accepted_row inbox delivery q now =
     \<lparr>dl_inbox = inbox, dl_id = delivery, dl_item = inbox @ '':'' @ delivery, dl_title = rq_title q, dl_body = rq_body q,
      dl_headers = rq_headers q, dl_query = rq_query q, dl_attempts = 0, dl_error = [], dl_retry = 0,
      dl_accepted = unix_milli now\<rparr>"

definition accept_delivery :: "string \<Rightarrow> string \<Rightarrow> request \<Rightarrow> int \<Rightarrow> delivery_row list \<Rightarrow> bool \<times> delivery_row list" where
  "accept_delivery inbox delivery q now rows =
     (case find_delivery inbox delivery rows of
        Some r \<Rightarrow>
          if dl_item r \<noteq> [] then (False, rows)
          else let tx = filter (\<lambda>x. \<not> for_delivery inbox delivery x) rows; err = No_Error
            in if err \<noteq> No_Rows then (False, rows) else (True, tx @ [accepted_row inbox delivery q now])
      | None \<Rightarrow> let err = No_Rows in
          if err \<noteq> No_Rows then (False, rows) else (True, rows @ [accepted_row inbox delivery q now]))"

text \<open>One notice of a failure for each id, under the name of its inbox; none for an unknown inbox.\<close>

definition inbox_title :: "inbox_row \<Rightarrow> string" where
  "inbox_title ib = ''Webhook '' @ (if ib_name ib = [] then ib_id ib else ib_name ib) @ '': delivery failed''"

definition notify_failure :: "string \<Rightarrow> string \<Rightarrow> string \<Rightarrow> int \<Rightarrow> webhooks \<Rightarrow> webhooks" where
  "notify_failure i inbox msg now wh =
     (case find (\<lambda>ib. ib_id ib = inbox) (wh_inboxes wh) of
        None \<Rightarrow> wh
      | Some ib \<Rightarrow>
          let db = wh_db wh;
              n = \<lparr>no_id = i, no_title = inbox_title ib,
                   no_body = trim_space msg @ [newline, newline] @ ''[View webhook inboxes](/routines?tab=inboxes)'',
                   no_created = unix_milli now, no_session = None\<rparr>
          in if \<exists>m \<in> set (notices db). no_id m = i then wh else put_db (db\<lparr>notices := notices db @ [n]\<rparr>) wh)"

definition retried_row :: "string \<Rightarrow> int \<Rightarrow> delivery_row \<Rightarrow> delivery_row" where
  "retried_row msg now r =
     r\<lparr>dl_attempts := dl_attempts r + 1, dl_error := msg, dl_retry := unix_milli now + retry_delay 1\<rparr>"

definition first_failure :: "string \<Rightarrow> string \<Rightarrow> string \<Rightarrow> int \<Rightarrow> delivery_row" where
  "first_failure inbox delivery msg now =
     \<lparr>dl_inbox = inbox, dl_id = delivery, dl_item = [], dl_title = [], dl_body = [], dl_headers = [], dl_query = [],
      dl_attempts = 1, dl_error = msg, dl_retry = unix_milli now + retry_delay 1, dl_accepted = unix_milli now\<rparr>"

definition put_failure :: "string \<Rightarrow> string \<Rightarrow> string \<Rightarrow> int \<Rightarrow> delivery_row list \<Rightarrow> delivery_row list" where
  "put_failure inbox delivery msg now rows =
     (if find_delivery inbox delivery rows = None then rows @ [first_failure inbox delivery msg now]
      else map (\<lambda>r. if for_delivery inbox delivery r then retried_row msg now r else r) rows)"

definition attempts_of :: "string \<Rightarrow> string \<Rightarrow> delivery_row list \<Rightarrow> int" where
  "attempts_of inbox delivery rows = (case find_delivery inbox delivery rows of None \<Rightarrow> 0 | Some r \<Rightarrow> dl_attempts r)"

definition record_delivery_error :: "string \<Rightarrow> string \<Rightarrow> string \<Rightarrow> int \<Rightarrow> webhooks \<Rightarrow> webhooks" where
  "record_delivery_error inbox delivery msg now wh =
     (let rows = put_failure inbox delivery msg now (wh_deliveries wh);
          wh' = wh\<lparr>wh_deliveries := rows\<rparr>; n = attempts_of inbox delivery rows
      in if n < max_attempts then wh'
         else notify_failure (''webhook-failed:'' @ inbox @ '':'' @ delivery) inbox
                (''Delivery '' @ delivery @ '' was given up after '' @ int_text n @ '' attempts: '' @ msg) now wh')"

definition retry_allowed :: "string \<Rightarrow> string \<Rightarrow> int \<Rightarrow> delivery_row list \<Rightarrow> bool" where
  "retry_allowed inbox delivery now rows =
     (case find_delivery inbox delivery rows of
        None \<Rightarrow> True
      | Some r \<Rightarrow> dl_attempts r < max_attempts \<and> dl_retry r \<le> unix_milli now)"

text \<open>\<open>GetWebhookDelivery\<close>: only an accepted delivery can be replayed.\<close>

definition get_delivery :: "string \<Rightarrow> string \<Rightarrow> delivery_row list \<Rightarrow> request option" where
  "get_delivery inbox delivery rows =
     (case find (\<lambda>r. for_delivery inbox delivery r \<and> dl_item r \<noteq> []) rows of
        None \<Rightarrow> None
      | Some r \<Rightarrow> Some \<lparr>rq_title = dl_title r, rq_body = dl_body r, rq_headers = dl_headers r, rq_query = dl_query r\<rparr>)"

text \<open>\<open>CleanupWebhookHistory\<close>, but for the files.\<close>

definition cleanup_history :: "int \<Rightarrow> webhooks \<Rightarrow> webhooks" where
  "cleanup_history before wh =
     (let db = wh_db wh; old = (\<lambda>t. 0 < t \<and> t < before)
      in (put_db (db\<lparr>dispatches := filter (\<lambda>d. \<not> old (di_finished d)) (dispatches db)\<rparr>) wh)
           \<lparr>wh_deliveries := filter (\<lambda>r. \<not> old (dl_accepted r)) (wh_deliveries wh)\<rparr>)"

section \<open>Dispatch rows\<close>

abbreviation is_dispatch :: "string \<Rightarrow> string \<Rightarrow> string \<Rightarrow> dispatch_row \<Rightarrow> bool" where
  "is_dispatch inbox delivery i d \<equiv> di_inbox d = inbox \<and> di_delivery d = delivery \<and> di_routine d = i"

definition map_dispatches :: "(dispatch_row \<Rightarrow> bool) \<Rightarrow> (dispatch_row \<Rightarrow> dispatch_row) \<Rightarrow> rdb \<Rightarrow> rdb" where
  "map_dispatches p f db = db\<lparr>dispatches := map (\<lambda>d. if p d then f d else d) (dispatches db)\<rparr>"

definition add_dispatch :: "dispatch_row \<Rightarrow> rdb \<Rightarrow> rdb" where
  "add_dispatch d db = db\<lparr>dispatches := dispatches db @ [d]\<rparr>"

definition claim_dispatch :: "string \<Rightarrow> string \<Rightarrow> string \<Rightarrow> int \<Rightarrow> rdb \<Rightarrow> bool \<times> rdb" where
  "claim_dispatch inbox delivery i now db =
     (let failed = (\<lambda>d. is_dispatch inbox delivery i d \<and> di_state d = Disp_Failure) in
      if \<exists>d \<in> set (dispatches db). failed d then
        (True, map_dispatches failed
                 (\<lambda>d. d\<lparr>di_state := Disp_Queued, di_error := [], di_finished := 0, di_created := unix_milli now\<rparr>) db)
      else if \<exists>d \<in> set (dispatches db). is_dispatch inbox delivery i d then (False, db)
      else (True, add_dispatch \<lparr>di_inbox = inbox, di_delivery = delivery, di_routine = i, di_state = Disp_Queued,
                                di_error = [], di_created = unix_milli now, di_finished = 0\<rparr> db))"

definition settle_dispatch :: "string \<Rightarrow> string \<Rightarrow> string \<Rightarrow> dispatch_state \<Rightarrow> string \<Rightarrow> int \<Rightarrow> rdb \<Rightarrow> rdb" where
  "settle_dispatch inbox delivery i st msg now =
     map_dispatches (\<lambda>d. is_dispatch inbox delivery i d \<and> di_state d = Disp_Queued)
       (\<lambda>d. d\<lparr>di_state := st, di_error := msg, di_finished := unix_milli now\<rparr>)"

text \<open>\<open>FinishWebhookDispatch\<close>: a routine that never got a run is announced from here.\<close>

definition finish_dispatch :: "string \<Rightarrow> string \<Rightarrow> string \<Rightarrow> dispatch_state \<Rightarrow> string \<Rightarrow> int \<Rightarrow> webhooks \<Rightarrow> webhooks" where
  "finish_dispatch inbox delivery i st msg now wh =
     (let db = wh_db wh; wh' = put_db (settle_dispatch inbox delivery i st msg now db) wh in
      if st \<noteq> Disp_Failure then wh'
      else if \<not> (\<exists>d \<in> set (dispatches db). is_dispatch inbox delivery i d \<and> di_state d = Disp_Queued) then wh'
      else if \<exists>r \<in> set (runs db). rr_routine r = i \<and> rr_occurrence r = webhook_occurrence inbox delivery then wh'
      else let name = (case find_routine db i of None \<Rightarrow> i | Some r \<Rightarrow> if ro_name r = [] then i else ro_name r)
        in notify_failure (''webhook-failed:'' @ inbox @ '':'' @ delivery @ '':'' @ i) inbox
             (''Routine '' @ name @ '' did not start for delivery '' @ delivery @ '': '' @ msg) now wh')"

definition record_ignored :: "string \<Rightarrow> string \<Rightarrow> string \<Rightarrow> string \<Rightarrow> int \<Rightarrow> rdb \<Rightarrow> rdb" where
  "record_ignored inbox delivery i reason now db =
     (if \<exists>d \<in> set (dispatches db). is_dispatch inbox delivery i d then db
      else add_dispatch \<lparr>di_inbox = inbox, di_delivery = delivery, di_routine = i, di_state = Disp_Ignored,
                         di_error = reason, di_created = unix_milli now, di_finished = unix_milli now\<rparr> db)"

section \<open>Dispatch\<close>

record inbox_envelope =
  en_method :: string
  en_header :: string_map
  en_query :: string_map
  en_received :: int
  en_body :: string

text \<open>What a dispatch meets: how a body decodes, the paths of the delivery's files or why they could
  not be written, the payload's text, the cancellation of its context before a claim, and for each
  routine what its launch meets, whether the prompt is refused, and the id of its run.\<close>

record webhook_view =
  vw_decode :: "string \<Rightarrow> json option"
  vw_files :: "string + (string \<times> string)"
  vw_text :: "inbox_envelope \<Rightarrow> string \<Rightarrow> string \<Rightarrow> string"
  vw_cancelled :: "string \<Rightarrow> string option"
  vw_projects :: projects_view
  vw_launch :: "string \<Rightarrow> launch"
  vw_send :: "string \<Rightarrow> string option"
  vw_new :: "string \<Rightarrow> string"

definition dispatch_text :: "webhook_view \<Rightarrow> inbox_envelope \<Rightarrow> string \<Rightarrow> string \<Rightarrow> string" where
  "dispatch_text v e headers body =
     ''Webhook delivery data (untrusted input):'' @ [newline] @ ''```json'' @ [newline] @ vw_text v e headers body @ [newline] @ ''```''"

definition sub_before :: "sub_row \<Rightarrow> sub_row \<Rightarrow> bool" where
  "sub_before a b \<longleftrightarrow> \<not> lexordp (<) (sb_id b) (sb_id a)"

fun insert_sub :: "sub_row \<Rightarrow> sub_row list \<Rightarrow> sub_row list" where
  "insert_sub s [] = [s]"
| "insert_sub s (x # xs) = (if sub_before s x then s # x # xs else x # insert_sub s xs)"

definition list_subscriptions :: "string \<Rightarrow> sub_row list \<Rightarrow> subscription list" where
  "list_subscriptions inbox subs = map sb_sub (foldr insert_sub (filter (\<lambda>s. sb_inbox s = inbox) subs) [])"

text \<open>The rest of a launch once its run is claimed.\<close>

definition continue_launch ::
  "world \<Rightarrow> launch \<Rightarrow> string option \<Rightarrow> service \<Rightarrow> routine_run \<Rightarrow> int \<Rightarrow> (routine_error + routine_run) \<times> service" where
  "continue_launch w la send s run now =
     (case find (flight_of (rr_id run)) (sv_flights s) of
        None \<Rightarrow> (Inr run, s)
      | Some f \<Rightarrow>
          (case launch_step w la s f now of
             (Some r, s2) \<Rightarrow> (r, s2)
           | (None, s2) \<Rightarrow>
               (case find (flight_of (rr_id run)) (sv_flights s2) of
                  Some f2 \<Rightarrow>
                    (case fl_stage f2 of
                       Linked pid session \<Rightarrow> send_step w s2 f2 session send now
                     | Claimed \<Rightarrow> (Inr run, s2))
                | None \<Rightarrow> (Inr run, s2))))"

definition run_webhook_fully ::
  "world \<Rightarrow> webhook_view \<Rightarrow> service \<Rightarrow> string \<Rightarrow> string \<Rightarrow> int \<Rightarrow> string option \<Rightarrow> int \<Rightarrow> (routine_error + routine_run) \<times> service" where
  "run_webhook_fully w v s i payload occurrence project now =
     (case run_webhook (vw_projects v) s i payload occurrence project (vw_new v i) now of
        (Inl e, s1) \<Rightarrow> (Inl e, s1)
      | (Inr (run, claimed), s1) \<Rightarrow>
          if claimed then continue_launch w (vw_launch v i) (vw_send v i) s1 run now else (Inr run, s1))"

text \<open>\<open>launchWebhook\<close>: the project an unbound routine runs in may come from the body.\<close>

definition launch_webhook ::
  "world \<Rightarrow> webhook_view \<Rightarrow> service \<Rightarrow> routine \<Rightarrow> subscription \<Rightarrow> string \<Rightarrow> string \<Rightarrow> int \<Rightarrow> int \<Rightarrow> (string + routine_run) \<times> service" where
  "launch_webhook w v s r sub body data occurrence now =
     (let result = (\<lambda>(x, s'). (case x of Inl e \<Rightarrow> Inl (error_text e) | Inr run \<Rightarrow> Inr run, s')) in
      if ro_directory r \<noteq> [] \<or> ws_pointer sub = [] then
        result (run_webhook_fully w v s (ws_routine sub) data occurrence None now)
      else case vw_decode v body of
        None \<Rightarrow> (Inl ''project field requires a JSON webhook body'', s)
      | Some doc \<Rightarrow>
          (case pointer_value doc (ws_pointer sub) of
             Some (JStr project) \<Rightarrow>
               if trim_space project = [] then (Inl ''webhook project field must contain a nonempty string'', s)
               else result (run_webhook_fully w v s (ws_routine sub) data occurrence (Some project) now)
           | _ \<Rightarrow> (Inl ''webhook project field must contain a nonempty string'', s)))"

text \<open>A launch failure comes back as a failed run, not an error.\<close>

definition launch_outcome :: "string + routine_run \<Rightarrow> string option" where
  "launch_outcome x =
     (case x of
        Inl e \<Rightarrow> Some e
      | Inr run \<Rightarrow>
          if rr_state run = Failure then Some (if rr_error run = [] then ''routine run failed to start'' else rr_error run)
          else None)"

text \<open>One turn of the loop of \<open>Dispatch\<close>; \<open>Some\<close> is the error that ends it.\<close>

definition ignore_reason :: "routine \<Rightarrow> string option" where
  "ignore_reason r =
     (if \<not> ro_enabled r then Some ''routine disabled''
      else if \<not> local_remote (ro_remote r) then Some ''routine runs on another machine'' else None)"

definition dispatch_claimed ::
  "world \<Rightarrow> webhook_view \<Rightarrow> string \<Rightarrow> string \<Rightarrow> inbox_envelope \<Rightarrow> string \<Rightarrow> int \<Rightarrow> subscription \<Rightarrow> routine \<Rightarrow> webhooks \<Rightarrow> webhooks" where
  "dispatch_claimed w v inbox delivery e data now sub r wh =
     (case launch_webhook w v (wh_service wh) r sub (en_body e) data (webhook_occurrence inbox delivery) now of
        (x, s') \<Rightarrow>
          let wh' = wh\<lparr>wh_service := s'\<rparr> in
          (case launch_outcome x of
             Some msg \<Rightarrow> finish_dispatch inbox delivery (ws_routine sub) Disp_Failure msg now wh'
           | None \<Rightarrow> finish_dispatch inbox delivery (ws_routine sub) Disp_Terminal [] now wh'))"

definition dispatch_sub ::
  "world \<Rightarrow> webhook_view \<Rightarrow> string \<Rightarrow> string \<Rightarrow> inbox_envelope \<Rightarrow> string \<Rightarrow> int \<Rightarrow> subscription \<Rightarrow> webhooks \<Rightarrow> string option \<times> webhooks" where
  "dispatch_sub w v inbox delivery e data now sub wh =
     (let ignore = (\<lambda>reason. (None, put_db (record_ignored inbox delivery (ws_routine sub) reason now (wh_db wh)) wh)) in
      case sub_matches (en_header e) (vw_decode v (en_body e)) sub of
        None \<Rightarrow> ignore ''invalid predicates''
      | Some False \<Rightarrow> ignore []
      | Some True \<Rightarrow>
          (case find_routine (wh_db wh) (ws_routine sub) of
             None \<Rightarrow> (Some (error_text Routine_Not_Found), wh)
           | Some r \<Rightarrow>
               if ro_deleted r then (None, wh)
               else case ignore_reason r of
                 Some reason \<Rightarrow> ignore reason
               | None \<Rightarrow>
                   (case vw_cancelled v (ws_routine sub) of
                      Some err \<Rightarrow> (Some err, wh)
                    | None \<Rightarrow>
                        (case claim_dispatch inbox delivery (ws_routine sub) now (wh_db wh) of
                           (claimed, db') \<Rightarrow>
                             if \<not> claimed then (None, put_db db' wh)
                             else (None, dispatch_claimed w v inbox delivery e data now sub r (put_db db' wh))))))"

fun dispatch_subs ::
  "world \<Rightarrow> webhook_view \<Rightarrow> string \<Rightarrow> string \<Rightarrow> inbox_envelope \<Rightarrow> string \<Rightarrow> int \<Rightarrow> subscription list \<Rightarrow> webhooks \<Rightarrow> string option \<times> webhooks" where
  "dispatch_subs w v inbox delivery e data now [] wh = (None, wh)"
| "dispatch_subs w v inbox delivery e data now (sub # subs) wh =
     (case dispatch_sub w v inbox delivery e data now sub wh of
        (Some err, wh') \<Rightarrow> (Some err, wh')
      | (None, wh') \<Rightarrow> dispatch_subs w v inbox delivery e data now subs wh')"

definition dispatch ::
  "world \<Rightarrow> webhook_view \<Rightarrow> string \<Rightarrow> string \<Rightarrow> inbox_envelope \<Rightarrow> int \<Rightarrow> webhooks \<Rightarrow> string option \<times> webhooks" where
  "dispatch w v inbox delivery e now wh =
     (let subs = list_subscriptions inbox (wh_subs wh) in
      if subs = [] then (None, wh)
      else case vw_files v of
        Inl err \<Rightarrow> (Some err, wh)
      | Inr (headers, body) \<Rightarrow> dispatch_subs w v inbox delivery e (dispatch_text v e headers body) now subs wh)"

section \<open>The poller\<close>

definition logged_request :: "inbox_envelope \<Rightarrow> request" where
  "logged_request e = \<lparr>rq_title = en_method e @ '' webhook'', rq_body = en_body e,
     rq_headers = marshal_map (en_header e), rq_query = marshal_map (en_query e)\<rparr>"

text \<open>One delivery of a page: fetching and decrypting it gives an error or the envelope, and the
  relay may refuse the acknowledgement. The answer says whether the delivery was acknowledged.\<close>

definition attempt_delivery ::
  "world \<Rightarrow> webhook_view \<Rightarrow> string \<Rightarrow> string \<Rightarrow> inbox_envelope \<Rightarrow> int \<Rightarrow> webhooks \<Rightarrow> string option \<times> webhooks" where
  "attempt_delivery w v inbox delivery e now wh =
     dispatch w v inbox delivery e now
       (wh\<lparr>wh_deliveries := snd (accept_delivery inbox delivery (logged_request e) now (wh_deliveries wh))\<rparr>)"

definition poll_delivery ::
  "world \<Rightarrow> webhook_view \<Rightarrow> string \<Rightarrow> string \<Rightarrow> string + inbox_envelope \<Rightarrow> string option \<Rightarrow> int \<Rightarrow> webhooks \<Rightarrow> bool \<times> webhooks" where
  "poll_delivery w v inbox delivery fetched ack now wh =
     (if \<not> retry_allowed inbox delivery now (wh_deliveries wh) then (False, wh)
      else case (case fetched of
                   Inl err \<Rightarrow> (Some err, wh)
                 | Inr e \<Rightarrow> (case attempt_delivery w v inbox delivery e now wh of
                      (Some err, wh') \<Rightarrow> (Some err, wh')
                    | (None, wh') \<Rightarrow> (ack, wh'))) of
        (None, wh') \<Rightarrow> (True, wh')
      | (Some err, wh') \<Rightarrow> (False, record_delivery_error inbox delivery err now wh'))"

text \<open>A page of deliveries, each with what the poller meets and the time, and the pages of a poll,
  which ends at a page that cannot be listed. A revoked inbox ends the poller itself.\<close>

record polled =
  po_delivery :: string
  po_view :: webhook_view
  po_fetched :: "string + inbox_envelope"
  po_ack :: "string option"
  po_now :: int

fun poll_page :: "world \<Rightarrow> string \<Rightarrow> polled list \<Rightarrow> webhooks \<Rightarrow> webhooks" where
  "poll_page w inbox [] wh = wh"
| "poll_page w inbox (p # ps) wh =
     poll_page w inbox ps (snd (poll_delivery w (po_view p) inbox (po_delivery p) (po_fetched p) (po_ack p) (po_now p) wh))"

fun poll_pages :: "world \<Rightarrow> string \<Rightarrow> (string + polled list) list \<Rightarrow> webhooks \<Rightarrow> string option \<times> webhooks" where
  "poll_pages w inbox [] wh = (None, wh)"
| "poll_pages w inbox (Inl err # pages) wh = (Some err, wh)"
| "poll_pages w inbox (Inr ps # pages) wh = poll_pages w inbox pages (poll_page w inbox ps wh)"

datatype poll_result = Inbox_Gone | Polled "string option"

definition poll :: "world \<Rightarrow> string \<Rightarrow> (string + polled list) list \<Rightarrow> webhooks \<Rightarrow> poll_result \<times> webhooks" where
  "poll w inbox pages wh =
     (if \<not> (\<exists>ib \<in> set (wh_inboxes wh). ib_id ib = inbox) then (Inbox_Gone, wh)
      else case poll_pages w inbox pages wh of (err, wh') \<Rightarrow> (Polled err, wh'))"

text \<open>\<open>Redeliver\<close>: a logged delivery is replayed under a new id, as its own entry.\<close>

definition trim_suffix :: "string \<Rightarrow> string \<Rightarrow> string" where
  "trim_suffix s suf = (if has_suffix s suf then take (length s - length suf) s else s)"

definition redelivery_id :: "string \<Rightarrow> int \<Rightarrow> string" where
  "redelivery_id delivery now = delivery @ ''-redelivery-'' @ int_text (unix_milli now)"

definition stored_map :: "string \<Rightarrow> string_map option" where
  "stored_map raw = (if raw = [] then Some [] else unmarshal_map raw)"

definition replayed :: "request \<Rightarrow> int \<Rightarrow> inbox_envelope option" where
  "replayed q now =
     (case (stored_map (rq_headers q), stored_map (rq_query q)) of
        (Some header, Some query) \<Rightarrow>
          Some \<lparr>en_method = trim_suffix (rq_title q) '' webhook'', en_header = header, en_query = query,
                en_received = unix_milli now, en_body = rq_body q\<rparr>
      | _ \<Rightarrow> None)"

definition redeliver ::
  "world \<Rightarrow> webhook_view \<Rightarrow> string \<Rightarrow> string \<Rightarrow> int \<Rightarrow> webhooks \<Rightarrow> (string + string option) \<times> webhooks" where
  "redeliver w v inbox delivery now wh =
     (case get_delivery inbox delivery (wh_deliveries wh) of
        None \<Rightarrow> (Inl ''sql: no rows in result set'', wh)
      | Some q \<Rightarrow>
          (case replayed q now of
             None \<Rightarrow> (Inl ''stored request is unreadable'', wh)
           | Some e \<Rightarrow>
               let new = redelivery_id delivery now;
                   wh1 = wh\<lparr>wh_deliveries := snd (accept_delivery inbox new q now (wh_deliveries wh))\<rparr>
               in case dispatch w v inbox new e now wh1 of (err, wh2) \<Rightarrow> (Inr err, wh2)))"

end
