(* ===== verification/Routine_Promises.thy ===== *)
theory Routine_Promises
  imports Routine_Runs
begin

text \<open>
  What the routine service keeps over every interleaving of its steps: an occurrence is prompted
  once, a shared session has one run, a settled run is final and announced once, a settled
  occurrence is not due again; and the places where it does not keep what it means to.
\<close>

section \<open>Promises\<close>

lemma settled_row_stays:
  assumes "db_later db db'" "r \<in> set (runs db)" "rr_state r \<noteq> Running"
  shows "r \<in> set (runs db')"
  using db_later_row[OF assms(1,2)] assms(3) by (auto simp: run_later_def)

text \<open>
  C7: Whatever launches by hand, by the schedule and by webhooks, settlements, edits and crashes are
  interleaved, no run is prompted twice, each prompt went to the session recorded in its run, and
  no other run stands for the same occurrence of the routine: an occurrence is prompted at most once.
\<close>

theorem occurrence_is_prompted_once:
  assumes "service_run w s"
  shows "distinct (map fst (sv_prompted s)) \<and>
    (\<forall>(i, session, prompt) \<in> set (sv_prompted s).
       \<exists>run \<in> set (runs (sv_db s)). rr_id run = i \<and> rr_session run = session \<and>
         (\<forall>other \<in> set (runs (sv_db s)).
            rr_routine other = rr_routine run \<and> rr_occurrence other = rr_occurrence run \<longrightarrow> other = run))"
  by (rule prompted_once[OF service_run_ok[OF assms]])

lemma occurrence_is_prompted_once_witness:
  "sv_prompted sample_service = [(''r1'', ''s'', ''p'')] \<and> distinct (map fst (sv_prompted sample_service))"
  using occurrence_is_prompted_once[OF sample_service_run] sample_prompted by simp

text \<open>The session a run in a shared session works in.\<close>

definition shared_session :: "routine_run \<Rightarrow> string" where
  "shared_session r = (if rr_target r \<noteq> [] then rr_target r else rr_session r)"

text \<open>
  C8: At any moment, two running runs that continue shared sessions belong to different routines,
  and do not work in the same session of a machine, also while sessions are being linked and runs
  settled.
\<close>

theorem shared_sessions_are_exclusive:
  assumes "service_run w s" "a \<in> set (runs (sv_db s))" "b \<in> set (runs (sv_db s))" "a \<noteq> b"
    "rr_state a = Running" "rr_state b = Running" "rr_mode a \<noteq> Mode_New" "rr_mode b \<noteq> Mode_New"
  shows "rr_routine a \<noteq> rr_routine b \<and>
    (shared_session a = [] \<or> (rr_remote a, shared_session a) \<noteq> (rr_remote b, shared_session b))"
proof -
  have r: "runs_ok (runs (sv_db s))" using service_run_ok[OF assms(1)] by (simp add: service_ok_def db_ok_def)
  have "rr_id a \<noteq> rr_id b" using same_id_same_row[OF r assms(2,3)] assms(4) by blast
  then have n: "\<not> clash a b" using r assms(2,3) unfolding runs_ok_def by blast
  then show ?thesis using assms(5-8) by (auto simp: clash_def shared_claim_def target_claim_def shared_session_def)
qed

text \<open>A second routine continues a session of the user's.\<close>

definition sample_two :: service where
  "sample_two = run_steps sample_world sample_service
     [(minute, Create (sample_input ''b'' ''existing'' ''t'') ''B''),
      (minute, Run_Now sample_projects ''B'' [] ''r2''),
      (minute, Launch_On ''r2'' sample_launch)]"

lemma sample_two_run: "service_run sample_world sample_two"
  unfolding sample_two_def by (rule service_run_steps[OF sample_service_run])

lemma sample_two_runs:
  "map (\<lambda>r. (rr_id r, rr_routine r, rr_remote r, rr_state r, rr_mode r, rr_target r, rr_session r)) (runs (sv_db sample_two)) =
     [(''r1'', ''A'', ''local'', Running, Mode_Reuse, [], ''s''), (''r2'', ''B'', ''local'', Running, Mode_Existing, ''t'', ''t'')]"
  by code_simp

lemma shared_sessions_are_exclusive_witness:
  "\<exists>a \<in> set (runs (sv_db sample_two)). \<exists>b \<in> set (runs (sv_db sample_two)).
     rr_routine a \<noteq> rr_routine b \<and> shared_session a = ''s'' \<and> shared_session b = ''t''"
proof -
  obtain a b where ab: "runs (sv_db sample_two) = [a, b]" using sample_two_runs by (auto simp: map_eq_Cons_conv)
  then have v: "rr_id a = ''r1''" "rr_id b = ''r2''" "rr_state a = Running" "rr_state b = Running" "rr_mode a = Mode_Reuse"
    "rr_mode b = Mode_Existing" "shared_session a = ''s''" "shared_session b = ''t''"
    using sample_two_runs by (auto simp: shared_session_def)
  have "a \<noteq> b" using v(1,2) by auto
  then have "rr_routine a \<noteq> rr_routine b"
    using shared_sessions_are_exclusive[OF sample_two_run, of a b] ab v(3-6) by simp
  then show ?thesis using ab v by auto
qed

text \<open>
  C27: No step ever changes what a claim fixed in a run (its definition, project, trigger and
  occurrence), a settled run is never changed again, and the Inbox holds exactly one notice of a
  run that failed, was interrupted or asked to be heard of, and none of any other run.
\<close>

theorem settled_runs_are_final:
  assumes "service_run w s" "r \<in> set (runs (sv_db s))"
  shows "(\<exists>r' \<in> set (runs (sv_db (step w s now ev))). rr_id r' = rr_id r \<and> frozen r' = frozen r \<and>
            (rr_state r \<noteq> Running \<longrightarrow> r' = r)) \<and>
    announcements (sv_db s) (rr_id r) =
      (if rr_state r \<noteq> Running \<and> (rr_state r \<noteq> Success \<or> rr_notify r) then 1 else 0)"
proof -
  have ok: "service_ok s" by (rule service_run_ok[OF assms(1)])
  then have r: "runs_ok (runs (sv_db s))" "announced_ok (sv_db s)" by (simp_all add: service_ok_def db_ok_def)
  obtain r' where r': "r' \<in> set (runs (sv_db (step w s now ev)))" "run_later r r'"
    using db_later_row[OF step_later[OF ok] assms(2)] by blast
  have "(\<exists>q \<in> set (runs (sv_db s)). rr_id q = rr_id r \<and> news q) = news r"
    using same_id_same_row[OF r(1) _ assms(2)] assms(2) by blast
  then have "announcements (sv_db s) (rr_id r) = (if news r then 1 else 0)" using r(2) by (simp add: announced_ok_def)
  then show ?thesis using r' frozen_eq(1)[of r' r] unfolding run_later_def news_def by metis
qed

text \<open>The run of the sample fails: its session reports an error.\<close>

definition sample_view :: worktree_view where
  "sample_view = \<lparr>wv_tree = [], wv_host = True, wv_platform = True, wv_sessions = Inr [], wv_list = Inr [], wv_remove = None\<rparr>"

definition sample_failed :: service where
  "sample_failed = run_steps sample_world sample_service
     [(2 * minute, Settle ''r1'' (Obs_Session St_Error 0 [] sample_view True) False)]"

lemma sample_failed_runs: "map (\<lambda>r. (rr_id r, rr_state r)) (runs (sv_db sample_failed)) = [(''r1'', Failure)]"
  by code_simp

lemma settled_runs_are_final_witness:
  "\<exists>r \<in> set (runs (sv_db sample_failed)). rr_id r = ''r1'' \<and>
     r \<in> set (runs (sv_db (step sample_world sample_failed (3 * minute) (Settle ''r1'' Obs_Gone False)))) \<and>
     announcements (sv_db sample_failed) ''r1'' = 1"
proof -
  have run: "service_run sample_world sample_failed" unfolding sample_failed_def by (rule service_run_steps[OF sample_service_run])
  obtain r where r: "runs (sv_db sample_failed) = [r]" using sample_failed_runs by (auto simp: map_eq_Cons_conv)
  then have v: "rr_id r = ''r1''" "rr_state r = Failure" using sample_failed_runs by auto
  show ?thesis using settled_runs_are_final[OF run, of r "3 * minute" "Settle ''r1'' Obs_Gone False"] r v by auto
qed

section \<open>Schedules\<close>

text \<open>What the cron library documents: the next time is later, and a whole second.\<close>

definition cron_law :: "cron_library \<Rightarrow> bool" where
  "cron_law lib \<longleftrightarrow> (\<forall>c z t n. cron_next lib c z t = Some n \<longrightarrow> t < n \<and> n mod 1000000000 = 0)"

lemma next_milli:
  assumes "cron_law lib" "cron_next lib c z t = Some n"
  shows "unix_milli t < unix_milli n"
proof -
  have n: "t < n" "n mod 1000000000 = 0" using assms by (auto simp: cron_law_def)
  then obtain k where k: "n = 1000000000 * k" by auto
  then have "unix_milli n = 1000 * k" by (simp add: unix_milli_def)
  moreover have "t div 1000000 < 1000 * k"
  proof -
    have "t = t div 1000000 * 1000000 + t mod 1000000" "0 \<le> t mod 1000000" by simp_all
    then show ?thesis using n(1) k by linarith
  qed
  ultimately show ?thesis by (simp add: unix_milli_def)
qed

definition distinct_routines :: "rdb \<Rightarrow> bool" where
  "distinct_routines db \<longleftrightarrow> distinct (map ro_id (routines db))"

lemma find_map_routines:
  assumes "\<And>r. p r \<Longrightarrow> ro_id (f r) = ro_id r"
  shows "find_routine (map_routines p f db) i = map_option (\<lambda>r. if p r then f r else r) (find_routine db i)"
proof -
  have "find (\<lambda>r. ro_id r = i) (map (\<lambda>r. if p r then f r else r) rs) =
      map_option (\<lambda>r. if p r then f r else r) (find (\<lambda>r. ro_id r = i) rs)" for rs
    using assms by (induction rs) auto
  then show ?thesis by (simp add: find_routine_def map_routines_def)
qed

lemma find_routine_id: "find_routine db i = Some r \<Longrightarrow> ro_id r = i"
  by (auto simp: find_routine_def find_Some_iff)

text \<open>How a settled run leaves its routine.\<close>

definition routine_after :: "routine_run \<Rightarrow> run_state \<Rightarrow> int \<Rightarrow> int \<Rightarrow> bool \<Rightarrow> bool \<Rightarrow> routine \<Rightarrow> routine" where
  "routine_after run st finished next enabled advance r =
     (if st = Success \<and> ro_delete_after r \<and> \<not> ro_deleted r \<and>
         (ro_updated r = rr_version run \<or> advance \<and> ro_due r = rr_occurrence run)
      then r\<lparr>ro_due := 0, ro_enabled := False, ro_deleted := True, ro_deleted_at := finished, ro_updated := finished\<rparr>
      else if advance \<and> \<not> ro_deleted r \<and> (ro_updated r = rr_version run \<or> ro_due r = rr_occurrence run)
      then r\<lparr>ro_due := next, ro_enabled := enabled, ro_updated := finished\<rparr> else r)"

lemma settle_routine_after:
  "find_routine db (rr_routine run) = Some r \<Longrightarrow>
   find_routine (settle_routine run st finished next enabled advance db) (rr_routine run) =
     Some (routine_after run st finished next enabled advance r)"
  using find_routine_id[of db "rr_routine run" r]
  by (cases advance; cases "st = Success"; cases "ro_delete_after r"; cases "ro_deleted r"; cases "ro_updated r = rr_version run";
      cases "ro_due r = rr_occurrence run")
    (simp_all add: settle_routine_def find_map_routines routine_after_def unchanged_or_due_def)

lemma finish_routine_after:
  assumes "finish_service lib db run st err reply now = Inr db'" "find (running_run (rr_id run)) (runs db) = Some run"
    "find_routine db (rr_routine run) = Some r"
  shows "\<exists>next enabled. (if consumes run r then next_occurrence lib r now else Inr (0, False)) = Inr (next, enabled) \<and>
    find_routine db' (rr_routine run) = Some (routine_after run st (unix_milli now) next enabled (consumes run r) r)"
proof -
  have "find_routine (map_runs p f db) = find_routine db" for p f by (rule ext) (simp add: find_routine_def map_runs_def)
  moreover have "find_routine (x\<lparr>notices := ns\<rparr>) = find_routine x" for x ns by (rule ext) (simp add: find_routine_def)
  ultimately show ?thesis
    using assms settle_routine_after[of "map_runs (running_run (rr_id run)) (finished_run st err (unix_milli now)) db" run r]
    by (auto simp: finish_service_def get_routine_def finish_routine_run_def Let_def split: sum.split_asm if_split_asm prod.split_asm)
qed

text \<open>A scheduled run: the routine falls due, is claimed by the tick and linked to its session.\<close>

definition sample_created :: service where
  "sample_created = run_steps sample_world empty_service [(minute, Create (sample_input ''a'' ''reuse'' []) ''A'')]"

definition sample_scheduled :: service where
  "sample_scheduled = run_steps sample_world sample_created
     [(2 * minute, Due (hd (list_due_routines (sv_db sample_created) (unix_milli (2 * minute)))) ''r3''),
      (2 * minute, Launch_On ''r3'' sample_launch)]"

lemma sample_scheduled_run: "service_run sample_world sample_scheduled"
  unfolding sample_scheduled_def sample_created_def by (intro service_run_steps service_run.start)

definition sample_run3 :: routine_run where
  "sample_run3 = hd (runs (sv_db sample_scheduled))"

lemma sample_scheduled_facts:
  "find (running_run (rr_id sample_run3)) (runs (sv_db sample_scheduled)) = Some sample_run3"
  "rr_id sample_run3 = ''r3'' \<and> rr_trigger sample_run3 = By_Schedule \<and> rr_routine sample_run3 = ''A'' \<and>
   \<not> rr_cleanup sample_run3 \<and> \<not> rr_archive sample_run3 \<and> rr_platform sample_run3 = ''opencode'' \<and> rr_session sample_run3 = ''s''"
  "map (\<lambda>r. (ro_id r, ro_due r, ro_enabled r, ro_deleted r, ro_kind r)) (routines (sv_db sample_scheduled)) =
     [(''A'', 120000, True, False, Kind_Cron)]"
  by code_simp+

lemma sample_cron_law: "cron_law (w_cron sample_world)"
proof -
  have "t < (t div minute + 1) * minute" for t :: int
  proof -
    have 1: "t = t div minute * minute + t mod minute" by simp
    have 2: "t mod minute < minute" by (simp add: minute_def)
    have "(t div minute + 1) * minute = t div minute * minute + minute" by (simp add: distrib_right)
    then show ?thesis using 1 2 by linarith
  qed
  moreover have "(x * minute) mod 1000000000 = 0" for x :: int
  proof -
    have "x * minute = (x * 60) * 1000000000" by (simp add: minute_def)
    then show ?thesis by (metis mod_mult_self2_is_0)
  qed
  ultimately show ?thesis by (auto simp: cron_law_def sample_world_def)
qed

text \<open>
  C26: Settling a run that consumed a scheduled occurrence leaves the routine not due at that moment,
  if the routine has not changed since the run was claimed or is still due at that very occurrence: a
  cron routine that is enabled is next due later, any other is disabled. A routine whose schedule was
  edited meanwhile keeps its edit, and a run that consumed no occurrence leaves the routine exactly
  as it was. Only a success deletes a routine, only one that asks for it and has not been edited.
\<close>

theorem settled_occurrence_is_not_due_again:
  assumes "finish_service lib db run st err reply now = Inr db'" "find (running_run (rr_id run)) (runs db) = Some run"
    "find_routine db (rr_routine run) = Some r" "\<not> ro_deleted r" "cron_law lib"
  shows "\<exists>r'. find_routine db' (rr_routine run) = Some r' \<and>
    (consumes run r \<and> (ro_updated r = rr_version run \<or> ro_due r = rr_occurrence run) \<longrightarrow>
       \<not> is_due db' (unix_milli now) r' \<and>
       (\<not> ro_deleted r' \<longrightarrow> (ro_enabled r' \<longleftrightarrow> ro_kind r = Kind_Cron \<and> ro_enabled r) \<and>
                          (ro_enabled r' \<longrightarrow> unix_milli now < ro_due r'))) \<and>
    (\<not> (consumes run r \<and> (ro_updated r = rr_version run \<or> ro_due r = rr_occurrence run)) \<and> \<not> ro_deleted r' \<longrightarrow> r' = r) \<and>
    (ro_deleted r' \<longleftrightarrow> st = Success \<and> ro_delete_after r \<and>
       (ro_updated r = rr_version run \<or> consumes run r \<and> ro_due r = rr_occurrence run))"
proof -
  obtain nx enabled where n: "(if consumes run r then next_occurrence lib r now else Inr (0, False)) = Inr (nx, enabled)"
    and f: "find_routine db' (rr_routine run) = Some (routine_after run st (unix_milli now) nx enabled (consumes run r) r)"
    using finish_routine_after[OF assms(1-3)] by blast
  have e: "(enabled \<longleftrightarrow> ro_kind r = Kind_Cron \<and> ro_enabled r) \<and> (enabled \<longrightarrow> unix_milli now < nx)" if c: "consumes run r"
  proof (cases "ro_kind r = Kind_Cron \<and> ro_enabled r")
    case True
    then show ?thesis using n c assms(4) next_milli[OF assms(5)]
      by (auto simp: next_occurrence_def encode_schedule_def Let_def split: schedule_config.split_asm sum.split_asm option.split_asm if_split_asm)
  next
    case False
    then show ?thesis using n c by (auto simp: next_occurrence_def)
  qed
  define r' where "r' = routine_after run st (unix_milli now) nx enabled (consumes run r) r"
  let ?same = "ro_updated r = rr_version run" and ?at = "ro_due r = rr_occurrence run"
  let ?del = "st = Success \<and> ro_delete_after r \<and> (?same \<or> consumes run r \<and> ?at)"
  have k: "r' = (if ?del then r\<lparr>ro_due := 0, ro_enabled := False, ro_deleted := True, ro_deleted_at := unix_milli now, ro_updated := unix_milli now\<rparr>
      else if consumes run r \<and> (?same \<or> ?at) then r\<lparr>ro_due := nx, ro_enabled := enabled, ro_updated := unix_milli now\<rparr> else r)"
    unfolding r'_def routine_after_def using assms(4) by (intro if_cong refl) blast+
  have del: "ro_deleted r' \<longleftrightarrow> ?del" unfolding k using assms(4) by auto
  have adv: "ro_due r' = nx \<and> ro_enabled r' = enabled" if "consumes run r" "?same \<or> ?at" "\<not> ?del" using that unfolding k by auto
  have "\<not> is_due db' (unix_milli now) r' \<and>
      (\<not> ro_deleted r' \<longrightarrow> (ro_enabled r' \<longleftrightarrow> ro_kind r = Kind_Cron \<and> ro_enabled r) \<and> (ro_enabled r' \<longrightarrow> unix_milli now < ro_due r'))"
    if c: "consumes run r" "?same \<or> ?at"
  proof (cases ?del)
    case True
    then show ?thesis using del by (simp add: is_due_def)
  next
    case False
    then show ?thesis using adv[OF c False] e[OF c(1)] unfolding is_due_def by force
  qed
  moreover have "r' = r" if unused: "\<not> (consumes run r \<and> (?same \<or> ?at))" and "\<not> ro_deleted r'"
  proof -
    have "\<not> ?del" using that(2) del by blast
    show ?thesis unfolding k if_not_P[OF \<open>\<not> ?del\<close>] if_not_P[OF unused] by (rule refl)
  qed
  ultimately show ?thesis using f del unfolding r'_def[symmetric] by blast
qed

lemma settled_occurrence_is_not_due_again_witness:
  "\<exists>db' r'. finish_service (w_cron sample_world) (sv_db sample_scheduled) sample_run3 Failure ''e'' [] (3 * minute) = Inr db' \<and>
     find_routine db' ''A'' = Some r' \<and> \<not> is_due db' 180000 r'"
proof -
  obtain r where r: "find_routine (sv_db sample_scheduled) ''A'' = Some r" "\<not> ro_deleted r" "ro_due r = 120000" "ro_id r = ''A''"
    using sample_scheduled_facts(3) by (auto simp: find_routine_def map_eq_Cons_conv)
  have "\<exists>db'. finish_service (w_cron sample_world) (sv_db sample_scheduled) sample_run3 Failure ''e'' [] (3 * minute) = Inr db'"
  proof -
    have "(case finish_service (w_cron sample_world) (sv_db sample_scheduled) sample_run3 Failure ''e'' [] (3 * minute) of Inl _ \<Rightarrow> False | Inr _ \<Rightarrow> True)"
      by code_simp
    then show ?thesis by (auto split: sum.split_asm)
  qed
  then obtain db' where f: "finish_service (w_cron sample_world) (sv_db sample_scheduled) sample_run3 Failure ''e'' [] (3 * minute) = Inr db'" ..
  have "rr_occurrence sample_run3 = 120000" by code_simp
  then show ?thesis
    using settled_occurrence_is_not_due_again[OF f sample_scheduled_facts(1) _ r(2) sample_cron_law] r sample_scheduled_facts(2) f
    by (auto simp: consumes_def unix_milli_def minute_def)
qed

section \<open>Where it falls short\<close>

lemma find_live:
  assumes "find_routine db i = Some r" "\<not> ro_deleted r"
  shows "find (\<lambda>r. ro_id r = i \<and> \<not> ro_deleted r) (routines db) = Some r"
proof -
  have "find (\<lambda>r. ro_id r = i \<and> \<not> ro_deleted r) rs = Some r" if "find (\<lambda>r. ro_id r = i) rs = Some r" for rs
    using that assms(2) by (induction rs) (auto split: if_split_asm)
  then show ?thesis using assms(1) by (simp add: find_routine_def)
qed

text \<open>A routine that continues a session finds the session taken by another routine's run.\<close>

lemma claim_session_taken:
  assumes "find_routine db i = Some r" "\<not> ro_deleted r" "ro_directory r \<noteq> []" "ro_mode r \<noteq> Mode_New" "ro_session r \<noteq> []" "0 < occurrence"
    "x \<in> set (runs db)" "target_claim x = Some (ro_remote r, ro_session r)"
    "\<not> (\<exists>q \<in> set (runs db). rr_routine q = i \<and> rr_occurrence q = occurrence)"
  shows "claim_routine_run db (new_run new i trig occurrence now) None = Inl Run_Active"
proof -
  note f = find_live[OF assms(1,2)]
  have t: "target_claim (snapshot r (ro_directory r) (new_run new i trig occurrence now)) = Some (ro_remote r, ro_session r)"
    using assms(4,5) by (simp add: target_claim_def snapshot_def new_run_def)
  have "\<exists>q \<in> set (runs db). clash (snapshot r (ro_directory r) (new_run new i trig occurrence now)) q"
    using assms(7,8) t by (intro bexI[of _ x]) (simp_all add: clash_def)
  moreover have "find (\<lambda>q. rr_routine q = i \<and> rr_occurrence q = occurrence) (runs db) = None"
    using assms(9) by (auto simp: find_None_iff)
  moreover have "rr_routine (new_run new i trig occurrence now) = i" "rr_occurrence (new_run new i trig occurrence now) = occurrence"
    "rr_occurrence (snapshot r (ro_directory r) (new_run new i trig occurrence now)) = occurrence"
    by (simp_all add: new_run_def snapshot_def)
  moreover have "run_directory r None = Some (ro_directory r)" using assms(3) by (simp add: run_directory_def)
  ultimately show ?thesis using f assms(6) by (simp add: claim_routine_run_def Let_def)
qed

text \<open>
  C36: When the first due routine continues a session in which another routine's run is still at work,
  the tick stops there: no other due routine is launched, whatever it needs, until that run settles.
\<close>

theorem taken_session_stops_the_tick:
  assumes "settle_running w (sv_db s) ob False now = (True, db)" "list_due_routines db (unix_milli now) = r # rs"
    "find_routine db (ro_id r) = Some r" "\<not> ro_deleted r" "0 < ro_due r" "ro_directory r \<noteq> []" "ro_mode r \<noteq> Mode_New" "ro_session r \<noteq> []"
    "x \<in> set (runs db)" "target_claim x = Some (ro_remote r, ro_session r)"
    "\<not> (\<exists>q \<in> set (runs db). rr_routine q = ro_id r \<and> rr_occurrence q = ro_due r)"
  shows "tick w s ob tw now = (Some Run_Active, s\<lparr>sv_db := db\<rparr>)"
proof -
  have "claim_routine_run db (new_run (tw_new (tw r)) (ro_id r) By_Schedule (ro_due r) now) None = Inl Run_Active"
    by (rule claim_session_taken[OF assms(3,4,6-8,5,9-11)])
  then show ?thesis using assms(1,2)
    by (simp add: tick_def claim_and_dispatch_def claim_step_def)
qed

text \<open>Two routines continue one session; the run of the first is at work when the second, and a third
  routine with a session of its own, fall due.\<close>

definition sample_taken :: service where
  "sample_taken =
     (let s = run_steps sample_world empty_service
                [(minute, Create (sample_input ''a'' ''existing'' ''t'') ''A''),
                 (minute, Run_Now sample_projects ''A'' [] ''r1''),
                 (minute, Launch_On ''r1'' sample_launch),
                 (minute, Create (sample_input ''b'' ''existing'' ''t'') ''B''),
                 (minute, Create (sample_input ''c'' ''new'' []) ''C'')]
      in s)"

definition busy :: "routine_run \<Rightarrow> observation" where
  "busy r = Obs_Session St_Busy 0 [] sample_view True"

definition sample_tick :: "routine \<Rightarrow> tick_world" where
  "sample_tick r = \<lparr>tw_launch = sample_launch, tw_send = None, tw_new = ''r9''\<rparr>"

lemma taken_session_stops_the_tick_witness:
  "map ro_id (list_due_routines (sv_db sample_taken) 120000) = [''B'', ''C''] \<and>
   tick sample_world sample_taken busy sample_tick (2 * minute) = (Some Run_Active, sample_taken)"
proof -
  let ?db = "sv_db sample_taken"
  have l: "map (\<lambda>r. (ro_id r, ro_deleted r, ro_due r, ro_directory r, ro_mode r, ro_session r, ro_remote r)) (list_due_routines ?db 120000) =
      [(''B'', False, 120000, ''/d'', Mode_Existing, ''t'', ''local''), (''C'', False, 120000, ''/d'', Mode_New, [], ''local'')]"
    by code_simp
  have fr: "find_routine ?db ''B'' = Some (hd (list_due_routines ?db 120000))" by code_simp
  have runs: "map (\<lambda>q. (rr_id q, rr_routine q, target_claim q)) (runs ?db) = [(''r1'', ''A'', Some (''local'', ''t''))]" by code_simp
  have st: "settle_running sample_world ?db busy False (2 * minute) = (True, ?db)"
  proof -
    have "settle_outcome q (busy q) False now = None" for q now by (simp add: settle_outcome_def busy_def)
    then have "settle_all sample_world d rs busy False now = (True, d)" for d rs now by (induction rs) (simp_all add: settle_run_def)
    then show ?thesis by (simp add: settle_running_def)
  qed
  have ms: "unix_milli (2 * minute) = 120000" by (simp add: unix_milli_def minute_def)
  obtain b rs where b: "list_due_routines ?db 120000 = b # rs" using l by (auto simp: map_eq_Cons_conv)
  obtain x where x: "runs ?db = [x]" "rr_routine x = ''A''" "target_claim x = Some (''local'', ''t'')" using runs by (auto simp: map_eq_Cons_conv)
  have v: "ro_id b = ''B''" "\<not> ro_deleted b" "ro_due b = 120000" "ro_directory b = ''/d''" "ro_mode b = Mode_Existing"
    "ro_session b = ''t''" "ro_remote b = ''local''" using l b by simp_all
  have "tick sample_world sample_taken busy sample_tick (2 * minute) = (Some Run_Active, sample_taken\<lparr>sv_db := ?db\<rparr>)"
    by (rule taken_session_stops_the_tick[OF st, of b rs x]) (use v b x fr in \<open>simp_all add: ms\<close>)
  moreover have "map ro_id (list_due_routines ?db 120000) = map fst (map (\<lambda>r. (ro_id r, ro_deleted r, ro_due r, ro_directory r, ro_mode r, ro_session r, ro_remote r)) (list_due_routines ?db 120000))"
    by (simp add: comp_def)
  ultimately show ?thesis using l by simp
qed

lemma map_row: "x \<in> set xs \<Longrightarrow> p x \<Longrightarrow> f x \<in> set (map (\<lambda>r. if p r then f r else r) xs)"
  by (induction xs) auto

text \<open>
  A run that was linked but not prompted yet counts as finished when its session looks idle: the
  settlement writes a success, and only then is the prompt sent, to a session the run no longer holds.
\<close>

theorem success_can_precede_the_prompt:
  assumes "service_run w s" "f \<in> set (sv_flights s)" "fl_stage f = Linked pid session"
    "find (running_run (flight_id f)) (runs (sv_db s)) = Some run"
    "\<not> rr_cleanup run" "\<not> rr_archive run" "rr_platform run \<noteq> []"
    "finish_service (w_cron w) (sv_db s) run Success (cleanup_run_worktree run view) reply now = Inr db"
  shows "let s1 = step w s now (Settle (flight_id f) (Obs_Session St_Done updated reply view ok) False);
             s2 = step w s1 later (Send_On (flight_id f) None)
         in (\<exists>r \<in> set (runs (sv_db s1)). rr_id r = flight_id f \<and> rr_state r = Success) \<and>
            flight_id f \<notin> fst ` set (sv_prompted s1) \<and>
            (flight_id f, session, fl_prompt f) \<in> set (sv_prompted s2)"
proof -
  let ?s1 = "step w s now (Settle (flight_id f) (Obs_Session St_Done updated reply view ok) False)"
  have ok: "service_ok s" by (rule service_run_ok[OF assms(1)])
  have run: "run \<in> set (runs (sv_db s))" "running_run (flight_id f) run" using assms(4) by (auto simp: find_Some_iff)
  have "rr_session run \<noteq> []"
  proof -
    obtain r where r: "r \<in> set (runs (sv_db s))" "frozen r = frozen (fl_run f)" "session \<noteq> []" "rr_session r = session"
      using ok assms(2,3) by (auto simp: service_ok_def flight_ok_def)
    then have "r = run" using same_id_same_row[of "runs (sv_db s)" r run] ok run frozen_eq(1)[OF r(2)]
      by (simp add: service_ok_def db_ok_def)
    then show ?thesis using r by simp
  qed
  then have s1: "?s1 = s\<lparr>sv_db := db\<rparr>" using assms(4-8) by (simp add: settle_run_def settle_outcome_def)
  have "finished_run Success (cleanup_run_worktree run view) (unix_milli now) run \<in> set (runs db)"
  proof -
    have "rr_id run = flight_id f" using run by simp
    then obtain nx en adv b where "finish_routine_run (sv_db s) (flight_id f) Success (cleanup_run_worktree run view) reply (unix_milli now) nx en adv = Inr (b, db)"
      using assms(8) by (auto simp: finish_service_def split: sum.split_asm if_split_asm)
    then have "runs db = map (\<lambda>r. if running_run (flight_id f) r then finished_run Success (cleanup_run_worktree run view) (unix_milli now) r else r) (runs (sv_db s))"
      using assms(4) by (auto simp: finish_routine_run_def Let_def map_runs_def split: if_split_asm)
    then show ?thesis using map_row[of run "runs (sv_db s)" "running_run (flight_id f)"] run by simp
  qed
  moreover have "rr_id (finished_run Success (cleanup_run_worktree run view) (unix_milli now) run) = flight_id f"
    "rr_state (finished_run Success (cleanup_run_worktree run view) (unix_milli now) run) = Success"
    using run by (simp_all add: finished_run_def)
  ultimately have "\<exists>r \<in> set (runs db). rr_id r = flight_id f \<and> rr_state r = Success" by blast
  then have "\<exists>r \<in> set (runs (sv_db ?s1)). rr_id r = flight_id f \<and> rr_state r = Success" unfolding s1 by simp
  moreover have "flight_id f \<notin> fst ` set (sv_prompted ?s1)" using ok assms(2) s1 by (simp add: service_ok_def)
  moreover have "(flight_id f, session, fl_prompt f) \<in> set (sv_prompted (step w ?s1 later (Send_On (flight_id f) None)))"
  proof -
    have d: "distinct (map flight_id (sv_flights s))" using ok by (simp add: service_ok_def)
    have "find (flight_of (flight_id f)) fs = Some f" if "f \<in> set fs" "distinct (map flight_id fs)" for fs
      using that by (induction fs) (auto simp: image_iff)
    then have "find (flight_of (flight_id f)) (sv_flights ?s1) = Some f" using assms(2) d s1 by simp
    then show ?thesis using assms(3) by (simp add: send_step_def drop_flight_def Let_def)
  qed
  ultimately show ?thesis by (simp add: Let_def)
qed

lemma sample_finish:
  "\<exists>db. finish_service (w_cron sample_world) (sv_db sample_scheduled) sample_run3 Success (cleanup_run_worktree sample_run3 sample_view) [] (2 * minute) = Inr db"
proof -
  have "(case finish_service (w_cron sample_world) (sv_db sample_scheduled) sample_run3 Success (cleanup_run_worktree sample_run3 sample_view) [] (2 * minute)
         of Inl _ \<Rightarrow> False | Inr _ \<Rightarrow> True)" by code_simp
  then show ?thesis by (auto split: sum.split_asm)
qed

lemma success_can_precede_the_prompt_witness:
  "\<exists>f. sv_flights sample_scheduled = [f] \<and>
     (let s1 = step sample_world sample_scheduled (2 * minute) (Settle ''r3'' (Obs_Session St_Done 0 [] sample_view True) False);
          s2 = step sample_world s1 (2 * minute) (Send_On ''r3'' None)
      in (\<exists>r \<in> set (runs (sv_db s1)). rr_id r = ''r3'' \<and> rr_state r = Success) \<and> (''r3'', ''s'', ''p'') \<in> set (sv_prompted s2))"
proof -
  have l: "map (\<lambda>f. (flight_id f, fl_prompt f, case fl_stage f of Claimed \<Rightarrow> ('''', '''') | Linked p t \<Rightarrow> (p, t))) (sv_flights sample_scheduled) =
      [(''r3'', ''p'', ''opencode'', ''s'')]" by code_simp
  then obtain f where f: "sv_flights sample_scheduled = [f]" by (auto simp: map_eq_Cons_conv)
  then have v: "flight_id f = ''r3''" "fl_prompt f = ''p''" "fl_stage f = Linked ''opencode'' ''s''"
    using l by (auto split: stage.split_asm)
  have m: "f \<in> set (sv_flights sample_scheduled)" using f by simp
  obtain db where "finish_service (w_cron sample_world) (sv_db sample_scheduled) sample_run3 Success (cleanup_run_worktree sample_run3 sample_view) [] (2 * minute) = Inr db"
    using sample_finish ..
  then show ?thesis
    using success_can_precede_the_prompt[OF sample_scheduled_run m v(3), of sample_run3 sample_view "[]" "2 * minute" db 0 True "2 * minute"]
      sample_scheduled_facts v f by (simp add: Let_def del: step.simps)
qed

text \<open>
  The claim asks whether the routine still exists, not whether it is still due: a routine that was
  disabled or given another schedule after the tick had listed it is run all the same, and settling
  that run discards the new schedule: a routine without a cron schedule ends up disabled and due never.
\<close>

theorem stale_listing_discards_the_schedule:
  assumes "find_routine (sv_db s) (ro_id seen) = Some r" "\<not> ro_deleted r" "ro_directory r \<noteq> []" "0 < ro_due seen"
    "\<not> is_due (sv_db s) (unix_milli now) r" "ro_kind r \<noteq> Kind_Cron"
    "\<not> (\<exists>q \<in> set (runs (sv_db s)). clash (snapshot r (ro_directory r) (new_run new (ro_id seen) By_Schedule (ro_due seen) now)) q)"
  shows "\<exists>run \<in> set (runs (sv_db (step w s now (Due seen new)))).
     rr_id run = new \<and> rr_state run = Running \<and> rr_occurrence run = ro_due seen \<and>
     (\<forall>lib st err reply later db. finish_service lib (sv_db (step w s now (Due seen new))) run st err reply later = Inr db \<longrightarrow>
        (\<exists>r'. find_routine db (ro_id seen) = Some r' \<and> \<not> ro_enabled r' \<and> ro_due r' = 0))"
proof -
  let ?run = "snapshot r (ro_directory r) (new_run new (ro_id seen) By_Schedule (ro_due seen) now)"
  let ?s = "step w s now (Due seen new)"
  have v: "rr_id ?run = new" "rr_state ?run = Running" "rr_occurrence ?run = ro_due seen" "rr_routine ?run = ro_id seen"
    "rr_trigger ?run = By_Schedule" "rr_version ?run = ro_updated r" by (simp_all add: snapshot_def new_run_def)
  have n: "rr_routine (new_run new (ro_id seen) By_Schedule (ro_due seen) now) = ro_id seen" by (simp add: new_run_def)
  have "claim_routine_run (sv_db s) (new_run new (ro_id seen) By_Schedule (ro_due seen) now) None =
      Inr (?run, True, (sv_db s)\<lparr>runs := runs (sv_db s) @ [?run]\<rparr>)"
    using find_live[OF assms(1,2)] assms(3,4,7) v(3) n by (simp add: claim_routine_run_def run_directory_def Let_def)
  then have s: "sv_db ?s = (sv_db s)\<lparr>runs := runs (sv_db s) @ [?run]\<rparr>" by (simp add: claim_step_def)
  have fresh: "\<not> (\<exists>q \<in> set (runs (sv_db s)). rr_id q = new)" using assms(7) v(1) by (auto simp: clash_def)
  have run: "find (running_run (rr_id ?run)) (runs (sv_db ?s)) = Some ?run"
  proof -
    have "find (running_run new) rs = None" if "\<not> (\<exists>q \<in> set rs. rr_id q = new)" for rs using that by (auto simp: find_None_iff)
    moreover have "find P xs = None \<Longrightarrow> P y \<Longrightarrow> find P (xs @ [y]) = Some y" for P xs and y :: routine_run by (induction xs) (auto split: if_split_asm)
    ultimately show ?thesis using fresh v(1,2) s by simp
  qed
  have "\<exists>r'. find_routine db (ro_id seen) = Some r' \<and> \<not> ro_enabled r' \<and> ro_due r' = 0"
    if f: "finish_service lib (sv_db ?s) ?run st err reply later = Inr db" for lib st err reply later db
  proof -
    have "find_routine (sv_db ?s) (rr_routine ?run) = Some r" using assms(1) s v(4) by (simp add: find_routine_def)
    then obtain nx en where a: "(if consumes ?run r then next_occurrence lib r later else Inr (0, False)) = Inr (nx, en)"
      "find_routine db (rr_routine ?run) = Some (routine_after ?run st (unix_milli later) nx en (consumes ?run r) r)"
      using finish_routine_after[OF f run] by blast
    have c: "consumes ?run r" using v(5) by (simp add: consumes_def)
    then have "nx = 0" "\<not> en" using a(1) assms(6) by (auto simp: next_occurrence_def)
    then show ?thesis using a(2) c assms(2) v(4,6) by (simp add: routine_after_def)
  qed
  then show ?thesis using s v(1-3) by (intro bexI[of _ ?run]) auto
qed

text \<open>While the tick is busy, the cron routine it listed becomes one that is to run once, in an hour.\<close>

definition sample_seen :: routine where
  "sample_seen = hd (list_due_routines (sv_db sample_created) 120000)"

definition sample_rescheduled :: service where
  "sample_rescheduled = run_steps sample_world sample_created
     [(2 * minute, Update ''A'' ((sample_input ''a'' ''reuse'' [])\<lparr>in_schedule :=
        \<lparr>sc_kind = Some Kind_Once, sc_timeout = 0, sc_at = 62 * minute, sc_cron = [], sc_zone = []\<rparr>\<rparr>))]"

lemma stale_listing_discards_the_schedule_witness:
  "\<exists>run \<in> set (runs (sv_db (step sample_world sample_rescheduled (2 * minute) (Due sample_seen ''r4'')))).
     rr_id run = ''r4'' \<and> rr_state run = Running \<and> rr_occurrence run = 120000"
proof -
  let ?db = "sv_db sample_rescheduled"
  have l: "map (\<lambda>r. (ro_id r, ro_deleted r, ro_directory r, ro_due r, ro_kind r)) (routines ?db) = [(''A'', False, ''/d'', 3720000, Kind_Once)]"
    and seen: "ro_id sample_seen = ''A''" "ro_due sample_seen = 120000" and none: "runs ?db = []" by code_simp+
  obtain r where r: "routines ?db = [r]" using l by (auto simp: map_eq_Cons_conv)
  then have v: "find_routine ?db (ro_id sample_seen) = Some r" "\<not> ro_deleted r" "ro_directory r \<noteq> []" "ro_due r = 3720000" "ro_kind r \<noteq> Kind_Cron"
    using l seen by (auto simp: find_routine_def)
  have "\<not> is_due ?db (unix_milli (2 * minute)) r" using v(4) by (simp add: is_due_def unix_milli_def minute_def)
  then show ?thesis
    using stale_listing_discards_the_schedule[OF v(1-3) _ _ v(5), of "2 * minute" "''r4''" sample_world] seen none by auto
qed

text \<open>
  A cron routine that is disabled while its run is at work loses its due time when the run is
  settled, and an edit that keeps the schedule and enables it again leaves it enabled, with its cron
  schedule, and never due.
\<close>

theorem reenabled_cron_routine_is_never_due:
  assumes "finish_service lib db run st err reply now = Inr db'" "find (running_run (rr_id run)) (runs db) = Some run"
    "find_routine db (rr_routine run) = Some r" "\<not> ro_deleted r" "ro_kind r = Kind_Cron" "\<not> ro_enabled r"
    "ro_due r = rr_occurrence run" "consumes run r"
    "\<not> (st = Success \<and> ro_delete_after r)" "in_keep inp" "in_enabled inp" "update_service w db' (rr_routine run) inp later = Inr (r2, db2)"
  shows "ro_enabled r2 \<and> ro_kind r2 = Kind_Cron \<and> find_routine db2 (rr_routine run) = Some r2 \<and> (\<forall>t. \<not> is_due db2 t r2)"
proof -
  obtain nx en where a: "(if consumes run r then next_occurrence lib r now else Inr (0, False)) = Inr (nx, en)"
    "find_routine db' (rr_routine run) = Some (routine_after run st (unix_milli now) nx en (consumes run r) r)"
    using finish_routine_after[OF assms(1-3)] by blast
  have "nx = 0" using a(1) assms(6,8) by (auto simp: next_occurrence_def)
  then have after: "routine_after run st (unix_milli now) nx en (consumes run r) r = r\<lparr>ro_due := 0, ro_enabled := en, ro_updated := unix_milli now\<rparr>"
    using assms(4,7,8,9) by (auto simp: routine_after_def)
  define old where "old = r\<lparr>ro_due := 0, ro_enabled := en, ro_updated := unix_milli now\<rparr>"
  have old: "find_routine db' (rr_routine run) = Some old" "ro_due old = 0" "ro_kind old = Kind_Cron" "\<not> ro_deleted old" "ro_id old = rr_routine run"
    using a(2) assms(4,5) find_routine_id[OF assms(3)] unfolding after old_def by simp_all
  obtain i1 b where u: "target_platform w inp = Inr i1"
    "build_routine (w_cron w) (if in_platform i1 = [] then i1\<lparr>in_platform := ro_platform old\<rparr> else i1) later = Inr b"
    and db: "update_routine db' (b\<lparr>ro_kind := Kind_Cron, ro_config := ro_config old, ro_due := 0, ro_id := rr_routine run,
        ro_created := ro_created old, ro_updated := unix_milli later\<rparr>) = Inr db2"
    and r2: "find_routine db2 (rr_routine run) = Some r2"
  proof -
    have i1k: "in_keep i1 = in_keep inp" if "target_platform w inp = Inr i1" for i1
      using that by (auto simp: target_platform_def split: if_split_asm option.split_asm)
    show ?thesis using assms(10,12) old i1k
      by (auto simp: update_service_def get_routine_def Let_def split: sum.split_asm option.split_asm if_split_asm intro!: that)
  qed
  have i1: "in_enabled i1" using u(1) assms(11) by (auto simp: target_platform_def split: if_split_asm option.split_asm)
  have b: "ro_enabled b" using u(2) i1 by (auto simp: build_routine_def built_routine_def Let_def split: if_split_asm option.split_asm sum.split_asm)
  let ?live = "\<lambda>x. ro_id x = rr_routine run \<and> \<not> ro_deleted x"
  let ?new = "b\<lparr>ro_kind := Kind_Cron, ro_config := ro_config old, ro_due := 0, ro_id := rr_routine run,
        ro_created := ro_created old, ro_updated := unix_milli later\<rparr>"
  have "db2 = map_routines ?live (updated_routine ?new) db'" using db by (simp add: update_routine_def Let_def split: if_split_asm)
  moreover have "ro_id (updated_routine ?new x) = ro_id x" if "?live x" for x using that by (simp add: updated_routine_def)
  ultimately have "find_routine db2 (rr_routine run) = Some (updated_routine ?new old)"
    using find_map_routines[of ?live "updated_routine ?new" db' "rr_routine run"] old by simp
  then have "r2 = updated_routine ?new old" using r2 by simp
  then show ?thesis using r2 b by (simp add: updated_routine_def is_due_def)
qed

text \<open>The scheduled run of the sample is at work while its routine is disabled, and enabled again afterwards.\<close>

definition sample_keep :: "bool \<Rightarrow> input" where
  "sample_keep enabled = (sample_input ''a'' ''reuse'' [])\<lparr>in_keep := True, in_enabled := enabled\<rparr>"

definition sample_disabled :: service where
  "sample_disabled = run_steps sample_world sample_scheduled [(2 * minute, Update ''A'' (sample_keep False))]"

lemma reenabled_cron_routine_is_never_due_witness:
  "\<exists>db' r2 db2. finish_service (w_cron sample_world) (sv_db sample_disabled) sample_run3 Failure ''e'' [] (3 * minute) = Inr db' \<and>
     update_service sample_world db' ''A'' (sample_keep True) (4 * minute) = Inr (r2, db2) \<and> ro_enabled r2 \<and> ro_kind r2 = Kind_Cron \<and>
     (\<forall>t. \<not> is_due db2 t r2)"
proof -
  let ?db = "sv_db sample_disabled"
  have l: "map (\<lambda>r. (ro_id r, ro_due r, ro_enabled r, ro_deleted r, ro_kind r, ro_delete_after r)) (routines ?db) = [(''A'', 120000, False, False, Kind_Cron, False)]"
    and run: "find (running_run (rr_id sample_run3)) (runs ?db) = Some sample_run3" "rr_routine sample_run3 = ''A''" "rr_trigger sample_run3 = By_Schedule"
    "rr_occurrence sample_run3 = 120000" by code_simp+
  obtain r where r: "routines ?db = [r]" using l by (auto simp: map_eq_Cons_conv)
  then have v: "find_routine ?db (rr_routine sample_run3) = Some r" "\<not> ro_deleted r" "ro_kind r = Kind_Cron" "\<not> ro_enabled r"
    "ro_due r = rr_occurrence sample_run3" "\<not> (Failure = Success \<and> ro_delete_after r)" "consumes sample_run3 r"
    using l run by (auto simp: find_routine_def consumes_def)
  have "(case finish_service (w_cron sample_world) ?db sample_run3 Failure ''e'' [] (3 * minute) of Inl _ \<Rightarrow> False
         | Inr db' \<Rightarrow> (case update_service sample_world db' ''A'' (sample_keep True) (4 * minute) of Inl _ \<Rightarrow> False | Inr _ \<Rightarrow> True))"
    by code_simp
  then obtain db' r2 db2 where d: "finish_service (w_cron sample_world) ?db sample_run3 Failure ''e'' [] (3 * minute) = Inr db'"
    "update_service sample_world db' (rr_routine sample_run3) (sample_keep True) (4 * minute) = Inr (r2, db2)"
    using run(2) by (auto split: sum.split_asm)
  have k: "in_keep (sample_keep True)" "in_enabled (sample_keep True)" by (simp_all add: sample_keep_def)
  show ?thesis using reenabled_cron_routine_is_never_due[OF d(1) run(1) v(1-5) v(7,6) k d(2)] d run(2) by auto
qed

end
