(* ===== verification/Webhook_Runs.thy ===== *)
theory Webhook_Runs
  imports Webhook_Delivery Routine_Promises
begin

text \<open>
  Every run of the webhook tables beside the routine service: deliveries attempted and replayed,
  subscriptions edited, histories cleaned up, routines edited, launched, settled and crashed. The
  invariant says that a dispatch exists once for each delivery and routine and that a dispatch that
  ended well has its run.
\<close>

section \<open>What the routine service leaves alone\<close>

text \<open>A step of the service only cancels queued dispatches, and a deleted routine stays deleted.\<close>

definition moved_dispatch :: "(dispatch_row \<Rightarrow> dispatch_row) \<Rightarrow> bool" where
  "moved_dispatch f \<longleftrightarrow>
     (\<forall>d. di_inbox (f d) = di_inbox d \<and> di_delivery (f d) = di_delivery d \<and> di_routine (f d) = di_routine d \<and>
        (f d = d \<or> di_state d = Disp_Queued \<and> di_state (f d) = Disp_Cancelled))"

definition stay_deleted :: "rdb \<Rightarrow> rdb \<Rightarrow> bool" where
  "stay_deleted db db' \<longleftrightarrow>
     (\<forall>r \<in> set (routines db). ro_deleted r \<longrightarrow> (\<exists>r' \<in> set (routines db'). ro_id r' = ro_id r \<and> ro_deleted r'))"

definition kept :: "rdb \<Rightarrow> rdb \<Rightarrow> bool" where
  "kept db db' \<longleftrightarrow> (\<exists>f. dispatches db' = map f (dispatches db) \<and> moved_dispatch f) \<and> stay_deleted db db'"

lemma keptI: "dispatches db' = dispatches db \<Longrightarrow> stay_deleted db db' \<Longrightarrow> kept db db'"
  unfolding kept_def by (intro conjI exI[of _ id]) (simp_all add: moved_dispatch_def)

lemma stay_same: "routines db' = routines db \<Longrightarrow> stay_deleted db db'"
  by (auto simp: stay_deleted_def)

lemma kept_refl [simp]: "kept db db"
  by (rule keptI) (simp_all add: stay_same)

lemma moved_comp: "moved_dispatch f \<Longrightarrow> moved_dispatch g \<Longrightarrow> moved_dispatch (g \<circ> f)"
  unfolding moved_dispatch_def comp_def by (metis dispatch_state.distinct(7))

lemma kept_trans: "kept a b \<Longrightarrow> kept b c \<Longrightarrow> kept a c"
proof -
  assume a: "kept a b" and b: "kept b c"
  obtain f where f: "dispatches b = map f (dispatches a)" "moved_dispatch f" using a unfolding kept_def by blast
  obtain g where g: "dispatches c = map g (dispatches b)" "moved_dispatch g" using b unfolding kept_def by blast
  have "stay_deleted a c" using a b unfolding kept_def stay_deleted_def by metis
  moreover have "dispatches c = map (g \<circ> f) (dispatches a)" using f(1) g(1) by simp
  ultimately show "kept a c" using moved_comp[OF f(2) g(2)] unfolding kept_def by blast
qed

lemma stay_map:
  assumes "\<And>r. p r \<Longrightarrow> ro_id (f r) = ro_id r \<and> (ro_deleted r \<longrightarrow> ro_deleted (f r))"
  shows "stay_deleted db (map_routines p f db)"
proof -
  define g where "g = (\<lambda>r. if p r then f r else r)"
  have rows: "routines (map_routines p f db) = map g (routines db)" by (simp add: map_routines_def g_def)
  show ?thesis unfolding stay_deleted_def rows
  proof (intro ballI impI)
    fix r assume r: "r \<in> set (routines db)" "ro_deleted r"
    then have "ro_id (g r) = ro_id r \<and> ro_deleted (g r)" using assms by (simp add: g_def)
    then show "\<exists>r' \<in> set (map g (routines db)). ro_id r' = ro_id r \<and> ro_deleted r'" using r by (intro bexI[of _ "g r"]) simp_all
  qed
qed

lemma dispatches_map_routines [simp]: "dispatches (map_routines p f db) = dispatches db"
  by (simp add: map_routines_def)

lemma kept_routines:
  "(\<And>r. p r \<Longrightarrow> ro_id (f r) = ro_id r \<and> (ro_deleted r \<longrightarrow> ro_deleted (f r))) \<Longrightarrow> kept db (map_routines p f db)"
  by (intro keptI stay_map) simp_all

lemma kept_map_runs [simp]: "kept db (map_runs p f db)"
  by (rule keptI) (simp_all add: map_runs_def stay_same)

lemma kept_notices: "kept db db' \<Longrightarrow> kept db (db'\<lparr>notices := ns\<rparr>)"
  by (simp add: kept_def stay_deleted_def)

lemma kept_settle_routine: "kept db (settle_routine run st t n e a db)"
  by (auto simp: settle_routine_def intro!: kept_routines)

lemma kept_bind: "kept db (bind_session i session db)"
  by (auto simp: bind_session_def intro!: kept_routines split: option.split)

lemma kept_link: "link_routine_run db i pid session t bind = Inr db' \<Longrightarrow> kept db db'"
  using kept_trans[OF kept_bind kept_map_runs]
  by (auto simp: link_routine_run_def Let_def split: if_split_asm)

lemma kept_worktree: "set_run_worktree db i path = Inr db' \<Longrightarrow> kept db db'"
  by (auto simp: set_run_worktree_def Let_def split: if_split_asm)

lemma kept_finish: "finish_routine_run db i st err reply t next en adv = Inr (b, db') \<Longrightarrow> kept db db'"
  using kept_trans[OF kept_map_runs kept_settle_routine]
  by (auto simp: finish_routine_run_def Let_def kept_notices split: option.split_asm if_split_asm)

lemma kept_finish_service: "finish_service lib db run st err reply now = Inr db' \<Longrightarrow> kept db db'"
  by (auto simp: finish_service_def dest: kept_finish split: sum.split_asm if_split_asm)

lemma kept_settle: "kept db (snd (settle_run w db run ob recover now))"
  by (auto simp: settle_run_def dest: kept_finish_service split: option.split sum.split)

lemma kept_claim: "claim_routine_run db run target = Inr (r, c, db') \<Longrightarrow> kept db db'"
  by (auto simp: claim_routine_run_def Let_def intro!: keptI stay_same split: option.split_asm if_split_asm)

lemma kept_claim_step: "kept (sv_db s) (sv_db (snd (claim_step s ro occurrence trig prompt project new now)))"
  by (auto simp: claim_step_def Let_def dest: kept_claim split: sum.split)

lemma kept_create_session:
  "create_run_session la db run pid now = Inl (e, db') \<Longrightarrow> kept db db'"
  "create_run_session la db run pid now = Inr (session, db') \<Longrightarrow> kept db db'"
  unfolding create_run_session_def link_run_def Let_def
  by (auto dest!: kept_link kept_worktree intro: kept_trans split: sum.split_asm if_split_asm option.split_asm)

lemma kept_continue:
  "continue_session la db run pid now = Inl (e, db') \<Longrightarrow> kept db db'"
  "continue_session la db run pid now = Inr (session, db') \<Longrightarrow> kept db db'"
  by (auto simp: continue_session_def link_run_def Let_def dest: kept_link split: sum.split_asm if_split_asm option.split_asm)

lemma kept_prepare:
  "prepare_session w la db run now = Inl (e, db') \<Longrightarrow> kept db db'"
  "prepare_session w la db run now = Inr (pid, session, db') \<Longrightarrow> kept db db'"
  by (auto simp: prepare_session_def dest: kept_create_session kept_continue split: sum.split_asm if_split_asm)

lemma kept_fail: "kept (sv_db s) (sv_db (snd (fail_dispatch w s run cause now)))"
  by (auto simp: fail_dispatch_def drop_flight_def dest: kept_finish_service split: sum.split)

lemma kept_launch: "kept (sv_db s) (sv_db (snd (launch_step w la s f now)))"
proof (cases "prepare_session w la (sv_db s) (fl_run f) now")
  case (Inl x)
  then obtain e db' where x: "prepare_session w la (sv_db s) (fl_run f) now = Inl (e, db')" by (cases x) auto
  then show ?thesis using kept_trans[OF kept_prepare(1)[OF x]] kept_fail[of "s\<lparr>sv_db := db'\<rparr>"]
    by (simp add: launch_step_def split_def Let_def)
next
  case (Inr x)
  then obtain pid session db' where "prepare_session w la (sv_db s) (fl_run f) now = Inr (pid, session, db')" by (cases x) auto
  then show ?thesis using kept_prepare(2) by (simp add: launch_step_def Let_def)
qed

lemma kept_send: "kept (sv_db s) (sv_db (snd (send_step w s f session err now)))"
  using kept_fail[of "s\<lparr>sv_prompted := sv_prompted s @ [(flight_id f, session, fl_prompt f)]\<rparr>"]
  by (auto simp: send_step_def Let_def drop_flight_def split: option.split)

lemma kept_create: "create_service w db i new now = Inr (r, db') \<Longrightarrow> kept db db'"
  by (auto simp: create_service_def create_routine_def Let_def stay_deleted_def intro!: keptI split: sum.split_asm if_split_asm)

lemma kept_update: "update_service w db i inp now = Inr (r, db') \<Longrightarrow> kept db db'"
  by (auto simp: update_service_def update_routine_def updated_routine_def Let_def intro!: kept_routines split: sum.split_asm if_split_asm)

lemma kept_cancel: "kept db (cancel_dispatches i now db)"
proof -
  let ?f = "\<lambda>d. if di_routine d = i \<and> di_state d = Disp_Queued then d\<lparr>di_state := Disp_Cancelled, di_finished := now\<rparr> else d"
  have "moved_dispatch ?f" by (simp add: moved_dispatch_def)
  then show ?thesis unfolding kept_def by (intro conjI exI[of _ ?f]) (simp_all add: cancel_dispatches_def stay_same)
qed

lemma kept_delete: "soft_delete_routine db i now = Inr db' \<Longrightarrow> kept db db'"
  using kept_trans[OF kept_routines kept_cancel]
  by (auto simp: soft_delete_routine_def Let_def split: if_split_asm)

lemma kept_expire: "kept db (expire_overdue db now)"
  by (auto simp: expire_overdue_def intro!: kept_routines)

lemma kept_step: "kept (sv_db s) (sv_db (step w s now ev))"
proof (cases ev)
  case (Create i new)
  then show ?thesis by (auto simp: on_db_def dest: kept_create split: sum.split)
next
  case (Update i inp)
  then show ?thesis by (auto simp: on_db_def dest: kept_update split: sum.split)
next
  case (Delete i)
  then show ?thesis by (auto dest: kept_delete split: sum.split)
next
  case (Run_Now v i project new)
  then show ?thesis using kept_claim_step by (auto simp: run_now_def split: sum.split)
next
  case (Webhook v i payload occurrence project new)
  then show ?thesis using kept_claim_step by (auto simp: run_webhook_def split: sum.split option.split)
next
  case (Launch_On i la)
  then show ?thesis using kept_launch by (auto split: option.split)
next
  case (Send_On i err)
  then show ?thesis using kept_send by (auto split: option.split stage.split)
next
  case (Settle i ob recover)
  then show ?thesis using kept_settle by (auto split: option.split)
qed (simp_all add: kept_claim_step kept_expire)

lemma run_steps_simps [simp]:
  "run_steps w s [] = s" "run_steps w s (e # evs) = run_steps w (step w s (fst e) (snd e)) evs"
  by (simp_all add: run_steps_def)

lemma run_steps_append: "run_steps w (run_steps w s a) b = run_steps w s (a @ b)"
  by (simp add: run_steps_def)

text \<open>What any sequence of steps of the service keeps.\<close>

lemma steps_keep:
  "service_ok s \<Longrightarrow> service_ok (run_steps w s evs) \<and> db_later (sv_db s) (sv_db (run_steps w s evs)) \<and>
     kept (sv_db s) (sv_db (run_steps w s evs))"
proof (induction evs arbitrary: s)
  case (Cons e evs)
  let ?s = "step w s (fst e) (snd e)"
  have "service_ok ?s" by (rule routine_step_ok[OF Cons.prems])
  then show ?case using Cons.IH[of ?s] step_later[OF Cons.prems] kept_step db_later_trans kept_trans by simp blast
qed simp

section \<open>A launch is a sequence of steps\<close>

lemma continue_launch_steps:
  assumes "\<And>f. find (flight_of (rr_id run)) (sv_flights s) = Some f \<Longrightarrow> fl_stage f = Claimed"
  shows "\<exists>evs. snd (continue_launch w la send s run now) = run_steps w s evs"
proof (cases "find (flight_of (rr_id run)) (sv_flights s)")
  case None
  then have "snd (continue_launch w la send s run now) = run_steps w s []" by (simp add: continue_launch_def)
  then show ?thesis by blast
next
  case (Some f)
  note st = assms[OF Some]
  obtain x s2 where l: "launch_step w la s f now = (x, s2)" by (cases "launch_step w la s f now")
  have one: "step w s now (Launch_On (rr_id run) la) = s2" using Some st l by simp
  show ?thesis
  proof (cases "\<exists>f2 pid session. x = None \<and> find (flight_of (rr_id run)) (sv_flights s2) = Some f2 \<and> fl_stage f2 = Linked pid session")
    case True
    then obtain f2 pid session where t: "x = None" "find (flight_of (rr_id run)) (sv_flights s2) = Some f2" "fl_stage f2 = Linked pid session"
      by blast
    then have "step w s2 now (Send_On (rr_id run) send) = snd (send_step w s2 f2 session send now)" by simp
    then have "snd (continue_launch w la send s run now) = run_steps w s [(now, Launch_On (rr_id run) la), (now, Send_On (rr_id run) send)]"
      using Some l t one by (simp add: continue_launch_def del: step.simps)
    then show ?thesis by blast
  next
    case False
    then have "snd (continue_launch w la send s run now) = s2"
      using Some l by (auto simp: continue_launch_def split: option.split stage.split)
    then have "snd (continue_launch w la send s run now) = run_steps w s [(now, Launch_On (rr_id run) la)]"
      using one by (simp del: step.simps)
    then show ?thesis by blast
  qed
qed

definition has_run :: "rdb \<Rightarrow> string \<Rightarrow> int \<Rightarrow> bool" where
  "has_run db i occurrence \<longleftrightarrow> (\<exists>r \<in> set (runs db). rr_routine r = i \<and> rr_occurrence r = occurrence)"

lemma has_run_later: "db_later db db' \<Longrightarrow> has_run db i occurrence \<Longrightarrow> has_run db' i occurrence"
  unfolding has_run_def run_later_def using db_later_row frozen_eq(2,3) run_later_def by metis

lemma claim_step_run:
  assumes "claim_step s ro occurrence trig prompt project new now = (Inr (run, c), s1)"
  shows "has_run (sv_db s1) (ro_id ro) occurrence"
    and "c \<Longrightarrow> sv_flights s1 = sv_flights s @ [\<lparr>fl_run = run, fl_prompt = prompt, fl_stage = Claimed\<rparr>]"
proof -
  let ?n = "new_run new (ro_id ro) trig occurrence now"
  let ?t = "case project of None \<Rightarrow> None | Some d \<Rightarrow> Some (d, ro_remote ro)"
  obtain db' where c: "claim_routine_run (sv_db s) ?n ?t = Inr (run, c, db')"
    using assms by (auto simp: claim_step_def Let_def split: sum.split_asm)
  then have s1: "s1 = (if c then s\<lparr>sv_db := db', sv_flights := sv_flights s @ [\<lparr>fl_run = run, fl_prompt = prompt, fl_stage = Claimed\<rparr>]\<rparr> else s)"
    using assms by (simp add: claim_step_def Let_def)
  have n: "rr_routine ?n = ro_id ro" "rr_occurrence ?n = occurrence" by (simp_all add: new_run_def)
  show "has_run (sv_db s1) (ro_id ro) occurrence"
  proof (cases c)
    case True
    then have c': "claim_routine_run (sv_db s) ?n ?t = Inr (run, True, db')" using c by simp
    show ?thesis using claim_new(1,5,6)[OF c'] n True s1 by (auto simp: has_run_def)
  next
    case False
    then have c': "claim_routine_run (sv_db s) ?n ?t = Inr (run, False, db')" using c by simp
    show ?thesis using claim_old(2-4)[OF c'] n False s1 by (auto simp: has_run_def)
  qed
  show "c \<Longrightarrow> sv_flights s1 = sv_flights s @ [\<lparr>fl_run = run, fl_prompt = prompt, fl_stage = Claimed\<rparr>]" using s1 by simp
qed

lemma run_webhook_run:
  assumes "run_webhook v s i payload occurrence project new now = (Inr (run, c), s1)"
  shows "has_run (sv_db s1) i occurrence"
    and "c \<Longrightarrow> \<exists>f. sv_flights s1 = sv_flights s @ [f] \<and> fl_run f = run \<and> fl_stage f = Claimed"
proof -
  obtain r p where r: "find_routine (sv_db s) i = Some r"
    and c: "claim_step s r occurrence By_Webhook (webhook_prompt r payload) p new now = (Inr (run, c), s1)"
    using assms by (auto simp: run_webhook_def get_routine_def split: option.split_asm if_split_asm sum.split_asm)
  show "has_run (sv_db s1) i occurrence" using claim_step_run(1)[OF c] find_routine_id[OF r] by simp
  show "c \<Longrightarrow> \<exists>f. sv_flights s1 = sv_flights s @ [f] \<and> fl_run f = run \<and> fl_stage f = Claimed" using claim_step_run(2)[OF c] by simp
qed

text \<open>A launch by a webhook: any outcome is reached by steps of the service, and one that is no error
  leaves a run of the occurrence.\<close>

definition launched :: "world \<Rightarrow> service \<Rightarrow> string \<Rightarrow> int \<Rightarrow> ('e + routine_run) \<times> service \<Rightarrow> bool" where
  "launched w s i occurrence x \<longleftrightarrow>
     (\<exists>evs. snd x = run_steps w s evs) \<and> ((\<exists>run. fst x = Inr run) \<longrightarrow> has_run (sv_db (snd x)) i occurrence)"

lemma launched_nothing: "launched w s i occurrence (Inl e, s)"
  unfolding launched_def by (intro conjI exI[of _ "[]"]) simp_all

lemma run_webhook_fully_launched:
  assumes ok: "service_ok s"
  shows "launched w s i occurrence (run_webhook_fully w v s i payload occurrence project now)"
proof -
  obtain x s1 where x: "run_webhook (vw_projects v) s i payload occurrence project (vw_new v i) now = (x, s1)" by fastforce
  have "s1 = run_steps w s [(now, Webhook (vw_projects v) i payload occurrence project (vw_new v i))]" using x by simp
  then obtain evs1 where s1: "s1 = run_steps w s evs1" by blast
  show ?thesis
  proof (cases x)
    case (Inl e)
    then have "run_webhook_fully w v s i payload occurrence project now = (Inl e, s1)" using x by (simp add: run_webhook_fully_def)
    then show ?thesis using s1 unfolding launched_def by auto
  next
    case (Inr y)
    then obtain run c where y: "x = Inr (run, c)" by (cases y) auto
    note r = run_webhook_run[OF x[unfolded y]]
    show ?thesis
    proof (cases c)
      case False
      then have "run_webhook_fully w v s i payload occurrence project now = (Inr run, s1)" using x y by (simp add: run_webhook_fully_def)
      then show ?thesis using s1 r(1) unfolding launched_def by auto
    next
      case True
      have ok1: "service_ok s1" unfolding s1 using steps_keep[OF ok] by blast
      obtain f where f: "sv_flights s1 = sv_flights s @ [f]" "fl_run f = run" "fl_stage f = Claimed" using r(2)[OF True] by blast
      have "g = f" if g: "find (flight_of (rr_id run)) (sv_flights s1) = Some g" for g
      proof -
        have "g \<in> set (sv_flights s1)" "flight_id g = flight_id f" using g f(2) by (auto simp: find_Some_iff)
        moreover have "distinct (map flight_id (sv_flights s1))" using ok1 by (simp add: service_ok_def)
        ultimately show ?thesis using f(1) by (auto simp: image_iff) 
      qed
      then have cl: "fl_stage g = Claimed" if "find (flight_of (rr_id run)) (sv_flights s1) = Some g" for g using that f(3) by blast
      obtain evs where e: "snd (continue_launch w (vw_launch v i) (vw_send v i) s1 run now) = run_steps w s1 evs"
        using continue_launch_steps[OF cl] by blast
      have full: "snd (run_webhook_fully w v s i payload occurrence project now) = run_steps w s1 evs"
        using x y True e by (simp add: run_webhook_fully_def)
      moreover have "run_steps w s1 evs = run_steps w s (evs1 @ evs)" unfolding s1 by (rule run_steps_append)
      moreover have "has_run (sv_db (run_steps w s1 evs)) i occurrence" using has_run_later r(1) steps_keep[OF ok1] by blast
      ultimately show ?thesis unfolding launched_def by metis
    qed
  qed
qed

lemma launch_webhook_launched:
  assumes ok: "service_ok s"
  shows "launched w s (ws_routine sub) occurrence (launch_webhook w v s r sub body data occurrence now)"
proof -
  have lift: "launched w s i occurrence ((\<lambda>(x, s'). (case x of Inl e \<Rightarrow> Inl (error_text e) | Inr run \<Rightarrow> Inr run, s')) y)"
    if "launched w s i occurrence y" for i and y :: "(routine_error + routine_run) \<times> service"
    using that by (cases y) (auto simp: launched_def split: sum.split_asm)
  have "launched w s (ws_routine sub) occurrence
     ((\<lambda>(x, s'). (case x of Inl e \<Rightarrow> Inl (error_text e) | Inr run \<Rightarrow> Inr run, s'))
        (run_webhook_fully w v s (ws_routine sub) data occurrence p now))" for p
    by (rule lift[OF run_webhook_fully_launched[OF ok]])
  then show ?thesis
    by (simp add: launch_webhook_def Let_def launched_nothing split: option.split json.split)
qed

section \<open>The invariant\<close>

abbreviation dispatch_key :: "dispatch_row \<Rightarrow> string \<times> string \<times> string" where
  "dispatch_key d \<equiv> (di_inbox d, di_delivery d, di_routine d)"

definition ended_with_run :: "rdb \<Rightarrow> dispatch_row \<Rightarrow> bool" where
  "ended_with_run db d \<longleftrightarrow>
     (di_state d = Disp_Terminal \<longrightarrow> has_run db (di_routine d) (webhook_occurrence (di_inbox d) (di_delivery d)))"

definition dispatches_ok :: "rdb \<Rightarrow> bool" where
  "dispatches_ok db \<longleftrightarrow> distinct (map dispatch_key (dispatches db)) \<and> (\<forall>d \<in> set (dispatches db). ended_with_run db d)"

definition log_rows_ok :: "delivery_row list \<Rightarrow> bool" where
  "log_rows_ok rows \<longleftrightarrow> distinct (map (\<lambda>r. (dl_inbox r, dl_id r)) rows) \<and>
     (\<forall>r \<in> set rows. 0 \<le> dl_attempts r \<and> dl_attempts r \<le> max_attempts)"

definition webhooks_ok :: "webhooks \<Rightarrow> bool" where
  "webhooks_ok wh \<longleftrightarrow> service_ok (wh_service wh) \<and> dispatches_ok (wh_db wh) \<and> log_rows_ok (wh_deliveries wh)"

text \<open>What one attempt does to the dispatches: none is lost, none is newly left queued, and no
  deleted routine comes back.\<close>

definition carried :: "rdb \<Rightarrow> rdb \<Rightarrow> bool" where
  "carried db db' \<longleftrightarrow>
     dispatch_key ` set (dispatches db) \<subseteq> dispatch_key ` set (dispatches db') \<and>
     (\<forall>d \<in> set (dispatches db'). di_state d = Disp_Queued \<longrightarrow> d \<in> set (dispatches db)) \<and> stay_deleted db db'"

lemma carried_refl [simp]: "carried db db"
  by (simp add: carried_def stay_same)

lemma stay_deleted_trans: "stay_deleted a b \<Longrightarrow> stay_deleted b c \<Longrightarrow> stay_deleted a c"
  unfolding stay_deleted_def by metis

lemma carried_trans: "carried a b \<Longrightarrow> carried b c \<Longrightarrow> carried a c"
  unfolding carried_def by (elim conjE, intro conjI) (erule (1) subset_trans, blast, erule (1) stay_deleted_trans)

lemma moved_keys: "moved_dispatch f \<Longrightarrow> dispatch_key (f d) = dispatch_key d"
  by (simp add: moved_dispatch_def)

lemma moved_state:
  "moved_dispatch f \<Longrightarrow> di_state (f d) = st \<Longrightarrow> st \<noteq> Disp_Cancelled \<Longrightarrow> f d = d"
  unfolding moved_dispatch_def by metis

lemma kept_dispatches_ok:
  assumes ok: "dispatches_ok db" and k: "kept db db'" and l: "db_later db db'"
  shows "dispatches_ok db'"
proof -
  obtain f where f: "dispatches db' = map f (dispatches db)" "moved_dispatch f" using k unfolding kept_def by blast
  have "map dispatch_key (map f (dispatches db)) = map dispatch_key (dispatches db)" using moved_keys[OF f(2)] by simp
  moreover have "ended_with_run db' (f d)" if "d \<in> set (dispatches db)" for d
  proof (cases "di_state (f d) = Disp_Terminal")
    case True
    then have "f d = d" using moved_state[OF f(2)] by blast
    then show ?thesis using ok that has_run_later[OF l] by (auto simp: dispatches_ok_def ended_with_run_def)
  qed (simp add: ended_with_run_def)
  ultimately show ?thesis using ok f(1) by (simp add: dispatches_ok_def del: map_map)
qed

text \<open>Changes of the dispatches that leave the runs alone.\<close>

lemma service_ok_notices:
  assumes ok: "service_ok s" and r: "runs db' = runs (sv_db s)" and n: "\<And>i. announcements db' i = announcements (sv_db s) i"
  shows "service_ok (s\<lparr>sv_db := db'\<rparr>)"
  using ok unfolding service_ok_def db_ok_def announced_ok_def flight_ok_def prompt_ok_def by (simp add: r n)

lemma service_ok_dispatches:
  "service_ok s \<Longrightarrow> runs db' = runs (sv_db s) \<Longrightarrow> notices db' = notices (sv_db s) \<Longrightarrow> service_ok (s\<lparr>sv_db := db'\<rparr>)"
  by (rule service_ok_notices) (simp_all add: announcements_def)

lemma put_db_simps [simp]:
  "wh_db (put_db db wh) = db" "wh_deliveries (put_db db wh) = wh_deliveries wh" "wh_subs (put_db db wh) = wh_subs wh"
  "wh_inboxes (put_db db wh) = wh_inboxes wh" "wh_service (put_db db wh) = (wh_service wh)\<lparr>sv_db := db\<rparr>"
  by (simp_all add: put_db_def)

lemma set_map_dispatches:
  "set (dispatches (map_dispatches p f db)) = (\<lambda>d. if p d then f d else d) ` set (dispatches db)"
  by (simp add: map_dispatches_def)

lemma map_dispatches_fields [simp]:
  "runs (map_dispatches p f db) = runs db" "notices (map_dispatches p f db) = notices db" "routines (map_dispatches p f db) = routines db"
  by (simp_all add: map_dispatches_def)

lemma add_dispatch_fields [simp]:
  "runs (add_dispatch d db) = runs db" "notices (add_dispatch d db) = notices db" "routines (add_dispatch d db) = routines db"
  "dispatches (add_dispatch d db) = dispatches db @ [d]"
  by (simp_all add: add_dispatch_def)

lemma map_dispatches_ok:
  assumes "dispatches_ok db" "\<And>d. p d \<Longrightarrow> dispatch_key (f d) = dispatch_key d"
    "\<And>d. d \<in> set (dispatches db) \<Longrightarrow> p d \<Longrightarrow> ended_with_run db (f d)"
  shows "dispatches_ok (map_dispatches p f db)"
proof -
  have "map dispatch_key (dispatches (map_dispatches p f db)) = map dispatch_key (dispatches db)"
    using assms(2) by (simp add: map_dispatches_def)
  moreover have "ended_with_run (map_dispatches p f db) d = ended_with_run db d" for d
    by (simp add: ended_with_run_def has_run_def)
  ultimately show ?thesis using assms(1,3) unfolding dispatches_ok_def set_map_dispatches by auto
qed

lemma add_dispatch_ok:
  assumes "dispatches_ok db" "dispatch_key d \<notin> dispatch_key ` set (dispatches db)" "di_state d \<noteq> Disp_Terminal"
  shows "dispatches_ok (add_dispatch d db)"
proof -
  have "ended_with_run (add_dispatch d db) x = ended_with_run db x" for x by (simp add: ended_with_run_def has_run_def)
  then show ?thesis using assms by (auto simp: dispatches_ok_def ended_with_run_def)
qed

lemma claim_dispatch_spec:
  assumes ok: "dispatches_ok db" and c: "claim_dispatch inbox delivery i now db = (c, db')"
  shows "dispatches_ok db'" "runs db' = runs db" "notices db' = notices db" "routines db' = routines db"
    "(inbox, delivery, i) \<in> dispatch_key ` set (dispatches db')"
    "dispatch_key ` set (dispatches db) \<subseteq> dispatch_key ` set (dispatches db')"
    "\<And>d. d \<in> set (dispatches db') \<Longrightarrow> dispatch_key d \<noteq> (inbox, delivery, i) \<Longrightarrow> d \<in> set (dispatches db)"
    "\<not> c \<Longrightarrow> db' = db"
proof -
  let ?p = "\<lambda>d. is_dispatch inbox delivery i d \<and> di_state d = Disp_Failure"
  let ?f = "\<lambda>d. d\<lparr>di_state := Disp_Queued, di_error := [], di_finished := 0, di_created := unix_milli now\<rparr>"
  let ?new = "\<lparr>di_inbox = inbox, di_delivery = delivery, di_routine = i, di_state = Disp_Queued, di_error = [],
                di_created = unix_milli now, di_finished = 0\<rparr>"
  have m: "dispatches_ok (map_dispatches ?p ?f db)"
    by (rule map_dispatches_ok[OF ok]) (simp_all add: ended_with_run_def)
  define A where "A \<longleftrightarrow> (\<exists>d \<in> set (dispatches db). ?p d)"
  define B where "B \<longleftrightarrow> (\<exists>d \<in> set (dispatches db). is_dispatch inbox delivery i d)"
  have e: "claim_dispatch inbox delivery i now db =
      (if A then (True, map_dispatches ?p ?f db) else if B then (False, db) else (True, add_dispatch ?new db))"
    unfolding A_def B_def claim_dispatch_def Let_def ..
  consider "A" "c" "db' = map_dispatches ?p ?f db" | "B" "\<not> c" "db' = db" | "\<not> B" "c" "db' = add_dispatch ?new db"
    using c unfolding e by (cases A; cases B) simp_all
  note cs = this
  have a: "dispatches_ok (add_dispatch ?new db)" if "\<not> B"
    by (rule add_dispatch_ok[OF ok]) (use that in \<open>auto simp: B_def\<close>)
  show "dispatches_ok db'" by (cases rule: cs) (use ok m a in simp_all)
  show "runs db' = runs db" "notices db' = notices db" "routines db' = routines db" by (cases rule: cs; simp)+
  have k: "dispatch_key (if ?p d then ?f d else d) = dispatch_key d" for d by simp
  have keys: "dispatch_key ` set (dispatches (map_dispatches ?p ?f db)) = dispatch_key ` set (dispatches db)"
    unfolding set_map_dispatches image_image k ..
  have "A \<or> B \<Longrightarrow> (inbox, delivery, i) \<in> dispatch_key ` set (dispatches db)" unfolding A_def B_def by force
  then show "(inbox, delivery, i) \<in> dispatch_key ` set (dispatches db')" by (cases rule: cs) (auto simp only: keys add_dispatch_fields, force)
  show "dispatch_key ` set (dispatches db) \<subseteq> dispatch_key ` set (dispatches db')"
    by (cases rule: cs) (simp_all only: keys order_refl add_dispatch_fields set_append image_Un Un_upper1)
  show "\<And>d. d \<in> set (dispatches db') \<Longrightarrow> dispatch_key d \<noteq> (inbox, delivery, i) \<Longrightarrow> d \<in> set (dispatches db)"
    by (cases rule: cs) (auto simp: set_map_dispatches split: if_split_asm)
  show "\<not> c \<Longrightarrow> db' = db" by (cases rule: cs) simp_all
qed

lemma record_ignored_spec:
  assumes ok: "dispatches_ok db"
  shows "dispatches_ok (record_ignored inbox delivery i reason now db)" "runs (record_ignored inbox delivery i reason now db) = runs db"
    "notices (record_ignored inbox delivery i reason now db) = notices db" "carried db (record_ignored inbox delivery i reason now db)"
    "(inbox, delivery, i) \<in> dispatch_key ` set (dispatches (record_ignored inbox delivery i reason now db))"
  using ok by (auto simp: record_ignored_def carried_def stay_same intro!: add_dispatch_ok)

lemma webhook_notice: "announcements (db\<lparr>notices := notices db @ [n]\<rparr>) i = announcements db i" if "no_id n = ''webhook-failed:'' @ x"
  using that by (simp add: announcements_def)

text \<open>A notice of a failure changes neither runs nor dispatches.\<close>

lemma notify_failure_spec:
  "service_ok (wh_service wh) \<Longrightarrow> service_ok (wh_service (notify_failure (''webhook-failed:'' @ x) inbox msg now wh))"
  "dispatches (wh_db (notify_failure j inbox msg now wh)) = dispatches (wh_db wh)"
  "runs (wh_db (notify_failure j inbox msg now wh)) = runs (wh_db wh)"
  "routines (wh_db (notify_failure j inbox msg now wh)) = routines (wh_db wh)"
  "wh_deliveries (notify_failure j inbox msg now wh) = wh_deliveries wh"
  "wh_subs (notify_failure j inbox msg now wh) = wh_subs wh"
  by (auto simp: notify_failure_def Let_def webhook_notice intro!: service_ok_notices split: option.split)

lemma dispatches_ok_cong: "dispatches db' = dispatches db \<Longrightarrow> runs db' = runs db \<Longrightarrow> dispatches_ok db' = dispatches_ok db"
  by (simp add: dispatches_ok_def ended_with_run_def has_run_def)

lemma carried_cong: "dispatches c = dispatches b \<Longrightarrow> routines c = routines b \<Longrightarrow> carried a c = carried a b"
  by (simp add: carried_def stay_deleted_def)

section \<open>One dispatch\<close>

definition same_log :: "webhooks \<Rightarrow> webhooks \<Rightarrow> bool" where
  "same_log wh wh' \<longleftrightarrow> wh_deliveries wh' = wh_deliveries wh \<and> wh_subs wh' = wh_subs wh"

text \<open>What a dispatch keeps, whatever it meets.\<close>

definition dispatched_ok :: "webhooks \<Rightarrow> webhooks \<Rightarrow> bool" where
  "dispatched_ok wh wh' \<longleftrightarrow>
     service_ok (wh_service wh') \<and> dispatches_ok (wh_db wh') \<and> carried (wh_db wh) (wh_db wh') \<and> same_log wh wh'"

lemma dispatched_ok_trans: "dispatched_ok a b \<Longrightarrow> dispatched_ok b c \<Longrightarrow> dispatched_ok a c"
  unfolding dispatched_ok_def same_log_def using carried_trans by metis

lemma settle_dispatch_spec:
  assumes ok: "dispatches_ok db" and t: "st = Disp_Terminal \<longrightarrow> has_run db i (webhook_occurrence inbox delivery)"
  shows "dispatches_ok (settle_dispatch inbox delivery i st msg now db)" "runs (settle_dispatch inbox delivery i st msg now db) = runs db"
    "notices (settle_dispatch inbox delivery i st msg now db) = notices db"
    "routines (settle_dispatch inbox delivery i st msg now db) = routines db"
    "dispatch_key ` set (dispatches (settle_dispatch inbox delivery i st msg now db)) = dispatch_key ` set (dispatches db)"
    "\<And>d. st \<noteq> Disp_Queued \<Longrightarrow> d \<in> set (dispatches (settle_dispatch inbox delivery i st msg now db)) \<Longrightarrow> di_state d = Disp_Queued \<Longrightarrow>
       d \<in> set (dispatches db) \<and> dispatch_key d \<noteq> (inbox, delivery, i)"
proof -
  show "dispatches_ok (settle_dispatch inbox delivery i st msg now db)" unfolding settle_dispatch_def
    by (rule map_dispatches_ok[OF ok]) (use t in \<open>auto simp: ended_with_run_def\<close>)
  show "runs (settle_dispatch inbox delivery i st msg now db) = runs db"
    "notices (settle_dispatch inbox delivery i st msg now db) = notices db"
    "routines (settle_dispatch inbox delivery i st msg now db) = routines db" by (simp_all add: settle_dispatch_def)
  let ?p = "\<lambda>d. is_dispatch inbox delivery i d \<and> di_state d = Disp_Queued"
  let ?f = "\<lambda>d. d\<lparr>di_state := st, di_error := msg, di_finished := unix_milli now\<rparr>"
  have k: "dispatch_key (if ?p d then ?f d else d) = dispatch_key d" for d by simp
  show "dispatch_key ` set (dispatches (settle_dispatch inbox delivery i st msg now db)) = dispatch_key ` set (dispatches db)"
    unfolding settle_dispatch_def set_map_dispatches image_image k ..
  show "\<And>d. st \<noteq> Disp_Queued \<Longrightarrow> d \<in> set (dispatches (settle_dispatch inbox delivery i st msg now db)) \<Longrightarrow> di_state d = Disp_Queued \<Longrightarrow>
       d \<in> set (dispatches db) \<and> dispatch_key d \<noteq> (inbox, delivery, i)"
    by (auto simp: settle_dispatch_def set_map_dispatches split: if_split_asm)
qed

lemma finish_dispatch_spec:
  assumes ok: "service_ok (wh_service wh)" "dispatches_ok (wh_db wh)"
    and t: "st = Disp_Terminal \<longrightarrow> has_run (wh_db wh) i (webhook_occurrence inbox delivery)" and st: "st \<noteq> Disp_Queued"
  shows "service_ok (wh_service (finish_dispatch inbox delivery i st msg now wh))"
    "dispatches_ok (wh_db (finish_dispatch inbox delivery i st msg now wh))"
    "routines (wh_db (finish_dispatch inbox delivery i st msg now wh)) = routines (wh_db wh)"
    "same_log wh (finish_dispatch inbox delivery i st msg now wh)"
    "dispatches (wh_db (finish_dispatch inbox delivery i st msg now wh)) = dispatches (settle_dispatch inbox delivery i st msg now (wh_db wh))"
proof -
  let ?wh = "put_db (settle_dispatch inbox delivery i st msg now (wh_db wh)) wh"
  note sd = settle_dispatch_spec[OF ok(2) t]
  have s: "service_ok (wh_service ?wh)" using service_ok_dispatches[OF ok(1) sd(2,3)] by simp
  have "finish_dispatch inbox delivery i st msg now wh = ?wh \<or>
      (\<exists>x m. finish_dispatch inbox delivery i st msg now wh = notify_failure (''webhook-failed:'' @ x) inbox m now ?wh)"
    by (simp only: finish_dispatch_def Let_def split: if_split) blast
  then consider "finish_dispatch inbox delivery i st msg now wh = ?wh"
    | x m where "finish_dispatch inbox delivery i st msg now wh = notify_failure (''webhook-failed:'' @ x) inbox m now ?wh" by blast
  note cs = this
  show "service_ok (wh_service (finish_dispatch inbox delivery i st msg now wh))"
    by (cases rule: cs) (simp_all only: s notify_failure_spec(1)[OF s])
  show "dispatches (wh_db (finish_dispatch inbox delivery i st msg now wh)) = dispatches (settle_dispatch inbox delivery i st msg now (wh_db wh))"
    by (cases rule: cs) (simp_all add: notify_failure_spec(2))
  have r: "runs (wh_db (finish_dispatch inbox delivery i st msg now wh)) = runs (settle_dispatch inbox delivery i st msg now (wh_db wh))"
    by (cases rule: cs) (simp_all add: notify_failure_spec(3))
  show "dispatches_ok (wh_db (finish_dispatch inbox delivery i st msg now wh))"
    using sd(1) dispatches_ok_cong[OF \<open>dispatches (wh_db _) = _\<close> r] by simp
  show "routines (wh_db (finish_dispatch inbox delivery i st msg now wh)) = routines (wh_db wh)"
    by (cases rule: cs) (simp_all add: notify_failure_spec(4) sd(4))
  show "same_log wh (finish_dispatch inbox delivery i st msg now wh)" unfolding same_log_def
    by (cases rule: cs) (simp_all add: notify_failure_spec(5,6))
qed

lemma dispatch_claimed_spec:
  assumes ok: "service_ok (wh_service wh)" "dispatches_ok (wh_db wh)"
    and c: "claim_dispatch inbox delivery (ws_routine sub) now (wh_db wh) = (c, db')"
  shows "dispatched_ok wh (dispatch_claimed w v inbox delivery e data now sub r (put_db db' wh))"
    "(inbox, delivery, ws_routine sub) \<in>
       dispatch_key ` set (dispatches (wh_db (dispatch_claimed w v inbox delivery e data now sub r (put_db db' wh))))"
proof -
  let ?i = "ws_routine sub" and ?occ = "webhook_occurrence inbox delivery"
  note cd = claim_dispatch_spec[OF ok(2) c]
  let ?s = "(wh_service wh)\<lparr>sv_db := db'\<rparr>"
  have s: "service_ok ?s" by (rule service_ok_dispatches[OF ok(1) cd(2,3)])
  obtain x s' where l: "launch_webhook w v ?s r sub (en_body e) data ?occ now = (x, s')" by fastforce
  have la: "launched w ?s ?i ?occ (x, s')" using launch_webhook_launched[OF s] l by metis
  then obtain evs where evs: "s' = run_steps w ?s evs" by (auto simp: launched_def)
  have s': "service_ok s'" "db_later db' (sv_db s')" "kept db' (sv_db s')" using steps_keep[OF s] unfolding evs by force+
  define wl where "wl = wh\<lparr>wh_service := s'\<rparr>"
  have wl: "service_ok (wh_service wl)" "dispatches_ok (wh_db wl)" "wh_db wl = sv_db s'" "same_log wh wl"
    using s' kept_dispatches_ok[OF cd(1) s'(3,2)] by (simp_all add: wl_def same_log_def)
  have put: "(put_db db' wh)\<lparr>wh_service := s'\<rparr> = wl" "wh_service (put_db db' wh) = ?s" by (simp_all add: put_db_def wl_def)
  obtain st msg where d: "dispatch_claimed w v inbox delivery e data now sub r (put_db db' wh) = finish_dispatch inbox delivery ?i st msg now wl"
    and st: "st \<noteq> Disp_Queued" "st = Disp_Terminal \<longrightarrow> launch_outcome x = None"
    by (cases "launch_outcome x") (auto simp: dispatch_claimed_def put l)
  have "st = Disp_Terminal \<longrightarrow> has_run (wh_db wl) ?i ?occ"
    using st(2) la wl(3) by (auto simp: launched_def launch_outcome_def split: sum.split_asm)
  note f = finish_dispatch_spec[OF wl(1,2) this st(1), where msg = msg and now = now]
    and sd = settle_dispatch_spec[OF wl(2) this, where msg = msg and now = now]
  obtain f where mv: "dispatches (wh_db wl) = map f (dispatches db')" "moved_dispatch f" using s'(3) wl(3) unfolding kept_def by metis
  have keys: "dispatch_key ` set (dispatches (wh_db wl)) = dispatch_key ` set (dispatches db')"
    unfolding mv(1) set_map image_image moved_keys[OF mv(2)] ..
  let ?e = "finish_dispatch inbox delivery ?i st msg now wl"
  have ke: "dispatch_key ` set (dispatches (wh_db ?e)) = dispatch_key ` set (dispatches db')" unfolding f(5) sd(5) keys ..
  have q: "d \<in> set (dispatches (wh_db wh))" if "d \<in> set (dispatches (wh_db ?e))" "di_state d = Disp_Queued" for d
  proof -
    have d: "d \<in> set (dispatches (wh_db wl))" "dispatch_key d \<noteq> (inbox, delivery, ?i)" using sd(6)[OF st(1)] that unfolding f(5) by blast+
    then obtain d0 where d0: "d0 \<in> set (dispatches db')" "d = f d0" unfolding mv(1) by auto
    then have "d = d0" using moved_state[OF mv(2)] that(2) by blast
    then show ?thesis using cd(7) d0(1) d(2) by blast
  qed
  have "stay_deleted (wh_db wh) (wh_db wl)" using s'(3) cd(4) unfolding wl(3) kept_def stay_deleted_def by simp
  then have "stay_deleted (wh_db wh) (wh_db ?e)" using f(3) by (simp add: stay_deleted_def)
  then have "carried (wh_db wh) (wh_db ?e)" using q cd(6) unfolding carried_def ke by blast
  then show "dispatched_ok wh (dispatch_claimed w v inbox delivery e data now sub r (put_db db' wh))"
    using f(1,2,4) wl(4) unfolding d dispatched_ok_def same_log_def by simp
  show "(inbox, delivery, ?i) \<in> dispatch_key ` set (dispatches (wh_db (dispatch_claimed w v inbox delivery e data now sub r (put_db db' wh))))"
    unfolding d ke by (rule cd(5))
qed

text \<open>A subscription is accounted for by a dispatch of its own, unless its routine was deleted.\<close>

definition accounted :: "rdb \<Rightarrow> string \<Rightarrow> string \<Rightarrow> string \<Rightarrow> bool" where
  "accounted db inbox delivery i \<longleftrightarrow>
     (inbox, delivery, i) \<in> dispatch_key ` set (dispatches db) \<or> (\<exists>r \<in> set (routines db). ro_id r = i \<and> ro_deleted r)"

lemma accounted_carried: "carried db db' \<Longrightarrow> accounted db inbox delivery i \<Longrightarrow> accounted db' inbox delivery i"
  unfolding accounted_def carried_def stay_deleted_def by (elim conjE disjE) (blast, metis)

lemma dispatched_ok_refl: "service_ok (wh_service wh) \<Longrightarrow> dispatches_ok (wh_db wh) \<Longrightarrow> dispatched_ok wh wh"
  by (simp add: dispatched_ok_def same_log_def)

lemma ignored_spec:
  assumes ok: "service_ok (wh_service wh)" "dispatches_ok (wh_db wh)"
  shows "dispatched_ok wh (put_db (record_ignored inbox delivery i reason now (wh_db wh)) wh)"
    "accounted (wh_db (put_db (record_ignored inbox delivery i reason now (wh_db wh)) wh)) inbox delivery i"
  using service_ok_dispatches[OF ok(1)] record_ignored_spec[OF ok(2)]
  by (simp_all add: dispatched_ok_def same_log_def accounted_def)

lemma dispatch_sub_spec:
  assumes ok: "service_ok (wh_service wh)" "dispatches_ok (wh_db wh)"
    and d: "dispatch_sub w v inbox delivery e data now sub wh = (err, wh')"
  shows "dispatched_ok wh wh'" "err = None \<Longrightarrow> accounted (wh_db wh') inbox delivery (ws_routine sub)"
proof -
  let ?i = "ws_routine sub"
  note ig = ignored_spec[OF ok, of inbox delivery ?i _ now] and same = dispatched_ok_refl[OF ok]
  have "dispatched_ok wh wh' \<and> (err = None \<longrightarrow> accounted (wh_db wh') inbox delivery ?i)"
  proof (cases "sub_matches (en_header e) (vw_decode v (en_body e)) sub = Some True")
    case False
    then have "\<exists>reason. err = None \<and> wh' = put_db (record_ignored inbox delivery ?i reason now (wh_db wh)) wh"
      using d by (cases "sub_matches (en_header e) (vw_decode v (en_body e)) sub")
        (auto simp: dispatch_sub_def Let_def split: bool.split_asm)
    then show ?thesis using ig by blast
  next
    case m: True
    show ?thesis
    proof (cases "find_routine (wh_db wh) ?i")
      case None
      then have "err \<noteq> None \<and> wh' = wh" using d m by (auto simp: dispatch_sub_def Let_def)
      then show ?thesis using same by blast
    next
      case (Some r)
      have r: "r \<in> set (routines (wh_db wh))" "ro_id r = ?i" using Some by (auto simp: find_routine_def find_Some_iff)
      consider "ro_deleted r" | reason where "\<not> ro_deleted r" "ignore_reason r = Some reason"
        | "\<not> ro_deleted r" "ignore_reason r = None" by (cases "ignore_reason r") auto
      then show ?thesis
      proof cases
        case 1
        then have "wh' = wh" using d m Some by (simp add: dispatch_sub_def Let_def)
        then show ?thesis using same r 1 by (auto simp: accounted_def)
      next
        case 2
        then have "err = None \<and> wh' = put_db (record_ignored inbox delivery ?i reason now (wh_db wh)) wh"
          using d m Some by (simp add: dispatch_sub_def Let_def)
        then show ?thesis using ig by blast
      next
        case 3
        obtain c db' where c: "claim_dispatch inbox delivery ?i now (wh_db wh) = (c, db')" by fastforce
        note cd = claim_dispatch_spec[OF ok(2) c] and cl = dispatch_claimed_spec[OF ok c]
        show ?thesis
        proof (cases "vw_cancelled v ?i")
          case None
          show ?thesis
          proof (cases c)
            case True
            then have "wh' = dispatch_claimed w v inbox delivery e data now sub r (put_db db' wh)"
              using d m Some 3 None c by (simp add: dispatch_sub_def Let_def)
            then show ?thesis using cl by (simp add: accounted_def)
          next
            case False
            then have "db' = wh_db wh" "wh' = put_db db' wh" using cd(8) d m Some 3 None c by (simp_all add: dispatch_sub_def Let_def)
            then have "wh' = wh" by (simp add: put_db_def)
            then show ?thesis using same cd(5) \<open>db' = wh_db wh\<close> by (simp add: accounted_def)
          qed
        next
          case (Some x)
          then have "err = Some x \<and> wh' = wh" using d m \<open>find_routine (wh_db wh) ?i = Some r\<close> 3 by (simp add: dispatch_sub_def Let_def)
          then show ?thesis using same by simp
        qed
      qed
    qed
  qed
  then show "dispatched_ok wh wh'" "err = None \<Longrightarrow> accounted (wh_db wh') inbox delivery ?i" by blast+
qed

lemma dispatch_subs_spec:
  assumes "service_ok (wh_service wh)" "dispatches_ok (wh_db wh)"
    "dispatch_subs w v inbox delivery e data now subs wh = (err, wh')"
  shows "dispatched_ok wh wh' \<and> (err = None \<longrightarrow> (\<forall>sub \<in> set subs. accounted (wh_db wh') inbox delivery (ws_routine sub)))"
  using assms
proof (induction subs arbitrary: wh)
  case Nil
  then show ?case using dispatched_ok_refl by simp
next
  case (Cons sub subs)
  obtain e1 wh1 where d: "dispatch_sub w v inbox delivery e data now sub wh = (e1, wh1)" by fastforce
  note sp = dispatch_sub_spec[OF Cons.prems(1,2) d]
  show ?case
  proof (cases e1)
    case (Some x)
    then have "err = Some x \<and> wh' = wh1" using Cons.prems(3) d by simp
    then show ?thesis using sp(1) by simp
  next
    case None
    then have r: "dispatch_subs w v inbox delivery e data now subs wh1 = (err, wh')" using Cons.prems(3) d by simp
    have "service_ok (wh_service wh1)" "dispatches_ok (wh_db wh1)" using sp(1) by (simp_all add: dispatched_ok_def)
    note ih = Cons.IH[OF this r]
    then have "carried (wh_db wh1) (wh_db wh')" by (simp add: dispatched_ok_def)
    then show ?thesis using ih sp(2)[OF None] dispatched_ok_trans[OF sp(1)] accounted_carried by auto
  qed
qed

lemma set_insert_subs: "set (foldr insert_sub xs []) = set xs"
proof -
  have "set (insert_sub x ys) = insert x (set ys)" for x ys by (induction ys) auto
  then show ?thesis by (induction xs) simp_all
qed

lemma set_list_subscriptions: "set (list_subscriptions inbox subs) = sb_sub ` {s \<in> set subs. sb_inbox s = inbox}"
  by (simp add: list_subscriptions_def set_insert_subs)

lemma dispatch_spec:
  assumes ok: "service_ok (wh_service wh)" "dispatches_ok (wh_db wh)" and d: "dispatch w v inbox delivery e now wh = (err, wh')"
  shows "dispatched_ok wh wh'"
    "err = None \<Longrightarrow> s \<in> set (wh_subs wh) \<Longrightarrow> sb_inbox s = inbox \<Longrightarrow> accounted (wh_db wh') inbox delivery (ws_routine (sb_sub s))"
proof -
  let ?subs = "list_subscriptions inbox (wh_subs wh)"
  have "dispatched_ok wh wh' \<and> (err = None \<longrightarrow> (\<forall>sub \<in> set ?subs. accounted (wh_db wh') inbox delivery (ws_routine sub)))"
  proof (cases "?subs = [] \<or> (\<exists>x. vw_files v = Inl x)")
    case True
    then have "wh' = wh \<and> (err = None \<longrightarrow> ?subs = [])" using d by (auto simp: dispatch_def Let_def split: if_split_asm)
    then show ?thesis using dispatched_ok_refl[OF ok] by auto
  next
    case False
    then obtain h b where "vw_files v = Inr (h, b)" by (cases "vw_files v") auto
    then show ?thesis using dispatch_subs_spec[OF ok] d False by (simp add: dispatch_def Let_def)
  qed
  then show "dispatched_ok wh wh'"
    "err = None \<Longrightarrow> s \<in> set (wh_subs wh) \<Longrightarrow> sb_inbox s = inbox \<Longrightarrow> accounted (wh_db wh') inbox delivery (ws_routine (sb_sub s))"
    unfolding set_list_subscriptions by auto
qed

section \<open>The delivery log\<close>

lemma find_delivery_None: "find_delivery inbox delivery rows = None \<longleftrightarrow> (inbox, delivery) \<notin> (\<lambda>r. (dl_inbox r, dl_id r)) ` set rows"
  by (auto simp: find_delivery_def find_None_iff)

lemma find_delivery_row:
  "log_rows_ok rows \<Longrightarrow> find_delivery inbox delivery rows = Some r \<Longrightarrow> x \<in> set rows \<Longrightarrow> for_delivery inbox delivery x \<Longrightarrow> x = r"
  by (auto simp: log_rows_ok_def find_delivery_def find_Some_iff distinct_map dest!: inj_onD nth_mem)

lemma find_delivery_Some: "find_delivery inbox delivery rows = Some r \<Longrightarrow> r \<in> set rows \<and> for_delivery inbox delivery r"
  by (auto simp: find_delivery_def find_Some_iff)

lemma find_append_None: "find p xs = None \<Longrightarrow> p y \<Longrightarrow> find p (xs @ [y]) = Some y"
  by (induction xs) (auto split: if_split_asm)

lemma accept_new:
  "find_delivery inbox delivery rows = None \<Longrightarrow>
   accept_delivery inbox delivery q now rows = (True, rows @ [accepted_row inbox delivery q now])"
  by (simp add: accept_delivery_def Let_def)

lemma accept_known: "find_delivery inbox delivery rows = Some r \<Longrightarrow> accept_delivery inbox delivery q now rows = (False, rows)"
  by (simp add: accept_delivery_def Let_def)

lemma accept_ok: "log_rows_ok rows \<Longrightarrow> log_rows_ok (snd (accept_delivery inbox delivery q now rows))"
proof (cases "find_delivery inbox delivery rows")
  case None
  assume "log_rows_ok rows"
  then show ?thesis unfolding accept_new[OF None] using None[unfolded find_delivery_None]
    by (simp add: log_rows_ok_def accepted_row_def max_attempts_def)
qed (simp add: accept_known)

lemma accept_attempts: "attempts_of inbox delivery (snd (accept_delivery inbox delivery q now rows)) = attempts_of inbox delivery rows"
proof (cases "find_delivery inbox delivery rows")
  case None
  have "find_delivery inbox delivery (rows @ [accepted_row inbox delivery q now]) = Some (accepted_row inbox delivery q now)"
    using None unfolding find_delivery_def by (rule find_append_None) (simp add: accepted_row_def)
  then show ?thesis unfolding accept_new[OF None] using None by (simp add: attempts_of_def accepted_row_def)
qed (simp add: accept_known)

lemma find_map_delivery:
  "(\<And>r. for_delivery inbox delivery (f r) = for_delivery inbox delivery r) \<Longrightarrow>
   find_delivery inbox delivery (map (\<lambda>r. if for_delivery inbox delivery r then f r else r) rows) = map_option f (find_delivery inbox delivery rows)"
  unfolding find_delivery_def by (induction rows) auto

lemma put_failure_spec:
  assumes ok: "log_rows_ok rows" and n: "attempts_of inbox delivery rows < max_attempts"
  shows "log_rows_ok (put_failure inbox delivery msg now rows)"
    "\<exists>r. find_delivery inbox delivery (put_failure inbox delivery msg now rows) = Some r \<and>
       dl_attempts r = attempts_of inbox delivery rows + 1 \<and> dl_retry r = unix_milli now + retry_delay 1"
proof -
  have "log_rows_ok (put_failure inbox delivery msg now rows) \<and>
    (\<exists>r. find_delivery inbox delivery (put_failure inbox delivery msg now rows) = Some r \<and>
       dl_attempts r = attempts_of inbox delivery rows + 1 \<and> dl_retry r = unix_milli now + retry_delay 1)"
  proof (cases "find_delivery inbox delivery rows")
    case None
    have "find_delivery inbox delivery (rows @ [first_failure inbox delivery msg now]) = Some (first_failure inbox delivery msg now)"
      using None unfolding find_delivery_def by (rule find_append_None) (simp add: first_failure_def)
    then show ?thesis using ok None None[unfolded find_delivery_None]
      by (simp add: put_failure_def log_rows_ok_def first_failure_def max_attempts_def attempts_of_def)
  next
    case (Some r)
    let ?g = "\<lambda>x. if for_delivery inbox delivery x then retried_row msg now x else x"
    have p: "put_failure inbox delivery msg now rows = map ?g rows" using Some by (simp add: put_failure_def)
    have "find_delivery inbox delivery (map ?g rows) = Some (retried_row msg now r)"
      using find_map_delivery[where f = "retried_row msg now" and rows = rows and inbox = inbox and delivery = delivery] Some by (simp add: retried_row_def)
    then have fd: "\<exists>r. find_delivery inbox delivery (map ?g rows) = Some r \<and> dl_attempts r = attempts_of inbox delivery rows + 1 \<and>
        dl_retry r = unix_milli now + retry_delay 1" using Some by (simp add: attempts_of_def retried_row_def)
    have at: "0 \<le> dl_attempts (?g x) \<and> dl_attempts (?g x) \<le> max_attempts" if x: "x \<in> set rows" for x
    proof (cases "for_delivery inbox delivery x")
      case True
      then have "x = r" using find_delivery_row[OF ok Some x] by blast
      then show ?thesis using n Some ok x by (auto simp: attempts_of_def retried_row_def log_rows_ok_def)
    next
      case False
      then show ?thesis using ok x by (auto simp: log_rows_ok_def)
    qed
    have "map (\<lambda>r. (dl_inbox r, dl_id r)) (map ?g rows) = map (\<lambda>r. (dl_inbox r, dl_id r)) rows"
      by (simp add: retried_row_def)
    then have "log_rows_ok (map ?g rows)" using ok at unfolding log_rows_ok_def set_map ball_simps(9) by metis
    then show ?thesis using fd unfolding p by blast
  qed
  then show "log_rows_ok (put_failure inbox delivery msg now rows)"
    "\<exists>r. find_delivery inbox delivery (put_failure inbox delivery msg now rows) = Some r \<and>
       dl_attempts r = attempts_of inbox delivery rows + 1 \<and> dl_retry r = unix_milli now + retry_delay 1" by blast+
qed

lemma allowed_attempts: "retry_allowed inbox delivery now rows \<Longrightarrow> attempts_of inbox delivery rows < max_attempts"
  by (auto simp: retry_allowed_def attempts_of_def max_attempts_def split: option.split_asm)

lemma record_error_spec:
  assumes ok: "webhooks_ok wh" and n: "attempts_of inbox delivery (wh_deliveries wh) < max_attempts"
  shows "webhooks_ok (record_delivery_error inbox delivery msg now wh)"
    "wh_deliveries (record_delivery_error inbox delivery msg now wh) = put_failure inbox delivery msg now (wh_deliveries wh)"
proof -
  let ?wh = "wh\<lparr>wh_deliveries := put_failure inbox delivery msg now (wh_deliveries wh)\<rparr>"
  have p: "log_rows_ok (put_failure inbox delivery msg now (wh_deliveries wh))"
    using ok by (intro put_failure_spec(1)[OF _ n]) (simp add: webhooks_ok_def)
  have w: "webhooks_ok ?wh" using ok p by (simp add: webhooks_ok_def)
  have "record_delivery_error inbox delivery msg now wh = ?wh \<or>
      (\<exists>x m. record_delivery_error inbox delivery msg now wh = notify_failure (''webhook-failed:'' @ x) inbox m now ?wh)"
    by (simp only: record_delivery_error_def Let_def split: if_split) blast
  then consider "record_delivery_error inbox delivery msg now wh = ?wh"
    | x m where "record_delivery_error inbox delivery msg now wh = notify_failure (''webhook-failed:'' @ x) inbox m now ?wh" by blast
  then have "webhooks_ok (record_delivery_error inbox delivery msg now wh) \<and>
      wh_deliveries (record_delivery_error inbox delivery msg now wh) = put_failure inbox delivery msg now (wh_deliveries wh)"
  proof cases
    case (2 x m)
    have "dispatches_ok (wh_db (notify_failure (''webhook-failed:'' @ x) inbox m now ?wh))"
      using w dispatches_ok_cong[OF notify_failure_spec(2,3)] unfolding webhooks_ok_def by blast
    then show ?thesis using w notify_failure_spec(1)[of ?wh] unfolding 2 by (simp add: webhooks_ok_def notify_failure_spec)
  qed (use w in simp_all)
  then show "webhooks_ok (record_delivery_error inbox delivery msg now wh)"
    "wh_deliveries (record_delivery_error inbox delivery msg now wh) = put_failure inbox delivery msg now (wh_deliveries wh)" by blast+
qed

section \<open>One delivery\<close>

lemma attempt_spec:
  assumes ok: "webhooks_ok wh" and a: "attempt_delivery w v inbox delivery e now wh = (err, wh')"
  shows "webhooks_ok wh'" "wh_deliveries wh' = snd (accept_delivery inbox delivery (logged_request e) now (wh_deliveries wh))"
    "carried (wh_db wh) (wh_db wh')"
    "err = None \<Longrightarrow> s \<in> set (wh_subs wh) \<Longrightarrow> sb_inbox s = inbox \<Longrightarrow> accounted (wh_db wh') inbox delivery (ws_routine (sb_sub s))"
proof -
  let ?wh = "wh\<lparr>wh_deliveries := snd (accept_delivery inbox delivery (logged_request e) now (wh_deliveries wh))\<rparr>"
  have o: "service_ok (wh_service ?wh)" "dispatches_ok (wh_db ?wh)" using ok by (simp_all add: webhooks_ok_def)
  have d: "dispatch w v inbox delivery e now ?wh = (err, wh')" using a by (simp add: attempt_delivery_def)
  note sp = dispatch_spec[OF o d]
  show del: "wh_deliveries wh' = snd (accept_delivery inbox delivery (logged_request e) now (wh_deliveries wh))"
    using sp(1) by (simp add: dispatched_ok_def same_log_def)
  show "webhooks_ok wh'" using sp(1) accept_ok ok unfolding webhooks_ok_def dispatched_ok_def del by blast
  show "carried (wh_db wh) (wh_db wh')" using sp(1) by (simp add: dispatched_ok_def)
  show "err = None \<Longrightarrow> s \<in> set (wh_subs wh) \<Longrightarrow> sb_inbox s = inbox \<Longrightarrow> accounted (wh_db wh') inbox delivery (ws_routine (sb_sub s))"
    using sp(2) by simp
qed

text \<open>The ways an attempt at a delivery can go.\<close>

lemma poll_delivery_cases:
  assumes "poll_delivery w v inbox delivery fetched ack now wh = (acked, wh')"
  obtains (waits) "\<not> retry_allowed inbox delivery now (wh_deliveries wh)" "\<not> acked" "wh' = wh"
  | (fails) err wh1 where "retry_allowed inbox delivery now (wh_deliveries wh)" "\<not> acked"
      "wh' = record_delivery_error inbox delivery err now wh1"
      "wh1 = wh \<or> (\<exists>e x. fetched = Inr e \<and> attempt_delivery w v inbox delivery e now wh = (x, wh1))"
  | (acked) e where "retry_allowed inbox delivery now (wh_deliveries wh)" "acked" "fetched = Inr e" "ack = None"
      "attempt_delivery w v inbox delivery e now wh = (None, wh')"
proof (cases "retry_allowed inbox delivery now (wh_deliveries wh)")
  case False
  then show thesis using assms by (intro waits) (simp_all add: poll_delivery_def)
next
  case allowed: True
  show thesis
  proof (cases fetched)
    case (Inl err)
    then show thesis using assms allowed by (intro fails[of err wh]) (simp_all add: poll_delivery_def)
  next
    case (Inr e)
    obtain x wh1 where a: "attempt_delivery w v inbox delivery e now wh = (x, wh1)" by fastforce
    show thesis
    proof (cases "x = None \<and> ack = None")
      case True
      then show thesis using assms allowed Inr a by (intro acked[of e]) (simp_all add: poll_delivery_def)
    next
      case False
      then have "(case x of Some err \<Rightarrow> Some err | None \<Rightarrow> ack) \<noteq> None" by (auto split: option.split)
      then obtain err where "(case x of Some err \<Rightarrow> Some err | None \<Rightarrow> ack) = Some err" by blast
      then show thesis using assms allowed Inr a
        by (intro fails[of err wh1]) (auto simp: poll_delivery_def split: option.split_asm)
    qed
  qed
qed

lemma failed_attempt:
  assumes ok: "webhooks_ok wh" and al: "retry_allowed inbox delivery now (wh_deliveries wh)"
    and w: "wh1 = wh \<or> (\<exists>e x. fetched = Inr e \<and> attempt_delivery w v inbox delivery e now wh = (x, wh1))"
  shows "webhooks_ok (record_delivery_error inbox delivery err now wh1)"
    "\<exists>r. find_delivery inbox delivery (wh_deliveries (record_delivery_error inbox delivery err now wh1)) = Some r \<and>
       dl_attempts r = attempts_of inbox delivery (wh_deliveries wh) + 1 \<and> dl_retry r = unix_milli now + retry_delay 1"
proof -
  have w1: "webhooks_ok wh1" "attempts_of inbox delivery (wh_deliveries wh1) = attempts_of inbox delivery (wh_deliveries wh)"
    using w ok attempt_spec(1,2)[OF ok] accept_attempts by metis+
  then have n: "attempts_of inbox delivery (wh_deliveries wh1) < max_attempts" using allowed_attempts[OF al] by simp
  note r = record_error_spec[OF w1(1) n]
  show "webhooks_ok (record_delivery_error inbox delivery err now wh1)" by (rule r(1))
  have "log_rows_ok (wh_deliveries wh1)" using w1(1) by (simp add: webhooks_ok_def)
  then show "\<exists>r. find_delivery inbox delivery (wh_deliveries (record_delivery_error inbox delivery err now wh1)) = Some r \<and>
       dl_attempts r = attempts_of inbox delivery (wh_deliveries wh) + 1 \<and> dl_retry r = unix_milli now + retry_delay 1"
    unfolding r(2) w1(2)[symmetric] by (rule put_failure_spec(2)[OF _ n])
qed

lemma poll_delivery_ok: "webhooks_ok wh \<Longrightarrow> webhooks_ok (snd (poll_delivery w v inbox delivery fetched ack now wh))"
proof -
  assume ok: "webhooks_ok wh"
  obtain acked wh' where p: "poll_delivery w v inbox delivery fetched ack now wh = (acked, wh')" by fastforce
  then have "webhooks_ok wh'"
    by (cases rule: poll_delivery_cases) (use ok failed_attempt(1)[OF ok] attempt_spec(1)[OF ok] in \<open>simp_all\<close>)
  then show ?thesis using p by simp
qed

text \<open>What a redelivery comes to: nothing, or its own row and a dispatch.\<close>

lemma redeliver_cases:
  obtains (refused) err where "redeliver w v inbox delivery now wh = (Inl err, wh)"
  | (again) q e err wh2 where "get_delivery inbox delivery (wh_deliveries wh) = Some q" "replayed q now = Some e"
      "dispatch w v inbox (redelivery_id delivery now) e now
         (wh\<lparr>wh_deliveries := snd (accept_delivery inbox (redelivery_id delivery now) q now (wh_deliveries wh))\<rparr>) = (err, wh2)"
      "redeliver w v inbox delivery now wh = (Inr err, wh2)"
proof (cases "get_delivery inbox delivery (wh_deliveries wh)")
  case (Some q)
  then show ?thesis
    by (cases "replayed q now"; cases "dispatch w v inbox (redelivery_id delivery now) (the (replayed q now)) now
         (wh\<lparr>wh_deliveries := snd (accept_delivery inbox (redelivery_id delivery now) q now (wh_deliveries wh))\<rparr>)")
      (auto simp: redeliver_def Let_def intro: refused again)
qed (simp add: redeliver_def refused)

lemma redeliver_ok: "webhooks_ok wh \<Longrightarrow> webhooks_ok (snd (redeliver w v inbox delivery now wh))"
proof (cases w v inbox delivery now wh rule: redeliver_cases)
  case (again q e err wh2)
  assume ok: "webhooks_ok wh"
  let ?new = "redelivery_id delivery now"
  let ?wh = "wh\<lparr>wh_deliveries := snd (accept_delivery inbox ?new q now (wh_deliveries wh))\<rparr>"
  note d = again(3)
  have o: "service_ok (wh_service ?wh)" "dispatches_ok (wh_db ?wh)" using ok by (simp_all add: webhooks_ok_def)
  have "dispatched_ok ?wh wh2" by (rule dispatch_spec(1)[OF o d])
  then have "webhooks_ok wh2" using accept_ok ok by (simp add: webhooks_ok_def dispatched_ok_def same_log_def)
  then show ?thesis using again(4) by simp
qed simp

lemma cleanup_ok: "webhooks_ok wh \<Longrightarrow> webhooks_ok (cleanup_history before wh)"
proof -
  assume ok: "webhooks_ok wh"
  let ?db = "(wh_db wh)\<lparr>dispatches := filter (\<lambda>d. \<not> (0 < di_finished d \<and> di_finished d < before)) (dispatches (wh_db wh))\<rparr>"
  have "service_ok ((wh_service wh)\<lparr>sv_db := ?db\<rparr>)" using ok by (intro service_ok_dispatches) (simp_all add: webhooks_ok_def)
  moreover have "dispatches_ok ?db" using ok by (simp add: webhooks_ok_def dispatches_ok_def ended_with_run_def has_run_def distinct_map_filter)
  moreover have "log_rows_ok (filter (\<lambda>r. \<not> (0 < dl_accepted r \<and> dl_accepted r < before)) (wh_deliveries wh))"
    using ok by (simp add: webhooks_ok_def log_rows_ok_def distinct_map_filter)
  ultimately show ?thesis by (simp add: cleanup_history_def Let_def webhooks_ok_def put_db_def)
qed

section \<open>Runs\<close>

text \<open>Inboxes and subscriptions may be edited in any way between two steps.\<close>

datatype webhook_event =
    Routine_Event event
  | Edit_Webhooks "inbox_row list" "sub_row list"
  | Attempt webhook_view string string "string + inbox_envelope" "string option"
  | Redelivery webhook_view string string
  | Cleanup int

fun webhook_step :: "world \<Rightarrow> webhooks \<Rightarrow> int \<Rightarrow> webhook_event \<Rightarrow> webhooks" where
  "webhook_step w wh now (Routine_Event ev) = wh\<lparr>wh_service := step w (wh_service wh) now ev\<rparr>"
| "webhook_step w wh now (Edit_Webhooks inboxes subs) = wh\<lparr>wh_inboxes := inboxes, wh_subs := subs\<rparr>"
| "webhook_step w wh now (Attempt v inbox delivery fetched ack) = snd (poll_delivery w v inbox delivery fetched ack now wh)"
| "webhook_step w wh now (Redelivery v inbox delivery) = snd (redeliver w v inbox delivery now wh)"
| "webhook_step w wh now (Cleanup before) = cleanup_history before wh"

definition no_webhooks :: webhooks where
  "no_webhooks = \<lparr>wh_service = empty_service, wh_inboxes = [], wh_subs = [], wh_deliveries = []\<rparr>"

inductive webhook_run :: "world \<Rightarrow> webhooks \<Rightarrow> bool" for w where
  none: "webhook_run w no_webhooks"
| later: "webhook_run w wh \<Longrightarrow> webhook_run w (webhook_step w wh now ev)"

lemma webhook_step_ok: "webhooks_ok wh \<Longrightarrow> webhooks_ok (webhook_step w wh now ev)"
proof (cases ev)
  case (Routine_Event ev')
  assume ok: "webhooks_ok wh"
  then have s: "service_ok (wh_service wh)" "dispatches_ok (wh_db wh)" by (simp_all add: webhooks_ok_def)
  have "dispatches_ok (sv_db (step w (wh_service wh) now ev'))" by (rule kept_dispatches_ok[OF s(2) kept_step step_later[OF s(1)]])
  then show ?thesis using ok routine_step_ok[OF s(1)] Routine_Event by (simp add: webhooks_ok_def del: step.simps)
qed (simp_all add: poll_delivery_ok redeliver_ok cleanup_ok, simp add: webhooks_ok_def)

lemma webhook_run_ok: "webhook_run w wh \<Longrightarrow> webhooks_ok wh"
proof (induction rule: webhook_run.induct)
  case none
  show ?case using empty_ok by (simp add: no_webhooks_def webhooks_ok_def dispatches_ok_def log_rows_ok_def empty_service_def)
qed (rule webhook_step_ok)

end
