(* ===== verification/Webhook_Promises.thy ===== *)
theory Webhook_Promises
  imports Webhook_Runs
begin

text \<open>
  What the webhooks keep: a delivery runs a routine once, an acknowledged delivery is accounted for
  to every subscription, attempts are bounded, a replay repeats the request; and where they fall
  short: a delivery that failed before is never logged, and retries do not slow down.
\<close>

section \<open>A sample\<close>

text \<open>One inbox, whose deliveries all run the routine of the sample service.\<close>

definition sample_sub :: sub_row where
  "sample_sub = \<lparr>sb_id = ''s1'', sb_inbox = ''i'',
     sb_sub = \<lparr>ws_routine = ''A'', ws_headers = Some [], ws_json = Some [], ws_json_empty = True, ws_pointer = []\<rparr>\<rparr>"

definition sample_webhook_view :: webhook_view where
  "sample_webhook_view =
     \<lparr>vw_decode = (\<lambda>_. None), vw_files = Inr (''h'', ''b''), vw_text = (\<lambda>_ _ _. ''x''), vw_cancelled = (\<lambda>_. None),
      vw_projects = sample_projects, vw_launch = (\<lambda>_. sample_launch), vw_send = (\<lambda>_. None), vw_new = (\<lambda>_. ''w1'')\<rparr>"

definition sample_envelope :: inbox_envelope where
  "sample_envelope = \<lparr>en_method = ''POST'', en_header = [(''X-Kind'', [''a&b''])], en_query = [], en_received = 1, en_body = ''{}''\<rparr>"

definition webhook_steps :: "world \<Rightarrow> webhooks \<Rightarrow> (int \<times> webhook_event) list \<Rightarrow> webhooks" where
  "webhook_steps w wh evs = foldl (\<lambda>wh e. webhook_step w wh (fst e) (snd e)) wh evs"

lemma webhook_run_steps: "webhook_run w wh \<Longrightarrow> webhook_run w (webhook_steps w wh evs)"
  by (induction evs arbitrary: wh) (simp_all add: webhook_steps_def webhook_run.intros)

definition sample_subscribed :: webhooks where
  "sample_subscribed = webhook_steps sample_world no_webhooks
     [(minute, Routine_Event (Create (sample_input ''a'' ''new'' []) ''A'')),
      (minute, Edit_Webhooks [\<lparr>ib_id = ''i'', ib_name = ''hook''\<rparr>] [sample_sub])]"

definition sample_delivered :: webhooks where
  "sample_delivered = webhook_step sample_world sample_subscribed (2 * minute) (Attempt sample_webhook_view ''i'' ''d'' (Inr sample_envelope) None)"

lemma sample_subscribed_run: "webhook_run sample_world sample_subscribed"
  unfolding sample_subscribed_def by (intro webhook_run_steps webhook_run.none)

lemma sample_delivered_run: "webhook_run sample_world sample_delivered"
  unfolding sample_delivered_def by (rule webhook_run.later[OF sample_subscribed_run])

lemma sample_delivered_facts:
  "map (\<lambda>d. (dispatch_key d, di_state d)) (dispatches (wh_db sample_delivered)) = [((''i'', ''d'', ''A''), Disp_Terminal)]"
  "map (\<lambda>r. (rr_id r, rr_routine r, rr_occurrence r = webhook_occurrence ''i'' ''d'')) (runs (wh_db sample_delivered)) = [(''w1'', ''A'', True)]"
  "map fst (sv_prompted (wh_service sample_delivered)) = [''w1'']"
  by code_simp+

section \<open>A delivery runs a routine once\<close>

lemma at_most_one:
  "distinct (map f xs) \<Longrightarrow> (\<And>x y. x \<in> set xs \<Longrightarrow> y \<in> set xs \<Longrightarrow> P x \<Longrightarrow> P y \<Longrightarrow> f x = f y) \<Longrightarrow> length (filter P xs) \<le> 1"
proof (induction xs)
  case (Cons x xs)
  show ?case
  proof (cases "P x")
    case True
    have "\<not> P y" if "y \<in> set xs" for y
      using Cons.prems(2)[of x y] True that Cons.prems(1) by (auto simp: image_iff)
    then have "filter P xs = []" by (simp add: filter_empty_conv)
    then show ?thesis by simp
  next
    case False
    then show ?thesis using Cons.IH Cons.prems by simp
  qed
qed simp

text \<open>The prompts sent for a delivery's occurrence of a routine.\<close>

definition prompts_of :: "webhooks \<Rightarrow> string \<Rightarrow> int \<Rightarrow> (string \<times> string \<times> string) list" where
  "prompts_of wh i occurrence =
     filter (\<lambda>p. \<exists>r \<in> set (runs (wh_db wh)). rr_id r = fst p \<and> rr_routine r = i \<and> rr_occurrence r = occurrence)
       (sv_prompted (wh_service wh))"

text \<open>
  C9: However polls, retries after lost acknowledgements, replays, edits, crashes and cleanups are
  interleaved, a delivery has one dispatch for a routine, prompts it at most once, and a dispatch
  that ended well has exactly one run of the routine for the delivery's occurrence.
\<close>

theorem delivery_runs_a_routine_once:
  assumes "webhook_run w wh"
  shows "length (prompts_of wh i (webhook_occurrence inbox delivery)) \<le> 1 \<and>
    length (filter (is_dispatch inbox delivery i) (dispatches (wh_db wh))) \<le> 1 \<and>
    (\<forall>d \<in> set (dispatches (wh_db wh)). is_dispatch inbox delivery i d \<and> di_state d = Disp_Terminal \<longrightarrow>
       (\<exists>!r. r \<in> set (runs (wh_db wh)) \<and> rr_routine r = i \<and> rr_occurrence r = webhook_occurrence inbox delivery))"
proof (intro conjI ballI impI)
  have ok: "service_ok (wh_service wh)" "dispatches_ok (wh_db wh)" using webhook_run_ok[OF assms] by (simp_all add: webhooks_ok_def)
  have r: "runs_ok (runs (wh_db wh))" using ok(1) by (simp add: service_ok_def db_ok_def)
  have one: "a = b" if "a \<in> set (runs (wh_db wh))" "b \<in> set (runs (wh_db wh))" "rr_routine a = rr_routine b" "rr_occurrence a = rr_occurrence b" for a b
  proof -
    have "clash a b" using that(3,4) by (simp add: clash_def)
    then have "rr_id a = rr_id b" using r that(1,2) unfolding runs_ok_def by blast
    then show ?thesis using same_id_same_row[OF r that(1,2)] by blast
  qed
  have p: "distinct (map fst (sv_prompted (wh_service wh)))" using ok(1) by (simp add: service_ok_def)
  show "length (prompts_of wh i (webhook_occurrence inbox delivery)) \<le> 1" unfolding prompts_of_def
    by (rule at_most_one[OF p]) (use one in metis)
  have "distinct (map dispatch_key (dispatches (wh_db wh)))" using ok(2) by (simp add: dispatches_ok_def)
  then show "length (filter (is_dispatch inbox delivery i) (dispatches (wh_db wh))) \<le> 1" by (rule at_most_one) simp
  fix d assume d: "d \<in> set (dispatches (wh_db wh))" "is_dispatch inbox delivery i d \<and> di_state d = Disp_Terminal"
  then have "has_run (wh_db wh) i (webhook_occurrence inbox delivery)"
    using ok(2) by (auto simp: dispatches_ok_def ended_with_run_def)
  then show "\<exists>!r. r \<in> set (runs (wh_db wh)) \<and> rr_routine r = i \<and> rr_occurrence r = webhook_occurrence inbox delivery"
    using one unfolding has_run_def by metis
qed

lemma delivery_runs_a_routine_once_witness:
  "length (prompts_of sample_delivered ''A'' (webhook_occurrence ''i'' ''d'')) = 1 \<and>
   (\<exists>!r. r \<in> set (runs (wh_db sample_delivered)) \<and> rr_routine r = ''A'' \<and> rr_occurrence r = webhook_occurrence ''i'' ''d'')"
proof -
  note once = delivery_runs_a_routine_once[OF sample_delivered_run, where i = "''A''" and inbox = "''i''" and delivery = "''d''"]
  have "map fst (prompts_of sample_delivered ''A'' (webhook_occurrence ''i'' ''d'')) = [''w1'']" by code_simp
  then have "length (prompts_of sample_delivered ''A'' (webhook_occurrence ''i'' ''d'')) = 1" by (metis length_map list.size(3,4) One_nat_def add.commute plus_1_eq_Suc)
  moreover obtain d where "d \<in> set (dispatches (wh_db sample_delivered))" "is_dispatch ''i'' ''d'' ''A'' d" "di_state d = Disp_Terminal"
    using sample_delivered_facts(1) by (auto simp: map_eq_Cons_conv)
  ultimately show ?thesis using once by blast
qed

section \<open>Acknowledged deliveries\<close>

text \<open>
  C19: A delivery that was acknowledged to the relay stands in the log, and every subscription of its
  inbox is accounted for by a dispatch of its own (ignored with a reason, or run), unless its
  routine was deleted; the attempt left no dispatch queued that was not queued before.
\<close>

theorem acknowledged_delivery_is_accounted_for:
  assumes "webhook_run w wh" "poll_delivery w v inbox delivery fetched ack now wh = (True, wh')"
  shows "find_delivery inbox delivery (wh_deliveries wh') \<noteq> None \<and>
    (\<forall>s \<in> set (wh_subs wh). sb_inbox s = inbox \<longrightarrow>
       (\<exists>d \<in> set (dispatches (wh_db wh')). is_dispatch inbox delivery (ws_routine (sb_sub s)) d) \<or>
       (\<exists>r \<in> set (routines (wh_db wh')). ro_id r = ws_routine (sb_sub s) \<and> ro_deleted r)) \<and>
    (\<forall>d \<in> set (dispatches (wh_db wh')). di_state d = Disp_Queued \<longrightarrow> d \<in> set (dispatches (wh_db wh)))"
proof -
  have ok: "webhooks_ok wh" by (rule webhook_run_ok[OF assms(1)])
  obtain e where a: "attempt_delivery w v inbox delivery e now wh = (None, wh')"
    using assms(2) by (cases rule: poll_delivery_cases) auto
  note sp = attempt_spec[OF ok a]
  have "find_delivery inbox delivery (wh_deliveries wh') \<noteq> None"
  proof (cases "find_delivery inbox delivery (wh_deliveries wh)")
    case None
    then show ?thesis unfolding sp(2) accept_new[OF None] by (simp add: find_delivery_None accepted_row_def)
  next
    case (Some r)
    then show ?thesis unfolding sp(2) accept_known[OF Some] by simp
  qed
  moreover have "(\<exists>d \<in> set (dispatches (wh_db wh')). is_dispatch inbox delivery (ws_routine (sb_sub s)) d) \<or>
       (\<exists>r \<in> set (routines (wh_db wh')). ro_id r = ws_routine (sb_sub s) \<and> ro_deleted r)"
    if "s \<in> set (wh_subs wh)" "sb_inbox s = inbox" for s
    using sp(4)[OF refl that] unfolding accounted_def by auto
  ultimately show ?thesis using sp(3) unfolding carried_def by blast
qed

lemma acknowledged_delivery_is_accounted_for_witness:
  "\<exists>d \<in> set (dispatches (wh_db sample_delivered)). is_dispatch ''i'' ''d'' ''A'' d \<and> di_state d \<noteq> Disp_Queued"
proof -
  have "fst (poll_delivery sample_world sample_webhook_view ''i'' ''d'' (Inr sample_envelope) None (2 * minute) sample_subscribed)" by code_simp
  then have p: "poll_delivery sample_world sample_webhook_view ''i'' ''d'' (Inr sample_envelope) None (2 * minute) sample_subscribed = (True, sample_delivered)"
    by (simp add: sample_delivered_def prod_eq_iff)
  have s: "wh_subs sample_subscribed = [sample_sub]" "dispatches (wh_db sample_subscribed) = []" "map ro_deleted (routines (wh_db sample_delivered)) = [False]"
    by code_simp+
  then have "\<not> (\<exists>r \<in> set (routines (wh_db sample_delivered)). ro_id r = ws_routine (sb_sub sample_sub) \<and> ro_deleted r)"
    by (auto simp: map_eq_Cons_conv)
  then show ?thesis using acknowledged_delivery_is_accounted_for[OF sample_subscribed_run p] s(1,2) by (auto simp: sample_sub_def)
qed

section \<open>Retries\<close>

text \<open>
  No delivery is attempted more than eight times: an attempt that fails counts, one that is not
  allowed does nothing, and after eight the poller leaves the delivery alone for good.
\<close>

theorem attempts_are_bounded:
  assumes "webhook_run w wh"
  shows "attempts_of inbox delivery (wh_deliveries wh) \<le> 8 \<and>
    (attempts_of inbox delivery (wh_deliveries wh) = 8 \<longrightarrow> poll_delivery w v inbox delivery fetched ack now wh = (False, wh)) \<and>
    (case poll_delivery w v inbox delivery fetched ack now wh of
       (True, wh') \<Rightarrow> attempts_of inbox delivery (wh_deliveries wh') = attempts_of inbox delivery (wh_deliveries wh)
     | (False, wh') \<Rightarrow> wh' = wh \<or> attempts_of inbox delivery (wh_deliveries wh') = attempts_of inbox delivery (wh_deliveries wh) + 1)"
proof -
  have ok: "webhooks_ok wh" by (rule webhook_run_ok[OF assms])
  then have rows: "log_rows_ok (wh_deliveries wh)" by (simp add: webhooks_ok_def)
  have "attempts_of inbox delivery (wh_deliveries wh) \<le> 8"
  proof (cases "find_delivery inbox delivery (wh_deliveries wh)")
    case (Some r)
    then show ?thesis using rows find_delivery_Some[OF Some] by (auto simp: attempts_of_def log_rows_ok_def max_attempts_def)
  qed (simp add: attempts_of_def)
  moreover have "poll_delivery w v inbox delivery fetched ack now wh = (False, wh)" if "attempts_of inbox delivery (wh_deliveries wh) = 8"
    using that allowed_attempts[of inbox delivery now "wh_deliveries wh"] by (auto simp: poll_delivery_def max_attempts_def)
  moreover obtain acked wh' where p: "poll_delivery w v inbox delivery fetched ack now wh = (acked, wh')" by fastforce
  have "if acked then attempts_of inbox delivery (wh_deliveries wh') = attempts_of inbox delivery (wh_deliveries wh)
     else wh' = wh \<or> attempts_of inbox delivery (wh_deliveries wh') = attempts_of inbox delivery (wh_deliveries wh) + 1"
    using p
  proof (cases rule: poll_delivery_cases)
    case (fails err wh1)
    then show ?thesis using failed_attempt(2)[OF ok fails(1,4), of err] by (auto simp: attempts_of_def)
  next
    case (acked e)
    then show ?thesis using attempt_spec(2)[OF ok acked(5)] accept_attempts by metis
  qed simp
  ultimately show ?thesis using p by (simp split: bool.split)
qed

text \<open>
  Every failed attempt is followed by the same wait of two seconds: while attempts are left, the
  delivery may be tried again two seconds later, however often it has failed.
\<close>

theorem retries_never_slow_down:
  assumes "webhook_run w wh" "poll_delivery w v inbox delivery fetched ack now wh = (False, wh')" "wh' \<noteq> wh"
    "attempts_of inbox delivery (wh_deliveries wh') < 8" "now + 2000000000 \<le> later"
  shows "retry_allowed inbox delivery later (wh_deliveries wh')"
proof -
  have ok: "webhooks_ok wh" by (rule webhook_run_ok[OF assms(1)])
  obtain r where r: "find_delivery inbox delivery (wh_deliveries wh') = Some r" "dl_retry r = unix_milli now + retry_delay 1"
    using assms(2)
  proof (cases rule: poll_delivery_cases)
    case (fails err wh1)
    then show ?thesis using failed_attempt(2)[OF ok fails(1,4), of err] that by blast
  qed (use assms(3) in simp_all)
  have "unix_milli now + 2000 = unix_milli (now + 2000000000)" by (simp add: unix_milli_def)
  also have "\<dots> \<le> unix_milli later" using assms(5) unfolding unix_milli_def by (rule zdiv_mono1) simp
  finally show ?thesis using r assms(4) by (simp add: retry_allowed_def attempts_of_def max_attempts_def retry_delay_def)
qed

section \<open>The log and replays\<close>

text \<open>
  C35: A delivery whose first attempt failed before it was logged (it could not be fetched or
  decrypted) is acknowledged once a later attempt succeeds, but its row stays the row of the failure:
  it is not logged as accepted, and replaying it is refused. A delivery that was logged before its
  first failure (at its dispatch or its acknowledgement) is not meant: its row stays accepted.
\<close>

theorem retried_delivery_is_never_logged:
  assumes "webhook_run w wh" "find_delivery inbox delivery (wh_deliveries wh) = Some r" "dl_item r = []"
    "poll_delivery w v inbox delivery fetched ack now wh = (True, wh')"
  shows "find_delivery inbox delivery (wh_deliveries wh') = Some r \<and>
    redeliver w v inbox delivery later wh' = (Inl ''sql: no rows in result set'', wh')"
proof -
  have ok: "webhooks_ok wh" by (rule webhook_run_ok[OF assms(1)])
  obtain e where a: "attempt_delivery w v inbox delivery e now wh = (None, wh')"
    using assms(4) by (cases rule: poll_delivery_cases) auto
  have d: "wh_deliveries wh' = wh_deliveries wh" using attempt_spec(2)[OF ok a] accept_known[OF assms(2)] by simp
  have rows: "log_rows_ok (wh_deliveries wh)" using ok by (simp add: webhooks_ok_def)
  have "find (\<lambda>x. for_delivery inbox delivery x \<and> dl_item x \<noteq> []) (wh_deliveries wh) = None"
    using find_delivery_row[OF rows assms(2)] assms(3) by (auto simp: find_None_iff)
  then show ?thesis using d assms(2) by (simp add: redeliver_def get_delivery_def)
qed

text \<open>What a row of the log holds of its request, and how a step carries rows over: a row of an old key
  holds what it held.\<close>

abbreviation row_key :: "delivery_row \<Rightarrow> string \<times> string" where
  "row_key r \<equiv> (dl_inbox r, dl_id r)"

definition row_request :: "delivery_row \<Rightarrow> bool \<times> request" where
  "row_request r = (dl_item r \<noteq> [], \<lparr>rq_title = dl_title r, rq_body = dl_body r, rq_headers = dl_headers r, rq_query = dl_query r\<rparr>)"

definition rows_carried :: "delivery_row list \<Rightarrow> delivery_row list \<Rightarrow> bool" where
  "rows_carried a b \<longleftrightarrow>
     (\<forall>r' \<in> set b. (\<exists>r \<in> set a. row_key r = row_key r' \<and> row_request r = row_request r') \<or> row_key r' \<notin> row_key ` set a)"

lemma rows_carried_refl [simp]: "rows_carried a a"
  by (auto simp: rows_carried_def)

lemma rows_carried_trans:
  assumes "rows_carried a b" "rows_carried b c" "row_key ` set a \<subseteq> row_key ` set b"
  shows "rows_carried a c"
  unfolding rows_carried_def
proof
  fix r'' assume "r'' \<in> set c"
  then consider r' where "r' \<in> set b" "row_key r' = row_key r''" "row_request r' = row_request r''" | "row_key r'' \<notin> row_key ` set b"
    using assms(2) unfolding rows_carried_def by blast
  then show "(\<exists>r \<in> set a. row_key r = row_key r'' \<and> row_request r = row_request r'') \<or> row_key r'' \<notin> row_key ` set a"
  proof cases
    case 1
    have "(\<exists>r \<in> set a. row_key r = row_key r' \<and> row_request r = row_request r') \<or> row_key r' \<notin> row_key ` set a"
      using assms(1) 1(1) unfolding rows_carried_def by (rule bspec)
    then show ?thesis unfolding 1(2,3) .
  next
    case 2
    then show ?thesis using assms(3) by blast
  qed
qed

lemma accept_carried: "rows_carried rows (snd (accept_delivery inbox delivery q now rows))"
  "row_key ` set rows \<subseteq> row_key ` set (snd (accept_delivery inbox delivery q now rows))"
  by (cases "find_delivery inbox delivery rows";
      auto simp: accept_new accept_known rows_carried_def accepted_row_def find_delivery_None)+

lemma put_failure_carried: "rows_carried rows (put_failure inbox delivery msg now rows)"
proof (cases "find_delivery inbox delivery rows = None")
  case True
  then show ?thesis by (auto simp: put_failure_def rows_carried_def first_failure_def find_delivery_None)
next
  case False
  have "row_key (retried_row msg now r) = row_key r" "row_request (retried_row msg now r) = row_request r" for r
    by (simp_all add: retried_row_def row_request_def)
  then show ?thesis using False by (fastforce simp: put_failure_def rows_carried_def)
qed

lemma notify_deliveries: "wh_deliveries (notify_failure i inbox msg now wh) = wh_deliveries wh"
  by (simp add: notify_failure_def put_db_def Let_def split: option.split)

lemma record_deliveries: "wh_deliveries (record_delivery_error inbox delivery msg now wh) = put_failure inbox delivery msg now (wh_deliveries wh)"
  by (simp add: record_delivery_error_def Let_def notify_deliveries)

lemma poll_carried:
  assumes "webhooks_ok wh" "poll_delivery w v inbox delivery fetched ack now wh = (acked, wh')"
  shows "rows_carried (wh_deliveries wh) (wh_deliveries wh')"
  using assms(2)
proof (cases rule: poll_delivery_cases)
  case waits
  then show ?thesis by simp
next
  case (fails err wh1)
  have "rows_carried (wh_deliveries wh) (wh_deliveries wh1) \<and> row_key ` set (wh_deliveries wh) \<subseteq> row_key ` set (wh_deliveries wh1)"
    using fails(4)
  proof
    assume "\<exists>e x. fetched = Inr e \<and> attempt_delivery w v inbox delivery e now wh = (x, wh1)"
    then obtain e x where a: "attempt_delivery w v inbox delivery e now wh = (x, wh1)" by blast
    show ?thesis unfolding attempt_spec(2)[OF assms(1) a] using accept_carried by (rule conjI)
  qed simp
  then show ?thesis unfolding fails(3) record_deliveries by (metis rows_carried_trans put_failure_carried)
next
  case (acked e)
  then show ?thesis using attempt_spec(2)[OF assms(1) acked(5)] accept_carried(1) by simp
qed

lemma step_carried:
  assumes "webhooks_ok wh"
  shows "rows_carried (wh_deliveries wh) (wh_deliveries (webhook_step w wh now ev))"
proof (cases ev)
  case (Attempt v inbox delivery fetched ack)
  show ?thesis unfolding Attempt webhook_step.simps by (rule poll_carried[OF assms prod.collapse[symmetric]])
next
  case (Redelivery v inbox delivery)
  show ?thesis
  proof (cases w v inbox delivery now wh rule: redeliver_cases)
    case (again q e err wh2)
    have "service_ok (wh_service wh)" "dispatches_ok (wh_db wh)" using assms by (simp_all add: webhooks_ok_def)
    then have "wh_deliveries wh2 = snd (accept_delivery inbox (redelivery_id delivery now) q now (wh_deliveries wh))"
      using dispatch_spec(1)[OF _ _ again(3)] by (simp add: dispatched_ok_def same_log_def)
    then show ?thesis using Redelivery again(4) accept_carried(1) by simp
  qed (simp add: Redelivery)
next
  case (Cleanup before)
  then show ?thesis by (auto simp: cleanup_history_def Let_def rows_carried_def)
next
  case (Routine_Event x)
  then show ?thesis by (simp del: step.simps)
qed simp

text \<open>A logged request stays as it is while its row stays.\<close>

lemma get_delivery_row:
  assumes "log_rows_ok rows"
  shows "get_delivery inbox delivery rows = Some q \<longleftrightarrow> (\<exists>r \<in> set rows. row_key r = (inbox, delivery) \<and> row_request r = (True, q))"
proof
  assume "get_delivery inbox delivery rows = Some q"
  then show "\<exists>r \<in> set rows. row_key r = (inbox, delivery) \<and> row_request r = (True, q)"
    by (auto simp: get_delivery_def row_request_def find_Some_iff split: option.split_asm intro: nth_mem)
next
  assume "\<exists>r \<in> set rows. row_key r = (inbox, delivery) \<and> row_request r = (True, q)"
  then obtain r where r: "r \<in> set rows" "row_key r = (inbox, delivery)" "row_request r = (True, q)" by blast
  obtain x where x: "find (\<lambda>r. for_delivery inbox delivery r \<and> dl_item r \<noteq> []) rows = Some x"
    using r by (cases "find (\<lambda>r. for_delivery inbox delivery r \<and> dl_item r \<noteq> []) rows") (auto simp: find_None_iff row_request_def)
  then have "x \<in> set rows" "row_key x = row_key r" using r(2) by (auto simp: find_Some_iff)
  moreover have "distinct (map row_key rows)" using assms by (simp add: log_rows_ok_def)
  ultimately have "x = r" using r(1) by (metis distinct_map inj_onD)
  then show "get_delivery inbox delivery rows = Some q" using x r(3) by (simp add: get_delivery_def row_request_def)
qed

lemma carried_request:
  assumes ok: "log_rows_ok a" "log_rows_ok b" and "rows_carried a b" "get_delivery inbox delivery a = Some q" "find_delivery inbox delivery b \<noteq> None"
  shows "get_delivery inbox delivery b = Some q"
proof -
  obtain r where r: "r \<in> set a" "row_key r = (inbox, delivery)" "row_request r = (True, q)"
    using assms(4) get_delivery_row[OF ok(1)] by blast
  obtain r' where r': "r' \<in> set b" "row_key r' = (inbox, delivery)"
    using assms(5) by (auto simp: find_delivery_None)
  have k: "row_key r' \<in> row_key ` set a" unfolding r'(2) using r(1,2) by force
  have "(\<exists>r \<in> set a. row_key r = row_key r' \<and> row_request r = row_request r') \<or> row_key r' \<notin> row_key ` set a"
    using assms(3) r'(1) unfolding rows_carried_def by (rule bspec)
  then obtain r0 where r0: "r0 \<in> set a" "row_key r0 = row_key r'" "row_request r0 = row_request r'" using k by blast
  have "inj_on row_key (set a)" using ok(1) by (simp add: log_rows_ok_def distinct_map)
  then have "r0 = r" by (rule inj_onD) (use r0(1,2) r(1,2) r'(2) in simp_all)
  then have "row_request r' = (True, q)" using r0(3) r(3) by simp
  then show ?thesis using r' get_delivery_row[OF ok(2)] by blast
qed

lemma find_put_failure: "find_delivery inbox delivery (put_failure inbox delivery msg now rows) \<noteq> None"
proof (cases "find_delivery inbox delivery rows = None")
  case True
  then show ?thesis by (simp add: put_failure_def find_delivery_None first_failure_def)
next
  case False
  have "row_key (if for_delivery inbox delivery r then retried_row msg now r else r) = row_key r" for r
    by (simp add: retried_row_def)
  then have "row_key ` set (put_failure inbox delivery msg now rows) = row_key ` set rows"
    using False by (simp only: put_failure_def if_False set_map image_image)
  then show ?thesis using False unfolding find_delivery_None by simp
qed

text \<open>
  A delivery that was logged with the request \<open>e\<close> and is in the log: it was new when an attempt found
  \<open>e\<close> in its envelope (whatever became of the attempt), or it replays such a delivery under an id
  that was free; and any steps may have followed as long as its row was not cleaned up.
\<close>

inductive logged_with :: "world \<Rightarrow> string \<Rightarrow> inbox_envelope \<Rightarrow> string \<Rightarrow> webhooks \<Rightarrow> bool" for w inbox e where
  received: "webhook_run w wh \<Longrightarrow> find_delivery inbox delivery (wh_deliveries wh) = None \<Longrightarrow>
    logged_with w inbox e delivery (snd (poll_delivery w v inbox delivery (Inr e) ack now wh))"
| replayed: "logged_with w inbox e delivery wh \<Longrightarrow> find_delivery inbox (redelivery_id delivery now) (wh_deliveries wh) = None \<Longrightarrow>
    logged_with w inbox e (redelivery_id delivery now) (snd (redeliver w v inbox delivery now wh))"
| later: "logged_with w inbox e delivery wh \<Longrightarrow> find_delivery inbox delivery (wh_deliveries (webhook_step w wh now ev)) \<noteq> None \<Longrightarrow>
    logged_with w inbox e delivery (webhook_step w wh now ev)"

lemma logged_with_run: "logged_with w inbox e delivery wh \<Longrightarrow> webhook_run w wh"
proof (induction rule: logged_with.induct)
  case (received wh delivery v ack now)
  have "webhook_run w (webhook_step w wh now (Attempt v inbox delivery (Inr e) ack))" by (rule webhook_run.later[OF received(1)])
  then show ?case by simp
next
  case (replayed delivery wh now v)
  have "webhook_run w (webhook_step w wh now (Redelivery v inbox delivery))" by (rule webhook_run.later[OF replayed(3)])
  then show ?case by simp
qed (rule webhook_run.later)

lemma accepted_request: "get_delivery inbox delivery (rows @ [accepted_row inbox delivery q now]) = Some q"
  if "find_delivery inbox delivery rows = None"
proof -
  have "find (\<lambda>x. for_delivery inbox delivery x \<and> dl_item x \<noteq> []) rows = None"
    using that by (auto simp: find_delivery_def find_None_iff)
  then have "find (\<lambda>x. for_delivery inbox delivery x \<and> dl_item x \<noteq> []) (rows @ [accepted_row inbox delivery q now]) =
      Some (accepted_row inbox delivery q now)"
    by (rule find_append_None) (simp add: accepted_row_def)
  then show ?thesis by (simp add: get_delivery_def accepted_row_def)
qed

lemma replayed_request:
  assumes "go_map (en_header e)" "go_map (en_query e)"
  shows "replayed (logged_request e) now = Some (e\<lparr>en_received := unix_milli now\<rparr>)"
proof -
  have "trim_suffix (en_method e @ '' webhook'') '' webhook'' = en_method e" by (simp add: trim_suffix_def has_suffix_def)
  moreover have "stored_map (marshal_map m) = Some m" if "go_map m" for m
  proof -
    have "marshal_map m \<noteq> []" by (simp add: marshal_map_def)
    then show ?thesis using unmarshal_marshal[OF that] by (simp add: stored_map_def)
  qed
  ultimately show ?thesis using assms by (simp add: replayed_def logged_request_def)
qed

lemma logged_with_request:
  assumes maps: "go_map (en_header e)" "go_map (en_query e)" and "logged_with w inbox e delivery wh"
  shows "get_delivery inbox delivery (wh_deliveries wh) = Some (logged_request e)"
  using assms(3)
proof (induction rule: logged_with.induct)
  case (received wh delivery v ack now)
  have ok: "webhooks_ok wh" by (rule webhook_run_ok[OF received(1)])
  have al: "retry_allowed inbox delivery now (wh_deliveries wh)" using received(2) by (simp add: retry_allowed_def)
  obtain err wh1 where a: "attempt_delivery w v inbox delivery e now wh = (err, wh1)" by fastforce
  have ok1: "webhooks_ok wh1" and d: "wh_deliveries wh1 = wh_deliveries wh @ [accepted_row inbox delivery (logged_request e) now]"
    using attempt_spec(1,2)[OF ok a] accept_new[OF received(2)] by simp_all
  have g: "get_delivery inbox delivery (wh_deliveries wh1) = Some (logged_request e)" unfolding d by (rule accepted_request[OF received(2)])
  have ok': "webhooks_ok (snd (poll_delivery w v inbox delivery (Inr e) ack now wh))" by (rule poll_delivery_ok[OF ok])
  have p: "snd (poll_delivery w v inbox delivery (Inr e) ack now wh) = wh1 \<or>
      (\<exists>msg. snd (poll_delivery w v inbox delivery (Inr e) ack now wh) = record_delivery_error inbox delivery msg now wh1)"
    using al a by (auto simp: poll_delivery_def split: option.split)
  then show ?case
  proof
    assume "\<exists>msg. snd (poll_delivery w v inbox delivery (Inr e) ack now wh) = record_delivery_error inbox delivery msg now wh1"
    then obtain msg where m: "wh_deliveries (snd (poll_delivery w v inbox delivery (Inr e) ack now wh)) = put_failure inbox delivery msg now (wh_deliveries wh1)"
      by (auto simp: record_deliveries)
    show ?thesis
      using carried_request[OF _ _ put_failure_carried g find_put_failure] ok1 ok' unfolding m[symmetric] by (simp add: webhooks_ok_def m)
  qed (simp add: g)
next
  case (replayed delivery wh now v)
  have ok: "webhooks_ok wh" by (rule webhook_run_ok[OF logged_with_run[OF replayed(1)]])
  have r: "replayed (logged_request e) now = Some (e\<lparr>en_received := unix_milli now\<rparr>)" by (rule replayed_request[OF maps])
  show ?case
  proof (cases w v inbox delivery now wh rule: redeliver_cases)
    case (refused err)
    then show ?thesis using replayed(3) r by (simp add: redeliver_def Let_def split: prod.split_asm)
  next
    case (again q e' err wh2)
    have o: "service_ok (wh_service wh)" "dispatches_ok (wh_db wh)" using ok by (simp_all add: webhooks_ok_def)
    have "q = logged_request e" using again(1) replayed(3) by simp
    then have "wh_deliveries wh2 = wh_deliveries wh @ [accepted_row inbox (redelivery_id delivery now) (logged_request e) now]"
      using dispatch_spec(1)[OF _ _ again(3)] o accept_new[OF replayed(2)] by (simp add: dispatched_ok_def same_log_def)
    then show ?thesis using again(4) accepted_request[OF replayed(2)] by simp
  qed
next
  case (later delivery wh now ev)
  have ok: "webhooks_ok wh" by (rule webhook_run_ok[OF logged_with_run[OF later(1)]])
  show ?case
    by (rule carried_request[OF _ _ step_carried[OF ok] later(3,2)]) (use ok webhook_step_ok[OF ok] in \<open>simp_all add: webhooks_ok_def\<close>)
qed

text \<open>
  C40: Replaying any delivery that was logged with a request and is still in the log (received or itself
  a replay, whatever happened since) dispatches that very request under a new id at the time of the
  replay: its method, headers, query and body come back from the log, where headers and query are JSON
  texts. If the new id is free, the request is logged again under it.
\<close>

theorem redelivery_repeats_the_request:
  assumes "logged_with w inbox e delivery wh" "go_map (en_header e)" "go_map (en_query e)"
  shows "redelivery_id delivery now \<noteq> delivery \<and>
    redeliver w v inbox delivery now wh =
      map_prod Inr id (dispatch w v inbox (redelivery_id delivery now) (e\<lparr>en_received := unix_milli now\<rparr>) now
        (wh\<lparr>wh_deliveries := snd (accept_delivery inbox (redelivery_id delivery now) (logged_request e) now (wh_deliveries wh))\<rparr>)) \<and>
    (find_delivery inbox (redelivery_id delivery now) (wh_deliveries wh) = None \<longrightarrow>
       get_delivery inbox (redelivery_id delivery now) (wh_deliveries (snd (redeliver w v inbox delivery now wh))) = Some (logged_request e))"
proof -
  have q: "get_delivery inbox delivery (wh_deliveries wh) = Some (logged_request e)" by (rule logged_with_request[OF assms(2,3,1)])
  have r: "replayed (logged_request e) now = Some (e\<lparr>en_received := unix_milli now\<rparr>)" by (rule replayed_request[OF assms(2,3)])
  have "redelivery_id delivery now \<noteq> delivery" by (simp add: redelivery_id_def)
  moreover have "get_delivery inbox (redelivery_id delivery now) (wh_deliveries (snd (redeliver w v inbox delivery now wh))) = Some (logged_request e)"
    if "find_delivery inbox (redelivery_id delivery now) (wh_deliveries wh) = None"
    by (rule logged_with_request[OF assms(2,3) logged_with.replayed[OF assms(1) that]])
  ultimately show ?thesis using q r by (simp add: redeliver_def Let_def map_prod_def split_def)
qed

section \<open>Sample failures\<close>


definition sample_failures :: "nat \<Rightarrow> webhooks" where
  "sample_failures n = webhook_steps sample_world sample_subscribed
     (map (\<lambda>k. ((2 + int k) * minute, Attempt sample_webhook_view ''i'' ''d'' (Inl ''e'') None)) [0..<n])"

lemma sample_failures_run: "webhook_run sample_world (sample_failures n)"
  unfolding sample_failures_def by (rule webhook_run_steps[OF sample_subscribed_run])

lemma attempts_are_bounded_witness:
  "attempts_of ''i'' ''d'' (wh_deliveries (sample_failures 8)) = 8 \<and> length (notices (wh_db (sample_failures 8))) = 1 \<and>
   poll_delivery sample_world sample_webhook_view ''i'' ''d'' (Inr sample_envelope) None (99 * minute) (sample_failures 8) = (False, sample_failures 8)"
proof -
  have "attempts_of ''i'' ''d'' (wh_deliveries (sample_failures 8)) = 8" "length (notices (wh_db (sample_failures 8))) = 1" by code_simp+
  then show ?thesis using attempts_are_bounded[OF sample_failures_run, of "''i''" "''d''" 8] by blast
qed

lemma retries_never_slow_down_witness:
  "retry_allowed ''i'' ''d'' (8 * minute + 2000000000) (wh_deliveries (sample_failures 7))"
proof -
  have u: "[0..<7] = [0..<6] @ [6::nat]" by (simp add: upt_rec)
  have s: "sample_failures 7 = snd (poll_delivery sample_world sample_webhook_view ''i'' ''d'' (Inl ''e'') None (8 * minute) (sample_failures 6))"
    unfolding sample_failures_def webhook_steps_def u by simp
  have "\<not> fst (poll_delivery sample_world sample_webhook_view ''i'' ''d'' (Inl ''e'') None (8 * minute) (sample_failures 6))" by code_simp
  then have p: "poll_delivery sample_world sample_webhook_view ''i'' ''d'' (Inl ''e'') None (8 * minute) (sample_failures 6) = (False, sample_failures 7)"
    unfolding s by (simp add: prod_eq_iff)
  have n: "attempts_of ''i'' ''d'' (wh_deliveries (sample_failures 6)) = 6" "attempts_of ''i'' ''d'' (wh_deliveries (sample_failures 7)) = 7" by code_simp+
  then have "sample_failures 7 \<noteq> sample_failures 6" by auto
  then show ?thesis using retries_never_slow_down[OF sample_failures_run p] n by simp
qed

lemma retried_delivery_is_never_logged_witness:
  "\<exists>wh'. poll_delivery sample_world sample_webhook_view ''i'' ''d'' (Inr sample_envelope) None (9 * minute) (sample_failures 1) = (True, wh') \<and>
     redeliver sample_world sample_webhook_view ''i'' ''d'' (10 * minute) wh' = (Inl ''sql: no rows in result set'', wh')"
proof -
  let ?p = "poll_delivery sample_world sample_webhook_view ''i'' ''d'' (Inr sample_envelope) None (9 * minute) (sample_failures 1)"
  have "fst ?p" by code_simp
  then have p: "?p = (True, snd ?p)" by (simp add: prod_eq_iff)
  have "map_option dl_item (find_delivery ''i'' ''d'' (wh_deliveries (sample_failures 1))) = Some []" by code_simp
  then obtain r where "find_delivery ''i'' ''d'' (wh_deliveries (sample_failures 1)) = Some r" "dl_item r = []" by auto
  then show ?thesis using retried_delivery_is_never_logged[OF sample_failures_run _ _ p] p by blast
qed

text \<open>The delivery is received, logged and cleaned around, and then replayed.\<close>

lemma redelivery_repeats_the_request_witness:
  "\<exists>wh. wh = webhook_step sample_world sample_delivered (4 * minute) (Cleanup 5) \<and>
     redeliver sample_world sample_webhook_view ''i'' ''d'' 5000000 wh =
       map_prod Inr id (dispatch sample_world sample_webhook_view ''i'' ''d-redelivery-5'' (sample_envelope\<lparr>en_received := 5\<rparr>) 5000000
         (wh\<lparr>wh_deliveries := snd (accept_delivery ''i'' ''d-redelivery-5'' (logged_request sample_envelope) 5000000 (wh_deliveries wh))\<rparr>))"
proof -
  let ?wh = "webhook_step sample_world sample_delivered (4 * minute) (Cleanup 5)"
  have "map_option dl_id (find_delivery ''i'' ''d'' (wh_deliveries sample_subscribed)) = None" by code_simp
  then have n: "find_delivery ''i'' ''d'' (wh_deliveries sample_subscribed) = None" by simp
  have l: "logged_with sample_world ''i'' sample_envelope ''d'' sample_delivered"
    unfolding sample_delivered_def webhook_step.simps by (rule logged_with.received[OF sample_subscribed_run n])
  have "map_option dl_id (find_delivery ''i'' ''d'' (wh_deliveries ?wh)) = Some ''d''" by code_simp
  then have "find_delivery ''i'' ''d'' (wh_deliveries ?wh) \<noteq> None" by auto
  then have log: "logged_with sample_world ''i'' sample_envelope ''d'' ?wh" by (rule logged_with.later[OF l])
  have m: "go_map (en_header sample_envelope)" "go_map (en_query sample_envelope)" by (simp_all add: sample_envelope_def go_map_def)
  have i: "redelivery_id ''d'' 5000000 = ''d-redelivery-5''" "unix_milli 5000000 = 5" by code_simp+
  show ?thesis using redelivery_repeats_the_request[OF log m, of 5000000 sample_webhook_view] unfolding i by blast
qed

section \<open>Occurrences\<close>

text \<open>An occurrence is a positive number of 63 bits, so a run for it can always be claimed.\<close>

lemma webhook_occurrence_range: "1 \<le> webhook_occurrence inbox delivery \<and> webhook_occurrence inbox delivery < 2 ^ 63"
proof -
  define h where "h = fnv1a (inbox @ '':'' @ delivery)"
  have "uint (h AND 0x7FFFFFFFFFFFFFFF) = uint h AND 0x7FFFFFFFFFFFFFFF" by (simp add: uint_and)
  moreover have "uint h AND 0x7FFFFFFFFFFFFFFF \<le> 0x7FFFFFFFFFFFFFFF" by (rule AND_upper2) simp
  moreover have "0 \<le> uint (h AND 0x7FFFFFFFFFFFFFFF)" by simp
  ultimately show ?thesis unfolding webhook_occurrence_def h_def[symmetric] Let_def by (auto simp: le_less)
qed

end
