(* ===== verification/Plugin_Outbox.thy ===== *)
theory Plugin_Outbox
  imports Decimals
begin

text \<open>
  The outbox of replies a conversation plugin is owed (\<open>internal/state/plugin_conversation_outbox.go\<close>;
  \<open>internal/pluginsmod\<close>: outbox.go, outbox_pump.go). A completed reply is a row before it is posted;
  the pump claims the oldest undelivered row of every conversation, a delivery checks that its claim still
  holds, posts, and records the outcome. These steps run in goroutines of their own, so any order of
  them, of edits by an operator and of crashes is a run of the system. Times are the clock's
  milliseconds; the database is taken to work, except where a failed write is an argument.
\<close>

section \<open>The table\<close>

record conv_key =
  ck_plugin :: string
  ck_account :: string
  ck_thread :: string

datatype outbox_status = Ob_Pending | Ob_Dead | Ob_Done

record outbox_row =
  ob_id :: nat
  ob_key :: conv_key
  ob_operation :: string
  ob_text :: string
  ob_status :: outbox_status
  ob_attempts :: nat
  ob_next :: int
  ob_error :: string
  ob_created :: int
  ob_updated :: int

text \<open>The rows, and the largest id ever given (\<open>AUTOINCREMENT\<close>).\<close>

record outbox_db =
  ox_rows :: "outbox_row list"
  ox_last :: nat

datatype plugin_error = Plugin_Invalid | Plugin_Not_Found | Backlog_Full

definition valid_conv :: "conv_key \<Rightarrow> bool" where
  "valid_conv k \<longleftrightarrow> ck_plugin k \<noteq> [] \<and> ck_account k \<noteq> [] \<and> ck_thread k \<noteq> []"

abbreviation same_operation :: "string \<Rightarrow> string \<Rightarrow> outbox_row \<Rightarrow> bool" where
  "same_operation plugin operation r \<equiv> ck_plugin (ob_key r) = plugin \<and> ob_operation r = operation"

definition has_reply :: "conv_key \<Rightarrow> string \<Rightarrow> outbox_db \<Rightarrow> plugin_error + bool" where
  "has_reply k operation db =
     (if \<not> valid_conv k \<or> operation = [] then Inl Plugin_Invalid
      else Inr (\<exists>r \<in> set (ox_rows db). same_operation (ck_plugin k) operation r))"

definition append_reply :: "conv_key \<Rightarrow> string \<Rightarrow> string \<Rightarrow> int \<Rightarrow> outbox_db \<Rightarrow> plugin_error + (nat \<times> outbox_db)" where
  "append_reply k operation t now db =
     (if \<not> valid_conv k \<or> operation = [] \<or> t = [] then Inl Plugin_Invalid
      else if \<exists>r \<in> set (ox_rows db). same_operation (ck_plugin k) operation r then Inr (0, db)
      else let i = ox_last db + 1 in
        Inr (i, db\<lparr>ox_rows := ox_rows db @ [\<lparr>ob_id = i, ob_key = k, ob_operation = operation, ob_text = t, ob_status = Ob_Pending,
               ob_attempts = 0, ob_next = 0, ob_error = [], ob_created = now, ob_updated = now\<rparr>], ox_last := i\<rparr>))"

section \<open>Claims\<close>

record delivery =
  dv_id :: nat
  dv_key :: conv_key
  dv_text :: string
  dv_attempts :: nat

abbreviation undone :: "outbox_row \<Rightarrow> bool" where
  "undone r \<equiv> ob_status r = Ob_Pending \<or> ob_status r = Ob_Dead"

definition is_head :: "outbox_db \<Rightarrow> outbox_row \<Rightarrow> bool" where
  "is_head db r \<longleftrightarrow> (\<forall>h \<in> set (ox_rows db). ob_key h = ob_key r \<and> undone h \<longrightarrow> ob_id r \<le> ob_id h)"

definition due_head :: "outbox_db \<Rightarrow> int \<Rightarrow> outbox_row \<Rightarrow> bool" where
  "due_head db now r \<longleftrightarrow> ob_status r = Ob_Pending \<and> ob_next r \<le> now \<and> is_head db r"

definition delivery_of :: "outbox_row \<Rightarrow> delivery" where
  "delivery_of r = \<lparr>dv_id = ob_id r, dv_key = ob_key r, dv_text = ob_text r, dv_attempts = ob_attempts r\<rparr>"

definition claim_replies :: "nat \<Rightarrow> int \<Rightarrow> outbox_db \<Rightarrow> delivery list" where
  "claim_replies limit now db = map delivery_of (take limit (sort_key ob_id (filter (due_head db now) (ox_rows db))))"

definition reply_current :: "nat \<Rightarrow> nat \<Rightarrow> int \<Rightarrow> outbox_db \<Rightarrow> bool" where
  "reply_current i attempts now db \<longleftrightarrow>
     length (filter (\<lambda>r. ob_id r = i \<and> ob_status r = Ob_Pending \<and> ob_attempts r = attempts \<and> ob_next r \<le> now) (ox_rows db)) = 1"

section \<open>Outcomes\<close>

definition map_outbox :: "(outbox_row \<Rightarrow> bool) \<Rightarrow> (outbox_row \<Rightarrow> outbox_row) \<Rightarrow> outbox_db \<Rightarrow> outbox_db" where
  "map_outbox p f db = db\<lparr>ox_rows := map (\<lambda>r. if p r then f r else r) (ox_rows db)\<rparr>"

definition update_outbox :: "(outbox_row \<Rightarrow> bool) \<Rightarrow> (outbox_row \<Rightarrow> outbox_row) \<Rightarrow> outbox_db \<Rightarrow> plugin_error + outbox_db" where
  "update_outbox p f db = (if \<exists>r \<in> set (ox_rows db). p r then Inr (map_outbox p f db) else Inl Plugin_Not_Found)"

abbreviation pending_row :: "nat \<Rightarrow> outbox_row \<Rightarrow> bool" where
  "pending_row i r \<equiv> ob_id r = i \<and> ob_status r = Ob_Pending"

abbreviation dead_row :: "string \<Rightarrow> nat \<Rightarrow> outbox_row \<Rightarrow> bool" where
  "dead_row plugin i r \<equiv> ob_id r = i \<and> ck_plugin (ob_key r) = plugin \<and> ob_status r = Ob_Dead"

definition ack_reply :: "nat \<Rightarrow> int \<Rightarrow> outbox_db \<Rightarrow> plugin_error + outbox_db" where
  "ack_reply i now = update_outbox (pending_row i) (\<lambda>r. r\<lparr>ob_status := Ob_Done, ob_error := [], ob_updated := now\<rparr>)"

definition failed_reply :: "string \<Rightarrow> int \<Rightarrow> nat \<Rightarrow> int \<Rightarrow> outbox_row \<Rightarrow> outbox_row" where
  "failed_reply reason retry_in limit now r =
     r\<lparr>ob_attempts := ob_attempts r + 1, ob_status := (if ob_attempts r + 1 \<ge> limit then Ob_Dead else Ob_Pending),
       ob_next := now + retry_in, ob_error := take 256 reason, ob_updated := now\<rparr>"

text \<open>The answer says whether the reply became a dead letter.\<close>

definition fail_reply :: "nat \<Rightarrow> string \<Rightarrow> int \<Rightarrow> nat \<Rightarrow> int \<Rightarrow> outbox_db \<Rightarrow> bool \<times> outbox_db" where
  "fail_reply i reason retry_in limit now db =
     (if \<not> (\<exists>r \<in> set (ox_rows db). pending_row i r) then (False, db)
      else let db' = map_outbox (pending_row i) (failed_reply reason retry_in limit now) db
        in (\<exists>r \<in> set (ox_rows db'). ob_id r = i \<and> ob_status r = Ob_Dead, db'))"

definition retry_reply :: "string \<Rightarrow> nat \<Rightarrow> int \<Rightarrow> outbox_db \<Rightarrow> plugin_error + outbox_db" where
  "retry_reply plugin i now =
     update_outbox (dead_row plugin i) (\<lambda>r. r\<lparr>ob_status := Ob_Pending, ob_attempts := 0, ob_next := 0, ob_updated := now\<rparr>)"

definition discard_reply :: "string \<Rightarrow> nat \<Rightarrow> int \<Rightarrow> outbox_db \<Rightarrow> plugin_error + outbox_db" where
  "discard_reply plugin i now =
     update_outbox (dead_row plugin i) (\<lambda>r. r\<lparr>ob_status := Ob_Done, ob_error := ''discarded'', ob_updated := now\<rparr>)"

section \<open>The backlog\<close>

definition max_outbox_rows :: nat where "max_outbox_rows = 500"
definition max_outbox_bytes :: nat where "max_outbox_bytes = 8 * 2 ^ 20"

record dead_letter =
  dd_id :: nat
  dd_thread :: string
  dd_account :: string
  dd_attempts :: nat
  dd_error :: string
  dd_updated :: int
  dd_bytes :: nat

record backlog =
  bl_pending :: nat
  bl_dead :: nat
  bl_bytes :: nat
  bl_retrying :: nat
  bl_paused :: bool
  bl_oldest :: int
  bl_letters :: "dead_letter list"

abbreviation owed :: "string \<Rightarrow> outbox_db \<Rightarrow> outbox_row list" where
  "owed plugin db \<equiv> filter (\<lambda>r. ck_plugin (ob_key r) = plugin \<and> undone r) (ox_rows db)"

abbreviation count_rows :: "('a \<Rightarrow> bool) \<Rightarrow> 'a list \<Rightarrow> nat" where
  "count_rows p rows \<equiv> length (filter p rows)"

definition dead_letter_of :: "outbox_row \<Rightarrow> dead_letter" where
  "dead_letter_of r =
     \<lparr>dd_id = ob_id r, dd_thread = ck_thread (ob_key r), dd_account = ck_account (ob_key r), dd_attempts = ob_attempts r,
      dd_error = ob_error r, dd_updated = ob_updated r, dd_bytes = length (ob_text r)\<rparr>"

definition backlog_status :: "string \<Rightarrow> int \<Rightarrow> outbox_db \<Rightarrow> plugin_error + backlog" where
  "backlog_status plugin now db =
     (if plugin = [] then Inl Plugin_Invalid
      else let rows = owed plugin db;
             pending = count_rows (\<lambda>r. ob_status r = Ob_Pending) rows; dead = count_rows (\<lambda>r. ob_status r = Ob_Dead) rows;
             bytes = sum_list (map (length \<circ> ob_text) rows)
        in Inr \<lparr>bl_pending = pending, bl_dead = dead, bl_bytes = bytes,
                bl_retrying = count_rows (\<lambda>r. ob_status r = Ob_Pending \<and> now < ob_next r) rows,
                bl_paused = (max_outbox_rows \<le> pending + dead \<or> max_outbox_bytes \<le> bytes),
                bl_oldest = (if rows = [] then 0 else Min (set (map ob_created rows))),
                bl_letters = map dead_letter_of (take 50 (sort_key ob_id (filter (\<lambda>r. ob_status r = Ob_Dead) rows)))\<rparr>)"

definition backlog_full :: "string \<Rightarrow> outbox_db \<Rightarrow> plugin_error option" where
  "backlog_full plugin db =
     (let rows = owed plugin db in
      if max_outbox_rows \<le> length rows \<or> max_outbox_bytes \<le> sum_list (map (length \<circ> ob_text) rows) then Some Backlog_Full else None)"

section \<open>Receipts\<close>

definition done_retention :: int where "done_retention = 24 * 60 * 60 * 1000"

text \<open>The segment of an operation after its last colon.\<close>

definition turn_of :: "string \<Rightarrow> string" where
  "turn_of operation = rev (takeWhile (\<lambda>c. c \<noteq> CHR '':'') (rev operation))"

definition superseded_reply :: "outbox_db \<Rightarrow> outbox_row \<Rightarrow> bool" where
  "superseded_reply db r \<longleftrightarrow>
     (\<exists>n \<in> set (ox_rows db). ob_key n = ob_key r \<and> ob_id r < ob_id n \<and> turn_of (ob_operation n) \<noteq> turn_of (ob_operation r))"

definition prune_outbox :: "int \<Rightarrow> outbox_db \<Rightarrow> outbox_db" where
  "prune_outbox now db =
     db\<lparr>ox_rows := filter (\<lambda>r. \<not> (ob_status r = Ob_Done \<and> ob_updated r < now - done_retention \<and> superseded_reply db r)) (ox_rows db)\<rparr>"

section \<open>The pump\<close>

definition delivery_batch :: nat where "delivery_batch = 32"
definition outbox_max_attempts :: nat where "outbox_max_attempts = 6"
definition retry_base :: int where "retry_base = 5000"
definition retry_max :: int where "retry_max = 5 * 60 * 1000"

fun retry_loop :: "nat \<Rightarrow> int \<Rightarrow> int" where
  "retry_loop 0 delay = delay"
| "retry_loop (Suc n) delay = (if delay \<ge> retry_max div 2 then retry_max else retry_loop n (delay * 2))"

definition outbox_retry_delay :: "nat \<Rightarrow> int" where
  "outbox_retry_delay attempts = retry_loop attempts retry_base"

text \<open>The worker's deliveries: queued, checked against the row, or answered by the plugin
  (\<open>None\<close> is a post that worked).\<close>

datatype delivery_stage = Dv_Queued | Dv_Checked | Dv_Answered "string option"

record out_flight =
  of_delivery :: delivery
  of_stage :: delivery_stage

text \<open>The table, the ids in flight, the rows claimed by a pump that has not come to them, the
  deliveries of the worker, and every post handed to a plugin: its id, conversation, operation and text.\<close>

record post =
  pt_id :: nat
  pt_key :: conv_key
  pt_operation :: string
  pt_text :: string

record outbox =
  om_db :: outbox_db
  om_in_flight :: "nat list"
  om_claimed :: "delivery list"
  om_flights :: "out_flight list"
  om_posts :: "post list"

definition begin_delivery :: "nat \<Rightarrow> outbox \<Rightarrow> bool \<times> outbox" where
  "begin_delivery i s = (if i \<in> set (om_in_flight s) then (False, s) else (True, s\<lparr>om_in_flight := i # om_in_flight s\<rparr>))"

definition end_delivery :: "nat \<Rightarrow> outbox \<Rightarrow> outbox" where
  "end_delivery i s =
     s\<lparr>om_in_flight := filter (\<lambda>j. j \<noteq> i) (om_in_flight s), om_flights := filter (\<lambda>f. dv_id (of_delivery f) \<noteq> i) (om_flights s)\<rparr>"

definition admit :: "(string \<Rightarrow> bool) \<Rightarrow> outbox \<Rightarrow> delivery \<Rightarrow> outbox" where
  "admit allowed s d =
     (if \<not> allowed (ck_plugin (dv_key d)) then s
      else case begin_delivery (dv_id d) s of
        (False, s') \<Rightarrow> s'
      | (True, s') \<Rightarrow> s'\<lparr>om_flights := om_flights s' @ [\<lparr>of_delivery = d, of_stage = Dv_Queued\<rparr>]\<rparr>)"

text \<open>A pump that nothing interrupts.\<close>

definition pump :: "(string \<Rightarrow> bool) \<Rightarrow> int \<Rightarrow> outbox \<Rightarrow> outbox" where
  "pump allowed now s = foldl (admit allowed) s (claim_replies delivery_batch now (om_db s))"

section \<open>A delivery\<close>

definition outbox_operation :: "nat \<Rightarrow> string" where
  "outbox_operation i = ''conv-out:'' @ decimal i"

abbreviation out_id :: "out_flight \<Rightarrow> nat" where
  "out_id f \<equiv> dv_id (of_delivery f)"

definition set_stage :: "nat \<Rightarrow> delivery_stage \<Rightarrow> outbox \<Rightarrow> outbox" where
  "set_stage i st s = s\<lparr>om_flights := map (\<lambda>f. if out_id f = i then f\<lparr>of_stage := st\<rparr> else f) (om_flights s)\<rparr>"

text \<open>\<open>deliverConversationReply\<close>: the claim is checked, the reply posted, and the outcome recorded. A
  failed write leaves the row as it was; either way the delivery leaves the in-flight set.\<close>

definition check_step :: "delivery \<Rightarrow> int \<Rightarrow> outbox \<Rightarrow> outbox" where
  "check_step d now s =
     (if reply_current (dv_id d) (dv_attempts d) now (om_db s) then set_stage (dv_id d) Dv_Checked s else end_delivery (dv_id d) s)"

definition post_step :: "delivery \<Rightarrow> string option \<Rightarrow> outbox \<Rightarrow> outbox" where
  "post_step d answer s =
     set_stage (dv_id d) (Dv_Answered answer)
       (s\<lparr>om_posts := om_posts s @ [\<lparr>pt_id = dv_id d, pt_key = dv_key d, pt_operation = outbox_operation (dv_id d), pt_text = dv_text d\<rparr>]\<rparr>)"

definition settle_step :: "delivery \<Rightarrow> string option \<Rightarrow> bool \<Rightarrow> int \<Rightarrow> outbox \<Rightarrow> outbox" where
  "settle_step d answer written now s =
     end_delivery (dv_id d)
       (if \<not> written then s
        else case answer of
          None \<Rightarrow> (case ack_reply (dv_id d) now (om_db s) of Inl e \<Rightarrow> s | Inr db \<Rightarrow> s\<lparr>om_db := db\<rparr>)
        | Some reason \<Rightarrow>
            s\<lparr>om_db := snd (fail_reply (dv_id d) reason (outbox_retry_delay (dv_attempts d)) outbox_max_attempts now (om_db s))\<rparr>)"

section \<open>The controls\<close>

datatype backlog_action = Act_Show | Act_Retry | Act_Discard | Act_Other

definition manage_backlog :: "string \<Rightarrow> backlog_action \<Rightarrow> nat \<Rightarrow> int \<Rightarrow> outbox_db \<Rightarrow> (plugin_error + backlog) \<times> outbox_db" where
  "manage_backlog plugin action i now db =
     (case action of
        Act_Show \<Rightarrow> (backlog_status plugin now db, db)
      | Act_Retry \<Rightarrow>
          if i = 0 then (Inl Plugin_Invalid, db)
          else (case retry_reply plugin i now db of Inl e \<Rightarrow> (Inl e, db) | Inr db' \<Rightarrow> (backlog_status plugin now db', db'))
      | Act_Discard \<Rightarrow>
          if i = 0 then (Inl Plugin_Invalid, db)
          else (case discard_reply plugin i now db of Inl e \<Rightarrow> (Inl e, db) | Inr db' \<Rightarrow> (backlog_status plugin now db', db'))
      | Act_Other \<Rightarrow> (Inl Plugin_Invalid, db))"

section \<open>Runs\<close>

datatype outbox_event =
    Ob_Append conv_key string string
  | Ob_Claim nat
  | Ob_Admit "string \<Rightarrow> bool" delivery
  | Ob_Check nat
  | Ob_Post nat "string option"
  | Ob_Settle nat bool
  | Ob_Manage string backlog_action nat
  | Ob_Prune
  | Ob_Crash

definition on_flight :: "nat \<Rightarrow> (out_flight \<Rightarrow> outbox) \<Rightarrow> outbox \<Rightarrow> outbox" where
  "on_flight i f s = (case find (\<lambda>g. out_id g = i) (om_flights s) of None \<Rightarrow> s | Some g \<Rightarrow> f g)"

fun outbox_step :: "outbox \<Rightarrow> int \<Rightarrow> outbox_event \<Rightarrow> outbox" where
  "outbox_step s now (Ob_Append k operation t) =
     (case append_reply k operation t now (om_db s) of Inl e \<Rightarrow> s | Inr (i, db) \<Rightarrow> s\<lparr>om_db := db\<rparr>)"
| "outbox_step s now (Ob_Claim limit) = s\<lparr>om_claimed := om_claimed s @ claim_replies limit now (om_db s)\<rparr>"
| "outbox_step s now (Ob_Admit allowed d) =
     (if d \<in> set (om_claimed s) then admit allowed (s\<lparr>om_claimed := remove1 d (om_claimed s)\<rparr>) d else s)"
| "outbox_step s now (Ob_Check i) = on_flight i (\<lambda>f. if of_stage f = Dv_Queued then check_step (of_delivery f) now s else s) s"
| "outbox_step s now (Ob_Post i answer) = on_flight i (\<lambda>f. if of_stage f = Dv_Checked then post_step (of_delivery f) answer s else s) s"
| "outbox_step s now (Ob_Settle i written) =
     on_flight i (\<lambda>f. case of_stage f of Dv_Answered answer \<Rightarrow> settle_step (of_delivery f) answer written now s | _ \<Rightarrow> s) s"
| "outbox_step s now (Ob_Manage plugin action i) = s\<lparr>om_db := snd (manage_backlog plugin action i now (om_db s))\<rparr>"
| "outbox_step s now Ob_Prune = s\<lparr>om_db := prune_outbox now (om_db s)\<rparr>"
| "outbox_step s now Ob_Crash = s\<lparr>om_in_flight := [], om_claimed := [], om_flights := []\<rparr>"

definition empty_outbox :: outbox where
  "empty_outbox = \<lparr>om_db = \<lparr>ox_rows = [], ox_last = 0\<rparr>, om_in_flight = [], om_claimed = [], om_flights = [], om_posts = []\<rparr>"

inductive outbox_run :: "outbox \<Rightarrow> bool" where
  empty: "outbox_run empty_outbox"
| step: "outbox_run s \<Longrightarrow> outbox_run (outbox_step s now ev)"

end
