(* ===== verification/Outbox_Promises.thy ===== *)
theory Outbox_Promises
  imports Plugin_Outbox
begin

text \<open>
  What the reply outbox keeps over every interleaving of appends, pumps, deliveries, controls, prunes
  and crashes: replies of a conversation are posted in their order, only owed replies are posted, a
  reply is tried at most six times between two decisions of the operator, the newest receipt of a
  conversation stays; and how a paused plugin can starve the others.
\<close>

section \<open>The table evolves\<close>

definition outbox_rows_ok :: "outbox_db \<Rightarrow> bool" where
  "outbox_rows_ok db \<longleftrightarrow>
     distinct (map ob_id (ox_rows db)) \<and> distinct (map (\<lambda>r. (ck_plugin (ob_key r), ob_operation r)) (ox_rows db)) \<and>
     (\<forall>r \<in> set (ox_rows db). ob_id r \<le> ox_last db \<and> ob_attempts r \<le> outbox_max_attempts \<and>
        (ob_status r = Ob_Pending \<longrightarrow> ob_attempts r < outbox_max_attempts) \<and>
        (ob_status r = Ob_Dead \<longrightarrow> ob_attempts r = outbox_max_attempts))"

definition later_row :: "outbox_row \<Rightarrow> outbox_row \<Rightarrow> bool" where
  "later_row r r' \<longleftrightarrow> ob_id r' = ob_id r \<and> ob_key r' = ob_key r \<and> ob_operation r' = ob_operation r \<and> ob_text r' = ob_text r \<and>
     (ob_status r = Ob_Done \<longrightarrow> r' = r)"

definition later_outbox :: "outbox_db \<Rightarrow> outbox_db \<Rightarrow> bool" where
  "later_outbox db db' \<longleftrightarrow> ox_last db \<le> ox_last db' \<and>
     (\<forall>r' \<in> set (ox_rows db'). ox_last db < ob_id r' \<or> (\<exists>r \<in> set (ox_rows db). later_row r r'))"

lemma later_row_refl [simp]: "later_row r r"
  by (simp add: later_row_def)

lemma later_refl [simp]: "later_outbox db db"
  unfolding later_outbox_def using later_row_refl by blast

lemma later_undone: "later_row r r' \<Longrightarrow> undone r' \<Longrightarrow> undone r"
  unfolding later_row_def by (cases "ob_status r") auto

text \<open>What holds of a row once it was the head of its conversation.\<close>

definition was_head :: "outbox_db \<Rightarrow> nat \<Rightarrow> conv_key \<Rightarrow> string \<Rightarrow> bool" where
  "was_head db i k t \<longleftrightarrow> i \<le> ox_last db \<and>
     (\<forall>h \<in> set (ox_rows db). ob_key h = k \<and> undone h \<longrightarrow> i \<le> ob_id h) \<and>
     (\<forall>r \<in> set (ox_rows db). ob_id r = i \<longrightarrow> ob_key r = k \<and> ob_text r = t)"

lemma was_head_later:
  assumes l: "later_outbox db db'" and h: "was_head db i k t"
  shows "was_head db' i k t"
proof -
  have last: "i \<le> ox_last db" "ox_last db \<le> ox_last db'" using l h by (auto simp: later_outbox_def was_head_def)
  have "i \<le> ob_id r'" if r: "r' \<in> set (ox_rows db')" "ob_key r' = k" "undone r'" for r'
  proof (cases "ox_last db < ob_id r'")
    case False
    then obtain r where "r \<in> set (ox_rows db)" "later_row r r'" using l r(1) by (auto simp: later_outbox_def)
    then show ?thesis using h r later_undone[of r r'] by (auto simp: was_head_def later_row_def)
  qed (use last in simp)
  moreover have "ob_key r' = k \<and> ob_text r' = t" if r: "r' \<in> set (ox_rows db')" "ob_id r' = i" for r'
  proof -
    have "\<not> ox_last db < ob_id r'" using last r by simp
    then obtain r where "r \<in> set (ox_rows db)" "later_row r r'" using l r(1) by (auto simp: later_outbox_def)
    then show ?thesis using h r(2) by (auto simp: was_head_def later_row_def)
  qed
  ultimately show ?thesis using last unfolding was_head_def by auto
qed

text \<open>A change of the table that leaves every pending row but those of \<open>X\<close>.\<close>

definition good_outbox :: "nat set \<Rightarrow> outbox_db \<Rightarrow> outbox_db \<Rightarrow> bool" where
  "good_outbox X db db' \<longleftrightarrow> outbox_rows_ok db' \<and> later_outbox db db' \<and>
     (\<forall>r \<in> set (ox_rows db). ob_status r = Ob_Pending \<and> ob_id r \<notin> X \<longrightarrow> r \<in> set (ox_rows db'))"

lemma good_refl: "outbox_rows_ok db \<Longrightarrow> good_outbox X db db"
  by (simp add: good_outbox_def)

lemma same_id_row: "outbox_rows_ok db \<Longrightarrow> a \<in> set (ox_rows db) \<Longrightarrow> b \<in> set (ox_rows db) \<Longrightarrow> ob_id a = ob_id b \<Longrightarrow> a = b"
  by (auto simp: outbox_rows_ok_def distinct_map dest: inj_onD)

lemma good_append: "outbox_rows_ok db \<Longrightarrow> append_reply k operation t now db = Inr (i, db') \<Longrightarrow> good_outbox {} db db'"
proof -
  assume ok: "outbox_rows_ok db" and a: "append_reply k operation t now db = Inr (i, db')"
  show ?thesis
  proof (cases "\<exists>r \<in> set (ox_rows db). same_operation (ck_plugin k) operation r")
    case True
    then have "db' = db" using a by (simp add: append_reply_def split: if_split_asm)
    then show ?thesis using good_refl[OF ok] by simp
  next
    case False
    let ?new = "\<lparr>ob_id = ox_last db + 1, ob_key = k, ob_operation = operation, ob_text = t, ob_status = Ob_Pending,
               ob_attempts = 0, ob_next = 0, ob_error = [], ob_created = now, ob_updated = now\<rparr>"
    have db': "db' = db\<lparr>ox_rows := ox_rows db @ [?new], ox_last := ox_last db + 1\<rparr>"
      using a False by (auto simp: append_reply_def Let_def split: if_split_asm)
    have fresh: "ox_last db + 1 \<notin> ob_id ` set (ox_rows db)" using ok by (fastforce simp: outbox_rows_ok_def)
    have "(ck_plugin k, operation) \<notin> (\<lambda>r. (ck_plugin (ob_key r), ob_operation r)) ` set (ox_rows db)" using False by auto
    then have "outbox_rows_ok db'" using ok fresh unfolding db' outbox_rows_ok_def by (auto simp: outbox_max_attempts_def)
    moreover have "later_outbox db db'" unfolding later_outbox_def db' by simp (use later_row_refl in blast)
    moreover have "\<forall>r \<in> set (ox_rows db). r \<in> set (ox_rows db')" by (simp add: db')
    ultimately show ?thesis unfolding good_outbox_def by blast
  qed
qed

lemma good_map:
  assumes ok: "outbox_rows_ok db"
    and f: "\<And>r. p r \<Longrightarrow> r \<in> set (ox_rows db) \<Longrightarrow> ob_id (f r) = ob_id r \<and> ob_key (f r) = ob_key r \<and> ob_operation (f r) = ob_operation r \<and>
       ob_text (f r) = ob_text r \<and> undone r \<and> ob_attempts (f r) \<le> outbox_max_attempts \<and>
       (ob_status (f r) = Ob_Pending \<longrightarrow> ob_attempts (f r) < outbox_max_attempts) \<and>
       (ob_status (f r) = Ob_Dead \<longrightarrow> ob_attempts (f r) = outbox_max_attempts) \<and> (ob_status r = Ob_Pending \<longrightarrow> ob_id r \<in> X)"
  shows "good_outbox X db (map_outbox p f db)"
proof -
  define g where "g = (\<lambda>r. if p r then f r else r)"
  have rows: "ox_rows (map_outbox p f db) = map g (ox_rows db)" "ox_last (map_outbox p f db) = ox_last db"
    by (simp_all add: map_outbox_def g_def)
  have g: "ob_id (g r) = ob_id r" "ob_key (g r) = ob_key r" "ob_operation (g r) = ob_operation r" "later_row r (g r)"
    "ob_attempts (g r) \<le> outbox_max_attempts \<and> (ob_status (g r) = Ob_Pending \<longrightarrow> ob_attempts (g r) < outbox_max_attempts) \<and>
     (ob_status (g r) = Ob_Dead \<longrightarrow> ob_attempts (g r) = outbox_max_attempts)" "ob_id r \<le> ox_last db"
    "ob_status r = Ob_Pending \<and> ob_id r \<notin> X \<longrightarrow> g r = r" if r: "r \<in> set (ox_rows db)" for r
    using f[OF _ r] ok r by (auto simp: g_def later_row_def outbox_rows_ok_def)
  have m: "map ob_id (map g (ox_rows db)) = map ob_id (ox_rows db)"
    "map (\<lambda>r. (ck_plugin (ob_key r), ob_operation r)) (map g (ox_rows db)) = map (\<lambda>r. (ck_plugin (ob_key r), ob_operation r)) (ox_rows db)"
    using g(1-3) by auto
  have "outbox_rows_ok (map_outbox p f db)" using ok g(1,5,6) unfolding outbox_rows_ok_def rows m by auto
  moreover have "later_outbox db (map_outbox p f db)" using g(4) unfolding later_outbox_def rows by auto
  moreover have "r \<in> set (map g (ox_rows db))" if "r \<in> set (ox_rows db)" "ob_status r = Ob_Pending" "ob_id r \<notin> X" for r
    using g(7)[OF that(1)] that by (metis image_eqI set_map)
  ultimately show ?thesis unfolding good_outbox_def rows by blast
qed

lemma updated: "update_outbox p f db = Inr db' \<Longrightarrow> db' = map_outbox p f db"
  by (simp add: update_outbox_def split: if_split_asm)

lemma row_attempts: "outbox_rows_ok db \<Longrightarrow> r \<in> set (ox_rows db) \<Longrightarrow> ob_attempts r \<le> outbox_max_attempts"
  by (simp add: outbox_rows_ok_def)

lemma good_ack: "outbox_rows_ok db \<Longrightarrow> ack_reply i now db = Inr db' \<Longrightarrow> good_outbox {i} db db'"
  unfolding ack_reply_def by (drule updated, erule ssubst, rule good_map) (auto simp: row_attempts)

lemma good_fail: "outbox_rows_ok db \<Longrightarrow> good_outbox {i} db (snd (fail_reply i reason retry_in outbox_max_attempts now db))"
proof -
  assume ok: "outbox_rows_ok db"
  have "good_outbox {i} db (map_outbox (pending_row i) (failed_reply reason retry_in outbox_max_attempts now) db)"
    by (rule good_map[OF ok]) (use ok in \<open>auto simp: failed_reply_def outbox_rows_ok_def\<close>)
  then show ?thesis using good_refl[OF ok] by (simp add: fail_reply_def Let_def)
qed

lemma good_retry: "outbox_rows_ok db \<Longrightarrow> retry_reply plugin i now db = Inr db' \<Longrightarrow> good_outbox {} db db'"
  unfolding retry_reply_def by (drule updated, erule ssubst, rule good_map) (auto simp: outbox_max_attempts_def)

lemma good_discard: "outbox_rows_ok db \<Longrightarrow> discard_reply plugin i now db = Inr db' \<Longrightarrow> good_outbox {} db db'"
  unfolding discard_reply_def by (drule updated, erule ssubst, rule good_map) (auto simp: row_attempts)

lemma good_manage: "outbox_rows_ok db \<Longrightarrow> good_outbox {} db (snd (manage_backlog plugin action i now db))"
  using good_refl good_retry good_discard by (cases action) (auto simp: manage_backlog_def split: sum.split)

lemma good_prune: "outbox_rows_ok db \<Longrightarrow> good_outbox {} db (prune_outbox now db)"
  unfolding good_outbox_def later_outbox_def
  by (auto simp: prune_outbox_def outbox_rows_ok_def distinct_map_filter intro: later_row_refl)

section \<open>The invariant\<close>

definition out_flight_ok :: "outbox_db \<Rightarrow> out_flight \<Rightarrow> bool" where
  "out_flight_ok db f \<longleftrightarrow> was_head db (out_id f) (dv_key (of_delivery f)) (dv_text (of_delivery f)) \<and>
     (of_stage f \<noteq> Dv_Queued \<longrightarrow> (\<exists>r \<in> set (ox_rows db). pending_row (out_id f) r \<and> ob_attempts r = dv_attempts (of_delivery f)))"

definition posts_ok :: "outbox_db \<Rightarrow> post list \<Rightarrow> bool" where
  "posts_ok db posts \<longleftrightarrow> (\<forall>p \<in> set posts. was_head db (pt_id p) (pt_key p) (pt_text p)) \<and>
     (\<forall>k. sorted (map pt_id (filter (\<lambda>p. pt_key p = k) posts)))"

definition outbox_ok :: "outbox \<Rightarrow> bool" where
  "outbox_ok s \<longleftrightarrow> outbox_rows_ok (om_db s) \<and> distinct (map out_id (om_flights s)) \<and> out_id ` set (om_flights s) \<subseteq> set (om_in_flight s) \<and>
     (\<forall>d \<in> set (om_claimed s). was_head (om_db s) (dv_id d) (dv_key d) (dv_text d)) \<and>
     (\<forall>f \<in> set (om_flights s). out_flight_ok (om_db s) f) \<and> posts_ok (om_db s) (om_posts s)"

lemma posts_later: "later_outbox db db' \<Longrightarrow> posts_ok db posts \<Longrightarrow> posts_ok db' posts"
  unfolding posts_ok_def using was_head_later by blast

text \<open>A change of the table beside the deliveries.\<close>

lemma outbox_db_ok:
  assumes ok: "outbox_ok s" and g: "good_outbox X (om_db s) db'" and x: "\<And>f. f \<in> set (om_flights s) \<Longrightarrow> out_id f \<in> X \<Longrightarrow> of_stage f = Dv_Queued"
  shows "outbox_ok (s\<lparr>om_db := db'\<rparr>)"
proof -
  have l: "later_outbox (om_db s) db'" "outbox_rows_ok db'" using g by (simp_all add: good_outbox_def)
  have "out_flight_ok db' f" if f: "f \<in> set (om_flights s)" for f
  proof -
    have o: "out_flight_ok (om_db s) f" using ok f by (simp add: outbox_ok_def)
    have "\<exists>r \<in> set (ox_rows db'). pending_row (out_id f) r \<and> ob_attempts r = dv_attempts (of_delivery f)" if st: "of_stage f \<noteq> Dv_Queued"
    proof -
      obtain r where r: "r \<in> set (ox_rows (om_db s))" "pending_row (out_id f) r" "ob_attempts r = dv_attempts (of_delivery f)"
        using o st by (auto simp: out_flight_ok_def)
      have "out_id f \<notin> X" using x[OF f] st by blast
      then have "r \<in> set (ox_rows db')" using g r(1,2) by (auto simp: good_outbox_def)
      then show ?thesis using r by blast
    qed
    then show ?thesis using o was_head_later[OF l(1)] by (simp add: out_flight_ok_def)
  qed
  then show ?thesis using ok l was_head_later[OF l(1)] posts_later[OF l(1)] by (simp add: outbox_ok_def)
qed

lemma end_ok: "outbox_ok s \<Longrightarrow> outbox_ok (end_delivery i s)"
  by (auto simp: outbox_ok_def end_delivery_def distinct_map_filter)

lemma claim_was_head:
  assumes "outbox_rows_ok db" "d \<in> set (claim_replies limit now db)"
  shows "was_head db (dv_id d) (dv_key d) (dv_text d)"
proof -
  obtain r where r: "r \<in> set (ox_rows db)" "due_head db now r" "d = delivery_of r"
    using assms(2) by (auto simp: claim_replies_def dest!: in_set_takeD)
  then show ?thesis using assms(1) same_id_row[OF assms(1) _ r(1)]
    by (auto simp: was_head_def due_head_def is_head_def delivery_of_def outbox_rows_ok_def)
qed

lemma admit_ok:
  assumes ok: "outbox_ok s" and h: "was_head (om_db s) (dv_id d) (dv_key d) (dv_text d)"
  shows "outbox_ok (admit allowed s d)"
  using ok h by (auto simp: admit_def begin_delivery_def outbox_ok_def out_flight_ok_def)

lemma set_stage_ok:
  assumes ok: "outbox_ok s" and f: "f \<in> set (om_flights s)"
    and r: "\<exists>r \<in> set (ox_rows (om_db s)). pending_row (out_id f) r \<and> ob_attempts r = dv_attempts (of_delivery f)"
  shows "outbox_ok (set_stage (out_id f) st s)"
proof -
  let ?g = "\<lambda>g. if out_id g = out_id f then g\<lparr>of_stage := st\<rparr> else g"
  have "out_flight_ok (om_db s) (?g g)" if g: "g \<in> set (om_flights s)" for g
  proof (cases "out_id g = out_id f")
    case True
    then have "g = f" using ok f g by (auto simp: outbox_ok_def distinct_map dest: inj_onD)
    then show ?thesis using ok f r by (auto simp: outbox_ok_def out_flight_ok_def)
  next
    case False
    then show ?thesis using ok g by (simp add: outbox_ok_def)
  qed
  then have a: "\<forall>h \<in> set (map ?g (om_flights s)). out_flight_ok (om_db s) h" unfolding set_map by blast
  have m: "map out_id (map ?g (om_flights s)) = map out_id (om_flights s)" by simp
  then have i: "out_id ` set (map ?g (om_flights s)) = out_id ` set (om_flights s)" by (metis set_map)
  define fs where "fs = map ?g (om_flights s)"
  have "set_stage (out_id f) st s = s\<lparr>om_flights := fs\<rparr>" by (simp add: set_stage_def fs_def)
  moreover have "\<forall>h \<in> set fs. out_flight_ok (om_db s) h" "map out_id fs = map out_id (om_flights s)" "out_id ` set fs = out_id ` set (om_flights s)"
    unfolding fs_def by (fact a m i)+
  ultimately show ?thesis using ok unfolding outbox_ok_def by simp
qed

lemma current_row:
  "reply_current i attempts now db \<Longrightarrow> \<exists>r \<in> set (ox_rows db). pending_row i r \<and> ob_attempts r = attempts"
proof -
  assume "reply_current i attempts now db"
  then have "filter (\<lambda>r. ob_id r = i \<and> ob_status r = Ob_Pending \<and> ob_attempts r = attempts \<and> ob_next r \<le> now) (ox_rows db) \<noteq> []"
    by (auto simp: reply_current_def)
  then show ?thesis by (auto simp: filter_empty_conv)
qed

text \<open>A post is made of a pending row that is the head of its conversation.\<close>

lemma posted_head:
  assumes ok: "outbox_ok s" and f: "f \<in> set (om_flights s)" "of_stage f \<noteq> Dv_Queued"
  shows "\<exists>r \<in> set (ox_rows (om_db s)). pending_row (out_id f) r \<and> ob_key r = dv_key (of_delivery f) \<and> ob_text r = dv_text (of_delivery f) \<and>
     is_head (om_db s) r \<and> ob_attempts r = dv_attempts (of_delivery f)"
proof -
  have o: "out_flight_ok (om_db s) f" using ok f(1) by (simp add: outbox_ok_def)
  obtain r where r: "r \<in> set (ox_rows (om_db s))" "pending_row (out_id f) r" "ob_attempts r = dv_attempts (of_delivery f)"
    using o f(2) by (auto simp: out_flight_ok_def)
  have "ob_key r = dv_key (of_delivery f) \<and> ob_text r = dv_text (of_delivery f)" using o r(1,2) by (simp add: out_flight_ok_def was_head_def)
  moreover have "is_head (om_db s) r" using o r(2) calculation by (simp add: out_flight_ok_def was_head_def is_head_def)
  ultimately show ?thesis using r by blast
qed

lemma sorted_snoc_le: "sorted xs \<Longrightarrow> (\<And>x. x \<in> set xs \<Longrightarrow> x \<le> y) \<Longrightarrow> sorted (xs @ [y])"
  by (simp add: sorted_append)

lemma post_ok:
  assumes ok: "outbox_ok s" and f: "f \<in> set (om_flights s)" "of_stage f = Dv_Checked"
  shows "outbox_ok (post_step (of_delivery f) answer s)"
proof -
  let ?d = "of_delivery f"
  let ?p = "\<lparr>pt_id = dv_id ?d, pt_key = dv_key ?d, pt_operation = outbox_operation (dv_id ?d), pt_text = dv_text ?d\<rparr>"
  obtain r where r: "r \<in> set (ox_rows (om_db s))" "pending_row (dv_id ?d) r" "ob_key r = dv_key ?d" "ob_attempts r = dv_attempts ?d"
    using posted_head[OF ok f(1)] f(2) by auto
  have fo: "was_head (om_db s) (dv_id ?d) (dv_key ?d) (dv_text ?d)" using ok f(1) by (simp add: outbox_ok_def out_flight_ok_def)
  have po: "posts_ok (om_db s) (om_posts s)" using ok by (simp add: outbox_ok_def)
  have "pt_id p \<le> dv_id ?d" if "p \<in> set (om_posts s)" "pt_key p = dv_key ?d" for p
  proof -
    have "was_head (om_db s) (pt_id p) (pt_key p) (pt_text p)" using po that(1) by (simp add: posts_ok_def)
    then have "pt_id p \<le> ob_id r" using r that(2) unfolding was_head_def by metis
    then show ?thesis using r(2) by simp
  qed
  then have "sorted (map pt_id (filter (\<lambda>p. pt_key p = k) (om_posts s @ [?p])))" for k
    using po by (cases "k = dv_key ?d") (auto simp: posts_ok_def sorted_append)
  then have "posts_ok (om_db s) (om_posts s @ [?p])" using po fo by (simp add: posts_ok_def)
  then have "outbox_ok (s\<lparr>om_posts := om_posts s @ [?p]\<rparr>)" using ok by (simp add: outbox_ok_def)
  then show ?thesis unfolding post_step_def using set_stage_ok[of "s\<lparr>om_posts := om_posts s @ [?p]\<rparr>" f] f(1) r by auto
qed

lemma outbox_restage:
  "end_delivery i (s\<lparr>om_db := db\<rparr>) = (end_delivery i s)\<lparr>om_db := db\<rparr>"
  by (simp add: end_delivery_def)

lemma settle_ok:
  assumes ok: "outbox_ok s"
  shows "outbox_ok (settle_step d answer written now s)"
proof -
  let ?e = "end_delivery (dv_id d) s"
  have e: "outbox_ok ?e" "om_db ?e = om_db s" "\<And>f. f \<in> set (om_flights ?e) \<Longrightarrow> out_id f \<noteq> dv_id d"
    using end_ok[OF ok] by (simp_all add: end_delivery_def)
  have rows: "outbox_rows_ok (om_db s)" using ok by (simp add: outbox_ok_def)
  have db: "outbox_ok (?e\<lparr>om_db := db'\<rparr>)" if "good_outbox {dv_id d} (om_db s) db'" for db'
    by (rule outbox_db_ok[OF e(1)]) (use that e(2,3) in auto)
  show ?thesis
  proof (cases "written")
    case False
    then show ?thesis using e(1) by (simp add: settle_step_def)
  next
    case True
    then show ?thesis using e(1) db good_ack[OF rows] good_fail[OF rows]
      by (auto simp: settle_step_def outbox_restage split: option.split sum.split)
  qed
qed

lemma outbox_step_ok: "outbox_ok s \<Longrightarrow> outbox_ok (outbox_step s now ev)"
proof (cases ev)
  case (Ob_Append k operation t)
  assume ok: "outbox_ok s"
  then have "outbox_rows_ok (om_db s)" by (simp add: outbox_ok_def)
  then show ?thesis using Ob_Append ok outbox_db_ok[OF ok good_append] by (auto split: sum.split)
next
  case (Ob_Claim limit)
  assume ok: "outbox_ok s"
  then show ?thesis using Ob_Claim claim_was_head by (auto simp: outbox_ok_def)
next
  case (Ob_Admit allowed d)
  assume ok: "outbox_ok s"
  have "outbox_ok (s\<lparr>om_claimed := remove1 d (om_claimed s)\<rparr>)"
    using ok set_remove1_subset[of d "om_claimed s"] by (auto simp: outbox_ok_def)
  moreover have "was_head (om_db s) (dv_id d) (dv_key d) (dv_text d)" if "d \<in> set (om_claimed s)" using ok that by (simp add: outbox_ok_def)
  ultimately show ?thesis using Ob_Admit ok admit_ok[of "s\<lparr>om_claimed := remove1 d (om_claimed s)\<rparr>" d allowed] by simp
next
  case (Ob_Check i)
  assume ok: "outbox_ok s"
  have "outbox_ok (check_step (of_delivery f) now s)" if "f \<in> set (om_flights s)" for f
    using set_stage_ok[OF ok that] current_row end_ok[OF ok] by (auto simp: check_step_def)
  then show ?thesis using Ob_Check ok by (auto simp: on_flight_def find_Some_iff split: option.split)
next
  case (Ob_Post i answer)
  assume ok: "outbox_ok s"
  then show ?thesis using Ob_Post post_ok[OF ok] by (auto simp: on_flight_def find_Some_iff split: option.split)
next
  case (Ob_Settle i written)
  assume ok: "outbox_ok s"
  then show ?thesis using Ob_Settle settle_ok[OF ok] by (auto simp: on_flight_def split: option.split delivery_stage.split)
next
  case (Ob_Manage plugin action i)
  assume ok: "outbox_ok s"
  then have "outbox_rows_ok (om_db s)" by (simp add: outbox_ok_def)
  then show ?thesis using Ob_Manage outbox_db_ok[OF ok good_manage] by simp
next
  case Ob_Prune
  assume ok: "outbox_ok s"
  then have "outbox_rows_ok (om_db s)" by (simp add: outbox_ok_def)
  then show ?thesis using Ob_Prune outbox_db_ok[OF ok good_prune] by simp
next
  case Ob_Crash
  assume ok: "outbox_ok s"
  then show ?thesis using Ob_Crash by (simp add: outbox_ok_def)
qed

lemma outbox_run_ok: "outbox_run s \<Longrightarrow> outbox_ok s"
proof (induction rule: outbox_run.induct)
  case empty
  show ?case by (simp add: empty_outbox_def outbox_ok_def outbox_rows_ok_def posts_ok_def)
qed (rule outbox_step_ok)

section \<open>Posts\<close>

text \<open>
  C10: However appends, pumps, deliveries, retries, discards, prunes and crashes are interleaved, the
  posts of a conversation are made in the order its replies were recorded: a reply never overtakes
  an earlier one, and is only posted again before a later one is.
\<close>

theorem replies_are_posted_in_order:
  assumes "outbox_run s"
  shows "sorted (map pt_id (filter (\<lambda>p. pt_key p = k) (om_posts s)))"
  using outbox_run_ok[OF assms] by (simp add: outbox_ok_def posts_ok_def)

lemma step_event:
  assumes "om_posts (outbox_step s now ev) \<noteq> om_posts s"
  shows "\<exists>i answer. ev = Ob_Post i answer"
proof -
  have e: "om_posts (end_delivery i x) = om_posts x" for i x by (simp add: end_delivery_def)
  have st: "om_posts (settle_step d answer written now s) = om_posts s" for d answer written
    by (simp add: settle_step_def e split: option.split sum.split)
  have c: "om_posts (check_step d now s) = om_posts s" for d by (simp add: check_step_def e set_stage_def)
  have a: "om_posts (admit allowed x d) = om_posts x" for allowed x d by (simp add: admit_def begin_delivery_def)
  show ?thesis using assms st c a
    by (cases ev) (auto simp: on_flight_def split: sum.split_asm option.split_asm delivery_stage.split_asm if_split_asm)
qed

lemma step_later_outbox:
  assumes ok: "outbox_ok s"
  shows "later_outbox (om_db s) (om_db (outbox_step s now ev))"
proof -
  have rows: "outbox_rows_ok (om_db s)" using ok by (simp add: outbox_ok_def)
  have e: "om_db (end_delivery i x) = om_db x" for i x by (simp add: end_delivery_def)
  have c: "om_db (check_step d now s) = om_db s" "om_db (post_step d answer s) = om_db s" for d answer
    by (simp_all add: check_step_def post_step_def e set_stage_def)
  have a: "om_db (admit allowed x d) = om_db x" for allowed x d by (simp add: admit_def begin_delivery_def)
  have st: "later_outbox (om_db s) (om_db (settle_step d answer written now s))" for d answer written
    using good_ack[OF rows] good_fail[OF rows] by (auto simp: settle_step_def e good_outbox_def split: option.split sum.split)
  show ?thesis
  proof (cases ev)
    case (Ob_Append k operation t)
    then show ?thesis using good_append[OF rows] by (auto simp: good_outbox_def split: sum.split)
  next
    case (Ob_Manage plugin action i)
    then show ?thesis using good_manage[OF rows] by (simp add: good_outbox_def)
  next
    case Ob_Prune
    then show ?thesis using good_prune[OF rows] by (simp add: good_outbox_def)
  next
    case (Ob_Settle i written)
    then show ?thesis using st by (auto simp: on_flight_def split: option.split delivery_stage.split)
  qed (auto simp: on_flight_def c a split: option.split)
qed

lemma done_row_stays:
  assumes "outbox_rows_ok db" "later_outbox db db'" "r' \<in> set (ox_rows db')" "r \<in> set (ox_rows db)" "ob_id r' = ob_id r" "ob_status r = Ob_Done"
  shows "r' = r"
proof -
  have "ob_id r \<le> ox_last db" using assms(1,4) by (simp add: outbox_rows_ok_def)
  then have "\<not> ox_last db < ob_id r'" using assms(5) by simp
  then obtain q where q: "q \<in> set (ox_rows db)" "later_row q r'" using assms(2,3) unfolding later_outbox_def by blast
  have "ob_id q = ob_id r" using q(2) assms(5) unfolding later_row_def by metis
  then have "q = r" by (rule same_id_row[OF assms(1) q(1) assms(4)])
  then show ?thesis using q(2) assms(6) unfolding later_row_def by metis
qed

text \<open>
  C11: A post is made of the text of a reply that is still owed, has the attempts its claim saw and
  is the oldest undelivered reply of its conversation; a delivered or discarded reply is never
  changed again, so it is never posted again, and a dead letter not before the operator retries it.
\<close>

theorem only_owed_replies_are_posted:
  assumes "outbox_run s"
  shows "(om_posts (outbox_step s now ev) = om_posts s \<or>
     (\<exists>r answer. r \<in> set (ox_rows (om_db s)) \<and> ob_status r = Ob_Pending \<and> ob_attempts r < 6 \<and> is_head (om_db s) r \<and> ev = Ob_Post (ob_id r) answer \<and>
        om_posts (outbox_step s now ev) =
          om_posts s @ [\<lparr>pt_id = ob_id r, pt_key = ob_key r, pt_operation = outbox_operation (ob_id r), pt_text = ob_text r\<rparr>])) \<and>
    (\<forall>r' \<in> set (ox_rows (om_db (outbox_step s now ev))). \<forall>r \<in> set (ox_rows (om_db s)).
        ob_id r' = ob_id r \<and> ob_status r = Ob_Done \<longrightarrow> r' = r)"
proof
  have ok: "outbox_ok s" by (rule outbox_run_ok[OF assms])
  then have rows: "outbox_rows_ok (om_db s)" by (simp add: outbox_ok_def)
  show "om_posts (outbox_step s now ev) = om_posts s \<or>
     (\<exists>r answer. r \<in> set (ox_rows (om_db s)) \<and> ob_status r = Ob_Pending \<and> ob_attempts r < 6 \<and> is_head (om_db s) r \<and> ev = Ob_Post (ob_id r) answer \<and>
        om_posts (outbox_step s now ev) =
          om_posts s @ [\<lparr>pt_id = ob_id r, pt_key = ob_key r, pt_operation = outbox_operation (ob_id r), pt_text = ob_text r\<rparr>])"
  proof (cases "om_posts (outbox_step s now ev) = om_posts s")
    case False
    obtain i answer where ev: "ev = Ob_Post i answer" using False step_event by blast
    obtain f where g: "find (\<lambda>g. out_id g = i) (om_flights s) = Some f" "of_stage f = Dv_Checked" "outbox_step s now ev = post_step (of_delivery f) answer s"
      using False ev by (auto simp: on_flight_def split: option.split_asm if_split_asm)
    then have f: "f \<in> set (om_flights s)" "of_stage f = Dv_Checked" "out_id f = i" "outbox_step s now ev = post_step (of_delivery f) answer s"
      by (auto simp: find_Some_iff)
    obtain r where r: "r \<in> set (ox_rows (om_db s))" "pending_row (out_id f) r" "ob_key r = dv_key (of_delivery f)"
      "ob_text r = dv_text (of_delivery f)" "is_head (om_db s) r"
      using posted_head[OF ok f(1)] f(2) by auto
    have "ob_attempts r < 6" using rows r(1,2) by (simp add: outbox_rows_ok_def outbox_max_attempts_def)
    then show ?thesis using r f(3,4) ev by (intro disjI2 exI[of _ r] exI[of _ answer]) (simp add: post_step_def set_stage_def)
  qed simp
  have l: "later_outbox (om_db s) (om_db (outbox_step s now ev))" by (rule step_later_outbox[OF ok])
  show "\<forall>r' \<in> set (ox_rows (om_db (outbox_step s now ev))). \<forall>r \<in> set (ox_rows (om_db s)).
        ob_id r' = ob_id r \<and> ob_status r = Ob_Done \<longrightarrow> r' = r"
    using done_row_stays[OF rows l] by blast
qed

section \<open>Failures\<close>

lemma retry_loop_closed: "0 < d \<Longrightarrow> d \<le> retry_max \<Longrightarrow> retry_loop n d = min (d * 2 ^ n) retry_max"
proof (induction n arbitrary: d)
  case (Suc n)
  have m: "retry_max = 300000" by (simp add: retry_max_def)
  show ?case
  proof (cases "d \<ge> retry_max div 2")
    case True
    have "(300000::int) \<le> d * 2" using True unfolding m by simp
    also have "\<dots> \<le> d * 2 ^ Suc n" using Suc.prems(1) by simp
    finally show ?thesis using True m by simp
  next
    case False
    then have "retry_loop n (d * 2) = min (d * 2 * 2 ^ n) retry_max" using Suc.prems(1) m by (intro Suc.IH) simp_all
    then show ?thesis using False by (simp add: mult.assoc)
  qed
qed simp

lemma retry_delay_closed: "outbox_retry_delay n = min (5000 * 2 ^ n) 300000"
  using retry_loop_closed[of retry_base n] by (simp add: outbox_retry_delay_def retry_base_def retry_max_def)

text \<open>
  C17: A post that fails counts one attempt of its reply and holds it back for five seconds, doubled with
  every failure before it up to five minutes; the sixth failure makes it a dead letter, so no reply
  has more than six attempts.
\<close>

theorem failed_posts_back_off:
  assumes "outbox_run s" "f \<in> set (om_flights s)" "of_stage f = Dv_Answered (Some reason)"
  shows "\<exists>r \<in> set (ox_rows (om_db s)). \<exists>r' \<in> set (ox_rows (om_db (outbox_step s now (Ob_Settle (out_id f) True)))).
    ob_id r = out_id f \<and> ob_id r' = out_id f \<and> ob_attempts r' = ob_attempts r + 1 \<and> ob_attempts r' \<le> 6 \<and>
    ob_next r' = now + min (5000 * 2 ^ ob_attempts r) 300000 \<and>
    ob_status r' = (if ob_attempts r' = 6 then Ob_Dead else Ob_Pending)"
proof -
  have ok: "outbox_ok s" by (rule outbox_run_ok[OF assms(1)])
  obtain r where r: "r \<in> set (ox_rows (om_db s))" "pending_row (out_id f) r" "ob_attempts r = dv_attempts (of_delivery f)"
    using posted_head[OF ok assms(2)] assms(3) by auto
  have "ob_attempts r < 6" using ok r(1,2) by (simp add: outbox_ok_def outbox_rows_ok_def outbox_max_attempts_def)
  have "find (\<lambda>g. out_id g = out_id f) (om_flights s) = Some f"
  proof -
    have "find (\<lambda>g. out_id g = out_id f) fs = Some f" if "distinct (map out_id fs)" "f \<in> set fs" for fs
      using that by (induction fs) (auto simp: image_iff)
    then show ?thesis using ok assms(2) by (simp add: outbox_ok_def)
  qed
  then have st: "outbox_step s now (Ob_Settle (out_id f) True) = settle_step (of_delivery f) (Some reason) True now s"
    using assms(3) by (simp add: on_flight_def)
  let ?f = "failed_reply reason (outbox_retry_delay (dv_attempts (of_delivery f))) outbox_max_attempts now"
  have db: "om_db (outbox_step s now (Ob_Settle (out_id f) True)) = map_outbox (pending_row (out_id f)) ?f (om_db s)"
    using r(1,2) unfolding st by (auto simp: settle_step_def end_delivery_def fail_reply_def Let_def)
  have "?f r \<in> set (ox_rows (map_outbox (pending_row (out_id f)) ?f (om_db s)))" using r(1,2) by (auto simp: map_outbox_def image_iff)
  then show ?thesis unfolding db using r \<open>ob_attempts r < 6\<close>
    by (intro bexI[of _ r] bexI[of _ "?f r"]) (auto simp: failed_reply_def retry_delay_closed outbox_max_attempts_def)
qed

section \<open>Receipts and pauses\<close>

text \<open>
  Pruning removes only receipts that are delivered, older than a day and followed by a later turn,
  and the conversation's newest row stays: so a turn that is derived again after a prune is still
  recognised while it is the newest.
\<close>

theorem newest_receipt_stays:
  assumes "r \<in> set (ox_rows db)"
  shows "(\<exists>n \<in> set (ox_rows (prune_outbox now db)). ob_key n = ob_key r \<and> ob_id r \<le> ob_id n) \<and>
    (r \<notin> set (ox_rows (prune_outbox now db)) \<longrightarrow>
       ob_status r = Ob_Done \<and> ob_updated r < now - 86400000 \<and>
       (\<exists>n \<in> set (ox_rows db). ob_key n = ob_key r \<and> ob_id r < ob_id n \<and> turn_of (ob_operation n) \<noteq> turn_of (ob_operation r)))"
proof
  let ?S = "{n \<in> set (ox_rows db). ob_key n = ob_key r}"
  have f: "finite (ob_id ` ?S)" by simp
  then have "Max (ob_id ` ?S) \<in> ob_id ` ?S" by (rule Max_in) (use assms in auto)
  then obtain m where "m \<in> ?S" "ob_id m = Max (ob_id ` ?S)" by (metis (no_types, lifting) image_iff)
  then have m: "m \<in> ?S" "\<forall>n \<in> ?S. ob_id n \<le> ob_id m" using Max_ge[OF f] by auto
  then have "\<not> superseded_reply db m" by (fastforce simp: superseded_reply_def)
  then have "m \<in> set (ox_rows (prune_outbox now db))" using m(1) by (simp add: prune_outbox_def)
  then show "\<exists>n \<in> set (ox_rows (prune_outbox now db)). ob_key n = ob_key r \<and> ob_id r \<le> ob_id n" using m assms by auto
  show "r \<notin> set (ox_rows (prune_outbox now db)) \<longrightarrow>
       ob_status r = Ob_Done \<and> ob_updated r < now - 86400000 \<and>
       (\<exists>n \<in> set (ox_rows db). ob_key n = ob_key r \<and> ob_id r < ob_id n \<and> turn_of (ob_operation n) \<noteq> turn_of (ob_operation r))"
    using assms by (auto simp: prune_outbox_def superseded_reply_def done_retention_def)
qed

text \<open>The pause the backlog shows is the pause intake enforces.\<close>

lemma shown_pause_is_enforced:
  assumes "backlog_status plugin now db = Inr b"
  shows "bl_paused b \<longleftrightarrow> backlog_full plugin db = Some Backlog_Full"
proof -
  have "length (filter (\<lambda>r. ob_status r = Ob_Pending) rs) + length (filter (\<lambda>r. ob_status r = Ob_Dead) rs) = length rs" if "\<forall>r \<in> set rs. undone r" for rs
    using that by (induction rs) auto
  from this[of "owed plugin db"]
  have "length (filter (\<lambda>r. ob_status r = Ob_Pending) (owed plugin db)) + length (filter (\<lambda>r. ob_status r = Ob_Dead) (owed plugin db)) = length (owed plugin db)"
    by simp
  then show ?thesis using assms
    by (auto simp only: backlog_status_def backlog_full_def Let_def sum.inject backlog.simps option.distinct split: if_split_asm if_split)
qed

section \<open>The pump\<close>

lemma admit_simps:
  "om_db (admit allowed s d) = om_db s"
  "om_flights (admit allowed s d) =
     om_flights s @ (if allowed (ck_plugin (dv_key d)) \<and> dv_id d \<notin> set (om_in_flight s) then [\<lparr>of_delivery = d, of_stage = Dv_Queued\<rparr>] else [])"
  "set (om_in_flight (admit allowed s d)) =
     set (om_in_flight s) \<union> (if allowed (ck_plugin (dv_key d)) then {dv_id d} else {})"
  by (auto simp: admit_def begin_delivery_def)

lemma admits_flights:
  "distinct (map dv_id ds) \<Longrightarrow>
   om_flights (foldl (admit allowed) s ds) = om_flights s @
     map (\<lambda>d. \<lparr>of_delivery = d, of_stage = Dv_Queued\<rparr>) (filter (\<lambda>d. allowed (ck_plugin (dv_key d)) \<and> dv_id d \<notin> set (om_in_flight s)) ds)"
proof (induction ds arbitrary: s)
  case (Cons d ds)
  have "filter (\<lambda>x. allowed (ck_plugin (dv_key x)) \<and> dv_id x \<notin> set (om_in_flight (admit allowed s d))) ds =
      filter (\<lambda>x. allowed (ck_plugin (dv_key x)) \<and> dv_id x \<notin> set (om_in_flight s)) ds"
    using Cons.prems by (intro filter_cong) (auto simp: admit_simps(3) image_iff)
  then show ?case using Cons by (simp add: admit_simps(2))
qed simp

lemma distinct_claims: "outbox_rows_ok db \<Longrightarrow> distinct (map dv_id (claim_replies limit now db))"
proof -
  assume "outbox_rows_ok db"
  then have "distinct (map ob_id (filter (due_head db now) (ox_rows db)))" by (simp add: outbox_rows_ok_def distinct_map_filter)
  then have "distinct (map ob_id (sort_key ob_id (filter (due_head db now) (ox_rows db))))" by (simp add: distinct_map)
  then have "distinct (take limit (map ob_id (sort_key ob_id (filter (due_head db now) (ox_rows db)))))" by (rule distinct_take)
  then show ?thesis by (simp add: claim_replies_def delivery_of_def comp_def take_map)
qed

text \<open>The due heads, oldest first.\<close>

definition due_heads :: "int \<Rightarrow> outbox_db \<Rightarrow> outbox_row list" where
  "due_heads now db = sort_key ob_id (filter (due_head db now) (ox_rows db))"

text \<open>
  C37: A pump admits, of the thirty-two oldest due replies, those of plugins that may be delivered to and
  that are not in flight, in their order, and nothing else. So while thirty-two conversations of a
  disabled plugin are owed older replies, no reply of any other plugin is ever posted.
\<close>

theorem disabled_plugin_starves_the_others:
  assumes "outbox_run s"
  shows "om_flights (pump allowed now s) = om_flights s @
      map (\<lambda>r. \<lparr>of_delivery = delivery_of r, of_stage = Dv_Queued\<rparr>)
        (filter (\<lambda>r. allowed (ck_plugin (ob_key r)) \<and> ob_id r \<notin> set (om_in_flight s)) (take 32 (due_heads now (om_db s)))) \<and>
    ((\<forall>r \<in> set (take 32 (due_heads now (om_db s))). \<not> allowed (ck_plugin (ob_key r))) \<longrightarrow> pump allowed now s = s)"
proof
  have rows: "outbox_rows_ok (om_db s)" using outbox_run_ok[OF assms] by (simp add: outbox_ok_def)
  have c: "claim_replies delivery_batch now (om_db s) = map delivery_of (take 32 (due_heads now (om_db s)))"
    by (simp add: claim_replies_def due_heads_def delivery_batch_def)
  have d: "ck_plugin (dv_key (delivery_of r)) = ck_plugin (ob_key r)" "dv_id (delivery_of r) = ob_id r" for r by (simp_all add: delivery_of_def)
  show "om_flights (pump allowed now s) = om_flights s @
      map (\<lambda>r. \<lparr>of_delivery = delivery_of r, of_stage = Dv_Queued\<rparr>)
        (filter (\<lambda>r. allowed (ck_plugin (ob_key r)) \<and> ob_id r \<notin> set (om_in_flight s)) (take 32 (due_heads now (om_db s))))"
    using admits_flights[OF distinct_claims[OF rows], of allowed s delivery_batch now]
    unfolding pump_def c by (simp add: filter_map comp_def d)
  have "foldl (admit allowed) s ds = s" if "\<forall>d \<in> set ds. \<not> allowed (ck_plugin (dv_key d))" for ds
    using that by (induction ds) (simp_all add: admit_def)
  then show "(\<forall>r \<in> set (take 32 (due_heads now (om_db s))). \<not> allowed (ck_plugin (ob_key r))) \<longrightarrow> pump allowed now s = s"
    unfolding pump_def c using d(1) by simp
qed

section \<open>Samples\<close>

definition outbox_steps :: "outbox \<Rightarrow> (int \<times> outbox_event) list \<Rightarrow> outbox" where
  "outbox_steps s evs = foldl (\<lambda>s e. outbox_step s (fst e) (snd e)) s evs"

lemma outbox_run_steps: "outbox_run s \<Longrightarrow> outbox_run (outbox_steps s evs)"
  by (induction evs arbitrary: s) (simp_all add: outbox_steps_def outbox_run.step)

definition sample_conv :: "string \<Rightarrow> conv_key" where
  "sample_conv t = \<lparr>ck_plugin = ''p'', ck_account = ''a'', ck_thread = t\<rparr>"

definition sample_reply_claim :: "nat \<Rightarrow> string \<Rightarrow> nat \<Rightarrow> delivery" where
  "sample_reply_claim i t attempts = \<lparr>dv_id = i, dv_key = sample_conv ''t'', dv_text = t, dv_attempts = attempts\<rparr>"

text \<open>Two replies of one thread: the first fails once, is posted again, and then the second is.\<close>

definition sample_deliver :: "int \<Rightarrow> delivery \<Rightarrow> string option \<Rightarrow> (int \<times> outbox_event) list" where
  "sample_deliver now d answer =
     [(now, Ob_Claim 32), (now, Ob_Admit (\<lambda>_. True) d), (now, Ob_Check (dv_id d)), (now, Ob_Post (dv_id d) answer)]"

definition sample_failing :: outbox where
  "sample_failing = outbox_steps empty_outbox
     ([(1, Ob_Append (sample_conv ''t'') ''s:1'' ''x''), (2, Ob_Append (sample_conv ''t'') ''s:2'' ''y'')] @
      sample_deliver 3 (sample_reply_claim 1 ''x'' 0) (Some ''down''))"

definition sample_posted :: outbox where
  "sample_posted = outbox_steps sample_failing
     ((4, Ob_Settle 1 True) # sample_deliver 6000 (sample_reply_claim 1 ''x'' 1) None @
      (6001, Ob_Settle 1 True) # sample_deliver 6002 (sample_reply_claim 2 ''y'' 0) None)"

lemma sample_failing_run: "outbox_run sample_failing"
  unfolding sample_failing_def by (rule outbox_run_steps[OF outbox_run.empty])

lemma sample_posted_run: "outbox_run sample_posted"
  unfolding sample_posted_def by (rule outbox_run_steps[OF sample_failing_run])

lemma replies_are_posted_in_order_witness:
  "map pt_id (om_posts sample_posted) = [1, 1, 2] \<and> sorted (map pt_id (filter (\<lambda>p. pt_key p = sample_conv ''t'') (om_posts sample_posted)))"
proof -
  have "map pt_id (om_posts sample_posted) = [1, 1, 2]" by code_simp
  then show ?thesis using replies_are_posted_in_order[OF sample_posted_run] by blast
qed

definition sample_checked :: outbox where
  "sample_checked = outbox_steps empty_outbox
     [(1, Ob_Append (sample_conv ''t'') ''s:1'' ''x''), (3, Ob_Claim 32), (3, Ob_Admit (\<lambda>_. True) (sample_reply_claim 1 ''x'' 0)), (3, Ob_Check 1)]"

lemma only_owed_replies_are_posted_witness:
  "\<exists>r \<in> set (ox_rows (om_db sample_checked)). ob_status r = Ob_Pending \<and>
     map pt_id (om_posts (outbox_step sample_checked 4 (Ob_Post 1 None))) = [ob_id r]"
proof -
  have run: "outbox_run sample_checked" unfolding sample_checked_def by (rule outbox_run_steps[OF outbox_run.empty])
  have p: "map pt_id (om_posts (outbox_step sample_checked 4 (Ob_Post 1 None))) = [1]" "om_posts sample_checked = []" by code_simp+
  then have ne: "om_posts (outbox_step sample_checked 4 (Ob_Post 1 None)) \<noteq> om_posts sample_checked" by auto
  obtain r answer where "r \<in> set (ox_rows (om_db sample_checked))" "ob_status r = Ob_Pending" "Ob_Post 1 None = Ob_Post (ob_id r) answer"
    using only_owed_replies_are_posted[OF run, of 4 "Ob_Post 1 None"] ne by blast
  then show ?thesis using p(1) by (intro bexI[of _ r]) simp_all
qed

lemma failed_posts_back_off_witness:
  "\<exists>r' \<in> set (ox_rows (om_db (outbox_step sample_failing 4 (Ob_Settle 1 True)))). ob_id r' = 1 \<and> ob_attempts r' = 1 \<and> ob_next r' = 5004"
proof -
  have l: "map (\<lambda>f. (out_id f, case of_stage f of Dv_Answered (Some e) \<Rightarrow> e | _ \<Rightarrow> [])) (om_flights sample_failing) = [(1, ''down'')]" by code_simp
  then obtain f where f: "om_flights sample_failing = [f]" "out_id f = 1" "(case of_stage f of Dv_Answered (Some e) \<Rightarrow> e | _ \<Rightarrow> []) = ''down''"
    by (auto simp only: map_eq_Cons_conv list.map_disc_iff prod.inject)
  have stage: "of_stage f = Dv_Answered (Some ''down'')" using f(3) by (cases "of_stage f") (simp_all split: option.split_asm)
  have z: "\<forall>r \<in> set (ox_rows (om_db sample_failing)). ob_attempts r = 0" by code_simp
  have "f \<in> set (om_flights sample_failing)" using f(1) by simp
  from failed_posts_back_off[OF sample_failing_run this stage, of 4] f(2) z show ?thesis by fastforce
qed

lemma newest_receipt_stays_witness:
  "\<exists>n \<in> set (ox_rows (prune_outbox 99999999999 (om_db sample_posted))). ob_key n = sample_conv ''t'' \<and> 1 \<le> ob_id n"
proof -
  have l: "map (\<lambda>r. (ob_id r, ob_key r)) (ox_rows (om_db sample_posted)) = [(1, sample_conv ''t''), (2, sample_conv ''t'')]" by code_simp
  have "(1, sample_conv ''t'') \<in> set (map (\<lambda>r. (ob_id r, ob_key r)) (ox_rows (om_db sample_posted)))" unfolding l by simp
  then obtain r where "r \<in> set (ox_rows (om_db sample_posted))" "ob_id r = 1" "ob_key r = sample_conv ''t''" by auto
  then show ?thesis using newest_receipt_stays[of r "om_db sample_posted" 99999999999] by auto
qed

text \<open>Thirty-two conversations of a disabled plugin are owed a reply, and one of another plugin.\<close>

definition sample_crowd :: outbox where
  "sample_crowd = outbox_steps empty_outbox
     (map (\<lambda>c. (1, Ob_Append (sample_conv [c]) (c # '':1'') ''x'')) ''ABCDEFGHIJKLMNOPQRSTUVWXYZabcdef'' @
      [(2, Ob_Append \<lparr>ck_plugin = ''q'', ck_account = ''a'', ck_thread = ''t''\<rparr> ''s:1'' ''y'')])"

lemma disabled_plugin_starves_the_others_witness:
  "(\<exists>r \<in> set (due_heads 3 (om_db sample_crowd)). ck_plugin (ob_key r) = ''q'') \<and>
   pump (\<lambda>plugin. plugin \<noteq> ''p'') 3 sample_crowd = sample_crowd"
proof -
  have run: "outbox_run sample_crowd" unfolding sample_crowd_def by (rule outbox_run_steps[OF outbox_run.empty])
  have l: "map (\<lambda>r. ck_plugin (ob_key r)) (due_heads 3 (om_db sample_crowd)) = replicate 32 ''p'' @ [''q'']" by code_simp
  then have "map (\<lambda>r. ck_plugin (ob_key r)) (take 32 (due_heads 3 (om_db sample_crowd))) = replicate 32 ''p''" by (simp add: take_map[symmetric])
  then have "\<forall>r \<in> set (take 32 (due_heads 3 (om_db sample_crowd))). \<not> ck_plugin (ob_key r) \<noteq> ''p''"
    by (metis (no_types, lifting) image_eqI in_set_replicate list.set_map)
  moreover have "''q'' \<in> set (map (\<lambda>r. ck_plugin (ob_key r)) (due_heads 3 (om_db sample_crowd)))" unfolding l by simp
  ultimately show ?thesis using disabled_plugin_starves_the_others[OF run] by auto
qed

end
