(* ===== verification/Spec2Isabelle.thy ===== *)
theory Spec2Isabelle
  imports Patterns Rule_Set Inherit Rule_Store Models Queue_Store Queue_Service Session_Log
    Conv_Stream Graph_Cycles Manifest Factory_State Factory_Dispatch
    Factory_Claim Factory_Graph Factory_Edits Relay_Paging Webhook_Numbers
    Webhook_Promises Outbox_Promises
begin

text \<open>
  ocman: a verification development.

  ocman is a Go program that supervises coding agents: it keeps their sessions, permissions and
  queued prompts, streams their conversations to viewers, plans and dispatches work (the factory),
  runs saved prompts on a schedule or a webhook (routines), and talks to a relay server that stores
  encrypted shares and webhook deliveries. Modelled here is the code that decides something:
  tables with their constraints, state machines, guards, orderings, limits and codecs. A Go struct is a
  record, an enumeration a datatype, an error a value of a sum or option, SQL the list operation it
  performs, a lock or a transaction one step. Names follow the source; the manifest maps every
  definition to the lines it translates.

  \<^bold>\<open>Permissions.\<close> \<open>Patterns\<close> models providerprotocol/pattern.go and the matchers of
  permissions/ruleset.go; \<open>Rule_Set\<close> the decision over configured rules and approvals; \<open>Inherit\<close>
  permissions/inherit.go, which turns approvals into the rules a child session starts with;
  \<open>Rule_Store\<close> the standing approvals of a provider (platforms/provider/rules.go). Shown: the matcher
  decides the glob language of the written pattern, a configured deny is final, nothing is granted without an
  always-reply, the inherited rules are exactly the eligible ones and live rules win. \<open>Models\<close> is
  platforms/model.go, which the other parts use to route a prompt to a platform.

  \<^bold>\<open>Queued follow-ups.\<close> \<open>Queue_Store\<close> is the table (state/queued_message.go), \<open>Queue_Service\<close> the
  service that drains it on idle edges (queuesvc). Shown: first in, first out; nothing is sent
  twice; a refused prompt is set aside after five failures. The locale \<open>follow_up_queue\<close> states what
  the service relies on and is interpreted on the table.

  \<^bold>\<open>Conversation stream.\<close> \<open>Session_Log\<close> is the bounded frame log (convstream/log.go), \<open>Conv_Stream\<close> the
  status machine, turn edges, prompts, subscribers and resumption (convstream). Shown: a resumed
  client misses nothing, the log stays within its bounds, turn edges alternate and tell a viewer the turn
  from the first one it sees, and the status and prompts it folds from the stream are the session's.

  \<^bold>\<open>Factory.\<close> \<open>Graph_Cycles\<close> and \<open>Manifest\<close> check a proposed plan (factory), \<open>Factory_State\<close> and
  \<open>Factory_Dispatch\<close> are the work graph and the dispatch states derived from it
  (state/factory_issues.go), \<open>Factory_Claim\<close> the claim of work, \<open>Factory_Graph\<close> and \<open>Factory_Edits\<close> the
  edits with their guards, the batch and the revision that awaits approval. Shown: edits keep the
  hierarchy a forest and the dependencies acyclic, the listing follows a declarative table, ready
  work is claimable work, claims respect capacities, started work is left alone.

  \<^bold>\<open>Relay.\<close> \<open>Relay_Store\<close> (share/disk.go), \<open>Relay_Ids\<close> (relay/id.go), \<open>Relay_Shares\<close> (relay/server.go,
  relay/sweep.go), \<open>Relay_Inbox\<close> (relay/inbox.go, relay/inbox_retention.go) and \<open>Relay_Server\<close>, the
  interleaving of all requests: a request that checks before it locks is two events, between which
  any other may come. \<open>Relay_Runs\<close> holds the properties of every run (limits, sealing, retention,
  deletion), \<open>Relay_Paging\<close> the owner's walk over the pages of an inbox.

  \<^bold>\<open>Webhooks.\<close> \<open>Webhook_Match\<close> and \<open>Webhook_Numbers\<close> decide which deliveries a subscription takes
  (webhook/dispatch.go): JSON pointers lead to their value, and a number's canonical text decides
  its value. \<open>Webhook_Delivery\<close> is the way of a delivery (webhook/poller.go, webhook/dispatch.go,
  state/webhook_delivery.go): its log row, its dispatches, the launches of the routines, the
  acknowledgement, the retries and the replay; \<open>Json_Maps\<close> is the JSON text in which the log keeps
  headers and query, with its round trip. \<open>Webhook_Runs\<close> is every sequence of these beside the
  routine service, \<open>Webhook_Promises\<close> shows that a delivery runs a routine once, that an acknowledged one
  is accounted for to every subscription, that attempts are bounded and a replay repeats the request, and
  two shortfalls (a retried delivery is never logged; retries do not slow down). Each attempt at a
  delivery is one step (in the code several transactions with calls between them), so a crash inside one
  is seen only through the separate steps of the routine service.

  \<^bold>\<open>Routines.\<close> \<open>Routine_Store\<close> is the tables \<open>routine\<close> and \<open>routine_run\<close> with their partial unique
  indexes (state/routines.go, state/routine_runs.go), \<open>Routine_Service\<close> the validation of a routine and
  its schedule, \<open>Routine_Launch\<close> the launch of a run as the steps between which other goroutines may
  act, its settlement, the scheduler's tick and the recovery (routines). \<open>Routine_Runs\<close> is every
  interleaving of these steps with edits and crashes, and the invariant it keeps. \<open>Routine_Promises\<close> shows that
  an occurrence is prompted once, that a shared session has one run, that a settled run is final and
  announced once and its occurrence, unless the schedule was edited, not due again (a settlement's
  reading of the routine and its writing are one step), and four places where the service falls short
  (a taken session stops the tick; a stale listing discards a schedule; a success before the
  prompt; a cron routine enabled again that is never due).

  \<^bold>\<open>Plugins.\<close> \<open>Plugin_Outbox\<close> is the outbox of the replies a conversation plugin is owed
  (state/plugin_conversation_outbox.go) with the pump that claims them and the deliveries that check,
  post and settle them (pluginsmod/outbox.go, outbox_pump.go), each a step of its own between which any
  other may come. \<open>Outbox_Promises\<close> shows that the replies of a conversation are posted in their order,
  that only owed replies are posted, how failures back off and end as dead letters, which receipts
  stay, that the pause shown is the pause enforced, and that the replies of a disabled plugin can
  keep every other plugin's replies from being claimed.

  \<^bold>\<open>Bounds and fuel.\<close> Recursive SQL queries are iterated as often as their table is long, which
  reaches every row. \<open>requirement_loop\<close> has a fuel of one more than the number of issues, and the well-formedness
  invariant shows that it is enough. \<open>follow_cursors\<close> is given the listings it meets; an unchanged
  inbox of n deliveries takes n div 50 + 1 of them. Every other recursion is structural or has a
  termination proof. Sizes, times and sequence numbers are unbounded, except where the code itself
  compares or wraps them.

  \<^bold>\<open>Parameters.\<close> Hashes, encryption, recipient parsing, the cron library, the clock, the random source,
  the answers of agents, hosts and platforms are arguments. The relay's random ids and the
  ids of queued prompts are assumed never to repeat where a statement says so; no other freshness is
  assumed.

  \<^bold>\<open>Text.\<close> Characters stand for code points or, in the relay, for bytes; letters are folded in ASCII only,
  as SQLite does, while Go folds all of Unicode. White space is ASCII white space.

  \<^bold>\<open>Not modelled.\<close> Adapters of external agents, git and forge calls, process supervision, HTTP and MCP
  request decoding, transcripts and read models, analytics, schema migrations beyond the
  constraints used here, and the web frontend: they translate between formats or call what is
  outside the repository. The rate limiter counts in floating point; the viewer page is HTML. The
  database and the file system are taken to work, except where a failure is an argument; a path
  below a file reads as absent, and a manifest whose issues are null as one without a graph.
\<close>

end
